(* ===== verification/Prelude.thy ===== *)
theory Prelude
  imports Main "HOL-Library.Word"
begin

text \<open>Shared definitions and facts: the byte and word types, big-endian numbers as byte lists
  (\<open>be_val\<close>, \<open>be_bytes\<close>), and the arithmetic of \<open>unat\<close> under casts, shifts and masks. Machine integers
  keep their width; where a C expression may wrap, the model computes on words or writes the modulus out.\<close>

unbundle bit_operations_syntax

type_synonym byte = "8 word"
type_synonym u16 = "16 word"
type_synonym u32 = "32 word"
type_synonym u64 = "64 word"

definition be_val :: "byte list \<Rightarrow> nat" where
  "be_val bs = foldl (\<lambda>a b. a * 256 + unat b) 0 bs"

fun be_bytes :: "nat \<Rightarrow> nat \<Rightarrow> byte list" where
  "be_bytes 0 v = []"
| "be_bytes (Suc n) v = be_bytes n (v div 256) @ [word_of_nat v]"

lemma be_val_Nil [simp]: "be_val [] = 0"
  by (simp add: be_val_def)

lemma be_val_snoc [simp]: "be_val (bs @ [b]) = be_val bs * 256 + unat b"
  by (simp add: be_val_def)

lemma foldl_be_val: "foldl (\<lambda>a b. a * 256 + unat (b::byte)) v bs = v * 256 ^ length bs + be_val bs"
proof (induction bs rule: rev_induct)
  case (snoc b bs)
  then show ?case by (simp add: algebra_simps)
qed simp

lemma be_val_append: "be_val (as @ bs) = be_val as * 256 ^ length bs + be_val bs"
  using foldl_be_val [of "be_val as" bs] by (simp add: be_val_def)

lemma be_val_Cons: "be_val (b # bs) = unat b * 256 ^ length bs + be_val bs"
  using be_val_append [of "[b]" bs] by (simp add: be_val_def)

lemma unat_byte_less [simp]: "unat (b :: byte) < 256"
proof -
  have "unat b < 2 ^ LENGTH(8)" by (rule unsigned_less)
  then show ?thesis by simp
qed

lemma unat_u16_less [simp]: "unat (v :: u16) < 65536"
proof -
  have "unat v < 2 ^ LENGTH(16)" by (rule unsigned_less)
  then show ?thesis by simp
qed

lemma unat_u32_less [simp]: "unat (v :: u32) < 4294967296"
proof -
  have "unat v < 2 ^ LENGTH(32)" by (rule unsigned_less)
  then show ?thesis by simp
qed

lemma unat_u64_less [simp]: "unat (v :: u64) < 18446744073709551616"
proof -
  have "unat v < 2 ^ LENGTH(64)" by (rule unsigned_less)
  then show ?thesis by simp
qed

lemma unat_eqI_byte: "unat a = unat b \<Longrightarrow> a = (b :: 'a::len word)"
  by (simp add: word_unat_eq_iff)

lemma unat_ucast_up:
  fixes b :: "'b::len word"
  assumes "LENGTH('b) \<le> LENGTH('a::len)"
  shows "unat (ucast b :: 'a word) = unat b"
  using assms by (simp add: unsigned_ucast_eq take_bit_nat_eq_self less_le_trans [OF unsigned_less])

lemmas unat_ucast_simps [simp] =
  unat_ucast_up [where 'b = 8 and 'a = 16, simplified]
  unat_ucast_up [where 'b = 8 and 'a = 32, simplified]
  unat_ucast_up [where 'b = 8 and 'a = 64, simplified]
  unat_ucast_up [where 'b = 16 and 'a = 32, simplified]
  unat_ucast_up [where 'b = 16 and 'a = 64, simplified]
  unat_ucast_up [where 'b = 32 and 'a = 64, simplified]

lemma be_val_less: "be_val bs < 256 ^ length bs"
proof (induction bs rule: rev_induct)
  case (snoc b bs)
  then have "be_val bs * 256 + unat b < (be_val bs + 1) * 256" by simp
  also have "\<dots> \<le> 256 ^ length bs * 256" using snoc by (intro mult_le_mono1) simp
  finally show ?case by (simp add: algebra_simps)
qed simp

lemma length_be_bytes [simp]: "length (be_bytes n v) = n"
  by (induction n v rule: be_bytes.induct) auto

lemma unat_byte_of_nat [simp]: "unat (word_of_nat v :: byte) = v mod 256"
  by (simp add: unat_of_nat)

lemma be_val_be_bytes: "be_val (be_bytes n v) = v mod 256 ^ n"
proof (induction n arbitrary: v)
  case (Suc n)
  have "v div 256 mod 256 ^ n * 256 + v mod 256 = v mod (256 * 256 ^ n)"
    by (simp add: mod_mult2_eq)
  then show ?case using Suc by simp
qed simp

lemma be_bytes_be_val: "be_bytes (length bs) (be_val bs) = bs"
proof (induction bs rule: rev_induct)
  case (snoc b bs)
  have "(be_val bs * 256 + unat b) div 256 = be_val bs"
    by (simp add: div_mult_self3)
  moreover have "(word_of_nat (be_val bs * 256 + unat b) :: byte) = b"
    by (simp only: word_unat_eq_iff unat_byte_of_nat) simp
  ultimately show ?case using snoc by simp
qed simp

lemma push_or_disjoint:
  fixes x :: "'a::len word" and b :: "'b::len word"
  assumes "LENGTH('b) \<le> n"
  shows "push_bit n x OR ucast b = push_bit n x + ucast b"
  by (rule disjunctive_add_eq_or [symmetric], rule bit_word_eqI)
     (use assms in \<open>auto simp: bit_simps dest: bit_imp_le_length\<close>)

lemma unat_push_or_byte:
  fixes x :: u64 and b :: byte
  shows "unat (push_bit 8 x OR ucast b) = (unat x * 256 + unat b) mod 2 ^ 64"
  apply (simp add: push_or_disjoint)
  apply (simp add: push_bit_eq_mult unat_word_ariths mod_simps)
  done

lemma unat_ucast_mod: "unat (ucast (v :: 'b::len word) :: 'a::len word) = unat v mod 2 ^ LENGTH('a)"
  by (simp add: unsigned_ucast_eq take_bit_nat_def)

lemma word_of_nat_unat: "word_of_nat (unat w) = (w :: 'a::len word)"
  by simp

lemma all_bytes: "(\<forall>b::byte. P b) \<longleftrightarrow> list_all (\<lambda>n. P (word_of_nat n)) [0..<256]"
proof
  assume *: "list_all (\<lambda>n. P (word_of_nat n)) [0..<256]"
  show "\<forall>b::byte. P b"
  proof
    fix b :: byte
    have "unat b \<in> set [0..<256]" by simp
    with * have "P (word_of_nat (unat b))" by (simp only: list_all_iff)
    then show "P b" by simp
  qed
qed (simp add: list_all_iff)

lemma div128_byte: "n < 256 \<Longrightarrow> n div 128 = (if n < 128 then 0 else 1 :: nat)"
  by (auto intro: div_nat_eqI)

lemma byte_msb_iff: "b AND 0x80 = 0 \<longleftrightarrow> unat (b::byte) < 128"
proof -
  have "b AND 0x80 = 0 \<longleftrightarrow> \<not> bit b 7"
    using and_exp_eq_0_iff_not_bit [of b 7] by simp
  also have "\<dots> \<longleftrightarrow> even (unat b div 128)"
    using bit_iff_odd [of "unat b" 7] by (simp add: bit_unsigned_iff)
  also have "\<dots> \<longleftrightarrow> unat b < 128"
    by (simp add: div128_byte)
  finally show ?thesis .
qed

lemma byte_low7: "unat ((b::byte) AND 0x7f) = unat b mod 128"
proof -
  have m: "(0x7f :: byte) = mask 7" by (simp add: mask_eq_exp_minus_1)
  show ?thesis unfolding m
   by (simp flip: take_bit_eq_mask add: unsigned_take_bit_eq take_bit_nat_def)
qed

lemma unat_word64_small: "n < 2 ^ 64 \<Longrightarrow> unat (word_of_nat n :: u64) = n"
  by (simp add: unat_of_nat)

lemma byte_eq_iff: "(b = c) \<longleftrightarrow> unat b = unat (c::byte)"
  by (simp add: word_unat_eq_iff)

end
