(* ===== verification/Codec.thy ===== *)
theory Codec
  imports Prelude "HOL-Library.Sublist"
begin

text \<open>Interfaces of readers. A \<^verbatim>\<open>CBS\<close> is the list of the bytes from its pointer to its end, a reader a
  function to an optional result and the bytes that are left. \<open>suffix_reader\<close> is the contract that a
  reader leaves a suffix of its input; \<open>codec\<close> that it reads back what an encoder writes;
  \<open>canonical_codec\<close> that it accepts nothing else. Each contract gives its laws for lists of items.\<close>

type_synonym cbs = "byte list"

type_synonym 'a reader = "cbs \<Rightarrow> 'a option \<times> cbs"

named_theorems suffix_intros
named_theorems reader_splits

fun read_many :: "nat \<Rightarrow> 'a reader \<Rightarrow> 'a list reader" where
  "read_many 0 rd c = (Some [], c)"
| "read_many (Suc n) rd c =
     (case rd c of
        (None, c) \<Rightarrow> (None, c)
      | (Some x, c) \<Rightarrow>
         (case read_many n rd c of
            (None, c) \<Rightarrow> (None, c)
          | (Some xs, c) \<Rightarrow> (Some (x # xs), c)))"

locale suffix_reader =
  fixes rd :: "cbs \<Rightarrow> 'a option \<times> cbs"
  assumes rd_suffix: "rd c = (r, c') \<Longrightarrow> suffix c' c"
begin

lemma rd_length: "rd c = (r, c') \<Longrightarrow> length c' \<le> length c"
  by (metis rd_suffix suffix_length_le)

lemma rd_consumed: "rd c = (r, c') \<Longrightarrow> c = take (length c - length c') c @ c'"
  using rd_suffix by (metis append_take_drop_id suffix_take suffix_drop)

lemma rd_snd_suffix: "suffix (snd (rd c)) c"
  by (metis prod.collapse rd_suffix)

lemma many_suffix: "read_many n rd c = (r, c') \<Longrightarrow> suffix c' c"
proof (induction n arbitrary: c r)
  case (Suc n)
  then show ?case
    by (auto split: prod.splits option.splits dest!: rd_suffix intro: suffix_order.trans)
qed simp

end

locale codec =
  fixes enc :: "'a \<Rightarrow> byte list"
    and rd :: "cbs \<Rightarrow> 'a option \<times> cbs"
    and ok :: "'a \<Rightarrow> bool"
  assumes roundtrip: "ok x \<Longrightarrow> rd (enc x @ rest) = (Some x, rest)"
begin

lemma roundtrip_exact: "ok x \<Longrightarrow> rd (enc x) = (Some x, [])"
  using roundtrip [of x "[]"] by simp

lemma prefix_free:
  assumes "ok x" "ok y" "enc x @ r = enc y @ s"
  shows "x = y \<and> r = s"
proof -
  have "(Some x, r) = rd (enc x @ r)" using roundtrip [OF assms(1)] by (rule sym)
  also have "\<dots> = rd (enc y @ s)" by (simp only: assms(3))
  also have "\<dots> = (Some y, s)" using assms(2) by (rule roundtrip)
  finally show ?thesis by simp
qed

lemma enc_inject: "ok x \<Longrightarrow> ok y \<Longrightarrow> enc x = enc y \<Longrightarrow> x = y"
  using prefix_free [of x y "[]" "[]"] by simp

lemma many_roundtrip:
  "(\<And>x. x \<in> set xs \<Longrightarrow> ok x) \<Longrightarrow>
   read_many (length xs) rd (concat (map enc xs) @ rest) = (Some xs, rest)"
  by (induction xs) (simp_all add: roundtrip)

end

locale canonical_codec = codec +
  assumes canonical: "rd c = (Some x, c') \<Longrightarrow> ok x \<and> c = enc x @ c'"
begin

lemma accepts_iff: "rd c = (Some x, c') \<longleftrightarrow> ok x \<and> c = enc x @ c'"
  using canonical roundtrip by blast

lemma accepted_unique:
  "rd c = (Some x, c') \<Longrightarrow> rd d = (Some x, d') \<Longrightarrow>
   take (length c - length c') c = take (length d - length d') d"
  by (auto dest!: canonical)

lemma many_canonical:
  "read_many n rd c = (Some xs, c') \<Longrightarrow>
   length xs = n \<and> (\<forall>x \<in> set xs. ok x) \<and> c = concat (map enc xs) @ c'"
proof (induction n arbitrary: c xs)
  case (Suc n)
  then obtain x d ys where "rd c = (Some x, d)" "read_many n rd d = (Some ys, c')" "xs = x # ys"
    by (auto split: prod.splits option.splits)
  then show ?case using Suc.IH [of d ys] canonical by auto
qed simp

end

end
