(* ===== verification/Mem.thy ===== *)
theory Mem
  imports Prelude
begin

text \<open>Memory and C strings, \<^verbatim>\<open>crypto/mem.c\<close>. The C library's allocator is a parameter: it gives the
  bytes of a new block or \<open>None\<close>. \<open>malloc_ok\<close> says what the standard says of it: a block has the
  size that was asked for, and no object is larger than \<^verbatim>\<open>PTRDIFF_MAX\<close>. A C string is the list of
  bytes from its pointer to the end of its object, with a zero byte where the code relies on one.\<close>

type_synonym libc_malloc = "nat \<Rightarrow> byte list option"

definition malloc_ok :: "libc_malloc \<Rightarrow> bool" where
  "malloc_ok m \<longleftrightarrow> (\<forall>n blk. m n = Some blk \<longrightarrow> length blk = n \<and> n < 2 ^ 63)"

definition calloc_small :: "libc_malloc" where
  "calloc_small n = (if n < 2 ^ 63 then Some (replicate n 0) else None)"

lemma calloc_small_ok [simp]: "malloc_ok calloc_small"
  by (auto simp: malloc_ok_def calloc_small_def split: if_splits)

definition OPENSSL_MALLOC_PREFIX :: nat where
  "OPENSSL_MALLOC_PREFIX = 8"

definition OPENSSL_malloc :: "libc_malloc \<Rightarrow> nat \<Rightarrow> byte list option" where
  "OPENSSL_malloc m sz =
     (case m ((sz + OPENSSL_MALLOC_PREFIX) mod 2 ^ 64) of
        None \<Rightarrow> None
      | Some ptr \<Rightarrow> Some (drop OPENSSL_MALLOC_PREFIX ptr))"

text \<open>The size of the block is computed without an overflow check, so a request close to \<open>2 ^ 64\<close> is
  answered with a block of a few bytes, too small even for the size the code then writes to it.\<close>

lemma OPENSSL_malloc_wraps:
  "OPENSSL_malloc calloc_small (2 ^ 64 - 4) = Some [] \<and> calloc_small 4 = Some (replicate 4 0)"
  by (simp add: OPENSSL_malloc_def OPENSSL_MALLOC_PREFIX_def calloc_small_def)

definition OPENSSL_realloc :: "libc_malloc \<Rightarrow> byte list option \<Rightarrow> nat \<Rightarrow> byte list option" where
  "OPENSSL_realloc m orig_ptr new_size =
     (case orig_ptr of
        None \<Rightarrow> OPENSSL_malloc m new_size
      | Some old \<Rightarrow>
         (case OPENSSL_malloc m new_size of
            None \<Rightarrow> None
          | Some ret \<Rightarrow>
             (let old_size = length old;
                  to_copy = (if old_size < new_size then old_size else new_size)
              in Some (take to_copy old @ drop to_copy ret))))"

definition CRYPTO_memcmp :: "byte list \<Rightarrow> byte list \<Rightarrow> nat \<Rightarrow> byte" where
  "CRYPTO_memcmp a b len = fold (\<lambda>i x. x OR (a ! i XOR b ! i)) [0..<len] 0"

definition OPENSSL_hash32 :: "byte list \<Rightarrow> nat \<Rightarrow> u32" where
  "OPENSSL_hash32 p len =
     fold (\<lambda>i h. (h XOR ucast (p ! i)) * 16777619) [0..<len] 2166136261"

fun strnlen_from :: "nat \<Rightarrow> byte list \<Rightarrow> nat \<Rightarrow> nat" where
  "strnlen_from i s 0 = i"
| "strnlen_from i s (Suc k) = (if s ! i = 0 then i else strnlen_from (Suc i) s k)"

definition OPENSSL_strnlen :: "byte list \<Rightarrow> nat \<Rightarrow> nat" where
  "OPENSSL_strnlen s len = strnlen_from 0 s len"

definition OPENSSL_strndup :: "libc_malloc \<Rightarrow> byte list option \<Rightarrow> nat \<Rightarrow> byte list option" where
  "OPENSSL_strndup m str sz =
     (case str of
        None \<Rightarrow> None
      | Some s \<Rightarrow>
         (let sz = OPENSSL_strnlen s sz;
              alloc_size = (sz + 1) mod 2 ^ 64
          in if alloc_size < sz then None
             else (case OPENSSL_malloc m alloc_size of
                     None \<Rightarrow> None
                   | Some ret \<Rightarrow> Some ((take sz s @ drop sz ret)[sz := 0]))))"

definition OPENSSL_memdup :: "libc_malloc \<Rightarrow> byte list \<Rightarrow> nat \<Rightarrow> byte list option" where
  "OPENSSL_memdup m data sz =
     (if sz = 0 then None
      else (case OPENSSL_malloc m sz of
              None \<Rightarrow> None
            | Some ret \<Rightarrow> Some (take sz data @ drop sz ret)))"


definition cstrlen :: "byte list \<Rightarrow> nat" where
  "cstrlen s = length (takeWhile (\<lambda>c. c \<noteq> 0) s)"

definition OPENSSL_strdup :: "libc_malloc \<Rightarrow> byte list option \<Rightarrow> byte list option" where
  "OPENSSL_strdup m str =
     (case str of
        None \<Rightarrow> None
      | Some s \<Rightarrow>
         (let len = cstrlen s + 1
          in (case OPENSSL_malloc m len of
                None \<Rightarrow> None
              | Some ret \<Rightarrow> Some (take len s @ drop len ret))))"

definition OPENSSL_tolower :: "int \<Rightarrow> int" where
  "OPENSSL_tolower c = (if c \<ge> 65 \<and> c \<le> 90 then c + (97 - 65) else c)"

fun OPENSSL_strcasecmp :: "byte list \<Rightarrow> byte list \<Rightarrow> int option" where
  "OPENSSL_strcasecmp (a # as) (b # bs) =
     (let aa = OPENSSL_tolower (sint a); bb = OPENSSL_tolower (sint b)
      in if aa < bb then Some (- 1)
         else if aa > bb then Some 1
         else if aa = 0 then Some 0
         else OPENSSL_strcasecmp as bs)"
| "OPENSSL_strcasecmp _ _ = None"

fun OPENSSL_strncasecmp :: "byte list \<Rightarrow> byte list \<Rightarrow> nat \<Rightarrow> int option" where
  "OPENSSL_strncasecmp as bs 0 = Some 0"
| "OPENSSL_strncasecmp (a # as) (b # bs) (Suc n) =
     (let aa = OPENSSL_tolower (sint a); bb = OPENSSL_tolower (sint b)
      in if aa < bb then Some (- 1)
         else if aa > bb then Some 1
         else if aa = 0 then Some 0
         else OPENSSL_strncasecmp as bs n)"
| "OPENSSL_strncasecmp _ _ (Suc n) = None"

fun strlcpy_loop ::
  "byte list \<Rightarrow> nat \<Rightarrow> byte list \<Rightarrow> nat \<Rightarrow> nat \<Rightarrow> byte list \<times> nat \<times> byte list \<times> nat \<times> nat" where
  "strlcpy_loop dst d [] dst_size l = (dst, d, [], dst_size, l)"
| "strlcpy_loop dst d (c # src) dst_size l =
     (if dst_size > 1 \<and> c \<noteq> 0
      then strlcpy_loop (dst[d := c]) (d + 1) src (dst_size - 1) (l + 1)
      else (dst, d, c # src, dst_size, l))"

definition strlcpy_at :: "byte list \<Rightarrow> nat \<Rightarrow> byte list \<Rightarrow> nat \<Rightarrow> nat \<times> byte list" where
  "strlcpy_at dst d src dst_size =
     (case strlcpy_loop dst d src dst_size 0 of
        (dst, d, src, dst_size, l) \<Rightarrow>
          (l + cstrlen src, if dst_size \<noteq> 0 then dst[d := 0] else dst))"

definition OPENSSL_strlcpy :: "byte list \<Rightarrow> byte list \<Rightarrow> nat \<Rightarrow> nat \<times> byte list" where
  "OPENSSL_strlcpy dst src dst_size = strlcpy_at dst 0 src dst_size"

fun strlcat_loop :: "byte list \<Rightarrow> nat \<Rightarrow> nat \<Rightarrow> nat \<Rightarrow> nat \<times> nat \<times> nat" where
  "strlcat_loop dst d 0 l = (d, 0, l)"
| "strlcat_loop dst d (Suc n) l =
     (if dst ! d \<noteq> 0 then strlcat_loop dst (d + 1) n (l + 1) else (d, Suc n, l))"

definition OPENSSL_strlcat :: "byte list \<Rightarrow> byte list \<Rightarrow> nat \<Rightarrow> nat \<times> byte list" where
  "OPENSSL_strlcat dst src dst_size =
     (case strlcat_loop dst 0 dst_size 0 of
        (d, dst_size, l) \<Rightarrow>
          (case strlcpy_at dst d src dst_size of (r, dst) \<Rightarrow> (l + r, dst)))"

subsection \<open>Lemmas\<close>

lemma malloc_okD: "malloc_ok m \<Longrightarrow> m n = Some blk \<Longrightarrow> length blk = n \<and> n < 2 ^ 63"
  by (simp add: malloc_ok_def)

lemma OPENSSL_malloc_length:
  "malloc_ok m \<Longrightarrow> OPENSSL_malloc m n = Some ret \<Longrightarrow> n + 8 < 2 ^ 64 \<Longrightarrow> length ret = n \<and> n + 8 < 2 ^ 63"
  by (auto simp: OPENSSL_malloc_def OPENSSL_MALLOC_PREFIX_def dest!: malloc_okD split: option.splits)

lemma OPENSSL_realloc_SomeD:
  assumes "malloc_ok m" "OPENSSL_realloc m (Some old) n = Some ret" "n + 8 < 2 ^ 64" "length old \<le> n"
  shows "length ret = n" "take (length old) ret = old" "n + 8 < 2 ^ 63"
  using assms by (auto simp: OPENSSL_realloc_def Let_def split: option.splits if_splits
      dest: OPENSSL_malloc_length)

lemma xor_eq_0_iff: "a XOR b = 0 \<longleftrightarrow> a = (b :: 'a::len word)"
  by (auto simp: bit_eq_iff bit_xor_iff)

lemma CRYPTO_memcmp_step:
  "fold (\<lambda>i x. x OR (a ! i XOR b ! i)) [0..<n] (0::byte) = 0 \<longleftrightarrow> (\<forall>i<n. a ! i = b ! i)"
  by (induction n) (auto simp: or_eq_0_iff less_Suc_eq xor_eq_0_iff)

lemma CRYPTO_memcmp_eq_0:
  "n \<le> length a \<Longrightarrow> n \<le> length b \<Longrightarrow> CRYPTO_memcmp a b n = 0 \<longleftrightarrow> take n a = take n b"
  by (simp add: CRYPTO_memcmp_def CRYPTO_memcmp_step list_eq_iff_nth_eq)

lemma strnlen_from_eq:
  "i + k \<le> length s \<Longrightarrow>
   strnlen_from i s k = i + length (takeWhile (\<lambda>c. c \<noteq> 0) (take k (drop i s)))"
proof (induction i s k rule: strnlen_from.induct)
  case (2 i s k)
  then have "drop i s = s ! i # drop (Suc i) s" by (simp add: Cons_nth_drop_Suc)
  with 2 show ?case by auto
qed simp

lemma OPENSSL_strnlen_eq:
  "n \<le> length s \<Longrightarrow> OPENSSL_strnlen s n = length (takeWhile (\<lambda>c. c \<noteq> 0) (take n s))"
  by (simp add: OPENSSL_strnlen_def strnlen_from_eq)

end
