(* ===== verification/Cbs.thy ===== *)
theory Cbs
  imports Codec Mem
begin

text \<open>The byte-string reader of \<^verbatim>\<open>crypto/bytestring/cbs.c\<close>, function by function. Out-parameters are
  results; a \<^verbatim>\<open>CBS\<close> that the C function advances before it fails is returned as it is left. The error
  queue is not modelled. \<^verbatim>\<open>BSWAP\<close>s are those of \<^verbatim>\<open>crypto/internal.h\<close> on a little-endian machine.\<close>

definition CBS_ASN1_TAG_SHIFT :: nat where "CBS_ASN1_TAG_SHIFT = 24"
definition CBS_ASN1_CONSTRUCTED :: u32 where "CBS_ASN1_CONSTRUCTED = push_bit CBS_ASN1_TAG_SHIFT 0x20"
definition CBS_ASN1_TAG_NUMBER_MASK :: u32 where
  "CBS_ASN1_TAG_NUMBER_MASK = push_bit (5 + CBS_ASN1_TAG_SHIFT) 1 - 1"
definition CBS_ASN1_BOOLEAN :: u32 where "CBS_ASN1_BOOLEAN = 0x1"
definition CBS_ASN1_INTEGER :: u32 where "CBS_ASN1_INTEGER = 0x2"
definition CBS_ASN1_BITSTRING :: u32 where "CBS_ASN1_BITSTRING = 0x3"
definition CBS_ASN1_OCTETSTRING :: u32 where "CBS_ASN1_OCTETSTRING = 0x4"

definition CBS_init :: "byte list \<Rightarrow> nat \<Rightarrow> cbs" where
  "CBS_init data len = take len data"

definition cbs_get :: "cbs \<Rightarrow> nat \<Rightarrow> byte list option \<times> cbs" where
  "cbs_get cbs n =
     (if length cbs < n then (None, cbs) else (Some (take n cbs), drop n cbs))"

definition CBS_skip :: "cbs \<Rightarrow> nat \<Rightarrow> unit option \<times> cbs" where
  "CBS_skip cbs len =
     (case cbs_get cbs len of (None, cbs) \<Rightarrow> (None, cbs) | (Some dummy, cbs) \<Rightarrow> (Some (), cbs))"

definition CBS_data :: "cbs \<Rightarrow> byte list" where "CBS_data cbs = cbs"

definition CBS_len :: "cbs \<Rightarrow> nat" where "CBS_len cbs = length cbs"

definition CBS_stow :: "libc_malloc \<Rightarrow> cbs \<Rightarrow> bool \<times> byte list option \<times> nat" where
  "CBS_stow m cbs =
     (if CBS_len cbs = 0 then (True, None, 0)
      else (case OPENSSL_memdup m (CBS_data cbs) (CBS_len cbs) of
              None \<Rightarrow> (False, None, 0)
            | Some p \<Rightarrow> (True, Some p, CBS_len cbs)))"

definition CBS_strdup :: "libc_malloc \<Rightarrow> bool \<Rightarrow> cbs \<Rightarrow> bool \<times> byte list option" where
  "CBS_strdup m data_null cbs =
     (let out_ptr = OPENSSL_strndup m (if data_null then None else Some (CBS_data cbs)) (CBS_len cbs)
      in (out_ptr \<noteq> None, out_ptr))"

definition CBS_contains_zero_byte :: "cbs \<Rightarrow> bool" where
  "CBS_contains_zero_byte cbs = (0 \<in> set cbs)"

definition CBS_mem_equal :: "cbs \<Rightarrow> byte list \<Rightarrow> nat \<Rightarrow> bool" where
  "CBS_mem_equal cbs data len =
     (if len \<noteq> CBS_len cbs then False else CRYPTO_memcmp (CBS_data cbs) data len = 0)"

definition cbs_get_u :: "cbs \<Rightarrow> nat \<Rightarrow> u64 option \<times> cbs" where
  "cbs_get_u cbs len =
     (case cbs_get cbs len of
        (None, cbs) \<Rightarrow> (None, cbs)
      | (Some data, cbs) \<Rightarrow>
          (Some (foldl (\<lambda>result b. push_bit 8 result OR ucast b) 0 data), cbs))"

definition CBS_get_u8 :: "cbs \<Rightarrow> byte option \<times> cbs" where
  "CBS_get_u8 cbs =
     (case cbs_get cbs 1 of (None, cbs) \<Rightarrow> (None, cbs) | (Some v, cbs) \<Rightarrow> (Some (v ! 0), cbs))"

definition CBS_get_u16 :: "cbs \<Rightarrow> u16 option \<times> cbs" where
  "CBS_get_u16 cbs =
     (case cbs_get_u cbs 2 of (None, cbs) \<Rightarrow> (None, cbs) | (Some v, cbs) \<Rightarrow> (Some (ucast v), cbs))"

definition CRYPTO_bswap2 :: "u16 \<Rightarrow> u16" where
  "CRYPTO_bswap2 x = drop_bit 8 x OR push_bit 8 x"

definition CRYPTO_bswap4 :: "u32 \<Rightarrow> u32" where
  "CRYPTO_bswap4 x0 =
     (let x = drop_bit 16 x0 OR push_bit 16 x0
      in drop_bit 8 (x AND 0xff00ff00) OR push_bit 8 (x AND 0x00ff00ff))"

definition CRYPTO_bswap8 :: "u64 \<Rightarrow> u64" where
  "CRYPTO_bswap8 x =
     ucast (CRYPTO_bswap4 (ucast (drop_bit 32 x))) OR
     push_bit 32 (ucast (CRYPTO_bswap4 (ucast x)))"

definition CBS_get_u16le :: "cbs \<Rightarrow> u16 option \<times> cbs" where
  "CBS_get_u16le cbs =
     (case CBS_get_u16 cbs of
        (None, cbs) \<Rightarrow> (None, cbs) | (Some v, cbs) \<Rightarrow> (Some (CRYPTO_bswap2 v), cbs))"

definition CBS_get_u24 :: "cbs \<Rightarrow> u32 option \<times> cbs" where
  "CBS_get_u24 cbs =
     (case cbs_get_u cbs 3 of (None, cbs) \<Rightarrow> (None, cbs) | (Some v, cbs) \<Rightarrow> (Some (ucast v), cbs))"

definition CBS_get_u32 :: "cbs \<Rightarrow> u32 option \<times> cbs" where
  "CBS_get_u32 cbs =
     (case cbs_get_u cbs 4 of (None, cbs) \<Rightarrow> (None, cbs) | (Some v, cbs) \<Rightarrow> (Some (ucast v), cbs))"

definition CBS_get_u32le :: "cbs \<Rightarrow> u32 option \<times> cbs" where
  "CBS_get_u32le cbs =
     (case CBS_get_u32 cbs of
        (None, cbs) \<Rightarrow> (None, cbs) | (Some v, cbs) \<Rightarrow> (Some (CRYPTO_bswap4 v), cbs))"

definition CBS_get_u64 :: "cbs \<Rightarrow> u64 option \<times> cbs" where
  "CBS_get_u64 cbs = cbs_get_u cbs 8"

definition CBS_get_u64le :: "cbs \<Rightarrow> u64 option \<times> cbs" where
  "CBS_get_u64le cbs =
     (case cbs_get_u cbs 8 of
        (None, cbs) \<Rightarrow> (None, cbs) | (Some v, cbs) \<Rightarrow> (Some (CRYPTO_bswap8 v), cbs))"

definition CBS_get_last_u8 :: "cbs \<Rightarrow> byte option \<times> cbs" where
  "CBS_get_last_u8 cbs =
     (if CBS_len cbs = 0 then (None, cbs)
      else (Some (cbs ! (CBS_len cbs - 1)), take (CBS_len cbs - 1) cbs))"

definition CBS_get_bytes :: "cbs \<Rightarrow> nat \<Rightarrow> cbs option \<times> cbs" where
  "CBS_get_bytes cbs len =
     (case cbs_get cbs len of
        (None, cbs) \<Rightarrow> (None, cbs) | (Some v, cbs) \<Rightarrow> (Some (CBS_init v len), cbs))"

definition CBS_copy_bytes :: "cbs \<Rightarrow> byte list \<Rightarrow> nat \<Rightarrow> byte list option \<times> cbs" where
  "CBS_copy_bytes cbs out len =
     (case cbs_get cbs len of
        (None, cbs) \<Rightarrow> (None, cbs) | (Some v, cbs) \<Rightarrow> (Some (v @ drop len out), cbs))"

definition cbs_get_length_prefixed :: "cbs \<Rightarrow> nat \<Rightarrow> cbs option \<times> cbs" where
  "cbs_get_length_prefixed cbs len_len =
     (case cbs_get_u cbs len_len of
        (None, cbs) \<Rightarrow> (None, cbs) | (Some len, cbs) \<Rightarrow> CBS_get_bytes cbs (unat len))"

definition CBS_get_u8_length_prefixed :: "cbs \<Rightarrow> cbs option \<times> cbs" where
  "CBS_get_u8_length_prefixed cbs = cbs_get_length_prefixed cbs 1"

definition CBS_get_u16_length_prefixed :: "cbs \<Rightarrow> cbs option \<times> cbs" where
  "CBS_get_u16_length_prefixed cbs = cbs_get_length_prefixed cbs 2"

definition CBS_get_u24_length_prefixed :: "cbs \<Rightarrow> cbs option \<times> cbs" where
  "CBS_get_u24_length_prefixed cbs = cbs_get_length_prefixed cbs 3"

fun base128_loop :: "u64 \<Rightarrow> cbs \<Rightarrow> u64 option \<times> cbs" where
  "base128_loop v [] = (None, [])"
| "base128_loop v (b # cbs) =
     (if drop_bit (64 - 7) v \<noteq> 0 then (None, cbs)
      else if v = 0 \<and> b = 0x80 then (None, cbs)
      else (let v = push_bit 7 v OR ucast (b AND 0x7f)
            in if b AND 0x80 \<noteq> 0 then base128_loop v cbs else (Some v, cbs)))"

definition parse_base128_integer :: "cbs \<Rightarrow> u64 option \<times> cbs" where
  "parse_base128_integer cbs = base128_loop 0 cbs"

definition parse_asn1_tag :: "cbs \<Rightarrow> u32 option \<times> cbs" where
  "parse_asn1_tag cbs =
     (case CBS_get_u8 cbs of
        (None, cbs) \<Rightarrow> (None, cbs)
      | (Some tag_byte, cbs) \<Rightarrow>
         (let tag = push_bit CBS_ASN1_TAG_SHIFT (ucast tag_byte AND 0xe0 :: u32);
              tag_number = ucast (tag_byte AND 0x1f) :: u32
          in if tag_number = 0x1f then
               (case parse_base128_integer cbs of
                  (None, cbs) \<Rightarrow> (None, cbs)
                | (Some v, cbs) \<Rightarrow>
                    if v > ucast CBS_ASN1_TAG_NUMBER_MASK \<or> v < 0x1f then (None, cbs)
                    else (Some (tag OR ucast v), cbs))
             else (Some (tag OR tag_number), cbs)))"

definition cbs_get_any_asn1_element :: "cbs \<Rightarrow> bool \<Rightarrow> (cbs \<times> u32 \<times> nat) option \<times> cbs" where
  "cbs_get_any_asn1_element cbs ber_ok =
     (let get_bytes = (\<lambda>len tag header_len.
            case CBS_get_bytes cbs len of
              (None, cbs) \<Rightarrow> (None, cbs)
            | (Some out, cbs) \<Rightarrow> (Some (out, tag, header_len), cbs))
      in case parse_asn1_tag cbs of
           (None, header) \<Rightarrow> (None, cbs)
         | (Some tag, header) \<Rightarrow>
          (case CBS_get_u8 header of
             (None, header) \<Rightarrow> (None, cbs)
           | (Some length_byte, header) \<Rightarrow>
              (let header_len = CBS_len cbs - CBS_len header
               in if length_byte AND 0x80 = 0 then
                    get_bytes (unat length_byte + header_len) tag header_len
                  else
                    (let num_bytes = unat (length_byte AND 0x7f)
                     in if ber_ok \<and> tag AND CBS_ASN1_CONSTRUCTED \<noteq> 0 \<and> num_bytes = 0 then
                          get_bytes header_len tag header_len
                        else if num_bytes = 0 \<or> num_bytes > 4 then (None, cbs)
                        else
                          (case cbs_get_u header num_bytes of
                             (None, header) \<Rightarrow> (None, cbs)
                           | (Some len64, header) \<Rightarrow>
                              if len64 < 128 then (None, cbs)
                              else if drop_bit ((num_bytes - 1) * 8) len64 = 0 then (None, cbs)
                              else (let len = unat len64;
                                        total = (len + header_len + num_bytes) mod 2 ^ 64
                                    in if total < len then (None, cbs)
                                       else get_bytes total tag (header_len + num_bytes)))))))"

definition CBS_get_any_asn1_element :: "cbs \<Rightarrow> (cbs \<times> u32 \<times> nat) option \<times> cbs" where
  "CBS_get_any_asn1_element cbs = cbs_get_any_asn1_element cbs False"

definition CBS_get_any_ber_asn1_element :: "cbs \<Rightarrow> (cbs \<times> u32 \<times> nat) option \<times> cbs" where
  "CBS_get_any_ber_asn1_element cbs = cbs_get_any_asn1_element cbs True"

definition CBS_get_any_asn1 :: "cbs \<Rightarrow> (cbs \<times> u32) option \<times> cbs" where
  "CBS_get_any_asn1 cbs =
     (case CBS_get_any_asn1_element cbs of
        (None, cbs) \<Rightarrow> (None, cbs)
      | (Some (out, out_tag, header_len), cbs) \<Rightarrow>
         (case CBS_skip out header_len of
            (None, out) \<Rightarrow> (None, cbs)
          | (Some _, out) \<Rightarrow> (Some (out, out_tag), cbs)))"

definition cbs_get_asn1 :: "cbs \<Rightarrow> u32 \<Rightarrow> bool \<Rightarrow> cbs option \<times> cbs" where
  "cbs_get_asn1 cbs tag_value skip_header =
     (case CBS_get_any_asn1_element cbs of
        (None, cbs) \<Rightarrow> (None, cbs)
      | (Some (out, tag, header_len), cbs) \<Rightarrow>
          if tag \<noteq> tag_value then (None, cbs)
          else if skip_header then
            (case CBS_skip out header_len of
               (None, out) \<Rightarrow> (None, cbs)
             | (Some _, out) \<Rightarrow> (Some out, cbs))
          else (Some out, cbs))"

definition CBS_get_asn1 :: "cbs \<Rightarrow> u32 \<Rightarrow> cbs option \<times> cbs" where
  "CBS_get_asn1 cbs tag_value = cbs_get_asn1 cbs tag_value True"

definition CBS_get_asn1_element :: "cbs \<Rightarrow> u32 \<Rightarrow> cbs option \<times> cbs" where
  "CBS_get_asn1_element cbs tag_value = cbs_get_asn1 cbs tag_value False"

definition CBS_peek_asn1_tag :: "cbs \<Rightarrow> u32 \<Rightarrow> bool" where
  "CBS_peek_asn1_tag cbs tag_value =
     (if CBS_len cbs < 1 then False
      else (case parse_asn1_tag cbs of
              (None, copy) \<Rightarrow> False
            | (Some actual_tag, copy) \<Rightarrow> tag_value = actual_tag))"

fun asn1_uint64_loop :: "u64 \<Rightarrow> byte list \<Rightarrow> u64 option" where
  "asn1_uint64_loop out [] = Some out"
| "asn1_uint64_loop out (b # data) =
     (if drop_bit 56 out \<noteq> 0 then None
      else asn1_uint64_loop (push_bit 8 out OR ucast b) data)"

definition CBS_get_asn1_uint64 :: "cbs \<Rightarrow> u64 option \<times> cbs" where
  "CBS_get_asn1_uint64 cbs =
     (case CBS_get_asn1 cbs CBS_ASN1_INTEGER of
        (None, cbs) \<Rightarrow> (None, cbs)
      | (Some bytes, cbs) \<Rightarrow>
         (let data = CBS_data bytes; len = CBS_len bytes
          in if len = 0 then (None, cbs)
             else if data ! 0 AND 0x80 \<noteq> 0 then (None, cbs)
             else if data ! 0 = 0 \<and> len > 1 \<and> data ! 1 AND 0x80 = 0 then (None, cbs)
             else (asn1_uint64_loop 0 data, cbs)))"

definition load_le64 :: "byte list \<Rightarrow> u64" where
  "load_le64 bs = foldr (\<lambda>b r. push_bit 8 r OR ucast b) bs 0"

definition CBS_get_asn1_int64 :: "cbs \<Rightarrow> u64 option \<times> cbs" where
  "CBS_get_asn1_int64 cbs =
     (case CBS_get_asn1 cbs CBS_ASN1_INTEGER of
        (None, cbs) \<Rightarrow> (None, cbs)
      | (Some bytes, cbs) \<Rightarrow>
         (let data = CBS_data bytes; len = CBS_len bytes
          in if len = 0 \<or> len > 8 then (None, cbs)
             else if len > 1 \<and> data ! 0 = 0 \<and> data ! 1 AND 0x80 = 0 then (None, cbs)
             else if len > 1 \<and> data ! 0 = 0xff \<and> data ! 1 AND 0x80 \<noteq> 0 then (None, cbs)
             else
               (let is_negative = data ! 0 AND 0x80 \<noteq> 0;
                    u = replicate 8 (if is_negative then 0xff else 0);
                    u = foldl (\<lambda>u i. u[i := data ! (len - i - 1)]) u [0..<len]
                in (Some (load_le64 u), cbs))))"

definition CBS_get_asn1_bool :: "cbs \<Rightarrow> bool option \<times> cbs" where
  "CBS_get_asn1_bool cbs =
     (case CBS_get_asn1 cbs CBS_ASN1_BOOLEAN of
        (None, cbs) \<Rightarrow> (None, cbs)
      | (Some bytes, cbs) \<Rightarrow>
          if CBS_len bytes \<noteq> 1 then (None, cbs)
          else (let val = CBS_data bytes ! 0
                in if val \<noteq> 0 \<and> val \<noteq> 0xff then (None, cbs) else (Some (val \<noteq> 0), cbs)))"

definition CBS_get_optional_asn1 :: "cbs \<Rightarrow> u32 \<Rightarrow> cbs option option \<times> cbs" where
  "CBS_get_optional_asn1 cbs tag =
     (if CBS_peek_asn1_tag cbs tag then
        (case CBS_get_asn1 cbs tag of
           (None, cbs) \<Rightarrow> (None, cbs)
         | (Some out, cbs) \<Rightarrow> (Some (Some out), cbs))
      else (Some None, cbs))"

definition CBS_get_optional_asn1_octet_string :: "cbs \<Rightarrow> u32 \<Rightarrow> (cbs \<times> bool) option \<times> cbs" where
  "CBS_get_optional_asn1_octet_string cbs tag =
     (case CBS_get_optional_asn1 cbs tag of
        (None, cbs) \<Rightarrow> (None, cbs)
      | (Some (Some child), cbs) \<Rightarrow>
         (case CBS_get_asn1 child CBS_ASN1_OCTETSTRING of
            (None, child) \<Rightarrow> (None, cbs)
          | (Some out, child) \<Rightarrow>
              if CBS_len child \<noteq> 0 then (None, cbs) else (Some (out, True), cbs))
      | (Some None, cbs) \<Rightarrow> (Some (CBS_init [] 0, False), cbs))"

definition CBS_get_optional_asn1_uint64 :: "cbs \<Rightarrow> u32 \<Rightarrow> u64 \<Rightarrow> u64 option \<times> cbs" where
  "CBS_get_optional_asn1_uint64 cbs tag default_value =
     (case CBS_get_optional_asn1 cbs tag of
        (None, cbs) \<Rightarrow> (None, cbs)
      | (Some (Some child), cbs) \<Rightarrow>
         (case CBS_get_asn1_uint64 child of
            (None, child) \<Rightarrow> (None, cbs)
          | (Some out, child) \<Rightarrow>
              if CBS_len child \<noteq> 0 then (None, cbs) else (Some out, cbs))
      | (Some None, cbs) \<Rightarrow> (Some default_value, cbs))"

definition CBS_get_optional_asn1_bool :: "cbs \<Rightarrow> u32 \<Rightarrow> int \<Rightarrow> int option \<times> cbs" where
  "CBS_get_optional_asn1_bool cbs tag default_value =
     (case CBS_get_optional_asn1 cbs tag of
        (None, cbs) \<Rightarrow> (None, cbs)
      | (Some (Some child), cbs) \<Rightarrow>
         (case CBS_get_asn1 child CBS_ASN1_BOOLEAN of
            (None, child) \<Rightarrow> (None, cbs)
          | (Some child2, child) \<Rightarrow>
              if CBS_len child2 \<noteq> 1 \<or> CBS_len child \<noteq> 0 then (None, cbs)
              else (let boolean = CBS_data child2 ! 0
                    in if boolean = 0 then (Some 0, cbs)
                       else if boolean = 0xff then (Some 1, cbs)
                       else (None, cbs)))
      | (Some None, cbs) \<Rightarrow> (Some default_value, cbs))"

definition CBS_is_valid_asn1_bitstring :: "cbs \<Rightarrow> bool" where
  "CBS_is_valid_asn1_bitstring cbs =
     (case CBS_get_u8 cbs of
        (None, inn) \<Rightarrow> False
      | (Some num_unused_bits, inn) \<Rightarrow>
          if num_unused_bits > 7 then False
          else if num_unused_bits = 0 then True
          else (case CBS_get_last_u8 inn of
                  (None, inn) \<Rightarrow> False
                | (Some last_byte, inn) \<Rightarrow>
                    ucast last_byte AND (push_bit (unat num_unused_bits) 1 - 1 :: u32) = 0))"

definition CBS_asn1_bitstring_has_bit :: "cbs \<Rightarrow> u32 \<Rightarrow> bool" where
  "CBS_asn1_bitstring_has_bit cbs bitno =
     (if \<not> CBS_is_valid_asn1_bitstring cbs then False
      else (let byte_num = drop_bit 3 bitno + 1; bit_num = 7 - (bitno AND 7)
            in unat byte_num < CBS_len cbs \<and>
               ucast (CBS_data cbs ! unat byte_num) AND (push_bit (unat bit_num) 1 :: u32) \<noteq> 0))"

subsection \<open>Basic readers\<close>

lemma cbs_get_Some: "cbs_get c n = (Some v, c') \<longleftrightarrow> c = v @ c' \<and> length v = n"
  by (auto simp: cbs_get_def)

lemma cbs_get_None: "cbs_get c n = (None, c') \<longleftrightarrow> length c < n \<and> c' = c"
  by (auto simp: cbs_get_def)

lemma cbs_get_append [simp]: "length v = n \<Longrightarrow> cbs_get (v @ c) n = (Some v, c)"
  by (simp add: cbs_get_Some)

lemmas cbs_get_iffs = cbs_get_Some cbs_get_None

lemma cbs_get_suffix: "cbs_get c n = (r, c') \<Longrightarrow> suffix c' c"
  by (auto simp: cbs_get_def suffix_drop split: if_splits)

lemma CBS_get_u8_simps [simp]:
  "CBS_get_u8 [] = (None, [])"
  "CBS_get_u8 (b # c) = (Some b, c)"
  by (simp_all add: CBS_get_u8_def cbs_get_def)

lemma CBS_get_u8_Some: "CBS_get_u8 c = (Some b, c') \<longleftrightarrow> c = b # c'"
  by (cases c) auto

lemma CBS_get_u8_None: "CBS_get_u8 c = (None, c') \<longleftrightarrow> c = [] \<and> c' = []"
  by (cases c) auto

lemmas CBS_get_u8_iffs = CBS_get_u8_Some CBS_get_u8_None

lemma CBS_len_simp [simp]: "CBS_len c = length c"
  by (simp add: CBS_len_def)

lemma CBS_data_simp [simp]: "CBS_data c = c"
  by (simp add: CBS_data_def)

lemma CBS_get_bytes_eq: "CBS_get_bytes c n = cbs_get c n"
  by (auto simp: CBS_get_bytes_def CBS_init_def cbs_get_def)

lemma CBS_skip_append [simp]: "length v = n \<Longrightarrow> CBS_skip (v @ c) n = (Some (), c)"
  by (simp add: CBS_skip_def)

lemma CBS_skip_Some: "CBS_skip c n = (Some u, c') \<longleftrightarrow> n \<le> length c \<and> c' = drop n c"
  by (auto simp: CBS_skip_def cbs_get_def)

lemma unat_foldl_be: "unat (foldl (\<lambda>r (b::byte). push_bit 8 r OR ucast b) (v::u64) bs) =
    (unat v * 256 ^ length bs + be_val bs) mod 2 ^ 64"
proof (induction bs rule: rev_induct)
  case (snoc b bs)
  have "((unat v * 256 ^ length bs + be_val bs) mod 2 ^ 64 * 256 + unat b) mod 2 ^ 64 =
    ((unat v * 256 ^ length bs + be_val bs) * 256 + unat b) mod 2 ^ 64"
    by (metis mod_add_left_eq mod_mult_left_eq)
  with snoc show ?case
    by (simp add: unat_push_or_byte algebra_simps)
next
  case Nil
  show ?case by simp
qed

lemma unat_cbs_fold:
  "length bs \<le> 8 \<Longrightarrow> unat (foldl (\<lambda>r (b::byte). push_bit 8 r OR ucast b) (0::u64) bs) = be_val bs"
proof -
  assume "length bs \<le> 8"
  then have "(256::nat) ^ length bs \<le> 256 ^ 8" by (intro power_increasing) auto
  with be_val_less [of bs] have "be_val bs < 2 ^ 64" by simp
  then show ?thesis by (simp add: unat_foldl_be)
qed

lemma cbs_get_u_Some:
  assumes "n \<le> 8"
  shows "cbs_get_u c n = (Some v, c') \<longleftrightarrow> c = be_bytes n (unat v) @ c' \<and> unat v < 256 ^ n"
proof
  assume "cbs_get_u c n = (Some v, c')"
  then obtain bs where bs: "c = bs @ c'" "length bs = n"
    "v = foldl (\<lambda>r b. push_bit 8 r OR ucast b) 0 bs"
    by (auto simp: cbs_get_u_def cbs_get_iffs split: prod.splits option.splits)
  with assms have "unat v = be_val bs" by (simp add: unat_cbs_fold)
  with bs be_bytes_be_val [of bs] be_val_less [of bs]
  show "c = be_bytes n (unat v) @ c' \<and> unat v < 256 ^ n" by simp
next
  assume *: "c = be_bytes n (unat v) @ c' \<and> unat v < 256 ^ n"
  then have "be_val (be_bytes n (unat v)) = unat v" by (simp add: be_val_be_bytes)
  with assms have "foldl (\<lambda>r b. push_bit 8 r OR ucast b) 0 (be_bytes n (unat v)) = v"
    by (simp add: word_unat_eq_iff unat_cbs_fold)
  with * show "cbs_get_u c n = (Some v, c')" by (simp add: cbs_get_u_def)
qed

lemma cbs_get_u_None: "cbs_get_u c n = (None, c') \<longleftrightarrow> length c < n \<and> c' = c"
  by (auto simp: cbs_get_u_def cbs_get_iffs split: prod.splits option.splits)

lemma cbs_get_u_append:
  "n \<le> 8 \<Longrightarrow> unat v < 256 ^ n \<Longrightarrow> cbs_get_u (be_bytes n (unat v) @ c) n = (Some v, c)"
  by (simp add: cbs_get_u_Some)

end
