(* ===== verification/Der.thy ===== *)
theory Der
  imports Cbs
begin

text \<open>What the readers of \<^verbatim>\<open>cbs.c\<close> accept. \<open>der_tag\<close>, \<open>der_length\<close> and \<open>der_element\<close> are the encodings of
  the standard as byte lists, \<open>base128_bytes\<close> the minimal base-128 numbers; each reader is shown to accept
  exactly these, and the readers of integers, tags, elements and length-prefixed vectors to be codecs.\<close>

lemma drop_bit_u64_zero_iff:
  "drop_bit k (v::u64) = 0 \<longleftrightarrow> unat v < 2 ^ k"
  by (metis (no_types, lifting) drop_bit_eq_div div_eq_0_iff power_eq_0_iff unat_drop_bit_eq unat_0_iff zero_neq_numeral numeral_2_eq_2 Zero_not_Suc)

lemma unat_push7: 
  fixes v :: u64 and b :: byte
  assumes "unat v < 2 ^ 57"
  shows "unat (push_bit 7 v OR ucast (b AND 0x7f)) = unat v * 128 + unat b mod 128"
proof -
  have m: "(0x7f :: byte) = mask 7" by (simp add: mask_eq_exp_minus_1)
  have eq: "push_bit 7 v OR ucast (b AND 0x7f) = push_bit 7 v + ucast (b AND 0x7f)"
    unfolding m
    by (rule disjunctive_add_eq_or [symmetric], rule bit_word_eqI) (auto simp: bit_simps)
  have "unat (push_bit 7 v) = unat v * 128"
    using assms by (simp add: push_bit_eq_mult unat_word_ariths)
  then show ?thesis using assms by (simp add: eq unat_word_ariths byte_low7)
qed

lemma base128_loop_Cons:
  "base128_loop v (b # c) =
     (if 2 ^ 57 \<le> unat v \<or> (unat v = 0 \<and> unat b = 128) then (None, c)
      else if unat b < 128 then (Some (word_of_nat (unat v * 128 + unat b)), c)
      else base128_loop (word_of_nat (unat v * 128 + unat b mod 128)) c)"
proof (cases "2 ^ 57 \<le> unat v \<or> (unat v = 0 \<and> unat b = 128)")
  case True
  then show ?thesis
    by (auto simp: drop_bit_u64_zero_iff unat_0_iff byte_eq_iff [of _ "0x80"])
next
  case False
  then have v57: "unat v < 2 ^ 57" and nz: "\<not> (v = 0 \<and> b = 0x80)"
    by (auto simp: unat_0_iff)
  have "unat v * 128 + unat b mod 128 < 2 ^ 64"
  proof -
    have "unat b mod 128 < 128" by simp
    then show ?thesis using v57 by simp
  qed
  then have "push_bit 7 v OR ucast (b AND 0x7f) = word_of_nat (unat v * 128 + unat b mod 128)"
    using unat_push7 [OF v57, of b] by (simp only: word_unat_eq_iff unat_word64_small)
  then have "base128_loop v (b # c) =
      (if b AND 0x80 \<noteq> 0 then base128_loop (word_of_nat (unat v * 128 + unat b mod 128)) c
       else (Some (word_of_nat (unat v * 128 + unat b mod 128)), c))"
    using v57 nz by (simp only: base128_loop.simps drop_bit_u64_zero_iff Let_def) simp
  moreover have "(2 ^ 57 \<le> unat v \<or> (unat v = 0 \<and> unat b = 128)) = False"
    using False by blast
  ultimately show ?thesis
    by (simp only: if_False byte_msb_iff) (simp del: base128_loop.simps)
qed

fun base128_hi :: "nat \<Rightarrow> byte list" where
  "base128_hi v = (if v = 0 then [] else base128_hi (v div 128) @ [word_of_nat (128 + v mod 128)])"

declare base128_hi.simps [simp del]
declare base128_loop.simps(2) [simp del]

definition base128_bytes :: "nat \<Rightarrow> byte list" where
  "base128_bytes v = base128_hi (v div 128) @ [word_of_nat (v mod 128)]"

lemma base128_hi_0 [simp]: "base128_hi 0 = []"
  by (simp add: base128_hi.simps)

lemma base128_hi_pos:
  "v \<noteq> 0 \<Longrightarrow> base128_hi v = base128_hi (v div 128) @ [word_of_nat (128 + v mod 128)]"
  by (subst base128_hi.simps) simp

lemma base128_loop_hi:
  "v < 2 ^ 64 \<Longrightarrow> base128_loop 0 (base128_hi v @ rest) = base128_loop (word_of_nat v) rest"
proof (induction v arbitrary: rest rule: base128_hi.induct)
  case (1 v)
  show ?case
  proof (cases "v = 0")
    case False
    define b :: byte where "b = word_of_nat (128 + v mod 128)"
    have ub: "unat b = 128 + v mod 128" by (simp add: b_def del: of_nat_add)
    have w: "unat (word_of_nat (v div 128) :: u64) = v div 128"
      using 1(2) by (intro unat_word64_small) simp
    have lt: "v div 128 < 2 ^ 57" using 1(2) by (simp add: less_mult_imp_div_less)
    have nz: "\<not> (v div 128 = 0 \<and> unat b = 128)" using False ub by (auto simp: div_eq_0_iff)
    have "base128_loop 0 (base128_hi v @ rest) = base128_loop (word_of_nat (v div 128)) (b # rest)"
      using 1 False by (simp add: base128_hi_pos b_def)
    also have "\<dots> = base128_loop (word_of_nat v) rest"
      using nz lt by (simp only: base128_loop_Cons w) (simp add: ub)
    finally show ?thesis .
  qed simp
qed

lemma base128_roundtrip:
  "parse_base128_integer (base128_bytes (unat v) @ rest) = (Some v, rest)"
proof -
  define b :: byte where "b = word_of_nat (unat v mod 128)"
  have ub: "unat b = unat v mod 128" by (simp add: b_def)
  have mod: "unat v mod 128 \<noteq> 128" by (simp add: less_imp_neq)
  have lt: "unat v div 128 < 2 ^ 57" using unat_u64_less [of v] by (simp add: less_mult_imp_div_less)
  then have w: "unat (word_of_nat (unat v div 128) :: u64) = unat v div 128"
    by (intro unat_word64_small) simp
  have "parse_base128_integer (base128_bytes (unat v) @ rest) =
      base128_loop (word_of_nat (unat v div 128)) (b # rest)"
    using lt by (simp add: parse_base128_integer_def base128_bytes_def base128_loop_hi b_def)
  also have "\<dots> = (Some v, rest)"
    using lt mod by (simp only: base128_loop_Cons w) (simp add: ub)
  finally show ?thesis .
qed

lemma base128_loop_canonical:
  "base128_loop v c = (Some x, c') \<Longrightarrow> base128_hi (unat v) @ c = base128_bytes (unat x) @ c'"
proof (induction c arbitrary: v)
  case (Cons b c)
  have bv: "\<And>n. unat b = n \<Longrightarrow> word_of_nat n = b" by auto
  from Cons.prems have v57: "unat v < 2 ^ 57" and nz: "\<not> (unat v = 0 \<and> unat b = 128)"
    by (auto simp: base128_loop_Cons split: if_splits)
  show ?case
  proof (cases "unat b < 128")
    case True
    define w :: u64 where "w = word_of_nat (unat v * 128 + unat b)"
    have "unat w = unat v * 128 + unat b"
      unfolding w_def using v57 True by (intro unat_word64_small) simp
    moreover have "x = w" "c' = c" using Cons.prems v57 nz True
      by (auto simp: base128_loop_Cons w_def)
    ultimately show ?thesis using True bv by (simp add: base128_bytes_def)
  next
    case False
    define w :: u64 where "w = word_of_nat (unat v * 128 + unat b mod 128)"
    have uw: "unat w = unat v * 128 + unat b mod 128"
      unfolding w_def using v57 by (intro unat_word64_small) simp
    have b: "unat b = 128 + unat b mod 128"
      using False div128_byte [OF unat_byte_less [of b]] div_mult_mod_eq [of "unat b" 128] by simp
    moreover have "unat w \<noteq> 0"
    proof
      assume "unat w = 0"
      then have "unat v = 0" "unat b mod 128 = 0" by (simp_all add: uw)
      then show False using nz b by simp
    qed
    ultimately have "base128_hi (unat w) = base128_hi (unat v) @ [b]"
      using bv by (simp add: base128_hi_pos uw del: of_nat_add)
    moreover have "base128_loop w c = (Some x, c')"
      using Cons.prems v57 nz False by (simp add: base128_loop_Cons w_def split: if_splits)
    ultimately show ?thesis using Cons.IH [of w] by simp
  qed
qed simp

lemma base128_canonical:
  "parse_base128_integer c = (Some x, c') \<Longrightarrow> c = base128_bytes (unat x) @ c'"
  using base128_loop_canonical [of 0 c x c'] by (simp add: parse_base128_integer_def)

lemma tag_bits_push:
  "push_bit 24 (ucast (b::byte) AND 0xe0 :: u32) = push_bit 29 (ucast (drop_bit 5 b))"
proof -
  have m: "(0xe0 :: u32) = push_bit 5 (mask 3)" by (simp add: mask_eq_exp_minus_1 push_bit_eq_mult)
  show ?thesis unfolding m
    by (rule bit_word_eqI) (auto simp: bit_simps dest: bit_imp_le_length)
qed

lemma unat_tag_or:
  fixes n :: u32
  assumes "unat n < 2 ^ 29"
  shows "push_bit 24 (ucast (b::byte) AND 0xe0) OR n = word_of_nat (unat b div 32 * 2 ^ 29 + unat n)"
proof -
  have "n = take_bit 29 n"
    using assms by (simp add: word_unat_eq_iff unsigned_take_bit_eq take_bit_nat_eq_self)
  then have hi: "\<not> bit n k" if "29 \<le> k" for k
    using that by (metis bit_take_bit_iff not_le)
  have "push_bit 29 (ucast (drop_bit 5 b)) OR n = push_bit 29 (ucast (drop_bit 5 b)) + n"
    by (rule disjunctive_add_eq_or [symmetric], rule bit_word_eqI) (auto simp: bit_simps hi)
  moreover have "unat (push_bit 29 (ucast (drop_bit 5 b)) :: u32) = unat b div 32 * 2 ^ 29"
  proof -
    have "unat b div 32 < 8" by (simp add: less_mult_imp_div_less)
    then show ?thesis
      by (simp add: push_bit_eq_mult unat_word_ariths unat_drop_bit_eq drop_bit_eq_div)
  qed
  then have "push_bit 29 (ucast (drop_bit 5 b)) = (word_of_nat (unat b div 32 * 2 ^ 29) :: u32)"
    by (metis word_of_nat_unat)
  ultimately show ?thesis
    unfolding tag_bits_push by (simp only: of_nat_add word_of_nat_unat)
qed

lemma parse_asn1_tag_Cons:
  "parse_asn1_tag (b # c) =
     (if unat b mod 32 = 31 then
        (case parse_base128_integer c of
           (None, c) \<Rightarrow> (None, c)
         | (Some v, c) \<Rightarrow>
             if 2 ^ 29 \<le> unat v \<or> unat v < 31 then (None, c)
             else (Some (word_of_nat (unat b div 32 * 2 ^ 29 + unat v)), c))
      else (Some (word_of_nat (unat b div 32 * 2 ^ 29 + unat b mod 32)), c))"
proof -
  have low: "unat (ucast (b AND 0x1f) :: u32) = unat b mod 32"
  proof -
    have m: "(0x1f :: byte) = mask 5" by (simp add: mask_eq_exp_minus_1)
    show ?thesis unfolding m
      by (simp flip: take_bit_eq_mask add: unsigned_take_bit_eq take_bit_nat_def)
  qed
  have l31: "(ucast (b AND 0x1f) :: u32) = 0x1f \<longleftrightarrow> unat b mod 32 = 31"
    using low by (simp add: word_unat_eq_iff)
  have mask: "unat (ucast CBS_ASN1_TAG_NUMBER_MASK :: u64) = 2 ^ 29 - 1"
    by (simp add: CBS_ASN1_TAG_NUMBER_MASK_def CBS_ASN1_TAG_SHIFT_def push_bit_eq_mult)
  have rng: "v > ucast CBS_ASN1_TAG_NUMBER_MASK \<or> v < 0x1f \<longleftrightarrow> 2 ^ 29 \<le> unat v \<or> unat v < 31" for v :: u64
    using mask by (simp add: word_less_nat_alt) linarith
  have big: "push_bit 24 (ucast b AND 0xe0) OR ucast v = (word_of_nat (unat b div 32 * 2 ^ 29 + unat v) :: u32)"
    if "unat v < 2 ^ 29" for v :: u64
  proof -
    have "unat (ucast v :: u32) = unat v"
      using that by (simp add: unsigned_ucast_eq take_bit_nat_eq_self)
    then show ?thesis using unat_tag_or [of "ucast v" b] that by simp
  qed
  have small: "push_bit 24 (ucast b AND 0xe0) OR ucast (b AND 0x1f) =
      (word_of_nat (unat b div 32 * 2 ^ 29 + unat b mod 32) :: u32)"
  proof -
    have "unat b mod 32 < 2 ^ 29" using mod_less_divisor [of 32 "unat b"] by (simp add: less_trans)
    then show ?thesis using unat_tag_or [of "ucast (b AND 0x1f)" b, unfolded low] by blast
  qed
  obtain r d where p: "parse_base128_integer c = (r, d)" by fastforce
  note simps = parse_asn1_tag_def CBS_ASN1_TAG_SHIFT_def CBS_get_u8_simps option.case prod.case
    Let_def l31 rng small p
  show ?thesis
  proof (cases r)
    case None
    show ?thesis unfolding simps None by (simp only: option.case)
  next
    case (Some v)
    show ?thesis
    proof (cases "2 ^ 29 \<le> unat v \<or> unat v < 31")
      case True
      then show ?thesis unfolding simps Some by (simp only: option.case if_True)
    next
      case False
      then have "unat v < 2 ^ 29" by linarith
      with False show ?thesis unfolding simps Some by (simp only: option.case if_False big)
    qed
  qed
qed

definition tag_class :: "u32 \<Rightarrow> nat" where "tag_class t = unat t div 2 ^ 29"
definition tag_num :: "u32 \<Rightarrow> nat" where "tag_num t = unat t mod 2 ^ 29"

definition der_tag :: "u32 \<Rightarrow> byte list" where
  "der_tag t =
     (if tag_num t < 31 then [word_of_nat (tag_class t * 32 + tag_num t)]
      else word_of_nat (tag_class t * 32 + 31) # base128_bytes (tag_num t))"

lemma tag_split: "word_of_nat (tag_class t * 2 ^ 29 + tag_num t) = t"
  by (simp only: tag_class_def tag_num_def div_mult_mod_eq word_of_nat_unat)

lemma tag_class_less: "tag_class t < 8"
  unfolding tag_class_def by (rule less_mult_imp_div_less) simp

lemma tag_num_less: "tag_num t < 2 ^ 29"
  unfolding tag_num_def by (rule mod_less_divisor) simp

lemma der_tag_roundtrip: "parse_asn1_tag (der_tag t @ rest) = (Some t, rest)"
proof (cases "tag_num t < 31")
  case True
  define b :: byte where "b = word_of_nat (tag_class t * 32 + tag_num t)"
  have ub: "unat b = tag_class t * 32 + tag_num t"
    unfolding b_def unat_byte_of_nat using tag_class_less [of t] True by (intro mod_less) linarith
  have "unat b div 32 = tag_class t" "unat b mod 32 = tag_num t"
    unfolding ub using True by (simp_all add: div_mult_self3)
  then have "parse_asn1_tag (b # rest) = (Some (word_of_nat (tag_class t * 2 ^ 29 + tag_num t)), rest)"
    using True by (simp only: parse_asn1_tag_Cons) simp
  then show ?thesis
    using True unfolding tag_split by (simp only: der_tag_def if_True b_def append_Cons append_Nil)
next
  case False
  define b :: byte where "b = word_of_nat (tag_class t * 32 + 31)"
  have ub: "unat b = tag_class t * 32 + 31"
    unfolding b_def unat_byte_of_nat using tag_class_less [of t] by (intro mod_less) linarith
  define v :: u64 where "v = word_of_nat (tag_num t)"
  have uv: "unat v = tag_num t"
    unfolding v_def using tag_num_less [of t] by (intro unat_word64_small) simp
  have "unat b div 32 = tag_class t" "unat b mod 32 = 31"
    unfolding ub by (simp_all add: div_mult_self3)
  moreover have "parse_base128_integer (base128_bytes (tag_num t) @ rest) = (Some v, rest)"
    using base128_roundtrip [of v rest] by (simp add: uv)
  ultimately have "parse_asn1_tag (b # base128_bytes (tag_num t) @ rest) =
      (Some (word_of_nat (tag_class t * 2 ^ 29 + tag_num t)), rest)"
    using False tag_num_less [of t] by (simp only: parse_asn1_tag_Cons) (simp add: uv)
  then show ?thesis
    using False unfolding tag_split by (simp only: der_tag_def if_False b_def append_Cons)
qed

lemma tag_of_parts:
  assumes "c < 8" "n < 2 ^ 29"
  shows "tag_class (word_of_nat (c * 2 ^ 29 + n)) = c" "tag_num (word_of_nat (c * 2 ^ 29 + n)) = n"
proof -
  have "c * 2 ^ 29 + n < 2 ^ 32" using assms by simp
  then have "unat (word_of_nat (c * 2 ^ 29 + n) :: u32) = c * 2 ^ 29 + n"
    by (simp only: unat_of_nat) simp
  then show "tag_class (word_of_nat (c * 2 ^ 29 + n)) = c" "tag_num (word_of_nat (c * 2 ^ 29 + n)) = n"
    using assms by (simp_all only: tag_class_def tag_num_def) simp_all
qed

lemma der_tag_canonical:
  assumes "parse_asn1_tag c = (Some t, c')"
  shows "c = der_tag t @ c'"
proof -
  from assms obtain b d where c: "c = b # d"
    by (cases c) (auto simp: parse_asn1_tag_def)
  have cl: "unat b div 32 < 8" by (rule less_mult_imp_div_less) simp
  have bm: "word_of_nat (unat b div 32 * 32 + unat b mod 32) = b"
    by (simp only: div_mult_mod_eq word_of_nat_unat)
  show ?thesis
  proof (cases "unat b mod 32 = 31")
    case True
    then obtain v where v: "parse_base128_integer d = (Some v, c')" "unat v < 2 ^ 29" "31 \<le> unat v"
      and t: "t = word_of_nat (unat b div 32 * 2 ^ 29 + unat v)"
      using assms unfolding c parse_asn1_tag_Cons by (auto split: prod.splits option.splits if_splits)
    from v(1) have "d = base128_bytes (unat v) @ c'" by (rule base128_canonical)
    with v t bm show ?thesis unfolding c
      by (simp only: der_tag_def tag_of_parts [OF cl v(2)]) (simp add: True)
  next
    case False
    then have lt: "unat b mod 32 < 31"
      using mod_less_divisor [of 32 "unat b"] by linarith
    then have "unat b mod 32 < 2 ^ 29" by simp
    moreover have "t = word_of_nat (unat b div 32 * 2 ^ 29 + unat b mod 32)" "c' = d"
      using assms False unfolding c parse_asn1_tag_Cons by (auto split: if_splits)
    ultimately show ?thesis unfolding c
      using lt bm by (simp only: der_tag_def tag_of_parts [OF cl]) simp
  qed
qed

lemma length_base128_hi: "v < 128 ^ k \<Longrightarrow> length (base128_hi v) \<le> k"
proof (induction k arbitrary: v)
  case (Suc k)
  show ?case
  proof (cases "v = 0")
    case False
    have "v div 128 < 128 ^ k" using Suc.prems by (intro less_mult_imp_div_less) (simp add: mult.commute)
    with Suc.IH show ?thesis using False by (simp add: base128_hi_pos)
  qed simp
qed simp

lemma length_der_tag: "0 < length (der_tag t)" "length (der_tag t) \<le> 6"
proof -
  have "tag_num t div 128 < 128 ^ 4"
    using tag_num_less [of t] by (intro less_mult_imp_div_less) simp
  then have "length (base128_hi (tag_num t div 128)) \<le> 4" by (rule length_base128_hi)
  then show "length (der_tag t) \<le> 6" by (simp add: der_tag_def base128_bytes_def)
  show "0 < length (der_tag t)" by (simp add: der_tag_def)
qed

definition der_len_bytes :: "nat \<Rightarrow> nat" where
  "der_len_bytes n = (if n > 0xffffff then 4 else if n > 0xffff then 3 else if n > 0xff then 2 else 1)"

definition der_length :: "nat \<Rightarrow> byte list" where
  "der_length n =
     (if n < 128 then [word_of_nat n]
      else word_of_nat (128 + der_len_bytes n) # be_bytes (der_len_bytes n) n)"

definition der_header :: "u32 \<Rightarrow> nat \<Rightarrow> byte list" where
  "der_header t n = der_tag t @ der_length n"

definition der_element :: "u32 \<Rightarrow> byte list \<Rightarrow> byte list" where
  "der_element t x = der_header t (length x) @ x"

definition take_element :: "cbs \<Rightarrow> nat \<Rightarrow> u32 \<Rightarrow> nat \<Rightarrow> (cbs \<times> u32 \<times> nat) option \<times> cbs" where
  "take_element c n t hl =
     (case cbs_get c n of (None, c) \<Rightarrow> (None, c) | (Some out, c) \<Rightarrow> (Some (out, t, hl), c))"

lemma take_element_Some:
  "take_element c n t hl = (Some (out, t', hl'), c') \<longleftrightarrow>
   t' = t \<and> hl' = hl \<and> c = out @ c' \<and> length out = n"
  by (auto simp: take_element_def cbs_get_iffs split: prod.splits option.splits)

lemma any_element_after_tag:
  assumes c: "c = der_tag t @ lb # h"
  defines "hl \<equiv> length (der_tag t) + 1"
  defines "nb \<equiv> unat lb - 128"
  shows "cbs_get_any_asn1_element c ber =
    (if unat lb < 128 then take_element c (unat lb + hl) t hl
     else if ber \<and> t AND CBS_ASN1_CONSTRUCTED \<noteq> 0 \<and> nb = 0 then take_element c hl t hl
     else if nb = 0 \<or> 4 < nb then (None, c)
     else (case cbs_get_u h nb of
             (None, h) \<Rightarrow> (None, c)
           | (Some v, h) \<Rightarrow>
               if unat v < 128 \<or> unat v < 256 ^ (nb - 1) then (None, c)
               else take_element c (unat v + hl + nb) t (hl + nb)))"
proof -
  have tag: "parse_asn1_tag c = (Some t, lb # h)"
    unfolding c by (rule der_tag_roundtrip)
  have hl: "length c - length h = hl" by (simp add: c hl_def)
  have low: "unat (lb AND 0x7f) = nb" if "\<not> unat lb < 128"
  proof -
    have "unat lb div 128 = 1" using that div128_byte [of "unat lb"] by simp
    then show ?thesis using div_mult_mod_eq [of "unat lb" 128] by (simp add: byte_low7 nb_def)
  qed
  have small: "(unat v + hl + nb) mod 2 ^ 64 = unat v + hl + nb"
    if "nb \<le> 4" "unat v < 256 ^ nb" for v :: u64
  proof -
    have "(256::nat) ^ nb \<le> 256 ^ 4" using that by (intro power_increasing) auto
    moreover have "hl \<le> 7" using length_der_tag [of t] by (simp add: hl_def)
    ultimately show ?thesis using that by (intro mod_less) simp
  qed
  have drop: "drop_bit ((nb - 1) * 8) v = 0 \<longleftrightarrow> unat v < 256 ^ (nb - 1)" for v :: u64
    by (simp only: drop_bit_u64_zero_iff mult.commute [of _ 8] power_mult) simp
  have get: "(\<lambda>len tag header_len. case CBS_get_bytes c len of (None, cbs) \<Rightarrow> (None, cbs)
      | (Some out, cbs) \<Rightarrow> (Some (out, tag, header_len), cbs)) = take_element c"
    by (simp add: fun_eq_iff take_element_def CBS_get_bytes_eq)
  note unfold = cbs_get_any_asn1_element_def get tag prod.case option.case CBS_get_u8_simps Let_def
    CBS_len_simp hl byte_msb_iff
  show ?thesis
  proof (cases "unat lb < 128")
    case True
    then show ?thesis unfolding unfold by (simp only: if_True)
  next
    case lb: False
    show ?thesis
    proof (cases "nb = 0 \<or> 4 < nb")
      case True
      then show ?thesis using lb unfolding unfold low [OF lb] by (simp only: if_False) auto
    next
      case False
      then have nb: "nb \<noteq> 0" "\<not> 4 < nb" "nb \<le> 4" by auto
      obtain r h' where u: "cbs_get_u h nb = (r, h')" by fastforce
      show ?thesis
      proof (cases r)
        case None
        show ?thesis using lb nb unfolding unfold low [OF lb] u None by simp
      next
        case (Some v)
        with u nb have v: "unat v < 256 ^ nb" by (simp add: cbs_get_u_Some)
        have v128: "v < 128 \<longleftrightarrow> unat v < 128" by (simp add: word_less_nat_alt)
        show ?thesis using lb nb
          unfolding unfold low [OF lb] u Some small [OF nb(3) v] drop v128 by simp
      qed
    qed
  qed
qed

lemma der_len_bytes_unique:
  assumes "1 \<le> nb" "nb \<le> 4" "256 ^ (nb - 1) \<le> n \<or> nb = 1" "n < 256 ^ nb"
  shows "der_len_bytes n = nb"
proof -
  from assms(1,2) consider "nb = 1" | "nb = 2" | "nb = 3" | "nb = 4" by linarith
  then show ?thesis using assms(3,4) by cases (auto simp: der_len_bytes_def)
qed

lemma der_len_bytes_bounds:
  assumes "128 \<le> n" "n < 2 ^ 32"
  shows "1 \<le> der_len_bytes n" "der_len_bytes n \<le> 4" "256 ^ (der_len_bytes n - 1) \<le> n"
    "n < 256 ^ der_len_bytes n"
  using assms by (auto simp: der_len_bytes_def)

lemma any_element_sound:
  assumes L: "cbs_get_any_asn1_element c ber = (Some (out, t, hl), c')"
  shows "c = out @ c' \<and>
     ((\<exists>x. length x < 2 ^ 32 \<and> out = der_element t x \<and> hl = length (der_header t (length x))) \<or>
      (ber \<and> t AND CBS_ASN1_CONSTRUCTED \<noteq> 0 \<and> out = der_tag t @ [0x80] \<and> hl = length out))"
proof -
  from L obtain tag h where t: "parse_asn1_tag c = (Some tag, h)" and "h \<noteq> []"
    by (auto simp: cbs_get_any_asn1_element_def CBS_get_u8_iffs Let_def split: prod.splits option.splits)
  then obtain lb h2 where h: "h = lb # h2" by (cases h) auto
  have c: "c = der_tag tag @ lb # h2" using der_tag_canonical [OF t] h by simp
  note E = L [unfolded any_element_after_tag [OF c]]
  show ?thesis
  proof (cases "unat lb < 128")
    case True
    with E have *: "t = tag" "hl = length (der_tag tag) + 1" "c = out @ c'"
      "length out = unat lb + (length (der_tag tag) + 1)" by (auto simp: take_element_Some)
    then have out: "out = take (length out) c" by simp
    define x where "x = take (unat lb) h2"
    have "out = der_tag tag @ lb # x" unfolding x_def by (subst out, subst *(4)) (simp add: c)
    moreover from this *(4) have "length x = unat lb" by simp
    ultimately have "out = der_element tag x" "hl = length (der_header tag (length x))" "length x < 2 ^ 32"
      using True *(2) by (simp_all add: der_element_def der_header_def der_length_def)
    with * show ?thesis by blast
  next
    case long: False
    let ?nb = "unat lb - 128"
    show ?thesis
    proof (cases "?nb = 0")
      case True
      with E long have *: "ber" "t AND CBS_ASN1_CONSTRUCTED \<noteq> 0" "t = tag" "hl = length (der_tag tag) + 1"
         "c = out @ c'" "length out = length (der_tag tag) + 1"
        by (auto simp: take_element_Some split: if_splits)
      then have "out = take (length (der_tag tag) + 1) c" by simp
      then have "out = der_tag tag @ [lb]" by (simp add: c)
      moreover have "lb = 0x80" using True long by (simp add: byte_eq_iff)
      ultimately show ?thesis using * by simp
    next
      case nb: False
      with E long obtain v h3 where v: "cbs_get_u h2 ?nb = (Some v, h3)" and nb4: "?nb \<le> 4"
        and vb: "128 \<le> unat v" "256 ^ (?nb - 1) \<le> unat v"
        and *: "t = tag" "hl = length (der_tag tag) + 1 + ?nb" "c = out @ c'"
         "length out = unat v + (length (der_tag tag) + 1) + ?nb"
        by (auto simp: take_element_Some split: if_splits prod.splits option.splits)
      from v nb4 have h2: "h2 = be_bytes ?nb (unat v) @ h3" and v2: "unat v < 256 ^ ?nb"
        by (auto simp: cbs_get_u_Some)
      have k: "der_len_bytes (unat v) = ?nb"
        using nb nb4 vb v2 by (intro der_len_bytes_unique) auto
      define x where "x = take (unat v) h3"
      have out: "out = take (length out) c" using * by simp
      have "out = der_tag tag @ lb # be_bytes ?nb (unat v) @ x"
        unfolding x_def by (subst out, subst *(4)) (simp add: c h2)
      moreover from this *(4) have lx: "length x = unat v" by simp
      moreover have "word_of_nat (128 + ?nb) = lb" using long by (simp add: byte_eq_iff)
      moreover have "unat v < 2 ^ 32"
      proof -
        have "(256::nat) ^ ?nb \<le> 256 ^ 4" using nb4 by (intro power_increasing) auto
        with v2 show ?thesis by simp
      qed
      ultimately have "out = der_element tag x" "hl = length (der_header tag (length x))" "length x < 2 ^ 32"
        using vb *(2) k by (simp_all add: der_element_def der_header_def der_length_def)
      with * show ?thesis by blast
    qed
  qed
qed

lemma any_element_complete:
  assumes R: "c = out @ c' \<and>
     ((\<exists>x. length x < 2 ^ 32 \<and> out = der_element t x \<and> hl = length (der_header t (length x))) \<or>
      (ber \<and> t AND CBS_ASN1_CONSTRUCTED \<noteq> 0 \<and> out = der_tag t @ [0x80] \<and> hl = length out))"
  shows "cbs_get_any_asn1_element c ber = (Some (out, t, hl), c')"
proof -
  have c: "c = out @ c'" using R by blast
  from R consider (der) x where "length x < 2 ^ 32" "out = der_element t x"
      "hl = length (der_header t (length x))"
    | (ber) "ber" "t AND CBS_ASN1_CONSTRUCTED \<noteq> 0" "out = der_tag t @ [0x80]" "hl = length out" by blast
  then show ?thesis
  proof cases
    case der
    show ?thesis
    proof (cases "length x < 128")
      case True
      define lb :: byte where "lb = word_of_nat (length x)"
      have lb: "unat lb = length x" using True by (simp add: lb_def)
      have "c = der_tag t @ lb # x @ c'" using True der by (simp add: c der_element_def der_header_def der_length_def lb_def)
      from any_element_after_tag [OF this, of ber] show ?thesis
        using True der lb by (simp add: take_element_Some c der_element_def der_header_def der_length_def)
    next
      case False
      let ?k = "der_len_bytes (length x)"
      have kb: "1 \<le> ?k" "?k \<le> 4" "256 ^ (?k - 1) \<le> length x" "length x < 256 ^ ?k"
        using der_len_bytes_bounds [of "length x"] False der(1) by auto
      define lb :: byte where "lb = word_of_nat (128 + ?k)"
      have lb: "unat lb = 128 + ?k" using kb by (simp add: lb_def del: of_nat_add)
      define v :: u64 where "v = word_of_nat (length x)"
      have uv: "unat v = length x" unfolding v_def using der(1) by (intro unat_word64_small) simp
      have c2: "c = der_tag t @ lb # be_bytes ?k (length x) @ x @ c'"
        using False der by (simp add: c der_element_def der_header_def der_length_def lb_def)
      have u: "cbs_get_u (be_bytes ?k (length x) @ x @ c') ?k = (Some v, x @ c')"
        using cbs_get_u_append [of ?k v "x @ c'"] kb by (simp add: uv)
      show ?thesis
        using any_element_after_tag [OF c2, of ber] False kb
        by (simp add: lb u uv take_element_Some c der der_element_def der_header_def der_length_def not_less)
    qed
  next
    case ber
    have "c = der_tag t @ 0x80 # c'" using ber by (simp add: c)
    from any_element_after_tag [OF this, of "True"] show ?thesis
      using ber by (simp add: take_element_Some c)
  qed
qed

lemma any_element_iff:
  "cbs_get_any_asn1_element c ber = (Some (out, t, hl), c') \<longleftrightarrow>
     c = out @ c' \<and>
     ((\<exists>x. length x < 2 ^ 32 \<and> out = der_element t x \<and> hl = length (der_header t (length x))) \<or>
      (ber \<and> t AND CBS_ASN1_CONSTRUCTED \<noteq> 0 \<and> out = der_tag t @ [0x80] \<and> hl = length out))"
  using any_element_sound any_element_complete by blast

lemma length_der_element [simp]: "length (der_element t x) = length (der_header t (length x)) + length x"
  by (simp add: der_element_def)

lemma drop_der_element [simp]: "drop (length (der_header t (length x))) (der_element t x) = x"
  by (simp add: der_element_def)

lemma CBS_get_any_asn1_iff:
  "CBS_get_any_asn1 c = (Some (x, t), c') \<longleftrightarrow> length x < 2 ^ 32 \<and> c = der_element t x @ c'"
proof
  assume "CBS_get_any_asn1 c = (Some (x, t), c')"
  then obtain out hl u where *: "cbs_get_any_asn1_element c False = (Some (out, t, hl), c')"
    "CBS_skip out hl = (Some u, x)"
    by (auto simp: CBS_get_any_asn1_def CBS_get_any_asn1_element_def split: prod.splits option.splits)
  from *(1) obtain y where "c = out @ c'" "length y < 2 ^ 32" "out = der_element t y"
    "hl = length (der_header t (length y))" unfolding any_element_iff by blast
  with *(2) show "length x < 2 ^ 32 \<and> c = der_element t x @ c'"
    by (auto simp: CBS_skip_Some)
next
  assume "length x < 2 ^ 32 \<and> c = der_element t x @ c'"
  then have "CBS_get_any_asn1_element c = (Some (der_element t x, t, length (der_header t (length x))), c')"
    unfolding CBS_get_any_asn1_element_def any_element_iff by blast
  moreover have "CBS_skip (der_element t x) (length (der_header t (length x))) = (Some (), x)"
    by (simp add: CBS_skip_Some)
  ultimately show "CBS_get_any_asn1 c = (Some (x, t), c')"
    by (simp add: CBS_get_any_asn1_def)
qed

subsection \<open>Readers as codecs\<close>

lemma suffix_readerI:
  "(\<And>c r c'. rd c = (r, c') \<Longrightarrow> suffix c' c) \<Longrightarrow> suffix_reader rd"
  by unfold_locales

lemma cbs_get_u_suffix: "cbs_get_u c n = (r, c') \<Longrightarrow> suffix c' c"
  by (auto simp: cbs_get_u_def dest!: cbs_get_suffix split: prod.splits option.splits)

lemma base128_loop_suffix: "base128_loop v c = (r, c') \<Longrightarrow> suffix c' c"
  by (induction v c arbitrary: r c' rule: base128_loop.induct)
     (auto simp: Let_def suffix_ConsI base128_loop.simps simp del: base128_loop_Cons split: if_splits)

lemma CBS_get_u8_suffix: "CBS_get_u8 c = (r, c') \<Longrightarrow> suffix c' c"
  by (cases c) (auto simp: suffix_ConsI)

lemma parse_asn1_tag_suffix: "parse_asn1_tag c = (r, c') \<Longrightarrow> suffix c' c"
  by (auto simp: parse_asn1_tag_def parse_base128_integer_def Let_def
      dest!: CBS_get_u8_suffix base128_loop_suffix intro: suffix_order.trans
      split: prod.splits option.splits if_splits)

lemma any_element_suffix: "cbs_get_any_asn1_element c ber = (r, c') \<Longrightarrow> suffix c' c"
  by (auto simp: cbs_get_any_asn1_element_def Let_def CBS_get_bytes_eq
      dest!: cbs_get_suffix split: prod.splits option.splits if_splits)

lemma unat_ucast_down_u64:
  "unat (ucast (v::u64) :: 'a::len word) = unat v mod 2 ^ LENGTH('a)"
  by (simp add: unsigned_ucast_eq take_bit_nat_def)

lemma u_codec:
  fixes cast :: "u64 \<Rightarrow> 'a::len word"
  assumes rd: "\<And>c. rd c = (case cbs_get_u c n of (None, c) \<Rightarrow> (None, c) | (Some v, c) \<Rightarrow> (Some (cast v), c))"
    and n: "n \<le> 8" and cast: "\<And>v. unat v < 256 ^ n \<Longrightarrow> unat (cast v) = unat v"
  shows "canonical_codec (\<lambda>v. be_bytes n (unat v)) rd (\<lambda>v. unat v < 256 ^ n)"
proof
  fix x :: "'a word" and rest :: cbs
  assume x: "unat x < 256 ^ n"
  define v :: u64 where "v = word_of_nat (unat x)"
  have "(256::nat) ^ n \<le> 256 ^ 8" using n by (intro power_increasing) auto
  then have v: "unat v = unat x" unfolding v_def using x by (intro unat_word64_small) simp
  then have "cast v = x" using cast [of v] x by (simp add: word_unat_eq_iff)
  with cbs_get_u_append [of n v rest] x v n show "rd (be_bytes n (unat x) @ rest) = (Some x, rest)"
    by (simp add: rd)
next
  fix c x c' assume "rd c = (Some x, c')"
  then show "unat x < 256 ^ n \<and> c = be_bytes n (unat x) @ c'"
    using n cast by (auto simp: rd cbs_get_u_Some split: prod.splits option.splits)
qed

interpretation u8: canonical_codec "\<lambda>v. be_bytes 1 (unat v)" CBS_get_u8 "\<lambda>v. unat v < 256 ^ 1"
  by unfold_locales (auto simp: CBS_get_u8_iffs byte_eq_iff)

interpretation u16: canonical_codec "\<lambda>v. be_bytes 2 (unat v)" CBS_get_u16 "\<lambda>v. unat v < 256 ^ 2"
  by (rule u_codec [where cast = ucast]) (simp_all add: CBS_get_u16_def unat_ucast_down_u64)

interpretation u24: canonical_codec "\<lambda>v. be_bytes 3 (unat v)" CBS_get_u24 "\<lambda>v. unat v < 256 ^ 3"
  by (rule u_codec [where cast = ucast]) (simp_all add: CBS_get_u24_def unat_ucast_down_u64)

interpretation u32: canonical_codec "\<lambda>v. be_bytes 4 (unat v)" CBS_get_u32 "\<lambda>v. unat v < 256 ^ 4"
  by (rule u_codec [where cast = ucast]) (simp_all add: CBS_get_u32_def unat_ucast_down_u64)

interpretation u64: canonical_codec "\<lambda>v. be_bytes 8 (unat v)" CBS_get_u64 "\<lambda>v. unat v < 256 ^ 8"
  by (rule u_codec [where cast = "\<lambda>v. v"]) (auto simp: CBS_get_u64_def split: prod.splits option.splits)

interpretation base128: canonical_codec "\<lambda>v. base128_bytes (unat v)" parse_base128_integer "\<lambda>_. True"
  by unfold_locales (auto intro: base128_roundtrip base128_canonical)

interpretation asn1_tag: canonical_codec der_tag parse_asn1_tag "\<lambda>_. True"
  by unfold_locales (auto intro: der_tag_roundtrip der_tag_canonical)

interpretation asn1: canonical_codec "\<lambda>(x, t). der_element t x" CBS_get_any_asn1 "\<lambda>(x, t). length x < 2 ^ 32"
  by unfold_locales (auto simp: CBS_get_any_asn1_iff)

lemma length_prefixed_iff:
  assumes "n \<le> 8"
  shows "cbs_get_length_prefixed c n = (Some x, c') \<longleftrightarrow>
    length x < 256 ^ n \<and> c = be_bytes n (length x) @ x @ c'"
proof
  assume "cbs_get_length_prefixed c n = (Some x, c')"
  then show "length x < 256 ^ n \<and> c = be_bytes n (length x) @ x @ c'"
    using assms by (auto simp: cbs_get_length_prefixed_def cbs_get_u_Some CBS_get_bytes_eq cbs_get_Some
        split: prod.splits option.splits)
next
  assume *: "length x < 256 ^ n \<and> c = be_bytes n (length x) @ x @ c'"
  define v :: u64 where "v = word_of_nat (length x)"
  have "(256::nat) ^ n \<le> 256 ^ 8" using assms by (intro power_increasing) auto
  then have v: "unat v = length x" unfolding v_def using * by (intro unat_word64_small) simp
  show "cbs_get_length_prefixed c n = (Some x, c')"
    using * cbs_get_u_append [of n v "x @ c'"] assms
    by (simp add: cbs_get_length_prefixed_def v CBS_get_bytes_eq)
qed

lemma prefixed_codec:
  "n \<le> 8 \<Longrightarrow> canonical_codec (\<lambda>x. be_bytes n (length x) @ x) (\<lambda>c. cbs_get_length_prefixed c n)
     (\<lambda>x. length x < 256 ^ n)"
  by unfold_locales (auto simp: length_prefixed_iff)

interpretation u8_prefixed: canonical_codec "\<lambda>x. be_bytes 1 (length x) @ x" CBS_get_u8_length_prefixed
    "\<lambda>x. length x < 256 ^ 1"
  using prefixed_codec [of 1] by (simp add: CBS_get_u8_length_prefixed_def [abs_def])

interpretation u16_prefixed: canonical_codec "\<lambda>x. be_bytes 2 (length x) @ x" CBS_get_u16_length_prefixed
    "\<lambda>x. length x < 256 ^ 2"
  using prefixed_codec [of 2] by (simp add: CBS_get_u16_length_prefixed_def [abs_def])

interpretation u24_prefixed: canonical_codec "\<lambda>x. be_bytes 3 (length x) @ x" CBS_get_u24_length_prefixed
    "\<lambda>x. length x < 256 ^ 3"
  using prefixed_codec [of 3] by (simp add: CBS_get_u24_length_prefixed_def [abs_def])

interpretation asn1_element_reader: suffix_reader "\<lambda>c. cbs_get_any_asn1_element c ber"
  by unfold_locales (rule any_element_suffix)

interpretation asn1_tag_reader: suffix_reader parse_asn1_tag
  by unfold_locales (rule parse_asn1_tag_suffix)

section \<open>Properties\<close>

lemma element_failure_keeps_input: "cbs_get_any_asn1_element c ber = (None, c') \<Longrightarrow> c' = c"
  unfolding cbs_get_any_asn1_element_def Let_def CBS_get_bytes_eq
  by (auto simp: cbs_get_None split: prod.splits option.splits if_splits)

text \<open>C6. Acceptance by the DER element parser, exactly. \<^verbatim>\<open>CBS_get_any_asn1\<close> succeeds with tag
  \<open>t\<close> and contents \<open>x\<close> if and only if the input starts with the canonical encoding of that
  element: the minimal tag (low form below 31, high form otherwise), the minimal length (short
  form below 128, otherwise the fewest length bytes) and the contents, which are shorter than
  \<open>2 ^ 32\<close> bytes; what is left is what follows. Every non-minimal, truncated or indefinite
  encoding is rejected.\<close>

theorem CBS_get_any_asn1_exact:
  "CBS_get_any_asn1 c = (Some (x, t), c') \<longleftrightarrow> length x < 2 ^ 32 \<and> c = der_element t x @ c'"
  by (rule CBS_get_any_asn1_iff)

text \<open>C28. Acceptance by the BER element parser, exactly, and what it reports. Besides the DER
  elements it accepts just the header of an indefinite-length element: the octet \<open>0x80\<close> in place
  of a length after a constructed tag, for which the element returned is the header alone. In
  both cases \<open>header_len\<close> counts the bytes before the contents, and on failure the input is left
  unchanged.\<close>

theorem CBS_get_any_ber_asn1_element_exact:
  "(CBS_get_any_ber_asn1_element c = (Some (out, t, hl), c') \<longleftrightarrow>
     c = out @ c' \<and>
     ((\<exists>x. length x < 2 ^ 32 \<and> out = der_element t x \<and> hl = length (der_header t (length x))) \<or>
      (t AND CBS_ASN1_CONSTRUCTED \<noteq> 0 \<and> out = der_tag t @ [0x80] \<and> hl = length out))) \<and>
   (fst (CBS_get_any_ber_asn1_element c) = None \<longrightarrow> snd (CBS_get_any_ber_asn1_element c) = c)"
  using any_element_iff [of c True out t hl c'] element_failure_keeps_input [of c True]
  unfolding CBS_get_any_ber_asn1_element_def
  by (cases "cbs_get_any_asn1_element c True") simp

theorem CBS_get_any_ber_asn1_element_exact_witness:
  "fst (CBS_get_any_ber_asn1_element [0x30, 0x80, 0]) = Some ([0x30, 0x80], 0x20000010, 2) \<and>
   snd (CBS_get_any_ber_asn1_element [0x30, 0x81, 0x7f]) = [0x30, 0x81, 0x7f]"
proof -
  have "der_tag 0x20000010 @ [0x80] = [0x30, 0x80]"
    by (simp add: der_tag_def tag_num_def tag_class_def)
  moreover have "(0x20000010 :: u32) AND CBS_ASN1_CONSTRUCTED \<noteq> 0"
    by (simp add: CBS_ASN1_CONSTRUCTED_def CBS_ASN1_TAG_SHIFT_def push_bit_eq_mult)
  ultimately have "CBS_get_any_ber_asn1_element [0x30, 0x80, 0] = (Some ([0x30, 0x80], 0x20000010, 2), [0])"
    using CBS_get_any_ber_asn1_element_exact [of "[0x30, 0x80, 0]" "[0x30, 0x80]" "0x20000010" 2 "[0]"] by simp
  moreover have "fst (CBS_get_any_ber_asn1_element [0x30, 0x81, 0x7f]) = None"
    by (simp add: CBS_get_any_ber_asn1_element_def cbs_get_any_asn1_element_def parse_asn1_tag_Cons
        cbs_get_u_def cbs_get_def)
  ultimately show ?thesis
    using CBS_get_any_ber_asn1_element_exact [of "[0x30, 0x81, 0x7f]"] by simp
qed

text \<open>Length-prefixed vectors. The three length-prefixed readers succeed with contents \<open>x\<close> if
  and only if the input starts with the big-endian length of \<open>x\<close> in one, two or three bytes and
  then \<open>x\<close>; nothing outside the input is ever read.\<close>

lemma length_prefixed_readers_exact:
  "(CBS_get_u8_length_prefixed c = (Some x, c') \<longleftrightarrow> length x < 256 \<and> c = be_bytes 1 (length x) @ x @ c') \<and>
   (CBS_get_u16_length_prefixed c = (Some x, c') \<longleftrightarrow> length x < 65536 \<and> c = be_bytes 2 (length x) @ x @ c') \<and>
   (CBS_get_u24_length_prefixed c = (Some x, c') \<longleftrightarrow> length x < 16777216 \<and> c = be_bytes 3 (length x) @ x @ c')"
  using u8_prefixed.accepts_iff [of c x c'] u16_prefixed.accepts_iff [of c x c']
    u24_prefixed.accepts_iff [of c x c'] by (simp del: be_bytes.simps)

text \<open>Base-128 integers. \<^verbatim>\<open>parse_base128_integer\<close> reads \<open>v\<close> if and only if the input starts with
  the minimal base-128 digits of \<open>v\<close> (most significant first, high bit set on all but the last):
  a leading zero digit and a value of more than 64 bits are both rejected.\<close>

lemma parse_base128_integer_exact:
  "parse_base128_integer c = (Some v, c') \<longleftrightarrow> c = base128_bytes (unat v) @ c'"
  using base128.accepts_iff [of c v c'] by simp

end
