(* ===== verification/DerInt.thy ===== *)
theory DerInt
  imports Der
begin

text \<open>DER INTEGER, BOOLEAN and optional elements. \<open>be_sval\<close> is the two's complement value of a byte list and
  \<open>minimal_int\<close> minimality by the standard; \<open>der_int\<close> and \<open>der_uint\<close> are the contents written for 64-bit
  numbers. The readers accept exactly the minimal contents whose value fits.\<close>

subsection \<open>INTEGER contents: minimal two's complement\<close>

definition be_sval :: "byte list \<Rightarrow> int" where
  "be_sval bs = int (be_val bs) - (if bs \<noteq> [] \<and> 128 \<le> unat (hd bs) then 256 ^ length bs else 0)"

definition redundant :: "byte \<Rightarrow> byte \<Rightarrow> bool" where
  "redundant a b \<longleftrightarrow> (a = 0 \<and> unat b < 128) \<or> (a = 0xff \<and> 128 \<le> unat b)"

fun minimal_int :: "byte list \<Rightarrow> bool" where
  "minimal_int [] = False"
| "minimal_int [b] = True"
| "minimal_int (a # b # bs) = (\<not> redundant a b)"

fun trim_int :: "byte list \<Rightarrow> byte list" where
  "trim_int (a # b # bs) = (if redundant a b then trim_int (b # bs) else a # b # bs)"
| "trim_int bs = bs"

lemma int_unat_byte: "0 \<le> int (unat (b::byte))" "int (unat (b::byte)) < 256"
  using unat_byte_less [of b] by (simp_all only: of_nat_0_le_iff of_nat_less_numeral_iff)

definition sbyte :: "byte \<Rightarrow> int" where
  "sbyte b = (if unat b < 128 then int (unat b) else int (unat b) - 256)"

lemma sbyte_bounds: "- 128 \<le> sbyte b" "sbyte b \<le> 127"
  using unat_byte_less [of b] unfolding sbyte_def by (auto simp del: unat_byte_less of_nat_unat)

lemma be_sval_Cons: "be_sval (a # bs) = sbyte a * 256 ^ length bs + int (be_val bs)"
  by (simp add: be_sval_def sbyte_def be_val_Cons algebra_simps)

lemma byte_255: "(b = 0xff) \<longleftrightarrow> unat (b::byte) = 255"
  by (simp add: byte_eq_iff)

lemma redundant_unat:
  "redundant a b \<longleftrightarrow> (unat a = 0 \<and> unat b < 128) \<or> (unat a = 255 \<and> 128 \<le> unat b)"
  unfolding redundant_def byte_255 by (simp add: unat_eq_zero)

lemma be_sval_redundant: "redundant a b \<Longrightarrow> be_sval (a # b # bs) = be_sval (b # bs)"
  unfolding redundant_unat
  by (auto simp: be_sval_Cons be_val_Cons sbyte_def algebra_simps simp del: of_nat_unat)

lemma be_sval_trim: "be_sval (trim_int bs) = be_sval bs"
  by (induction bs rule: trim_int.induct) (simp_all add: be_sval_redundant)

lemma minimal_trim: "bs \<noteq> [] \<Longrightarrow> minimal_int (trim_int bs)"
  by (induction bs rule: trim_int.induct) auto

lemma length_trim: "length (trim_int bs) \<le> length bs"
  by (induction bs rule: trim_int.induct) auto

lemma trim_minimal: "minimal_int bs \<Longrightarrow> trim_int bs = bs"
  by (cases bs rule: trim_int.cases) auto

lemma be_val_less_int: "int (be_val bs) < 256 ^ length bs"
  using be_val_less [of bs] by (simp only: of_nat_less_iff [symmetric, where 'a = int] of_nat_power of_nat_numeral)

lemma be_sval_bounds:
  "- 128 * 256 ^ length bs \<le> be_sval (a # bs)" "be_sval (a # bs) < 128 * 256 ^ length bs"
proof -
  have "- 128 * 256 ^ length bs \<le> sbyte a * 256 ^ length bs" "sbyte a * 256 ^ length bs \<le> 127 * 256 ^ length bs"
    using sbyte_bounds [of a] by (intro mult_right_mono; simp)+
  then show "- 128 * 256 ^ length bs \<le> be_sval (a # bs)" "be_sval (a # bs) < 128 * 256 ^ length bs"
    unfolding be_sval_Cons using be_val_less_int [of bs] by linarith+
qed

lemma be_sval_minimal:
  assumes "minimal_int (a # b # bs)"
  shows "be_sval (a # b # bs) < - 128 * 256 ^ length bs \<or> 128 * 256 ^ length bs \<le> be_sval (a # b # bs)"
proof -
  define p where "p = (256 ^ length bs :: int)"
  define x y where "x = sbyte a" and "y = int (unat b)"
  have v: "be_sval (a # b # bs) = (256 * x + y) * p + int (be_val bs)"
    by (simp add: be_sval_Cons be_val_Cons p_def x_def y_def algebra_simps)
  have p: "0 \<le> int (be_val bs)" "int (be_val bs) < p" "0 < p"
    by (simp_all add: p_def be_val_less)
  have "256 * x + y \<le> - 129 \<or> 128 \<le> 256 * x + y"
  proof -
    define m n where "m = unat a" and "n = unat b"
    have "m < 256" "n < 256" "\<not> ((m = 0 \<and> n < 128) \<or> (m = 255 \<and> 128 \<le> n))"
      using assms unfolding minimal_int.simps redundant_unat m_def n_def by simp_all
    then consider "m = 0" "128 \<le> n" | "0 < m" "m < 128" | "128 \<le> m" "m < 255" | "m = 255" "n < 128"
      by linarith
    then show ?thesis using \<open>n < 256\<close>
      unfolding x_def y_def sbyte_def m_def [symmetric] n_def [symmetric] by cases auto
  qed
  then show ?thesis
  proof
    assume "256 * x + y \<le> - 129"
    then have "(256 * x + y) * p \<le> - 129 * p" using p by (intro mult_right_mono) auto
    then show ?thesis unfolding v p_def [symmetric] using p by linarith
  next
    assume "128 \<le> 256 * x + y"
    then have "128 * p \<le> (256 * x + y) * p" using p by (intro mult_right_mono) auto
    then show ?thesis unfolding v p_def [symmetric] using p by linarith
  qed
qed

lemma minimal_length_le:
  assumes "minimal_int as" "minimal_int bs" "be_sval as = be_sval bs"
  shows "length as \<le> length bs"
proof (rule ccontr)
  assume *: "\<not> length as \<le> length bs"
  then obtain a b cs where as: "as = a # b # cs" using assms(2)
    by (cases as rule: trim_int.cases; cases bs) auto
  obtain d ds where bs: "bs = d # ds" using assms(2) by (cases bs) auto
  have "length ds \<le> length cs" using * as bs by simp
  then have "(256::int) ^ length ds \<le> 256 ^ length cs" by (intro power_increasing) auto
  then have "128 * (256::int) ^ length ds \<le> 128 * 256 ^ length cs" by simp
  moreover have "be_sval (a # b # cs) = be_sval (d # ds)" "minimal_int (a # b # cs)" using assms as bs by simp_all
  ultimately show False using be_sval_minimal [of a b cs] be_sval_bounds [where a = d and bs = ds]
    by linarith
qed

lemma minimal_unique:
  assumes "minimal_int as" "minimal_int bs" "be_sval as = be_sval bs"
  shows "as = bs"
proof -
  have len: "length as = length bs" using assms minimal_length_le by (metis le_antisym)
  have "be_sval cs mod 256 ^ length cs = int (be_val cs)" for cs
  proof -
    have "be_sval cs mod 256 ^ length cs = int (be_val cs) mod 256 ^ length cs"
      unfolding be_sval_def by (auto simp: mod_diff_right_eq [symmetric])
    then show ?thesis using be_val_less_int [of cs] by simp
  qed
  from this [of as] this [of bs] have "be_val as = be_val bs" using assms(3) len by simp
  then show ?thesis using be_bytes_be_val len by metis
qed

definition der_uint :: "u64 \<Rightarrow> byte list" where
  "der_uint v = trim_int (0 # be_bytes 8 (unat v))"

definition der_int :: "u64 \<Rightarrow> byte list" where
  "der_int v = trim_int (be_bytes 8 (unat v))"

lemma asn1_uint64_loop_eq:
  "asn1_uint64_loop out data =
     (if unat out * 256 ^ length data + be_val data < 2 ^ 64
      then Some (word_of_nat (unat out * 256 ^ length data + be_val data)) else None)"
proof (induction out data rule: asn1_uint64_loop.induct)
  case (1 out)
  then show ?case by simp
next
  case (2 out b data)
  let ?t = "unat out * 256 ^ length (b # data) + be_val (b # data)"
  have t: "?t = (unat out * 256 + unat b) * 256 ^ length data + be_val data"
    by (simp add: be_val_Cons algebra_simps)
  show ?case
  proof (cases "unat out < 2 ^ 56")
    case True
    have "unat out * 256 + unat b < (unat out + 1) * 256" by simp
    also have "\<dots> \<le> 2 ^ 56 * 256" using True by (intro mult_le_mono1) simp
    finally have "unat (push_bit 8 out OR ucast b) = unat out * 256 + unat b"
      by (simp add: unat_push_or_byte)
    with 2 True show ?thesis by (simp only: asn1_uint64_loop.simps drop_bit_u64_zero_iff t) simp
  next
    case False
    have "2 ^ 56 * 256 * 1 \<le> (unat out * 256 + unat b) * 256 ^ length data"
      using False by (intro mult_le_mono) auto
    then have "\<not> ?t < 2 ^ 64" unfolding t by simp
    then show ?thesis using False by (simp only: asn1_uint64_loop.simps drop_bit_u64_zero_iff) simp
  qed
qed

lemma minimal_int_guard:
  assumes "data \<noteq> []" "length data > 1 \<Longrightarrow> \<not> redundant (data ! 0) (data ! 1)"
  shows "minimal_int data"
  using assms by (cases data rule: minimal_int.cases) auto

lemma minimal_intD: "minimal_int data \<Longrightarrow> length data > 1 \<Longrightarrow> \<not> redundant (data ! 0) (data ! 1)"
  by (cases data rule: minimal_int.cases) auto

lemma be_sval_nonneg: "be_sval bs \<ge> 0 \<longleftrightarrow> bs = [] \<or> unat (hd bs) < 128"
proof (cases bs)
  case (Cons a cs)
  have "be_val bs < 256 ^ length bs" by (rule be_val_less)
  then have "int (be_val bs) < int (256 ^ length bs)" by (simp only: of_nat_less_iff)
  then show ?thesis using Cons by (auto simp: be_sval_def)
qed (simp add: be_sval_def)

lemma be_sval_pos: "unat (hd bs) < 128 \<Longrightarrow> be_sval bs = int (be_val bs)"
  by (simp add: be_sval_def)

lemma be_sval_uint: "be_sval (0 # be_bytes 8 (unat (v::u64))) = int (unat v)"
  by (simp add: be_sval_Cons sbyte_def be_val_be_bytes del: of_nat_unat)

lemma der_uint_sval: "minimal_int (der_uint v)" "be_sval (der_uint v) = int (unat v)"
  unfolding der_uint_def by (rule minimal_trim, simp) (simp only: be_sval_trim be_sval_uint)

lemma uint64_contents:
  "minimal_int data \<and> unat (data ! 0) < 128 \<and> asn1_uint64_loop 0 data = Some v \<longleftrightarrow> data = der_uint v"
proof
  assume *: "minimal_int data \<and> unat (data ! 0) < 128 \<and> asn1_uint64_loop 0 data = Some v"
  then have ne: "data \<noteq> []" by auto
  with * have "be_sval data = int (be_val data)" by (intro be_sval_pos) (simp add: hd_conv_nth)
  moreover from * have "be_val data < 2 ^ 64" "v = word_of_nat (be_val data)"
    by (auto simp: asn1_uint64_loop_eq split: if_splits)
  then have "unat v = be_val data" using unat_word64_small by simp
  ultimately show "data = der_uint v"
    using * der_uint_sval [of v] by (intro minimal_unique) simp_all
next
  assume *: "data = der_uint v"
  then have m: "minimal_int data" and s: "be_sval data = int (unat v)" using der_uint_sval by auto
  then have ne: "data \<noteq> []" by auto
  have "0 \<le> be_sval data" unfolding s by (simp only: of_nat_0_le_iff)
  with ne have h: "unat (hd data) < 128" by (simp add: be_sval_nonneg)
  then have "be_val data = unat v" using s be_sval_pos [OF h] by (simp only: of_nat_eq_iff)
  with m ne h show "minimal_int data \<and> unat (data ! 0) < 128 \<and> asn1_uint64_loop 0 data = Some v"
    by (simp add: asn1_uint64_loop_eq hd_conv_nth)
qed

lemma CBS_get_asn1_iff:
  "CBS_get_asn1 c t = (Some x, c') \<longleftrightarrow> length x < 2 ^ 32 \<and> c = der_element t x @ c'"
proof -
  have "CBS_get_asn1 c t = (Some x, c') \<longleftrightarrow> CBS_get_any_asn1 c = (Some (x, t), c')"
    by (auto simp: CBS_get_asn1_def cbs_get_asn1_def CBS_get_any_asn1_def
        split: prod.splits option.splits)
  then show ?thesis by (simp add: CBS_get_any_asn1_iff)
qed

lemma length_der_uint: "length (der_uint v) \<le> 9" "0 < length (der_uint v)"
  using length_trim [of "0 # be_bytes 8 (unat v)"] der_uint_sval(1) [of v]
  by (auto simp: der_uint_def simp del: be_bytes.simps)

lemma CBS_get_asn1_uint64_iff:
  "CBS_get_asn1_uint64 c = (Some v, c') \<longleftrightarrow> c = der_element CBS_ASN1_INTEGER (der_uint v) @ c'"
proof -
  have "CBS_get_asn1_uint64 c = (Some v, c') \<longleftrightarrow>
    (\<exists>data. CBS_get_asn1 c CBS_ASN1_INTEGER = (Some data, c') \<and>
       minimal_int data \<and> unat (data ! 0) < 128 \<and> asn1_uint64_loop 0 data = Some v)"
    by (auto simp: CBS_get_asn1_uint64_def Let_def byte_msb_iff redundant_def
        dest: minimal_intD intro!: minimal_int_guard split: prod.splits option.splits if_splits)
  also have "\<dots> \<longleftrightarrow> c = der_element CBS_ASN1_INTEGER (der_uint v) @ c'"
    unfolding uint64_contents CBS_get_asn1_iff using length_der_uint [of v] by auto
  finally show ?thesis .
qed

interpretation asn1_uint64: canonical_codec "\<lambda>v. der_element CBS_ASN1_INTEGER (der_uint v)"
    CBS_get_asn1_uint64 "\<lambda>_. True"
  by unfold_locales (auto simp: CBS_get_asn1_uint64_iff)

lemma be_sval_inj: "length as = length bs \<Longrightarrow> be_sval as = be_sval bs \<Longrightarrow> as = bs"
proof -
  assume len: "length as = length bs" and eq: "be_sval as = be_sval bs"
  have "be_sval cs mod 256 ^ length cs = int (be_val cs)" for cs
  proof -
    have "be_sval cs mod 256 ^ length cs = int (be_val cs) mod 256 ^ length cs"
      unfolding be_sval_def by (auto simp: mod_diff_right_eq [symmetric])
    then show ?thesis using be_val_less_int [of cs] by simp
  qed
  from this [of as] this [of bs] have "be_val as = be_val bs" using eq len by simp
  then show ?thesis using be_bytes_be_val len by metis
qed

definition sign_extend8 :: "byte list \<Rightarrow> byte list" where
  "sign_extend8 data = replicate (8 - length data) (if data ! 0 AND 0x80 \<noteq> 0 then 0xff else 0) @ data"

lemma be_sval_sign_extend: "data \<noteq> [] \<Longrightarrow> be_sval (sign_extend8 data) = be_sval data"
proof -
  assume ne: "data \<noteq> []"
  define s where "s = (if data ! 0 AND 0x80 \<noteq> 0 then 0xff else 0 :: byte)"
  obtain d ds where data: "data = d # ds" using ne by (cases data) auto
  have "be_sval (replicate n s @ data) = be_sval data" for n
  proof (induction n)
    case (Suc n)
    have "redundant s (hd (replicate n s @ data))"
      by (cases n) (auto simp: redundant_def s_def data byte_msb_iff)
    then have "be_sval (s # replicate n s @ data) = be_sval (replicate n s @ data)"
      using be_sval_redundant [of s "hd (replicate n s @ data)" "tl (replicate n s @ data)"] ne by simp
    with Suc show ?case by simp
  qed simp
  then show ?thesis by (simp add: sign_extend8_def s_def)
qed

lemma fill_le:
  "k \<le> length u \<Longrightarrow>
   foldl (\<lambda>u i. u[i := f i]) u [0..<k] = map f [0..<k] @ drop k u"
proof (induction k)
  case (Suc k)
  then have "drop k u = u ! k # drop (Suc k) u" by (simp add: Cons_nth_drop_Suc)
  with Suc show ?case by (simp add: list_update_append)
qed simp

lemma rev_by_index: "map (\<lambda>i. xs ! (length xs - i - 1)) [0..<length xs] = rev xs"
  by (rule nth_equalityI) (simp_all add: rev_nth)

lemma load_le64_rev: "load_le64 u = foldl (\<lambda>r b. push_bit 8 r OR ucast b) 0 (rev u)"
  by (simp add: load_le64_def foldl_conv_foldr)

definition int64_word :: "byte list \<Rightarrow> u64" where
  "int64_word data =
     (let is_negative = data ! 0 AND 0x80 \<noteq> 0; u = replicate 8 (if is_negative then 0xff else 0)
      in load_le64 (foldl (\<lambda>u i. u[i := data ! (length data - i - 1)]) u [0..<length data]))"

lemma unat_int64_word: "length data \<le> 8 \<Longrightarrow> unat (int64_word data) = be_val (sign_extend8 data)"
  by (simp add: int64_word_def Let_def fill_le rev_by_index [simplified] load_le64_rev unat_cbs_fold
      sign_extend8_def del: foldl_append)

lemma length_sign_extend8: "length data \<le> 8 \<Longrightarrow> length (sign_extend8 data) = 8"
  by (simp add: sign_extend8_def)

lemma der_int_sval: "minimal_int (der_int v)" "be_sval (der_int v) = be_sval (be_bytes 8 (unat v))"
  "length (der_int v) \<le> 8"
proof -
  have ne: "be_bytes 8 (unat v) \<noteq> []" by (metis length_be_bytes list.size(3) zero_neq_numeral)
  then show "minimal_int (der_int v)" unfolding der_int_def by (rule minimal_trim)
  show "be_sval (der_int v) = be_sval (be_bytes 8 (unat v))" by (simp only: der_int_def be_sval_trim)
  show "length (der_int v) \<le> 8" using length_trim [of "be_bytes 8 (unat v)"] by (simp only: der_int_def length_be_bytes)
qed

lemma int64_contents:
  "minimal_int data \<and> length data \<le> 8 \<and> int64_word data = v \<longleftrightarrow> data = der_int v"
proof
  assume *: "minimal_int data \<and> length data \<le> 8 \<and> int64_word data = v"
  then have ne: "data \<noteq> []" by auto
  from * have "unat v = be_val (sign_extend8 data)" using unat_int64_word by blast
  then have "be_bytes 8 (unat v) = sign_extend8 data"
    using be_bytes_be_val [of "sign_extend8 data"] * by (simp only: length_sign_extend8)
  then show "data = der_int v"
    using * der_int_sval [of v] be_sval_sign_extend [OF ne] by (intro minimal_unique) simp_all
next
  assume d: "data = der_int v"
  then have m: "minimal_int data" and s: "be_sval data = be_sval (be_bytes 8 (unat v))" and l: "length data \<le> 8"
    using der_int_sval by auto
  then have ne: "data \<noteq> []" by auto
  have "sign_extend8 data = be_bytes 8 (unat v)"
    using s l by (intro be_sval_inj) (simp_all only: length_sign_extend8 length_be_bytes be_sval_sign_extend [OF ne])
  then have "unat (int64_word data) = unat v"
    using unat_u64_less [of v] by (simp only: unat_int64_word [OF l] be_val_be_bytes) simp
  then have "int64_word data = v" by (simp only: word_unat_eq_iff)
  with m l show "minimal_int data \<and> length data \<le> 8 \<and> int64_word data = v" by blast
qed

lemma minimal_int_iff:
  "minimal_int data \<longleftrightarrow> length data \<noteq> 0 \<and>
     \<not> (length data > 1 \<and> data ! 0 = 0 \<and> data ! 1 AND 0x80 = 0) \<and>
     \<not> (length data > 1 \<and> data ! 0 = 0xff \<and> data ! 1 AND 0x80 \<noteq> 0)"
  by (cases data rule: minimal_int.cases) (auto simp: redundant_def byte_msb_iff)

lemma CBS_get_asn1_int64_alt:
  "CBS_get_asn1_int64 c =
     (case CBS_get_asn1 c CBS_ASN1_INTEGER of
        (None, c) \<Rightarrow> (None, c)
      | (Some data, c) \<Rightarrow>
          if minimal_int data \<and> length data \<le> 8 then (Some (int64_word data), c) else (None, c))"
proof -
  have chain: "(if a \<or> b then N else if p then N else if q then N else S) =
      (if (a = False \<and> \<not> p \<and> \<not> q) \<and> \<not> b then S else N)"
    for a b p q and N S :: "u64 option \<times> cbs"
    by auto
  have neg: "(length data = 0 = False) = (length data \<noteq> 0)" for data :: cbs by simp
  show ?thesis
    unfolding CBS_get_asn1_int64_def Let_def int64_word_def CBS_data_simp CBS_len_simp minimal_int_iff
      chain neg not_less ..
qed

lemma CBS_get_asn1_int64_iff:
  "CBS_get_asn1_int64 c = (Some v, c') \<longleftrightarrow> c = der_element CBS_ASN1_INTEGER (der_int v) @ c'"
proof -
  have "CBS_get_asn1_int64 c = (Some v, c') \<longleftrightarrow>
    (\<exists>data. CBS_get_asn1 c CBS_ASN1_INTEGER = (Some data, c') \<and>
       minimal_int data \<and> length data \<le> 8 \<and> int64_word data = v)"
    by (auto simp: CBS_get_asn1_int64_alt split: prod.splits option.splits if_splits)
  also have "\<dots> \<longleftrightarrow> c = der_element CBS_ASN1_INTEGER (der_int v) @ c'"
    unfolding int64_contents CBS_get_asn1_iff using der_int_sval [of v] by auto
  finally show ?thesis .
qed

interpretation asn1_int64: canonical_codec "\<lambda>v. der_element CBS_ASN1_INTEGER (der_int v)"
    CBS_get_asn1_int64 "\<lambda>_. True"
  by unfold_locales (auto simp: CBS_get_asn1_int64_iff)

lemma length_1_iff: "length x = 1 \<longleftrightarrow> (\<exists>b. x = [b])"
  by (cases x) auto

lemma CBS_get_asn1_bool_iff:
  "CBS_get_asn1_bool c = (Some v, c') \<longleftrightarrow>
   c = der_element CBS_ASN1_BOOLEAN [if v then 0xff else 0] @ c'"
proof -
  have "CBS_get_asn1_bool c = (Some v, c') \<longleftrightarrow>
     CBS_get_asn1 c CBS_ASN1_BOOLEAN = (Some [if v then 0xff else 0], c')"
    by (auto simp: CBS_get_asn1_bool_def Let_def length_1_iff [unfolded One_nat_def]
       split: prod.splits option.splits if_splits)
  then show ?thesis by (simp add: CBS_get_asn1_iff)
qed

interpretation asn1_bool: canonical_codec "\<lambda>v. der_element CBS_ASN1_BOOLEAN [if v then 0xff else 0]"
    CBS_get_asn1_bool "\<lambda>_. True"
  by unfold_locales (auto simp: CBS_get_asn1_bool_iff)

lemma CBS_peek_asn1_tag_iff: "CBS_peek_asn1_tag c t \<longleftrightarrow> (\<exists>r. c = der_tag t @ r)"
proof -
  have "CBS_peek_asn1_tag c t \<longleftrightarrow> (\<exists>r. parse_asn1_tag c = (Some t, r))"
    by (cases c) (auto simp: CBS_peek_asn1_tag_def parse_asn1_tag_def split: prod.splits option.splits)
  then show ?thesis by (simp add: asn1_tag.accepts_iff)
qed

lemma peek_der_element: "CBS_peek_asn1_tag (der_element t x @ c) t"
  by (auto simp: CBS_peek_asn1_tag_iff der_element_def der_header_def)

lemma CBS_get_optional_asn1_iff:
  "CBS_get_optional_asn1 c t = (Some r, c') \<longleftrightarrow>
     (case r of None \<Rightarrow> \<not> CBS_peek_asn1_tag c t \<and> c' = c
      | Some x \<Rightarrow> length x < 2 ^ 32 \<and> c = der_element t x @ c')"
proof (cases r)
  case None
  then show ?thesis by (auto simp: CBS_get_optional_asn1_def split: prod.splits option.splits)
next
  case (Some x)
  have "CBS_get_optional_asn1 c t = (Some (Some x), c') \<longleftrightarrow>
      CBS_peek_asn1_tag c t \<and> CBS_get_asn1 c t = (Some x, c')"
    by (auto simp: CBS_get_optional_asn1_def split: prod.splits option.splits)
  then show ?thesis using Some peek_der_element [of t x c'] by (auto simp: CBS_get_asn1_iff)
qed

lemma sval_be_bytes_8: "be_sval (be_bytes 8 (unat (v::u64))) = sint v"
proof -
  have lt: "unat v < 256 ^ 8" using unat_u64_less [of v] by (simp del: unat_u64_less)
  have hd: "128 \<le> unat (hd (be_bytes 8 (unat v))) \<longleftrightarrow> 2 ^ 63 \<le> unat v"
  proof -
    have "(0::nat) < 8" by simp
    have ne: "be_bytes 8 (unat v) \<noteq> []" by (metis length_be_bytes list.size(3) zero_neq_numeral)
    have b: "0 \<le> be_sval (be_bytes 8 (unat v)) \<longleftrightarrow> unat (hd (be_bytes 8 (unat v))) < 128"
      using be_sval_nonneg [of "be_bytes 8 (unat v)"] ne by blast
    obtain a as where a: "be_bytes 8 (unat v) = a # as" using ne by (cases "be_bytes 8 (unat v)") auto
    have las: "length as = 7" using length_be_bytes [of 8 "unat v"] a by simp
    have "unat v = unat a * 256 ^ 7 + be_val as"
      using be_val_be_bytes [of 8 "unat v"] lt a las by (simp add: be_val_Cons)
    moreover have "be_val as < 256 ^ 7" using be_val_less [of as] las by simp
    ultimately show ?thesis unfolding a by simp linarith
  qed
  have "sint v = (if 2 ^ 63 \<le> unat v then int (unat v) - 2 ^ 64 else int (unat v))"
  proof -
    have "uint v = sint v mod 2 ^ 64" using uint_sint [of v] by (simp add: take_bit_eq_mod)
    moreover have "- (2 ^ 63) \<le> sint v" "sint v < 2 ^ 63"
      using sint_greater_eq [of v] sint_less [of v] by simp_all
    moreover have "sint v mod 2 ^ 64 = (if sint v < 0 then sint v + 2 ^ 64 else sint v)"
      if "- (2 ^ 63) \<le> sint v" "sint v < 2 ^ 63"
    proof (cases "sint v < 0")
      case True
      have "(sint v + 2 ^ 64) mod 2 ^ 64 = sint v + 2 ^ 64"
        using True that by (intro mod_pos_pos_trivial) auto
      then show ?thesis using True by (simp only: mod_add_self2 if_True)
    qed (use that in \<open>simp add: mod_pos_pos_trivial\<close>)
    ultimately have "int (unat v) = (if sint v < 0 then sint v + 2 ^ 64 else sint v)"
      "- (2 ^ 63) \<le> sint v" "sint v < 2 ^ 63" by simp_all
    moreover have "2 ^ 63 \<le> unat v \<longleftrightarrow> 2 ^ 63 \<le> int (unat v)"
      by (simp only: of_nat_le_iff [symmetric, where 'a = int] of_nat_power of_nat_numeral)
    ultimately show ?thesis by (simp del: of_nat_unat split: if_splits)
  qed
  moreover have "be_bytes 8 (unat v) \<noteq> []" by (metis length_be_bytes list.size(3) zero_neq_numeral)
  ultimately show ?thesis
    unfolding be_sval_def using lt hd by (simp only: be_val_be_bytes length_be_bytes mod_less) auto
qed

section \<open>Properties\<close>

text \<open>C27. Unsigned INTEGERs. \<^verbatim>\<open>CBS_get_asn1_uint64\<close> returns \<open>v\<close> if and only if the input starts with
  the DER INTEGER whose contents are the minimal two's-complement encoding of the non-negative
  number \<open>v\<close>: negative numbers, redundant leading zeros, empty contents and values of more than
  64 bits are rejected, and every 64-bit value is accepted in its one encoding.\<close>

theorem CBS_get_asn1_uint64_exact:
  "(CBS_get_asn1_uint64 c = (Some v, c') \<longleftrightarrow> c = der_element CBS_ASN1_INTEGER (der_uint v) @ c') \<and>
   minimal_int (der_uint v) \<and> be_sval (der_uint v) = int (unat v)"
  using CBS_get_asn1_uint64_iff [of c v c'] der_uint_sval [of v] by blast

text \<open>C22. Signed INTEGERs. \<^verbatim>\<open>CBS_get_asn1_int64\<close> returns \<open>v\<close> (read as a two's-complement 64-bit
  integer) if and only if the input starts with the DER INTEGER whose contents are the minimal
  two's-complement encoding of \<open>v\<close>; the sign extension done in the 8-byte buffer preserves the
  value for each of the lengths one to eight.\<close>

theorem CBS_get_asn1_int64_exact:
  "(CBS_get_asn1_int64 c = (Some v, c') \<longleftrightarrow> c = der_element CBS_ASN1_INTEGER (der_int v) @ c') \<and>
   minimal_int (der_int v) \<and> be_sval (der_int v) = sint v"
  using CBS_get_asn1_int64_iff [of c v c'] der_int_sval [of v] sval_be_bytes_8 [of v] by simp

text \<open>Optional explicitly tagged INTEGERs. \<^verbatim>\<open>CBS_get_optional_asn1_uint64\<close> succeeds with \<open>v\<close> in
  exactly two ways: the input does not start with the tag, is left unchanged, and \<open>v\<close> is the
  default; or the input starts with an element of the tag whose whole contents are the DER INTEGER
  \<open>v\<close>. Trailing bytes in the wrapper and a malformed wrapper make it fail.\<close>

lemma CBS_get_optional_asn1_uint64_exact:
  "CBS_get_optional_asn1_uint64 c tag dflt = (Some v, c') \<longleftrightarrow>
     (\<not> CBS_peek_asn1_tag c tag \<and> v = dflt \<and> c' = c) \<or>
     c = der_element tag (der_element CBS_ASN1_INTEGER (der_uint v)) @ c'"
proof -
  have small: "length (der_element CBS_ASN1_INTEGER (der_uint v)) < 2 ^ 32"
    using length_der_uint(1) [of v] length_der_tag(2) [of CBS_ASN1_INTEGER]
    by (simp add: der_header_def der_length_def)
  have "CBS_get_optional_asn1_uint64 c tag dflt = (Some v, c') \<longleftrightarrow>
     (CBS_get_optional_asn1 c tag = (Some None, c') \<and> v = dflt) \<or>
     (\<exists>x. CBS_get_optional_asn1 c tag = (Some (Some x), c') \<and> CBS_get_asn1_uint64 x = (Some v, []))"
    by (auto simp: CBS_get_optional_asn1_uint64_def split: prod.splits option.splits if_splits)
  also have "\<dots> \<longleftrightarrow> (\<not> CBS_peek_asn1_tag c tag \<and> v = dflt \<and> c' = c) \<or>
     c = der_element tag (der_element CBS_ASN1_INTEGER (der_uint v)) @ c'"
    using small by (auto simp: CBS_get_optional_asn1_iff CBS_get_asn1_uint64_iff)
  finally show ?thesis .
qed

end
