(* ===== verification/Cbb.thy ===== *)
theory Cbb
  imports DerInt
begin

text \<open>The byte-string builder of \<^verbatim>\<open>crypto/bytestring/cbb.c\<close>, function by function. A \<open>cbb\<close> is the shared
  buffer together with the chain of open children, outermost first, each with the offset and the size of
  its pending length; a pointer to one of them is its depth. The allocator is a parameter.\<close>

record cbb_buffer =
  buf :: "byte list"
  blen :: nat
  cap :: nat
  can_resize :: bool
  error :: bool

record cbb_child =
  offset :: nat
  pending_len_len :: nat
  pending_is_asn1 :: bool

record cbb =
  base :: "cbb_buffer option"
  children :: "cbb_child list"

definition and_then :: "bool \<times> 'a \<Rightarrow> ('a \<Rightarrow> bool \<times> 'a) \<Rightarrow> bool \<times> 'a" where
  "and_then r f = (case r of (ok, s) \<Rightarrow> if ok then f s else (False, s))"

definition sizeof_cbb_buffer :: nat where "sizeof_cbb_buffer = 32"

definition CBB_zero :: cbb where
  "CBB_zero = \<lparr>base = None, children = []\<rparr>"

definition cbb_init :: "libc_malloc \<Rightarrow> cbb \<Rightarrow> byte list \<Rightarrow> nat \<Rightarrow> bool \<times> cbb" where
  "cbb_init m cbb b c =
     (case OPENSSL_malloc m sizeof_cbb_buffer of
        None \<Rightarrow> (False, cbb)
      | Some _ \<Rightarrow>
          (True, cbb\<lparr>base := Some \<lparr>buf = b, blen = 0, cap = c, can_resize = True, error = False\<rparr>\<rparr>))"

definition CBB_init :: "libc_malloc \<Rightarrow> nat \<Rightarrow> bool \<times> cbb" where
  "CBB_init m initial_capacity =
     (let buf = OPENSSL_malloc m initial_capacity
      in if initial_capacity > 0 \<and> buf = None then (False, CBB_zero)
         else cbb_init m CBB_zero (case buf of None \<Rightarrow> [] | Some b \<Rightarrow> b) initial_capacity)"

definition CBB_init_fixed :: "libc_malloc \<Rightarrow> byte list \<Rightarrow> nat \<Rightarrow> bool \<times> cbb" where
  "CBB_init_fixed m b len =
     (case cbb_init m CBB_zero b len of
        (False, cbb) \<Rightarrow> (False, cbb)
      | (True, cbb) \<Rightarrow> (True, cbb\<lparr>base := map_option (can_resize_update (\<lambda>_. False)) (base cbb)\<rparr>))"

definition CBB_cleanup :: "nat \<Rightarrow> cbb \<Rightarrow> cbb" where
  "CBB_cleanup d cbb = (if d > 0 then cbb else cbb\<lparr>base := None\<rparr>)"

definition cbb_buffer_reserve :: "libc_malloc \<Rightarrow> cbb_buffer \<Rightarrow> nat \<Rightarrow> bool \<times> cbb_buffer" where
  "cbb_buffer_reserve m b len =
     (let newlen = (blen b + len) mod 2 ^ 64
      in if newlen < blen b then (False, b\<lparr>error := True\<rparr>)
         else if newlen > cap b then
           (let newcap = (cap b * 2) mod 2 ^ 64
            in if \<not> can_resize b then (False, b\<lparr>error := True\<rparr>)
               else (let newcap = (if newcap < cap b \<or> newcap < newlen then newlen else newcap)
                     in case OPENSSL_realloc m (Some (buf b)) newcap of
                          None \<Rightarrow> (False, b\<lparr>error := True\<rparr>)
                        | Some newbuf \<Rightarrow> (True, b\<lparr>buf := newbuf, cap := newcap\<rparr>)))
         else (True, b))"

definition cbb_buffer_add :: "libc_malloc \<Rightarrow> cbb_buffer \<Rightarrow> nat \<Rightarrow> bool \<times> cbb_buffer" where
  "cbb_buffer_add m b len =
     and_then (cbb_buffer_reserve m b len) (\<lambda>b. (True, b\<lparr>blen := blen b + len\<rparr>))"

fun store_be :: "byte list \<Rightarrow> nat \<Rightarrow> nat \<Rightarrow> nat \<Rightarrow> byte list \<times> nat" where
  "store_be b off 0 v = (b, v)"
| "store_be b off (Suc i) v = store_be (b[off + i := word_of_nat v]) off i (v div 256)"

definition cbb_buffer_add_u :: "libc_malloc \<Rightarrow> cbb_buffer \<Rightarrow> u64 \<Rightarrow> nat \<Rightarrow> bool \<times> cbb_buffer" where
  "cbb_buffer_add_u m b v len_len =
     (if len_len = 0 then (True, b)
      else and_then (cbb_buffer_add m b len_len) (\<lambda>b'.
        case store_be (buf b') (blen b) len_len (unat v) of
          (bytes, v) \<Rightarrow>
            if v \<noteq> 0 then (False, b'\<lparr>buf := bytes, error := True\<rparr>)
            else (True, b'\<lparr>buf := bytes\<rparr>)))"

definition asn1_len_parts :: "nat \<Rightarrow> (nat \<times> byte \<times> nat) option" where
  "asn1_len_parts len =
     (if len > 0xfffffffe then None
      else if len > 0xffffff then Some (5, 0x80 OR 4, len)
      else if len > 0xffff then Some (4, 0x80 OR 3, len)
      else if len > 0xff then Some (3, 0x80 OR 2, len)
      else if len > 0x7f then Some (2, 0x80 OR 1, len)
      else Some (1, word_of_nat len, 0))"

definition memmove_up :: "byte list \<Rightarrow> nat \<Rightarrow> nat \<Rightarrow> nat \<Rightarrow> byte list" where
  "memmove_up b src extra n =
     take (src + extra) b @ take n (drop src b) @ drop (src + extra + n) b"

definition write_asn1_length ::
  "libc_malloc \<Rightarrow> cbb_buffer \<Rightarrow> cbb_child \<Rightarrow> nat \<Rightarrow> nat \<Rightarrow> (nat option \<times> cbb_buffer \<times> cbb_child)" where
  "write_asn1_length m b c child_start len =
     (case asn1_len_parts len of
        None \<Rightarrow> (None, b, c)
      | Some (len_len, initial_length_byte, len) \<Rightarrow>
         (case (if len_len \<noteq> 1 then
                  and_then (cbb_buffer_add m b (len_len - 1)) (\<lambda>b.
                    (True, b\<lparr>buf := memmove_up (buf b) child_start (len_len - 1) len\<rparr>))
                else (True, b)) of
            (ok, b) \<Rightarrow>
              if \<not> ok then (None, b, c)
              else (Some len, b\<lparr>buf := (buf b)[offset c := initial_length_byte]\<rparr>,
                    c\<lparr>offset := offset c + 1, pending_len_len := len_len - 1\<rparr>)))"

definition cbb_write_prefix ::
  "libc_malloc \<Rightarrow> cbb_buffer \<Rightarrow> cbb_child \<Rightarrow> nat \<Rightarrow> bool \<times> cbb_buffer \<times> cbb_child" where
  "cbb_write_prefix m b c child_start =
     (let len = blen b - child_start
      in case (if pending_is_asn1 c then write_asn1_length m b c child_start len
               else (Some len, b, c)) of
           (None, b, c) \<Rightarrow> (False, b\<lparr>error := True\<rparr>, c)
         | (Some len, b, c) \<Rightarrow>
            (case store_be (buf b) (offset c) (pending_len_len c) len of
               (bytes, len) \<Rightarrow>
                 if len \<noteq> 0 then (False, b\<lparr>buf := bytes, error := True\<rparr>, c)
                 else (True, b\<lparr>buf := bytes\<rparr>, c)))"

fun cbb_flush :: "libc_malloc \<Rightarrow> cbb_buffer \<Rightarrow> cbb_child list \<Rightarrow> bool \<times> cbb_buffer \<times> cbb_child list" where
  "cbb_flush m b [] = (if error b then (False, b, []) else (True, b, []))"
| "cbb_flush m b (c # cs) =
     (if error b then (False, b, c # cs)
      else if pending_len_len c = 0 then (True, b, c # cs)
      else
        (let child_start = (offset c + pending_len_len c) mod 2 ^ 64
         in case cbb_flush m b cs of (ok, b, cs) \<Rightarrow>
           if \<not> ok \<or> child_start < offset c \<or> blen b < child_start
           then (False, b\<lparr>error := True\<rparr>, c # cs)
           else (case cbb_write_prefix m b c child_start of
                   (ok, b, c) \<Rightarrow> if ok then (True, b, []) else (False, b, c # cs))))"

definition CBB_flush :: "libc_malloc \<Rightarrow> nat \<Rightarrow> cbb \<Rightarrow> bool \<times> cbb" where
  "CBB_flush m d cbb =
     (case base cbb of
        None \<Rightarrow> (False, cbb)
      | Some b \<Rightarrow>
          if d > length (children cbb) then (False, cbb)
          else (case cbb_flush m b (drop d (children cbb)) of
                  (ok, b, cs) \<Rightarrow>
                    (ok, cbb\<lparr>base := Some b, children := take d (children cbb) @ cs\<rparr>)))"

definition on_base :: "(cbb_buffer \<Rightarrow> bool \<times> cbb_buffer) \<Rightarrow> cbb \<Rightarrow> bool \<times> cbb" where
  "on_base f cbb =
     (case base cbb of
        None \<Rightarrow> (False, cbb)
      | Some b \<Rightarrow> (case f b of (ok, b) \<Rightarrow> (ok, cbb\<lparr>base := Some b\<rparr>)))"

definition CBB_finish ::
  "libc_malloc \<Rightarrow> nat \<Rightarrow> bool \<Rightarrow> bool \<Rightarrow> cbb \<Rightarrow> (byte list option \<times> nat option) option \<times> cbb" where
  "CBB_finish m d out_data out_len cbb =
     (if d > 0 then (None, cbb)
      else case CBB_flush m d cbb of
        (ok, cbb) \<Rightarrow>
          if \<not> ok then (None, cbb)
          else (case base cbb of
                  None \<Rightarrow> (None, cbb)
                | Some b \<Rightarrow>
                    if can_resize b \<and> (\<not> out_data \<or> \<not> out_len) then (None, cbb)
                    else (Some (if out_data then Some (buf b) else None,
                                if out_len then Some (blen b) else None),
                          CBB_cleanup d (cbb\<lparr>base := Some (b\<lparr>buf := []\<rparr>)\<rparr>))))"

definition cbb_start :: "nat \<Rightarrow> cbb \<Rightarrow> nat" where
  "cbb_start d cbb =
     (if d = 0 then 0
      else (let c = children cbb ! (d - 1) in offset c + pending_len_len c))"

definition CBB_data :: "nat \<Rightarrow> cbb \<Rightarrow> byte list" where
  "CBB_data d cbb = drop (cbb_start d cbb) (buf (the (base cbb)))"

definition CBB_len :: "nat \<Rightarrow> cbb \<Rightarrow> nat" where
  "CBB_len d cbb = blen (the (base cbb)) - cbb_start d cbb"

definition cbb_open :: "nat \<Rightarrow> cbb_child \<Rightarrow> cbb \<Rightarrow> cbb" where
  "cbb_open d c cbb = cbb\<lparr>children := take d (children cbb) @ [c]\<rparr>"

definition cbb_blen :: "cbb \<Rightarrow> nat" where
  "cbb_blen cbb = (case base cbb of None \<Rightarrow> 0 | Some b \<Rightarrow> blen b)"

definition memset_at :: "nat \<Rightarrow> nat \<Rightarrow> byte \<Rightarrow> byte list \<Rightarrow> byte list" where
  "memset_at off n v b = take off b @ replicate n v @ drop (off + n) b"

definition memcpy_at :: "nat \<Rightarrow> byte list \<Rightarrow> byte list \<Rightarrow> byte list" where
  "memcpy_at off data b = take off b @ data @ drop (off + length data) b"

definition cbb_add_length_prefixed :: "libc_malloc \<Rightarrow> nat \<Rightarrow> nat \<Rightarrow> cbb \<Rightarrow> bool \<times> cbb" where
  "cbb_add_length_prefixed m d len_len cbb =
     and_then (CBB_flush m d cbb) (\<lambda>cbb.
       let off = cbb_blen cbb
       in and_then (on_base (\<lambda>b. cbb_buffer_add m b len_len) cbb) (\<lambda>cbb.
         and_then (on_base (\<lambda>b. (True, b\<lparr>buf := memset_at off len_len 0 (buf b)\<rparr>)) cbb) (\<lambda>cbb.
           (True, cbb_open d \<lparr>offset = off, pending_len_len = len_len, pending_is_asn1 = False\<rparr> cbb))))"

definition CBB_add_u8_length_prefixed :: "libc_malloc \<Rightarrow> nat \<Rightarrow> cbb \<Rightarrow> bool \<times> cbb" where
  "CBB_add_u8_length_prefixed m d cbb = cbb_add_length_prefixed m d 1 cbb"

definition CBB_add_u16_length_prefixed :: "libc_malloc \<Rightarrow> nat \<Rightarrow> cbb \<Rightarrow> bool \<times> cbb" where
  "CBB_add_u16_length_prefixed m d cbb = cbb_add_length_prefixed m d 2 cbb"

definition CBB_add_u24_length_prefixed :: "libc_malloc \<Rightarrow> nat \<Rightarrow> cbb \<Rightarrow> bool \<times> cbb" where
  "CBB_add_u24_length_prefixed m d cbb = cbb_add_length_prefixed m d 3 cbb"

definition CBB_add_bytes :: "libc_malloc \<Rightarrow> nat \<Rightarrow> byte list \<Rightarrow> cbb \<Rightarrow> bool \<times> cbb" where
  "CBB_add_bytes m d data cbb =
     and_then (CBB_flush m d cbb) (\<lambda>cbb.
       let dest = cbb_blen cbb
       in and_then (on_base (\<lambda>b. cbb_buffer_add m b (length data)) cbb) (\<lambda>cbb.
         on_base (\<lambda>b. (True, b\<lparr>buf := memcpy_at dest data (buf b)\<rparr>)) cbb))"

definition CBB_add_space :: "libc_malloc \<Rightarrow> nat \<Rightarrow> nat \<Rightarrow> cbb \<Rightarrow> bool \<times> cbb" where
  "CBB_add_space m d len cbb =
     and_then (CBB_flush m d cbb) (on_base (\<lambda>b. cbb_buffer_add m b len))"

definition CBB_reserve :: "libc_malloc \<Rightarrow> nat \<Rightarrow> nat \<Rightarrow> cbb \<Rightarrow> bool \<times> cbb" where
  "CBB_reserve m d len cbb =
     and_then (CBB_flush m d cbb) (on_base (\<lambda>b. cbb_buffer_reserve m b len))"

definition CBB_did_write :: "nat \<Rightarrow> nat \<Rightarrow> cbb \<Rightarrow> bool \<times> cbb" where
  "CBB_did_write d len cbb =
     on_base (\<lambda>b.
       let newlen = (blen b + len) mod 2 ^ 64
       in if length (children cbb) > d \<or> newlen < blen b \<or> newlen > cap b then (False, b)
          else (True, b\<lparr>blen := newlen\<rparr>)) cbb"

definition cbb_add_u :: "libc_malloc \<Rightarrow> nat \<Rightarrow> u64 \<Rightarrow> nat \<Rightarrow> cbb \<Rightarrow> bool \<times> cbb" where
  "cbb_add_u m d v n cbb =
     and_then (CBB_flush m d cbb) (on_base (\<lambda>b. cbb_buffer_add_u m b v n))"

definition CBB_add_u8 :: "libc_malloc \<Rightarrow> nat \<Rightarrow> byte \<Rightarrow> cbb \<Rightarrow> bool \<times> cbb" where
  "CBB_add_u8 m d v cbb = cbb_add_u m d (ucast v) 1 cbb"

definition CBB_add_u16 :: "libc_malloc \<Rightarrow> nat \<Rightarrow> u16 \<Rightarrow> cbb \<Rightarrow> bool \<times> cbb" where
  "CBB_add_u16 m d v cbb = cbb_add_u m d (ucast v) 2 cbb"

definition CBB_add_u16le :: "libc_malloc \<Rightarrow> nat \<Rightarrow> u16 \<Rightarrow> cbb \<Rightarrow> bool \<times> cbb" where
  "CBB_add_u16le m d v cbb = CBB_add_u16 m d (CRYPTO_bswap2 v) cbb"

definition CBB_add_u24 :: "libc_malloc \<Rightarrow> nat \<Rightarrow> u32 \<Rightarrow> cbb \<Rightarrow> bool \<times> cbb" where
  "CBB_add_u24 m d v cbb = cbb_add_u m d (ucast v) 3 cbb"

definition CBB_add_u32 :: "libc_malloc \<Rightarrow> nat \<Rightarrow> u32 \<Rightarrow> cbb \<Rightarrow> bool \<times> cbb" where
  "CBB_add_u32 m d v cbb = cbb_add_u m d (ucast v) 4 cbb"

definition CBB_add_u32le :: "libc_malloc \<Rightarrow> nat \<Rightarrow> u32 \<Rightarrow> cbb \<Rightarrow> bool \<times> cbb" where
  "CBB_add_u32le m d v cbb = CBB_add_u32 m d (CRYPTO_bswap4 v) cbb"

definition CBB_add_u64 :: "libc_malloc \<Rightarrow> nat \<Rightarrow> u64 \<Rightarrow> cbb \<Rightarrow> bool \<times> cbb" where
  "CBB_add_u64 m d v cbb = cbb_add_u m d v 8 cbb"

definition CBB_add_u64le :: "libc_malloc \<Rightarrow> nat \<Rightarrow> u64 \<Rightarrow> cbb \<Rightarrow> bool \<times> cbb" where
  "CBB_add_u64le m d v cbb = CBB_add_u64 m d (CRYPTO_bswap8 v) cbb"

definition CBB_discard_child :: "nat \<Rightarrow> cbb \<Rightarrow> cbb" where
  "CBB_discard_child d cbb =
     (if length (children cbb) \<le> d then cbb
      else cbb\<lparr>base := map_option (blen_update (\<lambda>_. offset (children cbb ! d))) (base cbb),
               children := take d (children cbb)\<rparr>)"

fun base128_len_len :: "nat \<Rightarrow> nat" where
  "base128_len_len copy = (if copy > 0 then Suc (base128_len_len (copy div 128)) else 0)"

fun base128_emit :: "libc_malloc \<Rightarrow> nat \<Rightarrow> u64 \<Rightarrow> nat \<Rightarrow> cbb \<Rightarrow> bool \<times> cbb" where
  "base128_emit m d v 0 cbb = (True, cbb)"
| "base128_emit m d v (Suc i) cbb =
     (let b = ucast (drop_bit (7 * i) v) AND 0x7f;
          b = (if i \<noteq> 0 then b OR 0x80 else b)
      in and_then (CBB_add_u8 m d b cbb) (base128_emit m d v i))"

definition add_base128_integer :: "libc_malloc \<Rightarrow> nat \<Rightarrow> u64 \<Rightarrow> cbb \<Rightarrow> bool \<times> cbb" where
  "add_base128_integer m d v cbb =
     (let len_len = base128_len_len (unat v);
          len_len = (if len_len = 0 then 1 else len_len)
      in base128_emit m d v len_len cbb)"

definition CBB_add_asn1 :: "libc_malloc \<Rightarrow> nat \<Rightarrow> u32 \<Rightarrow> cbb \<Rightarrow> bool \<times> cbb" where
  "CBB_add_asn1 m d tag cbb =
     and_then (CBB_flush m d cbb) (\<lambda>cbb.
       let tag_bits = ucast (drop_bit CBS_ASN1_TAG_SHIFT tag) AND 0xe0 :: byte;
           tag_number = tag AND CBS_ASN1_TAG_NUMBER_MASK
       in and_then
            (if tag_number \<ge> 0x1f then
               and_then (CBB_add_u8 m d (tag_bits OR 0x1f) cbb) (add_base128_integer m d (ucast tag_number))
             else CBB_add_u8 m d (tag_bits OR ucast tag_number) cbb)
            (\<lambda>cbb.
              let off = cbb_blen cbb
              in and_then (CBB_add_u8 m d 0 cbb) (\<lambda>cbb.
                (True, cbb_open d \<lparr>offset = off, pending_len_len = 1, pending_is_asn1 = True\<rparr> cbb))))"

fun asn1_uint64_emit :: "libc_malloc \<Rightarrow> nat \<Rightarrow> u64 \<Rightarrow> nat list \<Rightarrow> bool \<Rightarrow> cbb \<Rightarrow> bool \<times> bool \<times> cbb" where
  "asn1_uint64_emit m d v [] started cbb = (True, started, cbb)"
| "asn1_uint64_emit m d v (i # is) started cbb =
     (let b = ucast (drop_bit (8 * (7 - i)) v) AND 0xff :: byte
      in if \<not> started \<and> b = 0 then asn1_uint64_emit m d v is started cbb
         else (case (if \<not> started \<and> b AND 0x80 \<noteq> 0 then CBB_add_u8 m d 0 cbb else (True, cbb)) of
                 (ok, cbb) \<Rightarrow>
                   if \<not> ok then (False, started, cbb)
                   else (case CBB_add_u8 m d b cbb of
                           (ok, cbb) \<Rightarrow>
                             if \<not> ok then (False, True, cbb)
                             else asn1_uint64_emit m d v is True cbb)))"

definition CBB_add_asn1_uint64 :: "libc_malloc \<Rightarrow> nat \<Rightarrow> u64 \<Rightarrow> cbb \<Rightarrow> bool \<times> cbb" where
  "CBB_add_asn1_uint64 m d v cbb =
     and_then (CBB_add_asn1 m d CBS_ASN1_INTEGER cbb) (\<lambda>cbb.
       case asn1_uint64_emit m (Suc d) v [0..<8] False cbb of
         (ok, started, cbb) \<Rightarrow>
           if \<not> ok then (False, cbb)
           else and_then (if \<not> started then CBB_add_u8 m (Suc d) 0 cbb else (True, cbb))
                  (CBB_flush m d))"

fun int64_start :: "byte list \<Rightarrow> nat \<Rightarrow> nat" where
  "int64_start bytes 0 = 0"
| "int64_start bytes (Suc s) =
     (if bytes ! Suc s = 0xff \<and> bytes ! s AND 0x80 \<noteq> 0 then int64_start bytes s else Suc s)"

fun emit_down :: "libc_malloc \<Rightarrow> nat \<Rightarrow> byte list \<Rightarrow> nat \<Rightarrow> cbb \<Rightarrow> bool \<times> cbb" where
  "emit_down m d bytes 0 cbb = (True, cbb)"
| "emit_down m d bytes (Suc i) cbb =
     and_then (CBB_add_u8 m d (bytes ! i) cbb) (emit_down m d bytes i)"

definition CBB_add_asn1_int64 :: "libc_malloc \<Rightarrow> nat \<Rightarrow> u64 \<Rightarrow> cbb \<Rightarrow> bool \<times> cbb" where
  "CBB_add_asn1_int64 m d v cbb =
     (if sint v \<ge> 0 then CBB_add_asn1_uint64 m d v cbb
      else (let bytes = rev (be_bytes 8 (unat v)); start = int64_start bytes 7
            in and_then (CBB_add_asn1 m d CBS_ASN1_INTEGER cbb) (\<lambda>cbb.
                 and_then (emit_down m (Suc d) bytes (start + 1) cbb) (CBB_flush m d))))"

definition CBB_add_asn1_octet_string :: "libc_malloc \<Rightarrow> nat \<Rightarrow> byte list \<Rightarrow> cbb \<Rightarrow> bool \<times> cbb" where
  "CBB_add_asn1_octet_string m d data cbb =
     and_then (CBB_add_asn1 m d CBS_ASN1_OCTETSTRING cbb) (\<lambda>cbb.
       and_then (CBB_add_bytes m (Suc d) data cbb) (CBB_flush m d))"

definition CBB_add_asn1_bool :: "libc_malloc \<Rightarrow> nat \<Rightarrow> int \<Rightarrow> cbb \<Rightarrow> bool \<times> cbb" where
  "CBB_add_asn1_bool m d v cbb =
     and_then (CBB_add_asn1 m d CBS_ASN1_BOOLEAN cbb) (\<lambda>cbb.
       and_then (CBB_add_u8 m (Suc d) (if v \<noteq> 0 then 0xff else 0) cbb) (CBB_flush m d))"

end
