(* ===== verification/CbbFlush.thy ===== *)
theory CbbFlush
  imports Cbb
begin

text \<open>Buffers and flushing. A well-formed buffer holds what was written to it and may grow; \<open>avail\<close> says when
  there is room for more. An open child is a segment, its kind of length prefix and its contents;
  \<open>cbb_flush\<close> is shown to put the prefixes in place, moving the contents where the length needs more bytes.\<close>

subsection \<open>The buffer\<close>

definition written :: "cbb_buffer \<Rightarrow> byte list" where
  "written b = take (blen b) (buf b)"

definition wf_buffer :: "cbb_buffer \<Rightarrow> bool" where
  "wf_buffer b \<longleftrightarrow> length (buf b) = cap b \<and> blen b \<le> cap b \<and> cap b < 2 ^ 63 \<and>
     (can_resize b \<longrightarrow> cap b + 8 < 2 ^ 63) \<and> \<not> error b"

definition avail :: "libc_malloc \<Rightarrow> cbb_buffer \<Rightarrow> nat \<Rightarrow> bool" where
  "avail m b T \<longleftrightarrow> T < 2 ^ 62 \<and>
     (T \<le> cap b \<or> can_resize b \<and> (\<forall>k \<le> 2 * T + 8. m k \<noteq> None))"

lemma length_written [simp]: "wf_buffer b \<Longrightarrow> length (written b) = blen b"
  by (simp add: written_def wf_buffer_def)

lemma reserve_ok:
  assumes m: "malloc_ok m" and wf: "wf_buffer b" and n: "n < 2 ^ 63"
    and ok: "cbb_buffer_reserve m b n = (True, b')"
  shows "wf_buffer b'" "written b' = written b" "blen b' = blen b" "blen b + n \<le> cap b'"
    "can_resize b' = can_resize b"
proof -
  have less: "(blen b + n) mod 2 ^ 64 = blen b + n" "(cap b * 2) mod 2 ^ 64 = cap b * 2"
    using wf n by (auto simp: wf_buffer_def intro!: mod_less)
  have "wf_buffer b' \<and> written b' = written b \<and> blen b' = blen b \<and> blen b + n \<le> cap b' \<and>
      can_resize b' = can_resize b"
  proof (cases "blen b + n > cap b")
    case True
    let ?c = "if cap b * 2 < cap b \<or> cap b * 2 < blen b + n then blen b + n else cap b * 2"
    from ok True have r: "can_resize b" "OPENSSL_realloc m (Some (buf b)) ?c = Some (buf b')"
      "b' = b\<lparr>buf := buf b', cap := ?c\<rparr>"
      unfolding cbb_buffer_reserve_def less Let_def by (auto split: if_splits option.splits)
    have c8: "?c + 8 < 2 ^ 64" "length (buf b) \<le> ?c" "blen b + n \<le> ?c"
      using wf n r(1) by (auto simp: wf_buffer_def)
    note l = OPENSSL_realloc_SomeD [OF m r(2) c8(1,2)]
    obtain nb c where b': "b' = b\<lparr>buf := nb, cap := c\<rparr>" and c: "c = ?c" and nb: "nb = buf b'"
      using r(3) by blast
    have "take (blen b) nb = take (blen b) (buf b)"
      using l(2) wf nb by (metis min.absorb1 take_take wf_buffer_def)
    then show "wf_buffer b' \<and> written b' = written b \<and> blen b' = blen b \<and> blen b + n \<le> cap b' \<and>
      can_resize b' = can_resize b"
      using l c8 wf c nb r(1) unfolding b' by (simp add: wf_buffer_def written_def)
  next
    case False
    with ok show "wf_buffer b' \<and> written b' = written b \<and> blen b' = blen b \<and> blen b + n \<le> cap b' \<and>
      can_resize b' = can_resize b"
      using wf unfolding cbb_buffer_reserve_def less Let_def by (auto split: if_splits)
  qed
  then show "wf_buffer b'" "written b' = written b" "blen b' = blen b" "blen b + n \<le> cap b'"
    "can_resize b' = can_resize b" by blast+
qed

lemma OPENSSL_malloc_avail: "n + 8 < 2 ^ 64 \<Longrightarrow> m (n + 8) \<noteq> None \<Longrightarrow> OPENSSL_malloc m n \<noteq> None"
  by (auto simp: OPENSSL_malloc_def OPENSSL_MALLOC_PREFIX_def)

lemma reserve_avail:
  assumes wf: "wf_buffer b" and av: "avail m b T" and n: "blen b + n \<le> T"
  obtains b' where "cbb_buffer_reserve m b n = (True, b')" "avail m b' T"
proof -
  have less: "(blen b + n) mod 2 ^ 64 = blen b + n" "(cap b * 2) mod 2 ^ 64 = cap b * 2"
    using wf n av by (auto simp: wf_buffer_def avail_def intro!: mod_less)
  show ?thesis
  proof (cases "blen b + n > cap b")
    case True
    let ?c = "if cap b * 2 < cap b \<or> cap b * 2 < blen b + n then blen b + n else cap b * 2"
    from True n av have rs: "can_resize b" "\<forall>k \<le> 2 * T + 8. m k \<noteq> None" "T < 2 ^ 62"
      by (auto simp: avail_def)
    have "?c \<le> 2 * T" using True n by auto
    then have "OPENSSL_malloc m ?c \<noteq> None" using rs by (intro OPENSSL_malloc_avail) auto
    then obtain nb where nb: "OPENSSL_realloc m (Some (buf b)) ?c = Some nb"
      by (auto simp: OPENSSL_realloc_def Let_def)
    have "cbb_buffer_reserve m b n = (True, b\<lparr>buf := nb, cap := ?c\<rparr>)"
      using True rs nb unfolding cbb_buffer_reserve_def less Let_def by simp
    moreover have "avail m (b\<lparr>buf := nb, cap := ?c\<rparr>) T" using rs by (simp add: avail_def)
    ultimately show ?thesis using that by blast
  next
    case False
    then have "cbb_buffer_reserve m b n = (True, b)"
      unfolding cbb_buffer_reserve_def less Let_def by simp
    then show ?thesis using that av by blast
  qed
qed

lemma add_ok:
  assumes "malloc_ok m" "wf_buffer b" "n < 2 ^ 63" "cbb_buffer_add m b n = (True, b')"
  obtains rest where "wf_buffer b'" "buf b' = written b @ rest" "n \<le> length rest" "blen b' = blen b + n"
    "can_resize b' = can_resize b"
proof -
  from assms(4) obtain b1 where b1: "cbb_buffer_reserve m b n = (True, b1)" "b' = b1\<lparr>blen := blen b1 + n\<rparr>"
    by (auto simp: cbb_buffer_add_def and_then_def split: prod.splits if_splits)
  note r = reserve_ok [OF assms(1-3) b1(1)]
  have "buf b' = written b @ drop (blen b) (buf b1)" using r(2,3) b1(2)
    by (simp add: written_def) (metis append_take_drop_id)
  moreover have "n \<le> length (drop (blen b) (buf b1))" using r by (simp add: wf_buffer_def)
  moreover have "buf b' = buf b1" "wf_buffer b'" "blen b' = blen b + n" "can_resize b' = can_resize b"
    using r b1(2) by (simp_all add: wf_buffer_def)
  ultimately show ?thesis by (metis that)
qed

lemma add_avail:
  assumes "wf_buffer b" "avail m b T" "blen b + n \<le> T"
  obtains b' where "cbb_buffer_add m b n = (True, b')" "avail m b' T"
proof -
  obtain b1 where "cbb_buffer_reserve m b n = (True, b1)" "avail m b1 T"
    using reserve_avail [OF assms] .
  then have "cbb_buffer_add m b n = (True, b1\<lparr>blen := blen b1 + n\<rparr>)" "avail m (b1\<lparr>blen := blen b1 + n\<rparr>) T"
    by (simp_all add: cbb_buffer_add_def and_then_def avail_def)
  then show ?thesis by (rule that)
qed

lemma store_be_eq:
  "off + n \<le> length b \<Longrightarrow>
   store_be b off n v = (take off b @ be_bytes n v @ drop (off + n) b, v div 256 ^ n)"
proof (induction n arbitrary: b v)
  case (Suc n)
  have d: "drop (off + n) (b[off + n := x]) = x # drop (off + Suc n) b" for x
    using Suc.prems by (simp add: Cons_nth_drop_Suc [symmetric])
  show ?case using Suc.prems by (simp add: Suc.IH d div_mult2_eq)
qed simp

subsection \<open>Length prefixes\<close>

datatype length_prefix = Der_length | Fixed_length nat

fun prefix_space :: "length_prefix \<Rightarrow> nat" where
  "prefix_space Der_length = 1"
| "prefix_space (Fixed_length k) = k"

fun prefix_fits :: "length_prefix \<Rightarrow> nat \<Rightarrow> bool" where
  "prefix_fits Der_length n = (n \<le> 0xfffffffe)"
| "prefix_fits (Fixed_length k) n = (n < 256 ^ k)"

fun prefix_bytes :: "length_prefix \<Rightarrow> nat \<Rightarrow> byte list" where
  "prefix_bytes Der_length n = der_length n"
| "prefix_bytes (Fixed_length k) n = be_bytes k n"

fun prefix_wf :: "length_prefix \<Rightarrow> bool" where
  "prefix_wf Der_length = True"
| "prefix_wf (Fixed_length k) = (0 < k \<and> k \<le> 8)"

lemma length_der_length: "1 \<le> length (der_length n)" "length (der_length n) \<le> 5"
  by (simp_all add: der_length_def der_len_bytes_def)

lemma length_prefix_bytes: "prefix_wf p \<Longrightarrow> prefix_space p \<le> length (prefix_bytes p n)"
  by (cases p) (simp_all add: der_length_def)

definition child_frame :: "nat \<Rightarrow> length_prefix \<Rightarrow> cbb_child" where
  "child_frame n p = \<lparr>offset = n, pending_len_len = prefix_space p, pending_is_asn1 = (p = Der_length)\<rparr>"

lemma asn1_len_parts_None: "asn1_len_parts n = None \<longleftrightarrow> \<not> n \<le> 0xfffffffe"
  by (simp add: asn1_len_parts_def)

lemma asn1_len_parts_Some:
  "asn1_len_parts n = Some (k, ib, n') \<Longrightarrow>
   der_length n = ib # be_bytes (k - 1) n \<and> 1 \<le> k \<and> k \<le> 5 \<and> n' = (if k = 1 then 0 else n) \<and> n' div 256 ^ (k - 1) = 0"
  unfolding asn1_len_parts_def der_length_def der_len_bytes_def
  by (auto split: if_splits)

lemma memmove_up_eq:
  "length rest \<ge> e \<Longrightarrow> 
   memmove_up (pre @ y @ rest) (length pre) e (length y) = pre @ take e (y @ rest) @ y @ drop e rest"
  by (simp add: memmove_up_def take_add ac_simps)

lemma write_prefix_fixed:
  assumes wf: "wf_buffer b" and w: "written b = pre @ replicate k 0 @ y" and k: "0 < k" "k \<le> 8"
  shows "cbb_write_prefix m b (child_frame (length pre) (Fixed_length k)) (length pre + k) =
    (length y < 256 ^ k,
     b\<lparr>buf := pre @ be_bytes k (length y) @ y @ drop (blen b) (buf b),
       error := \<not> length y < 256 ^ k\<rparr>,
     child_frame (length pre) (Fixed_length k))"
proof -
  have b: "buf b = pre @ replicate k 0 @ y @ drop (blen b) (buf b)"
    using w by (metis append.assoc append_take_drop_id written_def)
  have l: "blen b = length pre + k + length y" using length_written [OF wf] w by simp
  define tl where "tl = drop (blen b) (buf b)"
  have "length (buf b) = length pre + k + length y + length tl" by (subst b) (simp add: tl_def)
  then have s: "store_be (buf b) (length pre) k (length y) =
     (pre @ be_bytes k (length y) @ y @ tl, length y div 256 ^ k)"
    by (subst store_be_eq) (simp, subst b, subst b, simp add: tl_def)
  have "length y div 256 ^ k \<noteq> 0 \<longleftrightarrow> \<not> length y < 256 ^ k"
    by (simp add: div_eq_0_iff)
  then show ?thesis using wf l
    by (simp add: cbb_write_prefix_def child_frame_def s tl_def wf_buffer_def)
qed

lemma write_prefix_der_None:
  assumes "blen b - cs > 0xfffffffe"
  shows "cbb_write_prefix m b (child_frame n Der_length) cs = (False, b\<lparr>error := True\<rparr>, child_frame n Der_length)"
proof -
  have "asn1_len_parts (blen b - cs) = None" using assms by (simp only: asn1_len_parts_None)
  then show ?thesis
    unfolding cbb_write_prefix_def write_asn1_length_def child_frame_def Let_def by simp
qed

lemma reserve_error: "cbb_buffer_reserve m b n = (False, b') \<Longrightarrow> error b'"
  by (auto simp: cbb_buffer_reserve_def Let_def split: if_splits option.splits)

lemma add_error: "cbb_buffer_add m b n = (False, b') \<Longrightarrow> error b'"
  by (auto simp: cbb_buffer_add_def and_then_def dest: reserve_error split: prod.splits if_splits)

lemma write_prefix_der:
  assumes wf: "wf_buffer b" and w: "written b = pre @ [0] @ y" and m: "malloc_ok m"
    and fits: "length y \<le> 0xfffffffe"
  defines "c \<equiv> child_frame (length pre) Der_length"
  shows "(case cbb_buffer_add m b (length (der_length (length y)) - 1) of (ok, b1) \<Rightarrow>
     if ok \<or> length (der_length (length y)) = 1 then
       \<exists>b' c'. cbb_write_prefix m b c (length pre + 1) = (True, b', c') \<and>
         wf_buffer b' \<and> written b' = pre @ der_length (length y) @ y \<and> can_resize b' = can_resize b \<and>
         cap b' = (if length (der_length (length y)) = 1 then cap b else cap b1)
     else \<exists>b' c'. cbb_write_prefix m b c (length pre + 1) = (False, b', c') \<and> error b')"
proof -
  have l: "blen b = length pre + 1 + length y" using length_written [OF wf] w by simp
  then have n: "blen b - Suc (length pre) = length y" by simp
  obtain k ib n' where p: "asn1_len_parts (length y) = Some (k, ib, n')"
    using fits asn1_len_parts_None [of "length y"] by (cases "asn1_len_parts (length y)") auto
  from asn1_len_parts_Some [OF p] have dl: "der_length (length y) = ib # be_bytes (k - 1) (length y)"
    and k: "1 \<le> k" "k \<le> 5" and n': "n' = (if k = 1 then 0 else length y)" "n' div 256 ^ (k - 1) = 0" by auto
  have lk: "length (der_length (length y)) = k" using dl k by simp
  have b: "buf b = pre @ [0] @ y @ drop (blen b) (buf b)"
    using w by (metis append.assoc append_take_drop_id written_def)
  show ?thesis
  proof (cases "k = 1")
    case True
    define tl where "tl = drop (blen b) (buf b)"
    have b2: "buf b = pre @ [0] @ y @ tl" using b by (simp add: tl_def)
    have "cbb_write_prefix m b c (length pre + 1) =
       (True, b\<lparr>buf := pre @ [ib] @ y @ tl\<rparr>, c\<lparr>offset := length pre + 1, pending_len_len := 0\<rparr>)"
      using True n' by (simp add: cbb_write_prefix_def write_asn1_length_def c_def child_frame_def n p b2
          list_update_append)
    moreover have "wf_buffer (b\<lparr>buf := pre @ [ib] @ y @ tl\<rparr>)"
      using wf l b2 by (simp add: wf_buffer_def)
    moreover have "written (b\<lparr>buf := pre @ [ib] @ y @ tl\<rparr>) = pre @ der_length (length y) @ y"
      using l True by (simp add: written_def dl)
    ultimately show ?thesis using True by (simp add: lk split: prod.splits)
  next
    case False
    obtain ok b1 where add: "cbb_buffer_add m b (k - 1) = (ok, b1)" by fastforce
    show ?thesis
    proof (cases ok)
      case False
      then have "cbb_write_prefix m b c (length pre + 1) = (False, b1\<lparr>error := True\<rparr>, c)"
        using \<open>k \<noteq> 1\<close> add
        by (simp add: cbb_write_prefix_def write_asn1_length_def c_def child_frame_def n p and_then_def)
      then show ?thesis using False \<open>k \<noteq> 1\<close> add by (simp add: lk)
    next
      case True
      have "k - 1 < 2 ^ 63" using k by simp
      with m wf True add obtain rest where b1: "wf_buffer b1" "buf b1 = written b @ rest" "k - 1 \<le> length rest"
        "blen b1 = blen b + (k - 1)" "can_resize b1 = can_resize b" by (auto elim: add_ok)
      define gap where "gap = take (k - 1) (y @ rest)"
      define tl where "tl = drop (k - 1) rest"
      have gl: "length gap = k - 1" using b1(3) by (simp add: gap_def)
      have mv: "memmove_up (buf b1) (length pre + 1) (k - 1) (length y) = pre @ [0] @ gap @ y @ tl"
        using memmove_up_eq [OF b1(3), of "pre @ [0]" y] by (simp add: b1(2) w gap_def tl_def)
      have st: "store_be (pre @ [ib] @ gap @ y @ tl) (length pre + 1) (k - 1) (length y) =
         (pre @ [ib] @ be_bytes (k - 1) (length y) @ y @ tl, length y div 256 ^ (k - 1))"
        by (subst store_be_eq) (simp_all add: gl)
      let ?b = "b1\<lparr>buf := pre @ [ib] @ be_bytes (k - 1) (length y) @ y @ tl\<rparr>"
      have "cbb_write_prefix m b c (length pre + 1) =
         (True, ?b, c\<lparr>offset := length pre + 1, pending_len_len := k - 1\<rparr>)"
        using \<open>k \<noteq> 1\<close> add True n' mv st
        by (simp add: cbb_write_prefix_def write_asn1_length_def c_def child_frame_def n p and_then_def
            list_update_append)
      moreover have "wf_buffer ?b" using b1 w k gl by (auto simp: wf_buffer_def tl_def)
      moreover have "written ?b = pre @ der_length (length y) @ y"
        using b1(4) l k by (cases k) (simp_all add: written_def dl)
      ultimately show ?thesis using True \<open>k \<noteq> 1\<close> add b1(5) by (simp add: lk)
    qed
  qed
qed

lemma write_prefix:
  assumes wf: "wf_buffer b" and w: "written b = pre @ replicate (prefix_space p) 0 @ y" and m: "malloc_ok m"
    and p: "prefix_wf p"
    and r: "cbb_write_prefix m b (child_frame (length pre) p) (length pre + prefix_space p) = (ok, b', c')"
  shows "ok \<Longrightarrow> prefix_fits p (length y) \<and> wf_buffer b' \<and>
      written b' = pre @ prefix_bytes p (length y) @ y \<and> can_resize b' = can_resize b"
    and "\<not> ok \<Longrightarrow> error b'"
    and "prefix_fits p (length y) \<Longrightarrow> avail m b T \<Longrightarrow> length pre + length (prefix_bytes p (length y)) + length y \<le> T \<Longrightarrow>
      ok \<and> avail m b' T"
proof -
  have l: "blen b = length pre + prefix_space p + length y" using length_written [OF wf] w by simp
  have "(ok \<longrightarrow> prefix_fits p (length y) \<and> wf_buffer b' \<and>
      written b' = pre @ prefix_bytes p (length y) @ y \<and> can_resize b' = can_resize b) \<and> (\<not> ok \<longrightarrow> error b') \<and>
    (prefix_fits p (length y) \<and> avail m b T \<and> length pre + length (prefix_bytes p (length y)) + length y \<le> T \<longrightarrow>
      ok \<and> avail m b' T)"
  proof (cases p)
    case (Fixed_length k)
    with w p have *: "written b = pre @ replicate k 0 @ y" "0 < k" "k \<le> 8" by simp_all
    have lb: "length (pre @ be_bytes k (length y) @ y @ drop (blen b) (buf b)) = cap b"
      using wf l Fixed_length unfolding wf_buffer_def by simp
    have ok: "ok = (length y < 256 ^ k)" and b': "b' = b\<lparr>buf := pre @ be_bytes k (length y) @ y @ drop (blen b) (buf b),
       error := \<not> length y < 256 ^ k\<rparr>"
      using r [unfolded Fixed_length prefix_space.simps write_prefix_fixed [OF wf *, of m]] by blast+
    have "written b' = pre @ be_bytes k (length y) @ y"
      unfolding b' using l Fixed_length by (simp add: written_def)
    moreover have "ok \<Longrightarrow> wf_buffer b'" using wf lb ok unfolding b' by (simp add: wf_buffer_def)
    moreover have "avail m b' T = avail m b T" unfolding b' by (simp add: avail_def)
    moreover have "error b' = (\<not> ok)" "can_resize b' = can_resize b" unfolding b' ok by simp_all
    ultimately show ?thesis using ok Fixed_length by simp
  next
    case Der_length
    have w': "written b = pre @ [0] @ y" using w Der_length by simp
    show ?thesis
    proof (cases "length y \<le> 0xfffffffe")
      case False
      then have "ok = False" "error b'"
        using r l write_prefix_der_None [of b "length pre + 1" m "length pre"] Der_length by auto
      then show ?thesis using Der_length False by simp
    next
      case True
      let ?n = "length (der_length (length y)) - 1"
      obtain ok1 b1 where add: "cbb_buffer_add m b ?n = (ok1, b1)" by fastforce
      note D = write_prefix_der [OF wf w' m True, unfolded add prod.case]
      have av: "ok1 \<and> avail m b1 T" if "avail m b T" "length pre + length (der_length (length y)) + length y \<le> T" 
      proof -
        have "blen b + ?n \<le> T" using that l Der_length length_der_length(1) [of "length y"] by simp
        from add_avail [OF wf that(1) this] add show ?thesis by auto
      qed
      have n: "?n < 2 ^ 63" using length_der_length(2) [of "length y"] by simp
      have cr: "can_resize b1 = can_resize b" if ok1
        using add_ok [OF m wf n, of b1] add that by auto
      have fits: "prefix_fits p (length y)" using True Der_length by simp
      show ?thesis
      proof (cases "ok1 \<or> length (der_length (length y)) = 1")
        case yes: True
        with D r Der_length have *: "ok" "wf_buffer b'" "written b' = pre @ der_length (length y) @ y"
          "can_resize b' = can_resize b" "cap b' = (if length (der_length (length y)) = 1 then cap b else cap b1)"
          by auto
        then have "avail m b' T" if "avail m b T" "avail m b1 T" "ok1"
          using that cr [OF that(3)] unfolding avail_def by auto
        with * av show ?thesis using Der_length fits by auto
      next
        case no: False
        with D r Der_length have "\<not> ok" "error b'" by auto
        moreover from no have "\<not> ok1" by simp
        ultimately show ?thesis using av Der_length by auto
      qed
    qed
  qed
  then show "ok \<Longrightarrow> prefix_fits p (length y) \<and> wf_buffer b' \<and>
      written b' = pre @ prefix_bytes p (length y) @ y \<and> can_resize b' = can_resize b"
    and "\<not> ok \<Longrightarrow> error b'"
    and "prefix_fits p (length y) \<Longrightarrow> avail m b T \<Longrightarrow> length pre + length (prefix_bytes p (length y)) + length y \<le> T \<Longrightarrow>
      ok \<and> avail m b' T" by blast+
qed

subsection \<open>Open children and flushing\<close>

type_synonym segment = "length_prefix \<times> byte list"

fun frames :: "nat \<Rightarrow> segment list \<Rightarrow> cbb_child list" where
  "frames n [] = []"
| "frames n ((p, x) # fs) = child_frame n p # frames (n + prefix_space p + length x) fs"

fun layout :: "segment list \<Rightarrow> byte list" where
  "layout [] = []"
| "layout ((p, x) # fs) = replicate (prefix_space p) 0 @ x @ layout fs"

fun closed :: "segment list \<Rightarrow> byte list option" where
  "closed [] = Some []"
| "closed ((p, x) # fs) =
     (case closed fs of
        None \<Rightarrow> None
      | Some r \<Rightarrow>
          if prefix_fits p (length (x @ r)) then Some (prefix_bytes p (length (x @ r)) @ x @ r) else None)"

definition segments_wf :: "segment list \<Rightarrow> bool" where
  "segments_wf fs \<longleftrightarrow> list_all (\<lambda>(p, x). prefix_wf p) fs"

lemma segments_wf_simps [simp]:
  "segments_wf []" "segments_wf ((p, x) # fs) \<longleftrightarrow> prefix_wf p \<and> segments_wf fs"
  "segments_wf (fs @ gs) \<longleftrightarrow> segments_wf fs \<and> segments_wf gs"
  by (auto simp: segments_wf_def)

lemma layout_append [simp]: "layout (fs @ gs) = layout fs @ layout gs"
  by (induction fs rule: layout.induct) auto

lemma frames_append [simp]: "frames n (fs @ gs) = frames n fs @ frames (n + length (layout fs)) gs"
  by (induction n fs rule: frames.induct) (auto simp: ac_simps)

lemma length_frames [simp]: "length (frames n fs) = length fs"
  by (induction n fs rule: frames.induct) auto

lemma prefix_space_pos: "prefix_wf p \<Longrightarrow> 0 < prefix_space p"
  by (cases p) auto

lemma prefix_space_le: "prefix_wf p \<Longrightarrow> prefix_space p \<le> 8"
  by (cases p) auto

lemma closed_length: "segments_wf fs \<Longrightarrow> closed fs = Some r \<Longrightarrow> length (layout fs) \<le> length r"
proof (induction fs arbitrary: r rule: closed.induct)
  case (2 p x fs)
  then obtain r' where "closed fs = Some r'" "r = prefix_bytes p (length (x @ r')) @ x @ r'"
    by (auto split: option.splits if_splits)
  with 2 length_prefix_bytes [of p "length (x @ r')"] show ?case by fastforce
qed simp

lemma cbb_flush_error: "cbb_flush m b cs = (False, b', cs') \<Longrightarrow> error b'"
  by (cases cs) (auto simp: Let_def cbb_write_prefix_def split: if_splits prod.splits option.splits)

lemma cbb_flush_both:
  assumes "malloc_ok m" "wf_buffer b" "written b = pre @ layout fs" "segments_wf fs"
    and "cbb_flush m b (frames (length pre) fs) = (ok, b', cs')"
  shows "(ok \<longrightarrow> (\<exists>r. closed fs = Some r \<and> wf_buffer b' \<and> written b' = pre @ r \<and> cs' = [] \<and>
        can_resize b' = can_resize b)) \<and>
     (\<forall>r. closed fs = Some r \<and> avail m b T \<and> length pre + length r \<le> T \<longrightarrow> ok \<and> avail m b' T)"
  using assms
proof (induction fs arbitrary: pre ok b' cs' rule: layout.induct)
  case 1
  then show ?case by (auto simp: wf_buffer_def)
next
  case (2 p x fs)
  note m = "2.prems"(1) and wf = "2.prems"(2) and w = "2.prems"(3) and s = "2.prems"(4) and fl = "2.prems"(5)
  let ?pre = "pre @ replicate (prefix_space p) 0 @ x"
  let ?c = "child_frame (length pre) p"
  let ?start = "length pre + prefix_space p"
  show ?case
  proof -
    from w have w1: "written b = ?pre @ layout fs" by simp
    from s have p: "prefix_wf p" and s1: "segments_wf fs" by simp_all
    obtain ok1 b1 cs1 where f1: "cbb_flush m b (frames (length ?pre) fs) = (ok1, b1, cs1)"
      by (metis prod_cases3)
    note IH = "2.IH" [OF m wf w1 s1 f1]
    have IH1: "ok1 \<Longrightarrow> \<exists>r. closed fs = Some r \<and> wf_buffer b1 \<and> written b1 = ?pre @ r \<and>
        can_resize b1 = can_resize b"
      and IH2: "closed fs = Some q \<Longrightarrow> avail m b T \<Longrightarrow> length ?pre + length q \<le> T \<Longrightarrow> ok1 \<and> avail m b1 T" for q
      using IH by blast+
    have lw: "length pre + prefix_space p + length x \<le> blen b" using length_written [OF wf] w by simp
    have bl: "blen b < 2 ^ 63" using wf by (simp add: wf_buffer_def)
    have st: "(offset ?c + pending_len_len ?c) mod 2 ^ 64 = ?start"
      using lw bl by (simp add: child_frame_def)
    have nz: "pending_len_len ?c \<noteq> 0" using prefix_space_pos [OF p] by (simp add: child_frame_def)
    have off: "offset ?c = length pre" by (simp add: child_frame_def)
    have ac: "length ?pre = length pre + prefix_space p + length x" by simp
    have E: "cbb_flush m b (frames (length pre) ((p, x) # fs)) =
       (if \<not> ok1 \<or> blen b1 < ?start then (False, b1\<lparr>error := True\<rparr>, ?c # cs1)
        else (case cbb_write_prefix m b1 ?c ?start of
                (ok, b, c) \<Rightarrow> if ok then (True, b, []) else (False, b, c # cs1)))"
      using wf nz f1 unfolding frames.simps cbb_flush.simps Let_def st ac [symmetric]
      by (simp add: wf_buffer_def off)
    show ?thesis
    proof (cases ok1)
      case False
      then have "\<not> ok" using E fl by simp
      moreover have "\<not> avail m b T \<or> \<not> length ?pre + length q \<le> T" if "closed fs = Some q" for q
        using IH2 [of q] that False by auto
      moreover have "\<exists>q. closed fs = Some q \<and> length ?pre + length q \<le> length pre + length r"
        if "closed ((p, x) # fs) = Some r" for r
      proof -
        from that obtain q where "closed fs = Some q" "r = prefix_bytes p (length (x @ q)) @ x @ q"
          by (auto split: option.splits if_splits)
        then show ?thesis using length_prefix_bytes [OF p, of "length (x @ q)"] by auto
      qed
      ultimately show ?thesis by (meson le_trans)
    next
      case True
      from IH1 [OF True] obtain r1 where r1: "closed fs = Some r1" "wf_buffer b1" "written b1 = ?pre @ r1"
        "can_resize b1 = can_resize b" by blast
      from r1(3) have w2: "written b1 = pre @ replicate (prefix_space p) 0 @ (x @ r1)" by simp
      have "?start \<le> blen b1" using length_written [OF r1(2)] w2 by simp
      then have E2: "cbb_flush m b (frames (length pre) ((p, x) # fs)) =
        (case cbb_write_prefix m b1 ?c ?start of
                (ok, b, c) \<Rightarrow> if ok then (True, b, []) else (False, b, c # cs1))"
        using True E by simp
      obtain ok2 b2 c2 where wp: "cbb_write_prefix m b1 ?c ?start = (ok2, b2, c2)" by (metis prod_cases3)
      have res: "ok = ok2" "b' = b2" "ok2 \<Longrightarrow> cs' = []" using fl E2 wp by (auto split: if_splits)
      note WP = write_prefix [OF r1(2) w2 m p wp]
      have c: "closed ((p, x) # fs) = (if prefix_fits p (length (x @ r1))
         then Some (prefix_bytes p (length (x @ r1)) @ x @ r1) else None)" using r1(1) by simp
      have "ok \<and> avail m b' T" if "prefix_fits p (length (x @ r1))" "avail m b T"
         "length pre + length (prefix_bytes p (length (x @ r1))) + length (x @ r1) \<le> T"
      proof -
        have "length ?pre + length r1 \<le> T" using that(3) length_prefix_bytes [OF p, of "length (x @ r1)"] by simp
        then have "avail m b1 T" using IH2 [OF r1(1) that(2)] by simp
        from WP(3) [OF that(1) this that(3)] res show ?thesis by simp
      qed
      then show ?thesis unfolding c using WP(1) res r1(4) by auto
    qed
  qed
qed

lemma cbb_flush_correct:
  assumes "malloc_ok m" "wf_buffer b" "written b = pre @ layout fs" "segments_wf fs"
    and "cbb_flush m b (frames (length pre) fs) = (ok, b', cs')"
  shows "ok \<Longrightarrow> \<exists>r. closed fs = Some r \<and> wf_buffer b' \<and> written b' = pre @ r \<and> cs' = [] \<and>
      can_resize b' = can_resize b"
    and "closed fs = Some r \<Longrightarrow> avail m b T \<Longrightarrow> length pre + length r \<le> T \<Longrightarrow> ok \<and> avail m b' T"
  using cbb_flush_both [OF assms] by blast+

end
