(* ===== verification/CbbDoc.thy ===== *)
theory CbbDoc
  imports CbbFlush
begin

text \<open>Abstract documents and refinement. A \<open>doc\<close> is the bytes below the open children and the list of open
  children; \<open>represents\<close> relates a builder to a document, \<open>implements\<close> an operation of the builder to one
  on documents, failures by lack of memory included, and \<open>appends\<close> an operation to the bytes it adds at a
  depth. Every operation of the builder is shown to implement its counterpart.\<close>

subsection \<open>Abstract documents\<close>

type_synonym doc = "byte list \<times> segment list"

fun doc_append :: "byte list \<Rightarrow> doc \<Rightarrow> doc" where
  "doc_append z (x, []) = (x @ z, [])"
| "doc_append z (x, (p, y) # fs) = (case doc_append z (y, fs) of (y', fs') \<Rightarrow> (x, (p, y') # fs'))"

definition doc_flush :: "nat \<Rightarrow> doc \<Rightarrow> doc option" where
  "doc_flush d D =
     (if d > length (snd D) then None
      else map_option (\<lambda>r. doc_append r (fst D, take d (snd D))) (closed (drop d (snd D))))"

definition doc_open :: "length_prefix \<Rightarrow> doc \<Rightarrow> doc" where
  "doc_open p D = (fst D, snd D @ [(p, [])])"

definition doc_content :: "doc \<Rightarrow> byte list" where
  "doc_content D = fst D @ layout (snd D)"

definition doc_len :: "doc \<Rightarrow> nat" where
  "doc_len D = length (doc_content D)"

definition represents :: "cbb \<Rightarrow> doc \<Rightarrow> bool" where
  "represents st D \<longleftrightarrow>
     (\<exists>b. base st = Some b \<and> wf_buffer b \<and> segments_wf (snd D) \<and> written b = doc_content D \<and>
        children st = frames (length (fst D)) (snd D))"

definition avail_at :: "libc_malloc \<Rightarrow> cbb \<Rightarrow> nat \<Rightarrow> bool" where
  "avail_at m st T \<longleftrightarrow> (\<exists>b. base st = Some b \<and> avail m b T)"

definition implements :: "libc_malloc \<Rightarrow> (cbb \<Rightarrow> bool \<times> cbb) \<Rightarrow> doc \<Rightarrow> doc option \<Rightarrow> bool" where
  "implements m f D R \<longleftrightarrow>
     (\<forall>st. represents st D \<longrightarrow>
        (case R of
           None \<Rightarrow> \<not> fst (f st)
         | Some D' \<Rightarrow>
             (fst (f st) \<longrightarrow> represents (snd (f st)) D') \<and>
             (\<forall>T. avail_at m st T \<and> doc_len D' \<le> T \<longrightarrow> fst (f st) \<and> avail_at m (snd (f st)) T)))"

lemma doc_append_facts:
  "doc_content (doc_append z D) = doc_content D @ z"
  
  "frames (length (fst (doc_append z D))) (snd (doc_append z D)) = frames (length (fst D)) (snd D)"
  "segments_wf (snd (doc_append z D)) = segments_wf (snd D)"
  "length (snd (doc_append z D)) = length (snd D)"
proof -
  have "doc_content (doc_append z D) = doc_content D @ z \<and>
    length (fst (doc_append z D)) = length (fst D) + (if snd D = [] then length z else 0) \<and>
    (\<forall>n. frames (n + length (fst (doc_append z D))) (snd (doc_append z D)) = frames (n + length (fst D)) (snd D)) \<and>
    segments_wf (snd (doc_append z D)) = segments_wf (snd D) \<and> length (snd (doc_append z D)) = length (snd D)"
  proof (induction z D rule: doc_append.induct)
    case (2 z x p y fs)
    obtain y' fs' where e: "doc_append z (y, fs) = (y', fs')" by fastforce
    have "\<forall>n. frames (n + length y') fs' = frames (n + length y) fs"
      using 2 [unfolded e fst_conv snd_conv] by blast
    then have "frames (n + length x + prefix_space p + length y') fs' = frames (n + length x + prefix_space p + length y) fs" for n
      by blast
    moreover have "fs' = []" if "fs = []" using e that by simp
    ultimately show ?case using 2 by (cases "fs = []") (simp_all add: e doc_content_def)
  qed (simp add: doc_content_def)
  then show "doc_content (doc_append z D) = doc_content D @ z"
    
    "frames (length (fst (doc_append z D))) (snd (doc_append z D)) = frames (length (fst D)) (snd D)"
    "segments_wf (snd (doc_append z D)) = segments_wf (snd D)"
    "length (snd (doc_append z D)) = length (snd D)" by (auto dest: spec [of _ 0])
qed

lemma doc_append_Nil [simp]: "doc_append [] D = D"
proof -
  have "\<And>z. z = [] \<Longrightarrow> doc_append z D = D"
    subgoal for z by (induction z D rule: doc_append.induct) auto
    done
  then show ?thesis by simp
qed

lemma doc_append_append [simp]: "doc_append a (doc_append b D) = doc_append (b @ a) D"
proof (induction b D rule: doc_append.induct)
  case (2 z x p y fs)
  then show ?case by (cases "doc_append z (y, fs)"; cases "doc_append a (doc_append z (y, fs))") auto
qed simp

lemma doc_append_snoc: "doc_append z (x, fs @ [(p, y)]) = (x, fs @ [(p, y @ z)])"
  by (induction z "(x, fs)" arbitrary: x fs rule: doc_append.induct) auto

lemma doc_len_append [simp]: "doc_len (doc_append z D) = doc_len D + length z"
  by (simp add: doc_len_def doc_append_facts)

lemma doc_len_open [simp]: "doc_len (doc_open p D) = doc_len D + prefix_space p"
  by (simp add: doc_len_def doc_open_def doc_content_def)

lemma doc_flush_id [simp]: "length (snd D) = d \<Longrightarrow> doc_flush d D = Some D"
  by (simp add: doc_flush_def)

lemma doc_flush_depth: "doc_flush d D = Some E \<Longrightarrow> length (snd E) = d"
  by (auto simp: doc_flush_def doc_append_facts split: if_splits)

lemma doc_flush_len: "segments_wf (snd D) \<Longrightarrow> doc_flush d D = Some E \<Longrightarrow> doc_len D \<le> doc_len E"
proof -
  have lay: "length (layout (snd D)) = length (layout (take d (snd D))) + length (layout (drop d (snd D)))"
    by (simp only: length_append [symmetric] layout_append [symmetric] append_take_drop_id)
  assume s: "segments_wf (snd D)" and "doc_flush d D = Some E"
  then obtain r where r: "closed (drop d (snd D)) = Some r" "E = doc_append r (fst D, take d (snd D))"
    by (auto simp: doc_flush_def split: if_splits)
  have "segments_wf (take d (snd D) @ drop d (snd D))" using s by simp
  then have "segments_wf (drop d (snd D))" by (simp only: segments_wf_simps)
  from closed_length [OF this r(1)] have "length (layout (drop d (snd D))) \<le> length r" .
  then show ?thesis using lay unfolding r(2) doc_len_append by (simp add: doc_len_def doc_content_def)
qed

lemma implementsI:
  assumes "\<And>st. represents st D \<Longrightarrow> R = None \<Longrightarrow> \<not> fst (f st)"
    and "\<And>st D'. represents st D \<Longrightarrow> R = Some D' \<Longrightarrow> fst (f st) \<Longrightarrow> represents (snd (f st)) D'"
    and "\<And>st D' T. represents st D \<Longrightarrow> R = Some D' \<Longrightarrow> avail_at m st T \<Longrightarrow> doc_len D' \<le> T \<Longrightarrow>
       fst (f st) \<and> avail_at m (snd (f st)) T"
  shows "implements m f D R"
  using assms unfolding implements_def by (auto split: option.splits)

lemma implements_None: "implements m f D None \<Longrightarrow> represents st D \<Longrightarrow> \<not> fst (f st)"
  by (auto simp: implements_def)

lemma implements_Some: "implements m f D (Some D') \<Longrightarrow> represents st D \<Longrightarrow> fst (f st) \<Longrightarrow> represents (snd (f st)) D'"
  by (auto simp: implements_def)

lemma implements_avail:
  "implements m f D (Some D') \<Longrightarrow> represents st D \<Longrightarrow> avail_at m st T \<Longrightarrow> doc_len D' \<le> T \<Longrightarrow>
   fst (f st) \<and> avail_at m (snd (f st)) T"
  by (auto simp: implements_def)

lemma implements_bind:
  assumes f: "implements m f D R"
    and g: "\<And>E. R = Some E \<Longrightarrow> implements m g E (S E)"
    and len: "\<And>E D'. R = Some E \<Longrightarrow> S E = Some D' \<Longrightarrow> doc_len E \<le> doc_len D'"
  shows "implements m (\<lambda>st. and_then (f st) g) D (Option.bind R S)"
proof (cases R)
  case None
  then show ?thesis using implements_None [OF f [unfolded None]]
    by (intro implementsI) (simp_all add: and_then_def split_beta)
next
  case (Some E)
  note f' = f [unfolded Some] and g' = g [OF Some]
  show ?thesis
  proof (rule implementsI)
    fix st assume "represents st D" "Option.bind R S = None"
    then show "\<not> fst (and_then (f st) g)"
      using implements_Some [OF f'] implements_None [of m g E] g' Some
      by (simp add: and_then_def split_beta)
  next
    fix st D' assume "represents st D" "Option.bind R S = Some D'" "fst (and_then (f st) g)"
    then have "S E = Some D'" "fst (f st)" "fst (g (snd (f st)))" "and_then (f st) g = g (snd (f st))"
      using Some by (simp_all add: and_then_def split_beta split: if_splits)
    then show "represents (snd (and_then (f st) g)) D'"
      using implements_Some [OF f'] implements_Some [of m g E D'] g' \<open>represents st D\<close> by simp
  next
    fix st D' T assume *: "represents st D" "Option.bind R S = Some D'" "avail_at m st T" "doc_len D' \<le> T"
    then have SE: "S E = Some D'" using Some by simp
    have "doc_len E \<le> T" using len [OF Some SE] *(4) by simp
    from implements_avail [OF f' *(1,3) this] have 1: "fst (f st)" "avail_at m (snd (f st)) T" by auto
    from implements_avail [OF g' [unfolded SE] implements_Some [OF f' *(1) 1(1)] 1(2) *(4)] 1(1)
    show "fst (and_then (f st) g) \<and> avail_at m (snd (and_then (f st) g)) T"
      by (auto simp: and_then_def split: prod.splits)
  qed
qed

lemma implements_flush:
  assumes m: "malloc_ok m"
  shows "implements m (CBB_flush m d) D (doc_flush d D)"
proof (cases "d \<le> length (snd D)")
  case False
  then show ?thesis
    by (intro implementsI) (auto simp: doc_flush_def represents_def CBB_flush_def)
next
  case True
  let ?x = "fst D" and ?f1 = "take d (snd D)" and ?f2 = "drop d (snd D)"
  let ?pre = "?x @ layout ?f1"
  have split: "snd D = ?f1 @ ?f2" by simp
  have key: "(fst (CBB_flush m d st) \<longrightarrow> (\<exists>r. closed ?f2 = Some r \<and> represents (snd (CBB_flush m d st)) (doc_append r (?x, ?f1)))) \<and>
     (\<forall>r T. closed ?f2 = Some r \<and> avail_at m st T \<and> length ?pre + length r \<le> T \<longrightarrow>
        fst (CBB_flush m d st) \<and> avail_at m (snd (CBB_flush m d st)) T)"
    if rep: "represents st D" for st
  proof -
    from rep obtain b where b: "base st = Some b" "wf_buffer b" "segments_wf (snd D)" "written b = doc_content D"
      "children st = frames (length ?x) (snd D)" by (auto simp: represents_def)
    have l: "layout (snd D) = layout ?f1 @ layout ?f2"
      using layout_append [of ?f1 ?f2] by simp
    then have w: "written b = ?pre @ layout ?f2" using b(4) by (simp add: doc_content_def)
    have "segments_wf (?f1 @ ?f2)" using b(3) by simp
    then have s: "segments_wf ?f1" "segments_wf ?f2" by (simp_all only: segments_wf_simps)
    have ch: "children st = frames (length ?x) ?f1 @ frames (length ?pre) ?f2"
      using frames_append [of "length ?x" ?f1 ?f2] by (simp add: b(5))
    have dt: "drop d (children st) = frames (length ?pre) ?f2" "take d (children st) = frames (length ?x) ?f1"
      using True by (simp_all add: ch)
    obtain ok b' cs' where fl: "cbb_flush m b (frames (length ?pre) ?f2) = (ok, b', cs')" by (metis prod_cases3)
    have E: "CBB_flush m d st = (ok, st\<lparr>base := Some b', children := frames (length ?x) ?f1 @ cs'\<rparr>)"
    proof -
      have "\<not> d > length (children st)" using True b(5) by simp
      then show ?thesis using b(1) unfolding CBB_flush_def dt fl by (simp del: length_append add: fl)
    qed
    note C = cbb_flush_correct [OF m b(2) w s(2) fl]
    have "represents (st\<lparr>base := Some b', children := frames (length ?x) ?f1 @ cs'\<rparr>) (doc_append r (?x, ?f1))"
      if "wf_buffer b'" "written b' = ?pre @ r" "cs' = []" for r
      using that s(1) doc_append_facts [of r "(?x, ?f1)"] by (simp add: represents_def doc_content_def)
    then show ?thesis unfolding E using C b(1) by (auto simp: avail_at_def)
  qed
  have fl: "doc_flush d D = map_option (\<lambda>r. doc_append r (?x, ?f1)) (closed ?f2)"
    using True by (simp add: doc_flush_def)
  have dl: "doc_len (doc_append r (?x, ?f1)) = length ?pre + length r" for r
    by (simp only: doc_len_append) (simp add: doc_len_def doc_content_def)
  show ?thesis unfolding fl
  proof (rule implementsI)
    fix st assume "represents st D" "map_option (\<lambda>r. doc_append r (?x, ?f1)) (closed ?f2) = None"
    then show "\<not> fst (CBB_flush m d st)" using key [of st] by auto
  next
    fix st D' assume "represents st D" "map_option (\<lambda>r. doc_append r (?x, ?f1)) (closed ?f2) = Some D'"
      "fst (CBB_flush m d st)"
    then show "represents (snd (CBB_flush m d st)) D'" using key [of st] by auto
  next
    fix st D' T assume "represents st D" "map_option (\<lambda>r. doc_append r (?x, ?f1)) (closed ?f2) = Some D'"
      "avail_at m st T" "doc_len D' \<le> T"
    then show "fst (CBB_flush m d st) \<and> avail_at m (snd (CBB_flush m d st)) T"
      using key [of st] dl by auto
  qed
qed

subsection \<open>Operations implement their abstract counterparts\<close>

named_theorems cbb_implements

lemma doc_append_le: "doc_append z E = D' \<Longrightarrow> doc_len E \<le> doc_len D'"
  by (metis doc_len_append le_add1)

lemma doc_content_open [simp]: "doc_content (doc_open p E) = doc_content E @ replicate (prefix_space p) 0"
  by (simp add: doc_content_def doc_open_def)

lemma doc_len_content: "length (fst E) + length (layout (snd E)) = doc_len E"
  by (simp add: doc_len_def doc_content_def)

lemma implements_on_base:
  assumes ok: "\<And>b b'. wf_buffer b \<Longrightarrow> written b = doc_content D \<Longrightarrow> f b = (True, b') \<Longrightarrow>
      wf_buffer b' \<and> written b' = doc_content D @ z"
    and av: "\<And>b T. wf_buffer b \<Longrightarrow> written b = doc_content D \<Longrightarrow> avail m b T \<Longrightarrow> blen b + length z \<le> T \<Longrightarrow>
      \<exists>b'. f b = (True, b') \<and> avail m b' T"
  shows "implements m (on_base f) D (Some (doc_append z D))"
proof (rule implementsI)
  fix st D' assume "represents st D" "Some (doc_append z D) = Some D'" "fst (on_base f st)"
  then obtain b b' where *: "base st = Some b" "wf_buffer b" "written b = doc_content D" "segments_wf (snd D)"
    "children st = frames (length (fst D)) (snd D)" "f b = (True, b')" "D' = doc_append z D"
    by (auto simp: represents_def on_base_def split: prod.splits)
  from ok [OF *(2,3,6)] * show "represents (snd (on_base f st)) D'"
    by (simp add: represents_def on_base_def doc_append_facts)
next
  fix st D' T assume "represents st D" "Some (doc_append z D) = Some D'" "avail_at m st T" "doc_len D' \<le> T"
  then obtain b where *: "base st = Some b" "wf_buffer b" "written b = doc_content D" "avail m b T"
     "doc_len D + length z \<le> T"
    by (auto simp: represents_def avail_at_def)
  then have "blen b + length z \<le> T" using length_written [OF *(2)] by (simp add: doc_len_def)
  from av [OF *(2-4) this] * show "fst (on_base f st) \<and> avail_at m (snd (on_base f st)) T"
    by (auto simp: on_base_def avail_at_def)
qed simp

lemma on_base_fuse:
  "and_then (on_base f st) (on_base g) = on_base (\<lambda>b. and_then (f b) g) st"
  by (auto simp: on_base_def and_then_def split: option.splits prod.splits)

lemma implements_cong:
  "(\<And>st. represents st D \<Longrightarrow> f st = g st) \<Longrightarrow> implements m g D R \<Longrightarrow> implements m f D R"
  unfolding implements_def by (auto split: option.splits)

lemma add_memcpy:
  assumes "malloc_ok m" "length data < 2 ^ 63"
  shows "implements m (on_base (\<lambda>b. and_then (cbb_buffer_add m b (length data))
      (\<lambda>b'. (True, b'\<lparr>buf := memcpy_at (blen b) data (buf b')\<rparr>)))) D (Some (doc_append data D))"
proof (rule implements_on_base)
  fix b b' assume wf: "wf_buffer b" and w: "written b = doc_content D"
    and "and_then (cbb_buffer_add m b (length data))
      (\<lambda>b'. (True, b'\<lparr>buf := memcpy_at (blen b) data (buf b')\<rparr>)) = (True, b')"
  then obtain b1 where b1: "cbb_buffer_add m b (length data) = (True, b1)"
    and b': "b' = b1\<lparr>buf := memcpy_at (blen b) data (buf b1)\<rparr>"
    by (auto simp: and_then_def split: prod.splits if_splits)
  from add_ok [OF assms(1) wf assms(2) b1] obtain rest where r: "wf_buffer b1" "buf b1 = written b @ rest"
    "length data \<le> length rest" "blen b1 = blen b + length data" .
  have l: "length (written b) = blen b" using wf by simp
  have mc: "memcpy_at (blen b) data (buf b1) = written b @ data @ drop (length data) rest"
    using l r(2) by (simp add: memcpy_at_def)
  have "wf_buffer b'" using r l unfolding b' mc by (simp add: wf_buffer_def)
  moreover have "written b' = written b @ data"
    using r l unfolding b' mc by (simp add: written_def [of "b1\<lparr>buf := _\<rparr>"])
  ultimately show "wf_buffer b' \<and> written b' = doc_content D @ data" using w by simp
next
  fix b T assume wf: "wf_buffer b" and "avail m b T" "blen b + length data \<le> T"
  then obtain b1 where "cbb_buffer_add m b (length data) = (True, b1)" "avail m b1 T" by (rule add_avail)
  then show "\<exists>b'. and_then (cbb_buffer_add m b (length data))
      (\<lambda>b'. (True, b'\<lparr>buf := memcpy_at (blen b) data (buf b')\<rparr>)) = (True, b') \<and> avail m b' T"
    by (simp add: and_then_def avail_def)
qed

lemma bind_map_option: "Option.bind R (\<lambda>E. Some (f E)) = map_option f R"
  by (cases R) auto

lemma implements_CBB_add_bytes [cbb_implements]:
  assumes m: "malloc_ok m" and "length data < 2 ^ 63"
  shows "implements m (CBB_add_bytes m d data) D (map_option (doc_append data) (doc_flush d D))"
proof -
  have "implements m (\<lambda>st. and_then (on_base (\<lambda>b. cbb_buffer_add m b (length data)) st) (\<lambda>st'.
      on_base (\<lambda>b. (True, b\<lparr>buf := memcpy_at (cbb_blen st) data (buf b)\<rparr>)) st')) E (Some (doc_append data E))" for E
    by (rule implements_cong [OF _ add_memcpy [OF assms]])
       (auto simp: represents_def cbb_blen_def on_base_def and_then_def split: prod.splits)
  then have "implements m (\<lambda>st. and_then (CBB_flush m d st) (\<lambda>st. and_then (on_base (\<lambda>b. cbb_buffer_add m b (length data)) st) (\<lambda>st'.
      on_base (\<lambda>b. (True, b\<lparr>buf := memcpy_at (cbb_blen st) data (buf b)\<rparr>)) st')))
      D (Option.bind (doc_flush d D) (\<lambda>E. Some (doc_append data E)))"
    by (intro implements_bind implements_flush m) (auto dest: doc_append_le)
  then show ?thesis by (simp add: CBB_add_bytes_def [abs_def] Let_def bind_map_option)
qed

lemma add_u_ok:
  assumes m: "malloc_ok m" and wf: "wf_buffer b" and n: "1 \<le> n" "n \<le> 8"
    and r: "cbb_buffer_add_u m b v n = (ok, b')"
  shows "ok \<Longrightarrow> unat v < 256 ^ n \<and> wf_buffer b' \<and> written b' = written b @ be_bytes n (unat v)"
    and "unat v < 256 ^ n \<Longrightarrow> avail m b T \<Longrightarrow> blen b + n \<le> T \<Longrightarrow> ok \<and> avail m b' T"
proof -
  obtain ok1 b1 where b1: "cbb_buffer_add m b n = (ok1, b1)" by fastforce
  have v: "unat v div 256 ^ n = 0 \<longleftrightarrow> unat v < 256 ^ n" by (simp add: div_eq_0_iff)
  have n63: "n < 2 ^ 63" using n by simp
  have E: "cbb_buffer_add_u m b v n =
    (if unat v < 256 ^ n then (True, b1\<lparr>buf := written b @ be_bytes n (unat v) @ drop (blen b + n) (buf b1)\<rparr>)
     else (False, b1\<lparr>buf := written b @ be_bytes n (unat v) @ drop (blen b + n) (buf b1), error := True\<rparr>))" and
     S: "wf_buffer b1" "blen b1 = blen b + n" "blen b + n \<le> length (buf b1)"
    if "ok1"
  proof -
    from add_ok [OF m wf n63, of b1] b1 that obtain rest where r: "wf_buffer b1" "buf b1 = written b @ rest"
      "n \<le> length rest" "blen b1 = blen b + n" by auto
    have "store_be (buf b1) (blen b) n (unat v) =
       (written b @ be_bytes n (unat v) @ drop (blen b + n) (buf b1), unat v div 256 ^ n)"
      using r length_written [OF wf] by (subst store_be_eq) simp_all
    then show "cbb_buffer_add_u m b v n =
    (if unat v < 256 ^ n then (True, b1\<lparr>buf := written b @ be_bytes n (unat v) @ drop (blen b + n) (buf b1)\<rparr>)
     else (False, b1\<lparr>buf := written b @ be_bytes n (unat v) @ drop (blen b + n) (buf b1), error := True\<rparr>))"
      using n b1 that v by (simp add: cbb_buffer_add_u_def and_then_def)
    show "wf_buffer b1" "blen b1 = blen b + n" "blen b + n \<le> length (buf b1)" using r wf by auto
  qed
  have F: "\<not> ok" if "\<not> ok1" using r b1 that n by (simp add: cbb_buffer_add_u_def and_then_def)
  show "unat v < 256 ^ n \<and> wf_buffer b' \<and> written b' = written b @ be_bytes n (unat v)" if ok
  proof -
    have o: ok1 using F that by blast
    have l: "length (written b) = blen b" using wf by simp
    have b': "unat v < 256 ^ n" "b' = b1\<lparr>buf := written b @ be_bytes n (unat v) @ drop (blen b + n) (buf b1)\<rparr>"
      using E [OF o] r that by (simp_all split: if_splits)
    moreover have "length (written b @ be_bytes n (unat v) @ drop (blen b + n) (buf b1)) = length (buf b1)"
      using S [OF o] l by simp
    ultimately show ?thesis using S [OF o] l by (simp add: wf_buffer_def written_def)
  qed
  show "ok \<and> avail m b' T" if "unat v < 256 ^ n" "avail m b T" "blen b + n \<le> T"
  proof -
    from add_avail [OF wf that(2,3)] b1 have "ok1" "avail m b1 T" by auto
    with E that(1) r show ?thesis by (auto simp: avail_def)
  qed
qed

definition doc_add_u :: "nat \<Rightarrow> u64 \<Rightarrow> doc \<Rightarrow> doc option" where
  "doc_add_u n v E = (if unat v < 256 ^ n then Some (doc_append (be_bytes n (unat v)) E) else None)"

lemma implements_add_u:
  assumes m: "malloc_ok m" and n: "1 \<le> n" "n \<le> 8"
  shows "implements m (on_base (\<lambda>b. cbb_buffer_add_u m b v n)) E (doc_add_u n v E)"
proof (cases "unat v < 256 ^ n")
  case True
  have "implements m (on_base (\<lambda>b. cbb_buffer_add_u m b v n)) E (Some (doc_append (be_bytes n (unat v)) E))"
  proof (rule implements_on_base)
    fix b b' assume "wf_buffer b" "written b = doc_content E" "cbb_buffer_add_u m b v n = (True, b')"
    then show "wf_buffer b' \<and> written b' = doc_content E @ be_bytes n (unat v)"
      using add_u_ok(1) [OF m _ n] by fastforce
  next
    fix b T assume *: "wf_buffer b" "avail m b T" "blen b + length (be_bytes n (unat v)) \<le> T"
    obtain ok b' where r: "cbb_buffer_add_u m b v n = (ok, b')" by fastforce
    from add_u_ok(2) [OF m *(1) n r True *(2)] *(3) r
    show "\<exists>b'. cbb_buffer_add_u m b v n = (True, b') \<and> avail m b' T" by simp
  qed
  then show ?thesis using True by (simp add: doc_add_u_def)
next
  case False
  have "\<not> fst (on_base (\<lambda>b. cbb_buffer_add_u m b v n) st)" if rep: "represents st E" for st
  proof -
    from rep obtain b where b: "base st = Some b" "wf_buffer b" by (auto simp: represents_def)
    obtain ok b' where r: "cbb_buffer_add_u m b v n = (ok, b')" by fastforce
    from add_u_ok(1) [OF m b(2) n r] False r b show ?thesis by (auto simp: on_base_def)
  qed
  then show ?thesis using False by (intro implementsI) (simp_all add: doc_add_u_def)
qed

lemma implements_cbb_add_u [cbb_implements]:
  assumes m: "malloc_ok m" and n: "1 \<le> n" "n \<le> 8"
  shows "implements m (cbb_add_u m d v n) D (Option.bind (doc_flush d D) (doc_add_u n v))"
proof -
  have "implements m (\<lambda>st. and_then (CBB_flush m d st) (on_base (\<lambda>b. cbb_buffer_add_u m b v n))) D
     (Option.bind (doc_flush d D) (doc_add_u n v))"
    by (intro implements_bind implements_flush implements_add_u assms) (auto simp: doc_add_u_def dest: doc_append_le split: if_splits)
  then show ?thesis by (simp add: cbb_add_u_def [abs_def])
qed

lemma doc_add_u_fits: "unat v < 256 ^ n \<Longrightarrow> doc_add_u n v E = Some (doc_append (be_bytes n (unat v)) E)"
  by (simp add: doc_add_u_def)

lemma implements_CBB_add_u8 [cbb_implements]:
  assumes "malloc_ok m"
  shows "implements m (CBB_add_u8 m d v) D (map_option (doc_append [v]) (doc_flush d D))"
  using implements_cbb_add_u [OF assms, of 1 d "ucast v" D]
  by (simp add: CBB_add_u8_def [abs_def] doc_add_u_def [abs_def] bind_map_option)

lemma implements_open:
  assumes f: "implements m f E (Some (doc_append (replicate (prefix_space p) 0) E))"
    and d: "length (snd E) = d" and p: "prefix_wf p"
  shows "implements m (\<lambda>st. let off = cbb_blen st in and_then (f st) (\<lambda>st. (True, cbb_open d (child_frame off p) st)))
     E (Some (doc_open p E))"
proof (rule implementsI)
  fix st D' assume rep: "represents st E" and "Some (doc_open p E) = Some D'"
    and "fst (let off = cbb_blen st in and_then (f st) (\<lambda>st. (True, cbb_open d (child_frame off p) st)))"
  then obtain st' where st': "f st = (True, st')" and D': "D' = doc_open p E"
    by (auto simp: and_then_def Let_def split: prod.splits if_splits)
  from rep have bl: "cbb_blen st = doc_len E"
    by (auto simp: represents_def cbb_blen_def doc_len_def dest: length_written)
  from implements_Some [OF f rep] st' have rep': "represents st' (doc_append (replicate (prefix_space p) 0) E)" by simp
  then show "represents (snd (let off = cbb_blen st in and_then (f st) (\<lambda>st. (True, cbb_open d (child_frame off p) st)))) D'"
    using d p bl unfolding D'
    by (auto simp: represents_def st' and_then_def cbb_open_def doc_append_facts doc_len_content)
       (simp_all add: doc_open_def doc_len_content)
next
  fix st D' T assume rep: "represents st E" and "Some (doc_open p E) = Some D'" and av: "avail_at m st T" and "doc_len D' \<le> T"
  then have "doc_len (doc_append (replicate (prefix_space p) 0) E) \<le> T" by auto
  from implements_avail [OF f rep av this]
  show "fst (let off = cbb_blen st in and_then (f st) (\<lambda>st. (True, cbb_open d (child_frame off p) st))) \<and>
    avail_at m (snd (let off = cbb_blen st in and_then (f st) (\<lambda>st. (True, cbb_open d (child_frame off p) st)))) T"
    by (auto simp: and_then_def Let_def avail_at_def cbb_open_def split: prod.splits)
qed simp

subsection \<open>Operations that append\<close>

definition appends :: "libc_malloc \<Rightarrow> nat \<Rightarrow> (cbb \<Rightarrow> bool \<times> cbb) \<Rightarrow> byte list \<Rightarrow> bool" where
  "appends m d f z \<longleftrightarrow> (\<forall>E. length (snd E) = d \<longrightarrow> implements m f E (Some (doc_append z E)))"

lemma appendsI: "(\<And>E. length (snd E) = d \<Longrightarrow> implements m f E (Some (doc_append z E))) \<Longrightarrow> appends m d f z"
  by (simp add: appends_def)

lemma appendsD: "appends m d f z \<Longrightarrow> length (snd E) = d \<Longrightarrow> implements m f E (Some (doc_append z E))"
  unfolding appends_def by blast

lemma appends_skip: "appends m d (\<lambda>st. (True, st)) []"
  by (rule appendsI, rule implementsI) auto

lemma appends_seq:
  assumes "appends m d f a" "appends m d g b"
  shows "appends m d (\<lambda>st. and_then (f st) g) (a @ b)"
proof (rule appendsI)
  fix E :: doc assume d: "length (snd E) = d"
  then have da: "length (snd (doc_append a E)) = d" by (simp add: doc_append_facts)
  have "implements m (\<lambda>st. and_then (f st) g) E
      (Option.bind (Some (doc_append a E)) (\<lambda>E. Some (doc_append b E)))"
    by (rule implements_bind)
       (use appendsD [OF assms(1) d] appendsD [OF assms(2) da] in \<open>auto dest: doc_append_le\<close>)
  then show "implements m (\<lambda>st. and_then (f st) g) E (Some (doc_append (a @ b) E))" by simp
qed

lemma appends_flushing:
  assumes "\<And>D. implements m f D (map_option (doc_append z) (doc_flush d D))"
  shows "appends m d f z"
proof (rule appendsI)
  fix E :: doc assume "length (snd E) = d"
  then show "implements m f E (Some (doc_append z E))" using assms [of E] by simp
qed

lemma appends_add_u8: "malloc_ok m \<Longrightarrow> appends m d (CBB_add_u8 m d v) [v]"
  by (intro appends_flushing implements_CBB_add_u8)

lemma appends_add_bytes: "malloc_ok m \<Longrightarrow> length data < 2 ^ 63 \<Longrightarrow> appends m d (CBB_add_bytes m d data) data"
  by (intro appends_flushing implements_CBB_add_bytes)

lemma appends_cbb_add_u:
  assumes "malloc_ok m" "1 \<le> n" "n \<le> 8" "unat v < 256 ^ n"
  shows "appends m d (cbb_add_u m d v n) (be_bytes n (unat v))"
proof (rule appends_flushing)
  fix D show "implements m (cbb_add_u m d v n) D (map_option (doc_append (be_bytes n (unat v))) (doc_flush d D))"
    using implements_cbb_add_u [OF assms(1-3), of d v D] assms(4)
    by (simp add: doc_add_u_def [abs_def] bind_map_option)
qed

lemma implements_flush_appends:
  assumes m: "malloc_ok m" and "appends m d f z"
  shows "implements m (\<lambda>st. and_then (CBB_flush m d st) f) D (map_option (doc_append z) (doc_flush d D))"
proof -
  have "implements m (\<lambda>st. and_then (CBB_flush m d st) f) D
      (Option.bind (doc_flush d D) (\<lambda>E. Some (doc_append z E)))"
    by (intro implements_bind implements_flush m)
       (use assms in \<open>auto intro!: appendsD dest!: doc_flush_depth doc_append_le\<close>)
  then show ?thesis by (simp add: bind_map_option)
qed

lemma implements_flush_map:
  assumes m: "malloc_ok m" and f: "\<And>E. length (snd E) = d \<Longrightarrow> implements m f E (Some (h E))"
    and len: "\<And>E. doc_len E \<le> doc_len (h E)"
  shows "implements m (\<lambda>st. and_then (CBB_flush m d st) f) D (map_option h (doc_flush d D))"
proof -
  have "implements m (\<lambda>st. and_then (CBB_flush m d st) f) D (Option.bind (doc_flush d D) (\<lambda>E. Some (h E)))"
    by (intro implements_bind implements_flush m f) (use len in \<open>metis doc_flush_depth option.inject\<close>)+
  then show ?thesis by (simp add: bind_map_option)
qed

lemma length_doc_append [simp]: "length (snd (doc_append z E)) = length (snd E)"
  by (simp add: doc_append_facts)

lemma prefix_space_be [simp]: "length (replicate (prefix_space p) (0::byte)) = prefix_space p"
  by simp

lemma implements_cbb_add_length_prefixed [cbb_implements]:
  assumes m: "malloc_ok m" and k: "1 \<le> k" "k \<le> 8"
  shows "implements m (cbb_add_length_prefixed m d k) D (map_option (doc_open (Fixed_length k)) (doc_flush d D))"
proof -
  have zero: "memset_at off k 0 b = memcpy_at off (replicate k 0) b" for off b
    by (simp add: memset_at_def memcpy_at_def)
  have k63: "length (replicate k (0::byte)) < 2 ^ 63" using k by simp
  have "implements m (\<lambda>st. let off = cbb_blen st in
        and_then (and_then (on_base (\<lambda>b. cbb_buffer_add m b k) st)
           (on_base (\<lambda>b. (True, b\<lparr>buf := memset_at off k 0 (buf b)\<rparr>))))
        (\<lambda>st. (True, cbb_open d (child_frame off (Fixed_length k)) st))) E (Some (doc_open (Fixed_length k) E))"
    if "length (snd E) = d" for E
  proof -
    have "implements m (\<lambda>st. and_then (on_base (\<lambda>b. cbb_buffer_add m b k) st)
           (on_base (\<lambda>b. (True, b\<lparr>buf := memset_at (cbb_blen st) k 0 (buf b)\<rparr>)))) E
           (Some (doc_append (replicate (prefix_space (Fixed_length k)) 0) E))"
      unfolding prefix_space.simps
      by (rule implements_cong [OF _ add_memcpy [OF m k63]])
         (auto simp: represents_def cbb_blen_def on_base_def and_then_def zero split: prod.splits)
    from implements_open [OF this that] k show ?thesis by (simp add: Let_def)
  qed
  moreover have "and_then (and_then r f) g = and_then r (\<lambda>st. and_then (f st) g)"
    for r :: "bool \<times> cbb" and f g :: "cbb \<Rightarrow> bool \<times> cbb"
    by (auto simp: and_then_def split: prod.splits)
  ultimately have "implements m (\<lambda>st. and_then (CBB_flush m d st) (\<lambda>st. let off = cbb_blen st in
        and_then (on_base (\<lambda>b. cbb_buffer_add m b k) st) (\<lambda>st. and_then
           (on_base (\<lambda>b. (True, b\<lparr>buf := memset_at off k 0 (buf b)\<rparr>)) st)
        (\<lambda>st. (True, cbb_open d (child_frame off (Fixed_length k)) st))))) D
     (map_option (doc_open (Fixed_length k)) (doc_flush d D))"
    by (intro implements_flush_map m) auto
  then show ?thesis by (simp add: cbb_add_length_prefixed_def [abs_def] child_frame_def)
qed

subsection \<open>Base 128 and tags\<close>

definition base128_digit :: "u64 \<Rightarrow> nat \<Rightarrow> byte" where
  "base128_digit v i =
     (let b = ucast (drop_bit (7 * i) v) AND 0x7f in if i \<noteq> 0 then b OR 0x80 else b)"

lemma appends_base128_emit:
  "malloc_ok m \<Longrightarrow> appends m d (base128_emit m d v k) (map (base128_digit v) (rev [0..<k]))"
proof (induction k)
  case 0
  then show ?case using appends_skip [of m d] by (simp add: base128_emit.simps(1) [abs_def])
next
  case (Suc k)
  have "appends m d (\<lambda>st. and_then (CBB_add_u8 m d (base128_digit v k) st) (base128_emit m d v k))
     ([base128_digit v k] @ map (base128_digit v) (rev [0..<k]))"
    using Suc by (intro appends_seq appends_add_u8) auto
  moreover have "base128_emit m d v (Suc k) = (\<lambda>st. and_then (CBB_add_u8 m d (base128_digit v k) st) (base128_emit m d v k))"
    by (simp add: fun_eq_iff base128_digit_def Let_def)
  ultimately show ?case by simp
qed

lemma unat_high_or: "unat ((b AND 0x7f) OR (0x80 :: byte)) = 128 + unat b mod 128"
proof -
  have m: "(0x7f :: byte) = mask 7" "(0x80 :: byte) = push_bit 7 1"
    by (simp_all add: mask_eq_exp_minus_1 push_bit_eq_mult)
  have eq: "(b AND 0x7f) OR (0x80 :: byte) = (b AND 0x7f) + 0x80"
    unfolding m by (rule disjunctive_add_eq_or [symmetric], rule bit_word_eqI)
      (auto simp only: bit_and_iff bit_mask_iff bit_push_bit_iff bit_0_eq bot_apply bot_bool_def bit_1_iff)
  have "unat (b AND 0x7f) + 128 < 256" by (simp add: byte_low7)
  then show ?thesis by (simp add: eq unat_word_ariths byte_low7)
qed

lemma unat_base128_digit:
  "unat (base128_digit v i) = (if i = 0 then 0 else 128) + unat v div 128 ^ i mod 128"
proof -
  have "unat (drop_bit (7 * i) v) = unat v div 128 ^ i"
    by (simp only: unat_drop_bit_eq) (simp add: drop_bit_eq_div power_mult)
  then have "unat (ucast (drop_bit (7 * i) v) :: byte) mod 128 = unat v div 128 ^ i mod 128"
    by (simp add: unat_ucast_down_u64 mod_mod_cancel)
  then show ?thesis by (cases "i = 0") (simp_all add: base128_digit_def unat_high_or byte_low7)
qed

lemma base128_hi_digits:
  "base128_hi v = map (\<lambda>i. word_of_nat (128 + v div 128 ^ i mod 128)) (rev [0..<base128_len_len v])"
proof (induction v rule: base128_hi.induct)
  case (1 v)
  show ?case
  proof (cases "v = 0")
    case False
    have "rev [0..<Suc k] = map Suc (rev [0..<k]) @ [0]" for k
      by (simp add: upt_conv_Cons map_Suc_upt [symmetric] rev_map del: upt_Suc)
    then show ?thesis using 1 False
      by (simp add: base128_hi_pos base128_len_len.simps [of v] div_mult2_eq del: upt_Suc base128_len_len.simps)
  qed simp
qed

lemma appends_base128: 
  assumes "malloc_ok m" shows "appends m d (add_base128_integer m d v) (base128_bytes (unat v))"
proof -
  let ?k = "if base128_len_len (unat v) = 0 then 1 else base128_len_len (unat v)"
  have k: "?k = Suc (base128_len_len (unat v div 128))"
    by (cases "unat v = 0") (simp_all add: base128_len_len.simps [of "unat v"] del: base128_len_len.simps, simp)
  have "rev [0..<Suc k] = map Suc (rev [0..<k]) @ [0]" for k
    by (simp add: upt_conv_Cons map_Suc_upt [symmetric] rev_map del: upt_Suc)
  then have "map (base128_digit v) (rev [0..<?k]) = base128_bytes (unat v)"
    unfolding k base128_bytes_def base128_hi_digits [of "unat v div 128"]
    by (simp add: byte_eq_iff unat_base128_digit div_mult2_eq del: upt_Suc of_nat_add)
  with appends_base128_emit [OF assms, of d v ?k] show ?thesis
    by (simp add: add_base128_integer_def [abs_def] Let_def del: base128_len_len.simps)
qed

lemma unat_tag_bits: "unat (ucast (drop_bit 24 (t::u32)) AND 0xe0 :: byte) = tag_class t * 32"
proof -
  have m: "(0xe0 :: byte) = push_bit 5 (mask 3)" by (simp add: mask_eq_exp_minus_1 push_bit_eq_mult)
  have eq: "ucast (drop_bit 24 t) AND push_bit 5 (mask 3) = (push_bit 5 (ucast (drop_bit 29 t)) :: byte)"
    by (rule bit_word_eqI) (auto simp: bit_simps dest: bit_imp_le_length)
  have "unat (drop_bit 29 t) = tag_class t"
    by (simp only: unat_drop_bit_eq tag_class_def) (simp add: drop_bit_eq_div)
  then have "unat (ucast (drop_bit 29 t) :: byte) = tag_class t"
    using tag_class_less [of t] by (simp add: unsigned_ucast_eq take_bit_nat_eq_self)
  then show ?thesis unfolding m eq
    using tag_class_less [of t] by (simp add: push_bit_eq_mult unat_word_ariths)
qed

lemma unat_tag_number: "unat (t AND CBS_ASN1_TAG_NUMBER_MASK) = tag_num t"
proof -
  have m: "CBS_ASN1_TAG_NUMBER_MASK = mask 29"
    by (simp add: CBS_ASN1_TAG_NUMBER_MASK_def CBS_ASN1_TAG_SHIFT_def mask_eq_exp_minus_1 push_bit_eq_mult)
  show ?thesis unfolding m tag_num_def
    by (simp flip: take_bit_eq_mask add: unsigned_take_bit_eq take_bit_nat_def)
qed

lemma tag_bits_or_number:
  assumes "unat n < 32"
  shows "(ucast (drop_bit 24 (t::u32)) AND 0xe0) OR n = (word_of_nat (tag_class t * 32 + unat n) :: byte)"
proof -
  have m: "(0xe0 :: byte) = push_bit 5 (mask 3)" by (simp add: mask_eq_exp_minus_1 push_bit_eq_mult)
  have "n = take_bit 5 n"
    using assms by (simp add: word_unat_eq_iff unsigned_take_bit_eq take_bit_nat_eq_self)
  then have hi: "\<not> bit n k" if "5 \<le> k" for k
    using that by (metis bit_take_bit_iff not_le)
  have "(ucast (drop_bit 24 t) AND 0xe0) OR n = (ucast (drop_bit 24 t) AND 0xe0) + n"
    unfolding m
    by (rule disjunctive_add_eq_or [symmetric], rule bit_word_eqI) (auto simp: bit_and_iff bit_push_bit_iff hi)
  then show ?thesis
    by (simp only: word_unat_eq_iff unat_word_ariths unat_tag_bits unat_byte_of_nat) simp
qed

lemma der_tag_emitted:
  "der_tag t =
     (if t AND CBS_ASN1_TAG_NUMBER_MASK \<ge> 0x1f then
        ((ucast (drop_bit CBS_ASN1_TAG_SHIFT t) AND 0xe0) OR 0x1f) # base128_bytes (unat (t AND CBS_ASN1_TAG_NUMBER_MASK))
      else [(ucast (drop_bit CBS_ASN1_TAG_SHIFT t) AND 0xe0) OR ucast (t AND CBS_ASN1_TAG_NUMBER_MASK)])"
proof (cases "tag_num t < 31")
  case True
  then have "unat (ucast (t AND CBS_ASN1_TAG_NUMBER_MASK) :: byte) = tag_num t"
    by (simp add: unsigned_ucast_eq take_bit_nat_eq_self unat_tag_number)
  with True tag_bits_or_number [of "ucast (t AND CBS_ASN1_TAG_NUMBER_MASK)" t] show ?thesis
    by (simp add: der_tag_def CBS_ASN1_TAG_SHIFT_def word_le_nat_alt unat_tag_number del: of_nat_add)
next
  case False
  with tag_bits_or_number [of "0x1f" t] show ?thesis
    by (simp add: der_tag_def CBS_ASN1_TAG_SHIFT_def word_le_nat_alt unat_tag_number del: of_nat_add)
qed

lemma implements_CBB_add_asn1 [cbb_implements]:
  assumes m: "malloc_ok m"
  shows "implements m (CBB_add_asn1 m d t) D
    (map_option (\<lambda>E. doc_open Der_length (doc_append (der_tag t) E)) (doc_flush d D))"
proof -
  let ?tag = "\<lambda>st. if t AND CBS_ASN1_TAG_NUMBER_MASK \<ge> 0x1f then
               and_then (CBB_add_u8 m d ((ucast (drop_bit CBS_ASN1_TAG_SHIFT t) AND 0xe0) OR 0x1f) st)
                 (add_base128_integer m d (ucast (t AND CBS_ASN1_TAG_NUMBER_MASK)))
             else CBB_add_u8 m d ((ucast (drop_bit CBS_ASN1_TAG_SHIFT t) AND 0xe0) OR ucast (t AND CBS_ASN1_TAG_NUMBER_MASK)) st"
  let ?open = "\<lambda>st. let off = cbb_blen st in and_then (CBB_add_u8 m d 0 st)
     (\<lambda>st. (True, cbb_open d (child_frame off Der_length) st))"
  have tag: "appends m d ?tag (der_tag t)"
  proof (cases "t AND CBS_ASN1_TAG_NUMBER_MASK \<ge> 0x1f")
    case True
    then show ?thesis
      using appends_seq [OF appends_add_u8 [OF m] appends_base128 [OF m],
          of d "(ucast (drop_bit CBS_ASN1_TAG_SHIFT t) AND 0xe0) OR 0x1f" "ucast (t AND CBS_ASN1_TAG_NUMBER_MASK)"]
      by (simp add: der_tag_emitted)
  next
    case False
    then show ?thesis using appends_add_u8 [OF m] by (simp add: der_tag_emitted)
  qed
  have "implements m (\<lambda>st. and_then (?tag st) ?open) E
      (Some (doc_open Der_length (doc_append (der_tag t) E)))" if d: "length (snd E) = d" for E
  proof -
    have "implements m (\<lambda>st. and_then (?tag st) ?open) E
      (Option.bind (Some (doc_append (der_tag t) E)) (\<lambda>E. Some (doc_open Der_length E)))"
    proof (rule implements_bind)
      show "implements m ?tag E (Some (doc_append (der_tag t) E))" by (rule appendsD [OF tag d])
      fix E' assume "Some (doc_append (der_tag t) E) = Some E'"
      then have d': "length (snd E') = d" using d by auto
      then have "implements m (CBB_add_u8 m d 0) E' (Some (doc_append (replicate (prefix_space Der_length) 0) E'))"
        using appendsD [OF appends_add_u8 [OF m] d', of 0] by simp
      from implements_open [OF this d'] show "implements m ?open E' (Some (doc_open Der_length E'))" by simp
    next
      fix E' D' assume "Some (doc_open Der_length E') = Some D'"
      then show "doc_len E' \<le> doc_len D'" by (metis doc_len_open le_add1 option.inject)
    qed
    then show ?thesis by simp
  qed
  then have "implements m (\<lambda>st. and_then (CBB_flush m d st) (\<lambda>st. and_then (?tag st) ?open)) D
    (map_option (\<lambda>E. doc_open Der_length (doc_append (der_tag t) E)) (doc_flush d D))"
    by (rule implements_flush_map [OF m]) auto
  then show ?thesis by (simp add: CBB_add_asn1_def [abs_def] Let_def child_frame_def)
qed

subsection \<open>Children: nested elements\<close>

lemma flush_open:
  assumes "length (snd E) = d" "prefix_fits p (length z)"
  shows "doc_flush d (doc_append z (doc_open p E)) = Some (doc_append (prefix_bytes p (length z) @ z) E)"
proof -
  obtain x fs where E: "E = (x, fs)" by (cases E) auto
  then show ?thesis using assms by (simp add: doc_open_def doc_append_snoc doc_flush_def)
qed

lemma flush_open_too_long:
  assumes "length (snd E) = d" "\<not> prefix_fits p (length z)"
  shows "doc_flush d (doc_append z (doc_open p E)) = None"
proof -
  obtain x fs where E: "E = (x, fs)" by (cases E) auto
  then show ?thesis using assms by (simp add: doc_open_def doc_append_snoc doc_flush_def)
qed

lemma implements_child:
  assumes m: "malloc_ok m" and f: "appends m (Suc d) f z"
    and opn: "implements m open_f D (map_option (\<lambda>E. doc_open p (doc_append pre E)) (doc_flush d D))"
  shows "implements m (\<lambda>st. and_then (open_f st) (\<lambda>st. and_then (f st) (CBB_flush m d))) D
    (if prefix_fits p (length z) then map_option (doc_append (pre @ prefix_bytes p (length z) @ z)) (doc_flush d D)
     else None)"
proof -
  let ?R = "map_option (\<lambda>E. doc_open p (doc_append pre E)) (doc_flush d D)"
  have "implements m (\<lambda>st. and_then (open_f st) (\<lambda>st. and_then (f st) (CBB_flush m d))) D
    (Option.bind ?R (\<lambda>E. Option.bind (Some (doc_append z E)) (doc_flush d)))"
  proof (rule implements_bind [OF opn])
    fix E assume E: "?R = Some E"
    then have d: "length (snd E) = Suc d" by (auto simp: doc_open_def dest: doc_flush_depth)
    show "implements m (\<lambda>st. and_then (f st) (CBB_flush m d)) E (Option.bind (Some (doc_append z E)) (doc_flush d))"
    proof (rule implements_bind [OF appendsD [OF f d]])
      show "implements m (CBB_flush m d) E' (doc_flush d E')" for E' by (rule implements_flush [OF m])
      fix E' D' assume e: "Some (doc_append z E) = Some E'" "doc_flush d E' = Some D'"
      from E obtain F where F: "doc_flush d D = Some F" "E = doc_open p (doc_append pre F)" by auto
      have lF: "length (snd (doc_append pre F)) = d" using doc_flush_depth [OF F(1)] by simp
      show "doc_len E' \<le> doc_len D'"
      proof (cases "prefix_fits p (length z)")
        case True
        have "prefix_space p \<le> length (prefix_bytes p (length z))"
          by (cases p) (simp_all add: der_length_def)
        then show ?thesis using e flush_open [OF lF True] F(2) by auto
      next
        case False
        then show ?thesis using e flush_open_too_long [OF lF False] F(2) by auto
      qed
    qed
  next
    fix E D' assume E: "?R = Some E" and D': "Option.bind (Some (doc_append z E)) (doc_flush d) = Some D'"
    from E obtain F where F: "doc_flush d D = Some F" "E = doc_open p (doc_append pre F)" by auto
    have lF: "length (snd (doc_append pre F)) = d" using doc_flush_depth [OF F(1)] by simp
    show "doc_len E \<le> doc_len D'"
    proof (cases "prefix_fits p (length z)")
      case True
      have "prefix_space p \<le> length (prefix_bytes p (length z))"
        by (cases p) (simp_all add: der_length_def)
      then show ?thesis using D' flush_open [OF lF True] F(2) by auto
    next
      case False
      then show ?thesis using D' flush_open_too_long [OF lF False] F(2) by auto
    qed
  qed
  also have "Option.bind ?R (\<lambda>E. Option.bind (Some (doc_append z E)) (doc_flush d)) =
    (if prefix_fits p (length z) then map_option (doc_append (pre @ prefix_bytes p (length z) @ z)) (doc_flush d D)
     else None)"
  proof (cases "doc_flush d D")
    case (Some F)
    have lF: "length (snd (doc_append pre F)) = d" using doc_flush_depth [OF Some] by simp
    show ?thesis using Some flush_open [OF lF] flush_open_too_long [OF lF] by auto
  qed simp
  finally show ?thesis .
qed

lemma appends_asn1_child:
  assumes "malloc_ok m" "appends m (Suc d) f z" "length z \<le> 0xfffffffe"
  shows "appends m d (\<lambda>st. and_then (CBB_add_asn1 m d t st) (\<lambda>st. and_then (f st) (CBB_flush m d))) (der_element t z)"
proof (rule appends_flushing)
  fix D
  from implements_child [OF assms(1,2) implements_CBB_add_asn1 [OF assms(1)]] assms(3)
  show "implements m (\<lambda>st. and_then (CBB_add_asn1 m d t st) (\<lambda>st. and_then (f st) (CBB_flush m d))) D
     (map_option (doc_append (der_element t z)) (doc_flush d D))"
    by (simp add: der_element_def der_header_def)
qed

lemma appends_length_prefixed_child:
  assumes "malloc_ok m" "appends m (Suc d) f z" "1 \<le> k" "k \<le> 8" "length z < 256 ^ k"
  shows "appends m d (\<lambda>st. and_then (cbb_add_length_prefixed m d k st) (\<lambda>st. and_then (f st) (CBB_flush m d)))
    (be_bytes k (length z) @ z)"
proof (rule appends_flushing)
  fix D
  have "implements m (cbb_add_length_prefixed m d k) D
     (map_option (\<lambda>E. doc_open (Fixed_length k) (doc_append [] E)) (doc_flush d D))"
    using implements_cbb_add_length_prefixed [OF assms(1,3,4)] by simp
  from implements_child [OF assms(1,2) this] assms(5)
  show "implements m (\<lambda>st. and_then (cbb_add_length_prefixed m d k st) (\<lambda>st. and_then (f st) (CBB_flush m d))) D
     (map_option (doc_append (be_bytes k (length z) @ z)) (doc_flush d D))"
    by simp
qed

subsection \<open>INTEGER, BOOLEAN, OCTET STRING\<close>

fun emit_bytes :: "libc_malloc \<Rightarrow> nat \<Rightarrow> byte list \<Rightarrow> cbb \<Rightarrow> bool \<times> cbb" where
  "emit_bytes m d [] st = (True, st)"
| "emit_bytes m d (b # bs) st = and_then (CBB_add_u8 m d b st) (emit_bytes m d bs)"

lemma appends_emit_bytes: "malloc_ok m \<Longrightarrow> appends m d (emit_bytes m d bs) bs"
proof (induction bs)
  case Nil
  then show ?case using appends_skip [of m d] by (simp add: emit_bytes.simps(1) [abs_def])
next
  case (Cons b bs)
  have "appends m d (\<lambda>st. and_then (CBB_add_u8 m d b st) (emit_bytes m d bs)) ([b] @ bs)"
    using Cons by (intro appends_seq appends_add_u8) auto
  then show ?case by (simp add: emit_bytes.simps(2) [abs_def])
qed

lemma emit_bytes_append:
  "emit_bytes m d (as @ bs) st = and_then (emit_bytes m d as st) (emit_bytes m d bs)"
  by (induction as arbitrary: st) (auto simp: and_then_def split: prod.splits)

lemma be_bytes_nth: "be_bytes n v = map (\<lambda>i. word_of_nat (v div 256 ^ (n - 1 - i))) [0..<n]"
proof (induction n arbitrary: v)
  case (Suc n)
  have "map (\<lambda>i. word_of_nat (v div 256 ^ (Suc n - 1 - i)) :: byte) [0..<n] =
     map (\<lambda>i. word_of_nat (v div 256 div 256 ^ (n - 1 - i))) [0..<n]"
  proof (rule map_cong [OF refl])
    fix i assume "i \<in> set [0..<n]"
    then have "Suc n - 1 - i = Suc (n - 1 - i)" by auto
    then show "(word_of_nat (v div 256 ^ (Suc n - 1 - i)) :: byte) = word_of_nat (v div 256 div 256 ^ (n - 1 - i))"
      by (simp only: power_Suc div_mult2_eq)
  qed
  then show ?case by (simp add: Suc)
qed simp

definition uint64_byte :: "u64 \<Rightarrow> nat \<Rightarrow> byte" where
  "uint64_byte v i = ucast (drop_bit (8 * (7 - i)) v) AND 0xff"

lemma uint64_bytes: "map (uint64_byte v) [0..<8] = be_bytes 8 (unat v)"
proof -
  have "uint64_byte v i = word_of_nat (unat v div 256 ^ (7 - i))" for i
  proof -
    have m: "(0xff :: byte) = mask 8" by (simp add: mask_eq_exp_minus_1)
    have "(ucast (drop_bit (8 * (7 - i)) v) :: byte) AND mask 8 = ucast (drop_bit (8 * (7 - i)) v)"
      by (rule bit_word_eqI) (auto simp: bit_simps)
    moreover have "unat (drop_bit (8 * (7 - i)) v) = unat v div 256 ^ (7 - i)"
      by (simp only: unat_drop_bit_eq) (simp add: drop_bit_eq_div power_mult)
    ultimately show ?thesis
      unfolding uint64_byte_def m by (simp add: byte_eq_iff unat_ucast_down_u64)
  qed
  then show ?thesis by (simp add: be_bytes_nth [of 8])
qed

fun uint64_out :: "bool \<Rightarrow> byte list \<Rightarrow> byte list" where
  "uint64_out s [] = []"
| "uint64_out s (b # bs) =
     (if \<not> s \<and> b = 0 then uint64_out s bs
      else (if \<not> s \<and> b AND 0x80 \<noteq> 0 then [0] else []) @ b # uint64_out True bs)"

lemma uint64_out_True [simp]: "uint64_out True bs = bs"
  by (induction bs) auto

lemma uint64_out_trim: "uint64_out False bs @ (if \<forall>b\<in>set bs. b = 0 then [0] else []) = trim_int (0 # bs)"
proof (induction bs)
  case (Cons b bs)
  have "trim_int (b # bs) = b # bs" if "b \<noteq> 0" "unat b < 128"
    using that by (cases bs) (auto simp: redundant_unat unat_eq_zero)
  with Cons show ?case by (cases "b = 0") (simp_all add: redundant_def byte_msb_iff)
qed simp

lemma asn1_uint64_emit_eq:
  "asn1_uint64_emit m d v is s st = (ok, s', st') \<Longrightarrow>
   emit_bytes m d (uint64_out s (map (uint64_byte v) is)) st = (ok, st') \<and>
   (ok \<longrightarrow> s' = (s \<or> \<not> (\<forall>b\<in>set (map (uint64_byte v) is). b = 0)))"
proof (induction "is" arbitrary: s st)
  case (Cons i "is")
  have b: "uint64_byte v i = ucast (drop_bit (8 * (7 - i)) v) AND 0xff" by (simp add: uint64_byte_def)
  from Cons.prems show ?case
    unfolding asn1_uint64_emit.simps b [symmetric] Let_def
    by (auto simp: and_then_def split: if_splits prod.splits dest: Cons.IH)
qed auto

lemma CBB_add_asn1_uint64_eq:
  "CBB_add_asn1_uint64 m d v =
   (\<lambda>st. and_then (CBB_add_asn1 m d CBS_ASN1_INTEGER st)
      (\<lambda>st. and_then (emit_bytes m (Suc d) (der_uint v) st) (CBB_flush m d)))"
proof -
  let ?bs = "map (uint64_byte v) [0..<8]"
  have z: "der_uint v = uint64_out False ?bs @ (if \<forall>b\<in>set ?bs. b = 0 then [0] else [])"
    by (simp only: der_uint_def uint64_out_trim uint64_bytes)
  have "(case asn1_uint64_emit m (Suc d) v [0..<8] False st of
         (ok, started, cbb) \<Rightarrow>
           if \<not> ok then (False, cbb)
           else and_then (if \<not> started then CBB_add_u8 m (Suc d) 0 cbb else (True, cbb)) (CBB_flush m d)) =
     and_then (emit_bytes m (Suc d) (der_uint v) st) (CBB_flush m d)" for st
  proof -
    obtain ok s st' where e: "asn1_uint64_emit m (Suc d) v [0..<8] False st = (ok, s, st')" by (metis prod_cases3)
    from asn1_uint64_emit_eq [OF e] have *: "emit_bytes m (Suc d) (uint64_out False ?bs) st = (ok, st')"
      "ok \<Longrightarrow> s = (\<not> (\<forall>b\<in>set ?bs. b = 0))" by blast+
    have id: "and_then r (\<lambda>st. (True, st)) = r" for r :: "bool \<times> cbb"
      by (auto simp: and_then_def split: prod.splits)
    show ?thesis
    proof (cases ok)
      case False
      then show ?thesis unfolding z emit_bytes_append *(1) e by (simp add: and_then_def)
    next
      case True
      with *(2) have s: "s = (\<not> (\<forall>b\<in>set ?bs. b = 0))" by blast
      show ?thesis unfolding z emit_bytes_append *(1) e s
        using True by (cases "\<forall>b\<in>set ?bs. b = 0") (simp_all only: if_True if_False, auto simp: and_then_def split: prod.splits)
    qed
  qed
  then show ?thesis unfolding CBB_add_asn1_uint64_def [abs_def] by simp
qed

lemma length_der_int: "length (der_int v) \<le> 0xfffffffe" "length (der_uint v) \<le> 0xfffffffe"
  using der_int_sval(3) [of v] length_der_uint(1) [of v] by simp_all

lemma appends_asn1_uint64:
  "malloc_ok m \<Longrightarrow> appends m d (CBB_add_asn1_uint64 m d v) (der_element CBS_ASN1_INTEGER (der_uint v))"
  unfolding CBB_add_asn1_uint64_eq
  by (intro appends_asn1_child appends_emit_bytes length_der_int)

lemma emit_down_eq: "k \<le> length bytes \<Longrightarrow> emit_down m d bytes k = emit_bytes m d (rev (take k bytes))"
proof (induction k)
  case (Suc k)
  then have "emit_down m d bytes k = emit_bytes m d (rev (take k bytes))" by simp
  with Suc.prems show ?case by (intro ext) (simp add: take_Suc_conv_app_nth)
qed (simp add: fun_eq_iff)

lemma int64_start_trim:
  assumes "s < length bytes" "128 \<le> unat (bytes ! s)"
  shows "rev (take (Suc (int64_start bytes s)) bytes) = trim_int (rev (take (Suc s) bytes))"
  using assms
proof (induction s)
  case 0
  then show ?case by (cases bytes) auto
next
  case (Suc s)
  have r: "rev (take (Suc (Suc s)) bytes) = bytes ! Suc s # bytes ! s # rev (take s bytes)"
    "rev (take (Suc s) bytes) = bytes ! s # rev (take s bytes)"
    using Suc.prems by (simp_all add: take_Suc_conv_app_nth)
  show ?case
  proof (cases "bytes ! Suc s = 0xff \<and> bytes ! s AND 0x80 \<noteq> 0")
    case True
    then have "128 \<le> unat (bytes ! s)" by (simp add: byte_msb_iff)
    with Suc True show ?thesis unfolding r by (simp add: r redundant_def)
  next
    case False
    then have "\<not> redundant (bytes ! Suc s) (bytes ! s)"
      using Suc.prems by (auto simp: redundant_def byte_msb_iff)
    moreover have "int64_start bytes (Suc s) = Suc s" using False by auto
    ultimately show ?thesis by (simp only: r trim_int.simps if_False)
  qed
qed

lemma sint_u64_neg: "sint (v::u64) < 0 \<longleftrightarrow> 2 ^ 63 \<le> unat v"
proof -
  have "sint v < 0 \<longleftrightarrow> bit v 63" using bit_last_iff [of v] by simp
  also have "\<dots> \<longleftrightarrow> odd (unat v div 2 ^ 63)"
    using bit_iff_odd [of "unat v" 63] by (simp add: bit_unsigned_iff)
  also have "unat v div 2 ^ 63 = (if 2 ^ 63 \<le> unat v then 1 else 0)"
    using unat_u64_less [of v] by (auto intro!: div_nat_eqI)
  finally show ?thesis by simp
qed

lemma be_bytes_8_hd: "be_bytes 8 n = word_of_nat (n div 256 ^ 7) # be_bytes 7 n"
proof -
  have "[0..<8::nat] = 0 # map Suc [0..<7]" by (simp add: map_Suc_upt upt_conv_Cons)
  then show ?thesis by (simp only: be_bytes_nth list.map map_map) simp
qed

lemma int64_hd: "128 \<le> unat (word_of_nat (unat (v::u64) div 256 ^ 7) :: byte) \<longleftrightarrow> sint v < 0"
proof -
  have "unat v div 256 ^ 7 < 256" by (rule less_mult_imp_div_less) simp
  then have "unat (word_of_nat (unat v div 256 ^ 7) :: byte) = unat v div 256 ^ 7" by (simp only: unat_byte_of_nat mod_less)
  then show ?thesis by (simp add: sint_u64_neg div_le_mono less_eq_div_iff_mult_less_eq)
qed

lemma der_int_nonneg: "\<not> sint v < 0 \<Longrightarrow> der_int v = der_uint v"
  by (simp only: der_int_def der_uint_def be_bytes_8_hd int64_hd [symmetric])
     (simp add: redundant_unat del: unat_byte_of_nat)

lemma appends_asn1_int64:
  assumes "malloc_ok m"
  shows "appends m d (CBB_add_asn1_int64 m d v) (der_element CBS_ASN1_INTEGER (der_int v))"
proof (cases "sint v < 0")
  case False
  then have "CBB_add_asn1_int64 m d v = CBB_add_asn1_uint64 m d v"
    by (simp add: CBB_add_asn1_int64_def fun_eq_iff)
  with False appends_asn1_uint64 [OF assms, of d v] show ?thesis by (simp add: der_int_nonneg)
next
  case True
  let ?bytes = "rev (be_bytes 8 (unat v))"
  have "?bytes ! 7 = hd (be_bytes 8 (unat v))"
    by (simp only: be_bytes_8_hd) (simp add: nth_append)
  then have neg: "128 \<le> unat (?bytes ! 7)"
    using True by (simp only: be_bytes_8_hd list.sel int64_hd)
  have l: "length ?bytes = 8" by simp
  have "int64_start ?bytes 7 \<le> 7"
  proof -
    have "int64_start bytes s \<le> s" for bytes s by (induction s) auto
    then show ?thesis .
  qed
  then have "emit_down m (Suc d) ?bytes (int64_start ?bytes 7 + 1) =
      emit_bytes m (Suc d) (rev (take (Suc (int64_start ?bytes 7)) ?bytes))"
    by (simp only: emit_down_eq l Suc_eq_plus1 [symmetric])
  also have "rev (take (Suc (int64_start ?bytes 7)) ?bytes) = der_int v"
  proof -
    have "7 < length ?bytes" by simp
    from int64_start_trim [OF this neg] show ?thesis
      by (simp only: der_int_def take_all l) simp
  qed
  finally have "CBB_add_asn1_int64 m d v = (\<lambda>st. and_then (CBB_add_asn1 m d CBS_ASN1_INTEGER st)
      (\<lambda>st. and_then (emit_bytes m (Suc d) (der_int v) st) (CBB_flush m d)))"
    using True by (simp add: CBB_add_asn1_int64_def fun_eq_iff Let_def)
  then show ?thesis
    by (simp only:) (intro appends_asn1_child appends_emit_bytes length_der_int assms)
qed

lemma appends_asn1_bool:
  "malloc_ok m \<Longrightarrow> appends m d (CBB_add_asn1_bool m d v)
     (der_element CBS_ASN1_BOOLEAN [if v \<noteq> 0 then 0xff else 0])"
  unfolding CBB_add_asn1_bool_def [abs_def]
  by (intro appends_asn1_child appends_add_u8) simp_all

lemma appends_asn1_octet_string:
  "malloc_ok m \<Longrightarrow> length data \<le> 0xfffffffe \<Longrightarrow>
   appends m d (CBB_add_asn1_octet_string m d data) (der_element CBS_ASN1_OCTETSTRING data)"
  unfolding CBB_add_asn1_octet_string_def [abs_def]
  by (intro appends_asn1_child appends_add_bytes) simp_all

subsection \<open>Starting and finishing\<close>

lemma represents_init:
  assumes m: "malloc_ok m" and i: "CBB_init m c = (True, st)" and c: "c < 2 ^ 63"
  shows "represents st ([], [])"
proof -
  from i obtain b where b: "st = \<lparr>base = Some \<lparr>buf = b, blen = 0, cap = c, can_resize = True, error = False\<rparr>, children = []\<rparr>"
    "OPENSSL_malloc m c = Some b \<or> c = 0 \<and> b = []"
    by (auto simp: CBB_init_def cbb_init_def CBB_zero_def Let_def split: if_splits option.splits)
  have "length b = c \<and> c + 8 < 2 ^ 63"
  proof (cases "OPENSSL_malloc m c = Some b")
    case True
    then show ?thesis using OPENSSL_malloc_length [OF m True] c by simp
  qed (use b in auto)
  then show ?thesis
    by (simp add: b(1) represents_def wf_buffer_def written_def doc_content_def)
qed

lemma avail_init:
  assumes "CBB_init m c = (True, st)" "T < 2 ^ 62" "\<forall>k \<le> 2 * T + 8. m k \<noteq> None"
  shows "avail_at m st T"
  using assms by (auto simp: CBB_init_def cbb_init_def CBB_zero_def Let_def avail_at_def avail_def
      split: if_splits option.splits)

lemma represents_init_fixed:
  assumes "CBB_init_fixed m b len = (True, st)" "length b = len" "len < 2 ^ 63"
  shows "represents st ([], [])" "T < 2 ^ 62 \<Longrightarrow> T \<le> len \<Longrightarrow> avail_at m st T"
proof -
  from assms(1) have st: "st = \<lparr>base = Some \<lparr>buf = b, blen = 0, cap = len, can_resize = False, error = False\<rparr>, children = []\<rparr>"
    by (auto simp: CBB_init_fixed_def cbb_init_def CBB_zero_def split: if_splits option.splits prod.splits)
  show "represents st ([], [])" using assms(2,3) 
    by (simp add: st represents_def wf_buffer_def written_def doc_content_def)
  show "T < 2 ^ 62 \<Longrightarrow> T \<le> len \<Longrightarrow> avail_at m st T" by (simp add: st avail_at_def avail_def)
qed

lemma finish_correct:
  assumes m: "malloc_ok m" and rep: "represents st D"
  shows "CBB_finish m 0 True True st = (Some (Some data, Some n), st') \<Longrightarrow>
      \<exists>x. doc_flush 0 D = Some (x, []) \<and> take n data = x \<and> length x = n \<and> n \<le> length data"
    and "doc_flush 0 D = None \<Longrightarrow> fst (CBB_finish m 0 True True st) = None"
    and "doc_flush 0 D = Some (x, []) \<Longrightarrow> avail_at m st T \<Longrightarrow> length x \<le> T \<Longrightarrow>
      \<exists>data st'. CBB_finish m 0 True True st = (Some (Some data, Some (length x)), st') \<and>
        take (length x) data = x \<and> length x \<le> length data"
proof -
  note F = implements_flush [OF m, of 0 D]
  have E: "CBB_finish m 0 True True st = (case CBB_flush m 0 st of
      (ok, s) \<Rightarrow> if \<not> ok then (None, s) else (case base s of None \<Rightarrow> (None, s)
        | Some b \<Rightarrow> (Some (Some (buf b), Some (blen b)), CBB_cleanup 0 (s\<lparr>base := Some (b\<lparr>buf := []\<rparr>)\<rparr>))))"
    by (simp add: CBB_finish_def split: prod.splits option.splits)
  obtain ok s where fl: "CBB_flush m 0 st = (ok, s)" by fastforce
  have R: "\<exists>b. base s = Some b \<and> take (blen b) (buf b) = x \<and> length x = blen b \<and> blen b \<le> length (buf b)"
    if "ok" "doc_flush 0 D = Some (x, [])" for x
  proof -
    have "represents s (x, [])"
      using implements_Some [OF F [unfolded that(2)] rep] fl that(1) by simp
    then obtain b where b: "base s = Some b" "wf_buffer b" "written b = x"
      by (auto simp: represents_def doc_content_def)
    have "length x = blen b" using length_written [OF b(2)] b(3) by blast
    moreover have "blen b \<le> length (buf b)" using b(2) unfolding wf_buffer_def by simp
    moreover have "take (blen b) (buf b) = x" using b(3) unfolding written_def .
    ultimately show ?thesis using b(1) by blast
  qed
  have N: "\<not> ok" if "doc_flush 0 D = None" using implements_None [OF F [unfolded that] rep] fl by simp
  have X: "\<exists>x. doc_flush 0 D = Some (x, [])" if "doc_flush 0 D \<noteq> None"
  proof -
    from that obtain E where E: "doc_flush 0 D = Some E" by blast
    with doc_flush_depth [OF E] show ?thesis by (cases E) simp
  qed
  show "\<exists>x. doc_flush 0 D = Some (x, []) \<and> take n data = x \<and> length x = n \<and> n \<le> length data"
    if fin: "CBB_finish m 0 True True st = (Some (Some data, Some n), st')"
  proof -
    from fin fl E have ok by (auto split: if_splits)
    then obtain x where x: "doc_flush 0 D = Some (x, [])" using N X by blast
    with R [OF \<open>ok\<close> x] fin fl E \<open>ok\<close> show ?thesis by auto
  qed
  show "fst (CBB_finish m 0 True True st) = None" if "doc_flush 0 D = None"
    using N [OF that] fl E by simp
  show "\<exists>data st'. CBB_finish m 0 True True st = (Some (Some data, Some (length x)), st') \<and>
        take (length x) data = x \<and> length x \<le> length data"
    if x: "doc_flush 0 D = Some (x, [])" and av: "avail_at m st T" and T: "length x \<le> T"
  proof -
    have "doc_len (x, []) \<le> T" using T by (simp add: doc_len_def doc_content_def)
    from implements_avail [OF F [unfolded x] rep av this] fl have ok by simp
    from R [OF this x] \<open>ok\<close> fl E show ?thesis by auto
  qed
qed

section \<open>Properties\<close>

text \<open>C8. \<^verbatim>\<open>CBB_flush\<close> refines closing the open children of a document. On a builder that
  represents a document (bytes written so far, with each open child's length prefix still
  pending), flushing at depth \<open>d\<close> succeeds only if every contents fits its prefix, and then
  represents the document in which the children below \<open>d\<close> are closed, innermost first, with the
  right prefixes; and when they fit and memory suffices it does succeed.\<close>

theorem CBB_flush_refines:
  assumes "malloc_ok m" "represents st D"
  shows "(\<forall>st'. CBB_flush m d st = (True, st') \<longrightarrow> (\<exists>E. doc_flush d D = Some E \<and> represents st' E)) \<and>
    (\<forall>E T. doc_flush d D = Some E \<longrightarrow> avail_at m st T \<longrightarrow> doc_len E \<le> T \<longrightarrow>
       (\<exists>st'. CBB_flush m d st = (True, st') \<and> represents st' E))"
proof -
  note F = implements_flush [OF assms(1), of d D]
  have "\<exists>E. doc_flush d D = Some E \<and> represents st' E" if "CBB_flush m d st = (True, st')" for st'
  proof (cases "doc_flush d D")
    case None
    from implements_None [OF F [unfolded None] assms(2)] that show ?thesis by simp
  next
    case (Some E)
    from implements_Some [OF F [unfolded Some] assms(2)] that show ?thesis using Some by simp
  qed
  moreover have "\<exists>st'. CBB_flush m d st = (True, st') \<and> represents st' E"
    if "doc_flush d D = Some E" "avail_at m st T" "doc_len E \<le> T" for E T
    using implements_avail [OF F [unfolded that(1)] assms(2) that(2,3)]
      implements_Some [OF F [unfolded that(1)] assms(2)] by (cases "CBB_flush m d st") auto
  ultimately show ?thesis by blast
qed

theorem CBB_flush_refines_witness:
  "\<exists>st'. CBB_flush (\<lambda>n. if n < 2 ^ 63 then Some (replicate n 0) else None) 0
      \<lparr>base = Some \<lparr>buf = [4, 0, 7, 0], blen = 3, cap = 4, can_resize = True, error = False\<rparr>,
       children = [\<lparr>offset = 1, pending_len_len = 1, pending_is_asn1 = True\<rparr>]\<rparr> = (True, st') \<and>
     represents st' ([4, 1, 7], [])"
proof -
  let ?m = "\<lambda>n. if n < 2 ^ 63 then Some (replicate n (0::byte)) else None"
  let ?st = "\<lparr>base = Some \<lparr>buf = [4, 0, 7, 0::byte], blen = 3, cap = 4, can_resize = True, error = False\<rparr>,
       children = [\<lparr>offset = 1, pending_len_len = 1, pending_is_asn1 = True\<rparr>]\<rparr>"
  have m: "malloc_ok ?m" by (auto simp: malloc_ok_def split: if_splits)
  have rep: "represents ?st ([4], [(Der_length, [7])])"
    by (simp add: represents_def wf_buffer_def written_def doc_content_def child_frame_def)
  have fl: "doc_flush 0 ([4], [(Der_length, [7])]) = Some ([4, 1, 7], [])"
    by (simp add: doc_flush_def der_length_def)
  have av: "avail_at ?m ?st 3" by (auto simp: avail_at_def avail_def)
  have len: "doc_len ([4, 1, 7], []) \<le> 3" by (simp add: doc_len_def doc_content_def)
  from CBB_flush_refines [OF m rep, of 0] fl av len show ?thesis by blast
qed

end
