(* ===== verification/CbbSetOf.thy ===== *)
theory CbbSetOf
  imports CbbDoc "HOL-Library.List_Lexorder"
begin

text \<open>Sorting the contents of a SET OF, \<^verbatim>\<open>CBB_flush_asn1_set_of\<close>. The C library's \<^verbatim>\<open>qsort\<close> is insertion sort
  here, one of the sorts the C standard allows: elements that compare equal are equal byte strings, so that
  every sort gives the same result.\<close>

subsection \<open>SET OF\<close>

fun OPENSSL_memcmp :: "byte list \<Rightarrow> byte list \<Rightarrow> nat \<Rightarrow> int" where
  "OPENSSL_memcmp (x # a) (y # b) (Suc n) =
     (if x < y then - 1 else if y < x then 1 else OPENSSL_memcmp a b n)"
| "OPENSSL_memcmp _ _ _ = 0"

definition compare_set_of_element :: "cbs \<Rightarrow> cbs \<Rightarrow> int" where
  "compare_set_of_element a b =
     (let a_len = CBS_len a; b_len = CBS_len b;
          min_len = (if a_len < b_len then a_len else b_len);
          ret = OPENSSL_memcmp (CBS_data a) (CBS_data b) min_len
      in if ret \<noteq> 0 then ret else if a_len = b_len then 0 else if a_len < b_len then - 1 else 1)"

primrec qsort_insert :: "('a \<Rightarrow> 'a \<Rightarrow> int) \<Rightarrow> 'a \<Rightarrow> 'a list \<Rightarrow> 'a list" where
  "qsort_insert cmp x [] = [x]"
| "qsort_insert cmp x (y # ys) = (if cmp x y \<le> 0 then x # y # ys else y # qsort_insert cmp x ys)"

definition qsort :: "('a \<Rightarrow> 'a \<Rightarrow> int) \<Rightarrow> 'a list \<Rightarrow> 'a list" where
  "qsort cmp xs = foldr (qsort_insert cmp) xs []"

lemma any_element_shorter:
  "CBS_get_any_asn1_element c = (Some x, c') \<Longrightarrow> length c' < length c"
proof -
  assume "CBS_get_any_asn1_element c = (Some x, c')"
  moreover obtain out t hl where "x = (out, t, hl)" by (cases x) auto
  ultimately have "cbs_get_any_asn1_element c False = (Some (out, t, hl), c')"
    by (simp add: CBS_get_any_asn1_element_def)
  then obtain y where "c = der_element t y @ c'" unfolding any_element_iff by blast
  moreover have "0 < length (der_element t y)"
    using length_der_tag(1) [of t] by (simp add: der_header_def)
  ultimately show ?thesis by (simp del: length_der_element length_greater_0_conv)
qed

function count_asn1_elements :: "cbs \<Rightarrow> nat option" where
  "count_asn1_elements cbs =
     (if CBS_len cbs = 0 then Some 0
      else (case CBS_get_any_asn1_element cbs of
              (None, cbs) \<Rightarrow> None
            | (Some _, cbs) \<Rightarrow> map_option Suc (count_asn1_elements cbs)))"
  by pat_completeness auto
termination by (relation "measure length") (auto dest: any_element_shorter [OF sym])

declare count_asn1_elements.simps [simp del]

definition sizeof_CBS :: nat where "sizeof_CBS = 16"

primrec cbb_add_all :: "libc_malloc \<Rightarrow> nat \<Rightarrow> cbs list \<Rightarrow> cbb \<Rightarrow> bool \<times> cbb" where
  "cbb_add_all m d [] cbb = (True, cbb)"
| "cbb_add_all m d (c # cs) cbb = and_then (CBB_add_bytes m d c cbb) (cbb_add_all m d cs)"

definition next_asn1_element :: "cbs \<Rightarrow> cbs option \<times> cbs" where
  "next_asn1_element cbs =
     (case CBS_get_any_asn1_element cbs of
        (None, cbs) \<Rightarrow> (None, cbs) | (Some (out, _, _), cbs) \<Rightarrow> (Some out, cbs))"

definition CBB_flush_asn1_set_of :: "libc_malloc \<Rightarrow> nat \<Rightarrow> cbb \<Rightarrow> bool \<times> cbb" where
  "CBB_flush_asn1_set_of m d cbb =
     and_then (CBB_flush m d cbb) (\<lambda>cbb.
       let cbs = CBS_init (CBB_data d cbb) (CBB_len d cbb)
       in case count_asn1_elements cbs of
            None \<Rightarrow> (False, cbb)
          | Some num_children \<Rightarrow>
              if num_children < 2 then (True, cbb)
              else if num_children > (2 ^ 64 - 1) div sizeof_CBS then (False, cbb)
              else
                (let buf_len = CBB_len d cbb
                 in case (OPENSSL_memdup m (CBB_data d cbb) buf_len,
                          OPENSSL_malloc m (num_children * sizeof_CBS)) of
                      (Some copy, Some _) \<Rightarrow>
                        (case read_many num_children next_asn1_element (CBS_init copy buf_len) of
                           (None, _) \<Rightarrow> (False, cbb)
                         | (Some kids, _) \<Rightarrow>
                             and_then
                               (on_base (\<lambda>b. (True, b\<lparr>blen := cbb_start d cbb\<rparr>)) cbb)
                               (cbb_add_all m d (qsort compare_set_of_element kids)))
                    | _ \<Rightarrow> (False, cbb)))"

lemma compare_le: "compare_set_of_element a b \<le> 0 \<longleftrightarrow> a \<le> b"
proof (induction a arbitrary: b)
  case Nil
  show ?case by (cases b) (auto simp: compare_set_of_element_def Let_def)
next
  case (Cons x a)
  show ?case
  proof (cases b)
    case (Cons y b')
    have "compare_set_of_element (x # a) (y # b') =
        (if x < y then - 1 else if y < x then 1 else compare_set_of_element a b')"
      by (auto simp: compare_set_of_element_def Let_def)
    then show ?thesis using Cons.IH [of b'] Cons by (auto simp: Cons_le_Cons)
  qed (auto simp: compare_set_of_element_def Let_def)
qed

lemma qsort_insert_insort: "qsort_insert compare_set_of_element x xs = insort x xs"
  by (induction xs) (auto simp: compare_le)

lemma qsort_sort: "qsort compare_set_of_element xs = sort xs"
  by (induction xs) (simp_all add: qsort_def qsort_insert_insort)

definition is_asn1_element :: "byte list \<Rightarrow> bool" where
  "is_asn1_element e \<longleftrightarrow> (\<exists>t x. length x < 2 ^ 32 \<and> e = der_element t x)"

interpretation element: canonical_codec "\<lambda>e. e" next_asn1_element is_asn1_element
proof
  fix e rest assume "is_asn1_element e"
  then obtain t x where "length x < 2 ^ 32" "e = der_element t x" by (auto simp: is_asn1_element_def)
  then have "CBS_get_any_asn1_element (e @ rest) = (Some (e, t, length (der_header t (length x))), rest)"
    unfolding CBS_get_any_asn1_element_def any_element_iff by blast
  then show "next_asn1_element (e @ rest) = (Some e, rest)" by (simp add: next_asn1_element_def)
next
  fix c e c' assume "next_asn1_element c = (Some e, c')"
  then obtain t hl where "cbs_get_any_asn1_element c False = (Some (e, t, hl), c')"
    by (auto simp: next_asn1_element_def CBS_get_any_asn1_element_def split: prod.splits option.splits)
  then show "is_asn1_element e \<and> c = e @ c'" unfolding any_element_iff is_asn1_element_def by blast
qed

lemma count_elements_Some:
  "count_asn1_elements c = Some n \<Longrightarrow>
   \<exists>els. length els = n \<and> c = concat els \<and> (\<forall>e\<in>set els. is_asn1_element e)"
proof (induction c arbitrary: n rule: count_asn1_elements.induct)
  case (1 c)
  show ?case
  proof (cases "c = []")
    case True
    with 1 show ?thesis by (simp add: count_asn1_elements.simps)
  next
    case False
    then obtain e tg hl c' k where e: "CBS_get_any_asn1_element c = (Some (e, tg, hl), c')"
      "count_asn1_elements c' = Some k" "n = Suc k"
      using "1.prems" by (subst (asm) count_asn1_elements.simps) (auto split: prod.splits option.splits)
    have "next_asn1_element c = (Some e, c')" using e(1) by (simp add: next_asn1_element_def)
    then have "is_asn1_element e" "c = e @ c'" using element.canonical by auto
    moreover obtain els where "length els = k" "c' = concat els" "\<forall>e\<in>set els. is_asn1_element e"
      using "1.IH" [OF _ e(1)[symmetric] refl e(2)] False by auto
    ultimately show ?thesis using e(3) by (intro exI [of _ "e # els"]) simp
  qed
qed

lemma count_elements_concat:
  "\<forall>e\<in>set els. is_asn1_element e \<Longrightarrow> count_asn1_elements (concat els) = Some (length els)"
proof (induction els)
  case Nil
  then show ?case by (simp add: count_asn1_elements.simps)
next
  case (Cons e els)
  then have n: "next_asn1_element (e @ concat els) = (Some e, concat els)" by (intro element.roundtrip) simp
  then obtain tg hl where "CBS_get_any_asn1_element (e @ concat els) = (Some (e, tg, hl), concat els)"
    by (auto simp: next_asn1_element_def split: prod.splits option.splits)
  moreover from any_element_shorter [OF this] have "e @ concat els \<noteq> []" by auto
  ultimately show ?case using Cons by (subst count_asn1_elements.simps) auto
qed

fun doc_last :: "doc \<Rightarrow> byte list" where
  "doc_last (x, fs) = (if fs = [] then x else snd (last fs))"

fun doc_clear :: "doc \<Rightarrow> doc" where
  "doc_clear (x, fs) = (if fs = [] then ([], []) else (x, butlast fs @ [(fst (last fs), [])]))"

lemma doc_clear_append: "doc_append (doc_last D) (doc_clear D) = D"
proof (cases D)
  case (Pair x fs)
  then show ?thesis
    by (cases fs rule: rev_cases) (auto simp: doc_append_snoc)
qed

lemma length_doc_clear [simp]: "length (snd (doc_clear D)) = length (snd D)"
  by (cases D) auto

lemma cbb_start_clear:
  assumes "represents st E" "length (snd E) = d"
  shows "cbb_start d st = doc_len (doc_clear E)"
proof (cases E)
  case (Pair x fs)
  show ?thesis
  proof (cases fs rule: rev_cases)
    case Nil
    with assms Pair show ?thesis by (simp add: cbb_start_def doc_len_def doc_content_def)
  next
    case (snoc gs s)
    obtain p y where s: "s = (p, y)" by fastforce
    from assms(1) Pair snoc s have "children st = frames (length x) gs @ [child_frame (length x + length (layout gs)) p]"
      by (auto simp: represents_def)
    moreover have "d = Suc (length gs)" using assms(2) Pair snoc by simp
    ultimately have "cbb_start d st = length x + length (layout gs) + prefix_space p"
      by (simp add: cbb_start_def nth_append child_frame_def)
    then show ?thesis using Pair snoc s by (simp add: doc_len_def doc_content_def)
  qed
qed

lemma represents_rewind:
  assumes rep: "represents st E" and d: "length (snd E) = d"
  obtains b where "base st = Some b" "CBB_data d st = doc_last E @ drop (blen b) (buf b)"
    "CBB_len d st = length (doc_last E)"
    "represents (st\<lparr>base := Some (b\<lparr>blen := cbb_start d st\<rparr>)\<rparr>) (doc_clear E)"
proof -
  from rep obtain b where b: "base st = Some b" "wf_buffer b" "segments_wf (snd E)" "written b = doc_content E"
    "children st = frames (length (fst E)) (snd E)" by (auto simp: represents_def)
  note st = cbb_start_clear [OF rep d]
  have c: "doc_content E = doc_content (doc_clear E) @ doc_last E"
    by (metis doc_append_facts(1) doc_clear_append)
  have bl: "blen b = doc_len (doc_clear E) + length (doc_last E)"
    using length_written [OF b(2)] b(4) c by (simp add: doc_len_def)
  have bb: "buf b = doc_content (doc_clear E) @ doc_last E @ drop (blen b) (buf b)"
    using b(4) c by (metis append.assoc append_take_drop_id written_def)
  have data: "CBB_data d st = doc_last E @ drop (blen b) (buf b)"
    unfolding CBB_data_def st b(1) option.sel by (subst bb) (simp add: doc_len_def)
  have len: "CBB_len d st = length (doc_last E)"
    unfolding CBB_len_def st b(1) option.sel bl by simp
  have "take (doc_len (doc_clear E)) (buf b) = doc_content (doc_clear E)"
    by (subst bb) (simp add: doc_len_def)
  moreover have "frames (length (fst (doc_clear E))) (snd (doc_clear E)) = frames (length (fst E)) (snd E)"
    by (metis doc_append_facts(2) doc_clear_append)
  moreover have "segments_wf (snd (doc_clear E))" by (metis b(3) doc_append_facts(3) doc_clear_append)
  ultimately have "represents (st\<lparr>base := Some (b\<lparr>blen := cbb_start d st\<rparr>)\<rparr>) (doc_clear E)"
    using b bl by (simp add: represents_def st wf_buffer_def written_def)
  then show ?thesis using that b(1) data len by blast
qed

lemma appends_cbb_add_all:
  "malloc_ok m \<Longrightarrow> \<forall>c\<in>set cs. length c < 2 ^ 63 \<Longrightarrow> appends m d (cbb_add_all m d cs) (concat cs)"
proof (induction cs)
  case Nil
  then show ?case using appends_skip [of m d] by (simp add: cbb_add_all.simps(1) [abs_def])
next
  case (Cons c cs)
  have "appends m d (\<lambda>st. and_then (CBB_add_bytes m d c st) (cbb_add_all m d cs)) (c @ concat cs)"
    using Cons by (intro appends_seq appends_add_bytes) auto
  then show ?case by (simp add: cbb_add_all.simps(2) [abs_def])
qed

lemma next_element_many:
  "\<forall>e\<in>set els. is_asn1_element e \<Longrightarrow>
   read_many (length els) next_asn1_element (concat els) = (Some els, [])"
  using element.many_roundtrip [of els "[]"] by simp

lemma and_then_simps: "and_then (True, s) f = f s" "and_then (False, s) f = (False, s)"
  by (simp_all add: and_then_def)

lemma set_of_correct:
  assumes m: "malloc_ok m" and rep: "represents st D"
    and r: "CBB_flush_asn1_set_of m d st = (True, st')"
  obtains E els where "doc_flush d D = Some E" "doc_last E = concat els" "\<forall>e\<in>set els. is_asn1_element e"
    "represents st' (doc_append (concat (sort els)) (doc_clear E))"
proof -
  note F = implements_flush [OF m, of d D]
  obtain s where fl: "CBB_flush m d st = (True, s)" 
    using r by (auto simp: CBB_flush_asn1_set_of_def and_then_def split: prod.splits if_splits)
  have "doc_flush d D \<noteq> None"
  proof
    assume "doc_flush d D = None"
    from implements_None [OF F [unfolded this] rep] fl show False by simp
  qed
  then obtain E where E: "doc_flush d D = Some E" by blast
  from implements_Some [OF F [unfolded E] rep] fl have rs: "represents s E" by simp
  from represents_rewind [OF rs doc_flush_depth [OF E]] obtain b where b: "base s = Some b"
    "CBB_data d s = doc_last E @ drop (blen b) (buf b)" "CBB_len d s = length (doc_last E)"
    "represents (s\<lparr>base := Some (b\<lparr>blen := cbb_start d s\<rparr>)\<rparr>) (doc_clear E)" .
  have init: "CBS_init (CBB_data d s) (CBB_len d s) = doc_last E" by (simp add: b CBS_init_def)
  from r fl init obtain n where n: "count_asn1_elements (doc_last E) = Some n"
    by (auto simp: CBB_flush_asn1_set_of_def and_then_def Let_def split: option.splits)
  from count_elements_Some [OF this] obtain els where els: "length els = n" "doc_last E = concat els"
    "\<forall>e\<in>set els. is_asn1_element e" by blast
  have "represents st' (doc_append (concat (sort els)) (doc_clear E))"
  proof (cases "n < 2")
    case True
    then have "sort els = els" using els(1) by (cases els rule: remdups_adj.cases) auto
    moreover have "st' = s"
      using r fl init n True by (simp add: CBB_flush_asn1_set_of_def and_then_def Let_def)
    ultimately show ?thesis using rs doc_clear_append [of E] els(2) by simp
  next
    case False
    let ?copy = "OPENSSL_memdup m (CBB_data d s) (CBB_len d s)"
    from r fl init n False obtain copy kids rest where c: "?copy = Some copy"
      "read_many n next_asn1_element (CBS_init copy (CBB_len d s)) = (Some kids, rest)"
      "and_then (on_base (\<lambda>b. (True, b\<lparr>blen := cbb_start d s\<rparr>)) s)
         (cbb_add_all m d (qsort compare_set_of_element kids)) = (True, st')"
      by (auto simp: CBB_flush_asn1_set_of_def and_then_simps Let_def
          split: option.splits if_splits prod.splits)
    have "CBS_init copy (CBB_len d s) = doc_last E"
      using c(1) by (auto simp: OPENSSL_memdup_def CBS_init_def b split: if_splits option.splits)
    then have kids: "kids = els" using c(2) next_element_many [OF els(3)] els(1,2) by simp
    have on: "on_base (\<lambda>b. (True, b\<lparr>blen := cbb_start d s\<rparr>)) s = (True, s\<lparr>base := Some (b\<lparr>blen := cbb_start d s\<rparr>)\<rparr>)"
      by (simp add: on_base_def b(1))
    have small: "\<forall>c\<in>set (sort els). length c < 2 ^ 63"
    proof
      fix c assume "c \<in> set (sort els)"
      then have "length c \<le> length (doc_last E)"
        using els(2) by (simp add: length_concat member_le_sum_list)
      also have "\<dots> \<le> length (CBB_data d s)" by (simp add: b(2))
      also have "\<dots> < 2 ^ 63" using rs b(1) by (auto simp: CBB_data_def represents_def wf_buffer_def)
      finally show "length c < 2 ^ 63" .
    qed
    have dc: "length (snd (doc_clear E)) = d" using doc_flush_depth [OF E] by simp
    from implements_Some [OF appendsD [OF appends_cbb_add_all [OF m small] dc] b(4)] c(3)
    show ?thesis by (simp add: on and_then_def kids qsort_sort)
  qed
  with that E els show ?thesis by blast
qed

lemma set_of_malformed:
  assumes m: "malloc_ok m" and rep: "represents st D" and E: "doc_flush d D = Some E"
    and bad: "count_asn1_elements (doc_last E) = None"
  shows "\<not> fst (CBB_flush_asn1_set_of m d st)"
proof (rule notI)
  assume "fst (CBB_flush_asn1_set_of m d st)"
  then obtain st' where "CBB_flush_asn1_set_of m d st = (True, st')" by (metis prod.collapse)
  from set_of_correct [OF m rep this] obtain E' els where "doc_flush d D = Some E'" "doc_last E' = concat els"
    "\<forall>e\<in>set els. is_asn1_element e" .
  then show False using E bad count_elements_concat [of els] by simp
qed

lemma doc_last_append: "doc_last (doc_append z (doc_clear D)) = z"
proof (cases D)
  case (Pair x fs)
  then show ?thesis by (cases fs rule: rev_cases) (auto simp: doc_append_snoc)
qed

section \<open>Properties\<close>



end
