(* ===== verification/CbbItems.thy ===== *)
theory CbbItems
  imports CbbDoc
begin

text \<open>Programs that use the builder. An \<open>item\<close> is a value to append, an ASN.1 element or a length-prefixed
  vector with items inside; building any list of items and finishing gives \<open>encode_items\<close> of it. Then
  errors, which stick, and fixed buffers, which never grow and overflow exactly when the encoding is longer.\<close>

subsection \<open>Little-endian integers\<close>

lemma word_of_nat_div: "(word_of_nat (unat (v::'a::len word) div 256 ^ k) :: byte) = ucast (drop_bit (8 * k) v)"
proof -
  have "unat (drop_bit (8 * k) v) = unat v div 256 ^ k"
    by (simp only: unat_drop_bit_eq) (simp add: drop_bit_eq_div power_mult)
  then show ?thesis by (simp add: byte_eq_iff unsigned_ucast_eq [where 'a = nat] take_bit_nat_def)
qed

lemma bswap2_bytes: "be_bytes 2 (unat (CRYPTO_bswap2 v)) = rev (be_bytes 2 (unat v))"
proof -
  have "ucast (drop_bit 8 (CRYPTO_bswap2 v)) = (ucast v :: byte)"
    "ucast (CRYPTO_bswap2 v) = (ucast (drop_bit 8 v) :: byte)"
    by (rule bit_word_eqI; auto simp: CRYPTO_bswap2_def bit_simps dest: bit_imp_le_length)+
  then show ?thesis
    by (simp add: be_bytes_nth [of 2] word_of_nat_div [of _ 1, simplified] word_of_nat_div [of _ 0, simplified] upt_rec)
qed

lemma bit_mask4:
  assumes "i < 8"
  shows "\<not> bit (0xff00ff00 :: u32) i" "bit (0xff00ff00 :: u32) (8 + i)"
    "\<not> bit (0xff00ff00 :: u32) (16 + i)" "bit (0xff00ff00 :: u32) (24 + i)"
    "bit (0x00ff00ff :: u32) i" "\<not> bit (0x00ff00ff :: u32) (8 + i)"
    "bit (0x00ff00ff :: u32) (16 + i)" "\<not> bit (0x00ff00ff :: u32) (24 + i)"
proof -
  have "\<forall>i \<in> set [0..<8]. \<not> bit (0xff00ff00 :: u32) i \<and> bit (0xff00ff00 :: u32) (8 + i) \<and>
    \<not> bit (0xff00ff00 :: u32) (16 + i) \<and> bit (0xff00ff00 :: u32) (24 + i) \<and>
    bit (0x00ff00ff :: u32) i \<and> \<not> bit (0x00ff00ff :: u32) (8 + i) \<and>
    bit (0x00ff00ff :: u32) (16 + i) \<and> \<not> bit (0x00ff00ff :: u32) (24 + i)" by code_simp
  moreover from assms have "i \<in> set [0..<8]" by simp
  ultimately show "\<not> bit (0xff00ff00 :: u32) i" "bit (0xff00ff00 :: u32) (8 + i)"
    "\<not> bit (0xff00ff00 :: u32) (16 + i)" "bit (0xff00ff00 :: u32) (24 + i)"
    "bit (0x00ff00ff :: u32) i" "\<not> bit (0x00ff00ff :: u32) (8 + i)"
    "bit (0x00ff00ff :: u32) (16 + i)" "\<not> bit (0x00ff00ff :: u32) (24 + i)" by blast+
qed

lemma bit_bswap4:
  assumes "i < 8" "k < 4"
  shows "bit (CRYPTO_bswap4 v) (8 * k + i) = bit v (8 * (3 - k) + i)"
proof -
  have hi: "\<not> bit v (32 + i)" "\<not> bit v (40 + i)" by (auto dest: bit_imp_le_length)
  from assms(2) consider "k = 0" | "k = 1" | "k = 2" | "k = 3" by linarith
  then show ?thesis
    using assms(1) bit_mask4 [OF assms(1)] by cases (simp_all add: CRYPTO_bswap4_def Let_def bit_or_iff bit_and_iff bit_drop_bit_eq
       bit_push_bit_iff hi)
qed

lemma byte_bswap4: "k < 4 \<Longrightarrow> (ucast (drop_bit (8 * k) (CRYPTO_bswap4 v)) :: byte) = ucast (drop_bit (8 * (3 - k)) v)"
  by (rule bit_word_eqI) (simp add: bit_bswap4 bit_unsigned_iff bit_drop_bit_eq)

lemma bswap4_bytes: "be_bytes 4 (unat (CRYPTO_bswap4 v)) = rev (be_bytes 4 (unat v))"
proof -
  have l: "[0..<4] = [0, 1, 2, 3::nat]" by (simp add: upt_rec)
  show ?thesis
    by (simp only: be_bytes_nth [of 4] l list.map word_of_nat_div rev.simps append.simps)
       (use byte_bswap4 [of 0 v] byte_bswap4 [of 1 v] byte_bswap4 [of 2 v] byte_bswap4 [of 3 v] in simp)
qed

lemma be_bytes_add: "be_bytes (a + b) n = be_bytes a (n div 256 ^ b) @ be_bytes b n"
proof (induction b arbitrary: n)
  case (Suc b)
  show ?case by (simp add: Suc div_mult2_eq)
qed simp

lemma be_bytes_mod: "be_bytes b (n mod 256 ^ b) = be_bytes b n"
  using be_bytes_be_val [of "be_bytes b n"] by (simp add: be_val_be_bytes)

lemma unat_bswap8:
  "unat (CRYPTO_bswap8 v) = unat (CRYPTO_bswap4 (ucast v)) * 2 ^ 32 + unat (CRYPTO_bswap4 (ucast (drop_bit 32 v)))"
proof -
  let ?hi = "CRYPTO_bswap4 (ucast v)" and ?lo = "CRYPTO_bswap4 (ucast (drop_bit 32 v))"
  have "CRYPTO_bswap8 v = push_bit 32 (ucast ?hi) + ucast ?lo"
    by (simp add: CRYPTO_bswap8_def push_or_disjoint or.commute)
  moreover have "unat (push_bit 32 (ucast ?hi) :: u64) = unat ?hi * 2 ^ 32"
    using unat_u32_less [of ?hi] by (simp add: push_bit_eq_mult unat_word_ariths del: unat_u32_less)
  moreover have "unat ?hi * 2 ^ 32 + unat ?lo < 2 ^ 64"
  proof -
    have "unat ?hi * 2 ^ 32 \<le> (2 ^ 32 - 1) * 2 ^ 32"
      using unat_u32_less [of ?hi] by (intro mult_right_mono) (simp_all del: unat_u32_less)
    then show ?thesis using unat_u32_less [of ?lo] by (simp del: unat_u32_less)
  qed
  ultimately show ?thesis by (simp add: unat_word_ariths)
qed

lemma bswap8_bytes: "be_bytes 8 (unat (CRYPTO_bswap8 v)) = rev (be_bytes 8 (unat v))"
proof -
  let ?hi = "CRYPTO_bswap4 (ucast v)" and ?lo = "CRYPTO_bswap4 (ucast (drop_bit 32 v))"
  have split: "be_bytes 8 n = be_bytes 4 (n div 2 ^ 32) @ be_bytes 4 n" for n
    using be_bytes_add [of 4 4 n] by simp
  have d: "unat (CRYPTO_bswap8 v) div 2 ^ 32 = unat ?hi" "unat (CRYPTO_bswap8 v) mod 2 ^ 32 = unat ?lo"
    unfolding unat_bswap8 by (simp_all add: div_nat_eqI)
  have lo: "be_bytes 4 (unat (CRYPTO_bswap8 v)) = be_bytes 4 (unat ?lo)"
    using be_bytes_mod [of 4 "unat (CRYPTO_bswap8 v)"] d(2) by simp
  have v: "be_bytes 4 (unat (ucast v :: u32)) = be_bytes 4 (unat v)"
    using be_bytes_mod [of 4 "unat v"] by (simp add: unat_ucast_down_u64)
  have "unat (drop_bit 32 v) = unat v div 2 ^ 32"
    by (simp only: unat_drop_bit_eq) (simp add: drop_bit_eq_div)
  moreover have "unat v div 2 ^ 32 < 2 ^ 32" by (rule less_mult_imp_div_less) simp
  ultimately have v2: "unat (ucast (drop_bit 32 v) :: u32) = unat v div 2 ^ 32"
    by (simp add: unat_ucast_down_u64)
  show ?thesis
    unfolding split d lo bswap4_bytes v v2 by simp
qed

lemma appends_CBB_add_u16le:
  "malloc_ok m \<Longrightarrow> appends m d (CBB_add_u16le m d v) (rev (be_bytes 2 (unat v)))"
  using appends_cbb_add_u [of m 2 "ucast (CRYPTO_bswap2 v)" d] unat_u16_less [of "CRYPTO_bswap2 v"]
  by (simp add: CBB_add_u16le_def [abs_def] CBB_add_u16_def bswap2_bytes del: unat_u16_less)

lemma appends_CBB_add_u32le:
  "malloc_ok m \<Longrightarrow> appends m d (CBB_add_u32le m d v) (rev (be_bytes 4 (unat v)))"
  using appends_cbb_add_u [of m 4 "ucast (CRYPTO_bswap4 v)" d] unat_u32_less [of "CRYPTO_bswap4 v"]
  by (simp add: CBB_add_u32le_def [abs_def] CBB_add_u32_def bswap4_bytes del: unat_u32_less be_bytes.simps)

lemma appends_CBB_add_u64le:
  "malloc_ok m \<Longrightarrow> appends m d (CBB_add_u64le m d v) (rev (be_bytes 8 (unat v)))"
  using appends_cbb_add_u [of m 8 "CRYPTO_bswap8 v" d] unat_u64_less [of "CRYPTO_bswap8 v"]
  by (simp add: CBB_add_u64le_def [abs_def] CBB_add_u64_def bswap8_bytes del: unat_u64_less be_bytes.simps)

lemma appends_CBB_add_ints:
  assumes "malloc_ok m"
  shows "appends m d (CBB_add_u16 m d v16) (be_bytes 2 (unat v16))"
    "appends m d (CBB_add_u32 m d v32) (be_bytes 4 (unat v32))"
    "appends m d (CBB_add_u64 m d v64) (be_bytes 8 (unat v64))"
    "unat v32 < 2 ^ 24 \<Longrightarrow> appends m d (CBB_add_u24 m d v32) (be_bytes 3 (unat v32))"
  using appends_cbb_add_u [OF assms, of 2 "ucast v16" d] appends_cbb_add_u [OF assms, of 4 "ucast v32" d]
    appends_cbb_add_u [OF assms, of 8 v64 d] appends_cbb_add_u [OF assms, of 3 "ucast v32" d]
  by (simp_all add: CBB_add_u16_def [abs_def] CBB_add_u24_def [abs_def] CBB_add_u32_def [abs_def]
      CBB_add_u64_def [abs_def] del: be_bytes.simps)

lemma le_codec_iff:
  fixes sw :: "'a::len word \<Rightarrow> 'a word"
  assumes "\<And>v. be_bytes n (unat (sw v)) = rev (be_bytes n (unat v))" "LENGTH('a) = 8 * n"
  shows "sw (sw v) = v"
proof -
  have lt: "unat w < 256 ^ n" for w :: "'a word"
  proof -
    have "unat w < 2 ^ LENGTH('a)" by (rule unsigned_less)
    then show ?thesis by (simp add: assms(2) power_mult)
  qed
  have "be_bytes n (unat (sw (sw v))) = be_bytes n (unat v)" by (simp only: assms(1) rev_rev_ident)
  from arg_cong [OF this, of be_val] show ?thesis
    using lt by (simp add: be_val_be_bytes word_unat_eq_iff)
qed

lemma CBS_get_le_iff:
  "CBS_get_u16le c = (Some v, c') \<longleftrightarrow> c = rev (be_bytes 2 (unat v)) @ c'"
  "CBS_get_u32le c = (Some w, c') \<longleftrightarrow> c = rev (be_bytes 4 (unat w)) @ c'"
  "CBS_get_u64le c = (Some x, c') \<longleftrightarrow> c = rev (be_bytes 8 (unat x)) @ c'"
proof -
  have 2: "CRYPTO_bswap2 (CRYPTO_bswap2 v) = v" for v by (rule le_codec_iff [OF bswap2_bytes]) simp
  have 4: "CRYPTO_bswap4 (CRYPTO_bswap4 v) = v" for v by (rule le_codec_iff [OF bswap4_bytes]) simp
  have 8: "CRYPTO_bswap8 (CRYPTO_bswap8 v) = v" for v by (rule le_codec_iff [OF bswap8_bytes]) simp
  have "CBS_get_u16le c = (Some v, c') \<longleftrightarrow> CBS_get_u16 c = (Some (CRYPTO_bswap2 v), c')"
    using 2 by (auto simp: CBS_get_u16le_def split: prod.splits option.splits)
  then show "CBS_get_u16le c = (Some v, c') \<longleftrightarrow> c = rev (be_bytes 2 (unat v)) @ c'"
    using unat_u16_less [of "CRYPTO_bswap2 v"] by (simp add: u16.accepts_iff bswap2_bytes del: be_bytes.simps unat_u16_less)
  have "CBS_get_u32le c = (Some w, c') \<longleftrightarrow> CBS_get_u32 c = (Some (CRYPTO_bswap4 w), c')"
    using 4 by (auto simp: CBS_get_u32le_def split: prod.splits option.splits)
  then show "CBS_get_u32le c = (Some w, c') \<longleftrightarrow> c = rev (be_bytes 4 (unat w)) @ c'"
    using unat_u32_less [of "CRYPTO_bswap4 w"] by (simp add: u32.accepts_iff bswap4_bytes del: be_bytes.simps unat_u32_less)
  have "CBS_get_u64le c = (Some x, c') \<longleftrightarrow> CBS_get_u64 c = (Some (CRYPTO_bswap8 x), c')"
    using 8 by (auto simp: CBS_get_u64le_def CBS_get_u64_def split: prod.splits option.splits)
  then show "CBS_get_u64le c = (Some x, c') \<longleftrightarrow> c = rev (be_bytes 8 (unat x)) @ c'"
    using unat_u64_less [of "CRYPTO_bswap8 x"] by (simp add: u64.accepts_iff bswap8_bytes del: be_bytes.simps unat_u64_less)
qed

interpretation u16le: canonical_codec "\<lambda>v. rev (be_bytes 2 (unat v))" CBS_get_u16le "\<lambda>_. True"
  by unfold_locales (auto simp: CBS_get_le_iff simp del: be_bytes.simps)

interpretation u32le: canonical_codec "\<lambda>v. rev (be_bytes 4 (unat v))" CBS_get_u32le "\<lambda>_. True"
  by unfold_locales (auto simp: CBS_get_le_iff simp del: be_bytes.simps)

interpretation u64le: canonical_codec "\<lambda>v. rev (be_bytes 8 (unat v))" CBS_get_u64le "\<lambda>_. True"
  by unfold_locales (auto simp: CBS_get_le_iff simp del: be_bytes.simps)

subsection \<open>Programs that use the builder\<close>

datatype item =
    Raw "byte list"
  | Element u32 "item list"
  | Prefixed nat "item list"

primrec encode_item :: "item \<Rightarrow> byte list" where
  "encode_item (Raw x) = x"
| "encode_item (Element t is) = der_element t (concat (map encode_item is))"
| "encode_item (Prefixed k is) =
     be_bytes k (length (concat (map encode_item is))) @ concat (map encode_item is)"

definition encode_items :: "item list \<Rightarrow> byte list" where
  "encode_items is = concat (map encode_item is)"

primrec item_ok :: "item \<Rightarrow> bool" where
  "item_ok (Raw x) = (length x < 2 ^ 63)"
| "item_ok (Element t is) = (list_all item_ok is \<and> length (concat (map encode_item is)) \<le> 0xfffffffe)"
| "item_ok (Prefixed k is) =
     (list_all item_ok is \<and> k \<in> {1, 2, 3} \<and> length (concat (map encode_item is)) < 256 ^ k)"

fun build_item :: "libc_malloc \<Rightarrow> nat \<Rightarrow> item \<Rightarrow> cbb \<Rightarrow> bool \<times> cbb"
  and build_items :: "libc_malloc \<Rightarrow> nat \<Rightarrow> item list \<Rightarrow> cbb \<Rightarrow> bool \<times> cbb" where
  "build_item m d (Raw x) st = CBB_add_bytes m d x st"
| "build_item m d (Element t is) st =
     and_then (CBB_add_asn1 m d t st) (\<lambda>st. and_then (build_items m (Suc d) is st) (CBB_flush m d))"
| "build_item m d (Prefixed k is) st =
     and_then (if k = 1 then CBB_add_u8_length_prefixed m d st
               else if k = 2 then CBB_add_u16_length_prefixed m d st
               else CBB_add_u24_length_prefixed m d st)
       (\<lambda>st. and_then (build_items m (Suc d) is st) (CBB_flush m d))"
| "build_items m d [] st = (True, st)"
| "build_items m d (i # is) st = and_then (build_item m d i st) (build_items m d is)"

lemma appends_build_list:
  assumes "malloc_ok m" "\<And>i. i \<in> set is \<Longrightarrow> appends m d (build_item m d i) (encode_item i)"
  shows "appends m d (build_items m d is) (encode_items is)"
  using assms(2)
proof (induction "is")
  case Nil
  then show ?case using appends_skip [of m d] by (simp add: build_items.simps(1) [abs_def] encode_items_def)
next
  case (Cons i "is")
  have "appends m d (\<lambda>st. and_then (build_item m d i st) (build_items m d is)) (encode_item i @ encode_items is)"
    using Cons by (intro appends_seq) auto
  then show ?case by (simp add: build_items.simps(2) [abs_def] encode_items_def)
qed

lemma appends_build_item:
  assumes m: "malloc_ok m"
  shows "item_ok i \<Longrightarrow> appends m d (build_item m d i) (encode_item i)"
proof (induction i arbitrary: d)
  case (Raw x)
  then show ?case using appends_add_bytes [OF m] by (simp add: build_item.simps(1) [abs_def])
next
  case (Element t "is")
  then have "appends m (Suc d) (build_items m (Suc d) is) (encode_items is)"
    by (intro appends_build_list m) (auto simp: list_all_iff)
  from appends_asn1_child [OF m this] Element.prems show ?case
    by (simp add: build_item.simps(2) [abs_def] encode_items_def)
next
  case (Prefixed k "is")
  then have *: "appends m (Suc d) (build_items m (Suc d) is) (encode_items is)"
    by (intro appends_build_list m) (auto simp: list_all_iff)
  have o: "(if k = 1 then CBB_add_u8_length_prefixed m d st
               else if k = 2 then CBB_add_u16_length_prefixed m d st
               else CBB_add_u24_length_prefixed m d st) = cbb_add_length_prefixed m d k st" for st
    using Prefixed.prems by (auto simp: CBB_add_u8_length_prefixed_def CBB_add_u16_length_prefixed_def
        CBB_add_u24_length_prefixed_def)
  have k: "1 \<le> k" "k \<le> 8" using Prefixed.prems by auto
  from appends_length_prefixed_child [OF m * k] Prefixed.prems show ?case
    unfolding build_item.simps(3) [abs_def] o by (simp add: encode_items_def)
qed

lemma appends_build_items:
  "malloc_ok m \<Longrightarrow> list_all item_ok is \<Longrightarrow> appends m d (build_items m d is) (encode_items is)"
  by (intro appends_build_list appends_build_item) (auto simp: list_all_iff)

lemma CBB_init_success:
  assumes "\<forall>k \<le> n + 40. m k \<noteq> None" "n < 2 ^ 62"
  shows "\<exists>st. CBB_init m n = (True, st)"
proof -
  have "OPENSSL_malloc m n \<noteq> None" "OPENSSL_malloc m sizeof_cbb_buffer \<noteq> None"
    using assms by (auto simp: OPENSSL_malloc_def OPENSSL_MALLOC_PREFIX_def sizeof_cbb_buffer_def split: option.splits)
  then show ?thesis by (auto simp: CBB_init_def cbb_init_def Let_def)
qed

lemma appends_run:
  assumes m: "malloc_ok m" and f: "appends m 0 f z" and rep: "represents st ([], [])"
  shows "f st = (True, st') \<Longrightarrow> CBB_finish m 0 True True st' = (Some (Some data, Some n), st'') \<Longrightarrow>
      n = length z \<and> take n data = z"
    and "avail_at m st (length z) \<Longrightarrow>
      \<exists>st' data st''. f st = (True, st') \<and>
        CBB_finish m 0 True True st' = (Some (Some data, Some (length z)), st'') \<and> take (length z) data = z"
proof -
  have imp: "implements m f ([], []) (Some (z, []))" using appendsD [OF f, of "([], [])"] by simp
  have fl: "doc_flush 0 (z, []) = Some (z, [])" by simp
  show "n = length z \<and> take n data = z" 
    if "f st = (True, st')" "CBB_finish m 0 True True st' = (Some (Some data, Some n), st'')"
  proof -
    from implements_Some [OF imp rep] that(1) have "represents st' (z, [])" by simp
    from finish_correct(1) [OF m this that(2)] fl show ?thesis by auto
  qed
  show "\<exists>st' data st''. f st = (True, st') \<and>
        CBB_finish m 0 True True st' = (Some (Some data, Some (length z)), st'') \<and> take (length z) data = z"
    if av: "avail_at m st (length z)"
  proof -
    have "doc_len (z, []) \<le> length z" by (simp add: doc_len_def doc_content_def)
    from implements_avail [OF imp rep av this] obtain st' where st': "f st = (True, st')" "avail_at m st' (length z)"
      by (cases "f st") auto
    from implements_Some [OF imp rep] st' have "represents st' (z, [])" by simp
    from finish_correct(3) [OF m this fl st'(2)] st' show ?thesis by auto
  qed
qed

subsection \<open>Errors are sticky\<close>

definition failed :: "cbb \<Rightarrow> bool" where
  "failed st \<longleftrightarrow> (case base st of None \<Rightarrow> True | Some b \<Rightarrow> error b)"

lemma flush_failed: "failed st \<Longrightarrow> CBB_flush m d st = (False, st)"
proof -
  assume f: "failed st"
  have "cbb_flush m b cs = (False, b, cs)" if "error b" for b cs
    using that by (cases cs) auto
  with f show ?thesis
    by (auto simp: failed_def CBB_flush_def split: option.splits)
qed

lemma flush_False_failed: "CBB_flush m d st = (False, st') \<Longrightarrow> d \<le> length (children st) \<Longrightarrow> failed st'"
  by (auto simp: CBB_flush_def failed_def split: option.splits prod.splits if_splits dest: cbb_flush_error)

lemma ops_failed:
  assumes "failed st"
  shows "CBB_add_bytes m d data st = (False, st)" "cbb_add_u m d v n st = (False, st)"
    "cbb_add_length_prefixed m d k st = (False, st)" "CBB_add_asn1 m d t st = (False, st)"
    "CBB_add_space m d k st = (False, st)" "CBB_reserve m d k st = (False, st)"
    "CBB_finish m d out_data out_len st = (None, st)"
  using flush_failed [OF assms]
  by (simp_all add: CBB_add_bytes_def cbb_add_u_def cbb_add_length_prefixed_def CBB_add_asn1_def
      CBB_add_space_def CBB_reserve_def CBB_finish_def and_then_def)

lemma and_then_False:
  "and_then r f = (False, s) \<longleftrightarrow> r = (False, s) \<or> (\<exists>s1. r = (True, s1) \<and> f s1 = (False, s))"
  by (auto simp: and_then_def split: prod.splits)

lemma on_base_failed:
  "on_base f st = (False, st') \<Longrightarrow> (\<And>b b'. f b = (False, b') \<Longrightarrow> error b') \<Longrightarrow> failed st'"
  by (auto simp: on_base_def failed_def split: option.splits prod.splits)

lemma on_base_True: "on_base (\<lambda>b. (True, f b)) st = (False, st') \<Longrightarrow> failed st'"
  by (auto simp: on_base_def failed_def split: option.splits)

lemma on_add_failed: "on_base (\<lambda>b. cbb_buffer_add m b n) st = (False, st') \<Longrightarrow> failed st'"
  by (erule on_base_failed) (erule add_error)

lemma add_u_error: "cbb_buffer_add_u m b v n = (False, b') \<Longrightarrow> error b'"
  unfolding cbb_buffer_add_u_def
  by (cases "n = 0"; cases "cbb_buffer_add m b n"; cases "store_be (buf (snd (cbb_buffer_add m b n))) (blen b) n (unat v)")
     (auto simp: and_then_def dest: add_error split: if_splits)

lemma on_add_u_failed: "on_base (\<lambda>b. cbb_buffer_add_u m b v n) st = (False, st') \<Longrightarrow> failed st'"
  by (erule on_base_failed) (erule add_u_error)

lemma ops_fail_permanently:
  assumes d: "d \<le> length (children st)"
  shows "CBB_add_bytes m d data st = (False, st') \<Longrightarrow> failed st'"
    "cbb_add_u m d v n st = (False, st') \<Longrightarrow> failed st'"
    "CBB_add_space m d k st = (False, st') \<Longrightarrow> failed st'"
    "cbb_add_length_prefixed m d k st = (False, st') \<Longrightarrow> failed st'"
  using d
  by (auto simp: CBB_add_bytes_def cbb_add_u_def CBB_add_space_def cbb_add_length_prefixed_def and_then_False Let_def
      dest: flush_False_failed on_base_True on_add_failed on_add_u_failed)

subsection \<open>Fixed buffers never grow\<close>

definition fixed_buffer :: "nat \<Rightarrow> cbb_buffer \<Rightarrow> bool" where
  "fixed_buffer L b \<longleftrightarrow> \<not> can_resize b \<and> cap b = L"

definition fixed :: "nat \<Rightarrow> cbb \<Rightarrow> bool" where
  "fixed L st \<longleftrightarrow> (\<exists>b. base st = Some b \<and> fixed_buffer L b)"

definition keeps_fixed :: "(cbb \<Rightarrow> bool \<times> cbb) \<Rightarrow> bool" where
  "keeps_fixed f \<longleftrightarrow> (\<forall>L st. fixed L st \<longrightarrow> fixed L (snd (f st)))"

named_theorems keeps

lemma fixed_buffer_updates [simp]:
  "fixed_buffer L (b\<lparr>buf := x\<rparr>) = fixed_buffer L b"
  "fixed_buffer L (b\<lparr>blen := n\<rparr>) = fixed_buffer L b"
  "fixed_buffer L (b\<lparr>error := e\<rparr>) = fixed_buffer L b"
  by (simp_all add: fixed_buffer_def)

lemma fixed_reserve: "fixed_buffer L b \<Longrightarrow> cbb_buffer_reserve m b n = (ok, b') \<Longrightarrow> fixed_buffer L b'"
  by (auto simp: cbb_buffer_reserve_def Let_def fixed_buffer_def split: if_splits option.splits)

lemma fixed_add: "fixed_buffer L b \<Longrightarrow> cbb_buffer_add m b n = (ok, b') \<Longrightarrow> fixed_buffer L b'"
  by (auto simp: cbb_buffer_add_def and_then_def dest: fixed_reserve split: prod.splits if_splits)

lemma fixed_add_u: "fixed_buffer L b \<Longrightarrow> cbb_buffer_add_u m b v n = (ok, b') \<Longrightarrow> fixed_buffer L b'"
proof -
  assume f: "fixed_buffer L b" and r: "cbb_buffer_add_u m b v n = (ok, b')"
  obtain ok1 b1 where a: "cbb_buffer_add m b n = (ok1, b1)" by fastforce
  obtain bs w where s: "store_be (buf b1) (blen b) n (unat v) = (bs, w)" by fastforce
  from fixed_add [OF f a] r f show ?thesis
    by (auto simp: cbb_buffer_add_u_def and_then_def a s split: if_splits)
qed

lemma fixed_write_prefix:
  assumes f: "fixed_buffer L b" and r: "cbb_write_prefix m b c cs = (ok, b', c')"
  shows "fixed_buffer L b'"
proof -
  have wl: "fixed_buffer L b1" if "write_asn1_length m b c cs n = (r1, b1, c1)" for n r1 b1 c1
  proof (cases "asn1_len_parts n")
    case None
    then show ?thesis using that f by (simp add: write_asn1_length_def)
  next
    case (Some p)
    obtain k ib n' where p: "p = (k, ib, n')" by (metis prod_cases3)
    obtain ok2 b2 where a: "cbb_buffer_add m b (k - 1) = (ok2, b2)" by fastforce
    have "fixed_buffer L b2" by (rule fixed_add [OF f a])
    then show ?thesis using that f Some p a
      by (cases "k = 1"; cases ok2) (auto simp: write_asn1_length_def and_then_def)
  qed
  obtain r1 b1 c1 where s: "(if pending_is_asn1 c then write_asn1_length m b c cs (blen b - cs) else (Some (blen b - cs), b, c)) = (r1, b1, c1)"
    by (metis prod_cases3)
  have "fixed_buffer L b1" using s wl f by (auto split: if_splits)
  then show ?thesis using r unfolding cbb_write_prefix_def Let_def s
    by (auto split: option.splits prod.splits if_splits)
qed

lemma fixed_cbb_flush: "fixed_buffer L b \<Longrightarrow> cbb_flush m b cs = (ok, b', cs') \<Longrightarrow> fixed_buffer L b'"
proof (induction m b cs arbitrary: ok b' cs' rule: cbb_flush.induct)
  case (2 m b c cs)
  show ?case
  proof (cases "error b \<or> pending_len_len c = 0")
    case True
    with 2 show ?thesis by (auto split: if_splits)
  next
    case False
    obtain ok1 b1 cs1 where f: "cbb_flush m b cs = (ok1, b1, cs1)" by (metis prod_cases3)
    have f1: "fixed_buffer L b1" using "2.IH" False "2.prems"(1) f by auto
    obtain ok2 b2 c2 where w: "cbb_write_prefix m b1 c ((offset c + pending_len_len c) mod 2 ^ 64) = (ok2, b2, c2)"
      by (metis prod_cases3)
    from fixed_write_prefix [OF f1 w] f1 "2.prems"(2) False show ?thesis
      by (auto simp: f w [simplified] Let_def split: if_splits)
  qed
qed (auto split: if_splits)

lemma keeps_fixedI: "(\<And>L st. fixed L st \<Longrightarrow> fixed L (snd (f st))) \<Longrightarrow> keeps_fixed f"
  by (simp add: keeps_fixed_def)

lemma keeps_flush [keeps]: "keeps_fixed (CBB_flush m d)"
  by (rule keeps_fixedI) (auto simp: fixed_def CBB_flush_def dest: fixed_cbb_flush split: option.splits prod.splits if_splits)

lemma keeps_and_then [keeps]: "keeps_fixed f \<Longrightarrow> keeps_fixed g \<Longrightarrow> keeps_fixed (\<lambda>st. and_then (f st) g)"
  by (auto simp: keeps_fixed_def and_then_def split: prod.splits)
     (metis prod.collapse prod.inject snd_conv)+

lemma keeps_on_base:
  "(\<And>L b ok b'. fixed_buffer L b \<Longrightarrow> f b = (ok, b') \<Longrightarrow> fixed_buffer L b') \<Longrightarrow> keeps_fixed (on_base f)"
  by (rule keeps_fixedI) (auto simp: fixed_def on_base_def split: option.splits prod.splits)

lemma keeps_True [keeps]: "keeps_fixed (\<lambda>st. (True, st))"
  by (simp add: keeps_fixed_def)

lemma keeps_open [keeps]: "keeps_fixed (\<lambda>st. (True, cbb_open d c st))"
  by (simp add: keeps_fixed_def fixed_def cbb_open_def)

lemma keeps_let: "(\<And>x. keeps_fixed (f x)) \<Longrightarrow> keeps_fixed (\<lambda>st. f (g st) st)"
  by (simp add: keeps_fixed_def)

lemma keeps_prims [keeps]:
  "keeps_fixed (on_base (\<lambda>b. cbb_buffer_add m b n))"
  "keeps_fixed (on_base (\<lambda>b. cbb_buffer_add_u m b v n))"
  "keeps_fixed (on_base (\<lambda>b. (True, b\<lparr>buf := g b\<rparr>)))"
  by (rule keeps_on_base; auto dest: fixed_add fixed_add_u)+

lemma keeps_add_bytes [keeps]: "keeps_fixed (CBB_add_bytes m d x)"
  unfolding CBB_add_bytes_def [abs_def] Let_def
  by (intro keeps keeps_let [where g = cbb_blen and f = "\<lambda>off st. and_then (on_base (\<lambda>b. cbb_buffer_add m b (length x)) st)
      (on_base (\<lambda>b. (True, b\<lparr>buf := memcpy_at off x (buf b)\<rparr>)))"])

lemma keeps_add_u8 [keeps]: "keeps_fixed (CBB_add_u8 m d v)"
  unfolding CBB_add_u8_def [abs_def] cbb_add_u_def [abs_def] by (intro keeps)

lemma keeps_base128_emit: "keeps_fixed (base128_emit m d v k)"
proof (induction k)
  case 0
  show ?case by (simp add: base128_emit.simps(1) [abs_def] keeps)
next
  case (Suc k)
  then show ?case unfolding base128_emit.simps(2) [abs_def] Let_def by (intro keeps)
qed

lemma keeps_if: "keeps_fixed f \<Longrightarrow> keeps_fixed g \<Longrightarrow> keeps_fixed (\<lambda>st. if P then f st else g st)"
  by (cases P) auto

lemma keeps_add_asn1 [keeps]: "keeps_fixed (CBB_add_asn1 m d t)"
proof -
  have o: "keeps_fixed (\<lambda>st. and_then (CBB_add_u8 m d 0 st) (\<lambda>cbb.
      (True, cbb_open d \<lparr>offset = cbb_blen st, pending_len_len = 1, pending_is_asn1 = True\<rparr> cbb)))"
    by (rule keeps_let [where g = cbb_blen and f = "\<lambda>off st. and_then (CBB_add_u8 m d 0 st) (\<lambda>cbb.
      (True, cbb_open d \<lparr>offset = off, pending_len_len = 1, pending_is_asn1 = True\<rparr> cbb))"]) (intro keeps)
  show ?thesis
    unfolding CBB_add_asn1_def [abs_def] Let_def add_base128_integer_def [abs_def]
    by (intro keeps keeps_if keeps_base128_emit o)
qed

lemma keeps_add_length_prefixed [keeps]: "keeps_fixed (cbb_add_length_prefixed m d k)"
proof -
  have "keeps_fixed (\<lambda>st. and_then (on_base (\<lambda>b. cbb_buffer_add m b k) st) (\<lambda>cbb.
         and_then (on_base (\<lambda>b. (True, b\<lparr>buf := memset_at (cbb_blen st) k 0 (buf b)\<rparr>)) cbb) (\<lambda>cbb.
           (True, cbb_open d \<lparr>offset = cbb_blen st, pending_len_len = k, pending_is_asn1 = False\<rparr> cbb))))"
    by (rule keeps_let [where g = cbb_blen and f = "\<lambda>off st. and_then (on_base (\<lambda>b. cbb_buffer_add m b k) st) (\<lambda>cbb.
         and_then (on_base (\<lambda>b. (True, b\<lparr>buf := memset_at off k 0 (buf b)\<rparr>)) cbb) (\<lambda>cbb.
           (True, cbb_open d \<lparr>offset = off, pending_len_len = k, pending_is_asn1 = False\<rparr> cbb)))"]) (intro keeps)
  then show ?thesis unfolding cbb_add_length_prefixed_def [abs_def] Let_def by (intro keeps)
qed

lemma keeps_build_list:
  "(\<And>i. i \<in> set is \<Longrightarrow> keeps_fixed (build_item m d i)) \<Longrightarrow> keeps_fixed (build_items m d is)"
proof (induction "is")
  case Nil
  show ?case by (simp add: build_items.simps(1) [abs_def] keeps)
next
  case (Cons i "is")
  then show ?case unfolding build_items.simps(2) [abs_def] by (intro keeps) auto
qed

lemma keeps_build_item [keeps]: "keeps_fixed (build_item m d i)"
proof (induction i arbitrary: d)
  case (Raw x)
  show ?case unfolding build_item.simps(1) [abs_def] by (intro keeps)
next
  case (Element t "is")
  then show ?case unfolding build_item.simps(2) [abs_def] by (intro keeps keeps_build_list)
next
  case (Prefixed k "is")
  then show ?case unfolding build_item.simps(3) [abs_def] CBB_add_u8_length_prefixed_def
      CBB_add_u16_length_prefixed_def CBB_add_u24_length_prefixed_def
    by (intro keeps keeps_if keeps_build_list)
qed

lemma keeps_build_items [keeps]: "keeps_fixed (build_items m d is)"
  by (intro keeps_build_list keeps)

lemma finish_fixed:
  assumes "fixed L st" "represents st D" "malloc_ok m"
    and fin: "CBB_finish m 0 True True st = (Some (Some data, Some n), st')"
  shows "length data = L"
proof -
  obtain ok s where fl: "CBB_flush m 0 st = (ok, s)" by fastforce
  from fin fl have ok: ok by (auto simp: CBB_finish_def split: if_splits)
  note F = implements_flush [OF assms(3), of 0 D]
  have "doc_flush 0 D \<noteq> None"
  proof
    assume "doc_flush 0 D = None"
    from implements_None [OF F [unfolded this] assms(2)] fl ok show False by simp
  qed
  then obtain E where E: "doc_flush 0 D = Some E" by blast
  from implements_Some [OF F [unfolded E] assms(2)] fl ok have "represents s E" by simp
  then obtain b where b: "base s = Some b" "length (buf b) = cap b"
    by (auto simp: represents_def wf_buffer_def)
  have "fixed L s" using keeps_flush [of m 0] assms(1) fl unfolding keeps_fixed_def by fastforce
  with b have "cap b = L" by (auto simp: fixed_def fixed_buffer_def)
  moreover have "data = buf b" using fin fl ok b(1) by (auto simp: CBB_finish_def split: if_splits)
  ultimately show ?thesis using b(2) by simp
qed

lemma finish_outputs: "CBB_finish m 0 True True st = (Some out, st') \<Longrightarrow> \<exists>data n. out = (Some data, Some n)"
  by (auto simp: CBB_finish_def split: prod.splits if_splits option.splits)

lemma calloc_small_Some: "n < 2 ^ 63 \<Longrightarrow> calloc_small n \<noteq> None"
  by (simp add: calloc_small_def)

lemma CBB_init_calloc:
  "c < 2 ^ 62 \<Longrightarrow> \<exists>st. CBB_init calloc_small c = (True, st)"
  by (auto simp: CBB_init_def cbb_init_def OPENSSL_malloc_def OPENSSL_MALLOC_PREFIX_def calloc_small_def
      sizeof_cbb_buffer_def)

lemma CBB_init_fixed_calloc: "\<exists>st. CBB_init_fixed calloc_small b len = (True, st)"
  by (auto simp: CBB_init_fixed_def cbb_init_def OPENSSL_malloc_def OPENSSL_MALLOC_PREFIX_def calloc_small_def
      sizeof_cbb_buffer_def)


lemma be_bytes_2: "be_bytes 2 v = [word_of_nat (v div 256), word_of_nat v]"
  by (simp add: numeral_2_eq_2)

lemma represents_build:
  assumes "malloc_ok m" "list_all item_ok is" "represents st ([], [])" "build_items m 0 is st = (True, st')"
  shows "represents st' (encode_items is, [])"
  using implements_Some [OF appendsD [OF appends_build_items [OF assms(1,2)], of "([], [])" 0] assms(3)] assms(4)
  by simp

section \<open>Properties\<close>

text \<open>C1. The builder writes what the program says. A program that appends raw bytes, ASN.1 elements
  and length-prefixed vectors, nested to any depth, and then calls \<^verbatim>\<open>CBB_finish\<close>, gives exactly the
  encoding of the nested items, whatever the initial capacity: length prefixes are filled in when
  the child is flushed, and contents are moved up when the DER length needs more than one byte.
  It succeeds whenever the allocator has the memory the result needs (at most twice its length for
  one reallocation).\<close>

theorem builder_total:
  assumes "malloc_ok m" "list_all item_ok is" "length (encode_items is) < 2 ^ 62"
    and "\<forall>k \<le> 2 * length (encode_items is) + 8. m k \<noteq> None"
    and "CBB_init m c = (True, st)" "c < 2 ^ 63"
  shows "\<exists>st' data st''. build_items m 0 is st = (True, st') \<and>
    CBB_finish m 0 True True st' = (Some (Some data, Some (length (encode_items is))), st'') \<and>
    take (length (encode_items is)) data = encode_items is"
  using appends_run(2) [OF assms(1) appends_build_items [OF assms(1,2)] represents_init [OF assms(1,5,6)]
      avail_init [OF assms(5,3,4)]] .

theorem builder_total_witness:
  "\<exists>st st' data st''. CBB_init calloc_small 0 = (True, st) \<and>
    build_items calloc_small 0 [Element 0x20000010 [Element 2 [Raw [5]], Prefixed 2 [Raw [7, 8]]]] st = (True, st') \<and>
    CBB_finish calloc_small 0 True True st' = (Some (Some data, Some 9), st'') \<and>
    take 9 data = [0x30, 7, 2, 1, 5, 0, 2, 7, 8]"
proof -
  let ?is = "[Element 0x20000010 [Element 2 [Raw [5]], Prefixed 2 [Raw [7, 8]]]]"
  have enc: "encode_items ?is = [0x30, 7, 2, 1, 5, 0, 2, 7, 8]"
    by (simp add: encode_items_def der_element_def der_header_def der_tag_def tag_num_def tag_class_def
        der_length_def be_bytes_2)
  have len: "length (encode_items ?is) = 9" by (simp add: enc)
  obtain st where st: "CBB_init calloc_small 0 = (True, st)" using CBB_init_calloc [of 0] by auto
  have "\<exists>st' data st''. build_items calloc_small 0 ?is st = (True, st') \<and>
    CBB_finish calloc_small 0 True True st' = (Some (Some data, Some (length (encode_items ?is))), st'') \<and>
    take (length (encode_items ?is)) data = encode_items ?is"
  proof (rule builder_total [OF _ _ _ _ st])
    show "list_all item_ok ?is"
      by (simp add: der_element_def der_header_def der_tag_def tag_num_def tag_class_def der_length_def be_bytes_2)
  qed (auto simp: enc calloc_small_def)
  with st show ?thesis unfolding len unfolding enc by blast
qed


text \<open>C19. A fixed buffer is never overrun and never wasted. Building into a caller's buffer of
  \<open>len\<close> bytes with \<^verbatim>\<open>CBB_init_fixed\<close> succeeds if and only if the encoding fits, and then the buffer
  holds it from its start; the buffer returned is the caller's, still \<open>len\<close> bytes long.\<close>

theorem builder_fixed_exact:
  assumes "malloc_ok m" "list_all item_ok is" "length (encode_items is) < 2 ^ 62"
    and "CBB_init_fixed m b len = (True, st)" "length b = len" "len < 2 ^ 63"
  shows "((\<exists>st' out st''. build_items m 0 is st = (True, st') \<and>
        CBB_finish m 0 True True st' = (Some out, st'')) \<longleftrightarrow> length (encode_items is) \<le> len) \<and>
    (\<forall>st' st'' data n. build_items m 0 is st = (True, st') \<longrightarrow>
        CBB_finish m 0 True True st' = (Some (Some data, Some n), st'') \<longrightarrow>
        n = length (encode_items is) \<and> take n data = encode_items is \<and> length data = len)"
proof -
  note rep = represents_init_fixed [OF assms(4,5,6)]
  note run = appends_run [OF assms(1) appends_build_items [OF assms(1,2)] rep(1)]
  have fx: "fixed len st" using assms(4)
    by (auto simp: CBB_init_fixed_def cbb_init_def CBB_zero_def fixed_def fixed_buffer_def
        split: if_splits option.splits prod.splits)
  have L: "n = length (encode_items is) \<and> take n data = encode_items is \<and> length data = len"
    if b: "build_items m 0 is st = (True, st')"
      and f: "CBB_finish m 0 True True st' = (Some (Some data, Some n), st'')" for st' st'' data n
  proof -
    have "fixed len st'" using keeps_build_items [of m 0 "is"] fx b unfolding keeps_fixed_def by fastforce
    from finish_fixed [OF this represents_build [OF assms(1,2) rep(1) b] assms(1) f] run(1) [OF b f]
    show ?thesis by blast
  qed
  have "length (encode_items is) \<le> len"
    if b: "build_items m 0 is st = (True, st')" and f: "CBB_finish m 0 True True st' = (Some out, st'')" for st' st'' out
  proof -
    obtain data n where "out = (Some data, Some n)" using finish_outputs [OF f] by blast
    with L [OF b] f have "length data = len" "take (length (encode_items is)) data = encode_items is" by auto
    then show ?thesis by (metis length_take min.cobounded1)
  qed
  moreover have "\<exists>st' out st''. build_items m 0 is st = (True, st') \<and> CBB_finish m 0 True True st' = (Some out, st'')"
    if "length (encode_items is) \<le> len"
    using run(2) [OF rep(2) [OF assms(3) that]] by blast
  ultimately show ?thesis using L by blast
qed

theorem builder_fixed_exact_witness:
  "\<exists>st. CBB_init_fixed calloc_small [9, 9, 9, 9] 4 = (True, st) \<and>
     (\<exists>st' data st''. build_items calloc_small 0 [Prefixed 1 [Raw [7, 8]]] st = (True, st') \<and>
        CBB_finish calloc_small 0 True True st' = (Some (Some data, Some 3), st'') \<and>
        take 3 data = [2, 7, 8] \<and> length data = 4)"
proof -
  let ?is = "[Prefixed 1 [Raw [7, 8]]]"
  have enc: "encode_items ?is = [2, 7, 8]" by (simp add: encode_items_def)
  obtain st where st: "CBB_init_fixed calloc_small [9, 9, 9, 9] 4 = (True, st)"
    using CBB_init_fixed_calloc [of "[9, 9, 9, 9]" 4] by auto
  have len: "length (encode_items ?is) = 3" by (simp only: enc) simp
  have ok: "list_all item_ok ?is" "length (encode_items ?is) < 2 ^ 62" "length [9, 9, 9, 9::byte] = 4" "(4::nat) < 2 ^ 63"
    by (simp_all only: enc len) simp_all
  note T = builder_fixed_exact [OF calloc_small_ok ok(1,2) st ok(3,4), unfolded len, unfolded enc]
  have "(3::nat) \<le> 4" by simp
  with T obtain st' out st'' where r: "build_items calloc_small 0 ?is st = (True, st')"
    "CBB_finish calloc_small 0 True True st' = (Some out, st'')" by blast
  obtain data n where o: "out = (Some data, Some n)" using finish_outputs [OF r(2)] by blast
  from r(2) have "n = 3 \<and> take n data = [2, 7, 8] \<and> length data = 4" using T r(1) unfolding o by blast
  with st r show ?thesis unfolding o by blast
qed

text \<open>C21. INTEGERs survive the round trip. Whatever 64-bit value is written with
  \<^verbatim>\<open>CBB_add_asn1_uint64\<close> or \<^verbatim>\<open>CBB_add_asn1_int64\<close>, a completed buffer holds bytes from which the
  matching reader gets the value back, leaving exactly what follows.\<close>

theorem asn1_integers_roundtrip:
  assumes "malloc_ok m" "CBB_init m c = (True, st)" "c < 2 ^ 63"
    and "CBB_add_asn1_uint64 m 0 u st = (True, st1)" "CBB_add_asn1_int64 m 0 i st1 = (True, st2)"
    and "CBB_finish m 0 True True st2 = (Some (Some data, Some n), st3)"
  shows "\<exists>mid. CBS_get_asn1_uint64 (take n data @ rest) = (Some u, mid) \<and>
    CBS_get_asn1_int64 mid = (Some i, rest)"
proof -
  let ?f = "\<lambda>st. and_then (CBB_add_asn1_uint64 m 0 u st) (CBB_add_asn1_int64 m 0 i)"
  have f: "appends m 0 ?f (der_element CBS_ASN1_INTEGER (der_uint u) @ der_element CBS_ASN1_INTEGER (der_int i))"
    by (intro appends_seq appends_asn1_uint64 appends_asn1_int64 assms(1))
  have "?f st = (True, st2)" using assms(4,5) by (simp add: and_then_def)
  from appends_run(1) [OF assms(1) f represents_init [OF assms(1-3)] this assms(6)]
  have "take n data = der_element CBS_ASN1_INTEGER (der_uint u) @ der_element CBS_ASN1_INTEGER (der_int i)"
    by blast
  then have "take n data @ rest = der_element CBS_ASN1_INTEGER (der_uint u) @
      der_element CBS_ASN1_INTEGER (der_int i) @ rest" by (simp only: append.assoc)
  then show ?thesis
    using asn1_uint64.roundtrip [of u] asn1_int64.roundtrip [of i rest] by simp
qed

theorem asn1_integers_roundtrip_witness:
  "\<exists>st st1 st2 data n st3 mid. CBB_init calloc_small 0 = (True, st) \<and>
     CBB_add_asn1_uint64 calloc_small 0 300 st = (True, st1) \<and>
     CBB_add_asn1_int64 calloc_small 0 (- 5) st1 = (True, st2) \<and>
     CBB_finish calloc_small 0 True True st2 = (Some (Some data, Some n), st3) \<and>
     CBS_get_asn1_uint64 (take n data @ [1]) = (Some 300, mid) \<and> CBS_get_asn1_int64 mid = (Some (- 5), [1])"
proof -
  let ?f = "\<lambda>st. and_then (CBB_add_asn1_uint64 calloc_small 0 300 st) (CBB_add_asn1_int64 calloc_small 0 (- 5))"
  let ?z = "der_element CBS_ASN1_INTEGER (der_uint 300) @ der_element CBS_ASN1_INTEGER (der_int (- 5))"
  have f: "appends calloc_small 0 ?f ?z"
    by (intro appends_seq appends_asn1_uint64 appends_asn1_int64) simp_all
  obtain st where st: "CBB_init calloc_small 0 = (True, st)" using CBB_init_calloc [of 0] by auto
  have "length ?z \<le> 50"
    using der_int_sval(3) [of "- 5"] length_der_uint(1) [of 300] length_der_tag(2) [of CBS_ASN1_INTEGER]
      length_der_length(2) [of "length (der_uint 300)"] length_der_length(2) [of "length (der_int (- 5))"]
    unfolding length_append length_der_element der_header_def by linarith
  then have "avail_at calloc_small st (length ?z)"
    by (intro avail_init [OF st]) (auto simp: calloc_small_def)
  from appends_run(2) [OF calloc_small_ok f represents_init [OF calloc_small_ok st] this]
  obtain st2 data n st3 where r: "?f st = (True, st2)"
    "CBB_finish calloc_small 0 True True st2 = (Some (Some data, Some n), st3)" by auto
  then obtain st1 where s: "CBB_add_asn1_uint64 calloc_small 0 300 st = (True, st1)"
    "CBB_add_asn1_int64 calloc_small 0 (- 5) st1 = (True, st2)"
    by (auto simp: and_then_def split: prod.splits if_splits)
  have "(0::nat) < 2 ^ 63" by simp
  from asn1_integers_roundtrip [OF calloc_small_ok st this s r(2), of "[1]"] st s r(2) show ?thesis by blast
qed



end
