(* ===== verification/Unicode.thy ===== *)
theory Unicode
  imports CbbItems
begin

text \<open>Code points, \<^verbatim>\<open>crypto/bytestring/unicode.c\<close>: validity, and reading and writing in UTF-8, Latin-1, UCS-2
  and UTF-32. \<open>utf8_bytes\<close> is the shortest encoding by arithmetic on the code point.\<close>

definition is_valid_code_point :: "u32 \<Rightarrow> bool" where
  "is_valid_code_point v \<longleftrightarrow>
     \<not> (v > 0x10ffff \<or> v AND 0xfffe = 0xfffe \<or> (v \<ge> 0xfdd0 \<and> v \<le> 0xfdef) \<or>
        (v \<ge> 0xd800 \<and> v \<le> 0xdfff))"

definition BOTTOM_BITS :: "nat \<Rightarrow> byte" where
  "BOTTOM_BITS n = ucast (push_bit n 1 - 1 :: u32)"

definition TOP_BITS :: "nat \<Rightarrow> byte" where
  "TOP_BITS n = NOT (BOTTOM_BITS (8 - n))"

fun utf8_tail :: "nat \<Rightarrow> u32 \<Rightarrow> cbs \<Rightarrow> u32 option \<times> cbs" where
  "utf8_tail 0 v cbs = (Some v, cbs)"
| "utf8_tail (Suc len) v cbs =
     (case CBS_get_u8 cbs of
        (None, cbs) \<Rightarrow> (None, cbs)
      | (Some c, cbs) \<Rightarrow>
          if c AND TOP_BITS 2 \<noteq> TOP_BITS 1 then (None, cbs)
          else utf8_tail len (push_bit 6 v OR ucast (c AND BOTTOM_BITS 6)) cbs)"

definition cbs_get_utf8 :: "cbs \<Rightarrow> u32 option \<times> cbs" where
  "cbs_get_utf8 cbs =
     (case CBS_get_u8 cbs of
        (None, cbs) \<Rightarrow> (None, cbs)
      | (Some c, cbs) \<Rightarrow>
          if c \<le> 0x7f then (Some (ucast c), cbs)
          else
            (case (if c AND TOP_BITS 3 = TOP_BITS 2 then Some (ucast (c AND BOTTOM_BITS 5), 1, 0x80)
                   else if c AND TOP_BITS 4 = TOP_BITS 3 then Some (ucast (c AND BOTTOM_BITS 4), 2, 0x800)
                   else if c AND TOP_BITS 5 = TOP_BITS 4 then Some (ucast (c AND BOTTOM_BITS 3), 3, 0x10000)
                   else None) of
               None \<Rightarrow> (None, cbs)
             | Some (v, len, lower_bound) \<Rightarrow>
                 (case utf8_tail len v cbs of
                    (None, cbs) \<Rightarrow> (None, cbs)
                  | (Some v, cbs) \<Rightarrow>
                      if \<not> is_valid_code_point v \<or> v < lower_bound then (None, cbs) else (Some v, cbs))))"

definition cbs_get_latin1 :: "cbs \<Rightarrow> u32 option \<times> cbs" where
  "cbs_get_latin1 cbs =
     (case CBS_get_u8 cbs of (None, cbs) \<Rightarrow> (None, cbs) | (Some c, cbs) \<Rightarrow> (Some (ucast c), cbs))"

definition cbs_get_ucs2_be :: "cbs \<Rightarrow> u32 option \<times> cbs" where
  "cbs_get_ucs2_be cbs =
     (case CBS_get_u16 cbs of
        (None, cbs) \<Rightarrow> (None, cbs)
      | (Some c, cbs) \<Rightarrow> if \<not> is_valid_code_point (ucast c) then (None, cbs) else (Some (ucast c), cbs))"

definition cbs_get_utf32_be :: "cbs \<Rightarrow> u32 option \<times> cbs" where
  "cbs_get_utf32_be cbs =
     (case CBS_get_u32 cbs of
        (None, cbs) \<Rightarrow> (None, cbs)
      | (Some u, cbs) \<Rightarrow> if is_valid_code_point u then (Some u, cbs) else (None, cbs))"

definition cbb_get_utf8_len :: "u32 \<Rightarrow> nat" where
  "cbb_get_utf8_len u = (if u \<le> 0x7f then 1 else if u \<le> 0x7ff then 2 else if u \<le> 0xffff then 3 else 4)"

definition cbb_add_utf8 :: "libc_malloc \<Rightarrow> nat \<Rightarrow> u32 \<Rightarrow> cbb \<Rightarrow> bool \<times> cbb" where
  "cbb_add_utf8 m d u cbb =
     (let top = (\<lambda>n w. ucast (ucast (TOP_BITS n) OR w :: u32));
          six = (\<lambda>w. w AND ucast (BOTTOM_BITS 6) :: u32)
      in if \<not> is_valid_code_point u then (False, cbb)
         else if u \<le> 0x7f then CBB_add_u8 m d (ucast u) cbb
         else if u \<le> 0x7ff then
           and_then (CBB_add_u8 m d (top 2 (drop_bit 6 u)) cbb) (CBB_add_u8 m d (top 1 (six u)))
         else if u \<le> 0xffff then
           and_then (CBB_add_u8 m d (top 3 (drop_bit 12 u)) cbb) (\<lambda>cbb.
             and_then (CBB_add_u8 m d (top 1 (six (drop_bit 6 u))) cbb)
               (CBB_add_u8 m d (top 1 (six u))))
         else if u \<le> 0x10ffff then
           and_then (CBB_add_u8 m d (top 4 (drop_bit 18 u)) cbb) (\<lambda>cbb.
             and_then (CBB_add_u8 m d (top 1 (six (drop_bit 12 u))) cbb) (\<lambda>cbb.
               and_then (CBB_add_u8 m d (top 1 (six (drop_bit 6 u))) cbb)
                 (CBB_add_u8 m d (top 1 (six u)))))
         else (False, cbb))"

definition cbb_add_latin1 :: "libc_malloc \<Rightarrow> nat \<Rightarrow> u32 \<Rightarrow> cbb \<Rightarrow> bool \<times> cbb" where
  "cbb_add_latin1 m d u cbb = (if u \<le> 0xff then CBB_add_u8 m d (ucast u) cbb else (False, cbb))"

definition cbb_add_ucs2_be :: "libc_malloc \<Rightarrow> nat \<Rightarrow> u32 \<Rightarrow> cbb \<Rightarrow> bool \<times> cbb" where
  "cbb_add_ucs2_be m d u cbb =
     (if u \<le> 0xffff \<and> is_valid_code_point u then CBB_add_u16 m d (ucast u) cbb else (False, cbb))"

definition cbb_add_utf32_be :: "libc_malloc \<Rightarrow> nat \<Rightarrow> u32 \<Rightarrow> cbb \<Rightarrow> bool \<times> cbb" where
  "cbb_add_utf32_be m d u cbb =
     (if is_valid_code_point u then CBB_add_u32 m d u cbb else (False, cbb))"

subsection \<open>Bits as arithmetic\<close>

lemma BOTTOM_BITS_mask: "n \<le> 8 \<Longrightarrow> BOTTOM_BITS n = mask n"
proof -
  assume "n \<le> 8"
  have "(push_bit n 1 - 1 :: u32) = mask n" by (simp add: mask_eq_exp_minus_1 push_bit_eq_mult)
  then show ?thesis unfolding BOTTOM_BITS_def by (simp only:) (rule bit_word_eqI, auto simp: bit_simps)
qed

lemma unat_and_bottom: "n \<le> 8 \<Longrightarrow> unat (c AND BOTTOM_BITS n) = unat c mod 2 ^ n"
  by (simp add: BOTTOM_BITS_mask flip: take_bit_eq_mask)
     (simp add: unsigned_take_bit_eq take_bit_nat_def)

lemma unat_and_top:
  assumes "n \<le> 8" shows "unat (c AND TOP_BITS n) = unat c div 2 ^ (8 - n) * 2 ^ (8 - n)"
proof -
  have "c AND TOP_BITS n = push_bit (8 - n) (drop_bit (8 - n) c)"
    unfolding TOP_BITS_def BOTTOM_BITS_mask [OF diff_le_self [of 8 n]]
    by (rule bit_word_eqI) (auto simp: bit_simps)
  moreover have "unat (drop_bit (8 - n) c) = unat c div 2 ^ (8 - n)"
    by (simp only: unat_drop_bit_eq) (simp add: drop_bit_eq_div)
  moreover have "unat c div 2 ^ (8 - n) * 2 ^ (8 - n) < 256"
    using unat_byte_less [of c] div_times_less_eq_dividend [of "unat c" "2 ^ (8 - n)"] by linarith
  moreover have "unat (push_bit (8 - n) (drop_bit (8 - n) c)) = unat (drop_bit (8 - n) c) * 2 ^ (8 - n) mod 256"
    by (simp only: unsigned_push_bit_eq) (simp add: push_bit_eq_mult take_bit_nat_def)
  ultimately show ?thesis by (simp only: mod_less)
qed

lemma unat_TOP_BITS: "unat (TOP_BITS 1) = 128" "unat (TOP_BITS 2) = 192" "unat (TOP_BITS 3) = 224" "unat (TOP_BITS 4) = 240"
  by (simp_all add: TOP_BITS_def BOTTOM_BITS_def push_bit_eq_mult)

lemma utf8_lead_bits:
  "c AND TOP_BITS 2 = TOP_BITS 1 \<longleftrightarrow> unat c div 64 = 2"
  "c AND TOP_BITS 3 = TOP_BITS 2 \<longleftrightarrow> unat c div 32 = 6"
  "c AND TOP_BITS 4 = TOP_BITS 3 \<longleftrightarrow> unat c div 16 = 14"
  "c AND TOP_BITS 5 = TOP_BITS 4 \<longleftrightarrow> unat c div 8 = 30"
  using unat_and_top [of 2 c] unat_and_top [of 3 c] unat_and_top [of 4 c] unat_and_top [of 5 c]
  unfolding byte_eq_iff unat_TOP_BITS by simp_all

definition utf8_conts :: "nat \<Rightarrow> nat \<Rightarrow> byte list" where
  "utf8_conts n w = map (\<lambda>i. word_of_nat (128 + w div 64 ^ i mod 64)) (rev [0..<n])"

lemma utf8_conts_simps [simp]:
  "utf8_conts 0 w = []"
  "utf8_conts (Suc n) w = word_of_nat (128 + w div 64 ^ n mod 64) # utf8_conts n w"
  by (simp_all add: utf8_conts_def)

lemma unat_push6:
  fixes v :: u32
  assumes "unat v < 2 ^ 26"
  shows "unat (push_bit 6 v OR ucast (c AND BOTTOM_BITS 6)) = unat v * 64 + unat c mod 64"
proof -
  have eq: "push_bit 6 v OR ucast (c AND BOTTOM_BITS 6) = push_bit 6 v + ucast (c AND BOTTOM_BITS 6)"
    by (rule disjunctive_add_eq_or [symmetric], rule bit_word_eqI) (auto simp: bit_simps BOTTOM_BITS_mask)
  have "unat (push_bit 6 v) = unat v * 64"
    using assms by (simp add: push_bit_eq_mult unat_word_ariths)
  moreover have "unat v * 64 + unat c mod 64 < 2 ^ 32"
  proof -
    have "unat c mod 64 < 64" by simp
    with assms show ?thesis by simp
  qed
  ultimately show ?thesis by (simp add: eq unat_word_ariths unat_and_bottom)
qed

lemma utf8_tail_iff:
  assumes "unat v * 64 ^ n + 64 ^ n \<le> 2 ^ 32"
  shows "utf8_tail n v c = (Some w, c') \<longleftrightarrow> unat v = unat w div 64 ^ n \<and> c = utf8_conts n (unat w) @ c'"
  using assms
proof (induction n arbitrary: v c)
  case 0
  then show ?case by (auto simp: word_unat_eq_iff)
next
  case (Suc n)
  let ?W = "unat w div 64 ^ n"
  have v26: "unat v < 2 ^ 26"
  proof -
    have "(64::nat) ^ 1 \<le> 64 ^ Suc n" by (intro power_increasing) simp_all
    then have "(unat v + 1) * 64 \<le> (unat v + 1) * 64 ^ Suc n" by (intro mult_left_mono) simp_all
    also have "\<dots> \<le> 2 ^ 32" using Suc.prems by (simp add: algebra_simps)
    finally show ?thesis by simp
  qed
  show ?case
  proof (cases c)
    case Nil
    then show ?thesis by simp
  next
    case (Cons b d)
    let ?v = "push_bit 6 v OR ucast (b AND BOTTOM_BITS 6)"
    have uv: "unat ?v = unat v * 64 + unat b mod 64" by (rule unat_push6 [OF v26])
    have "(unat v * 64 + unat b mod 64) * 64 ^ n + 64 ^ n \<le> (unat v * 64 + 63) * 64 ^ n + 64 ^ n"
    proof (intro add_right_mono mult_right_mono)
      have "unat b mod 64 < 64" by simp
      then show "unat v * 64 + unat b mod 64 \<le> unat v * 64 + 63" by linarith
    qed simp
    also have "\<dots> = unat v * 64 ^ Suc n + 64 ^ Suc n" by (simp add: algebra_simps)
    finally have IH: "utf8_tail n ?v d = (Some w, c') \<longleftrightarrow> unat ?v = ?W \<and> d = utf8_conts n (unat w) @ c'"
      using Suc.prems by (intro Suc.IH) (simp only: uv)
    have key: "unat b div 64 = 2 \<and> unat v * 64 + unat b mod 64 = ?W \<longleftrightarrow>
      unat v = ?W div 64 \<and> b = word_of_nat (128 + ?W mod 64)"
    proof
      assume *: "unat b div 64 = 2 \<and> unat v * 64 + unat b mod 64 = ?W"
      then have "?W div 64 = unat v" "?W mod 64 = unat b mod 64" by (auto simp flip: conjunct2 [OF *])
      moreover have "unat b = 128 + unat b mod 64" using * div_mult_mod_eq [of "unat b" 64] by simp
      ultimately show "unat v = ?W div 64 \<and> b = word_of_nat (128 + ?W mod 64)"
        by (metis word_of_nat_unat)
    next
      assume *: "unat v = ?W div 64 \<and> b = word_of_nat (128 + ?W mod 64)"
      have "128 + ?W mod 64 < 256" using mod_less_divisor [of 64 ?W] by linarith
      then have "unat b = 128 + ?W mod 64" using * by (simp only: unat_byte_of_nat mod_less)
      moreover have "(128 + k) div 64 = 2" "(128 + k) mod 64 = k" if "k < 64" for k :: nat
        using that mod_mult_self1 [of k 2 64] by (auto intro: div_nat_eqI simp: add.commute)
      then have "(128 + ?W mod 64) div 64 = 2" "(128 + ?W mod 64) mod 64 = ?W mod 64" by simp_all
      ultimately show "unat b div 64 = 2 \<and> unat v * 64 + unat b mod 64 = ?W"
        using * by simp
    qed
    have W: "?W div 64 = unat w div 64 ^ Suc n" by (simp add: div_mult2_eq [symmetric] mult.commute)
    have "utf8_tail (Suc n) v c = (Some w, c') \<longleftrightarrow> unat b div 64 = 2 \<and> utf8_tail n ?v d = (Some w, c')"
      by (simp add: Cons utf8_lead_bits [unfolded One_nat_def])
    also have "\<dots> \<longleftrightarrow> (unat b div 64 = 2 \<and> unat v * 64 + unat b mod 64 = ?W) \<and> d = utf8_conts n (unat w) @ c'"
      unfolding IH uv by blast
    also have "\<dots> \<longleftrightarrow> unat v = unat w div 64 ^ Suc n \<and> c = utf8_conts (Suc n) (unat w) @ c'"
      unfolding key W by (auto simp: Cons)
    finally show ?thesis .
  qed
qed

definition utf8_bytes :: "u32 \<Rightarrow> byte list" where
  "utf8_bytes u =
     (let n = unat u
      in if n < 0x80 then [word_of_nat n]
         else if n < 0x800 then word_of_nat (192 + n div 64) # utf8_conts 1 n
         else if n < 0x10000 then word_of_nat (224 + n div 64 ^ 2) # utf8_conts 2 n
         else word_of_nat (240 + n div 64 ^ 3) # utf8_conts 3 n)"

lemma is_valid_code_point_less: "is_valid_code_point u \<Longrightarrow> unat u < 0x110000"
  by (simp add: is_valid_code_point_def word_le_nat_alt word_less_nat_alt)

lemma unat_word32_small: "n < 2 ^ 32 \<Longrightarrow> unat (word_of_nat n :: u32) = n"
  by (simp add: unat_of_nat)

lemma byte_div_mod:
  assumes "0 < k" "k * q + k \<le> 256"
  shows "unat (b::byte) div k = q \<and> unat b mod k = w \<longleftrightarrow> w < k \<and> b = word_of_nat (k * q + w)"
proof
  assume *: "unat b div k = q \<and> unat b mod k = w"
  then have "unat b = k * q + w" using mult_div_mod_eq [of k "unat b"] by simp
  moreover have "w < k" using * assms(1) by auto
  ultimately show "w < k \<and> b = word_of_nat (k * q + w)" by (metis word_of_nat_unat)
next
  assume *: "w < k \<and> b = word_of_nat (k * q + w)"
  then have "k * q + w < 256" using assms(2) by linarith
  then have "unat b = k * q + w" using * by (simp only: unat_byte_of_nat mod_less)
  then show "unat b div k = q \<and> unat b mod k = w" using * assms(1) by simp
qed

lemma cbs_get_utf8_lead:
  assumes "128 \<le> unat b"
  shows "cbs_get_utf8 (b # c) =
    (case (if unat b div 32 = 6 then Some (word_of_nat (unat b mod 32), 1, 0x80)
           else if unat b div 16 = 14 then Some (word_of_nat (unat b mod 16), 2, 0x800)
           else if unat b div 8 = 30 then Some (word_of_nat (unat b mod 8), 3, 0x10000) else None) of
       None \<Rightarrow> (None, c)
     | Some (v, len, lower_bound) \<Rightarrow>
         (case utf8_tail len v c of
            (None, cbs) \<Rightarrow> (None, cbs)
          | (Some v, cbs) \<Rightarrow> if \<not> is_valid_code_point v \<or> v < lower_bound then (None, cbs) else (Some v, cbs)))"
proof -
  have w: "(ucast (b AND BOTTOM_BITS n) :: u32) = word_of_nat (unat b mod 2 ^ n)" if "n \<le> 8" for n
    using unat_and_bottom [OF that, of b] by (metis unat_ucast_simps(2) word_of_nat_unat)
  have "\<not> b \<le> 0x7f" using assms by (simp add: word_le_nat_alt)
  then show ?thesis
    using w [of 5] w [of 4] w [of 3]
    by (simp add: cbs_get_utf8_def utf8_lead_bits)
qed

lemma utf8_case:
  assumes k: "0 < k" "k \<le> 32" and n: "k * 64 ^ n \<le> 2 ^ 21" and q: "k * q + k \<le> 256" "128 \<le> k * q"
    and low: "low \<le> k * 64 ^ n"
  shows "(unat (b::byte) div k = q \<and> (case utf8_tail n (word_of_nat (unat b mod k)) c of
            (None, cbs) \<Rightarrow> (None, cbs)
          | (Some v, cbs) \<Rightarrow> if \<not> is_valid_code_point v \<or> v < word_of_nat low then (None, cbs) else (Some v, cbs)) = (Some u, c')) \<longleftrightarrow>
    is_valid_code_point u \<and> low \<le> unat u \<and> unat u < k * 64 ^ n \<and>
      b = word_of_nat (k * q + unat u div 64 ^ n) \<and> c = utf8_conts n (unat u) @ c'"
proof -
  let ?v = "word_of_nat (unat b mod k) :: u32"
  have mk: "unat b mod k < k" using k by simp
  have "(32::nat) < 2 ^ 32" by simp
  with mk k have "unat b mod k < 2 ^ 32" by linarith
  then have uv: "unat ?v = unat b mod k" by (rule unat_word32_small)
  have "(unat b mod k + 1) * 64 ^ n \<le> k * 64 ^ n" using mk by (intro mult_right_mono) simp_all
  then have bound: "unat ?v * 64 ^ n + 64 ^ n \<le> 2 ^ 32" using n uv by (simp add: algebra_simps)
  have lw: "u < word_of_nat low \<longleftrightarrow> unat u < low" for u :: u32
    using low n by (simp add: word_less_nat_alt unat_of_nat)
  have "(case utf8_tail n ?v c of
            (None, cbs) \<Rightarrow> (None, cbs)
          | (Some v, cbs) \<Rightarrow> if \<not> is_valid_code_point v \<or> v < word_of_nat low then (None, cbs) else (Some v, cbs)) = (Some u, c') \<longleftrightarrow>
      utf8_tail n ?v c = (Some u, c') \<and> is_valid_code_point u \<and> low \<le> unat u"
    by (auto simp: lw split: prod.splits option.splits if_splits)
  also have "\<dots> \<longleftrightarrow> unat b mod k = unat u div 64 ^ n \<and> c = utf8_conts n (unat u) @ c' \<and> is_valid_code_point u \<and> low \<le> unat u"
    using utf8_tail_iff [OF bound, of c u c'] uv by auto
  finally have E: "(case utf8_tail n ?v c of
            (None, cbs) \<Rightarrow> (None, cbs)
          | (Some v, cbs) \<Rightarrow> if \<not> is_valid_code_point v \<or> v < word_of_nat low then (None, cbs) else (Some v, cbs)) = (Some u, c') \<longleftrightarrow>
      unat b mod k = unat u div 64 ^ n \<and> c = utf8_conts n (unat u) @ c' \<and> is_valid_code_point u \<and> low \<le> unat u" .
  have lt: "unat u div 64 ^ n < k \<longleftrightarrow> unat u < k * 64 ^ n"
    by (simp add: div_less_iff_less_mult)
  show ?thesis
    unfolding E using byte_div_mod [OF k(1) q(1), of b "unat u div 64 ^ n"] lt by blast
qed

lemma is_valid_ascii: "unat u < 128 \<Longrightarrow> is_valid_code_point u"
proof -
  assume u: "unat u < 128"
  have "u AND 0xfffe \<le> u" by (rule word_and_le2)
  then have "unat (u AND 0xfffe) < 128" using u by (simp add: word_le_nat_alt)
  then have "u AND 0xfffe \<noteq> 0xfffe" by auto
  then show ?thesis using u by (simp add: is_valid_code_point_def word_le_nat_alt word_less_nat_alt)
qed

lemma utf8_bytes_split:
  "utf8_bytes u @ r = b # d \<longleftrightarrow>
    (unat u < 0x80 \<and> b = word_of_nat (unat u) \<and> d = r) \<or>
    (0x80 \<le> unat u \<and> unat u < 32 * 64 ^ 1 \<and> b = word_of_nat (32 * 6 + unat u div 64 ^ 1) \<and> d = utf8_conts 1 (unat u) @ r) \<or>
    (0x800 \<le> unat u \<and> unat u < 16 * 64 ^ 2 \<and> b = word_of_nat (16 * 14 + unat u div 64 ^ 2) \<and> d = utf8_conts 2 (unat u) @ r) \<or>
    (0x10000 \<le> unat u \<and> b = word_of_nat (8 * 30 + unat u div 64 ^ 3) \<and> d = utf8_conts 3 (unat u) @ r)"
  unfolding utf8_bytes_def Let_def
  by (auto simp del: utf8_conts_simps of_nat_add split: if_splits)

lemma cbs_get_utf8_iff:
  "cbs_get_utf8 c = (Some u, c') \<longleftrightarrow> is_valid_code_point u \<and> c = utf8_bytes u @ c'"
proof (cases c)
  case Nil
  then show ?thesis by (simp add: cbs_get_utf8_def utf8_bytes_def Let_def)
next
  case (Cons b d)
  have lead: "k * q \<le> unat (word_of_nat (k * q + w) :: byte)" if "k * q + k \<le> 256" "w < k" for k q w :: nat
  proof -
    have "k * q + w < 256" using that by linarith
    then show ?thesis by (simp only: unat_byte_of_nat mod_less)
  qed
  show ?thesis
  proof (cases "unat b < 128")
    case True
    then have b: "b \<le> 0x7f" by (simp add: word_le_nat_alt)
    have "b # d = utf8_bytes u @ c' \<longleftrightarrow> unat u < 128 \<and> b = word_of_nat (unat u) \<and> d = c'" if v: "is_valid_code_point u"
    proof -
      have u: "unat u < 8 * 64 ^ 3" using is_valid_code_point_less [OF v] by simp
      have "b \<noteq> word_of_nat (32 * 6 + unat u div 64 ^ 1)" if "unat u < 32 * 64 ^ 1"
        using lead [of 32 6 "unat u div 64 ^ 1"] that True by (auto simp: div_less_iff_less_mult)
      moreover have "b \<noteq> word_of_nat (16 * 14 + unat u div 64 ^ 2)" if "unat u < 16 * 64 ^ 2"
        using lead [of 16 14 "unat u div 64 ^ 2"] that True by (auto simp: div_less_iff_less_mult)
      moreover have "b \<noteq> word_of_nat (8 * 30 + unat u div 64 ^ 3)"
        using lead [of 8 30 "unat u div 64 ^ 3"] u True by (auto simp: div_less_iff_less_mult)
      ultimately show ?thesis using utf8_bytes_split [of u c' b d] by metis
    qed
    moreover have "u = ucast b \<longleftrightarrow> unat u < 128 \<and> b = word_of_nat (unat u)"
      using True by (auto simp: word_unat_eq_iff unat_ucast_mod)
    ultimately show ?thesis
      using b is_valid_ascii [of u] by (auto simp: Cons cbs_get_utf8_def)
  next
    case False
    then have b128: "128 \<le> unat b" by simp
    let ?res = "\<lambda>n k low. (case utf8_tail n (word_of_nat (unat b mod k)) d of
            (None, cbs) \<Rightarrow> (None, cbs)
          | (Some v, cbs) \<Rightarrow> if \<not> is_valid_code_point v \<or> v < word_of_nat low then (None, cbs) else (Some v, cbs))"
    have rng: "n div 32 = 6 \<Longrightarrow> 192 \<le> n \<and> n < 224" "n div 16 = 14 \<Longrightarrow> 224 \<le> n \<and> n < 240"
      "n div 8 = 30 \<Longrightarrow> 240 \<le> n" for n :: nat by presburger+
    have "cbs_get_utf8 (b # d) = (Some u, c') \<longleftrightarrow>
       (unat b div 32 = 6 \<and> ?res 1 32 0x80 = (Some u, c')) \<or>
       (unat b div 16 = 14 \<and> ?res 2 16 0x800 = (Some u, c')) \<or>
       (unat b div 8 = 30 \<and> ?res 3 8 0x10000 = (Some u, c'))"
    proof -
      consider "unat b div 32 = 6" "unat b div 16 \<noteq> 14" "unat b div 8 \<noteq> 30"
        | "unat b div 32 \<noteq> 6" "unat b div 16 = 14" "unat b div 8 \<noteq> 30"
        | "unat b div 32 \<noteq> 6" "unat b div 16 \<noteq> 14" "unat b div 8 = 30"
        | "unat b div 32 \<noteq> 6" "unat b div 16 \<noteq> 14" "unat b div 8 \<noteq> 30"
        using rng [of "unat b"] by linarith
      then show ?thesis
        by cases (simp_all only: cbs_get_utf8_lead [OF b128] if_True if_False option.case prod.case
            of_nat_numeral simp_thms HOL.refl not_Some_eq fst_conv, simp_all)
    qed
    also have "\<dots> \<longleftrightarrow> is_valid_code_point u \<and> b # d = utf8_bytes u @ c'"
    proof -
      have small: "b \<noteq> word_of_nat (unat u)" if "unat u < 0x80"
        using b128 that unat_byte_of_nat [of "unat u"] by (auto simp del: word_of_nat_unat unsigned_of_nat)
      have big: "unat u < 8 * 64 ^ 3" if "is_valid_code_point u" using is_valid_code_point_less [OF that] by simp
      have lead2: "(unat b div 32 = 6 \<and> ?res 1 32 0x80 = (Some u, c')) \<longleftrightarrow>
          is_valid_code_point u \<and> 0x80 \<le> unat u \<and> unat u < 32 * 64 ^ 1 \<and>
          b = word_of_nat (32 * 6 + unat u div 64 ^ 1) \<and> d = utf8_conts 1 (unat u) @ c'"
        by (rule utf8_case) simp_all
      have lead3: "(unat b div 16 = 14 \<and> ?res 2 16 0x800 = (Some u, c')) \<longleftrightarrow>
          is_valid_code_point u \<and> 0x800 \<le> unat u \<and> unat u < 16 * 64 ^ 2 \<and>
          b = word_of_nat (16 * 14 + unat u div 64 ^ 2) \<and> d = utf8_conts 2 (unat u) @ c'"
        by (rule utf8_case) simp_all
      have lead4: "(unat b div 8 = 30 \<and> ?res 3 8 0x10000 = (Some u, c')) \<longleftrightarrow>
          is_valid_code_point u \<and> 0x10000 \<le> unat u \<and> unat u < 8 * 64 ^ 3 \<and>
          b = word_of_nat (8 * 30 + unat u div 64 ^ 3) \<and> d = utf8_conts 3 (unat u) @ c'"
        by (rule utf8_case) simp_all
      have split: "b # d = utf8_bytes u @ c' \<longleftrightarrow> utf8_bytes u @ c' = b # d" by (rule eq_commute)
      show ?thesis
        unfolding lead2 lead3 lead4 split utf8_bytes_split using small big by blast
    qed
    finally show ?thesis by (simp only: Cons)
  qed
qed

interpretation utf8: canonical_codec utf8_bytes cbs_get_utf8 is_valid_code_point
  by unfold_locales (auto simp: cbs_get_utf8_iff)

subsection \<open>Writing code points\<close>

lemma byte_or_add:
  fixes x y :: u32
  assumes "x AND y = 0"
  shows "x OR y = x + y"
  using assms by (rule disjunctive_add_eq_or [symmetric])

lemma utf8_top_byte:
  fixes w :: u32
  assumes "n \<le> 4" "1 \<le> n" "unat w < 2 ^ (8 - n)"
  shows "(ucast (ucast (TOP_BITS n) OR w :: u32) :: byte) = word_of_nat (unat (TOP_BITS n) + unat w)"
proof -
  have w: "w = take_bit (8 - n) w"
    using assms(3) by (simp only: word_unat_eq_iff unsigned_take_bit_eq take_bit_nat_eq_self)
  have t: "ucast (TOP_BITS n) AND w = (0 :: u32)"
    by (subst w, rule bit_word_eqI) (use assms in \<open>auto simp: bit_simps TOP_BITS_def BOTTOM_BITS_mask\<close>)
  have "(ucast (ucast (TOP_BITS n) + w :: u32) :: byte) = ucast (word_of_nat (unat (TOP_BITS n) + unat w) :: u32)"
    by simp
  also have "\<dots> = word_of_nat (unat (TOP_BITS n) + unat w)" 
    by (simp only: word_unat_eq_iff unat_ucast_mod unat_of_nat) (simp add: mod_mod_cancel)
  finally show ?thesis by (simp only: byte_or_add [OF t])
qed

lemma unat_six: "unat ((w :: u32) AND ucast (BOTTOM_BITS 6)) = unat w mod 64"
proof -
  have "(ucast (BOTTOM_BITS 6) :: u32) = mask 6" by (simp add: BOTTOM_BITS_def push_bit_eq_mult mask_eq_exp_minus_1)
  then show ?thesis by (simp only: flip: take_bit_eq_mask) (simp add: unsigned_take_bit_eq take_bit_nat_def)
qed

lemma utf8_cont_byte:
  "(ucast (ucast (TOP_BITS 1) OR w AND ucast (BOTTOM_BITS 6) :: u32) :: byte) = word_of_nat (128 + unat w mod 64)"
proof -
  have "unat (w AND ucast (BOTTOM_BITS 6)) < 2 ^ (8 - 1)" unfolding unat_six using mod_less_divisor [of 64 "unat w"] by simp
  from utf8_top_byte [OF _ _ this] show ?thesis by (simp only: unat_six unat_TOP_BITS)
qed

lemma unat_shift_64: "unat (drop_bit (6 * k) (u :: u32)) = unat u div 64 ^ k"
  by (simp only: unat_drop_bit_eq) (simp add: drop_bit_eq_div power_mult)

lemma unat_shifts:
  "unat (drop_bit 6 (u :: u32)) = unat u div 64" "unat (drop_bit 12 u) = unat u div 64 ^ 2"
  "unat (drop_bit 18 u) = unat u div 64 ^ 3"
  using unat_shift_64 [of 1 u] unat_shift_64 [of 2 u] unat_shift_64 [of 3 u] by simp_all

lemma appends_add_utf8:
  assumes m: "malloc_ok m" and v: "is_valid_code_point u"
  shows "appends m d (cbb_add_utf8 m d u) (utf8_bytes u)"
proof -
  have u: "unat u < 0x110000" by (rule is_valid_code_point_less [OF v])
  have a: "(ucast (ucast (TOP_BITS 2) OR drop_bit 6 u :: u32) :: byte) = word_of_nat (192 + unat u div 64)" if "unat u < 0x800"
    using utf8_top_byte [of 2 "drop_bit 6 u"] that unfolding unat_shifts unat_TOP_BITS by auto
  have b: "(ucast (ucast (TOP_BITS 3) OR drop_bit 12 u :: u32) :: byte) = word_of_nat (224 + unat u div 64 ^ 2)" if "unat u < 0x10000"
    using utf8_top_byte [of 3 "drop_bit 12 u"] that unfolding unat_shifts unat_TOP_BITS by (auto simp del: of_nat_add)
  have c: "(ucast (ucast (TOP_BITS 4) OR drop_bit 18 u :: u32) :: byte) = word_of_nat (240 + unat u div 64 ^ 3)"
    using utf8_top_byte [of 4 "drop_bit 18 u"] u unfolding unat_shifts unat_TOP_BITS by (auto simp del: of_nat_add)
  note bytes = a b c utf8_cont_byte [unfolded One_nat_def]
  have s: "appends m d (\<lambda>st. and_then (CBB_add_u8 m d x st) g) (x # z)" if "appends m d g z" for x g z
    using appends_seq [OF appends_add_u8 [OF m] that, of x] by simp
  note one = appends_add_u8 [OF m]
  consider "unat u < 0x80" | "0x80 \<le> unat u" "unat u < 0x800" | "0x800 \<le> unat u" "unat u < 0x10000" | "0x10000 \<le> unat u"
    by linarith
  then show ?thesis
  proof cases
    case 1
    moreover have "(ucast u :: byte) = word_of_nat (unat u)" by simp
    ultimately show ?thesis using one v
      by (simp add: cbb_add_utf8_def [abs_def] utf8_bytes_def Let_def word_le_nat_alt)
  next
    case 2
    then have eq: "cbb_add_utf8 m d u = (\<lambda>st. and_then (CBB_add_u8 m d (word_of_nat (192 + unat u div 64)) st)
          (CBB_add_u8 m d (word_of_nat (128 + unat u mod 64))))"
      using v by (simp add: cbb_add_utf8_def [abs_def] Let_def word_le_nat_alt bytes del: of_nat_add)
    have "utf8_bytes u = word_of_nat (192 + unat u div 64) # word_of_nat (128 + unat u mod 64) # []"
      using 2 by (simp add: utf8_bytes_def Let_def One_nat_def del: of_nat_add)
    then show ?thesis unfolding eq by (simp only:) (intro s one)
  next
    case 3
    then have eq: "cbb_add_utf8 m d u = (\<lambda>st. and_then (CBB_add_u8 m d (word_of_nat (224 + unat u div 64 ^ 2)) st) (\<lambda>st.
        and_then (CBB_add_u8 m d (word_of_nat (128 + unat u div 64 mod 64)) st)
          (CBB_add_u8 m d (word_of_nat (128 + unat u mod 64)))))"
      using v by (simp add: cbb_add_utf8_def [abs_def] Let_def word_le_nat_alt bytes unat_shifts del: of_nat_add)
    have "utf8_bytes u = word_of_nat (224 + unat u div 64 ^ 2) # word_of_nat (128 + unat u div 64 mod 64) #
        word_of_nat (128 + unat u mod 64) # []"
      using 3 by (simp add: utf8_bytes_def Let_def numeral_2_eq_2 del: of_nat_add)
    then show ?thesis unfolding eq by (simp only:) (intro s one)
  next
    case 4
    then have eq: "cbb_add_utf8 m d u = (\<lambda>st. and_then (CBB_add_u8 m d (word_of_nat (240 + unat u div 64 ^ 3)) st) (\<lambda>st.
        and_then (CBB_add_u8 m d (word_of_nat (128 + unat u div 64 ^ 2 mod 64)) st) (\<lambda>st.
        and_then (CBB_add_u8 m d (word_of_nat (128 + unat u div 64 mod 64)) st)
          (CBB_add_u8 m d (word_of_nat (128 + unat u mod 64))))))"
      using v u by (simp add: cbb_add_utf8_def [abs_def] Let_def word_le_nat_alt bytes unat_shifts del: of_nat_add)
    have "utf8_bytes u = word_of_nat (240 + unat u div 64 ^ 3) # word_of_nat (128 + unat u div 64 ^ 2 mod 64) #
        word_of_nat (128 + unat u div 64 mod 64) # word_of_nat (128 + unat u mod 64) # []"
      using 4 by (simp add: utf8_bytes_def Let_def numeral_3_eq_3 del: of_nat_add)
    then show ?thesis unfolding eq by (simp only:) (intro s one)
  qed
qed

lemma length_utf8_bytes: "is_valid_code_point u \<Longrightarrow> length (utf8_bytes u) = cbb_get_utf8_len u"
  by (auto simp: utf8_bytes_def cbb_get_utf8_len_def Let_def utf8_conts_def word_le_nat_alt)

lemma cbs_get_latin1_iff: "cbs_get_latin1 c = (Some u, c') \<longleftrightarrow> unat u < 256 \<and> c = word_of_nat (unat u) # c'"
proof (cases c)
  case (Cons b d)
  have "u = ucast b \<longleftrightarrow> unat u < 256 \<and> b = word_of_nat (unat u)"
    by (auto simp: word_unat_eq_iff unat_ucast_mod)
  then show ?thesis by (auto simp: Cons cbs_get_latin1_def)
qed (simp add: cbs_get_latin1_def)

lemma cbs_get_ucs2_be_iff:
  "cbs_get_ucs2_be c = (Some u, c') \<longleftrightarrow> is_valid_code_point u \<and> unat u < 2 ^ 16 \<and> c = be_bytes 2 (unat u) @ c'"
proof -
  have u: "u = ucast w \<longleftrightarrow> unat u < 2 ^ 16 \<and> w = ucast u" for w :: u16
    by (auto simp: word_unat_eq_iff unat_ucast_mod)
  have "cbs_get_ucs2_be c = (Some u, c') \<longleftrightarrow>
      (\<exists>w. CBS_get_u16 c = (Some w, c') \<and> is_valid_code_point u \<and> u = ucast w)"
    by (auto simp: cbs_get_ucs2_be_def split: prod.splits option.splits)
  also have "\<dots> \<longleftrightarrow> is_valid_code_point u \<and> unat u < 2 ^ 16 \<and> CBS_get_u16 c = (Some (ucast u), c')"
    unfolding u by blast
  finally show ?thesis by (auto simp: u16.accepts_iff unat_ucast_mod simp del: be_bytes.simps)
qed

lemma cbs_get_utf32_be_iff:
  "cbs_get_utf32_be c = (Some u, c') \<longleftrightarrow> is_valid_code_point u \<and> c = be_bytes 4 (unat u) @ c'"
proof -
  have "cbs_get_utf32_be c = (Some u, c') \<longleftrightarrow> is_valid_code_point u \<and> CBS_get_u32 c = (Some u, c')"
    by (auto simp: cbs_get_utf32_be_def split: prod.splits option.splits)
  then show ?thesis by (simp add: u32.accepts_iff del: be_bytes.simps)
qed

interpretation latin1: canonical_codec "\<lambda>u. [word_of_nat (unat u)]" cbs_get_latin1 "\<lambda>u. unat u < 256"
  by unfold_locales (auto simp: cbs_get_latin1_iff simp del: word_of_nat_unat)

interpretation ucs2: canonical_codec "\<lambda>u. be_bytes 2 (unat u)" cbs_get_ucs2_be
    "\<lambda>u. is_valid_code_point u \<and> unat u < 2 ^ 16"
  by unfold_locales (auto simp: cbs_get_ucs2_be_iff simp del: be_bytes.simps)

interpretation utf32: canonical_codec "\<lambda>u. be_bytes 4 (unat u)" cbs_get_utf32_be is_valid_code_point
  by unfold_locales (auto simp: cbs_get_utf32_be_iff simp del: be_bytes.simps)

fun add_code_points :: "(u32 \<Rightarrow> cbb \<Rightarrow> bool \<times> cbb) \<Rightarrow> u32 list \<Rightarrow> cbb \<Rightarrow> bool \<times> cbb" where
  "add_code_points add [] st = (True, st)"
| "add_code_points add (u # us) st = and_then (add u st) (add_code_points add us)"

lemma appends_code_points:
  "(\<And>u. u \<in> set us \<Longrightarrow> appends m d (add u) (enc u)) \<Longrightarrow>
   appends m d (add_code_points add us) (concat (map enc us))"
proof (induction us)
  case Nil
  then show ?case using appends_skip [of m d] by (simp add: add_code_points.simps(1) [abs_def])
next
  case (Cons u us)
  have "appends m d (\<lambda>st. and_then (add u st) (add_code_points add us)) (enc u @ concat (map enc us))"
    using Cons by (intro appends_seq) auto
  then show ?case by (simp add: add_code_points.simps(2) [abs_def])
qed

lemma add_utf8_invalid: "\<not> is_valid_code_point u \<Longrightarrow> cbb_add_utf8 m d u st = (False, st)"
  by (simp add: cbb_add_utf8_def)

lemma add_code_points_valid:
  "add_code_points (cbb_add_utf8 m d) us st = (True, st') \<Longrightarrow> u \<in> set us \<Longrightarrow> is_valid_code_point u"
proof (induction us arbitrary: st)
  case (Cons v us)
  then show ?case using add_utf8_invalid [of v m d]
    by (cases "is_valid_code_point v") (auto simp: and_then_def split: prod.splits if_splits)
qed simp

lemma length_concat_utf8:
  "(\<And>u. u \<in> set us \<Longrightarrow> is_valid_code_point u) \<Longrightarrow>
   length (concat (map utf8_bytes us)) = sum_list (map cbb_get_utf8_len us)"
  by (induction us) (simp_all add: length_utf8_bytes)

section \<open>Properties\<close>

text \<open>C30. The UTF-8 reader accepts exactly the UTF-8 encodings of Unicode scalar values that are not
  noncharacters: overlong forms, surrogates, stray continuation bytes, truncated sequences and
  values above \<open>0x10ffff\<close> are refused, and what follows the sequence is left unread.\<close>

theorem cbs_get_utf8_exact:
  "cbs_get_utf8 c = (Some u, c') \<longleftrightarrow> is_valid_code_point u \<and> c = utf8_bytes u @ c'"
  by (rule utf8.accepts_iff)

text \<open>C25. Text survives the UTF-8 round trip. Code points written one after the other with
  \<^verbatim>\<open>cbb_add_utf8\<close> into a builder that \<^verbatim>\<open>CBB_finish\<close> completes take as many bytes as
  \<^verbatim>\<open>cbb_get_utf8_len\<close> predicts and are read back, whatever bytes follow; a write that
  succeeds can only have been given valid code points.\<close>

theorem utf8_text_roundtrip:
  assumes "malloc_ok m" "CBB_init m c = (True, st)" "c < 2 ^ 63"
    and "add_code_points (cbb_add_utf8 m 0) us st = (True, st1)"
    and "CBB_finish m 0 True True st1 = (Some (Some data, Some n), st2)"
  shows "(\<forall>u \<in> set us. is_valid_code_point u) \<and> n = sum_list (map cbb_get_utf8_len us) \<and>
    read_many (length us) cbs_get_utf8 (take n data @ rest) = (Some us, rest)"
proof -
  have v: "\<And>u. u \<in> set us \<Longrightarrow> is_valid_code_point u" by (rule add_code_points_valid [OF assms(4)])
  have "appends m 0 (add_code_points (cbb_add_utf8 m 0) us) (concat (map utf8_bytes us))"
    by (intro appends_code_points appends_add_utf8 assms(1) v)
  from appends_run(1) [OF assms(1) this represents_init [OF assms(1-3)] assms(4,5)]
  have "n = length (concat (map utf8_bytes us))" "take n data = concat (map utf8_bytes us)"
    by blast+
  then show ?thesis
    using v length_concat_utf8 [OF v] utf8.many_roundtrip [OF v, of us rest] by metis
qed

theorem utf8_text_roundtrip_witness:
  "\<exists>st st1 data n st2. CBB_init calloc_small 0 = (True, st) \<and>
     add_code_points (cbb_add_utf8 calloc_small 0) [0x41, 0xe9, 0x20ac, 0x1f600] st = (True, st1) \<and>
     CBB_finish calloc_small 0 True True st1 = (Some (Some data, Some n), st2) \<and> n = 10 \<and>
     read_many 4 cbs_get_utf8 (take n data @ [7]) = (Some [0x41, 0xe9, 0x20ac, 0x1f600], [7])"
proof -
  let ?us = "[0x41, 0xe9, 0x20ac, 0x1f600] :: u32 list"
  have ok: "is_valid_code_point u" if "u \<in> set ?us" for u
    using that by (auto simp: is_valid_code_point_def)
  have ap: "appends calloc_small 0 (add_code_points (cbb_add_utf8 calloc_small 0) ?us) (concat (map utf8_bytes ?us))"
    by (intro appends_code_points appends_add_utf8 calloc_small_ok ok)
  obtain st where st: "CBB_init calloc_small 0 = (True, st)" using CBB_init_calloc [of 0] by auto
  have "sum_list (map cbb_get_utf8_len ?us) = 10" by (simp add: cbb_get_utf8_len_def)
  then have len: "length (concat (map utf8_bytes ?us)) = 10" by (simp only: length_concat_utf8 [OF ok])
  then have "avail_at calloc_small st (length (concat (map utf8_bytes ?us)))"
    by (intro avail_init [OF st]) (auto simp: calloc_small_def)
  from appends_run(2) [OF calloc_small_ok ap represents_init [OF calloc_small_ok st] this]
  obtain st1 data n st2 where r: "add_code_points (cbb_add_utf8 calloc_small 0) ?us st = (True, st1)"
    "CBB_finish calloc_small 0 True True st1 = (Some (Some data, Some n), st2)" by auto
  have "(0::nat) < 2 ^ 63" "length ?us = 4" by simp_all
  moreover have "sum_list (map cbb_get_utf8_len ?us) = 10" by (simp add: cbb_get_utf8_len_def)
  ultimately show ?thesis
    using utf8_text_roundtrip [OF calloc_small_ok st _ r, of "[7]"] st r by metis
qed

end
