(* ===== verification/ConstTime.thy ===== *)
theory ConstTime
  imports Prelude
begin

text \<open>The branch-free comparisons and selections of \<^verbatim>\<open>crypto/internal.h\<close>. A mask is a word
  whose bits are all equal; every comparison is shown to give the mask of the comparison it
  stands for, and a selection with such a mask to be a conditional. \<^verbatim>\<open>crypto_word_t\<close> is
  the 64-bit word of the platform; \<^verbatim>\<open>value_barrier_w\<close>, which returns its argument and only
  hides it from the optimiser, is the identity.\<close>

definition constant_time_msb_w :: "u64 \<Rightarrow> u64" where
  "constant_time_msb_w a = 0 - drop_bit 63 a"

definition constant_time_lt_w :: "u64 \<Rightarrow> u64 \<Rightarrow> u64" where
  "constant_time_lt_w a b = constant_time_msb_w (a XOR ((a XOR b) OR ((a - b) XOR a)))"

definition constant_time_lt_8 :: "u64 \<Rightarrow> u64 \<Rightarrow> byte" where
  "constant_time_lt_8 a b = ucast (constant_time_lt_w a b)"

definition constant_time_ge_w :: "u64 \<Rightarrow> u64 \<Rightarrow> u64" where
  "constant_time_ge_w a b = NOT (constant_time_lt_w a b)"

definition constant_time_ge_8 :: "u64 \<Rightarrow> u64 \<Rightarrow> byte" where
  "constant_time_ge_8 a b = ucast (constant_time_ge_w a b)"

definition constant_time_is_zero_w :: "u64 \<Rightarrow> u64" where
  "constant_time_is_zero_w a = constant_time_msb_w (NOT a AND (a - 1))"

definition constant_time_is_zero_8 :: "u64 \<Rightarrow> byte" where
  "constant_time_is_zero_8 a = ucast (constant_time_is_zero_w a)"

definition constant_time_eq_w :: "u64 \<Rightarrow> u64 \<Rightarrow> u64" where
  "constant_time_eq_w a b = constant_time_is_zero_w (a XOR b)"

definition constant_time_eq_8 :: "u64 \<Rightarrow> u64 \<Rightarrow> byte" where
  "constant_time_eq_8 a b = ucast (constant_time_eq_w a b)"

definition constant_time_eq_int :: "32 word \<Rightarrow> 32 word \<Rightarrow> u64" where
  "constant_time_eq_int a b = constant_time_eq_w (scast a) (scast b)"

definition constant_time_eq_int_8 :: "32 word \<Rightarrow> 32 word \<Rightarrow> byte" where
  "constant_time_eq_int_8 a b = constant_time_eq_8 (scast a) (scast b)"

definition constant_time_select_w :: "u64 \<Rightarrow> u64 \<Rightarrow> u64 \<Rightarrow> u64" where
  "constant_time_select_w msk a b = (msk AND a) OR (NOT msk AND b)"

definition constant_time_select_8 :: "byte \<Rightarrow> byte \<Rightarrow> byte \<Rightarrow> byte" where
  "constant_time_select_8 msk a b = ucast (constant_time_select_w (ucast msk) (ucast a) (ucast b))"

definition constant_time_select_int :: "u64 \<Rightarrow> 32 word \<Rightarrow> 32 word \<Rightarrow> 32 word" where
  "constant_time_select_int msk a b = ucast (constant_time_select_w msk (scast a) (scast b))"

subsection \<open>Masks\<close>

definition mask_of :: "bool \<Rightarrow> 'a::len word" where
  "mask_of P = (if P then - 1 else 0)"

lemma mask_of_simps [simp]: "mask_of True = (- 1 :: 'a::len word)" "mask_of False = (0 :: 'a word)"
  by (simp_all add: mask_of_def)

lemma mask_of_inject [simp]: "mask_of P = (mask_of Q :: 'a::len word) \<longleftrightarrow> P = Q"
  by (cases P; cases Q) simp_all

lemma ucast_mask_of: "LENGTH('b) \<le> LENGTH('a) \<Longrightarrow> (ucast (mask_of P :: 'a::len word) :: 'b::len word) = mask_of P"
  by (cases P) (auto intro!: bit_word_eqI simp: bit_simps)

lemma unat_drop_63: "unat (drop_bit 63 (a :: u64)) = unat a div 2 ^ 63"
  by (simp only: unat_drop_bit_eq) (simp add: drop_bit_eq_div)

lemma odd_div_iff:
  fixes x k :: nat
  assumes "x < 2 * k" shows "odd (x div k) \<longleftrightarrow> k \<le> x"
proof -
  have "x div k < 2" using assms by (simp add: less_mult_imp_div_less)
  then have "odd (x div k) \<longleftrightarrow> x div k \<noteq> 0" by (auto simp: less_2_cases_iff)
  also have "\<dots> \<longleftrightarrow> k \<le> x" using assms by (simp add: div_eq_0_iff not_less)
  finally show ?thesis .
qed

lemma bit_63_iff: "bit (a :: u64) 63 \<longleftrightarrow> 2 ^ 63 \<le> unat a"
proof -
  have "bit a 63 \<longleftrightarrow> bit (unat a) 63" by (simp add: bit_unsigned_iff)
  also have "\<dots> \<longleftrightarrow> odd (unat a div 2 ^ 63)" by (rule bit_iff_odd)
  also have "\<dots> \<longleftrightarrow> 2 ^ 63 \<le> unat a"
    using odd_div_iff [of "unat a" "2 ^ 63"] unat_u64_less [of a] by simp
  finally show ?thesis .
qed

lemma msb_w: "constant_time_msb_w a = mask_of (bit a 63)"
proof -
  have "unat (drop_bit 63 a) = (if 2 ^ 63 \<le> unat a then 1 else 0)"
  proof -
    have "unat a < 2 ^ 63 + 2 ^ 63" using unat_u64_less [of a] by simp
    then show ?thesis unfolding unat_drop_63 by (auto intro!: div_nat_eqI)
  qed
  then have "drop_bit 63 a = (if bit a 63 then 1 else 0)" by (simp add: bit_63_iff word_unat_eq_iff)
  then show ?thesis by (simp add: constant_time_msb_w_def)
qed

lemma lt_w: "constant_time_lt_w a b = mask_of (a < b)"
proof -
  have "bit (a XOR ((a XOR b) OR ((a - b) XOR a))) 63 \<longleftrightarrow> a < b"
    using unat_u64_less [of a] unat_u64_less [of b]
    unfolding bit_xor_iff bit_or_iff unfolding bit_63_iff word_less_nat_alt by (auto simp: unat_sub_if' simp del: unat_u64_less)
  then show ?thesis by (simp add: constant_time_lt_w_def msb_w)
qed

lemma is_zero_w: "constant_time_is_zero_w a = mask_of (a = 0)"
proof -
  have "bit (NOT a AND (a - 1)) 63 \<longleftrightarrow> a = 0"
    using unat_u64_less [of a]
    unfolding bit_and_iff bit_not_iff unfolding bit_63_iff by (auto simp: word_unat_eq_iff unat_sub_if' simp del: unat_u64_less)
  then show ?thesis by (simp add: constant_time_is_zero_w_def msb_w)
qed

lemma eq_w: "constant_time_eq_w a b = mask_of (a = b)"
proof -
  have "a XOR b = 0 \<longleftrightarrow> a = b" by (auto simp: bit_eq_iff bit_simps)
  then show ?thesis by (simp add: constant_time_eq_w_def is_zero_w)
qed

lemma select_w: "constant_time_select_w (mask_of P) a b = (if P then a else b)"
  by (cases P) (simp_all add: constant_time_select_w_def)

lemma select_8: "constant_time_select_8 (mask_of P) a b = (if P then a else b)"
proof (cases P)
  case True
  have "(ucast (ucast (-1 :: byte) AND ucast a :: u64) :: byte) = a"
    by (rule bit_word_eqI) (auto simp: bit_simps)
  moreover have "(ucast (ucast (-1 :: byte) AND ucast a OR NOT (ucast (-1 :: byte)) AND ucast b :: u64) :: byte) = a"
    by (rule bit_word_eqI) (auto simp: bit_simps)
  ultimately show ?thesis using True by (simp add: constant_time_select_8_def constant_time_select_w_def)
next
  case False
  then show ?thesis
    by (simp add: constant_time_select_8_def constant_time_select_w_def) (auto intro!: bit_word_eqI simp: bit_simps)
qed

lemma eq_int: "constant_time_eq_int a b = mask_of (a = b)"
proof -
  have wide: "sint (scast w :: u64) = sint w" for w :: "32 word"
    using sint_greater_eq [of w] sint_less [of w]
    by (simp only: signed_scast_eq) (simp add: signed_take_bit_int_eq_self_iff)
  have "(scast a :: u64) = scast b \<longleftrightarrow> a = b"
  proof
    assume "(scast a :: u64) = scast b"
    then have "sint a = sint b" using wide [of a] wide [of b] by simp
    then show "a = b" by (rule word_eq_iff_signed [THEN iffD2])
  qed simp
  then show ?thesis by (simp add: constant_time_eq_int_def eq_w)
qed

lemma masks_8:
  "constant_time_lt_8 c d = mask_of (c < d)" "constant_time_ge_w c d = mask_of (d \<le> c)"
  "constant_time_ge_8 c d = mask_of (d \<le> c)" "constant_time_is_zero_8 c = mask_of (c = 0)"
  "constant_time_eq_8 c d = mask_of (c = d)" "constant_time_eq_int_8 a b = mask_of (a = b)"
proof -
  show ge: "constant_time_ge_w c d = mask_of (d \<le> c)"
    by (cases "c < d") (simp_all add: constant_time_ge_w_def lt_w flip: not_less)
  show "constant_time_eq_int_8 a b = mask_of (a = b)"
    using eq_int [of a b] by (simp add: constant_time_eq_int_8_def constant_time_eq_8_def constant_time_eq_int_def ucast_mask_of)
  show "constant_time_ge_8 c d = mask_of (d \<le> c)"
    by (simp add: constant_time_ge_8_def ge ucast_mask_of)
qed (simp_all add: constant_time_lt_8_def constant_time_is_zero_8_def constant_time_eq_8_def lt_w is_zero_w eq_w ucast_mask_of)

lemma select_int: "constant_time_select_int (mask_of P) a b = (if P then a else b)"
proof -
  have "(ucast (scast w :: u64) :: 32 word) = w" for w :: "32 word"
    by (rule bit_word_eqI) (auto simp: bit_simps)
  then show ?thesis by (simp add: constant_time_select_int_def select_w)
qed

text \<open>The branch-free comparisons are comparisons. Each of them gives the all-ones mask when the
  relation it is named after holds and zero otherwise, for every pair of words, in both widths,
  and a selection by such a mask is a conditional: what the SMT-LIB scripts in the comments of
  \<^verbatim>\<open>crypto/internal.h\<close> check for 32 bits, proved here for the 64-bit words the code uses.\<close>

lemma constant_time_masks_exact:
  "constant_time_lt_w a b = mask_of (a < b) \<and> constant_time_ge_w a b = mask_of (b \<le> a) \<and>
   constant_time_is_zero_w a = mask_of (a = 0) \<and> constant_time_eq_w a b = mask_of (a = b) \<and>
   constant_time_lt_8 a b = mask_of (a < b) \<and> constant_time_ge_8 a b = mask_of (b \<le> a) \<and>
   constant_time_is_zero_8 a = mask_of (a = 0) \<and> constant_time_eq_8 a b = mask_of (a = b) \<and>
   constant_time_eq_int i j = mask_of (i = j) \<and> constant_time_eq_int_8 i j = mask_of (i = j) \<and>
   constant_time_select_w (mask_of P) a b = (if P then a else b) \<and>
   constant_time_select_8 (mask_of P) x y = (if P then x else y) \<and>
   constant_time_select_int (mask_of P) i j = (if P then i else j)"
  by (intro conjI lt_w is_zero_w eq_w eq_int select_w select_8 select_int masks_8)

end
