(* ===== verification/Base64.thy ===== *)
theory Base64
  imports ConstTime Codec
begin

text \<open>Base64, \<^verbatim>\<open>crypto/base64/base64.c\<close>: the block functions, the streaming functions over
  \<^verbatim>\<open>EVP_ENCODE_CTX\<close> and the length functions. A function that writes through \<open>out\<close>
  returns the bytes it writes there, the terminating NUL included where the code writes one, and
  the value of \<^verbatim>\<open>*out_len\<close>. The encoders are shown to compute \<open>base64\<close>, a definition
  by arithmetic on groups of three bytes; \<open>pem\<close> is its text in lines of 64 characters, and
  \<open>dec_quads\<close> the state a streaming decoder is in after a text. What a failed
  \<^verbatim>\<open>EVP_DecodeBase64\<close> or \<^verbatim>\<open>EVP_DecodeBlock\<close> leaves in its output buffer is not modelled.\<close>

definition constant_time_lt_args_8 :: "byte \<Rightarrow> byte \<Rightarrow> byte" where
  "constant_time_lt_args_8 a b = ucast (constant_time_msb_w (ucast a - ucast b))"

definition constant_time_in_range_8 :: "byte \<Rightarrow> byte \<Rightarrow> byte \<Rightarrow> byte" where
  "constant_time_in_range_8 a mn mx = constant_time_lt_args_8 (a - mn) (mx - mn + 1)"

subsection \<open>Encoding\<close>

definition conv_bin2ascii :: "byte \<Rightarrow> byte" where
  "conv_bin2ascii a =
     (let a = a AND 0x3f;
          ret = constant_time_select_8 (constant_time_eq_8 (ucast a) 62) 0x2b 0x2f;
          ret = constant_time_select_8 (constant_time_lt_args_8 a 62) (a - 52 + 0x30) ret;
          ret = constant_time_select_8 (constant_time_lt_args_8 a 52) (a - 26 + 0x61) ret
      in constant_time_select_8 (constant_time_lt_args_8 a 26) (a + 0x41) ret)"

definition EVP_EncodedLength :: "nat \<Rightarrow> nat option" where
  "EVP_EncodedLength len =
     (if (len + 2) mod 2 ^ 64 < len then None
      else let len = (len + 2) mod 2 ^ 64 div 3
           in if len * 4 mod 2 ^ 64 div 4 \<noteq> len then None
              else let len = len * 4 mod 2 ^ 64
                   in if (len + 1) mod 2 ^ 64 < len then None else Some ((len + 1) mod 2 ^ 64))"

record evp_encode_ctx =
  data_used :: nat
  ctx_data :: "byte list"
  eof_seen :: bool
  error_encountered :: bool

definition sizeof_data :: nat where "sizeof_data = 48"

definition EVP_EncodeInit :: evp_encode_ctx where
  "EVP_EncodeInit = \<lparr>data_used = 0, ctx_data = replicate sizeof_data 0, eof_seen = False, error_encountered = False\<rparr>"

fun encode_block_loop :: "byte list \<Rightarrow> byte list \<times> nat" where
  "encode_block_loop (s0 # s1 # s2 # src) =
     (let l = (push_bit 16 (ucast s0) OR push_bit 8 (ucast s1) OR ucast s2 :: u32);
          (dst, ret) = encode_block_loop src
      in ([conv_bin2ascii (ucast (drop_bit 18 l)), conv_bin2ascii (ucast (drop_bit 12 l)),
           conv_bin2ascii (ucast (drop_bit 6 l)), conv_bin2ascii (ucast l)] @ dst, 4 + ret))"
| "encode_block_loop [s0, s1] =
     (let l = (push_bit 16 (ucast s0) OR push_bit 8 (ucast s1) :: u32)
      in ([conv_bin2ascii (ucast (drop_bit 18 l)), conv_bin2ascii (ucast (drop_bit 12 l)),
           conv_bin2ascii (ucast (drop_bit 6 l)), 0x3d], 4))"
| "encode_block_loop [s0] =
     (let l = (push_bit 16 (ucast s0) :: u32)
      in ([conv_bin2ascii (ucast (drop_bit 18 l)), conv_bin2ascii (ucast (drop_bit 12 l)), 0x3d, 0x3d], 4))"
| "encode_block_loop [] = ([], 0)"

definition EVP_EncodeBlock :: "byte list \<Rightarrow> byte list \<times> nat" where
  "EVP_EncodeBlock src = (let (dst, ret) = encode_block_loop src in (dst @ [0], ret))"

definition memcpy_at :: "byte list \<Rightarrow> nat \<Rightarrow> byte list \<Rightarrow> byte list" where
  "memcpy_at b off src = take off b @ src @ drop (off + length src) b"

definition INT_MAX :: nat where "INT_MAX = 2 ^ 31 - 1"

definition encode_line :: "byte list \<Rightarrow> byte list \<times> nat" where
  "encode_line src = (let (dst, encoded) = EVP_EncodeBlock src in (take encoded dst @ [0x0a], encoded))"

function encode_lines :: "byte list \<Rightarrow> nat \<Rightarrow> byte list \<Rightarrow> byte list \<times> nat option \<times> byte list" where
  "encode_lines out sum_out src =
     (if length src \<ge> sizeof_data then
        (let (line, encoded) = encode_line (take sizeof_data src);
             src = drop sizeof_data src;
             out = out @ line
         in if (sum_out + encoded + 1) mod 2 ^ 64 < sum_out then (out, None, src)
            else encode_lines out ((sum_out + encoded + 1) mod 2 ^ 64) src)
      else (out, Some sum_out, src))"
  by pat_completeness auto
termination by (relation "measure (\<lambda>(_, _, src). length src)") (auto simp: sizeof_data_def)

definition nul_after :: "byte list \<Rightarrow> byte list" where
  "nul_after out = (if out = [] then [] else out @ [0])"

definition EVP_EncodeUpdate :: "evp_encode_ctx \<Rightarrow> byte list \<Rightarrow> evp_encode_ctx \<times> byte list \<times> nat" where
  "EVP_EncodeUpdate ctx src =
     (if src = [] then (ctx, [], 0)
      else if sizeof_data - data_used ctx > length src then
        (ctx\<lparr>ctx_data := memcpy_at (ctx_data ctx) (data_used ctx) src, data_used := data_used ctx + length src\<rparr>, [], 0)
      else
        (let (ctx, src, out, sum_out) =
               (if data_used ctx \<noteq> 0 then
                  (let todo = sizeof_data - data_used ctx;
                       ctx = ctx\<lparr>ctx_data := memcpy_at (ctx_data ctx) (data_used ctx) (take todo src)\<rparr>;
                       (line, encoded) = encode_line (ctx_data ctx)
                   in (ctx\<lparr>data_used := 0\<rparr>, drop todo src, line, encoded + 1))
                else (ctx, src, [], 0))
         in (case encode_lines out sum_out src of
               (out, None, src) \<Rightarrow> (ctx, nul_after out, 0)
             | (out, Some sum_out, src) \<Rightarrow>
                 (let ctx = (if src \<noteq> [] then ctx\<lparr>ctx_data := memcpy_at (ctx_data ctx) 0 src\<rparr> else ctx);
                      ctx = ctx\<lparr>data_used := length src\<rparr>;
                      sum_out = (if sum_out > INT_MAX then 0 else sum_out)
                  in (ctx, nul_after out, sum_out)))))"

definition EVP_EncodeFinal :: "evp_encode_ctx \<Rightarrow> evp_encode_ctx \<times> byte list \<times> nat" where
  "EVP_EncodeFinal ctx =
     (if data_used ctx = 0 then (ctx, [], 0)
      else let (out, encoded) = encode_line (take (data_used ctx) (ctx_data ctx))
           in (ctx\<lparr>data_used := 0\<rparr>, out @ [0], encoded + 1))"

subsection \<open>Decoding\<close>

definition EVP_DecodedLength :: "nat \<Rightarrow> nat option" where
  "EVP_DecodedLength len = (if len mod 4 \<noteq> 0 then None else Some (len div 4 * 3))"

definition EVP_DecodeInit :: evp_encode_ctx where
  "EVP_DecodeInit = \<lparr>data_used = 0, ctx_data = replicate sizeof_data 0, eof_seen = False, error_encountered = False\<rparr>"

definition base64_ascii_to_bin :: "byte \<Rightarrow> byte" where
  "base64_ascii_to_bin a =
     (let is_upper = constant_time_in_range_8 a 0x41 0x5a;
          is_lower = constant_time_in_range_8 a 0x61 0x7a;
          is_digit = constant_time_in_range_8 a 0x30 0x39;
          is_plus = constant_time_eq_8 (ucast a) 0x2b;
          is_slash = constant_time_eq_8 (ucast a) 0x2f;
          is_equals = constant_time_eq_8 (ucast a) 0x3d;
          ret = 0xff;
          ret = constant_time_select_8 is_upper (a - 0x41) ret;
          ret = constant_time_select_8 is_lower (a - 0x61 + 26) ret;
          ret = constant_time_select_8 is_digit (a - 0x30 + 52) ret;
          ret = constant_time_select_8 is_plus 62 ret;
          ret = constant_time_select_8 is_slash 63 ret
      in constant_time_select_8 is_equals 0 ret)"

definition base64_decode_quad :: "byte \<Rightarrow> byte \<Rightarrow> byte \<Rightarrow> byte \<Rightarrow> byte list option" where
  "base64_decode_quad i0 i1 i2 i3 =
     (let a = base64_ascii_to_bin i0; b = base64_ascii_to_bin i1;
          c = base64_ascii_to_bin i2; d = base64_ascii_to_bin i3
      in if a = 0xff \<or> b = 0xff \<or> c = 0xff \<or> d = 0xff then None
         else
           (let v = (push_bit 18 (ucast a) OR push_bit 12 (ucast b) OR push_bit 6 (ucast c) OR ucast d :: u32);
                padding_pattern = (if i0 = 0x3d then 8 else 0) + (if i1 = 0x3d then 4 else 0) +
                  (if i2 = 0x3d then 2 else 0) + (if i3 = 0x3d then 1 else 0) :: nat
            in if padding_pattern = 0 then Some [ucast (drop_bit 16 v), ucast (drop_bit 8 v), ucast v]
               else if padding_pattern = 1 then Some [ucast (drop_bit 16 v), ucast (drop_bit 8 v)]
               else if padding_pattern = 3 then Some [ucast (drop_bit 16 v)]
               else None))"

fun decode_update_loop :: "evp_encode_ctx \<Rightarrow> byte list \<Rightarrow> byte list \<Rightarrow> bool \<times> evp_encode_ctx \<times> byte list" where
  "decode_update_loop ctx out [] = (True, ctx, out)"
| "decode_update_loop ctx out (c # src) =
     (if c = 0x20 \<or> c = 0x09 \<or> c = 0x0d \<or> c = 0x0a then decode_update_loop ctx out src
      else if eof_seen ctx then (False, ctx\<lparr>error_encountered := True\<rparr>, out)
      else
        (let ctx = ctx\<lparr>ctx_data := (ctx_data ctx)[data_used ctx := c], data_used := data_used ctx + 1\<rparr>
         in if data_used ctx = 4 then
              (let d = ctx_data ctx
               in case base64_decode_quad (d ! 0) (d ! 1) (d ! 2) (d ! 3) of
                    None \<Rightarrow> (False, ctx\<lparr>error_encountered := True\<rparr>, out)
                  | Some bytes \<Rightarrow>
                      (let ctx = ctx\<lparr>data_used := 0\<rparr>;
                           ctx = (if length bytes < 3 then ctx\<lparr>eof_seen := True\<rparr> else ctx)
                       in decode_update_loop ctx (out @ bytes) src))
            else decode_update_loop ctx out src))"

definition EVP_DecodeUpdate :: "evp_encode_ctx \<Rightarrow> byte list \<Rightarrow> int \<times> evp_encode_ctx \<times> byte list \<times> nat" where
  "EVP_DecodeUpdate ctx src =
     (if error_encountered ctx then (-1, ctx, [], 0)
      else
        (case decode_update_loop ctx [] src of
           (False, ctx, out) \<Rightarrow> (-1, ctx, out, 0)
         | (True, ctx, out) \<Rightarrow>
             if length out > INT_MAX then (-1, ctx\<lparr>error_encountered := True\<rparr>, out, 0)
             else (if eof_seen ctx then 0 else 1, ctx, out, length out)))"

definition EVP_DecodeFinal :: "evp_encode_ctx \<Rightarrow> int \<times> nat" where
  "EVP_DecodeFinal ctx = (if error_encountered ctx \<or> data_used ctx \<noteq> 0 then (-1, 0) else (1, 0))"

fun decode_quads :: "byte list \<Rightarrow> byte list option" where
  "decode_quads (i0 # i1 # i2 # i3 # src) =
     (case base64_decode_quad i0 i1 i2 i3 of
        None \<Rightarrow> None
      | Some bytes \<Rightarrow>
          if length bytes \<noteq> 3 \<and> src \<noteq> [] then None
          else map_option (\<lambda>rest. bytes @ rest) (decode_quads src))"
| "decode_quads _ = Some []"

definition EVP_DecodeBase64 :: "nat \<Rightarrow> byte list \<Rightarrow> byte list option" where
  "EVP_DecodeBase64 max_out src =
     (if length src mod 4 \<noteq> 0 then None
      else (case EVP_DecodedLength (length src) of
              None \<Rightarrow> None
            | Some max_len \<Rightarrow> if max_out < max_len then None else decode_quads src))"

definition is_blank :: "byte \<Rightarrow> bool" where
  "is_blank c \<longleftrightarrow> c = 0x20 \<or> c = 0x09"

definition is_trailer :: "byte \<Rightarrow> bool" where
  "is_trailer c \<longleftrightarrow> c = 0x20 \<or> c = 0x09 \<or> c = 0x0d \<or> c = 0x0a"

definition EVP_DecodeBlock :: "byte list \<Rightarrow> byte list option" where
  "EVP_DecodeBlock src =
     (let src = dropWhile is_blank src;
          src = rev (dropWhile is_trailer (rev src))
      in case EVP_DecodedLength (length src) of
           None \<Rightarrow> None
         | Some dst_len \<Rightarrow>
             if dst_len > INT_MAX then None
             else (case EVP_DecodeBase64 dst_len src of
                     None \<Rightarrow> None
                   | Some dst \<Rightarrow> Some (dst @ replicate ((3 - length dst mod 3) mod 3) 0)))"

subsection \<open>Digits\<close>

lemma lt_args_8: "constant_time_lt_args_8 a b = mask_of (a < b)"
proof -
  have "unat (ucast a :: u64) = unat a" "unat (ucast b :: u64) = unat b"
    by simp_all
  then have "bit (ucast a - ucast b :: u64) 63 \<longleftrightarrow> a < b"
    using unat_byte_less [of a] unat_byte_less [of b]
    by (auto simp: bit_63_iff unat_sub_if' word_less_nat_alt word_le_nat_alt simp del: unat_byte_less)
  then show ?thesis by (simp add: constant_time_lt_args_8_def msb_w ucast_mask_of)
qed

lemma in_range_8:
  assumes "mn \<le> mx" "unat mx < unat mn + 255"
  shows "constant_time_in_range_8 a mn mx = mask_of (mn \<le> a \<and> a \<le> mx)"
proof -
  have "unat (mx - mn) = unat mx - unat mn" using assms(1) by (simp add: unat_sub)
  moreover from this have "unat (mx - mn + 1) = unat mx - unat mn + 1"
    using assms unat_byte_less [of mx] by (simp add: unat_word_ariths word_le_nat_alt)
  moreover have "unat (a - mn) = (if mn \<le> a then unat a - unat mn else unat a + 256 - unat mn)"
    by (simp add: unat_sub_if' word_le_nat_alt)
  ultimately have "a - mn < mx - mn + 1 \<longleftrightarrow> mn \<le> a \<and> a \<le> mx"
    using assms unat_byte_less [of mx] unat_byte_less [of mn] unat_byte_less [of a]
    by (auto simp: word_less_nat_alt word_le_nat_alt simp del: unat_byte_less)
  then show ?thesis by (simp add: constant_time_in_range_8_def lt_args_8)
qed

definition b64_digit :: "nat \<Rightarrow> byte" where
  "b64_digit n =
     word_of_nat (if n < 26 then n + 0x41 else if n < 52 then n - 26 + 0x61
                  else if n < 62 then n - 52 + 0x30 else if n = 62 then 0x2b else 0x2f)"

lemma unat_b64_digit:
  "n < 64 \<Longrightarrow> unat (b64_digit n) = (if n < 26 then n + 0x41 else if n < 52 then n - 26 + 0x61
                  else if n < 62 then n - 52 + 0x30 else if n = 62 then 0x2b else 0x2f)"
  unfolding b64_digit_def by (simp only: unat_byte_of_nat) simp

lemma eq_8_byte: "constant_time_eq_8 (ucast a) (ucast b) = mask_of (a = b)" for a b :: byte
  by (simp add: masks_8 word_unat_eq_iff)

lemma conv_bin2ascii_digit: "conv_bin2ascii a = b64_digit (unat a mod 64)"
proof -
  let ?a = "a AND 0x3f"
  have "(0x3f :: byte) = mask 6" by (simp add: mask_eq_exp_minus_1)
  then have u: "unat ?a = unat a mod 64"
    by (simp only: flip: take_bit_eq_mask) (simp add: unsigned_take_bit_eq take_bit_nat_def)
  have 64: "unat ?a < 64" unfolding u by simp
  have "conv_bin2ascii a = (if ?a < 26 then ?a + 0x41 else if ?a < 52 then ?a - 26 + 0x61
      else if ?a < 62 then ?a - 52 + 0x30 else if ?a = 62 then 0x2b else 0x2f)"
    using eq_8_byte [of ?a 62] by (simp add: conv_bin2ascii_def Let_def lt_args_8 select_8)
  then have "unat (conv_bin2ascii a) = unat (b64_digit (unat ?a))"
    using 64 by (auto simp: word_less_nat_alt unat_b64_digit unat_word_ariths unat_sub_if' word_unat_eq_iff)
  then show ?thesis by (simp only: word_unat_eq_iff u)
qed

lemma ascii_to_bin_eq:
  "base64_ascii_to_bin c =
     (if c = 0x3d then 0 else if c = 0x2f then 63 else if c = 0x2b then 62
      else if 0x30 \<le> c \<and> c \<le> 0x39 then c - 0x30 + 52
      else if 0x61 \<le> c \<and> c \<le> 0x7a then c - 0x61 + 26
      else if 0x41 \<le> c \<and> c \<le> 0x5a then c - 0x41 else 0xff)"
  using eq_8_byte [of c "0x2b"] eq_8_byte [of c "0x2f"] eq_8_byte [of c "0x3d"]
  by (simp add: base64_ascii_to_bin_def Let_def in_range_8 select_8)

lemma ascii_to_bin_digit: "n < 64 \<Longrightarrow> unat (base64_ascii_to_bin (b64_digit n)) = n"
  by (auto simp: ascii_to_bin_eq word_unat_eq_iff word_le_nat_alt unat_b64_digit unat_word_ariths unat_sub_if')

lemma b64_digit_not_equals: "n < 64 \<Longrightarrow> b64_digit n \<noteq> 0x3d"
  by (auto simp: word_unat_eq_iff unat_b64_digit)

lemma digit_ascii_to_bin:
  assumes "base64_ascii_to_bin c \<noteq> 0xff" "c \<noteq> 0x3d"
  shows "unat (base64_ascii_to_bin c) < 64" "b64_digit (unat (base64_ascii_to_bin c)) = c"
proof -
  have "unat (base64_ascii_to_bin c) < 64 \<and> unat (b64_digit (unat (base64_ascii_to_bin c))) = unat c"
    using assms unat_byte_less [of c]
    by (auto simp: ascii_to_bin_eq unat_b64_digit word_unat_eq_iff word_le_nat_alt unat_word_ariths unat_sub_if'
        split: if_splits simp del: unat_byte_less)
  then show "unat (base64_ascii_to_bin c) < 64" "b64_digit (unat (base64_ascii_to_bin c)) = c"
    by (simp_all only: word_unat_eq_iff)
qed

lemma b64_digit_inject: "m < 64 \<Longrightarrow> n < 64 \<Longrightarrow> b64_digit m = b64_digit n \<longleftrightarrow> m = n"
  by (metis ascii_to_bin_digit)

subsection \<open>Groups of three bytes\<close>

lemma unat_or_shift:
  fixes a b :: u32
  assumes "unat b < 2 ^ k" "unat a * 2 ^ k + 2 ^ k \<le> 2 ^ 32"
  shows "unat (push_bit k a OR b) = unat a * 2 ^ k + unat b"
proof -
  have b: "b = take_bit k b"
    using assms(1) by (simp only: word_unat_eq_iff unsigned_take_bit_eq take_bit_nat_eq_self)
  have "push_bit k a AND b = 0" by (subst b, rule bit_word_eqI) (auto simp: bit_simps)
  then have eq: "push_bit k a OR b = push_bit k a + b" by (rule disjunctive_add_eq_or [symmetric])
  have "unat a * 2 ^ k < 2 ^ 32" using assms(1,2) by linarith
  then have "unat (push_bit k a) = unat a * 2 ^ k" by (subst unsigned_push_bit_eq) (simp add: push_bit_eq_mult [of k "unat a"] take_bit_nat_eq_self)
  moreover have "unat a * 2 ^ k + unat b < 2 ^ 32" using assms by linarith
  ultimately show ?thesis by (simp add: eq unat_word_ariths)
qed

lemma unat_ucast_byte_u32 [simp]: "unat (ucast (b :: byte) :: u32) = unat b"
  by simp

lemma group_value:
  fixes s0 s1 s2 :: byte
  shows "unat (push_bit 16 (ucast s0) OR push_bit 8 (ucast s1) OR ucast s2 :: u32) = unat s0 * 65536 + unat s1 * 256 + unat s2"
    and "unat (push_bit 16 (ucast s0) OR push_bit 8 (ucast s1) :: u32) = unat s0 * 65536 + unat s1 * 256"
    and "unat (push_bit 16 (ucast s0) :: u32) = unat s0 * 65536"
proof -
  have a: "unat (push_bit 8 (ucast s1) OR w :: u32) = unat s1 * 256 + unat w" if "unat w < 256" for w
    using unat_or_shift [of w 8 "ucast s1"] that unat_byte_less [of s1] by simp
  have b: "unat (push_bit 16 (ucast s0) OR w :: u32) = unat s0 * 65536 + unat w" if "unat w < 65536" for w
    using unat_or_shift [of w 16 "ucast s0"] that unat_byte_less [of s0] by simp
  have c: "unat s1 * 256 + unat w < 65536" if "unat w < 256" for w :: u32
    using unat_byte_less [of s1] that by linarith
  show "unat (push_bit 16 (ucast s0) OR push_bit 8 (ucast s1) OR ucast s2 :: u32) = unat s0 * 65536 + unat s1 * 256 + unat s2"
    using a [of "ucast s2"] b [of "push_bit 8 (ucast s1) OR ucast s2"] c [of "ucast s2"] by simp
  show "unat (push_bit 16 (ucast s0) OR push_bit 8 (ucast s1) :: u32) = unat s0 * 65536 + unat s1 * 256"
    using a [of 0] b [of "push_bit 8 (ucast s1)"] c [of 0] by simp
  show "unat (push_bit 16 (ucast s0) :: u32) = unat s0 * 65536" using b [of 0] by simp
qed

lemma group_digit:
  "conv_bin2ascii (ucast (drop_bit k (l :: u32))) = b64_digit (unat l div 2 ^ k mod 64)"
proof -
  have "unat (ucast (drop_bit k l) :: byte) mod 64 = unat (drop_bit k l) mod 64"
    by (simp add: unsigned_ucast_eq take_bit_nat_def mod_mod_cancel)
  also have "unat (drop_bit k l) = unat l div 2 ^ k"
    by (simp only: unat_drop_bit_eq) (simp add: drop_bit_eq_div)
  finally show ?thesis by (simp only: conv_bin2ascii_digit)
qed

definition b64_quad :: "nat \<Rightarrow> byte list" where
  "b64_quad n = [b64_digit (n div 2 ^ 18 mod 64), b64_digit (n div 2 ^ 12 mod 64),
     b64_digit (n div 2 ^ 6 mod 64), b64_digit (n mod 64)]"

fun base64 :: "byte list \<Rightarrow> byte list" where
  "base64 (a # b # c # src) = b64_quad (unat a * 65536 + unat b * 256 + unat c) @ base64 src"
| "base64 [a, b] = take 3 (b64_quad (unat a * 65536 + unat b * 256)) @ [0x3d]"
| "base64 [a] = take 2 (b64_quad (unat a * 65536)) @ [0x3d, 0x3d]"
| "base64 [] = []"

lemma length_b64_quad [simp]: "length (b64_quad n) = 4"
  by (simp add: b64_quad_def)

lemma length_base64: "length (base64 src) = (length src + 2) div 3 * 4"
proof (induction src rule: base64.induct)
  case (1 a b c src)
  then show ?case using div_add_self2 [of 3 "length src + 2"] by simp
qed simp_all

lemma encode_block_loop: "encode_block_loop src = (base64 src, length (base64 src))"
proof (induction src rule: base64.induct)
  case (1 a b c src)
  let ?l = "push_bit 16 (ucast a) OR push_bit 8 (ucast b) OR ucast c :: u32"
  show ?case using 1 group_digit [of 0 ?l]
    by (simp add: Let_def group_digit b64_quad_def) (simp add: group_value)
next
  case (2 a b)
  show ?case by (simp add: Let_def group_digit b64_quad_def) (simp add: group_value)
next
  case (3 a)
  show ?case by (simp add: Let_def group_digit b64_quad_def) (simp add: group_value)
qed simp

lemma EVP_EncodeBlock_eq: "EVP_EncodeBlock src = (base64 src @ [0], length (base64 src))"
  by (simp add: EVP_EncodeBlock_def encode_block_loop)

lemma encode_line_eq: "encode_line src = (base64 src @ [0x0a], length (base64 src))"
  by (simp add: encode_line_def EVP_EncodeBlock_eq)

subsection \<open>Decoding a quad\<close>

lemma sextets_value:
  fixes a b c d :: byte
  assumes "unat a < 64" "unat b < 64" "unat c < 64" "unat d < 64"
  shows "unat (push_bit 18 (ucast a) OR push_bit 12 (ucast b) OR push_bit 6 (ucast c) OR ucast d :: u32) =
    unat a * 2 ^ 18 + unat b * 2 ^ 12 + unat c * 2 ^ 6 + unat d"
proof -
  have 1: "unat (push_bit 6 (ucast c) OR ucast d :: u32) = unat c * 2 ^ 6 + unat d"
    using unat_or_shift [of "ucast d" 6 "ucast c"] assms by simp
  have 2: "unat (push_bit 12 (ucast b) OR w :: u32) = unat b * 2 ^ 12 + unat w" if "unat w < 2 ^ 12" for w
    using unat_or_shift [of w 12 "ucast b"] assms that by simp
  have 3: "unat (push_bit 18 (ucast a) OR w :: u32) = unat a * 2 ^ 18 + unat w" if "unat w < 2 ^ 18" for w
    using unat_or_shift [of w 18 "ucast a"] assms that by simp
  let ?x = "push_bit 6 (ucast c) OR ucast d :: u32"
  have "unat ?x < 2 ^ 12" using assms unfolding 1 by simp
  note e2 = 2 [OF this]
  then have "unat (push_bit 12 (ucast b) OR ?x :: u32) < 2 ^ 18" using assms unfolding 1 by simp
  from 3 [OF this] show ?thesis unfolding e2 1 by simp
qed

lemma quad_bytes:
  "(ucast (drop_bit k (v :: u32)) :: byte) = word_of_nat (unat v div 2 ^ k)"
proof -
  have "unat (ucast (drop_bit k v) :: byte) = unat (drop_bit k v) mod 256"
    by (simp only: unat_ucast_mod) simp
  also have "unat (drop_bit k v) = unat v div 2 ^ k"
    by (simp only: unat_drop_bit_eq) (simp add: drop_bit_eq_div)
  finally show ?thesis by (simp only: word_unat_eq_iff unat_byte_of_nat)
qed

lemma ascii_to_bin_word: "n < 64 \<Longrightarrow> base64_ascii_to_bin (b64_digit n) = word_of_nat n"
  by (metis ascii_to_bin_digit word_of_nat_unat)

lemma ascii_to_bin_equals: "base64_ascii_to_bin 0x3d = 0"
  by (simp add: ascii_to_bin_eq)

lemma sextet_facts:
  assumes "n < 64" shows "unat (word_of_nat n :: byte) = n" "(word_of_nat n :: byte) \<noteq> 0xff"
proof -
  show "unat (word_of_nat n :: byte) = n" using assms by (simp only: unat_byte_of_nat) simp
  then show "(word_of_nat n :: byte) \<noteq> 0xff" using assms by (auto simp: word_unat_eq_iff)
qed

lemma decode_quad_values:
  fixes A B C D :: byte
  assumes "base64_ascii_to_bin i0 = A" "base64_ascii_to_bin i1 = B" "base64_ascii_to_bin i2 = C"
    "base64_ascii_to_bin i3 = D" "unat A < 64" "unat B < 64" "unat C < 64" "unat D < 64"
    and "i0 \<noteq> 0x3d" "i1 \<noteq> 0x3d"
  shows "base64_decode_quad i0 i1 i2 i3 =
    (let n = unat A * 2 ^ 18 + unat B * 2 ^ 12 + unat C * 2 ^ 6 + unat D
     in if i3 \<noteq> 0x3d then
          (if i2 \<noteq> 0x3d then Some [word_of_nat (n div 2 ^ 16), word_of_nat (n div 2 ^ 8), word_of_nat n] else None)
        else if i2 \<noteq> 0x3d then Some [word_of_nat (n div 2 ^ 16), word_of_nat (n div 2 ^ 8)]
        else Some [word_of_nat (n div 2 ^ 16)])"
proof -
  have f: "w \<noteq> 0xff" if "unat w < 64" for w :: byte using that by auto
  have u: "(ucast (w :: u32) :: byte) = word_of_nat (unat w)" for w
    using quad_bytes [of 0 w] by simp
  show ?thesis
    unfolding base64_decode_quad_def Let_def assms(1-4) quad_bytes
    unfolding u unfolding sextets_value [OF assms(5-8)]
    using f [OF assms(5)] f [OF assms(6)] f [OF assms(7)] f [OF assms(8)] assms(9,10)
    by (simp only: if_False if_True simp_thms) simp
qed

lemma decode_quad_digits:
  assumes "a < 64" "b < 64"
  shows "c < 64 \<Longrightarrow> d < 64 \<Longrightarrow> base64_decode_quad (b64_digit a) (b64_digit b) (b64_digit c) (b64_digit d) =
      (let n = a * 2 ^ 18 + b * 2 ^ 12 + c * 2 ^ 6 + d
       in Some [word_of_nat (n div 2 ^ 16), word_of_nat (n div 2 ^ 8), word_of_nat n])"
    and "c < 64 \<Longrightarrow> base64_decode_quad (b64_digit a) (b64_digit b) (b64_digit c) 0x3d =
      (let n = a * 2 ^ 18 + b * 2 ^ 12 + c * 2 ^ 6
       in Some [word_of_nat (n div 2 ^ 16), word_of_nat (n div 2 ^ 8)])"
    and "base64_decode_quad (b64_digit a) (b64_digit b) 0x3d 0x3d =
      (let n = a * 2 ^ 18 + b * 2 ^ 12 in Some [word_of_nat (n div 2 ^ 16)])"
proof -
  note v = decode_quad_values [OF ascii_to_bin_word ascii_to_bin_word]
  note ne = b64_digit_not_equals
  have lt: "unat (word_of_nat k :: byte) < 64" if "k < 64" for k using that sextet_facts by simp
  have z: "unat (0 :: byte) < 64" by simp
  show "base64_decode_quad (b64_digit a) (b64_digit b) (b64_digit c) (b64_digit d) =
      (let n = a * 2 ^ 18 + b * 2 ^ 12 + c * 2 ^ 6 + d
       in Some [word_of_nat (n div 2 ^ 16), word_of_nat (n div 2 ^ 8), word_of_nat n])" if "c < 64" "d < 64"
    using v [OF assms ascii_to_bin_word ascii_to_bin_word, OF that lt lt lt lt, OF assms that ne ne, OF assms]
    unfolding sextet_facts(1) [OF assms(1)] sextet_facts(1) [OF assms(2)] sextet_facts(1) [OF that(1)]
      sextet_facts(1) [OF that(2)] Let_def
    by (simp only: ne [OF that(1)] ne [OF that(2)] not_False_eq_True if_True)
  show "base64_decode_quad (b64_digit a) (b64_digit b) (b64_digit c) 0x3d =
      (let n = a * 2 ^ 18 + b * 2 ^ 12 + c * 2 ^ 6
       in Some [word_of_nat (n div 2 ^ 16), word_of_nat (n div 2 ^ 8)])" if "c < 64"
    using v [OF assms ascii_to_bin_word ascii_to_bin_equals, OF that lt lt lt z, OF assms that ne ne, OF assms]
    unfolding sextet_facts(1) [OF assms(1)] sextet_facts(1) [OF assms(2)] sextet_facts(1) [OF that(1)] Let_def
    by (simp only: ne [OF that(1)] simp_thms if_True if_False unsigned_0 add_0_right)
  show "base64_decode_quad (b64_digit a) (b64_digit b) 0x3d 0x3d =
      (let n = a * 2 ^ 18 + b * 2 ^ 12 in Some [word_of_nat (n div 2 ^ 16)])"
    using v [OF assms ascii_to_bin_equals ascii_to_bin_equals, OF lt lt z z, OF assms ne ne, OF assms]
    unfolding sextet_facts(1) [OF assms(1)] sextet_facts(1) [OF assms(2)] Let_def
    by (simp only: if_False simp_thms unsigned_0 add_0_right mult_0)
qed

lemma decode_quad_Some:
  assumes "base64_decode_quad i0 i1 i2 i3 = Some bs"
  obtains (full) a b c d where "a < 64" "b < 64" "c < 64" "d < 64"
      "i0 = b64_digit a" "i1 = b64_digit b" "i2 = b64_digit c" "i3 = b64_digit d"
    | (two) a b c where "a < 64" "b < 64" "c < 64" "i0 = b64_digit a" "i1 = b64_digit b" "i2 = b64_digit c" "i3 = 0x3d"
    | (one) a b where "a < 64" "b < 64" "i0 = b64_digit a" "i1 = b64_digit b" "i2 = 0x3d" "i3 = 0x3d"
proof -
  have v: "base64_ascii_to_bin i0 \<noteq> 0xff" "base64_ascii_to_bin i1 \<noteq> 0xff" "base64_ascii_to_bin i2 \<noteq> 0xff"
    "base64_ascii_to_bin i3 \<noteq> 0xff"
    using assms by (auto simp: base64_decode_quad_def Let_def split: if_splits)
  have e: "i0 \<noteq> 0x3d" "i1 \<noteq> 0x3d" "i2 = 0x3d \<Longrightarrow> i3 = 0x3d"
    using assms by (auto simp: base64_decode_quad_def Let_def split: if_splits)
  note dig = digit_ascii_to_bin(1) digit_ascii_to_bin(2) [symmetric]
  show thesis
  proof (cases "i3 = 0x3d")
    case False
    then have "i2 \<noteq> 0x3d" using e(3) by blast
    with False show thesis
      using full [OF digit_ascii_to_bin(1) [OF v(1) e(1)] digit_ascii_to_bin(1) [OF v(2) e(2)]
          digit_ascii_to_bin(1) [OF v(3)] digit_ascii_to_bin(1) [OF v(4)]
          dig(2) [OF v(1) e(1)] dig(2) [OF v(2) e(2)] dig(2) [OF v(3)] dig(2) [OF v(4)]] by blast
  next
    case True
    show thesis
    proof (cases "i2 = 0x3d")
      case True
      with \<open>i3 = 0x3d\<close> show thesis
        using one [OF digit_ascii_to_bin(1) [OF v(1) e(1)] digit_ascii_to_bin(1) [OF v(2) e(2)]
          dig(2) [OF v(1) e(1)] dig(2) [OF v(2) e(2)]] by blast
    next
      case False
      with True show thesis
        using two [OF digit_ascii_to_bin(1) [OF v(1) e(1)] digit_ascii_to_bin(1) [OF v(2) e(2)]
          digit_ascii_to_bin(1) [OF v(3)]
          dig(2) [OF v(1) e(1)] dig(2) [OF v(2) e(2)] dig(2) [OF v(3)]] by blast
    qed
  qed
qed

subsection \<open>Round trip and canonicity\<close>

lemma sextets_sum:
  fixes n :: nat
  assumes "n < 2 ^ 24"
  shows "n div 2 ^ 18 mod 64 * 2 ^ 18 + n div 2 ^ 12 mod 64 * 2 ^ 12 + n div 2 ^ 6 mod 64 * 2 ^ 6 + n mod 64 = n"
proof -
  have e: "n div 2 ^ 6 = n div 64" "n div 2 ^ 12 = n div 64 div 64" "n div 2 ^ 18 = n div 64 div 64 div 64"
    by (simp_all add: div_mult2_eq [symmetric])
  have "n div 2 ^ 18 < 64" using assms by (intro less_mult_imp_div_less) simp
  then have top: "n div 64 div 64 div 64 mod 64 = n div 64 div 64 div 64" unfolding e(3) by (rule mod_less)
  have arith: "m = ((a * 64 + b) * 64 + c) * 64 + d \<Longrightarrow> a * 2 ^ 18 + b * 2 ^ 12 + c * 2 ^ 6 + d = m"
    for m a b c d :: nat by simp
  show ?thesis unfolding e top by (rule arith) (simp only: div_mult_mod_eq)
qed

lemma bytes_sum:
  fixes n :: nat
  shows "n div 2 ^ 16 * 65536 + n div 2 ^ 8 mod 256 * 256 + n mod 256 = n"
proof -
  have e: "n div 2 ^ 8 = n div 256" "n div 2 ^ 16 = n div 256 div 256"
    by (simp_all add: div_mult2_eq [symmetric])
  have arith: "m = (a * 256 + b) * 256 + c \<Longrightarrow> a * 65536 + b * 256 + c = m" for m a b c :: nat by simp
  show ?thesis unfolding e by (rule arith) (simp only: div_mult_mod_eq)
qed

lemma group_bytes:
  fixes x y z :: byte
  defines "n \<equiv> unat x * 65536 + unat y * 256 + unat z"
  shows "n < 2 ^ 24" "word_of_nat (n div 2 ^ 16) = x" "word_of_nat (n div 2 ^ 8) = y" "word_of_nat n = z"
proof -
  note b = unat_byte_less [of x] unat_byte_less [of y] unat_byte_less [of z]
  show "n < 2 ^ 24" using b unfolding n_def by (simp del: unat_byte_less)
  have "n div 2 ^ 16 = unat x" unfolding n_def using b by (intro div_nat_eqI) (simp_all del: unat_byte_less)
  then show "word_of_nat (n div 2 ^ 16) = x" by simp
  have "n div 2 ^ 8 = unat x * 256 + unat y" unfolding n_def using b by (intro div_nat_eqI) (simp_all del: unat_byte_less)
  then have "unat (word_of_nat (n div 2 ^ 8) :: byte) = unat y" 
    using b by (simp only: unat_byte_of_nat) simp
  then show "word_of_nat (n div 2 ^ 8) = y" by (simp only: word_unat_eq_iff)
  have "n mod 256 = unat z" unfolding n_def using b by (simp add: mod_add_left_eq [symmetric])
  then have "unat (word_of_nat n :: byte) = unat z" by (simp only: unat_byte_of_nat)
  then show "word_of_nat n = z" by (simp only: word_unat_eq_iff)
qed

lemma decode_group3:
  "base64_decode_quad (b64_digit (n div 2 ^ 18 mod 64)) (b64_digit (n div 2 ^ 12 mod 64))
     (b64_digit (n div 2 ^ 6 mod 64)) (b64_digit (n mod 64)) = Some [x, y, z]"
  if "n = unat x * 65536 + unat y * 256 + unat z"
proof -
  have 64: "k mod 64 < 64" for k :: nat by simp
  show ?thesis
    unfolding decode_quad_digits(1) [OF 64 64 64 64] Let_def that
    unfolding sextets_sum [OF group_bytes(1)] group_bytes ..
qed

lemma decode_group2:
  "base64_decode_quad (b64_digit (n div 2 ^ 18 mod 64)) (b64_digit (n div 2 ^ 12 mod 64))
     (b64_digit (n div 2 ^ 6 mod 64)) 0x3d = Some [x, y]"
  if "n = unat x * 65536 + unat y * 256"
proof -
  have 64: "k mod 64 < 64" for k :: nat by simp
  have n0: "n = unat x * 65536 + unat y * 256 + unat (0 :: byte)" using that by simp
  have "unat x * 65536 + unat y * 256 = 64 * (unat x * 1024 + unat y * 4)" by simp
  then have "n mod 64 = 0" unfolding that by (simp only: mod_mult_self1_is_0)
  then have "n div 2 ^ 18 mod 64 * 2 ^ 18 + n div 2 ^ 12 mod 64 * 2 ^ 12 + n div 2 ^ 6 mod 64 * 2 ^ 6 = n"
    using sextets_sum [of n] group_bytes(1) [of x y 0, folded n0] by simp
  then show ?thesis
    unfolding decode_quad_digits(2) [OF 64 64 64] Let_def
    using group_bytes [of x y 0, folded n0] by (simp only:)
qed

lemma decode_group1:
  "base64_decode_quad (b64_digit (n div 2 ^ 18 mod 64)) (b64_digit (n div 2 ^ 12 mod 64)) 0x3d 0x3d = Some [x]"
  if "n = unat x * 65536"
proof -
  have 64: "k mod 64 < 64" for k :: nat by simp
  have n0: "n = unat x * 65536 + unat (0 :: byte) * 256 + unat (0 :: byte)" using that by simp
  have "unat x * 65536 = 64 * (unat x * 1024)" by simp
  then have "n mod 64 = 0" unfolding that by (simp only: mod_mult_self1_is_0)
  moreover have "n div 2 ^ 6 = 64 * (unat x * 16)" unfolding that by simp
  then have "n div 2 ^ 6 mod 64 = 0" by (simp only: mod_mult_self1_is_0)
  ultimately have "n div 2 ^ 18 mod 64 * 2 ^ 18 + n div 2 ^ 12 mod 64 * 2 ^ 12 = n"
    using sextets_sum [of n] group_bytes(1) [of x 0 0, folded n0] by simp
  then show ?thesis
    unfolding decode_quad_digits(3) [OF 64 64] Let_def
    using group_bytes [of x 0 0, folded n0] by (simp only:)
qed

lemma take_quad: "take 2 [w, x, y, z] = [w, x]" "take 3 [w, x, y, z] = [w, x, y]"
  by simp_all

lemma decode_quads_base64: "decode_quads (base64 src) = Some src"
proof (induction src rule: base64.induct)
  case (1 a b c src)
  let ?n = "unat a * 65536 + unat b * 256 + unat c"
  show ?case
    unfolding base64.simps(1) b64_quad_def append_Cons append_Nil decode_quads.simps(1) decode_group3 [OF refl]
    using 1 by simp
next
  case (2 a b)
  show ?case
    unfolding base64.simps(2) b64_quad_def take_quad append_Cons append_Nil
      decode_quads.simps(1) decode_group2 [OF refl] by simp
next
  case (3 a)
  show ?case
    unfolding base64.simps(3) b64_quad_def take_quad append_Cons append_Nil
      decode_quads.simps(1) decode_group1 [OF refl] by simp
qed simp

lemma base64_Cons3: "length bs = 3 \<Longrightarrow> base64 (bs @ rest) = base64 bs @ base64 rest"
  by (auto simp: length_Suc_conv numeral_3_eq_3 simp del: b64_quad_def)

lemma quad_full_canonical:
  assumes "base64_decode_quad i0 i1 i2 i3 = Some bs" "length bs = 3"
  shows "base64 bs = [i0, i1, i2, i3]"
  using assms(1)
proof (cases rule: decode_quad_Some)
  case (full a b c d)
  define n where "n = a * 2 ^ 18 + b * 2 ^ 12 + c * 2 ^ 6 + d"
  have bs: "bs = [word_of_nat (n div 2 ^ 16), word_of_nat (n div 2 ^ 8), word_of_nat n]"
    using assms(1) unfolding full(5-8) decode_quad_digits(1) [OF full(1-4)] Let_def n_def by simp
  have "n < 256 * 2 ^ 16" using full(1-4) by (simp add: n_def)
  then have "n div 2 ^ 16 < 256" by (rule less_mult_imp_div_less)
  then have u: "unat (word_of_nat (n div 2 ^ 16) :: byte) = n div 2 ^ 16" 
    by (simp only: unat_byte_of_nat mod_less)
  have d: "n div 2 ^ 18 = a" "n div 2 ^ 12 = a * 64 + b" "n div 2 ^ 6 = (a * 64 + b) * 64 + c"
    unfolding n_def using full(1-4) by (auto intro!: div_nat_eqI)
  have n: "n = ((a * 64 + b) * 64 + c) * 64 + d" by (simp add: n_def)
  have m: "(x * 64 + y) mod 64 = y" if "y < 64" for x y :: nat using that by simp
  have "n div 2 ^ 18 mod 64 = a" "n div 2 ^ 12 mod 64 = b" "n div 2 ^ 6 mod 64 = c" "n mod 64 = d"
    unfolding d using full(1-4) m n by (simp_all only: mod_less)
  then show ?thesis
    unfolding bs base64.simps unat_byte_of_nat [of "n div 2 ^ 8"] unat_byte_of_nat [of n] u bytes_sum b64_quad_def full(5-8)
    by (simp only: append_Nil2)
qed (use assms in \<open>auto simp: decode_quad_digits Let_def\<close>)

lemma length_decode_quad: "base64_decode_quad i0 i1 i2 i3 = Some bs \<Longrightarrow> length bs \<in> {1, 2, 3}"
  by (auto simp: base64_decode_quad_def Let_def split: if_splits)

lemma padded_quad: "base64_decode_quad i0 i1 i2 i3 = Some bs \<Longrightarrow> length bs \<noteq> 3 \<Longrightarrow> i3 = 0x3d"
  by (auto simp: base64_decode_quad_def Let_def split: if_splits)

lemma decode_quads_sound:
  "decode_quads s = Some bs \<Longrightarrow> length s mod 4 = 0 \<Longrightarrow>
   length (base64 bs) = length s \<and> take (length s - 4) (base64 bs) = take (length s - 4) s \<and>
   (0x3d \<notin> set s \<longrightarrow> base64 bs = s)"
proof (induction s arbitrary: bs rule: decode_quads.induct)
  case (1 i0 i1 i2 i3 src)
  then obtain q rest where q: "base64_decode_quad i0 i1 i2 i3 = Some q" and rest: "decode_quads src = Some rest"
    and bs: "bs = q @ rest" and last: "length q \<noteq> 3 \<Longrightarrow> src = []"
    by (auto split: option.splits if_splits)
  have IH: "length (base64 rest) = length src \<and> take (length src - 4) (base64 rest) = take (length src - 4) src \<and>
      (0x3d \<notin> set src \<longrightarrow> base64 rest = src)"
    using 1 q rest by (auto split: if_splits)
  show ?case
  proof (cases "length q = 3")
    case True
    note b = quad_full_canonical [OF q True] base64_Cons3 [OF True, of rest]
    show ?thesis
    proof (cases src)
      case Nil
      then show ?thesis using IH b bs by simp
    next
      case (Cons a as)
      then have "length src \<ge> 4" using "1.prems"(2) by (simp add: mod_eq_0_iff_dvd) presburger
      then obtain k where "length src = 4 + k" using le_Suc_ex by blast
      then have "length src = Suc (Suc (Suc (Suc k)))" by simp
      then show ?thesis using IH b bs by simp
    qed
  next
    case False
    then have "src = []" "i3 = 0x3d" using last padded_quad [OF q] by blast+
    moreover have "length (base64 q) = 4" using length_decode_quad [OF q] by (auto simp: length_base64)
    moreover have "rest = []" using rest \<open>src = []\<close> by simp
    ultimately show ?thesis using bs by simp
  qed
qed auto

lemma decode_quads_iff:
  assumes "length s mod 4 = 0" "0x3d \<notin> set s"
  shows "decode_quads s = Some bs \<longleftrightarrow> s = base64 bs"
  using decode_quads_sound [of s bs] decode_quads_base64 [of bs] assms by auto

subsection \<open>Encoding in pieces\<close>

function b64_lines :: "byte list \<Rightarrow> byte list" where
  "b64_lines src = (if 48 \<le> length src then base64 (take 48 src) @ [0x0a] @ b64_lines (drop 48 src) else [])"
  by pat_completeness auto
termination by (relation "measure length") auto

declare b64_lines.simps [simp del] encode_lines.simps [simp del]

definition b64_rest :: "byte list \<Rightarrow> byte list" where
  "b64_rest src = drop (length src div 48 * 48) src"

definition pem :: "byte list \<Rightarrow> byte list" where
  "pem src = b64_lines src @ (if b64_rest src = [] then [] else base64 (b64_rest src) @ [0x0a])"

lemma length_b64_rest: "length (b64_rest src) = length src mod 48" "length (b64_rest src) < 48"
  by (simp_all add: b64_rest_def minus_div_mult_eq_mod)

lemma b64_short: "length src < 48 \<Longrightarrow> b64_lines src = []" "length src < 48 \<Longrightarrow> b64_rest src = src"
  by (simp_all add: b64_lines.simps b64_rest_def)

lemma b64_long:
  assumes "48 \<le> length src"
  shows "b64_lines src = base64 (take 48 src) @ [0x0a] @ b64_lines (drop 48 src)"
    "b64_rest src = b64_rest (drop 48 src)"
proof -
  show "b64_lines src = base64 (take 48 src) @ [0x0a] @ b64_lines (drop 48 src)"
    using assms by (simp add: b64_lines.simps [of src])
  have "length src div 48 = Suc ((length src - 48) div 48)"
    using assms by (simp add: le_div_geq)
  then show "b64_rest src = b64_rest (drop 48 src)" by (simp add: b64_rest_def add.commute)
qed

lemma b64_append:
  "b64_lines (x @ y) = b64_lines x @ b64_lines (b64_rest x @ y)"
  "b64_rest (x @ y) = b64_rest (b64_rest x @ y)"
proof (induction x rule: b64_lines.induct)
  case (1 x)
  show "b64_lines (x @ y) = b64_lines x @ b64_lines (b64_rest x @ y)"
    "b64_rest (x @ y) = b64_rest (b64_rest x @ y)"
    using 1 by (cases "48 \<le> length x"; simp add: b64_short b64_long)+
qed

lemma length_b64_lines: "length (b64_lines src) = 65 * (length src div 48)"
proof (induction src rule: b64_lines.induct)
  case (1 src)
  show ?case
  proof (cases "48 \<le> length src")
    case True
    then show ?thesis using 1 by (simp add: b64_long(1) length_base64 le_div_geq)
  qed (simp add: b64_short)
qed

lemma encode_lines_eq:
  "n + 65 * (length src div 48) < 2 ^ 64 \<Longrightarrow>
   encode_lines out n src = (out @ b64_lines src, Some (n + length (b64_lines src)), b64_rest src)"
proof (induction out n src rule: encode_lines.induct)
  case (1 out n src)
  show ?case
  proof (cases "48 \<le> length src")
    case True
    have d: "length src div 48 = Suc (length (drop 48 src) div 48)" using True by (simp add: le_div_geq)
    have m: "(n + 64 + 1) mod 2 ^ 64 = n + 65"
      using "1.prems" unfolding d by (intro trans [OF mod_less]) simp_all
    have "encode_lines (out @ base64 (take 48 src) @ [0x0a]) (n + 65) (drop 48 src) =
      (out @ b64_lines src, Some (n + length (b64_lines src)), b64_rest src)"
      using "1.IH" [of "(base64 (take 48 src) @ [0x0a], 64)" "base64 (take 48 src) @ [0x0a]" 64 "drop 48 src" "out @ base64 (take 48 src) @ [0x0a]"]
        True "1.prems" m d
      by (simp add: sizeof_data_def encode_line_eq length_base64 b64_long add.commute add.left_commute)
    then show ?thesis
      using True m by (simp add: encode_lines.simps [of out] sizeof_data_def encode_line_eq length_base64)
  qed (simp add: encode_lines.simps [of out] sizeof_data_def b64_short)
qed

definition enc_holds :: "evp_encode_ctx \<Rightarrow> byte list \<Rightarrow> bool" where
  "enc_holds ctx r \<longleftrightarrow> length (ctx_data ctx) = 48 \<and> data_used ctx = length r \<and> length r < 48 \<and>
     take (length r) (ctx_data ctx) = r"

lemma enc_holds_init: "enc_holds EVP_EncodeInit []"
  by (simp add: enc_holds_def EVP_EncodeInit_def sizeof_data_def)

lemma length_memcpy_at: "off + length src \<le> length b \<Longrightarrow> length (memcpy_at b off src) = length b"
  by (simp add: memcpy_at_def)

lemma take_memcpy_at:
  "off + length src \<le> length b \<Longrightarrow> take (off + length src) (memcpy_at b off src) = take off b @ src"
  by (simp add: memcpy_at_def)

definition encode_finish :: "evp_encode_ctx \<Rightarrow> byte list \<Rightarrow> nat \<Rightarrow> byte list \<Rightarrow> evp_encode_ctx \<times> byte list \<times> nat" where
  "encode_finish ctx out n src =
     ((if src \<noteq> [] then ctx\<lparr>ctx_data := memcpy_at (ctx_data ctx) 0 src\<rparr> else ctx)\<lparr>data_used := length src\<rparr>,
      nul_after out, if n > INT_MAX then 0 else n)"

lemma encode_finish:
  assumes "length (ctx_data c) = 48" "length rest < 48" "out \<noteq> []" "length out \<le> INT_MAX"
  shows "\<exists>ctx' out'. encode_finish c out (length out) rest = (ctx', out', length out) \<and>
    take (length out) out' = out \<and> enc_holds ctx' rest"
  using assms take_memcpy_at [of 0 rest "ctx_data c"]
  by (auto simp: encode_finish_def enc_holds_def nul_after_def length_memcpy_at)

lemma EVP_EncodeUpdate_long:
  assumes "sizeof_data - data_used ctx \<le> length src" "src \<noteq> []"
  shows "data_used ctx = 0 \<Longrightarrow> encode_lines [] 0 src = (out, Some n, rest) \<Longrightarrow>
      EVP_EncodeUpdate ctx src = encode_finish ctx out n rest"
    and "data_used ctx \<noteq> 0 \<Longrightarrow> d = memcpy_at (ctx_data ctx) (data_used ctx) (take (sizeof_data - data_used ctx) src) \<Longrightarrow>
      encode_lines (base64 d @ [0x0a]) (length (base64 d) + 1) (drop (sizeof_data - data_used ctx) src) = (out, Some n, rest) \<Longrightarrow>
      EVP_EncodeUpdate ctx src = encode_finish (ctx\<lparr>ctx_data := d, data_used := 0\<rparr>) out n rest"
  using assms by (auto simp: EVP_EncodeUpdate_def encode_finish_def encode_line_eq Let_def)

lemma EVP_EncodeUpdate_correct:
  assumes h: "enc_holds ctx r" and sz: "65 * (length (r @ src) div 48) \<le> INT_MAX"
  shows "\<exists>ctx' out. EVP_EncodeUpdate ctx src = (ctx', out, length (b64_lines (r @ src))) \<and>
    take (length (b64_lines (r @ src))) out = b64_lines (r @ src) \<and> enc_holds ctx' (b64_rest (r @ src))"
proof -
  have r: "length r < 48" "data_used ctx = length r" "length (ctx_data ctx) = 48"
    "take (length r) (ctx_data ctx) = r" using h by (auto simp: enc_holds_def)
  consider (empty) "src = []" | (small) "src \<noteq> []" "length (r @ src) < 48" | (big) "48 \<le> length (r @ src)" "src \<noteq> []"
    using r by fastforce
  then show ?thesis
  proof cases
    case empty
    then show ?thesis using h r by (simp add: EVP_EncodeUpdate_def b64_short)
  next
    case small
    then have "enc_holds (ctx\<lparr>ctx_data := memcpy_at (ctx_data ctx) (length r) src, data_used := length r + length src\<rparr>) (r @ src)"
      using r by (simp add: enc_holds_def length_memcpy_at take_memcpy_at)
    moreover have "length src < 48 - length r" using small(2) by simp
    ultimately show ?thesis using small r
      by (simp add: EVP_EncodeUpdate_def sizeof_data_def b64_short)
  next
    case big
    let ?todo = "48 - length r"
    let ?rest = "b64_rest (r @ src)"
    let ?out = "b64_lines (r @ src)"
    have "?out \<noteq> []" using big by (simp add: b64_long(1))
    moreover have "length ?out \<le> INT_MAX" using sz by (simp only: length_b64_lines)
    ultimately have fin: "\<exists>ctx' out. encode_finish c ?out (length ?out) ?rest = (ctx', out, length ?out) \<and>
        take (length ?out) out = ?out \<and> enc_holds ctx' ?rest" if "length (ctx_data c) = 48" for c
      using that length_b64_rest(2) by (intro encode_finish)
    have u: "sizeof_data - data_used ctx \<le> length src" using big r by (simp add: sizeof_data_def)
    show ?thesis
    proof (cases "r = []")
      case True
      have "65 * (length src div 48) < 2 ^ 64" using sz True by (simp add: INT_MAX_def)
      then have "encode_lines [] 0 src = (?out, Some (length ?out), ?rest)"
        using encode_lines_eq [of 0 src "[]"] True by simp
      from EVP_EncodeUpdate_long(1) [OF u big(2) _ this] show ?thesis using True r fin [of ctx] by simp
    next
      case False
      let ?d = "memcpy_at (ctx_data ctx) (length r) (take ?todo src)"
      have d: "?d = take 48 (r @ src)" "length ?d = 48"
        using big r by (simp_all add: memcpy_at_def)
      have n: "65 + 65 * (length (drop ?todo src) div 48) = 65 * (length (r @ src) div 48)"
        using big r by (simp add: le_div_geq)
      have "65 + 65 * (length (drop ?todo src) div 48) < 2 ^ 64" using sz unfolding n by (simp add: INT_MAX_def)
      from encode_lines_eq [OF this, of "base64 (take 48 (r @ src)) @ [0x0a]"]
      have "encode_lines (base64 (take 48 (r @ src)) @ [0x0a]) 65 (drop ?todo src) = (?out, Some (length ?out), ?rest)"
        using big r by (simp add: b64_long length_base64)
      then have "encode_lines (base64 ?d @ [0x0a]) (length (base64 ?d) + 1) (drop (sizeof_data - data_used ctx) src) =
          (?out, Some (length ?out), ?rest)"
        using r d by (simp add: sizeof_data_def length_base64)
      from EVP_EncodeUpdate_long(2) [OF u big(2) _ _ this] show ?thesis
        using False r d fin [of "ctx\<lparr>ctx_data := ?d, data_used := 0\<rparr>"] by (simp add: sizeof_data_def)
    qed
  qed
qed

lemma EVP_EncodeFinal_correct:
  assumes "enc_holds ctx r"
  shows "\<exists>ctx' out n. EVP_EncodeFinal ctx = (ctx', out, n) \<and>
    take n out = (if r = [] then [] else base64 r @ [0x0a]) \<and> enc_holds ctx' []"
  using assms by (auto simp: enc_holds_def EVP_EncodeFinal_def encode_line_eq)

fun encode_updates :: "evp_encode_ctx \<Rightarrow> byte list list \<Rightarrow> evp_encode_ctx \<times> byte list" where
  "encode_updates ctx [] = (ctx, [])"
| "encode_updates ctx (src # srcs) =
     (let (ctx, out, n) = EVP_EncodeUpdate ctx src; (ctx, outs) = encode_updates ctx srcs
      in (ctx, take n out @ outs))"

definition encode_stream :: "byte list list \<Rightarrow> byte list" where
  "encode_stream srcs =
     (let (ctx, outs) = encode_updates EVP_EncodeInit srcs; (ctx, out, n) = EVP_EncodeFinal ctx
      in outs @ take n out)"

lemma encode_updates_correct:
  "enc_holds ctx r \<Longrightarrow> 65 * (length (r @ concat srcs) div 48) \<le> INT_MAX \<Longrightarrow>
   \<exists>ctx'. encode_updates ctx srcs = (ctx', b64_lines (r @ concat srcs)) \<and> enc_holds ctx' (b64_rest (r @ concat srcs))"
proof (induction srcs arbitrary: ctx r)
  case Nil
  then show ?case by (simp add: enc_holds_def b64_short)
next
  case (Cons src srcs)
  have split: "b64_lines (r @ concat (src # srcs)) = b64_lines (r @ src) @ b64_lines (b64_rest (r @ src) @ concat srcs)"
    "b64_rest (r @ concat (src # srcs)) = b64_rest (b64_rest (r @ src) @ concat srcs)"
    using b64_append [of "r @ src" "concat srcs"] by simp_all
  have "length (r @ src) div 48 \<le> length (r @ concat (src # srcs)) div 48" by (intro div_le_mono) simp
  then have "65 * (length (r @ src) div 48) \<le> INT_MAX" using Cons.prems(2) by linarith
  from EVP_EncodeUpdate_correct [OF Cons.prems(1) this]
  obtain ctx' out where u: "EVP_EncodeUpdate ctx src = (ctx', out, length (b64_lines (r @ src)))"
    "take (length (b64_lines (r @ src))) out = b64_lines (r @ src)" "enc_holds ctx' (b64_rest (r @ src))" by blast
  have "length (b64_rest (r @ src) @ concat srcs) \<le> length (r @ concat (src # srcs))"
    by (simp add: b64_rest_def)
  then have "65 * (length (b64_rest (r @ src) @ concat srcs) div 48) \<le> INT_MAX"
    using Cons.prems(2) div_le_mono [of _ _ 48] by (meson le_trans mult_le_mono2)
  from Cons.IH [OF u(3) this] u(1,2) split show ?case by auto
qed

lemma encode_stream_pem:
  assumes "65 * (length (concat srcs) div 48) \<le> INT_MAX"
  shows "encode_stream srcs = pem (concat srcs)"
proof -
  obtain ctx where c: "encode_updates EVP_EncodeInit srcs = (ctx, b64_lines (concat srcs))" "enc_holds ctx (b64_rest (concat srcs))"
    using encode_updates_correct [OF enc_holds_init, of srcs] assms by auto
  from EVP_EncodeFinal_correct [OF c(2)] c(1) show ?thesis
    by (auto simp: encode_stream_def pem_def)
qed

subsection \<open>Decoding in pieces\<close>

fun dec_quads :: "bool \<Rightarrow> byte list \<Rightarrow> (byte list \<times> bool \<times> byte list) option" where
  "dec_quads eof [] = Some ([], eof, [])"
| "dec_quads True (c # t) = None"
| "dec_quads False (i0 # i1 # i2 # i3 # t) =
     (case base64_decode_quad i0 i1 i2 i3 of
        None \<Rightarrow> None
      | Some bs \<Rightarrow> map_option (\<lambda>(out, r). (bs @ out, r)) (dec_quads (length bs < 3) t))"
| "dec_quads False t = Some ([], False, t)"

lemma map_prepend [simp]:
  "map_option (\<lambda>(out, r). (f out, r)) (map_option (\<lambda>(out, r). (g out, r)) x) = map_option (\<lambda>(out, r). (f (g out), r)) x"
  "map_option (\<lambda>(out, r). (out, r)) x = x"
  by (cases x; simp add: case_prod_beta)+

lemma dec_quads_append:
  "dec_quads eof (x @ y) =
    (case dec_quads eof x of None \<Rightarrow> None
     | Some (out, eof', r) \<Rightarrow> map_option (\<lambda>(out', s). (out @ out', s)) (dec_quads eof' (r @ y)))"
  by (induction eof x rule: dec_quads.induct) (auto simp: option.map_id split: option.splits)

lemma dec_quads_True: "dec_quads True t = (if t = [] then Some ([], True, []) else None)"
  by (cases t) simp_all

lemma dec_quads_decode_quads:
  "length t mod 4 = 0 \<Longrightarrow> decode_quads t = map_option fst (dec_quads False t)"
proof (induction t rule: decode_quads.induct)
  case (1 i0 i1 i2 i3 src)
  then show ?case
    using length_decode_quad [of i0 i1 i2 i3]
    by (auto simp: dec_quads_True option.map_comp o_def case_prod_beta split: option.splits)
qed auto

lemma dec_quads_rest:
  "dec_quads eof t = Some (out, e, r) \<Longrightarrow>
   (r = [] \<longleftrightarrow> length t mod 4 = 0) \<and> length r < 4 \<and> (e \<longrightarrow> r = []) \<and> length out \<le> length t \<and> length r \<le> length t"
proof (induction eof t arbitrary: out e r rule: dec_quads.induct)
  case (3 i0 i1 i2 i3 t)
  then show ?case using length_decode_quad [of i0 i1 i2 i3] by (auto split: option.splits) fastforce+
qed auto

definition strip :: "byte list \<Rightarrow> byte list" where
  "strip src = filter (\<lambda>c. \<not> is_trailer c) src"

definition dec_holds :: "evp_encode_ctx \<Rightarrow> bool \<Rightarrow> byte list \<Rightarrow> bool" where
  "dec_holds ctx eof r \<longleftrightarrow> length (ctx_data ctx) = 48 \<and> data_used ctx = length r \<and> length r < 4 \<and>
     take (length r) (ctx_data ctx) = r \<and> eof_seen ctx = eof \<and> \<not> error_encountered ctx \<and> (eof \<longrightarrow> r = [])"

lemma dec_holds_init: "dec_holds EVP_DecodeInit False []"
  by (simp add: dec_holds_def EVP_DecodeInit_def sizeof_data_def)

lemma strip_simps [simp]:
  "strip [] = []" "is_trailer c \<Longrightarrow> strip (c # s) = strip s" "\<not> is_trailer c \<Longrightarrow> strip (c # s) = c # strip s"
  "strip (s @ t) = strip s @ strip t"
  by (simp_all add: strip_def)

lemma take_4_eq:
  assumes "take 4 d = [i0, i1, i2, i3]"
  shows "d ! 0 = i0" "d ! 1 = i1" "d ! 2 = i2" "d ! 3 = i3"
  using assms nth_take [of 0 4 d] nth_take [of 1 4 d] nth_take [of 2 4 d] nth_take [of 3 4 d] by simp_all

lemma decode_update_loop_correct:
  "dec_holds ctx eof r \<Longrightarrow>
   (case dec_quads eof (r @ strip src) of
      None \<Rightarrow> \<exists>ctx' out'. decode_update_loop ctx out src = (False, ctx', out')
    | Some (bs, eof', r') \<Rightarrow> \<exists>ctx'. decode_update_loop ctx out src = (True, ctx', out @ bs) \<and> dec_holds ctx' eof' r')"
proof (induction src arbitrary: ctx eof r out)
  case Nil
  then have "dec_quads eof r = Some ([], eof, r)"
    by (cases "(eof, r)" rule: dec_quads.cases) (auto simp: dec_holds_def)
  then show ?case using Nil by simp
next
  case (Cons c src)
  show ?case
  proof (cases "is_trailer c")
    case True
    then have "decode_update_loop ctx out (c # src) = decode_update_loop ctx out src" by (auto simp: is_trailer_def)
    then show ?thesis using Cons.IH [OF Cons.prems, of out] True by (simp only: strip_simps)
  next
    case nt: False
    then have step: "decode_update_loop ctx out (c # src) =
      (if eof_seen ctx then (False, ctx\<lparr>error_encountered := True\<rparr>, out)
      else
        (let ctx = ctx\<lparr>ctx_data := (ctx_data ctx)[data_used ctx := c], data_used := data_used ctx + 1\<rparr>
         in if data_used ctx = 4 then
              (let d = ctx_data ctx
               in case base64_decode_quad (d ! 0) (d ! 1) (d ! 2) (d ! 3) of
                    None \<Rightarrow> (False, ctx\<lparr>error_encountered := True\<rparr>, out)
                  | Some bytes \<Rightarrow>
                      (let ctx = ctx\<lparr>data_used := 0\<rparr>;
                           ctx = (if length bytes < 3 then ctx\<lparr>eof_seen := True\<rparr> else ctx)
                       in decode_update_loop ctx (out @ bytes) src))
            else decode_update_loop ctx out src))"
      by (simp add: is_trailer_def del: One_nat_def)
    show ?thesis
    proof (cases eof)
      case True
      then have "r = []" "eof_seen ctx" using Cons.prems by (auto simp: dec_holds_def)
      then show ?thesis using True nt step by (simp add: dec_quads_True)
    next
      case False
      let ?d = "(ctx_data ctx)[length r := c]"
      let ?ctx = "ctx\<lparr>ctx_data := ?d, data_used := length r + 1\<rparr>"
      have r: "length (ctx_data ctx) = 48" "data_used ctx = length r" "length r < 4" "take (length r) (ctx_data ctx) = r"
        "\<not> eof_seen ctx" "\<not> error_encountered ctx"
        using Cons.prems False by (auto simp: dec_holds_def)
      have d: "take (length r + 1) ?d = r @ [c]" "length ?d = 48"
        using r by (simp_all add: take_Suc_conv_app_nth)
      show ?thesis
      proof (cases "length r = 3")
        case l3: True
        then obtain i0 i1 i2 where ri: "r = [i0, i1, i2]" by (auto simp: numeral_3_eq_3 length_Suc_conv)
        have four: "length r + 1 = 4" using l3 by simp
        have "take 4 ?d = [i0, i1, i2, c]" by (rule trans [OF d(1) [unfolded four]]) (simp add: ri)
        note nth = take_4_eq [OF this]
        show ?thesis
        proof (cases "base64_decode_quad i0 i1 i2 c")
          case None
          then show ?thesis using step r l3 nth nt False ri by simp
        next
          case (Some bs)
          let ?c = "if length bs < 3 then ?ctx\<lparr>data_used := 0, eof_seen := True\<rparr> else ?ctx\<lparr>data_used := 0\<rparr>"
          have h: "dec_holds ?c (length bs < 3) []" using r by (simp add: dec_holds_def)
          have e: "decode_update_loop ctx out (c # src) = decode_update_loop ?c (out @ bs) src"
            unfolding step using r l3 nth Some by (simp add: Let_def)
          show ?thesis using Cons.IH [OF h, of "out @ bs"] Some False nt ri unfolding e
            by (auto split: option.splits)
        qed
      next
        case l: False
        have h: "dec_holds ?ctx False (r @ [c])" using r d l by (simp add: dec_holds_def)
        have e: "decode_update_loop ctx out (c # src) = decode_update_loop ?ctx out src"
          unfolding step using r l by simp
        show ?thesis using Cons.IH [OF h, of out] nt False unfolding e by simp
      qed
    qed
  qed
qed

fun decode_updates :: "evp_encode_ctx \<Rightarrow> byte list list \<Rightarrow> (evp_encode_ctx \<times> byte list) option" where
  "decode_updates ctx [] = Some (ctx, [])"
| "decode_updates ctx (src # srcs) =
     (case EVP_DecodeUpdate ctx src of
        (ret, ctx, out, n) \<Rightarrow>
          if ret < 0 then None
          else map_option (\<lambda>(ctx, outs). (ctx, take n out @ outs)) (decode_updates ctx srcs))"

definition decode_stream :: "byte list list \<Rightarrow> byte list option" where
  "decode_stream srcs =
     (case decode_updates EVP_DecodeInit srcs of
        None \<Rightarrow> None
      | Some (ctx, outs) \<Rightarrow> if fst (EVP_DecodeFinal ctx) < 0 then None else Some outs)"

lemma EVP_DecodeUpdate_correct:
  assumes h: "dec_holds ctx eof r" and sz: "length (r @ strip src) \<le> INT_MAX"
  shows "case dec_quads eof (r @ strip src) of
      None \<Rightarrow> \<exists>ctx' out. EVP_DecodeUpdate ctx src = (-1, ctx', out, 0)
    | Some (bs, eof', r') \<Rightarrow> \<exists>ctx' ret. EVP_DecodeUpdate ctx src = (ret, ctx', bs, length bs) \<and> 0 \<le> ret \<and> dec_holds ctx' eof' r'"
proof -
  have e: "\<not> error_encountered ctx" using h by (simp add: dec_holds_def)
  have len: "length bs \<le> INT_MAX" if "dec_quads eof (r @ strip src) = Some (bs, x)" for bs x
    using dec_quads_rest [of eof "r @ strip src" bs "fst x" "snd x"] that sz by simp
  show ?thesis
    using decode_update_loop_correct [OF h, where src = src and out = "[]"] e len
    by (fastforce simp: EVP_DecodeUpdate_def split: option.splits)
qed

lemma decode_updates_correct:
  "dec_holds ctx eof r \<Longrightarrow> length (r @ strip (concat srcs)) \<le> INT_MAX \<Longrightarrow>
   (case dec_quads eof (r @ strip (concat srcs)) of
      None \<Rightarrow> decode_updates ctx srcs = None
    | Some (bs, eof', r') \<Rightarrow> \<exists>ctx'. decode_updates ctx srcs = Some (ctx', bs) \<and> dec_holds ctx' eof' r')"
proof (induction srcs arbitrary: ctx eof r)
  case Nil
  then have "dec_quads eof r = Some ([], eof, r)"
    by (cases "(eof, r)" rule: dec_quads.cases) (auto simp: dec_holds_def)
  with Nil show ?case by simp
next
  case (Cons src srcs)
  have sz: "length (r @ strip src) \<le> INT_MAX" using Cons.prems(2) by simp
  note U = EVP_DecodeUpdate_correct [OF Cons.prems(1) sz]
  have split: "dec_quads eof (r @ strip (concat (src # srcs))) =
    (case dec_quads eof (r @ strip src) of None \<Rightarrow> None
     | Some (out, eof', r') \<Rightarrow> map_option (\<lambda>(out', s). (out @ out', s)) (dec_quads eof' (r' @ strip (concat srcs))))"
    using dec_quads_append [of eof "r @ strip src" "strip (concat srcs)"] by simp
  show ?case
  proof (cases "dec_quads eof (r @ strip src)")
    case None
    with U split show ?thesis by auto
  next
    case (Some x)
    then obtain bs eof' r' where x: "dec_quads eof (r @ strip src) = Some (bs, eof', r')" by (cases x) auto
    with U obtain ctx' ret where u: "EVP_DecodeUpdate ctx src = (ret, ctx', bs, length bs)" "0 \<le> ret" "dec_holds ctx' eof' r'"
      by auto
    have "length r' \<le> length (r @ strip src)" using dec_quads_rest [OF x] by simp
    then have "length (r' @ strip (concat srcs)) \<le> INT_MAX" using Cons.prems(2) by simp
    from Cons.IH [OF u(3) this] u x split show ?thesis by (auto split: option.splits)
  qed
qed

lemma decode_stream_eq:
  assumes "length (strip (concat srcs)) \<le> INT_MAX"
  shows "decode_stream srcs =
    (if length (strip (concat srcs)) mod 4 = 0 then decode_quads (strip (concat srcs)) else None)"
proof -
  let ?t = "strip (concat srcs)"
  have C: "case dec_quads False ?t of
      None \<Rightarrow> decode_updates EVP_DecodeInit srcs = None
    | Some (bs, eof', r') \<Rightarrow> \<exists>ctx'. decode_updates EVP_DecodeInit srcs = Some (ctx', bs) \<and> dec_holds ctx' eof' r'"
    using decode_updates_correct [OF dec_holds_init, of srcs] assms by simp
  show ?thesis
  proof (cases "dec_quads False ?t")
    case None
    then show ?thesis using C dec_quads_decode_quads [of ?t] by (simp add: decode_stream_def)
  next
    case (Some x)
    then obtain bs e r where x: "dec_quads False ?t = Some (bs, e, r)" by (cases x) auto
    with C obtain ctx where c: "decode_updates EVP_DecodeInit srcs = Some (ctx, bs)" "dec_holds ctx e r" by auto
    have "fst (EVP_DecodeFinal ctx) < 0 \<longleftrightarrow> r \<noteq> []" using c(2) by (auto simp: EVP_DecodeFinal_def dec_holds_def)
    then show ?thesis
      using c dec_quads_rest [OF x] dec_quads_decode_quads [of ?t] x by (auto simp: decode_stream_def)
  qed
qed

lemma EVP_DecodeBase64_eq:
  "EVP_DecodeBase64 max_out s =
    (if length s mod 4 = 0 \<and> length s div 4 * 3 \<le> max_out then decode_quads s else None)"
  by (simp add: EVP_DecodeBase64_def EVP_DecodedLength_def)

lemma b64_digit_not_trailer: "n < 64 \<Longrightarrow> \<not> is_trailer (b64_digit n)"
  by (auto simp: is_trailer_def word_unat_eq_iff unat_b64_digit split: if_splits)

lemma quad_chars: "c \<in> set (b64_quad n) \<Longrightarrow> \<not> is_trailer c"
proof -
  assume "c \<in> set (b64_quad n)"
  then obtain k where "c = b64_digit k" "k < 64" by (auto simp: b64_quad_def)
  then show ?thesis by (simp add: b64_digit_not_trailer)
qed

lemma base64_chars: "c \<in> set (base64 src) \<Longrightarrow> \<not> is_trailer c"
proof (induction src rule: base64.induct)
  case (1 x y z src)
  then show ?case using quad_chars by auto
next
  case (2 x y)
  then show ?case using quad_chars by (auto dest!: in_set_takeD) (simp add: is_trailer_def)
next
  case (3 x)
  then show ?case using quad_chars by (auto dest!: in_set_takeD) (simp add: is_trailer_def)
qed simp

lemma strip_base64: "strip (base64 src) = base64 src"
  using base64_chars by (auto simp: strip_def filter_id_conv)

lemma base64_append48: "length a mod 3 = 0 \<Longrightarrow> base64 (a @ b) = base64 a @ base64 b"
proof (induction a rule: base64.induct)
  case (1 x y z a)
  then show ?case using mod_add_self2 [of "length a" 3] by simp
qed auto

lemma strip_pem: "strip (pem src) = base64 src"
proof -
  have nl: "is_trailer 0x0a" by (simp add: is_trailer_def)
  have lines: "strip (b64_lines src) @ base64 (b64_rest src) = base64 src"
  proof (induction src rule: b64_lines.induct)
    case (1 src)
    show ?case
    proof (cases "48 \<le> length src")
      case True
      then show ?thesis
        using 1 base64_append48 [of "take 48 src" "drop 48 src"] nl
        by (simp add: b64_long strip_base64)
    qed (simp add: b64_short)
  qed
  then show ?thesis using nl by (auto simp: pem_def strip_base64)
qed

lemma EVP_EncodedLength_eq:
  assumes "len < 2 ^ 64"
  shows "EVP_EncodedLength len =
    (if (len + 2) div 3 * 4 + 1 < 2 ^ 64 then Some ((len + 2) div 3 * 4 + 1) else None)"
proof (cases "len + 2 < 2 ^ 64")
  case False
  then have "(len + 2) mod 2 ^ 64 = len + 2 - 2 ^ 64" using assms by (simp add: mod_nat_eqI)
  then have "(len + 2) mod 2 ^ 64 < len" using assms False by simp
  moreover have "2 ^ 64 div 3 \<le> (len + 2) div 3" using False by (intro div_le_mono) simp
  then have "\<not> (len + 2) div 3 * 4 + 1 < 2 ^ 64" by simp
  ultimately show ?thesis by (simp only: EVP_EncodedLength_def if_True if_False)
next
  case True
  define k where "k = (len + 2) div 3"
  have k: "k < 2 ^ 63" unfolding k_def using True by (intro less_mult_imp_div_less) simp
  have m: "(len + 2) mod 2 ^ 64 = len + 2" using True by simp
  have lt: "\<not> len + 2 < len" by simp
  show ?thesis
  proof (cases "k < 2 ^ 62")
    case small: True
    then have "k * 4 mod 2 ^ 64 = k * 4" "(k * 4 + 1) mod 2 ^ 64 = k * 4 + 1" "k * 4 + 1 < 2 ^ 64" by simp_all
    then show ?thesis
      unfolding EVP_EncodedLength_def m Let_def k_def [symmetric] using lt by (simp only: if_False) simp
  next
    case False
    have "k * 4 mod 2 ^ 64 < 2 ^ 64" by simp
    then have "k * 4 mod 2 ^ 64 div 4 < 2 ^ 62" by (intro less_mult_imp_div_less) simp
    then have "k * 4 mod 2 ^ 64 div 4 \<noteq> k" using False by linarith
    moreover have "\<not> k * 4 + 1 < 2 ^ 64" using False by simp
    ultimately show ?thesis
      unfolding EVP_EncodedLength_def m Let_def k_def [symmetric] using lt by (simp only: if_False if_True not_False_eq_True)
  qed
qed

lemma EVP_DecodeBlock_padded:
  assumes "\<forall>c \<in> set pre. is_blank c" "\<forall>c \<in> set post. is_trailer c" "length (base64 src) \<le> INT_MAX"
  shows "EVP_DecodeBlock (pre @ base64 src @ post) = Some (src @ replicate ((3 - length src mod 3) mod 3) 0)"
proof -
  have bl: "is_blank c \<Longrightarrow> is_trailer c" for c by (auto simp: is_blank_def is_trailer_def)
  have nt: "\<forall>c \<in> set (base64 src). \<not> is_trailer c" using base64_chars by blast
  have l4: "length (base64 src) mod 4 = 0" by (simp add: length_base64)
  have d3: "length (base64 src) div 4 * 3 \<le> INT_MAX"
    using assms(3) div_times_less_eq_dividend [of "length (base64 src)" 4] by linarith
  have post: "dropWhile is_trailer (rev post @ w) = dropWhile is_trailer w" for w
    using assms(2) by (intro dropWhile_append2) simp
  have t: "rev (dropWhile is_trailer (rev (base64 src @ post))) = base64 src"
    using nt assms(2) by (cases "base64 src" rule: rev_cases) (auto simp: post dropWhile_eq_Nil_conv)
  show ?thesis
  proof (cases "base64 src = []")
    case True
    then have src: "src = []" by (cases src rule: base64.cases) (simp_all add: b64_quad_def)
    have e: "dropWhile is_trailer (rev (dropWhile is_blank (pre @ post))) = []"
      using assms(1,2) bl by (auto simp: dropWhile_eq_Nil_conv dest!: set_dropWhileD)
    show ?thesis
      unfolding EVP_DecodeBlock_def Let_def src base64.simps append_Nil e
      by (simp add: EVP_DecodedLength_def EVP_DecodeBase64_eq)
  next
    case False
    then have pre: "dropWhile is_blank (pre @ base64 src @ post) = base64 src @ post"
      using assms(1) nt bl by (simp add: dropWhile_append2) (cases "base64 src"; auto)
    show ?thesis
      unfolding EVP_DecodeBlock_def pre Let_def t
      using l4 d3 decode_quads_base64 [of src]
      by (simp add: EVP_DecodedLength_def EVP_DecodeBase64_eq)
  qed
qed

section \<open>Properties\<close>

text \<open>C17. Base64 text decodes to what was encoded, and to nothing else. Text without padding is
  accepted with room for its result if and only if it is the encoding of what is returned;
  padded text is accepted only if the encoding of the result has its length and agrees with
  it up to the last group of four characters; and \<^verbatim>\<open>EVP_EncodeBlock\<close> followed by
  \<^verbatim>\<open>EVP_DecodeBase64\<close> is the identity.\<close>

theorem base64_block_exact:
  "(0x3d \<notin> set s \<longrightarrow> (EVP_DecodeBase64 room s = Some bs \<longleftrightarrow>
      length s div 4 * 3 \<le> room \<and> EVP_EncodeBlock bs = (s @ [0], length s))) \<and>
   (EVP_DecodeBase64 room s = Some bs \<longrightarrow>
      (\<exists>t. EVP_EncodeBlock bs = (t @ [0], length s) \<and> take (length s - 4) t = take (length s - 4) s)) \<and>
   (EVP_EncodeBlock bs = (t @ [0], n) \<longrightarrow> n div 4 * 3 \<le> room \<longrightarrow> EVP_DecodeBase64 room t = Some bs)"
proof (intro conjI impI)
  have l4: "length (base64 x) mod 4 = 0" for x by (simp add: length_base64)
  show "EVP_DecodeBase64 room s = Some bs \<longleftrightarrow>
      length s div 4 * 3 \<le> room \<and> EVP_EncodeBlock bs = (s @ [0], length s)" if "0x3d \<notin> set s"
    using decode_quads_iff [OF _ that, of bs] l4 [of bs]
    by (auto simp: EVP_DecodeBase64_eq EVP_EncodeBlock_eq)
  show "\<exists>t. EVP_EncodeBlock bs = (t @ [0], length s) \<and> take (length s - 4) t = take (length s - 4) s"
    if "EVP_DecodeBase64 room s = Some bs"
    using that decode_quads_sound [of s bs] by (auto simp: EVP_DecodeBase64_eq EVP_EncodeBlock_eq split: if_splits)
  show "EVP_DecodeBase64 room t = Some bs" if "EVP_EncodeBlock bs = (t @ [0], n)" "n div 4 * 3 \<le> room"
    using that decode_quads_base64 l4 by (auto simp: EVP_DecodeBase64_eq EVP_EncodeBlock_eq)
qed

theorem base64_block_exact_witness:
  "EVP_EncodeBlock [0x66, 0x6f] = ([0x5a, 0x6d, 0x38, 0x3d] @ [0], 4) \<and>
   EVP_DecodeBase64 3 [0x5a, 0x6d, 0x38, 0x3d] = Some [0x66, 0x6f] \<and>
   EVP_DecodeBase64 3 [0x5a, 0x6d, 0x39, 0x76] = Some [0x66, 0x6f, 0x6f]"
proof -
  have e: "EVP_EncodeBlock [0x66, 0x6f] = ([0x5a, 0x6d, 0x38, 0x3d] @ [0], 4)"
    "EVP_EncodeBlock [0x66, 0x6f, 0x6f] = ([0x5a, 0x6d, 0x39, 0x76] @ [0], 4)"
    by (simp_all add: EVP_EncodeBlock_eq b64_quad_def b64_digit_def take_quad)
  have "0x3d \<notin> set [0x5a, 0x6d, 0x39, 0x76 :: byte]" by simp
  with e base64_block_exact [of "[0x5a, 0x6d, 0x39, 0x76]" 3 "[0x66, 0x6f, 0x6f]"]
    base64_block_exact [of "[]" 3 "[0x66, 0x6f]" "[0x5a, 0x6d, 0x38, 0x3d]" 4] show ?thesis by simp
qed

text \<open>C20. Streaming is invisible. Input fed to \<^verbatim>\<open>EVP_EncodeUpdate\<close> in any pieces gives the base64
  text of the whole input in lines of 64 characters, and that text, fed to \<^verbatim>\<open>EVP_DecodeUpdate\<close>
  in any other pieces, gives the input back (inputs of at most a gigabyte, so that no output
  length exceeds \<^verbatim>\<open>INT_MAX\<close>).\<close>

theorem base64_stream_roundtrip:
  assumes "length (concat srcs) \<le> 2 ^ 30" "concat pieces = encode_stream srcs"
  shows "encode_stream srcs = pem (concat srcs) \<and> decode_stream pieces = Some (concat srcs)"
proof -
  have "length (concat srcs) div 48 \<le> 2 ^ 30 div 48" using assms(1) by (rule div_le_mono)
  then have e: "encode_stream srcs = pem (concat srcs)"
    by (intro encode_stream_pem) (simp add: INT_MAX_def)
  have "(length (concat srcs) + 2) div 3 \<le> (2 ^ 30 + 2) div 3" using assms(1) by (intro div_le_mono) simp
  then have "length (base64 (concat srcs)) \<le> INT_MAX" unfolding length_base64 by (simp add: INT_MAX_def)
  moreover have "length (base64 (concat srcs)) mod 4 = 0" by (simp add: length_base64)
  moreover have "strip (concat pieces) = base64 (concat srcs)" using assms(2) e strip_pem by simp
  ultimately show ?thesis using e decode_stream_eq [of pieces] decode_quads_base64 by simp
qed

theorem base64_stream_roundtrip_witness:
  "encode_stream [[0x66], [0x6f]] = [0x5a, 0x6d, 0x38, 0x3d, 0x0a] \<and>
   decode_stream [[0x5a, 0x6d, 0x38], [0x3d], [0x0a]] = Some [0x66, 0x6f]"
proof -
  have p: "pem (concat [[0x66], [0x6f]]) = [0x5a, 0x6d, 0x38, 0x3d, 0x0a]"
    by (simp add: pem_def b64_short b64_quad_def b64_digit_def take_quad)
  have s: "encode_stream [[0x66], [0x6f]] = pem (concat [[0x66], [0x6f]])"
    by (rule encode_stream_pem) (simp add: INT_MAX_def)
  from base64_stream_roundtrip [of "[[0x66], [0x6f]]" "[[0x5a, 0x6d, 0x38], [0x3d], [0x0a]]"]
  show ?thesis unfolding s p by simp
qed

text \<open>C31. The streaming decoder is the block decoder. Whatever the pieces, and whether or not the text
  is valid, it accepts exactly the texts that \<^verbatim>\<open>EVP_DecodeBase64\<close> accepts once blanks and line
  breaks are removed, with the same result; in particular nothing but such characters may
  follow the padding.\<close>

theorem base64_stream_decoder_is_block_decoder:
  assumes "length (strip (concat srcs)) \<le> INT_MAX"
  shows "decode_stream srcs = EVP_DecodeBase64 INT_MAX (strip (concat srcs))"
proof -
  have "length (strip (concat srcs)) div 4 * 3 \<le> length (strip (concat srcs))"
    using div_times_less_eq_dividend [of "length (strip (concat srcs))" 4] by linarith
  then show ?thesis using assms by (simp add: decode_stream_eq [OF assms] EVP_DecodeBase64_eq)
qed

theorem base64_stream_decoder_is_block_decoder_witness:
  "decode_stream [[0x5a, 0x6d, 0x38, 0x3d, 0x41]] = EVP_DecodeBase64 INT_MAX [0x5a, 0x6d, 0x38, 0x3d, 0x41]"
proof -
  have "strip (concat [[0x5a, 0x6d, 0x38, 0x3d, 0x41]]) = [0x5a, 0x6d, 0x38, 0x3d, 0x41]"
    by (simp add: strip_def is_trailer_def)
  with base64_stream_decoder_is_block_decoder [of "[[0x5a, 0x6d, 0x38, 0x3d, 0x41]]"] show ?thesis
    by (simp add: INT_MAX_def)
qed

text \<open>\<^verbatim>\<open>EVP_EncodedLength\<close> is exact. For every input length of a C object it gives the number
  of bytes \<^verbatim>\<open>EVP_EncodeBlock\<close> writes, its terminating NUL included, or reports failure exactly
  when that number does not fit \<^verbatim>\<open>size_t\<close>: none of its three overflow checks is too weak or
  too strong.\<close>

lemma EVP_EncodedLength_exact:
  assumes "length src < 2 ^ 64"
  shows "EVP_EncodedLength (length src) =
    (if length (fst (EVP_EncodeBlock src)) < 2 ^ 64 then Some (length (fst (EVP_EncodeBlock src))) else None)"
  using EVP_EncodedLength_eq [OF assms] by (simp add: EVP_EncodeBlock_eq length_base64)

lemma EVP_EncodedLength_exact_witness: "EVP_EncodedLength 2 = Some 5"
proof -
  have len: "length [0 :: byte, 0] = 2" "length (fst (EVP_EncodeBlock [0, 0])) = 5"
    by (simp_all add: EVP_EncodeBlock_eq length_base64)
  show ?thesis using EVP_EncodedLength_exact [of "[0, 0]"] unfolding len by simp
qed

text \<open>The header says that \<^verbatim>\<open>EVP_DecodeBlock\<close> strips leading whitespace and trailing whitespace
  and minuses. It strips neither a trailing minus nor a leading line break.\<close>

lemma EVP_DecodeBlock_keeps_minus:
  "EVP_DecodeBlock [0x41, 0x41, 0x41, 0x41, 0x2d, 0x2d, 0x2d, 0x2d] = None"
  "EVP_DecodeBlock [0x0a, 0x41, 0x41, 0x41, 0x41, 0x20, 0x0a] = None"
  by (simp_all add: EVP_DecodeBlock_def EVP_DecodedLength_def EVP_DecodeBase64_eq is_blank_def is_trailer_def
      base64_decode_quad_def ascii_to_bin_eq INT_MAX_def word_le_nat_alt)

end
