(* ===== verification/Stack.thy ===== *)
theory Stack
  imports Mem "HOL-Library.Multiset"
begin

text \<open>The pointer stack of \<^verbatim>\<open>crypto/stack/stack.c\<close>. A \<^verbatim>\<open>void *\<close> is an \<open>'a option\<close>, \<open>None\<close>
  the null pointer; a comparison function is an element of \<open>'c\<close>, called through
  \<open>call_cmp_func\<close> as the code calls it, so that \<^verbatim>\<open>sk_set_cmp_func\<close> can compare function
  pointers. A null \<^verbatim>\<open>_STACK *\<close> is \<open>None\<close>. The array has \<open>num_alloc\<close> slots; what
  \<^verbatim>\<open>realloc\<close> leaves in new slots is indeterminate in C, modelled as null, and never read:
  the contents of a stack, \<open>sk_list\<close>, are its first \<open>num\<close> slots. The C library's
  \<^verbatim>\<open>qsort\<close> is a parameter. Releasing memory has no effect in the model; the functions that free
  elements give the list of the elements they free.\<close>

record ('c, 'a) stack =
  st_num :: nat
  st_data :: "'a option list"
  st_sorted :: bool
  st_num_alloc :: nat
  st_comp :: "'c option"

definition kMinSize :: nat where "kMinSize = 4"

definition sizeof_STACK :: nat where "sizeof_STACK = 40"

definition realloc_ptrs :: "libc_malloc \<Rightarrow> 'a option list \<Rightarrow> nat \<Rightarrow> 'a option list option" where
  "realloc_ptrs m old alloc_size =
     (case OPENSSL_malloc m alloc_size of
        None \<Rightarrow> None
      | Some _ \<Rightarrow> Some (take (alloc_size div 8) old @ replicate (alloc_size div 8 - length old) None))"

definition sk_new :: "libc_malloc \<Rightarrow> 'c option \<Rightarrow> ('c, 'a) stack option" where
  "sk_new m cmp =
     (case OPENSSL_malloc m sizeof_STACK of
        None \<Rightarrow> None
      | Some _ \<Rightarrow>
         (case OPENSSL_malloc m (8 * kMinSize) of
            None \<Rightarrow> None
          | Some _ \<Rightarrow> Some \<lparr>st_num = 0, st_data = replicate kMinSize None, st_sorted = False,
                           st_num_alloc = kMinSize, st_comp = cmp\<rparr>))"

definition sk_new_null :: "libc_malloc \<Rightarrow> ('c, 'a) stack option" where
  "sk_new_null m = sk_new m None"

definition sk_num :: "('c, 'a) stack option \<Rightarrow> nat" where
  "sk_num sk = (case sk of None \<Rightarrow> 0 | Some sk \<Rightarrow> st_num sk)"

definition sk_zero :: "('c, 'a) stack option \<Rightarrow> ('c, 'a) stack option" where
  "sk_zero sk =
     (case sk of
        None \<Rightarrow> None
      | Some s \<Rightarrow>
          if st_num s = 0 then sk
          else Some (s\<lparr>st_data := replicate (st_num s) None @ drop (st_num s) (st_data s), st_num := 0, st_sorted := False\<rparr>))"

definition sk_value :: "('c, 'a) stack option \<Rightarrow> nat \<Rightarrow> 'a option" where
  "sk_value sk i = (case sk of None \<Rightarrow> None | Some sk \<Rightarrow> if i \<ge> st_num sk then None else st_data sk ! i)"

definition sk_set :: "('c, 'a) stack option \<Rightarrow> nat \<Rightarrow> 'a option \<Rightarrow> 'a option \<times> ('c, 'a) stack option" where
  "sk_set sk i v =
     (case sk of
        None \<Rightarrow> (None, None)
      | Some s \<Rightarrow> if i \<ge> st_num s then (None, sk) else (v, Some (s\<lparr>st_data := (st_data s)[i := v]\<rparr>)))"

fun free_elements :: "nat \<Rightarrow> nat \<Rightarrow> 'a option list \<Rightarrow> 'a list" where
  "free_elements i 0 d = []"
| "free_elements i (Suc k) d = (case d ! i of None \<Rightarrow> [] | Some p \<Rightarrow> [p]) @ free_elements (Suc i) k d"

definition sk_pop_free_ex :: "('c, 'a) stack option \<Rightarrow> 'a list" where
  "sk_pop_free_ex sk = (case sk of None \<Rightarrow> [] | Some sk \<Rightarrow> free_elements 0 (st_num sk) (st_data sk))"

definition sk_pop_free :: "('c, 'a) stack option \<Rightarrow> 'a list" where
  "sk_pop_free sk = sk_pop_free_ex sk"

definition sk_grow :: "libc_malloc \<Rightarrow> ('c, 'a) stack \<Rightarrow> ('c, 'a) stack option" where
  "sk_grow m s =
     (if st_num_alloc s \<le> st_num s + 1 then
        (let new_alloc = st_num_alloc s * 2 mod 2 ^ 64;
             alloc_size = new_alloc * 8 mod 2 ^ 64;
             (new_alloc, alloc_size) =
               (if new_alloc < st_num_alloc s \<or> alloc_size div 8 \<noteq> new_alloc then
                  (let new_alloc = (st_num_alloc s + 1) mod 2 ^ 64 in (new_alloc, new_alloc * 8 mod 2 ^ 64))
                else (new_alloc, alloc_size))
         in if new_alloc < st_num_alloc s \<or> alloc_size div 8 \<noteq> new_alloc then None
            else (case realloc_ptrs m (st_data s) alloc_size of
                    None \<Rightarrow> None
                  | Some data \<Rightarrow> Some (s\<lparr>st_data := data, st_num_alloc := new_alloc\<rparr>)))
      else Some s)"

definition sk_insert :: "libc_malloc \<Rightarrow> ('c, 'a) stack option \<Rightarrow> 'a option \<Rightarrow> nat \<Rightarrow> nat \<times> ('c, 'a) stack option" where
  "sk_insert m sk p pos =
     (case sk of
        None \<Rightarrow> (0, None)
      | Some s \<Rightarrow>
         (case sk_grow m s of
            None \<Rightarrow> (0, sk)
          | Some s \<Rightarrow>
             (let data =
                (if pos \<ge> st_num s then (st_data s)[st_num s := p]
                 else (take (pos + 1) (st_data s) @ take (st_num s - pos) (drop pos (st_data s)) @
                       drop (st_num s + 1) (st_data s))[pos := p])
              in (st_num s + 1, Some (s\<lparr>st_data := data, st_num := st_num s + 1, st_sorted := False\<rparr>)))))"

definition sk_delete :: "('c, 'a) stack option \<Rightarrow> nat \<Rightarrow> 'a option \<times> ('c, 'a) stack option" where
  "sk_delete sk pos =
     (case sk of
        None \<Rightarrow> (None, None)
      | Some s \<Rightarrow>
          if pos \<ge> st_num s then (None, sk)
          else
            (let ret = st_data s ! pos;
                 data = (if pos \<noteq> st_num s - 1 then
                           take pos (st_data s) @ take (st_num s - pos - 1) (drop (pos + 1) (st_data s)) @
                           drop (st_num s - 1) (st_data s)
                         else st_data s)
             in (ret, Some (s\<lparr>st_data := data, st_num := st_num s - 1\<rparr>))))"

fun ptr_index :: "nat \<Rightarrow> nat \<Rightarrow> 'a option list \<Rightarrow> ('a option \<Rightarrow> bool) \<Rightarrow> nat option" where
  "ptr_index i 0 d P = None"
| "ptr_index i (Suc k) d P = (if P (d ! i) then Some i else ptr_index (Suc i) k d P)"

definition sk_delete_ptr :: "('c, 'a) stack option \<Rightarrow> 'a option \<Rightarrow> 'a option \<times> ('c, 'a) stack option" where
  "sk_delete_ptr sk p =
     (case sk of
        None \<Rightarrow> (None, None)
      | Some s \<Rightarrow>
         (case ptr_index 0 (st_num s) (st_data s) (\<lambda>q. q = p) of
            None \<Rightarrow> (None, sk)
          | Some i \<Rightarrow> sk_delete sk i))"

definition sk_is_sorted :: "('c, 'a) stack option \<Rightarrow> bool" where
  "sk_is_sorted sk = (case sk of None \<Rightarrow> True | Some sk \<Rightarrow> st_sorted sk)"

function search_sorted :: "('a option \<Rightarrow> int) \<Rightarrow> 'a option list \<Rightarrow> nat \<Rightarrow> nat \<Rightarrow> nat option" where
  "search_sorted cmp d lo hi =
     (if lo < hi then
        (let mid = lo + (hi - lo - 1) div 2;
             r = cmp (d ! mid)
         in if r > 0 then search_sorted cmp d (mid + 1) hi
            else if r < 0 then search_sorted cmp d lo mid
            else if hi - lo = 1 then Some mid
            else search_sorted cmp d lo (mid + 1))
      else None)"
  by pat_completeness auto
termination
  by (relation "measure (\<lambda>(cmp, d, lo, hi). hi - lo)") (auto simp: less_mult_imp_div_less)

definition sk_find :: "('c \<Rightarrow> 'a option \<Rightarrow> 'a option \<Rightarrow> int) \<Rightarrow> ('c, 'a) stack option \<Rightarrow> 'a option \<Rightarrow> nat option" where
  "sk_find call_cmp_func sk p =
     (case sk of
        None \<Rightarrow> None
      | Some s \<Rightarrow>
         (case st_comp s of
            None \<Rightarrow> ptr_index 0 (st_num s) (st_data s) (\<lambda>q. q = p)
          | Some cmp \<Rightarrow>
              if p = None then None
              else if \<not> sk_is_sorted sk then ptr_index 0 (st_num s) (st_data s) (\<lambda>q. call_cmp_func cmp p q = 0)
              else search_sorted (call_cmp_func cmp p) (st_data s) 0 (st_num s)))"

definition sk_shift :: "('c, 'a) stack option \<Rightarrow> 'a option \<times> ('c, 'a) stack option" where
  "sk_shift sk =
     (case sk of None \<Rightarrow> (None, None) | Some s \<Rightarrow> if st_num s = 0 then (None, sk) else sk_delete sk 0)"

definition sk_push :: "libc_malloc \<Rightarrow> ('c, 'a) stack option \<Rightarrow> 'a option \<Rightarrow> nat \<times> ('c, 'a) stack option" where
  "sk_push m sk p = sk_insert m sk p (sk_num sk)"

definition sk_pop :: "('c, 'a) stack option \<Rightarrow> 'a option \<times> ('c, 'a) stack option" where
  "sk_pop sk =
     (case sk of None \<Rightarrow> (None, None) | Some s \<Rightarrow> if st_num s = 0 then (None, sk) else sk_delete sk (st_num s - 1))"

definition sk_dup :: "libc_malloc \<Rightarrow> ('c, 'a) stack option \<Rightarrow> ('c, 'a) stack option" where
  "sk_dup m sk =
     (case sk of
        None \<Rightarrow> None
      | Some s \<Rightarrow>
         (case sk_new m (st_comp s) of
            None \<Rightarrow> None
          | Some ret \<Rightarrow>
             (case realloc_ptrs m (st_data ret) (8 * st_num_alloc s mod 2 ^ 64) of
                None \<Rightarrow> None
              | Some data \<Rightarrow>
                  Some (ret\<lparr>st_num := st_num s, st_data := take (st_num s) (st_data s) @ drop (st_num s) data,
                           st_sorted := st_sorted s, st_num_alloc := st_num_alloc s, st_comp := st_comp s\<rparr>))))"

definition sk_sort ::
    "(('a option \<Rightarrow> 'a option \<Rightarrow> int) \<Rightarrow> 'a option list \<Rightarrow> 'a option list) \<Rightarrow>
     ('c \<Rightarrow> 'a option \<Rightarrow> 'a option \<Rightarrow> int) \<Rightarrow> ('c, 'a) stack option \<Rightarrow> ('c, 'a) stack option" where
  "sk_sort qsort call_cmp_func sk =
     (case sk of
        None \<Rightarrow> None
      | Some s \<Rightarrow>
         (case st_comp s of
            None \<Rightarrow> sk
          | Some cmp \<Rightarrow>
              if st_sorted s then sk
              else
                (let data = (if st_num s \<ge> 2 then
                               qsort (call_cmp_func cmp) (take (st_num s) (st_data s)) @ drop (st_num s) (st_data s)
                             else st_data s)
                 in Some (s\<lparr>st_data := data, st_sorted := True\<rparr>))))"

definition sk_set_cmp_func :: "('c, 'a) stack \<Rightarrow> 'c option \<Rightarrow> 'c option \<times> ('c, 'a) stack" where
  "sk_set_cmp_func sk cmp =
     (let old = st_comp sk;
          sk = (if st_comp sk \<noteq> cmp then sk\<lparr>st_sorted := False\<rparr> else sk)
      in (old, sk\<lparr>st_comp := cmp\<rparr>))"

fun deep_copy_loop :: "('a \<Rightarrow> 'a option) \<Rightarrow> nat \<Rightarrow> nat \<Rightarrow> 'a option list \<Rightarrow> ('a list + 'a option list)" where
  "deep_copy_loop copy i 0 d = Inr d"
| "deep_copy_loop copy i (Suc k) d =
     (case d ! i of
        None \<Rightarrow> deep_copy_loop copy (Suc i) k d
      | Some p \<Rightarrow>
         (case copy p of
            None \<Rightarrow> Inl (free_elements 0 i (d[i := None]))
          | Some q \<Rightarrow> deep_copy_loop copy (Suc i) k (d[i := Some q])))"

definition sk_deep_copy ::
    "libc_malloc \<Rightarrow> ('a \<Rightarrow> 'a option) \<Rightarrow> ('c, 'a) stack option \<Rightarrow> ('c, 'a) stack option \<times> 'a list" where
  "sk_deep_copy m copy sk =
     (case sk_dup m sk of
        None \<Rightarrow> (None, [])
      | Some ret \<Rightarrow>
         (case deep_copy_loop copy 0 (st_num ret) (st_data ret) of
            Inl freed \<Rightarrow> (None, freed)
          | Inr data \<Rightarrow> (Some (ret\<lparr>st_data := data\<rparr>), [])))"

subsection \<open>The contents of a stack\<close>

definition sk_inv :: "('c, 'a) stack \<Rightarrow> bool" where
  "sk_inv s \<longleftrightarrow> length (st_data s) = st_num_alloc s \<and> st_num s < st_num_alloc s \<and> st_num_alloc s * 8 < 2 ^ 63"

definition sk_list :: "('c, 'a) stack \<Rightarrow> 'a option list" where
  "sk_list s = take (st_num s) (st_data s)"

lemma length_sk_list: "sk_inv s \<Longrightarrow> length (sk_list s) = st_num s"
  by (simp add: sk_inv_def sk_list_def)

lemma nth_sk_list: "i < st_num s \<Longrightarrow> sk_list s ! i = st_data s ! i"
  by (simp add: sk_list_def)

lemma malloc_bound:
  assumes "malloc_ok m" "OPENSSL_malloc m n = Some b" "n + 8 < 2 ^ 64"
  shows "n < 2 ^ 63"
  using assms by (fastforce simp: OPENSSL_malloc_def OPENSSL_MALLOC_PREFIX_def malloc_ok_def split: option.splits)

lemma sk_new_inv: "sk_new m cmp = Some s \<Longrightarrow> sk_inv s \<and> sk_list s = [] \<and> st_comp s = cmp \<and> \<not> st_sorted s"
  by (auto simp: sk_new_def sk_inv_def sk_list_def kMinSize_def split: option.splits)

lemma sk_grow_inv:
  assumes m: "malloc_ok m" and s: "sk_inv s" and g: "sk_grow m s = Some s'"
  shows "sk_inv s' \<and> st_num s' + 1 < st_num_alloc s' \<and> sk_list s' = sk_list s \<and> st_num s' = st_num s \<and>
    st_comp s' = st_comp s \<and> st_sorted s' = st_sorted s"
proof (cases "st_num_alloc s \<le> st_num s + 1")
  case False
  then show ?thesis using g s by (simp add: sk_grow_def)
next
  case True
  let ?n = "st_num_alloc s"
  have n: "?n * 8 < 2 ^ 63" "length (st_data s) = ?n" "st_num s < ?n" using s by (auto simp: sk_inv_def)
  have e: "?n * 2 mod 2 ^ 64 = ?n * 2" "?n * 2 * 8 mod 2 ^ 64 = ?n * 2 * 8"
    using n(1) by (intro mod_less; simp)+
  have "\<not> (?n * 2 < ?n \<or> ?n * 2 * 8 div 8 \<noteq> ?n * 2)" by simp
  then have "sk_grow m s = (case realloc_ptrs m (st_data s) (?n * 2 * 8) of
                    None \<Rightarrow> None
                  | Some data \<Rightarrow> Some (s\<lparr>st_data := data, st_num_alloc := ?n * 2\<rparr>))"
    using True unfolding sk_grow_def Let_def e by (simp only: if_True if_False prod.case)
  with g obtain data where d: "realloc_ptrs m (st_data s) (?n * 2 * 8) = Some data"
    "s' = s\<lparr>st_data := data, st_num_alloc := ?n * 2\<rparr>" by (auto split: option.splits)
  then obtain b where "OPENSSL_malloc m (?n * 2 * 8) = Some b"
    and data: "data = take (?n * 2 * 8 div 8) (st_data s) @ replicate (?n * 2 * 8 div 8 - length (st_data s)) None"
    by (auto simp: realloc_ptrs_def split: option.splits)
  moreover have "?n * 2 * 8 + 8 < 2 ^ 64" using n(1) by simp
  ultimately have "?n * 2 * 8 < 2 ^ 63" by (intro malloc_bound [OF m])
  moreover have "data = st_data s @ replicate ?n None" using data n(2) by simp
  ultimately show ?thesis using n True unfolding d(2) by (simp add: sk_inv_def sk_list_def)
qed

lemma sk_insert_list:
  assumes m: "malloc_ok m" and s: "sk_inv s" and i: "sk_insert m (Some s) p pos = (n, r)"
  shows "n = 0 \<and> r = Some s \<or>
    (\<exists>s'. r = Some s' \<and> sk_inv s' \<and> n = st_num s + 1 \<and> sk_list s' = take pos (sk_list s) @ [p] @ drop pos (sk_list s) \<and>
      st_comp s' = st_comp s \<and> \<not> st_sorted s')"
proof (cases "sk_grow m s")
  case None
  then show ?thesis using i by (simp add: sk_insert_def)
next
  case (Some g)
  note G = sk_grow_inv [OF m s Some]
  let ?d = "st_data g" and ?k = "st_num g"
  define D where "D = (if pos \<ge> ?k then ?d[?k := p]
     else (take (pos + 1) ?d @ take (?k - pos) (drop pos ?d) @ drop (?k + 1) ?d)[pos := p])"
  have r: "n = ?k + 1" "r = Some (g\<lparr>st_data := D, st_num := ?k + 1, st_sorted := False\<rparr>)"
    using i Some unfolding sk_insert_def Let_def D_def by (auto simp only: option.case prod.inject)
  have k: "?k + 1 < length ?d" using G by (simp add: sk_inv_def)
  have len: "length D = length ?d" using k by (auto simp: D_def)
  have T: "take (?k + 1) D = take pos (take ?k ?d) @ [p] @ drop pos (take ?k ?d)"
  proof (cases "pos \<ge> ?k")
    case True
    then show ?thesis using k by (simp add: D_def take_Suc_conv_app_nth)
  next
    case False
    have "take (?k + 1) ((take (pos + 1) ?d @ take (?k - pos) (drop pos ?d) @ drop (?k + 1) ?d)[pos := p]) =
      (take (pos + 1) ?d @ take (?k - pos) (drop pos ?d))[pos := p]"
      using False k by (simp add: take_update_swap)
    also have "\<dots> = take pos ?d @ [p] @ take (?k - pos) (drop pos ?d)"
      using False k by (simp add: list_update_append take_Suc_conv_app_nth)
    finally show ?thesis using False by (simp add: D_def drop_take min_def)
  qed
  have c: "take ?k ?d = sk_list s" "?k = st_num s" using G unfolding sk_list_def by blast+
  have "sk_list (g\<lparr>st_data := D, st_num := ?k + 1, st_sorted := False\<rparr>) = take pos (sk_list s) @ [p] @ drop pos (sk_list s)"
    "sk_inv (g\<lparr>st_data := D, st_num := ?k + 1, st_sorted := False\<rparr>)"
    using G len T [unfolded c(1)] by (simp_all add: sk_list_def [of "_\<lparr>st_sorted := _\<rparr>"] sk_inv_def)
  then show ?thesis using G r by simp
qed

lemma sk_delete_list:
  assumes s: "sk_inv s" and i: "i < st_num s"
  shows "\<exists>s'. sk_delete (Some s) i = (sk_list s ! i, Some s') \<and> sk_inv s' \<and> st_num s' = st_num s - 1 \<and>
    sk_list s' = take i (sk_list s) @ drop (Suc i) (sk_list s) \<and> st_comp s' = st_comp s \<and> st_sorted s' = st_sorted s"
proof -
  let ?d = "st_data s" and ?k = "st_num s"
  let ?data = "if i \<noteq> ?k - 1 then take i ?d @ take (?k - i - 1) (drop (i + 1) ?d) @ drop (?k - 1) ?d else ?d"
  have k: "?k < length ?d" using s by (simp add: sk_inv_def)
  have "length ?data = length ?d" using k i by auto
  moreover have "take (?k - 1) ?data = take i (take ?k ?d) @ drop (Suc i) (take ?k ?d)"
    using i k by (auto simp: drop_take min_def)
  ultimately show ?thesis
    using i s nth_sk_list [OF i] by (auto simp: sk_delete_def sk_inv_def sk_list_def)
qed

lemma sk_delete_outside: "st_num s \<le> i \<Longrightarrow> sk_delete (Some s) i = (None, Some s)"
  by (simp add: sk_delete_def)

lemma all_from_Suc:
  "(\<forall>l. i \<le> l \<and> l < j \<longrightarrow> Q l) \<longleftrightarrow> (i < j \<longrightarrow> Q i) \<and> (\<forall>l. Suc i \<le> l \<and> l < j \<longrightarrow> Q l)" for i j :: nat
  by (metis Suc_leD Suc_leI le_neq_implies_less le_refl)

lemma ptr_index_Some:
  "ptr_index i k d P = Some j \<longleftrightarrow> i \<le> j \<and> j < i + k \<and> P (d ! j) \<and> (\<forall>l. i \<le> l \<and> l < j \<longrightarrow> \<not> P (d ! l))"
proof (induction k arbitrary: i)
  case (Suc k)
  show ?case using Suc [of "Suc i"] all_from_Suc [of i j "\<lambda>l. \<not> P (d ! l)"]
    by (cases "i = j") (auto simp: Suc_le_eq)
qed auto

lemma ptr_index_None: "ptr_index i k d P = None \<longleftrightarrow> (\<forall>l. i \<le> l \<and> l < i + k \<longrightarrow> \<not> P (d ! l))"
proof (induction k arbitrary: i)
  case (Suc k)
  show ?case using Suc [of "Suc i"] all_from_Suc [of i "i + Suc k" "\<lambda>l. \<not> P (d ! l)"] by simp
qed auto

subsection \<open>Sequences as an interface\<close>

fun push_all :: "('s \<Rightarrow> 'e \<Rightarrow> 's option) \<Rightarrow> 'e list \<Rightarrow> 's \<Rightarrow> 's option" where
  "push_all push [] s = Some s"
| "push_all push (x # xs) s = Option.bind (push s x) (push_all push xs)"

fun take_all :: "('s \<Rightarrow> ('e \<times> 's) option) \<Rightarrow> nat \<Rightarrow> 's \<Rightarrow> ('e list \<times> 's) option" where
  "take_all next 0 s = Some ([], s)"
| "take_all next (Suc n) s =
     (case next s of
        None \<Rightarrow> None
      | Some (x, s) \<Rightarrow> map_option (\<lambda>(xs, s). (x # xs, s)) (take_all next n s))"

locale deque =
  fixes inv :: "'s \<Rightarrow> bool" and elems :: "'s \<Rightarrow> 'e list"
    and push :: "'s \<Rightarrow> 'e \<Rightarrow> 's option" and pop :: "'s \<Rightarrow> ('e \<times> 's) option" and shift :: "'s \<Rightarrow> ('e \<times> 's) option"
  assumes push: "inv s \<Longrightarrow> push s x = Some s' \<Longrightarrow> inv s' \<and> elems s' = elems s @ [x]"
    and pop: "inv s \<Longrightarrow> elems s \<noteq> [] \<Longrightarrow> \<exists>s'. pop s = Some (last (elems s), s') \<and> inv s' \<and> elems s' = butlast (elems s)"
    and shift: "inv s \<Longrightarrow> elems s \<noteq> [] \<Longrightarrow> \<exists>s'. shift s = Some (hd (elems s), s') \<and> inv s' \<and> elems s' = tl (elems s)"
begin

lemma push_all: "inv s \<Longrightarrow> push_all push xs s = Some s' \<Longrightarrow> inv s' \<and> elems s' = elems s @ xs"
proof (induction xs arbitrary: s)
  case (Cons x xs)
  then obtain t where "push s x = Some t" "push_all push xs t = Some s'" by (auto simp: bind_eq_Some_conv)
  then show ?case using push [OF Cons.prems(1)] Cons.IH [of t] by auto
qed simp

lemma pop_all:
  "inv s \<Longrightarrow> elems s = ys @ xs \<Longrightarrow>
   \<exists>s'. take_all pop (length xs) s = Some (rev xs, s') \<and> inv s' \<and> elems s' = ys"
proof (induction xs arbitrary: s rule: rev_induct)
  case (snoc x xs)
  then obtain t where t: "pop s = Some (x, t)" "inv t" "elems t = ys @ xs"
    using pop [of s] by (auto simp: butlast_append)
  from snoc.IH [OF t(2,3)] t(1) show ?case by auto
qed simp

lemma shift_all:
  "inv s \<Longrightarrow> elems s = xs @ ys \<Longrightarrow>
   \<exists>s'. take_all shift (length xs) s = Some (xs, s') \<and> inv s' \<and> elems s' = ys"
proof (induction xs arbitrary: s)
  case (Cons x xs)
  then obtain t where t: "shift s = Some (x, t)" "inv t" "elems t = xs @ ys"
    using shift [of s] by auto
  from Cons.IH [OF t(2,3)] t(1) show ?case by auto
qed simp

lemma lifo:
  assumes "inv s" "push_all push xs s = Some s'"
  shows "\<exists>s''. take_all pop (length xs) s' = Some (rev xs, s'') \<and> inv s'' \<and> elems s'' = elems s"
  using push_all [OF assms] pop_all by blast

lemma fifo:
  assumes "inv s" "elems s = []" "push_all push xs s = Some s'"
  shows "\<exists>s''. take_all shift (length xs) s' = Some (xs, s'') \<and> inv s'' \<and> elems s'' = []"
  using push_all [OF assms(1,3)] shift_all [of s' xs "[]"] assms(2) by simp

end

locale sequence =
  fixes inv :: "'s \<Rightarrow> bool" and elems :: "'s \<Rightarrow> 'e list"
    and insert_at :: "'s \<Rightarrow> 'e \<Rightarrow> nat \<Rightarrow> 's option" and delete_at :: "'s \<Rightarrow> nat \<Rightarrow> ('e \<times> 's) option"
  assumes insert_at: "inv s \<Longrightarrow> insert_at s x i = Some s' \<Longrightarrow> inv s' \<and> elems s' = take i (elems s) @ [x] @ drop i (elems s)"
    and delete_at: "inv s \<Longrightarrow> i < length (elems s) \<Longrightarrow>
      \<exists>s'. delete_at s i = Some (elems s ! i, s') \<and> inv s' \<and> elems s' = take i (elems s) @ drop (Suc i) (elems s)"
begin

lemma insert_delete:
  assumes "inv s" "i \<le> length (elems s)" "insert_at s x i = Some s'"
  shows "\<exists>s''. delete_at s' i = Some (x, s'') \<and> inv s'' \<and> elems s'' = elems s"
proof -
  note I = insert_at [OF assms(1,3)]
  then have "i < length (elems s')" "elems s' ! i = x" using assms(2) by (auto simp: nth_append)
  with delete_at [of s' i] I assms(2) show ?thesis by auto
qed

end

sublocale sequence \<subseteq> deque inv elems "\<lambda>s x. insert_at s x (length (elems s))"
    "\<lambda>s. delete_at s (length (elems s) - 1)" "\<lambda>s. delete_at s 0"
proof unfold_locales
  fix s x s'
  assume "inv s"
  { assume "insert_at s x (length (elems s)) = Some s'"
    from insert_at [OF \<open>inv s\<close> this] show "inv s' \<and> elems s' = elems s @ [x]" by simp }
  { assume ne: "elems s \<noteq> []"
    then show "\<exists>s'. delete_at s (length (elems s) - 1) = Some (last (elems s), s') \<and> inv s' \<and> elems s' = butlast (elems s)"
      using delete_at [OF \<open>inv s\<close>, of "length (elems s) - 1"] by (simp add: last_conv_nth butlast_conv_take)
    show "\<exists>s'. delete_at s 0 = Some (hd (elems s), s') \<and> inv s' \<and> elems s' = tl (elems s)"
      using delete_at [OF \<open>inv s\<close>, of 0] ne by (simp add: hd_conv_nth drop_Suc) }
qed

definition stack_insert :: "libc_malloc \<Rightarrow> ('c, 'a) stack \<Rightarrow> 'a option \<Rightarrow> nat \<Rightarrow> ('c, 'a) stack option" where
  "stack_insert m s x i = (case sk_insert m (Some s) x i of (n, s') \<Rightarrow> if n = 0 then None else s')"

definition stack_delete :: "('c, 'a) stack \<Rightarrow> nat \<Rightarrow> ('a option \<times> ('c, 'a) stack) option" where
  "stack_delete s i = (case sk_delete (Some s) i of (r, s') \<Rightarrow> map_option (Pair r) s')"

lemma stack_insert_list:
  "malloc_ok m \<Longrightarrow> sk_inv s \<Longrightarrow> stack_insert m s x i = Some s' \<Longrightarrow>
   sk_inv s' \<and> sk_list s' = take i (sk_list s) @ [x] @ drop i (sk_list s)"
  using sk_insert_list [of m s x i] by (cases "sk_insert m (Some s) x i") (auto simp: stack_insert_def split: if_splits)

lemma stack_delete_list:
  "sk_inv s \<Longrightarrow> i < length (sk_list s) \<Longrightarrow> \<exists>s'. stack_delete s i = Some (sk_list s ! i, s') \<and> sk_inv s' \<and>
    sk_list s' = take i (sk_list s) @ drop (Suc i) (sk_list s)"
  using sk_delete_list [of s i] by (auto simp: stack_delete_def length_sk_list)

interpretation sk: sequence "\<lambda>s. malloc_ok m \<and> sk_inv s" sk_list "stack_insert m" stack_delete for m
  by unfold_locales (auto dest: stack_insert_list stack_delete_list)

definition stack_push :: "libc_malloc \<Rightarrow> ('c, 'a) stack \<Rightarrow> 'a option \<Rightarrow> ('c, 'a) stack option" where
  "stack_push m s x = (case sk_push m (Some s) x of (n, s') \<Rightarrow> if n = 0 then None else s')"

definition stack_pop :: "('c, 'a) stack \<Rightarrow> ('a option \<times> ('c, 'a) stack) option" where
  "stack_pop s = (case sk_pop (Some s) of (r, s') \<Rightarrow> map_option (Pair r) s')"

definition stack_shift :: "('c, 'a) stack \<Rightarrow> ('a option \<times> ('c, 'a) stack) option" where
  "stack_shift s = (case sk_shift (Some s) of (r, s') \<Rightarrow> map_option (Pair r) s')"

lemma stack_ends:
  assumes "sk_inv s"
  shows "stack_push m s x = stack_insert m s x (length (sk_list s))"
    and "sk_list s \<noteq> [] \<Longrightarrow> stack_pop s = stack_delete s (length (sk_list s) - 1)"
    and "sk_list s \<noteq> [] \<Longrightarrow> stack_shift s = stack_delete s 0"
  using length_sk_list [OF assms] assms
  by (auto simp: stack_push_def sk_push_def sk_num_def stack_insert_def stack_pop_def sk_pop_def stack_delete_def
      stack_shift_def sk_shift_def)

lemma stack_ends_list:
  assumes "malloc_ok m" "sk_inv s"
  shows "stack_push m s x = Some s' \<Longrightarrow> sk_inv s' \<and> sk_list s' = sk_list s @ [x]"
    and "sk_list s \<noteq> [] \<Longrightarrow> \<exists>s'. stack_pop s = Some (last (sk_list s), s') \<and> sk_inv s' \<and> sk_list s' = butlast (sk_list s)"
    and "sk_list s \<noteq> [] \<Longrightarrow> \<exists>s'. stack_shift s = Some (hd (sk_list s), s') \<and> sk_inv s' \<and> sk_list s' = tl (sk_list s)"
  using sk.push [of m s x s'] sk.pop [of m s] sk.shift [of m s] assms by (auto simp: stack_ends)

interpretation skq: deque "\<lambda>s. malloc_ok m \<and> sk_inv s" sk_list "stack_push m" stack_pop stack_shift for m
  using stack_ends_list by unfold_locales blast+

subsection \<open>Searching\<close>

definition cmp_ok :: "('e \<Rightarrow> 'e \<Rightarrow> int) \<Rightarrow> bool" where
  "cmp_ok f \<longleftrightarrow> (\<forall>a b. (f a b < 0 \<longleftrightarrow> f b a > 0)) \<and> (\<forall>a b c. f a b \<le> 0 \<longrightarrow> f b c \<le> 0 \<longrightarrow> f a c \<le> 0)"

definition ascending :: "('e \<Rightarrow> 'e \<Rightarrow> int) \<Rightarrow> 'e list \<Rightarrow> bool" where
  "ascending f xs \<longleftrightarrow> sorted_wrt (\<lambda>a b. f a b \<le> 0) xs"

lemma option_eq_iff: "x = y \<longleftrightarrow> (\<forall>j. x = Some j \<longleftrightarrow> y = Some j)"
  by (cases x; cases y) auto

lemma ptr_index_split:
  assumes "\<And>l. lo \<le> l \<Longrightarrow> l < k \<Longrightarrow> \<not> P (d ! l)" "lo \<le> k" "k \<le> hi"
  shows "ptr_index lo (hi - lo) d P = ptr_index k (hi - k) d P"
  unfolding option_eq_iff [of "ptr_index lo _ _ _"] ptr_index_Some
  using assms by (auto simp: not_less) (meson not_less le_trans)+

lemma ptr_index_cut:
  assumes "\<And>l. k \<le> l \<Longrightarrow> l < hi \<Longrightarrow> \<not> P (d ! l)" "lo \<le> k" "k \<le> hi"
  shows "ptr_index lo (hi - lo) d P = ptr_index lo (k - lo) d P"
  unfolding option_eq_iff [of "ptr_index lo _ _ _"] ptr_index_Some
  using assms by (auto simp: not_less)

lemma ptr_index_found:
  assumes "P (d ! k)" "lo \<le> k" "k < hi"
  shows "ptr_index lo (hi - lo) d P = ptr_index lo (Suc k - lo) d P"
  unfolding option_eq_iff [of "ptr_index lo _ _ _"] ptr_index_Some
  using assms by (auto simp: not_less less_Suc_eq_le)

declare search_sorted.simps [simp del]

lemma search_sorted_eq:
  assumes "\<And>i j. lo \<le> i \<Longrightarrow> i \<le> j \<Longrightarrow> j < hi \<Longrightarrow> (cmp (d ! i) < 0 \<longrightarrow> cmp (d ! j) < 0) \<and> (cmp (d ! j) > 0 \<longrightarrow> cmp (d ! i) > 0)"
  shows "search_sorted cmp d lo hi = ptr_index lo (hi - lo) d (\<lambda>q. cmp q = 0)"
  using assms
proof (induction cmp d lo hi rule: search_sorted.induct)
  case (1 cmp d lo hi)
  show ?case
  proof (cases "lo < hi")
    case False
    then show ?thesis by (simp add: search_sorted.simps [of _ _ lo])
  next
    case True
    define mid where "mid = lo + (hi - lo - 1) div 2"
    have mid: "lo \<le> mid" "mid < hi" using True by (auto simp: mid_def less_mult_imp_div_less)
    have step: "search_sorted cmp d lo hi =
       (if cmp (d ! mid) > 0 then search_sorted cmp d (mid + 1) hi
            else if cmp (d ! mid) < 0 then search_sorted cmp d lo mid
            else if hi - lo = 1 then Some mid
            else search_sorted cmp d lo (mid + 1))"
      using True by (subst search_sorted.simps) (simp add: mid_def Let_def)
    note IH = "1.IH" [OF True mid_def refl]
    consider "cmp (d ! mid) > 0" | "cmp (d ! mid) < 0" | "cmp (d ! mid) = 0" by linarith
    then show ?thesis
    proof cases
      case a: 1
      have "search_sorted cmp d lo hi = search_sorted cmp d (mid + 1) hi" unfolding step using a by simp
      also have "\<dots> = ptr_index (mid + 1) (hi - (mid + 1)) d (\<lambda>q. cmp q = 0)"
        by (rule IH(1) [OF a], rule "1.prems") (use mid in auto)
      also have "\<dots> = ptr_index lo (hi - lo) d (\<lambda>q. cmp q = 0)"
      proof (rule ptr_index_split [symmetric])
        fix l assume "lo \<le> l" "l < mid + 1"
        then have "cmp (d ! l) > 0" using "1.prems" [of l mid] a mid by simp
        then show "cmp (d ! l) \<noteq> 0" by simp
      qed (use mid in auto)
      finally show ?thesis .
    next
      case a: 2
      have "search_sorted cmp d lo hi = search_sorted cmp d lo mid" unfolding step using a by simp
      also have "\<dots> = ptr_index lo (mid - lo) d (\<lambda>q. cmp q = 0)"
        by (rule IH(2); (rule "1.prems")?) (use a mid in auto)
      also have "\<dots> = ptr_index lo (hi - lo) d (\<lambda>q. cmp q = 0)"
      proof (rule ptr_index_cut [symmetric])
        fix l assume "mid \<le> l" "l < hi"
        then have "cmp (d ! l) < 0" using "1.prems" [of mid l] a mid by simp
        then show "cmp (d ! l) \<noteq> 0" by simp
      qed (use mid in auto)
      finally show ?thesis .
    next
      case a: 3
      show ?thesis
      proof (cases "hi - lo = 1")
        case one: True
        then have "mid = lo" by (simp add: mid_def)
        then show ?thesis unfolding step using a one by simp
      next
        case False
        have "search_sorted cmp d lo hi = search_sorted cmp d lo (mid + 1)" unfolding step using a False by simp
        also have "\<dots> = ptr_index lo (mid + 1 - lo) d (\<lambda>q. cmp q = 0)"
          by (rule IH(3); (rule "1.prems")?) (use a False mid in auto)
        also have "\<dots> = ptr_index lo (hi - lo) d (\<lambda>q. cmp q = 0)"
          using ptr_index_found [where P = "\<lambda>q. cmp q = 0", OF a mid] by simp
        finally show ?thesis .
      qed
    qed
  qed
qed

lemma cmp_mono:
  assumes "cmp_ok f" "f a b \<le> 0"
  shows "f p a < 0 \<Longrightarrow> f p b < 0" "f p b > 0 \<Longrightarrow> f p a > 0"
proof -
  have flip: "f x y < 0 \<longleftrightarrow> f y x > 0" and trans: "f x y \<le> 0 \<Longrightarrow> f y z \<le> 0 \<Longrightarrow> f x z \<le> 0" for x y z
    using assms(1) unfolding cmp_ok_def by blast+
  have le: "f x y \<le> 0 \<longleftrightarrow> f y x \<ge> 0" for x y using flip [of x y] flip [of y x] by linarith
  show "f p b < 0" if "f p a < 0"
  proof (rule ccontr)
    assume "\<not> f p b < 0"
    then have "f b p \<le> 0" using le [of b p] by simp
    with trans [OF assms(2)] have "f a p \<le> 0" by blast
    then show False using that le [of a p] by simp
  qed
  show "f p a > 0" if "f p b > 0"
  proof (rule ccontr)
    assume "\<not> f p a > 0"
    then have "f p b \<le> 0" using trans [OF _ assms(2)] by simp
    then show False using that by simp
  qed
qed

lemma search_sorted_ascending:
  assumes "cmp_ok f" "ascending f (take n d)" "n \<le> length d"
  shows "search_sorted (f p) d 0 n = ptr_index 0 n d (\<lambda>q. f p q = 0)"
proof -
  have "search_sorted (f p) d 0 n = ptr_index 0 (n - 0) d (\<lambda>q. f p q = 0)"
  proof (rule search_sorted_eq)
    fix i j assume ij: "i \<le> j" "j < n"
    show "(f p (d ! i) < 0 \<longrightarrow> f p (d ! j) < 0) \<and> (f p (d ! j) > 0 \<longrightarrow> f p (d ! i) > 0)"
    proof (cases "i = j")
      case False
      then have "f (d ! i) (d ! j) \<le> 0"
        using assms(2,3) ij sorted_wrt_nth_less [of _ "take n d" i j] by (simp add: ascending_def)
      with cmp_mono [OF assms(1) this] show ?thesis by blast
    qed simp
  qed
  then show ?thesis by simp
qed

subsection \<open>The sorted flag\<close>

definition qsort_ok :: "(('e \<Rightarrow> 'e \<Rightarrow> int) \<Rightarrow> 'e list \<Rightarrow> 'e list) \<Rightarrow> bool" where
  "qsort_ok q \<longleftrightarrow> (\<forall>f xs. cmp_ok f \<longrightarrow> mset (q f xs) = mset xs \<and> ascending f (q f xs))"

definition sk_good :: "('c \<Rightarrow> 'a option \<Rightarrow> 'a option \<Rightarrow> int) \<Rightarrow> ('c, 'a) stack \<Rightarrow> bool" where
  "sk_good call s \<longleftrightarrow> sk_inv s \<and>
     (st_sorted s \<longrightarrow> (\<exists>c. st_comp s = Some c \<and> ascending (call c) (sk_list s)))"

inductive sk_step ::
    "libc_malloc \<Rightarrow> (('a option \<Rightarrow> 'a option \<Rightarrow> int) \<Rightarrow> 'a option list \<Rightarrow> 'a option list) \<Rightarrow>
     ('c \<Rightarrow> 'a option \<Rightarrow> 'a option \<Rightarrow> int) \<Rightarrow> ('c, 'a) stack \<Rightarrow> ('c, 'a) stack \<Rightarrow> bool"
  for m q call where
  zero: "sk_zero (Some s) = Some s' \<Longrightarrow> sk_step m q call s s'"
| insert: "sk_insert m (Some s) p i = (n, Some s') \<Longrightarrow> sk_step m q call s s'"
| delete: "sk_delete (Some s) i = (r, Some s') \<Longrightarrow> sk_step m q call s s'"
| delete_ptr: "sk_delete_ptr (Some s) p = (r, Some s') \<Longrightarrow> sk_step m q call s s'"
| sort: "sk_sort q call (Some s) = Some s' \<Longrightarrow> sk_step m q call s s'"
| set_cmp: "sk_set_cmp_func s c = (old, s') \<Longrightarrow> sk_step m q call s s'"
| dup: "sk_dup m (Some s) = Some s' \<Longrightarrow> sk_step m q call s s'"

lemma ascending_delete: "ascending f xs \<Longrightarrow> ascending f (take i xs @ drop (Suc i) xs)"
proof (cases "i < length xs")
  case True
  assume "ascending f xs"
  then have "ascending f (take i xs @ xs ! i # drop (Suc i) xs)"
    by (simp only: id_take_nth_drop [OF True, symmetric])
  then show ?thesis by (simp add: ascending_def sorted_wrt_append)
qed simp

lemma sk_delete_good:
  assumes "sk_good call s" "sk_delete (Some s) i = (r, Some s')"
  shows "sk_good call s'"
proof (cases "i < st_num s")
  case True
  have "sk_inv s" using assms(1) by (simp add: sk_good_def)
  from sk_delete_list [OF this True] assms obtain
    "sk_inv s'" "sk_list s' = take i (sk_list s) @ drop (Suc i) (sk_list s)" "st_comp s' = st_comp s" "st_sorted s' = st_sorted s"
    by auto
  then show ?thesis using assms(1) ascending_delete by (auto simp: sk_good_def)
next
  case False
  then show ?thesis using assms by (simp add: sk_delete_outside)
qed

lemma sk_sort_good:
  assumes q: "qsort_ok q" and c: "\<forall>c. cmp_ok (call c)" and s: "sk_good call s"
    and r: "sk_sort q call (Some s) = Some s'"
  shows "sk_good call s' \<and> mset (sk_list s') = mset (sk_list s) \<and> st_comp s' = st_comp s \<and>
    (\<forall>c. st_comp s = Some c \<longrightarrow> st_sorted s')"
proof (cases "st_comp s = None \<or> st_sorted s")
  case True
  then have "s' = s" using r by (auto simp: sk_sort_def split: option.splits)
  then show ?thesis using s True by auto
next
  case False
  then obtain k where k: "st_comp s = Some k" "\<not> st_sorted s" by auto
  have inv: "sk_inv s" using s by (simp add: sk_good_def)
  show ?thesis
  proof (cases "2 \<le> st_num s")
    case True
    let ?x = "q (call k) (sk_list s)"
    have x: "mset ?x = mset (sk_list s)" "ascending (call k) ?x" using q c by (auto simp: qsort_ok_def)
    then have len: "length ?x = st_num s" using length_sk_list [OF inv] by (metis mset_eq_length)
    have "s' = s\<lparr>st_data := ?x @ drop (st_num s) (st_data s), st_sorted := True\<rparr>"
      using r k True by (simp add: sk_sort_def sk_list_def)
    then show ?thesis using x len k inv by (simp add: sk_good_def sk_inv_def sk_list_def [of "_\<lparr>st_sorted := _\<rparr>"])
  next
    case False
    then have "s' = s\<lparr>st_sorted := True\<rparr>" using r k by (simp add: sk_sort_def)
    moreover have "ascending (call k) (sk_list s)"
      using length_sk_list [OF inv] False by (cases "sk_list s" rule: remdups_adj.cases) (auto simp: ascending_def)
    ultimately show ?thesis using k inv by (simp add: sk_good_def sk_inv_def sk_list_def)
  qed
qed

lemma sk_dup_list:
  assumes "malloc_ok m" "sk_inv s" "sk_dup m (Some s) = Some s'"
  shows "sk_inv s' \<and> sk_list s' = sk_list s \<and> st_comp s' = st_comp s \<and> st_sorted s' = st_sorted s"
proof -
  have n: "8 * st_num_alloc s mod 2 ^ 64 = 8 * st_num_alloc s" "8 * st_num_alloc s div 8 = st_num_alloc s"
    using assms(2) by (simp_all add: sk_inv_def)
  from assms(3) obtain ret data where new: "sk_new m (st_comp s) = Some ret"
    and data: "realloc_ptrs m (st_data ret) (8 * st_num_alloc s) = Some data"
    and s': "s' = ret\<lparr>st_num := st_num s, st_data := take (st_num s) (st_data s) @ drop (st_num s) data,
                           st_sorted := st_sorted s, st_num_alloc := st_num_alloc s, st_comp := st_comp s\<rparr>"
    unfolding sk_dup_def option.case n(1) by (auto split: option.splits)
  have "length data = st_num_alloc s" using data unfolding realloc_ptrs_def n(2) by (auto split: option.splits)
  then show ?thesis using assms(2) by (simp add: s' sk_inv_def sk_list_def)
qed

lemma sk_step_good:
  assumes m: "malloc_ok m" and q: "qsort_ok q" and c: "\<forall>c. cmp_ok (call c)"
    and step: "sk_step m q call s s'" and s: "sk_good call s"
  shows "sk_good call s'"
  using step s
proof (induction rule: sk_step.induct)
  case (zero s s')
  then show ?case
    by (auto simp: sk_zero_def sk_good_def sk_inv_def sk_list_def split: if_splits)
next
  case (insert s p i n s')
  then have "sk_inv s" by (simp add: sk_good_def)
  from sk_insert_list [OF m this insert(1)] insert(2) show ?case by (auto simp: sk_good_def)
next
  case (delete s i r s')
  then show ?case by (simp add: sk_delete_good)
next
  case (delete_ptr s p r s')
  then show ?case by (auto simp: sk_delete_ptr_def split: option.splits intro: sk_delete_good)
next
  case (sort s s')
  then show ?case using sk_sort_good [OF q c] by blast
next
  case (set_cmp s c old s')
  then show ?case by (auto simp: sk_set_cmp_func_def sk_good_def sk_inv_def sk_list_def Let_def split: if_splits)
next
  case (dup s s')
  then have "sk_inv s" by (simp add: sk_good_def)
  from sk_dup_list [OF m this dup(1)] dup(2) show ?case by (simp add: sk_good_def)
qed

lemma sk_reachable_good:
  assumes "malloc_ok m" "qsort_ok q" "\<forall>c. cmp_ok (call c)" "sk_new m c0 = Some s0"
    and "(sk_step m q call)\<^sup>*\<^sup>* s0 s"
  shows "sk_good call s"
  using assms(5)
proof (induction rule: rtranclp_induct)
  case base
  then show ?case using sk_new_inv [OF assms(4)] by (simp add: sk_good_def)
next
  case (step s t)
  then show ?case using sk_step_good [OF assms(1-3)] by blast
qed

lemma sk_find_first_index:
  assumes g: "sk_good call s" and c: "\<forall>c. cmp_ok (call c)" and k: "st_comp s = Some k" and p: "p \<noteq> None"
  shows "sk_find call (Some s) p = Some i \<longleftrightarrow>
    i < length (sk_list s) \<and> call k p (sk_list s ! i) = 0 \<and> (\<forall>j<i. call k p (sk_list s ! j) \<noteq> 0)"
proof -
  have inv: "sk_inv s" using g by (simp add: sk_good_def)
  have "sk_find call (Some s) p = ptr_index 0 (st_num s) (st_data s) (\<lambda>q. call k p q = 0)"
  proof (cases "st_sorted s")
    case True
    then have "ascending (call k) (take (st_num s) (st_data s))" using g k by (simp add: sk_good_def sk_list_def)
    moreover have "st_num s \<le> length (st_data s)" using inv by (simp add: sk_inv_def)
    ultimately show ?thesis using c k p True
      by (auto simp: sk_find_def sk_is_sorted_def search_sorted_ascending)
  next
    case False
    then show ?thesis using k p by (auto simp: sk_find_def sk_is_sorted_def)
  qed
  then show ?thesis
    using length_sk_list [OF inv] nth_sk_list [of _ s] by (auto simp: ptr_index_Some)
qed

subsection \<open>Copying and freeing the elements\<close>

lemma free_elements_eq: "i + k \<le> length d \<Longrightarrow> free_elements i k d = List.map_filter id (take k (drop i d))"
proof (induction k arbitrary: i)
  case (Suc k)
  then have "take (Suc k) (drop i d) = d ! i # take k (drop (Suc i) d)"
    by (simp add: Cons_nth_drop_Suc [symmetric])
  with Suc show ?case by (simp add: List.map_filter_def split: option.splits)
qed (simp add: List.map_filter_def)

lemma deep_copy_loop_correct:
  fixes copy xs
  defines "cp \<equiv> (\<lambda>p. Option.bind p copy)"
  assumes "i + k \<le> length xs" "length d = length xs" "take i d = map cp (take i xs)" "drop i d = drop i xs"
  shows "case deep_copy_loop copy i k d of
      Inr d' \<Rightarrow> d' = map cp (take (i + k) xs) @ drop (i + k) xs \<and> (\<forall>j. i \<le> j \<and> j < i + k \<longrightarrow> xs ! j \<noteq> None \<longrightarrow> cp (xs ! j) \<noteq> None)
    | Inl freed \<Rightarrow> \<exists>j p. i \<le> j \<and> j < i + k \<and> xs ! j = Some p \<and> copy p = None \<and>
        (\<forall>l. i \<le> l \<and> l < j \<longrightarrow> xs ! l \<noteq> None \<longrightarrow> cp (xs ! l) \<noteq> None) \<and> freed = List.map_filter cp (take j xs)"
  using assms(2-)
proof (induction k arbitrary: i d)
  case 0
  then have "d = map cp (take i xs) @ drop i xs" by (metis append_take_drop_id)
  then show ?case by auto
next
  case (Suc k)
  have "d ! i = hd (drop i d)" using Suc.prems(1,2) by (simp add: hd_drop_conv_nth)
  also have "\<dots> = hd (drop i xs)" by (simp only: Suc.prems(4))
  also have "\<dots> = xs ! i" using Suc.prems(1) by (simp add: hd_drop_conv_nth)
  finally have di: "d ! i = xs ! i" .
  have nxt: "take (Suc i) d' = map cp (take (Suc i) xs) \<and> drop (Suc i) d' = drop (Suc i) xs"
    if "d' = d[i := cp (xs ! i)]" for d'
  proof -
    have "drop (Suc i) d = drop (Suc i) xs" using Suc.prems(4) by (metis drop_Suc drop_tl)
    then show ?thesis using Suc.prems that by (simp add: take_Suc_conv_app_nth)
  qed
  have IH: "case deep_copy_loop copy (Suc i) k (d[i := cp (xs ! i)]) of
      Inr d' \<Rightarrow> d' = map cp (take (i + Suc k) xs) @ drop (i + Suc k) xs \<and> (\<forall>j. Suc i \<le> j \<and> j < i + Suc k \<longrightarrow> xs ! j \<noteq> None \<longrightarrow> cp (xs ! j) \<noteq> None)
    | Inl freed \<Rightarrow> \<exists>j p. Suc i \<le> j \<and> j < i + Suc k \<and> xs ! j = Some p \<and> copy p = None \<and>
        (\<forall>l. Suc i \<le> l \<and> l < j \<longrightarrow> xs ! l \<noteq> None \<longrightarrow> cp (xs ! l) \<noteq> None) \<and> freed = List.map_filter cp (take j xs)"
    using Suc.IH [of "Suc i" "d[i := cp (xs ! i)]", unfolded add_Suc_shift] nxt [OF refl] Suc.prems by simp
  have up: "(\<forall>l. i \<le> l \<and> l < j \<longrightarrow> Q l) \<longleftrightarrow> Q i \<and> (\<forall>l. Suc i \<le> l \<and> l < j \<longrightarrow> Q l)" if "i < j" for j Q
    using that all_from_Suc [of i j Q] by blast
  show ?case
  proof (cases "xs ! i = None \<or> cp (xs ! i) \<noteq> None")
    case True
    then have "deep_copy_loop copy i (Suc k) d = deep_copy_loop copy (Suc i) k (d[i := cp (xs ! i)])"
      using di list_update_id [of d i] by (auto simp: cp_def split: option.splits)
    note e = this
    show ?thesis
    proof (cases "deep_copy_loop copy (Suc i) k (d[i := cp (xs ! i)])")
      case (Inl freed)
      with IH obtain j p where j: "Suc i \<le> j" "j < i + Suc k" "xs ! j = Some p" "copy p = None"
        "\<forall>l. Suc i \<le> l \<and> l < j \<longrightarrow> xs ! l \<noteq> None \<longrightarrow> cp (xs ! l) \<noteq> None" "freed = List.map_filter cp (take j xs)"
        by auto
      have "\<forall>l. i \<le> l \<and> l < j \<longrightarrow> xs ! l \<noteq> None \<longrightarrow> cp (xs ! l) \<noteq> None"
        using up [of j "\<lambda>l. xs ! l \<noteq> None \<longrightarrow> cp (xs ! l) \<noteq> None"] j(1,5) True by auto
      then show ?thesis unfolding e Inl using j by (auto intro!: exI [of _ j])
    next
      case (Inr d')
      have "\<forall>j. i \<le> j \<and> j < i + Suc k \<longrightarrow> xs ! j \<noteq> None \<longrightarrow> cp (xs ! j) \<noteq> None"
        using up [of "i + Suc k" "\<lambda>j. xs ! j \<noteq> None \<longrightarrow> cp (xs ! j) \<noteq> None"] IH True unfolding Inr by auto
      then show ?thesis unfolding e using IH unfolding Inr by simp
    qed
  next
    case False
    then obtain p where p: "xs ! i = Some p" "copy p = None" by (auto simp: cp_def)
    have "free_elements 0 i (d[i := None]) = List.map_filter id (take i d)"
      using Suc.prems by (simp add: free_elements_eq)
    also have "\<dots> = List.map_filter cp (take i xs)"
      using Suc.prems(3) by (simp add: List.map_filter_def filter_map comp_def)
    finally show ?thesis using p di by (auto intro!: exI [of _ i])
  qed
qed

section \<open>Properties\<close>



text \<open>A stack is both a stack and a queue. Elements pushed one after the other, through as many
  reallocations as it takes, come back in reverse from \<^verbatim>\<open>sk_pop\<close>, leaving what was below; from
  an empty stack, \<^verbatim>\<open>sk_shift\<close> gives them in order.\<close>

lemma stack_lifo_fifo:
  assumes "malloc_ok m" "sk_inv s" "push_all (stack_push m) xs s = Some s'"
  shows "(\<exists>t. take_all stack_pop (length xs) s' = Some (rev xs, t) \<and> sk_list t = sk_list s) \<and>
    (sk_list s = [] \<longrightarrow> (\<exists>t. take_all stack_shift (length xs) s' = Some (xs, t) \<and> sk_list t = []))"
  using skq.lifo [of m s xs s'] skq.fifo [of m s xs s'] assms by blast

lemma stack_lifo_fifo_witness:
  "\<exists>s s' t. sk_new calloc_small (None :: unit option) = Some s \<and>
    push_all (stack_push calloc_small) [Some (1::nat), None, Some 3] s = Some s' \<and>
    take_all stack_pop 3 s' = Some ([Some 3, None, Some 1], t)"
proof -
  obtain s where s: "sk_new calloc_small (None :: unit option) = (Some s :: (unit, nat) stack option)"
    by (auto simp: sk_new_def OPENSSL_malloc_def OPENSSL_MALLOC_PREFIX_def calloc_small_def sizeof_STACK_def kMinSize_def)
  then have "s = \<lparr>st_num = 0, st_data = [None, None, None, None], st_sorted = False, st_num_alloc = 4, st_comp = None\<rparr>"
    by (auto simp: sk_new_def kMinSize_def numeral_eq_Suc split: option.splits)
  then obtain s' where s': "push_all (stack_push calloc_small) [Some (1::nat), None, Some 3] s = Some s'"
    by (auto simp: stack_push_def sk_push_def sk_insert_def sk_grow_def sk_num_def realloc_ptrs_def OPENSSL_malloc_def
        OPENSSL_MALLOC_PREFIX_def calloc_small_def bind_eq_Some_conv Let_def)
  from stack_lifo_fifo [OF calloc_small_ok _ s'] sk_new_inv [OF s] s s' show ?thesis
    by (auto simp: numeral_3_eq_3)
qed


text \<open>\<^verbatim>\<open>sk_set\<close> keeps the sorted flag. After it overwrites an element of a sorted stack, a binary
  search misses an element that is there.\<close>

definition int_cmp :: "unit \<Rightarrow> int option \<Rightarrow> int option \<Rightarrow> int" where
  "int_cmp _ a b = (case a of None \<Rightarrow> 0 | Some x \<Rightarrow> x) - (case b of None \<Rightarrow> 0 | Some y \<Rightarrow> y)"

definition int_qsort :: "(int option \<Rightarrow> int option \<Rightarrow> int) \<Rightarrow> int option list \<Rightarrow> int option list" where
  "int_qsort f xs = foldr (\<lambda>x ys. takeWhile (\<lambda>y. f y x < 0) ys @ [x] @ dropWhile (\<lambda>y. f y x < 0) ys) xs []"

lemma sk_set_breaks_search:
  "let s = \<lparr>st_num = 2, st_data = [Some 1, Some 3, None, None], st_sorted = True, st_num_alloc = 4, st_comp = Some ()\<rparr>;
       (_, r) = sk_set (Some s) 0 (Some 5)
   in sk_good int_cmp s \<and> sk_is_sorted r \<and> sk_value r 1 = Some 3 \<and> sk_find int_cmp r (Some 3) = None"
  by (simp add: sk_set_def sk_good_def sk_inv_def sk_list_def ascending_def int_cmp_def sk_is_sorted_def sk_value_def
      sk_find_def search_sorted.simps)

lemma cmp_ok_int_cmp: "cmp_ok (int_cmp c)"
  by (auto simp: cmp_ok_def int_cmp_def)

lemma qsort_ok_int_qsort: "qsort_ok int_qsort"
proof -
  have split: "mset (takeWhile P ys) + mset (dropWhile P ys) = mset ys" for P and ys :: "int option list"
    by (metis mset_append takeWhile_dropWhile_id)
  have m: "mset (int_qsort f xs) = mset xs" for f xs
    by (induction xs) (simp_all add: int_qsort_def split)
  have a: "ascending f (int_qsort f xs)" if f: "cmp_ok f" for f xs
  proof (induction xs)
    case Nil
    then show ?case by (simp add: int_qsort_def ascending_def)
  next
    case (Cons x xs)
    have flip: "f a b < 0 \<longleftrightarrow> f b a > 0" and trans: "f a b \<le> 0 \<Longrightarrow> f b c \<le> 0 \<Longrightarrow> f a c \<le> 0" for a b c
      using f unfolding cmp_ok_def by blast+
    define ys where "ys = int_qsort f xs"
    have ys: "sorted_wrt (\<lambda>a b. f a b \<le> 0) ys" using Cons by (simp add: ascending_def ys_def)
    let ?P = "\<lambda>y. f y x < 0"
    have "sorted_wrt (\<lambda>a b. f a b \<le> 0) (takeWhile ?P ys @ dropWhile ?P ys)" using ys by simp
    then have s: "sorted_wrt (\<lambda>a b. f a b \<le> 0) (takeWhile ?P ys)" "sorted_wrt (\<lambda>a b. f a b \<le> 0) (dropWhile ?P ys)"
      "\<forall>a \<in> set (takeWhile ?P ys). \<forall>b \<in> set (dropWhile ?P ys). f a b \<le> 0"
      unfolding sorted_wrt_append by blast+
    have lo: "\<forall>a \<in> set (takeWhile ?P ys). f a x \<le> 0" by (auto dest!: set_takeWhileD)
    have hi: "f x b \<le> 0" if b: "b \<in> set (dropWhile ?P ys)" for b
    proof (cases "dropWhile ?P ys")
      case Nil
      then show ?thesis using b unfolding Nil by simp
    next
      case (Cons z zs)
      then have "\<not> f z x < 0" by (metis dropWhile_eq_Cons_conv)
      then have z: "f x z \<le> 0" using flip [of z x] flip [of x z] by linarith
      then show ?thesis using b s(2) trans [OF z] unfolding Cons by auto
    qed
    have "int_qsort f (x # xs) = takeWhile ?P ys @ [x] @ dropWhile ?P ys" by (simp add: int_qsort_def ys_def)
    then show ?case using s lo hi by (auto simp: ascending_def sorted_wrt_append)
  qed
  show ?thesis using m a by (simp add: qsort_ok_def)
qed

lemma replicate_4: "replicate 4 x = [x, x, x, x]"
  by (simp add: numeral_eq_Suc)


text \<open>C32. A deep copy is all or nothing. If \<^verbatim>\<open>sk_deep_copy\<close> returns a stack, its elements are the
  copies of the elements of the original, null for null, and nothing has been freed. If copying
  an element fails it returns null after freeing exactly the copies made before it, each once;
  if the array cannot be duplicated nothing has been copied.\<close>

theorem sk_deep_copy_all_or_nothing:
  assumes "malloc_ok m" "sk_inv s" "sk_deep_copy m copy (Some s) = (r, freed)"
  shows "case r of
      Some s' \<Rightarrow> freed = [] \<and> sk_inv s' \<and> st_comp s' = st_comp s \<and>
        sk_list s' = map (\<lambda>p. Option.bind p copy) (sk_list s) \<and> (\<forall>p. Some p \<in> set (sk_list s) \<longrightarrow> copy p \<noteq> None)
    | None \<Rightarrow> (freed = [] \<and> sk_dup m (Some s) = None) \<or>
        (\<exists>j p. j < length (sk_list s) \<and> sk_list s ! j = Some p \<and> copy p = None \<and>
          (\<forall>l q. l < j \<longrightarrow> sk_list s ! l = Some q \<longrightarrow> copy q \<noteq> None) \<and>
          freed = List.map_filter (\<lambda>p. Option.bind p copy) (take j (sk_list s)))"
proof (cases "sk_dup m (Some s)")
  case None
  then show ?thesis using assms(3) by (auto simp: sk_deep_copy_def)
next
  case (Some d)
  let ?cp = "\<lambda>p. Option.bind p copy"
  note D = sk_dup_list [OF assms(1,2) Some]
  have n: "st_num d \<le> length (st_data d)" using D by (simp add: sk_inv_def)
  have L: "sk_list s = take (st_num d) (st_data d)" "length (sk_list s) = st_num d"
    using D length_sk_list [of d] by (auto simp: sk_list_def)
  have nth: "sk_list s ! l = st_data d ! l" if "l < st_num d" for l using that by (simp add: L(1))
  note C = deep_copy_loop_correct [where i = 0 and k = "st_num d" and xs = "st_data d" and d = "st_data d" and copy = copy]
  show ?thesis
  proof (cases "deep_copy_loop copy 0 (st_num d) (st_data d)")
    case (Inl fr)
    then have r: "r = None" "freed = fr" using assms(3) Some by (simp_all add: sk_deep_copy_def)
    from C n Inl obtain j p where j: "j < st_num d" "st_data d ! j = Some p" "copy p = None"
      "\<forall>l<j. st_data d ! l \<noteq> None \<longrightarrow> ?cp (st_data d ! l) \<noteq> None" "fr = List.map_filter ?cp (take j (st_data d))" by auto
    have "take j (st_data d) = take j (sk_list s)" using j(1) by (simp add: L(1) min_def)
    moreover have "\<forall>l q. l < j \<longrightarrow> st_data d ! l = Some q \<longrightarrow> copy q \<noteq> None" using j(4) by fastforce
    ultimately show ?thesis using j(1-3,5) nth L(2) unfolding r by (auto intro!: exI [of _ j])
  next
    case (Inr data)
    then have r: "r = Some (d\<lparr>st_data := data\<rparr>)" "freed = []" using assms(3) Some by (simp_all add: sk_deep_copy_def)
    from C n Inr have data: "data = map ?cp (take (st_num d) (st_data d)) @ drop (st_num d) (st_data d)"
      and ok: "\<forall>j < st_num d. st_data d ! j \<noteq> None \<longrightarrow> ?cp (st_data d ! j) \<noteq> None" by auto
    have "copy p \<noteq> None" if "Some p \<in> set (sk_list s)" for p
    proof -
      from that obtain l where "l < st_num d" "st_data d ! l = Some p"
        by (auto simp: in_set_conv_nth L(2) nth)
      with ok show ?thesis by fastforce
    qed
    then show ?thesis using D n unfolding r by (simp add: data sk_inv_def L(1) sk_list_def [of "_\<lparr>st_data := _\<rparr>"])
  qed
qed

theorem sk_deep_copy_all_or_nothing_witness:
  "snd (sk_deep_copy calloc_small (\<lambda>p::nat. if p = 9 then None else Some (p + 1))
     (Some \<lparr>st_num = 3, st_data = [Some 4, None, Some 9, None], st_sorted = False, st_num_alloc = 4, st_comp = None :: unit option\<rparr>)) = [5]"
proof -
  let ?s = "\<lparr>st_num = 3, st_data = [Some 4, None, Some (9::nat), None], st_sorted = False, st_num_alloc = 4, st_comp = None :: unit option\<rparr>"
  let ?f = "\<lambda>p::nat. if p = 9 then None else Some (p + 1)"
  have inv: "sk_inv ?s" and list: "sk_list ?s = [Some 4, None, Some 9]" by (simp_all add: sk_inv_def sk_list_def)
  obtain r freed where d: "sk_deep_copy calloc_small ?f (Some ?s) = (r, freed)" by fastforce
  have dup: "sk_dup calloc_small (Some ?s) \<noteq> None"
    by (simp add: sk_dup_def sk_new_def realloc_ptrs_def OPENSSL_malloc_def OPENSSL_MALLOC_PREFIX_def calloc_small_def
        sizeof_STACK_def kMinSize_def)
  from sk_deep_copy_all_or_nothing [OF calloc_small_ok inv d] dup list
  have "freed = [5]"
    by (auto split: option.splits simp: less_Suc_eq List.map_filter_def numeral_3_eq_3)
  then show ?thesis using d by simp
qed

end
