(* ===== verification/Lhash.thy ===== *)
theory Lhash
  imports Mem "HOL-Library.Multiset"
begin

text \<open>The hash table of \<^verbatim>\<open>crypto/lhash/lhash.c\<close>. A chain is the list of its \<^verbatim>\<open>LHASH_ITEM\<close>s, each the
  data pointer with its cached hash; a pointer to a \<^verbatim>\<open>next\<close> field is a bucket and an index into its
  chain, the length of the chain for the null pointer at its end. Hash and comparison functions are
  elements of \<open>'h\<close> and \<open>'c\<close>, called through the helpers the code is given. A callback of
  \<^verbatim>\<open>lh_doall_arg\<close> transforms its argument and leaves the table alone. \<^verbatim>\<open>lh_free\<close> only
  releases memory.\<close>

type_synonym 'a lhash_item = "'a \<times> u32"

record ('h, 'c, 'a) lhash =
  num_items :: nat
  buckets :: "'a lhash_item list list"
  num_buckets :: nat
  callback_depth :: nat
  lh_hash :: 'h
  lh_comp :: 'c

definition kMinNumBuckets :: nat where "kMinNumBuckets = 16"
definition kMaxAverageChainLength :: nat where "kMaxAverageChainLength = 2"
definition kMinAverageChainLength :: nat where "kMinAverageChainLength = 1"
definition sizeof_LHASH :: nat where "sizeof_LHASH = 48"
definition sizeof_LHASH_ITEM :: nat where "sizeof_LHASH_ITEM = 24"
definition UINT_MAX :: nat where "UINT_MAX = 2 ^ 32 - 1"

definition lh_new :: "libc_malloc \<Rightarrow> 'h \<Rightarrow> 'c \<Rightarrow> ('h, 'c, 'a) lhash option" where
  "lh_new m hash cmp =
     (case OPENSSL_malloc m sizeof_LHASH of
        None \<Rightarrow> None
      | Some _ \<Rightarrow>
         (case OPENSSL_malloc m (8 * kMinNumBuckets) of
            None \<Rightarrow> None
          | Some _ \<Rightarrow>
              Some \<lparr>num_items = 0, buckets = replicate kMinNumBuckets [], num_buckets = kMinNumBuckets,
                    callback_depth = 0, lh_hash = hash, lh_comp = cmp\<rparr>))"

definition lh_num_items :: "('h, 'c, 'a) lhash \<Rightarrow> nat" where
  "lh_num_items lh = num_items lh"

fun chain_index :: "('a \<Rightarrow> bool) \<Rightarrow> 'a lhash_item list \<Rightarrow> nat" where
  "chain_index eq [] = 0"
| "chain_index eq (cur # chain) = (if eq (fst cur) then 0 else Suc (chain_index eq chain))"

definition get_next_ptr_and_hash ::
    "('h \<Rightarrow> 'a \<Rightarrow> u32) \<Rightarrow> ('c \<Rightarrow> 'a \<Rightarrow> 'a \<Rightarrow> int) \<Rightarrow> ('h, 'c, 'a) lhash \<Rightarrow> 'a \<Rightarrow> u32 \<times> nat \<times> nat" where
  "get_next_ptr_and_hash call_hash_func call_cmp_func lh data =
     (let hash = call_hash_func (lh_hash lh) data;
          b = unat hash mod num_buckets lh
      in (hash, b, chain_index (\<lambda>d. call_cmp_func (lh_comp lh) d data = 0) (buckets lh ! b)))"

definition get_next_ptr_by_key ::
    "('h, 'c, 'a) lhash \<Rightarrow> 'k \<Rightarrow> u32 \<Rightarrow> ('k \<Rightarrow> 'a \<Rightarrow> int) \<Rightarrow> nat \<times> nat" where
  "get_next_ptr_by_key lh key key_hash cmp_key =
     (let b = unat key_hash mod num_buckets lh
      in (b, chain_index (\<lambda>d. cmp_key key d = 0) (buckets lh ! b)))"

definition item_at :: "('h, 'c, 'a) lhash \<Rightarrow> nat \<Rightarrow> nat \<Rightarrow> 'a lhash_item option" where
  "item_at lh b i = (if i < length (buckets lh ! b) then Some (buckets lh ! b ! i) else None)"

definition lh_retrieve ::
    "('h \<Rightarrow> 'a \<Rightarrow> u32) \<Rightarrow> ('c \<Rightarrow> 'a \<Rightarrow> 'a \<Rightarrow> int) \<Rightarrow> ('h, 'c, 'a) lhash \<Rightarrow> 'a \<Rightarrow> 'a option" where
  "lh_retrieve call_hash_func call_cmp_func lh data =
     (case get_next_ptr_and_hash call_hash_func call_cmp_func lh data of
        (_, b, i) \<Rightarrow> map_option fst (item_at lh b i))"

definition lh_retrieve_key ::
    "('h, 'c, 'a) lhash \<Rightarrow> 'k \<Rightarrow> u32 \<Rightarrow> ('k \<Rightarrow> 'a \<Rightarrow> int) \<Rightarrow> 'a option" where
  "lh_retrieve_key lh key key_hash cmp_key =
     (case get_next_ptr_by_key lh key key_hash cmp_key of (b, i) \<Rightarrow> map_option fst (item_at lh b i))"

definition move_item :: "nat \<Rightarrow> 'a lhash_item \<Rightarrow> 'a lhash_item list list \<Rightarrow> 'a lhash_item list list" where
  "move_item n cur bs = (let b = unat (snd cur) mod n in bs[b := cur # bs ! b])"

definition lh_rebucket :: "libc_malloc \<Rightarrow> ('h, 'c, 'a) lhash \<Rightarrow> nat \<Rightarrow> ('h, 'c, 'a) lhash" where
  "lh_rebucket m lh new_num_buckets =
     (let alloc_size = 8 * new_num_buckets mod 2 ^ 64
      in if alloc_size div 8 \<noteq> new_num_buckets then lh
         else (case OPENSSL_malloc m alloc_size of
                 None \<Rightarrow> lh
               | Some _ \<Rightarrow>
                   lh\<lparr>num_buckets := new_num_buckets,
                      buckets := fold (fold (move_item new_num_buckets)) (buckets lh) (replicate new_num_buckets [])\<rparr>))"

definition lh_maybe_resize :: "libc_malloc \<Rightarrow> ('h, 'c, 'a) lhash \<Rightarrow> ('h, 'c, 'a) lhash" where
  "lh_maybe_resize m lh =
     (if callback_depth lh > 0 then lh
      else
        (let avg_chain_length = num_items lh div num_buckets lh
         in if avg_chain_length > kMaxAverageChainLength then
              (let new_num_buckets = num_buckets lh * 2 mod 2 ^ 64
               in if new_num_buckets > num_buckets lh then lh_rebucket m lh new_num_buckets else lh)
            else if avg_chain_length < kMinAverageChainLength \<and> num_buckets lh > kMinNumBuckets then
              (let new_num_buckets = num_buckets lh div 2;
                   new_num_buckets = (if new_num_buckets < kMinNumBuckets then kMinNumBuckets else new_num_buckets)
               in lh_rebucket m lh new_num_buckets)
            else lh))"

definition lh_insert ::
    "libc_malloc \<Rightarrow> ('h \<Rightarrow> 'a \<Rightarrow> u32) \<Rightarrow> ('c \<Rightarrow> 'a \<Rightarrow> 'a \<Rightarrow> int) \<Rightarrow> ('h, 'c, 'a) lhash \<Rightarrow> 'a \<Rightarrow>
     bool \<times> 'a option \<times> ('h, 'c, 'a) lhash" where
  "lh_insert m call_hash_func call_cmp_func lh data =
     (case get_next_ptr_and_hash call_hash_func call_cmp_func lh data of
        (hash, b, i) \<Rightarrow>
          (case item_at lh b i of
             Some (old_data, old_hash) \<Rightarrow>
               (True, Some old_data, lh\<lparr>buckets := (buckets lh)[b := (buckets lh ! b)[i := (data, old_hash)]]\<rparr>)
           | None \<Rightarrow>
              (case OPENSSL_malloc m sizeof_LHASH_ITEM of
                 None \<Rightarrow> (False, None, lh)
               | Some _ \<Rightarrow>
                   (True, None,
                    lh_maybe_resize m (lh\<lparr>buckets := (buckets lh)[b := take i (buckets lh ! b) @ [(data, hash)]],
                                          num_items := num_items lh + 1\<rparr>)))))"

definition lh_delete ::
    "libc_malloc \<Rightarrow> ('h \<Rightarrow> 'a \<Rightarrow> u32) \<Rightarrow> ('c \<Rightarrow> 'a \<Rightarrow> 'a \<Rightarrow> int) \<Rightarrow> ('h, 'c, 'a) lhash \<Rightarrow> 'a \<Rightarrow>
     'a option \<times> ('h, 'c, 'a) lhash" where
  "lh_delete m call_hash_func call_cmp_func lh data =
     (case get_next_ptr_and_hash call_hash_func call_cmp_func lh data of
        (_, b, i) \<Rightarrow>
          (case item_at lh b i of
             None \<Rightarrow> (None, lh)
           | Some (ret, _) \<Rightarrow>
               (Some ret,
                lh_maybe_resize m (lh\<lparr>buckets := (buckets lh)[b := take i (buckets lh ! b) @ drop (Suc i) (buckets lh ! b)],
                                      num_items := num_items lh - 1\<rparr>))))"

definition lh_doall_arg :: "libc_malloc \<Rightarrow> ('h, 'c, 'a) lhash option \<Rightarrow> ('a \<Rightarrow> 's \<Rightarrow> 's) \<Rightarrow> 's \<Rightarrow>
    ('h, 'c, 'a) lhash option \<times> 's" where
  "lh_doall_arg m lh func arg =
     (case lh of
        None \<Rightarrow> (None, arg)
      | Some lh \<Rightarrow>
         (let lh = (if callback_depth lh < UINT_MAX then lh\<lparr>callback_depth := callback_depth lh + 1\<rparr> else lh);
              arg = fold (fold (\<lambda>cur. func (fst cur))) (buckets lh) arg;
              lh = (if callback_depth lh < UINT_MAX then lh\<lparr>callback_depth := callback_depth lh - 1\<rparr> else lh)
          in (Some (lh_maybe_resize m lh), arg)))"

definition lh_strhash :: "byte list option \<Rightarrow> u32" where
  "lh_strhash c = (case c of None \<Rightarrow> 0 | Some c \<Rightarrow> OPENSSL_hash32 c (length (takeWhile (\<lambda>b. b \<noteq> 0) c)))"

subsection \<open>The items of a table\<close>

definition hash_ok :: "('a \<Rightarrow> u32) \<Rightarrow> ('a \<Rightarrow> 'a \<Rightarrow> int) \<Rightarrow> bool" where
  "hash_ok hash cmp \<longleftrightarrow>
     (\<forall>a. cmp a a = 0) \<and> (\<forall>a b. cmp a b = 0 \<longrightarrow> cmp b a = 0) \<and>
     (\<forall>a b c. cmp a b = 0 \<longrightarrow> cmp b c = 0 \<longrightarrow> cmp a c = 0) \<and> (\<forall>a b. cmp a b = 0 \<longrightarrow> hash a = hash b)"

definition items :: "'a lhash_item list list \<Rightarrow> 'a lhash_item multiset" where
  "items bs = mset (concat bs)"

definition placed :: "'a lhash_item list list \<Rightarrow> bool" where
  "placed bs \<longleftrightarrow> (\<forall>b < length bs. \<forall>x \<in> set (bs ! b). unat (snd x) mod length bs = b)"

definition unique_keys :: "('a \<Rightarrow> 'a \<Rightarrow> int) \<Rightarrow> 'a lhash_item multiset \<Rightarrow> bool" where
  "unique_keys cmp M \<longleftrightarrow> (\<forall>x \<in># M. \<forall>y \<in># M - {#x#}. cmp (fst x) (fst y) \<noteq> 0)"

definition lh_inv ::
    "('h \<Rightarrow> 'a \<Rightarrow> u32) \<Rightarrow> ('c \<Rightarrow> 'a \<Rightarrow> 'a \<Rightarrow> int) \<Rightarrow> ('h, 'c, 'a) lhash \<Rightarrow> bool" where
  "lh_inv call_hash_func call_cmp_func lh \<longleftrightarrow>
     kMinNumBuckets \<le> num_buckets lh \<and> length (buckets lh) = num_buckets lh \<and>
     num_items lh = size (items (buckets lh)) \<and> placed (buckets lh) \<and>
     (\<forall>x \<in># items (buckets lh). snd x = call_hash_func (lh_hash lh) (fst x)) \<and>
     unique_keys (call_cmp_func (lh_comp lh)) (items (buckets lh))"

lemma items_update:
  assumes "b < length bs"
  shows "items (bs[b := c]) = items bs - mset (bs ! b) + mset c"
proof -
  have "items bs = items (take b bs) + mset (bs ! b) + items (drop (Suc b) bs)"
    using id_take_nth_drop [OF assms] by (metis append.assoc concat.simps(2) concat_append items_def mset_append union_assoc)
  moreover have "items (bs[b := c]) = items (take b bs) + mset c + items (drop (Suc b) bs)"
    using assms by (simp add: upd_conv_take_nth_drop items_def)
  ultimately show ?thesis by simp
qed

lemma items_bucket: "b < length bs \<Longrightarrow> mset (bs ! b) \<subseteq># items bs"
  by (metis id_take_nth_drop items_def concat_append concat.simps(2) mset_append mset_subset_eq_add_left subset_mset.add_increasing2 subset_mset.zero_le subset_mset.add_increasing subset_mset.le_add_same_cancel1)

lemma in_items: "x \<in># items bs \<longleftrightarrow> (\<exists>b < length bs. x \<in> set (bs ! b))"
  unfolding items_def set_mset_mset set_concat by (metis (no_types, lifting) UN_iff in_set_conv_nth nth_mem)

lemma in_items_placed:
  assumes "placed bs" "length bs = n" "0 < n"
  shows "x \<in># items bs \<longleftrightarrow> x \<in> set (bs ! (unat (snd x) mod n))"
proof -
  have "unat (snd x) mod n < length bs" using assms by simp
  then show ?thesis using assms by (auto simp: in_items placed_def intro: exI [of _ "unat (snd x) mod n"])
qed

lemma placed_update:
  "placed bs \<Longrightarrow> \<forall>x \<in> set c. unat (snd x) mod length bs = b \<Longrightarrow> placed (bs[b := c])"
  unfolding placed_def length_list_update by (metis nth_list_update_eq nth_list_update_neq)

subsection \<open>Chains\<close>

lemma chain_index_le: "chain_index P c \<le> length c"
  by (induction c) auto

lemma chain_index_hit: "chain_index P c < length c \<Longrightarrow> P (fst (c ! chain_index P c))"
  by (induction c) auto

lemma chain_index_miss: "chain_index P c = length c \<longleftrightarrow> (\<forall>x \<in> set c. \<not> P (fst x))"
  using chain_index_le by (induction c) auto

lemma chain_index_nth: "chain_index P c < length c \<Longrightarrow> c ! chain_index P c \<in> set c"
  by simp

subsection \<open>Moving the items to new buckets\<close>

lemma move_item:
  assumes "length bs = n" "0 < n" "placed bs"
  shows "length (move_item n x bs) = n" "items (move_item n x bs) = add_mset x (items bs)" "placed (move_item n x bs)"
proof -
  let ?b = "unat (snd x) mod n"
  have b: "?b < length bs" using assms by simp
  show "length (move_item n x bs) = n" using assms by (simp add: move_item_def Let_def)
  show "items (move_item n x bs) = add_mset x (items bs)"
    using items_bucket [OF b] by (simp add: move_item_def Let_def items_update [OF b] subset_mset.diff_add)
  show "placed (move_item n x bs)"
    unfolding move_item_def Let_def using assms b by (intro placed_update) (auto simp: placed_def)
qed

lemma fold_move_item:
  "length bs = n \<Longrightarrow> 0 < n \<Longrightarrow> placed bs \<Longrightarrow>
   length (fold (move_item n) xs bs) = n \<and> items (fold (move_item n) xs bs) = mset xs + items bs \<and>
   placed (fold (move_item n) xs bs)"
proof (induction xs arbitrary: bs)
  case (Cons x xs)
  from Cons.IH [OF move_item(1) _ move_item(3)] move_item(2) Cons.prems show ?case by simp
qed simp

lemma fold_fold_concat: "fold (fold f) xss a = fold f (concat xss) a"
  by (induction xss arbitrary: a) simp_all

lemma items_empty: "items (replicate n []) = {#}"
  by (induction n) (simp_all add: items_def)

lemma lh_rebucket_cases:
  assumes "kMinNumBuckets \<le> n"
  shows "lh_rebucket m lh n = lh \<or>
    (\<exists>bs. lh_rebucket m lh n = lh\<lparr>num_buckets := n, buckets := bs\<rparr> \<and> length bs = n \<and> items bs = items (buckets lh) \<and> placed bs)"
proof -
  let ?bs = "fold (fold (move_item n)) (buckets lh) (replicate n [])"
  have "placed (replicate n [])" by (simp add: placed_def)
  then have "length ?bs = n \<and> items ?bs = items (buckets lh) \<and> placed ?bs"
    using fold_move_item [of "replicate n []" n "concat (buckets lh)"] assms
    by (simp add: fold_fold_concat items_empty kMinNumBuckets_def) (simp add: items_def)
  then show ?thesis by (auto simp: lh_rebucket_def Let_def split: option.splits)
qed

lemma lh_maybe_resize_cases:
  assumes "kMinNumBuckets \<le> num_buckets lh"
  obtains "lh_maybe_resize m lh = lh"
  | n bs where "lh_maybe_resize m lh = lh\<lparr>num_buckets := n, buckets := bs\<rparr>" "kMinNumBuckets \<le> n" "length bs = n"
      "items bs = items (buckets lh)" "placed bs"
proof -
  have "lh_maybe_resize m lh = lh \<or> (\<exists>n. kMinNumBuckets \<le> n \<and> lh_maybe_resize m lh = lh_rebucket m lh n)"
  proof -
    let ?n = "num_buckets lh * 2 mod 2 ^ 64"
    let ?k = "if num_buckets lh div 2 < kMinNumBuckets then kMinNumBuckets else num_buckets lh div 2"
    have "lh_maybe_resize m lh = lh \<or> num_buckets lh < ?n \<and> lh_maybe_resize m lh = lh_rebucket m lh ?n \<or>
        lh_maybe_resize m lh = lh_rebucket m lh ?k"
      by (simp only: lh_maybe_resize_def Let_def split: if_split) blast
    moreover have "kMinNumBuckets \<le> ?k" by simp
    ultimately show ?thesis using assms by (meson less_imp_le le_trans)
  qed
  then show thesis
  proof
    assume "\<exists>n. kMinNumBuckets \<le> n \<and> lh_maybe_resize m lh = lh_rebucket m lh n"
    then obtain n where "kMinNumBuckets \<le> n" "lh_maybe_resize m lh = lh_rebucket m lh n" by blast
    with lh_rebucket_cases [OF this(1), of m lh] show thesis using that by metis
  qed (use that in blast)
qed

lemma lh_maybe_resize_inv:
  "lh_inv h c lh \<Longrightarrow> lh_inv h c (lh_maybe_resize m lh) \<and> items (buckets (lh_maybe_resize m lh)) = items (buckets lh) \<and>
    lh_hash (lh_maybe_resize m lh) = lh_hash lh \<and> lh_comp (lh_maybe_resize m lh) = lh_comp lh"
  by (rule lh_maybe_resize_cases [of lh m]) (auto simp: lh_inv_def)

subsection \<open>Lookup, insertion and deletion as operations on the items\<close>

lemma unique_keys_diff: "unique_keys C M \<Longrightarrow> unique_keys C (M - N)"
  unfolding unique_keys_def
proof (intro ballI)
  fix u v assume *: "\<forall>x \<in># M. \<forall>y \<in># M - {#x#}. C (fst x) (fst y) \<noteq> 0" "u \<in># M - N" "v \<in># M - N - {#u#}"
  from *(3) have "v \<in># M - {#u#} - N" by (simp only: diff_right_commute)
  then have "v \<in># M - {#u#}" by (rule in_diffD)
  with * show "C (fst u) (fst v) \<noteq> 0" using in_diffD by fastforce
qed

lemma unique_keys_add:
  assumes "unique_keys C M" "\<And>y. y \<in># M \<Longrightarrow> C (fst x) (fst y) \<noteq> 0 \<and> C (fst y) (fst x) \<noteq> 0"
  shows "unique_keys C (add_mset x M)"
  unfolding unique_keys_def
proof (intro ballI)
  fix u v assume u: "u \<in># add_mset x M" and v: "v \<in># add_mset x M - {#u#}"
  show "C (fst u) (fst v) \<noteq> 0"
  proof (cases "u = x")
    case True
    then show ?thesis using v assms(2) by simp
  next
    case False
    then have "u \<in># M" "v \<in># add_mset x (M - {#u#})" using u v by (simp_all add: diff_add_mset_swap)
    then show ?thesis using assms(1) assms(2) [of u] unfolding unique_keys_def by auto
  qed
qed

lemma mset_delete_nth: "i < length xs \<Longrightarrow> mset (take i xs @ drop (Suc i) xs) = mset xs - {#xs ! i#}"
proof -
  assume "i < length xs"
  then have "mset xs = mset (take i xs) + add_mset (xs ! i) (mset (drop (Suc i) xs))"
    using id_take_nth_drop [of i xs] by (metis mset.simps(2) mset_append)
  then show ?thesis by simp
qed


lemma get_next:
  assumes "lh_inv h c lh" "hash_ok (h (lh_hash lh)) (c (lh_comp lh))"
    and "get_next_ptr_and_hash h c lh k = (hv, b, i)"
  shows "hv = h (lh_hash lh) k" "b = unat hv mod num_buckets lh" "b < length (buckets lh)" "i \<le> length (buckets lh ! b)"
    and "i < length (buckets lh ! b) \<Longrightarrow> c (lh_comp lh) (fst (buckets lh ! b ! i)) k = 0"
    and "i < length (buckets lh ! b) \<Longrightarrow> buckets lh ! b ! i \<in># items (buckets lh)"
    and "i = length (buckets lh ! b) \<Longrightarrow> y \<in># items (buckets lh) \<Longrightarrow> c (lh_comp lh) (fst y) k \<noteq> 0"
proof -
  let ?P = "\<lambda>d. c (lh_comp lh) d k = 0"
  from assms(3) show hv: "hv = h (lh_hash lh) k" and b: "b = unat hv mod num_buckets lh"
    by (auto simp: get_next_ptr_and_hash_def Let_def)
  from assms(3) have i: "i = chain_index ?P (buckets lh ! b)"
    by (auto simp: get_next_ptr_and_hash_def Let_def)
  have n: "0 < num_buckets lh" "length (buckets lh) = num_buckets lh" "placed (buckets lh)"
    using assms(1) by (auto simp: lh_inv_def kMinNumBuckets_def)
  then show bl: "b < length (buckets lh)" by (simp add: b)
  show "i \<le> length (buckets lh ! b)" unfolding i by (rule chain_index_le)
  show "c (lh_comp lh) (fst (buckets lh ! b ! i)) k = 0" if "i < length (buckets lh ! b)"
    using chain_index_hit [of ?P] that unfolding i by blast
  show "buckets lh ! b ! i \<in># items (buckets lh)" if "i < length (buckets lh ! b)"
    using that bl by (auto simp: in_items)
  show "c (lh_comp lh) (fst y) k \<noteq> 0" if e: "i = length (buckets lh ! b)" and y: "y \<in># items (buckets lh)"
  proof
    assume z: "c (lh_comp lh) (fst y) k = 0"
    have "snd y = h (lh_hash lh) (fst y)" using assms(1) y by (auto simp: lh_inv_def)
    also have "\<dots> = hv" using assms(2) z unfolding hv hash_ok_def by blast
    finally have "y \<in> set (buckets lh ! b)" using y in_items_placed [OF n(3,2,1)] by (simp add: b)
    moreover have "\<forall>x \<in> set (buckets lh ! b). \<not> ?P (fst x)" using e i chain_index_miss [of ?P] by simp
    ultimately show False using z by blast
  qed
qed

lemma lh_retrieve_iff:
  assumes "lh_inv h c lh" "hash_ok (h (lh_hash lh)) (c (lh_comp lh))"
  shows "lh_retrieve h c lh k = Some d \<longleftrightarrow>
    (d, h (lh_hash lh) d) \<in># items (buckets lh) \<and> c (lh_comp lh) d k = 0"
proof -
  obtain hv b i where g: "get_next_ptr_and_hash h c lh k = (hv, b, i)" by (cases "get_next_ptr_and_hash h c lh k")
  note G = get_next [OF assms g]
  let ?x = "buckets lh ! b ! i"
  show ?thesis
  proof (cases "i < length (buckets lh ! b)")
    case True
    have x: "snd ?x = h (lh_hash lh) (fst ?x)" using G(6) [OF True] assms(1) by (auto simp: lh_inv_def)
    have r: "lh_retrieve h c lh k = Some (fst ?x)" using g True by (simp add: lh_retrieve_def item_at_def)
    show ?thesis
    proof
      assume "lh_retrieve h c lh k = Some d"
      then show "(d, h (lh_hash lh) d) \<in># items (buckets lh) \<and> c (lh_comp lh) d k = 0"
        using r x G(5,6) [OF True] by (metis option.inject prod.collapse)
    next
      assume d: "(d, h (lh_hash lh) d) \<in># items (buckets lh) \<and> c (lh_comp lh) d k = 0"
      have "?x = (d, h (lh_hash lh) d)"
      proof (rule ccontr)
        assume "?x \<noteq> (d, h (lh_hash lh) d)"
        then have "(d, h (lh_hash lh) d) \<in># items (buckets lh) - {#?x#}" using d by (simp add: in_diff_count)
        then have "c (lh_comp lh) (fst ?x) d \<noteq> 0"
          using assms(1) G(6) [OF True] by (fastforce simp: lh_inv_def unique_keys_def)
        moreover have "c (lh_comp lh) (fst ?x) d = 0"
          using assms(2) G(5) [OF True] d unfolding hash_ok_def by blast
        ultimately show False by blast
      qed
      then show "lh_retrieve h c lh k = Some d" using r by simp
    qed
  next
    case False
    then have "lh_retrieve h c lh k = None" using g by (simp add: lh_retrieve_def item_at_def)
    moreover have "i = length (buckets lh ! b)" using False G(4) by simp
    from G(7) [OF this] have "(d, h (lh_hash lh) d) \<in># items (buckets lh) \<Longrightarrow> c (lh_comp lh) d k \<noteq> 0" by fastforce
    ultimately show ?thesis by auto
  qed
qed

lemma retrieve_None_iff:
  assumes "lh_inv h c lh" "hash_ok (h (lh_hash lh)) (c (lh_comp lh))"
  shows "lh_retrieve h c lh k = None \<longleftrightarrow> (\<forall>y \<in># items (buckets lh). c (lh_comp lh) (fst y) k \<noteq> 0)"
proof -
  have "snd y = h (lh_hash lh) (fst y)" if "y \<in># items (buckets lh)" for y using assms(1) that by (auto simp: lh_inv_def)
  then have "(\<exists>d. lh_retrieve h c lh k = Some d) \<longleftrightarrow> (\<exists>y \<in># items (buckets lh). c (lh_comp lh) (fst y) k = 0)"
    unfolding lh_retrieve_iff [OF assms] by (metis fst_conv prod.collapse)
  then show ?thesis by (metis not_Some_eq)
qed

lemma hash_okD:
  assumes "hash_ok H C"
  shows "C a a = 0" "C a b = 0 \<Longrightarrow> C b a = 0" "C a b = 0 \<Longrightarrow> C b e = 0 \<Longrightarrow> C a e = 0" "C a b = 0 \<Longrightarrow> H a = H b"
  using assms unfolding hash_ok_def by blast+

definition without :: "('a \<Rightarrow> 'a \<Rightarrow> int) \<Rightarrow> 'a \<Rightarrow> 'a lhash_item multiset \<Rightarrow> 'a lhash_item multiset" where
  "without C d M = filter_mset (\<lambda>y. C (fst y) d \<noteq> 0) M"

lemma without_hit:
  assumes "unique_keys C M" "hash_ok H C" "x \<in># M" "C (fst x) d = 0"
  shows "without C d M = M - {#x#}"
proof -
  have "C (fst y) d \<noteq> 0" if y: "y \<in># M - {#x#}" for y
  proof
    assume "C (fst y) d = 0"
    then have "C (fst x) (fst y) = 0" using hash_okD [OF assms(2)] assms(4) by blast
    then show False using assms(1,3) y unfolding unique_keys_def by blast
  qed
  then have "filter_mset (\<lambda>y. C (fst y) d \<noteq> 0) (M - {#x#}) = M - {#x#}"
    using filter_mset_cong [of "M - {#x#}" "M - {#x#}" "\<lambda>y. C (fst y) d \<noteq> 0" "\<lambda>_. True"] by simp
  then have "filter_mset (\<lambda>y. C (fst y) d \<noteq> 0) (add_mset x (M - {#x#})) = M - {#x#}" using assms(4) by simp
  then show ?thesis using assms(3) by (simp add: without_def)
qed

lemma without_miss: "(\<And>y. y \<in># M \<Longrightarrow> C (fst y) d \<noteq> 0) \<Longrightarrow> without C d M = M"
  unfolding without_def using filter_mset_cong [of M M "\<lambda>y. C (fst y) d \<noteq> 0" "\<lambda>_. True"] by simp

lemma unique_keys_insert:
  assumes "unique_keys C M" "hash_ok H C"
  shows "unique_keys C (add_mset (d, hv) (without C d M))"
proof (rule unique_keys_add)
  show "unique_keys C (without C d M)"
  proof -
    have "M - filter_mset (\<lambda>y. \<not> C (fst y) d \<noteq> 0) M = without C d M"
      unfolding without_def by (subst multiset_partition [of M "\<lambda>y. C (fst y) d \<noteq> 0"]) (rule add_diff_cancel_right')
    then show ?thesis using unique_keys_diff [OF assms(1)] by metis
  qed
  show "C (fst (d, hv)) (fst y) \<noteq> 0 \<and> C (fst y) (fst (d, hv)) \<noteq> 0" if "y \<in># without C d M" for y
    using that hash_okD(2) [OF assms(2), of d "fst y"] by (auto simp: without_def)
qed

lemma chain_change:
  assumes "x \<in> set ch" "mset ch \<subseteq># I" "mset ch' = mset ch - {#x#} + N"
  shows "I - mset ch + mset ch' = I - {#x#} + N"
proof -
  obtain R where R: "I = mset ch + R" using assms(2) by (metis subset_mset.le_iff_add)
  have "mset ch + R - {#x#} = mset ch - {#x#} + R" using assms(1) by (simp add: multiset_diff_union_assoc)
  then show ?thesis unfolding R assms(3) by (simp add: ac_simps)
qed

lemma lh_inv_items:
  assumes "lh_inv h c lh" "length bs = num_buckets lh" "placed bs" "n = size (items bs)"
    and "\<forall>x \<in># items bs. snd x = h (lh_hash lh) (fst x)" "unique_keys (c (lh_comp lh)) (items bs)"
  shows "lh_inv h c (lh\<lparr>buckets := bs, num_items := n\<rparr>)"
  using assms by (simp add: lh_inv_def)

lemma lh_insert_items:
  assumes inv: "lh_inv h c lh" and ok: "hash_ok (h (lh_hash lh)) (c (lh_comp lh))"
    and ins: "lh_insert m h c lh d = (r, old, lh')"
  shows "old = lh_retrieve h c lh d \<and> lh_hash lh' = lh_hash lh \<and> lh_comp lh' = lh_comp lh \<and> lh_inv h c lh' \<and>
    (if r then items (buckets lh') = add_mset (d, h (lh_hash lh) d) (without (c (lh_comp lh)) d (items (buckets lh)))
     else lh' = lh \<and> old = None)"
proof -
  let ?H = "h (lh_hash lh)" and ?C = "c (lh_comp lh)" and ?M = "items (buckets lh)"
  obtain hv b i where g: "get_next_ptr_and_hash h c lh d = (hv, b, i)" by (cases "get_next_ptr_and_hash h c lh d")
  note G = get_next [OF inv ok g]
  let ?ch = "buckets lh ! b"
  have I: "length (buckets lh) = num_buckets lh" "placed (buckets lh)" "unique_keys ?C ?M"
    "\<forall>x \<in># ?M. snd x = ?H (fst x)" "num_items lh = size ?M"
    using inv by (auto simp: lh_inv_def)
  have ret: "lh_retrieve h c lh d = map_option fst (item_at lh b i)" using g by (simp add: lh_retrieve_def)
  have pl: "\<forall>x \<in> set ?ch. unat (snd x) mod length (buckets lh) = b" using I(2) G(3) unfolding placed_def by blast
  show ?thesis
  proof (cases "i < length ?ch")
    case True
    let ?x = "?ch ! i"
    let ?bs = "(buckets lh)[b := ?ch[i := (d, snd ?x)]]"
    have r: "r" "old = Some (fst ?x)" "lh' = lh\<lparr>buckets := ?bs\<rparr>"
      using ins g True by (cases ?x; simp add: lh_insert_def item_at_def)+
    have sx: "snd ?x = ?H d" using I(4) G(6) [OF True] hash_okD(4) [OF ok G(5) [OF True]] by simp
    have it: "items ?bs = add_mset (d, ?H d) (without ?C d ?M)"
    proof -
      have "items ?bs = ?M - mset ?ch + mset (?ch[i := (d, snd ?x)])" by (rule items_update [OF G(3)])
      also have "\<dots> = ?M - {#?x#} + {#(d, snd ?x)#}"
        by (rule chain_change) (use True in \<open>simp_all add: items_bucket [OF G(3)] mset_update\<close>)
      also have "?M - {#?x#} = without ?C d ?M"
        using without_hit [OF I(3) ok G(6) [OF True] G(5) [OF True]] by simp
      finally show ?thesis by (simp add: sx)
    qed
    have "lh_inv h c (lh\<lparr>buckets := ?bs, num_items := num_items lh\<rparr>)"
    proof (rule lh_inv_items [OF inv])
      show "placed ?bs" using I(2) pl True by (intro placed_update) (auto dest!: set_update_subset_insert [THEN subsetD])
      show "num_items lh = size (items ?bs)"
        using G(6) [OF True] without_hit [OF I(3) ok G(6) [OF True] G(5) [OF True]]
        by (simp add: it I(5) size_Suc_Diff1)
      show "\<forall>x \<in># items ?bs. snd x = ?H (fst x)" unfolding it using I(4) by (auto simp: without_def)
      show "unique_keys ?C (items ?bs)" unfolding it by (rule unique_keys_insert [OF I(3) ok])
    qed (simp add: I)
    then show ?thesis using r it ret True by (simp add: item_at_def)
  next
    case False
    then have i: "i = length ?ch" using G(4) by simp
    have miss: "without ?C d ?M = ?M" using G(7) [OF i] by (rule without_miss)
    let ?bs = "(buckets lh)[b := ?ch @ [(d, hv)]]"
    have it: "items ?bs = add_mset (d, ?H d) ?M"
      using items_bucket [OF G(3)] by (simp add: items_update [OF G(3)] G(1) subset_mset.diff_add)
    have inv': "lh_inv h c (lh\<lparr>buckets := ?bs, num_items := num_items lh + 1\<rparr>)"
    proof (rule lh_inv_items [OF inv])
      show "placed ?bs" using I(1,2) pl G(2) by (intro placed_update) auto
      show "unique_keys ?C (items ?bs)" using unique_keys_insert [OF I(3) ok, of d "?H d"] unfolding it miss .
    qed (use it I in auto)
    show ?thesis
    proof (cases "OPENSSL_malloc m sizeof_LHASH_ITEM")
      case None
      then show ?thesis using ins g i ret inv by (auto simp: lh_insert_def item_at_def)
    next
      case (Some p)
      then have "r" "old = None" "lh' = lh_maybe_resize m (lh\<lparr>buckets := ?bs, num_items := num_items lh + 1\<rparr>)"
        using ins g i by (auto simp: lh_insert_def item_at_def)
      then show ?thesis using lh_maybe_resize_inv [OF inv', of m] it miss ret i by (simp add: item_at_def)
    qed
  qed
qed

lemma lh_delete_items:
  assumes inv: "lh_inv h c lh" and ok: "hash_ok (h (lh_hash lh)) (c (lh_comp lh))"
    and del: "lh_delete m h c lh d = (r, lh')"
  shows "r = lh_retrieve h c lh d \<and> lh_hash lh' = lh_hash lh \<and> lh_comp lh' = lh_comp lh \<and> lh_inv h c lh' \<and>
    items (buckets lh') = without (c (lh_comp lh)) d (items (buckets lh))"
proof -
  let ?H = "h (lh_hash lh)" and ?C = "c (lh_comp lh)" and ?M = "items (buckets lh)"
  obtain hv b i where g: "get_next_ptr_and_hash h c lh d = (hv, b, i)" by (cases "get_next_ptr_and_hash h c lh d")
  note G = get_next [OF inv ok g]
  let ?ch = "buckets lh ! b"
  have I: "length (buckets lh) = num_buckets lh" "placed (buckets lh)" "unique_keys ?C ?M"
    "\<forall>x \<in># ?M. snd x = ?H (fst x)" "num_items lh = size ?M"
    using inv by (auto simp: lh_inv_def)
  have ret: "lh_retrieve h c lh d = map_option fst (item_at lh b i)" using g by (simp add: lh_retrieve_def)
  have pl: "\<forall>x \<in> set ?ch. unat (snd x) mod length (buckets lh) = b" using I(2) G(3) unfolding placed_def by blast
  show ?thesis
  proof (cases "i < length ?ch")
    case True
    let ?x = "?ch ! i"
    let ?bs = "(buckets lh)[b := take i ?ch @ drop (Suc i) ?ch]"
    have r: "r = Some (fst ?x)" "lh' = lh_maybe_resize m (lh\<lparr>buckets := ?bs, num_items := num_items lh - 1\<rparr>)"
      using del g True by (cases ?x; simp add: lh_delete_def item_at_def)+
    note hit = without_hit [OF I(3) ok G(6) [OF True] G(5) [OF True]]
    have it: "items ?bs = without ?C d ?M"
    proof -
      have "items ?bs = ?M - mset ?ch + mset (take i ?ch @ drop (Suc i) ?ch)" by (rule items_update [OF G(3)])
      also have "\<dots> = ?M - {#?x#} + {#}"
        by (rule chain_change) (use True in \<open>simp_all only: items_bucket [OF G(3)] mset_delete_nth nth_mem add_0_right\<close>)
      finally show ?thesis by (simp add: hit)
    qed
    have "lh_inv h c (lh\<lparr>buckets := ?bs, num_items := num_items lh - 1\<rparr>)"
    proof (rule lh_inv_items [OF inv])
      show "placed ?bs" using I(2) pl by (intro placed_update) (auto dest: in_set_takeD in_set_dropD)
      show "num_items lh - 1 = size (items ?bs)" using G(6) [OF True] unfolding it hit I(5) by (simp add: size_Diff_singleton)
      show "\<forall>x \<in># items ?bs. snd x = ?H (fst x)" unfolding it using I(4) by (auto simp: without_def)
      show "unique_keys ?C (items ?bs)" unfolding it hit using I(3) by (rule unique_keys_diff)
    qed (simp add: I)
    from lh_maybe_resize_inv [OF this, of m] show ?thesis using r it ret True by (simp add: item_at_def)
  next
    case False
    then have i: "i = length ?ch" using G(4) by simp
    have "without ?C d ?M = ?M" using G(7) [OF i] by (rule without_miss)
    then show ?thesis using del g i ret inv by (simp add: lh_delete_def item_at_def)
  qed
qed

lemma lookup_add_without:
  assumes "unique_keys C M" "hash_ok H C"
  shows "(e, H e) \<in># add_mset (d, H d) (without C d M) \<and> C e k = 0 \<longleftrightarrow>
    (if C d k = 0 then e = d else (e, H e) \<in># M \<and> C e k = 0)"
proof (cases "C d k = 0")
  case True
  have "C e d = 0" if "C e k = 0" using hash_okD(2,3) [OF assms(2)] that True by blast
  then show ?thesis using True by (auto simp: without_def)
next
  case False
  have "C e d \<noteq> 0" if "C e k = 0" using hash_okD(2,3) [OF assms(2)] that False by blast
  then show ?thesis using False by (auto simp: without_def)
qed

lemma lookup_without:
  assumes "hash_ok H C"
  shows "(e, H e) \<in># without C d M \<and> C e k = 0 \<longleftrightarrow> C d k \<noteq> 0 \<and> (e, H e) \<in># M \<and> C e k = 0"
proof -
  have "C e d = 0 \<longleftrightarrow> C d k = 0" if "C e k = 0" using hash_okD(2,3) [OF assms] that by blast
  then show ?thesis by (auto simp: without_def)
qed

lemma size_without:
  assumes "lh_inv h c lh" "hash_ok (h (lh_hash lh)) (c (lh_comp lh))"
  shows "size (without (c (lh_comp lh)) d (items (buckets lh))) =
    (if lh_retrieve h c lh d = None then num_items lh else num_items lh - 1)"
    and "lh_retrieve h c lh d \<noteq> None \<Longrightarrow> 0 < num_items lh"
proof -
  let ?M = "items (buckets lh)" and ?C = "c (lh_comp lh)"
  have n: "num_items lh = size ?M" "unique_keys ?C ?M" using assms(1) by (auto simp: lh_inv_def)
  have some: "\<exists>y. y \<in># ?M \<and> ?C (fst y) d = 0" if "lh_retrieve h c lh d \<noteq> None"
  proof -
    from that obtain e where "lh_retrieve h c lh d = Some e" by blast
    then have "(e, h (lh_hash lh) e) \<in># ?M" "?C e d = 0" using lh_retrieve_iff [OF assms] by blast+
    then show ?thesis by (intro exI [of _ "(e, h (lh_hash lh) e)"]) simp
  qed
  show "size (without ?C d ?M) = (if lh_retrieve h c lh d = None then num_items lh else num_items lh - 1)"
  proof (cases "lh_retrieve h c lh d = None")
    case True
    then have "without ?C d ?M = ?M" using retrieve_None_iff [OF assms, of d] by (intro without_miss) blast
    then show ?thesis using True n by simp
  next
    case False
    with some obtain y where "y \<in># ?M" "?C (fst y) d = 0" by blast
    then show ?thesis unfolding if_not_P [OF False] using without_hit [OF n(2) assms(2)] n(1)
      by (simp add: size_Diff_singleton)
  qed
  show "0 < num_items lh" if "lh_retrieve h c lh d \<noteq> None"
    using some [OF that] n(1) by (metis gr0I size_eq_0_iff_empty empty_not_add_mset multi_member_split)
qed

subsection \<open>Tables as an interface\<close>

datatype 'a table_op = Put 'a | Remove 'a

fun run_table ::
    "('t \<Rightarrow> 'a \<Rightarrow> bool \<times> 'a option \<times> 't) \<Rightarrow> ('t \<Rightarrow> 'a \<Rightarrow> 'a option \<times> 't) \<Rightarrow> 'a table_op list \<Rightarrow> 't \<Rightarrow>
     ('a option list \<times> 't) option" where
  "run_table put remove [] t = Some ([], t)"
| "run_table put remove (Put d # ops) t =
     (case put t d of (ok, old, t) \<Rightarrow>
        if ok then map_option (\<lambda>(rs, t). (old # rs, t)) (run_table put remove ops t) else None)"
| "run_table put remove (Remove d # ops) t =
     (case remove t d of (old, t) \<Rightarrow> map_option (\<lambda>(rs, t). (old # rs, t)) (run_table put remove ops t))"

fun run_map :: "('a \<Rightarrow> 'a \<Rightarrow> bool) \<Rightarrow> 'a table_op list \<Rightarrow> ('a \<Rightarrow> 'a option) \<Rightarrow> 'a option list \<times> ('a \<Rightarrow> 'a option)" where
  "run_map eqv [] f = ([], f)"
| "run_map eqv (Put d # ops) f =
     (case run_map eqv ops (\<lambda>k. if eqv d k then Some d else f k) of (rs, g) \<Rightarrow> (f d # rs, g))"
| "run_map eqv (Remove d # ops) f =
     (case run_map eqv ops (\<lambda>k. if eqv d k then None else f k) of (rs, g) \<Rightarrow> (f d # rs, g))"

locale table =
  fixes inv :: "'t \<Rightarrow> bool" and lookup :: "'t \<Rightarrow> 'a \<Rightarrow> 'a option" and entries :: "'t \<Rightarrow> nat"
    and put :: "'t \<Rightarrow> 'a \<Rightarrow> bool \<times> 'a option \<times> 't" and remove :: "'t \<Rightarrow> 'a \<Rightarrow> 'a option \<times> 't"
    and eqv :: "'a \<Rightarrow> 'a \<Rightarrow> bool"
  assumes put_fails: "inv t \<Longrightarrow> put t d = (False, old, t') \<Longrightarrow> t' = t"
    and put: "inv t \<Longrightarrow> put t d = (True, old, t') \<Longrightarrow>
      inv t' \<and> old = lookup t d \<and> entries t' = entries t + (if lookup t d = None then 1 else 0) \<and>
      lookup t' k = (if eqv d k then Some d else lookup t k)"
    and remove: "inv t \<Longrightarrow> remove t d = (old, t') \<Longrightarrow>
      inv t' \<and> old = lookup t d \<and> entries t' + (if lookup t d = None then 0 else 1) = entries t \<and>
      lookup t' k = (if eqv d k then None else lookup t k)"
begin

lemma put_map: "inv t \<Longrightarrow> put t d = (True, old, t') \<Longrightarrow> lookup t' = (\<lambda>k. if eqv d k then Some d else lookup t k)"
  using put by blast

lemma remove_map: "inv t \<Longrightarrow> remove t d = (old, t') \<Longrightarrow> lookup t' = (\<lambda>k. if eqv d k then None else lookup t k)"
  using remove by blast

lemma run_refines:
  "inv t \<Longrightarrow> run_table put remove ops t = Some (rs, t') \<Longrightarrow> inv t' \<and> run_map eqv ops (lookup t) = (rs, lookup t')"
proof (induction ops arbitrary: t rs)
  case Nil
  then show ?case by simp
next
  case (Cons op ops)
  show ?case
  proof (cases op)
    case (Put d)
    then obtain old u rs' where u: "put t d = (True, old, u)" "run_table put remove ops u = Some (rs', t')" "rs = old # rs'"
      using Cons.prems(2) by (auto split: prod.splits if_splits)
    have i: "inv u" "old = lookup t d" using put [OF Cons.prems(1) u(1)] by blast+
    from Cons.IH [OF i(1) u(2)] put_map [OF Cons.prems(1) u(1)] show ?thesis by (simp add: Put u(3) i(2))
  next
    case (Remove d)
    then obtain old u rs' where u: "remove t d = (old, u)" "run_table put remove ops u = Some (rs', t')" "rs = old # rs'"
      using Cons.prems(2) by (auto split: prod.splits if_splits)
    have i: "inv u" "old = lookup t d" using remove [OF Cons.prems(1) u(1)] by blast+
    from Cons.IH [OF i(1) u(2)] remove_map [OF Cons.prems(1) u(1)] show ?thesis by (simp add: Remove u(3) i(2))
  qed
qed

lemma put_remove:
  assumes "inv t" "eqv d d" "put t d = (True, old, u)" "remove u d = (r, v)"
  shows "r = Some d \<and> lookup v k = (if eqv d k then None else lookup t k)"
proof -
  note P = put [OF assms(1,3)]
  then show ?thesis using remove [of u d r v] assms(2,4) by auto
qed

end

definition lh_ok ::
    "('h \<Rightarrow> 'a \<Rightarrow> u32) \<Rightarrow> ('c \<Rightarrow> 'a \<Rightarrow> 'a \<Rightarrow> int) \<Rightarrow> ('a \<Rightarrow> u32) \<Rightarrow> ('a \<Rightarrow> 'a \<Rightarrow> int) \<Rightarrow> ('h, 'c, 'a) lhash \<Rightarrow> bool" where
  "lh_ok h c H C lh \<longleftrightarrow> lh_inv h c lh \<and> h (lh_hash lh) = H \<and> c (lh_comp lh) = C \<and> hash_ok H C"

lemma option_if_eq:
  assumes "\<And>e. x = Some e \<longleftrightarrow> (if P then e = d else y = Some e)"
  shows "x = (if P then Some d else y)"
proof (cases P)
  case True
  then show ?thesis using assms [of d] by simp
next
  case False
  then show ?thesis using assms by (cases y; cases x) auto
qed

lemma lh_insert_laws:
  assumes "lh_ok h c H C lh" "lh_insert m h c lh d = (r, old, lh')"
  shows "\<not> r \<Longrightarrow> lh' = lh \<and> old = None"
    and "r \<Longrightarrow> lh_ok h c H C lh' \<and> old = lh_retrieve h c lh d \<and>
      lh_num_items lh' = lh_num_items lh + (if lh_retrieve h c lh d = None then 1 else 0) \<and>
      lh_retrieve h c lh' k = (if C d k = 0 then Some d else lh_retrieve h c lh k)"
proof -
  have h: "lh_inv h c lh" "hash_ok (h (lh_hash lh)) (c (lh_comp lh))" "h (lh_hash lh) = H" "c (lh_comp lh) = C" "hash_ok H C"
    using assms(1) by (auto simp: lh_ok_def)
  note L = lh_insert_items [OF h(1,2) assms(2)]
  show "lh' = lh \<and> old = None" if "\<not> r" using L unfolding if_not_P [OF that] by blast
  assume r: r
  have L': "lh_inv h c lh'" "h (lh_hash lh') = H" "c (lh_comp lh') = C" "old = lh_retrieve h c lh d"
    "items (buckets lh') = add_mset (d, H d) (without C d (items (buckets lh)))"
    using L r h by auto
  have ok': "hash_ok (h (lh_hash lh')) (c (lh_comp lh'))" using L' h(5) by simp
  have u: "unique_keys C (items (buckets lh))" using h(1,4) by (auto simp: lh_inv_def)
  have "lh_retrieve h c lh' k = Some e \<longleftrightarrow> (if C d k = 0 then e = d else lh_retrieve h c lh k = Some e)" for e
    using lookup_add_without [OF u h(5), of e d k]
    by (simp add: lh_retrieve_iff [OF L'(1) ok'] lh_retrieve_iff [OF h(1,2)] L'(2,3,5) h(3,4))
  then have "lh_retrieve h c lh' k = (if C d k = 0 then Some d else lh_retrieve h c lh k)"
    by (rule option_if_eq)
  moreover have "num_items lh' = size (items (buckets lh'))" using L'(1) by (simp add: lh_inv_def)
  then have "lh_num_items lh' = lh_num_items lh + (if lh_retrieve h c lh d = None then 1 else 0)"
    using size_without [OF h(1,2), of d] by (auto simp: lh_num_items_def L'(5) h(4))
  ultimately show "lh_ok h c H C lh' \<and> old = lh_retrieve h c lh d \<and>
      lh_num_items lh' = lh_num_items lh + (if lh_retrieve h c lh d = None then 1 else 0) \<and>
      lh_retrieve h c lh' k = (if C d k = 0 then Some d else lh_retrieve h c lh k)"
    using L' h(5) by (auto simp: lh_ok_def)
qed

lemma option_filter_eq: "(\<And>e. x = Some e \<longleftrightarrow> P \<and> y = Some e) \<Longrightarrow> x = (if P then y else None)"
  by (cases x; cases y) auto

lemma lh_delete_laws:
  assumes "lh_ok h c H C lh" "lh_delete m h c lh d = (r, lh')"
  shows "lh_ok h c H C lh' \<and> r = lh_retrieve h c lh d \<and>
      lh_num_items lh' + (if lh_retrieve h c lh d = None then 0 else 1) = lh_num_items lh \<and>
      lh_retrieve h c lh' k = (if C d k = 0 then None else lh_retrieve h c lh k)"
proof -
  have h: "lh_inv h c lh" "hash_ok (h (lh_hash lh)) (c (lh_comp lh))" "h (lh_hash lh) = H" "c (lh_comp lh) = C" "hash_ok H C"
    using assms(1) by (auto simp: lh_ok_def)
  have L: "lh_inv h c lh'" "h (lh_hash lh') = H" "c (lh_comp lh') = C" "r = lh_retrieve h c lh d"
    "items (buckets lh') = without C d (items (buckets lh))"
    using lh_delete_items [OF h(1,2) assms(2)] h by auto
  have ok': "hash_ok (h (lh_hash lh')) (c (lh_comp lh'))" using L h(5) by simp
  have "lh_retrieve h c lh' k = Some e \<longleftrightarrow> C d k \<noteq> 0 \<and> lh_retrieve h c lh k = Some e" for e
    using lookup_without [OF h(5), of e d _ k]
    by (simp add: lh_retrieve_iff [OF L(1) ok'] lh_retrieve_iff [OF h(1,2)] L(2,3,5) h(3,4))
  then have "lh_retrieve h c lh' k = (if C d k = 0 then None else lh_retrieve h c lh k)"
    using option_filter_eq [of "lh_retrieve h c lh' k" "C d k \<noteq> 0" "lh_retrieve h c lh k"] by simp
  moreover have "num_items lh' = size (items (buckets lh'))" using L(1) by (simp add: lh_inv_def)
  then have "lh_num_items lh' + (if lh_retrieve h c lh d = None then 0 else 1) = lh_num_items lh"
    using size_without [OF h(1,2), of d] by (auto simp: lh_num_items_def L(5) h(4))
  ultimately show ?thesis using L h(5) by (auto simp: lh_ok_def)
qed

interpretation lh: table "lh_ok h c H C" "lh_retrieve h c" lh_num_items "lh_insert m h c" "lh_delete m h c"
    "\<lambda>a b. C a b = 0" for m h c H C
proof unfold_locales
  show "t' = t" if "lh_ok h c H C t" "lh_insert m h c t d = (False, old, t')" for t d old t'
    using lh_insert_laws(1) [OF that] by simp
  show "lh_ok h c H C t' \<and> old = lh_retrieve h c t d \<and>
      lh_num_items t' = lh_num_items t + (if lh_retrieve h c t d = None then 1 else 0) \<and>
      lh_retrieve h c t' k = (if C d k = 0 then Some d else lh_retrieve h c t k)"
    if "lh_ok h c H C t" "lh_insert m h c t d = (True, old, t')" for t d old t' k
    by (rule lh_insert_laws(2) [OF that]) simp
  show "lh_ok h c H C t' \<and> old = lh_retrieve h c t d \<and>
      lh_num_items t' + (if lh_retrieve h c t d = None then 0 else 1) = lh_num_items t \<and>
      lh_retrieve h c t' k = (if C d k = 0 then None else lh_retrieve h c t k)"
    if "lh_ok h c H C t" "lh_delete m h c t d = (old, t')" for t d old t' k
    by (rule lh_delete_laws [OF that])
qed

lemma lh_new_ok:
  assumes "hash_ok (h hh) (c cc)" "lh_new m hh cc = Some t"
  shows "lh_ok h c (h hh) (c cc) t" "lh_num_items t = 0" "callback_depth t = 0" "num_buckets t = 16" "lh_retrieve h c t k = None"
proof -
  have t: "t = \<lparr>num_items = 0, buckets = replicate kMinNumBuckets [], num_buckets = kMinNumBuckets,
                    callback_depth = 0, lh_hash = hh, lh_comp = cc\<rparr>"
    using assms(2) by (auto simp: lh_new_def split: option.splits)
  show ok: "lh_ok h c (h hh) (c cc) t"
    using assms(1) by (simp add: t lh_ok_def lh_inv_def items_empty placed_def unique_keys_def)
  show "lh_num_items t = 0" "callback_depth t = 0" "num_buckets t = 16"
    by (simp_all add: t lh_num_items_def kMinNumBuckets_def)
  show "lh_retrieve h c t k = None"
    using retrieve_None_iff [of h c t k] ok assms(1) by (simp add: lh_ok_def t items_empty)
qed

lemma lh_retrieve_by_key:
  assumes "key_hash = h (lh_hash lh) k" "\<And>d. cmp_key key d = 0 \<longleftrightarrow> c (lh_comp lh) d k = 0"
  shows "lh_retrieve_key lh key key_hash cmp_key = lh_retrieve h c lh k"
  using assms by (simp add: lh_retrieve_key_def lh_retrieve_def get_next_ptr_by_key_def get_next_ptr_and_hash_def Let_def)

subsection \<open>The load factor\<close>

definition balanced :: "('h, 'c, 'a) lhash \<Rightarrow> bool" where
  "balanced t \<longleftrightarrow> callback_depth t = 0 \<and> (\<exists>k. num_buckets t = 16 * 2 ^ k) \<and>
     num_items t < 3 * num_buckets t \<and> (num_buckets t = 16 \<or> num_buckets t \<le> num_items t)"

definition enough_memory :: "libc_malloc \<Rightarrow> bool" where
  "enough_memory m \<longleftrightarrow> (\<forall>n < 2 ^ 62. m n \<noteq> None)"

lemma enough_memoryD: "enough_memory m \<Longrightarrow> n < 2 ^ 61 \<Longrightarrow> \<exists>b. OPENSSL_malloc m n = Some b"
  unfolding enough_memory_def OPENSSL_malloc_def OPENSSL_MALLOC_PREFIX_def by (auto split: option.splits)

lemma lh_rebucket_enough:
  assumes "enough_memory m" "n < 2 ^ 55"
  shows "num_buckets (lh_rebucket m lh n) = n" "num_items (lh_rebucket m lh n) = num_items lh"
    "callback_depth (lh_rebucket m lh n) = callback_depth lh"
proof -
  have "8 * n mod 2 ^ 64 = 8 * n" using assms(2) by simp
  moreover obtain b where "OPENSSL_malloc m (8 * n) = Some b" using enough_memoryD [OF assms(1), of "8 * n"] assms(2) by auto
  ultimately show "num_buckets (lh_rebucket m lh n) = n" "num_items (lh_rebucket m lh n) = num_items lh"
    "callback_depth (lh_rebucket m lh n) = callback_depth lh"
    by (simp_all add: lh_rebucket_def)
qed

lemma div_gt_2: "0 < b \<Longrightarrow> 2 < a div b \<longleftrightarrow> 3 * b \<le> a" for a b :: nat
  using less_eq_div_iff_mult_less_eq [of b 3 a] by (simp add: mult.commute) linarith

lemma resize_balanced:
  assumes m: "enough_memory m" and t: "callback_depth t = 0" "num_buckets t = 16 * 2 ^ k"
    "num_items t \<le> 3 * num_buckets t" "num_buckets t = 16 \<or> num_buckets t \<le> num_items t + 1" "num_items t < 2 ^ 50"
  shows "balanced (lh_maybe_resize m t)"
proof -
  have n: "0 < num_buckets t" "num_buckets t \<le> 2 ^ 50" using t(2,4,5) by auto
  have g2: "2 < num_items t div num_buckets t \<longleftrightarrow> 3 * num_buckets t \<le> num_items t" by (rule div_gt_2 [OF n(1)])
  have l1: "num_items t div num_buckets t = 0 \<longleftrightarrow> num_items t < num_buckets t" using n(1) by (simp add: div_eq_0_iff)
  have m2: "num_buckets t * 2 mod 2 ^ 64 = num_buckets t * 2" using n(2) by simp
  show ?thesis
  proof (cases "3 * num_buckets t \<le> num_items t")
    case True
    then have r: "lh_maybe_resize m t = lh_rebucket m t (num_buckets t * 2)"
      using t(1) n(1) g2 m2 by (simp add: lh_maybe_resize_def kMaxAverageChainLength_def)
    have b: "num_buckets t * 2 < 2 ^ 55" using n(2) by simp
    have "num_buckets t * 2 = 16 * 2 ^ Suc k" using t(2) by simp
    then show ?thesis unfolding r balanced_def lh_rebucket_enough [OF m b] using t(1,3) True n
      by (intro conjI exI [of _ "Suc k"]) linarith+
  next
    case big: False
    show ?thesis
    proof (cases "num_items t < num_buckets t \<and> 16 < num_buckets t")
      case True
      then obtain j where j: "k = Suc j" using t(2) by (cases k) auto
      then have half: "num_buckets t div 2 = 16 * 2 ^ j" "\<not> num_buckets t div 2 < 16" using t(2) by auto
      have r: "lh_maybe_resize m t = lh_rebucket m t (num_buckets t div 2)"
        using True big t(1) g2 l1 half(2)
        by (simp add: lh_maybe_resize_def kMaxAverageChainLength_def kMinAverageChainLength_def kMinNumBuckets_def)
      have b: "num_buckets t div 2 < 2 ^ 55" using n(2) by (simp add: less_mult_imp_div_less)
      have "num_buckets t = 2 * (num_buckets t div 2)" using t(2) j by simp
      then show ?thesis unfolding r balanced_def lh_rebucket_enough [OF m b] using t(1,4) True half
        by (intro conjI exI [of _ j]) linarith+
    next
      case False
      then have r: "lh_maybe_resize m t = t"
        using big t(1) g2 l1
        by (auto simp: lh_maybe_resize_def kMaxAverageChainLength_def kMinAverageChainLength_def kMinNumBuckets_def)
      have "16 \<le> num_buckets t" using t(2) by simp
      then have "num_buckets t = 16 \<or> num_buckets t \<le> num_items t" using False by linarith
      then show ?thesis unfolding r balanced_def using t(1,2) big by auto
    qed
  qed
qed

lemma lh_rebucket_num_items: "num_items (lh_rebucket m lh n) = num_items lh"
  by (simp add: lh_rebucket_def Let_def split: option.splits)

lemma lh_maybe_resize_num_items: "num_items (lh_maybe_resize m lh) = num_items lh"
  by (simp add: lh_maybe_resize_def Let_def lh_rebucket_num_items)

lemma lh_insert_balanced:
  assumes "enough_memory m" "balanced t" "num_items t < 2 ^ 50 - 1" "lh_insert m h c t d = (r, old, t')"
  shows "balanced t' \<and> num_items t' \<le> num_items t + 1 \<and> r"
proof -
  obtain hv b i where g: "get_next_ptr_and_hash h c t d = (hv, b, i)" by (cases "get_next_ptr_and_hash h c t d")
  show ?thesis
  proof (cases "item_at t b i")
    case (Some x)
    then show ?thesis using assms(2,4) g by (cases x) (auto simp: lh_insert_def balanced_def)
  next
    case None
    let ?u = "t\<lparr>buckets := (buckets t)[b := take i (buckets t ! b) @ [(d, hv)]], num_items := num_items t + 1\<rparr>"
    obtain p where "OPENSSL_malloc m sizeof_LHASH_ITEM = Some p"
      using enough_memoryD [OF assms(1), of sizeof_LHASH_ITEM] by (auto simp: sizeof_LHASH_ITEM_def)
    then have r: "r" "t' = lh_maybe_resize m ?u" using assms(4) g None by (auto simp: lh_insert_def)
    obtain k where k: "num_buckets t = 16 * 2 ^ k" using assms(2) by (auto simp: balanced_def)
    have "balanced (lh_maybe_resize m ?u)"
      by (rule resize_balanced [OF assms(1), where k = k]) (use assms(2,3) k in \<open>auto simp: balanced_def\<close>)
    then show ?thesis using r lh_maybe_resize_num_items [of m ?u] by simp
  qed
qed

lemma lh_delete_balanced:
  assumes "enough_memory m" "balanced t" "num_items t < 2 ^ 50 - 1" "lh_delete m h c t d = (old, t')"
  shows "balanced t' \<and> num_items t' \<le> num_items t + 1"
proof -
  obtain hv b i where g: "get_next_ptr_and_hash h c t d = (hv, b, i)" by (cases "get_next_ptr_and_hash h c t d")
  show ?thesis
  proof (cases "item_at t b i")
    case None
    then show ?thesis using assms(2,4) g by (auto simp: lh_delete_def)
  next
    case (Some x)
    let ?u = "t\<lparr>buckets := (buckets t)[b := take i (buckets t ! b) @ drop (Suc i) (buckets t ! b)], num_items := num_items t - 1\<rparr>"
    have t': "t' = lh_maybe_resize m ?u" using assms(4) g Some by (cases x) (auto simp: lh_delete_def)
    obtain k where k: "num_buckets t = 16 * 2 ^ k" using assms(2) by (auto simp: balanced_def)
    have "balanced (lh_maybe_resize m ?u)"
      by (rule resize_balanced [OF assms(1), where k = k]) (use assms(2,3) k in \<open>auto simp: balanced_def\<close>)
    then show ?thesis using t' lh_maybe_resize_num_items [of m ?u] by simp
  qed
qed

lemma run_balanced:
  "enough_memory m \<Longrightarrow> balanced t \<Longrightarrow> num_items t + length ops < 2 ^ 50 \<Longrightarrow>
   \<exists>rs t'. run_table (lh_insert m h c) (lh_delete m h c) ops t = Some (rs, t') \<and> balanced t'"
proof (induction ops arbitrary: t)
  case (Cons op ops)
  have n: "num_items t < 2 ^ 50 - 1" using Cons.prems(3) by simp
  show ?case
  proof (cases op)
    case (Put d)
    obtain r old u where u: "lh_insert m h c t d = (r, old, u)" by (cases "lh_insert m h c t d")
    with lh_insert_balanced [OF Cons.prems(1,2) n u] Cons.prems(3) Cons.IH [OF Cons.prems(1), of u] show ?thesis
      by (auto simp: Put)
  next
    case (Remove d)
    obtain old u where u: "lh_delete m h c t d = (old, u)" by (cases "lh_delete m h c t d")
    with lh_delete_balanced [OF Cons.prems(1,2) n u] Cons.prems(3) Cons.IH [OF Cons.prems(1), of u] show ?thesis
      by (auto simp: Remove)
  qed
qed simp

section \<open>Properties\<close>

text \<open>C15. A hash table is a finite map. Whatever insertions and deletions are made on a new table, in
  whatever order and through whatever resizing, every one of them returns what the map held for
  its key, and afterwards \<^verbatim>\<open>lh_retrieve\<close> finds for each key what the map holds for it (keys up
  to the comparison, which is an equivalence that the hash respects).\<close>

theorem lhash_refines_map:
  assumes "hash_ok (h hh) (c cc)" "lh_new m hh cc = Some t0"
    and "run_table (lh_insert m h c) (lh_delete m h c) ops t0 = Some (rs, t)"
  shows "run_map (\<lambda>a b. c cc a b = 0) ops (\<lambda>_. None) = (rs, lh_retrieve h c t) \<and> lh_inv h c t"
proof -
  note N = lh_new_ok [where h = h and hh = hh and c = c and cc = cc, OF assms(1,2)]
  have "lh_retrieve h c t0 = (\<lambda>_. None)" using N(5) by blast
  then show ?thesis using lh.run_refines [OF N(1) assms(3)] by (simp add: lh_ok_def)
qed

definition nat_hash :: "unit \<Rightarrow> nat \<Rightarrow> u32" where
  "nat_hash _ n = word_of_nat (n div 10 mod 2)"

definition nat_cmp :: "unit \<Rightarrow> nat \<Rightarrow> nat \<Rightarrow> int" where
  "nat_cmp _ a b = (if a div 10 = b div 10 then 0 else 1)"

lemma nat_hash_ok: "hash_ok (nat_hash ()) (nat_cmp ())"
  by (simp add: hash_ok_def nat_hash_def nat_cmp_def)

definition small_table :: "(unit, unit, nat) lhash" where
  "small_table = \<lparr>num_items = 0, buckets = replicate 16 [], num_buckets = 16, callback_depth = 0, lh_hash = (), lh_comp = ()\<rparr>"

lemma small_table_new: "lh_new calloc_small () () = Some small_table"
  by (simp add: lh_new_def OPENSSL_malloc_def OPENSSL_MALLOC_PREFIX_def calloc_small_def sizeof_LHASH_def kMinNumBuckets_def
      small_table_def)

lemma calloc_small_enough: "enough_memory calloc_small"
  by (simp add: enough_memory_def calloc_small_def)

theorem lhash_refines_map_witness:
  "\<exists>rs t. run_table (lh_insert calloc_small nat_hash nat_cmp) (lh_delete calloc_small nat_hash nat_cmp)
      [Put 3, Put 23, Put 5, Remove 23] small_table = Some (rs, t) \<and>
    rs = [None, None, Some 3, Some 23] \<and> lh_retrieve nat_hash nat_cmp t 9 = Some 5 \<and>
    lh_retrieve nat_hash nat_cmp t 23 = None"
proof -
  let ?ops = "[Put 3, Put 23, Put 5, Remove 23 :: nat table_op]"
  have "balanced small_table" "num_items small_table + length ?ops < 2 ^ 50"
    by (auto simp: balanced_def small_table_def intro: exI [of _ 0])
  from run_balanced [OF calloc_small_enough this] obtain rs t where
    r: "run_table (lh_insert calloc_small nat_hash nat_cmp) (lh_delete calloc_small nat_hash nat_cmp) ?ops small_table = Some (rs, t)"
    by blast
  have "(rs, lh_retrieve nat_hash nat_cmp t) = run_map (\<lambda>a b. nat_cmp () a b = 0) ?ops (\<lambda>_. None)"
    using lhash_refines_map [where h = nat_hash and c = nat_cmp, OF nat_hash_ok small_table_new r] by simp
  then have "rs = [None, None, Some 3, Some 23]" "lh_retrieve nat_hash nat_cmp t 9 = Some 5"
    "lh_retrieve nat_hash nat_cmp t 23 = None"
    by (auto simp: nat_cmp_def)
  with r show ?thesis by blast
qed

text \<open>C33. The chains stay short. When memory does not run out, every sequence of insertions and
  deletions on a new table succeeds, the number of buckets is a power of two not below 16, there
  are less than three items to a bucket, and the table above its smallest size is never less
  than full on average: what \<^verbatim>\<open>lh_maybe_resize\<close> is for (sequences of at most \<open>2 ^ 50\<close>
  operations, so that no size overflows).\<close>

theorem lhash_load_factor:
  assumes "enough_memory m" "hash_ok (h hh) (c cc)" "lh_new m hh cc = Some t0" "length ops < 2 ^ 50"
  shows "\<exists>rs t. run_table (lh_insert m h c) (lh_delete m h c) ops t0 = Some (rs, t) \<and>
    (\<exists>k. num_buckets t = 2 ^ (4 + k)) \<and> lh_num_items t < 3 * num_buckets t \<and>
    (num_buckets t = 16 \<or> num_buckets t \<le> lh_num_items t)"
proof -
  note N = lh_new_ok [where h = h and hh = hh and c = c and cc = cc, OF assms(2,3)]
  have "balanced t0" using N(2-4) by (auto simp: balanced_def lh_num_items_def intro: exI [of _ 0])
  moreover have "num_items t0 + length ops < 2 ^ 50" using N(2) assms(4) by (simp add: lh_num_items_def)
  ultimately obtain rs t where "run_table (lh_insert m h c) (lh_delete m h c) ops t0 = Some (rs, t)" "balanced t"
    using run_balanced [OF assms(1)] by blast
  then show ?thesis by (auto simp: balanced_def lh_num_items_def power_add)
qed

theorem lhash_load_factor_witness:
  "\<exists>rs t. run_table (lh_insert calloc_small nat_hash nat_cmp) (lh_delete calloc_small nat_hash nat_cmp)
      (map Put [0..<60]) small_table = Some (rs, t) \<and> lh_num_items t < 3 * num_buckets t"
  using lhash_load_factor [where h = nat_hash and c = nat_cmp, OF calloc_small_enough nat_hash_ok small_table_new, of "map Put [0..<60]"] by auto

text \<open>C34. An iteration visits everything once. \<^verbatim>\<open>lh_doall_arg\<close> calls the callback exactly once for
  each item of the table, in some order, and leaves the contents of the table as they were, even
  when it resizes the table afterwards.\<close>

theorem lh_doall_arg_visits_all:
  assumes "lh_inv h c lh" "hash_ok (h (lh_hash lh)) (c (lh_comp lh))" "lh_doall_arg m (Some lh) func arg = (r, arg')"
  shows "\<exists>xs lh'. r = Some lh' \<and> arg' = fold func xs arg \<and> mset xs = image_mset fst (items (buckets lh)) \<and>
    length xs = lh_num_items lh \<and> lh_inv h c lh' \<and> (\<forall>k. lh_retrieve h c lh' k = lh_retrieve h c lh k)"
proof -
  define u where "u = (if callback_depth lh < UINT_MAX then lh\<lparr>callback_depth := callback_depth lh + 1\<rparr> else lh)"
  define v where "v = (if callback_depth u < UINT_MAX then u\<lparr>callback_depth := callback_depth u - 1\<rparr> else u)"
  have b: "buckets u = buckets lh" by (simp add: u_def)
  have v: "buckets v = buckets lh" "num_items v = num_items lh" "num_buckets v = num_buckets lh"
    "lh_hash v = lh_hash lh" "lh_comp v = lh_comp lh"
    by (simp_all add: v_def u_def)
  have inv: "lh_inv h c v" using assms(1) by (simp add: lh_inv_def v)
  let ?w = "lh_maybe_resize m v"
  have "r = Some ?w" and arg: "arg' = fold (fold (\<lambda>cur. func (fst cur))) (buckets lh) arg"
    using assms(3) unfolding lh_doall_arg_def option.case Let_def u_def [symmetric] v_def [symmetric] b by auto
  moreover have "arg' = fold func (map fst (concat (buckets lh))) arg"
    unfolding arg fold_fold_concat by (simp add: fold_map comp_def)
  moreover have "mset (map fst (concat (buckets lh))) = image_mset fst (items (buckets lh))" by (simp add: items_def)
  moreover have "length (map fst (concat (buckets lh))) = lh_num_items lh"
    using assms(1) by (simp add: lh_inv_def lh_num_items_def items_def flip: size_mset)
  moreover note W = lh_maybe_resize_inv [OF inv, of m]
  have "lh_retrieve h c ?w k = Some d \<longleftrightarrow> lh_retrieve h c lh k = Some d" for k d
    using W assms(2) by (simp add: lh_retrieve_iff lh_retrieve_iff [OF assms(1,2)] v)
  then have "lh_retrieve h c ?w k = lh_retrieve h c lh k" for k by (metis not_Some_eq)
  ultimately show ?thesis using W by blast
qed

theorem lh_doall_arg_visits_all_witness:
  "\<exists>r. lh_doall_arg calloc_small (Some small_table) (#) [9] = (r, [9])"
proof -
  obtain r xs where r: "lh_doall_arg calloc_small (Some small_table) (#) [9] = (r, xs)" by fastforce
  have "lh_inv nat_hash nat_cmp small_table"
    using lh_new_ok(1) [where h = nat_hash and c = nat_cmp, OF nat_hash_ok small_table_new] by (simp add: lh_ok_def)
  from lh_doall_arg_visits_all [OF this _ r] nat_hash_ok have "xs = [9]"
    by (auto simp: small_table_def items_empty)
  with r show ?thesis by blast
qed

end
