(* ===== verification/Buf.thy ===== *)
theory Buf
  imports Mem
begin

text \<open>The growable buffer of \<^verbatim>\<open>crypto/buf/buf.c\<close>. The data of a buffer are the \<open>bm_max\<close> bytes it
  has allocated, its contents, \<open>buf_bytes\<close>, the first \<open>bm_length\<close> of them. The error queue that
  \<^verbatim>\<open>OPENSSL_PUT_ERROR\<close> appends to is not modelled.\<close>

record BUF_MEM =
  bm_length :: nat
  bm_data :: "byte list option"
  bm_max :: nat

definition sizeof_BUF_MEM :: nat where "sizeof_BUF_MEM = 24"

definition BUF_MEM_new :: "libc_malloc \<Rightarrow> BUF_MEM option" where
  "BUF_MEM_new m =
     (case OPENSSL_malloc m sizeof_BUF_MEM of
        None \<Rightarrow> None
      | Some _ \<Rightarrow> Some \<lparr>bm_length = 0, bm_data = None, bm_max = 0\<rparr>)"

definition BUF_MEM_reserve :: "libc_malloc \<Rightarrow> BUF_MEM \<Rightarrow> nat \<Rightarrow> bool \<times> BUF_MEM" where
  "BUF_MEM_reserve m buf cap =
     (if bm_max buf \<ge> cap then (True, buf)
      else
        (let n = (cap + 3) mod 2 ^ 64
         in if n < cap then (False, buf)
            else
              (let n = n div 3;
                   alloc_size = n * 4 mod 2 ^ 64
               in if alloc_size div 4 \<noteq> n then (False, buf)
                  else (case OPENSSL_realloc m (bm_data buf) alloc_size of
                          None \<Rightarrow> (False, buf)
                        | Some new_buf \<Rightarrow> (True, buf\<lparr>bm_data := Some new_buf, bm_max := alloc_size\<rparr>)))))"

definition buf_store :: "nat \<Rightarrow> byte list \<Rightarrow> byte list \<Rightarrow> byte list" where
  "buf_store off src d = take off d @ src @ drop (off + length src) d"

definition BUF_MEM_grow :: "libc_malloc \<Rightarrow> BUF_MEM \<Rightarrow> nat \<Rightarrow> nat \<times> BUF_MEM" where
  "BUF_MEM_grow m buf len =
     (case BUF_MEM_reserve m buf len of
        (False, buf) \<Rightarrow> (0, buf)
      | (True, buf) \<Rightarrow>
          (len,
           (if bm_length buf < len then
              buf\<lparr>bm_data := map_option (buf_store (bm_length buf) (replicate (len - bm_length buf) 0)) (bm_data buf)\<rparr>
            else buf)\<lparr>bm_length := len\<rparr>))"

definition BUF_MEM_grow_clean :: "libc_malloc \<Rightarrow> BUF_MEM \<Rightarrow> nat \<Rightarrow> nat \<times> BUF_MEM" where
  "BUF_MEM_grow_clean m buf len = BUF_MEM_grow m buf len"

definition BUF_MEM_append :: "libc_malloc \<Rightarrow> BUF_MEM \<Rightarrow> byte list \<Rightarrow> bool \<times> BUF_MEM" where
  "BUF_MEM_append m buf src =
     (let len = length src
      in if len = 0 then (True, buf)
         else
           (let new_len = (bm_length buf + len) mod 2 ^ 64
            in if new_len < len then (False, buf)
               else (case BUF_MEM_reserve m buf new_len of
                       (False, buf) \<Rightarrow> (False, buf)
                     | (True, buf) \<Rightarrow>
                         (True, buf\<lparr>bm_data := map_option (buf_store (bm_length buf) src) (bm_data buf), bm_length := new_len\<rparr>))))"

definition BUF_strdup :: "libc_malloc \<Rightarrow> byte list option \<Rightarrow> byte list option" where
  "BUF_strdup m str = OPENSSL_strdup m str"

definition BUF_strnlen :: "byte list \<Rightarrow> nat \<Rightarrow> nat" where
  "BUF_strnlen str max_len = OPENSSL_strnlen str max_len"

definition BUF_strndup :: "libc_malloc \<Rightarrow> byte list option \<Rightarrow> nat \<Rightarrow> byte list option" where
  "BUF_strndup m str sz = OPENSSL_strndup m str sz"

definition BUF_strlcpy :: "byte list \<Rightarrow> byte list \<Rightarrow> nat \<Rightarrow> nat \<times> byte list" where
  "BUF_strlcpy dst src dst_size = OPENSSL_strlcpy dst src dst_size"

definition BUF_strlcat :: "byte list \<Rightarrow> byte list \<Rightarrow> nat \<Rightarrow> nat \<times> byte list" where
  "BUF_strlcat dst src dst_size = OPENSSL_strlcat dst src dst_size"

definition BUF_memdup :: "libc_malloc \<Rightarrow> byte list \<Rightarrow> nat \<Rightarrow> byte list option" where
  "BUF_memdup m data sz = OPENSSL_memdup m data sz"

subsection \<open>The contents of a buffer\<close>

definition buf_bytes :: "BUF_MEM \<Rightarrow> byte list" where
  "buf_bytes buf = take (bm_length buf) (case bm_data buf of None \<Rightarrow> [] | Some d \<Rightarrow> d)"

definition buf_inv :: "BUF_MEM \<Rightarrow> bool" where
  "buf_inv buf \<longleftrightarrow> bm_length buf \<le> bm_max buf \<and> bm_max buf < 2 ^ 63 \<and>
     length (case bm_data buf of None \<Rightarrow> [] | Some d \<Rightarrow> d) = bm_max buf"

lemma OPENSSL_malloc_size:
  assumes "malloc_ok m" "OPENSSL_malloc m n = Some b" "n + 8 < 2 ^ 64"
  shows "length b = n" "n < 2 ^ 63"
  using assms by (fastforce simp: OPENSSL_malloc_def OPENSSL_MALLOC_PREFIX_def malloc_ok_def split: option.splits)+

lemma reserve_size:
  assumes "bm_max buf < cap" "cap < 2 ^ 63"
  shows "BUF_MEM_reserve m buf cap =
    (case OPENSSL_realloc m (bm_data buf) ((cap + 3) div 3 * 4) of
       None \<Rightarrow> (False, buf)
     | Some new_buf \<Rightarrow> (True, buf\<lparr>bm_data := Some new_buf, bm_max := (cap + 3) div 3 * 4\<rparr>))"
    and "(cap + 3) div 3 * 4 + 8 < 2 ^ 64" "cap \<le> (cap + 3) div 3 * 4"
proof -
  have 1: "(cap + 3) mod 2 ^ 64 = cap + 3" using assms(2) by simp
  have d: "(cap + 3) div 3 * 3 \<le> cap + 3" "cap + 3 < (cap + 3) div 3 * 3 + 3"
    using div_times_less_eq_dividend [of "cap + 3" 3] dividend_less_div_times [of 3 "cap + 3"] by linarith+
  show 2: "(cap + 3) div 3 * 4 + 8 < 2 ^ 64"
  proof -
    have "cap < 9223372036854775808" using assms(2) by simp
    then have "(cap + 3) div 3 * 4 + 8 < 18446744073709551616" using d by linarith
    then show ?thesis by simp
  qed
  show "cap \<le> (cap + 3) div 3 * 4" using d by linarith
  have 3: "(cap + 3) div 3 * 4 mod 2 ^ 64 = (cap + 3) div 3 * 4" using 2 by (intro mod_less) linarith
  show "BUF_MEM_reserve m buf cap =
    (case OPENSSL_realloc m (bm_data buf) ((cap + 3) div 3 * 4) of
       None \<Rightarrow> (False, buf)
     | Some new_buf \<Rightarrow> (True, buf\<lparr>bm_data := Some new_buf, bm_max := (cap + 3) div 3 * 4\<rparr>))"
    using assms(1) by (simp only: BUF_MEM_reserve_def Let_def 1 3) simp
qed

lemma reserve_correct:
  assumes m: "malloc_ok m" and inv: "buf_inv buf" and cap: "cap < 2 ^ 63" and r: "BUF_MEM_reserve m buf cap = (ok, buf')"
  shows "if ok then buf_inv buf' \<and> cap \<le> bm_max buf' \<and> bm_length buf' = bm_length buf \<and> buf_bytes buf' = buf_bytes buf
    else buf' = buf"
proof (cases "cap \<le> bm_max buf")
  case True
  then show ?thesis using r inv by (auto simp: BUF_MEM_reserve_def)
next
  case False
  then have lt: "bm_max buf < cap" by simp
  let ?n = "(cap + 3) div 3 * 4"
  note S = reserve_size [OF lt cap]
  show ?thesis
  proof (cases "OPENSSL_realloc m (bm_data buf) ?n")
    case None
    then show ?thesis using r S(1) by simp
  next
    case (Some nb)
    then have e: "ok" "buf' = buf\<lparr>bm_data := Some nb, bm_max := ?n\<rparr>" using r S(1) by simp_all
    obtain b where b: "OPENSSL_malloc m ?n = Some b"
      "nb = (case bm_data buf of None \<Rightarrow> b | Some old \<Rightarrow> take (min (length old) ?n) old @ drop (min (length old) ?n) b)"
      using Some by (auto simp: OPENSSL_realloc_def Let_def min_def split: option.splits if_splits)
    note L = OPENSSL_malloc_size [OF m b(1) S(2)]
    let ?old = "case bm_data buf of None \<Rightarrow> [] | Some d \<Rightarrow> d"
    have old: "length ?old = bm_max buf" "bm_length buf \<le> bm_max buf" "bm_max buf \<le> ?n"
      using inv lt S(3) by (auto simp: buf_inv_def)
    then have nb: "nb = ?old @ drop (bm_max buf) b" using b(2) by (auto split: option.splits)
    then have "length nb = ?n" using L(1) old by simp
    moreover have "take (bm_length buf) nb = take (bm_length buf) ?old" using nb old by simp
    ultimately show ?thesis using e L(2) S(3) old by (simp add: buf_inv_def buf_bytes_def)
  qed
qed

lemma buf_data:
  assumes "buf_inv buf" "0 < bm_max buf"
  obtains d where "bm_data buf = Some d" "length d = bm_max buf"
  using assms by (cases "bm_data buf") (auto simp: buf_inv_def)

lemma store_correct:
  assumes "buf_inv buf" "0 < length src" "bm_length buf + length src \<le> bm_max buf"
  shows "buf_inv (buf\<lparr>bm_data := map_option (buf_store (bm_length buf) src) (bm_data buf), bm_length := bm_length buf + length src\<rparr>)"
    "buf_bytes (buf\<lparr>bm_data := map_option (buf_store (bm_length buf) src) (bm_data buf), bm_length := bm_length buf + length src\<rparr>) =
      buf_bytes buf @ src"
proof -
  have "0 < bm_max buf" using assms by linarith
  then obtain d where d: "bm_data buf = Some d" "length d = bm_max buf" by (rule buf_data [OF assms(1)])
  then show "buf_inv (buf\<lparr>bm_data := map_option (buf_store (bm_length buf) src) (bm_data buf), bm_length := bm_length buf + length src\<rparr>)"
    "buf_bytes (buf\<lparr>bm_data := map_option (buf_store (bm_length buf) src) (bm_data buf), bm_length := bm_length buf + length src\<rparr>) =
      buf_bytes buf @ src"
    using assms by (simp_all add: buf_inv_def buf_bytes_def buf_store_def)
qed

section \<open>Properties\<close>

lemma length_buf_bytes: "buf_inv b \<Longrightarrow> length (buf_bytes b) = bm_length b"
  by (simp add: buf_inv_def buf_bytes_def)

lemma append_correct:
  assumes m: "malloc_ok m" and inv: "buf_inv buf" and small: "length src < 2 ^ 62" "bm_length buf < 2 ^ 62"
    and a: "BUF_MEM_append m buf src = (ok, buf')"
  shows "if ok then buf_inv buf' \<and> buf_bytes buf' = buf_bytes buf @ src else buf' = buf"
proof (cases "src = []")
  case True
  then show ?thesis using a inv by (auto simp: BUF_MEM_append_def)
next
  case False
  let ?n = "bm_length buf + length src"
  have n: "?n mod 2 ^ 64 = ?n" "?n < 2 ^ 63" "\<not> ?n < length src" using small by simp_all
  obtain ok1 b1 where r: "BUF_MEM_reserve m buf ?n = (ok1, b1)" by fastforce
  note R = reserve_correct [OF m inv n(2) r]
  show ?thesis
  proof (cases ok1)
    case True
    then have "buf_inv b1" "?n \<le> bm_max b1" "bm_length b1 = bm_length buf" "buf_bytes b1 = buf_bytes buf" using R by simp_all
    moreover from this have "ok" "buf' = b1\<lparr>bm_data := map_option (buf_store (bm_length b1) src) (bm_data b1), bm_length := bm_length b1 + length src\<rparr>"
      using a r n False True unfolding BUF_MEM_append_def Let_def n(1) by auto
    ultimately show ?thesis using store_correct [of b1 src] False by simp
  next
    case f: False
    then show ?thesis using a r R n(3) False unfolding BUF_MEM_append_def Let_def n(1) by auto
  qed
qed

lemma grow_correct:
  assumes m: "malloc_ok m" and inv: "buf_inv buf" and n: "len < 2 ^ 63" and g: "BUF_MEM_grow m buf len = (n, buf')"
  shows "n = 0 \<and> buf' = buf \<or>
    n = len \<and> buf_inv buf' \<and> buf_bytes buf' = take len (buf_bytes buf) @ replicate (len - length (buf_bytes buf)) 0"
proof -
  obtain ok1 b1 where r: "BUF_MEM_reserve m buf len = (ok1, b1)" by fastforce
  note R = reserve_correct [OF m inv n r]
  show ?thesis
  proof (cases ok1)
    case True
    then have b1: "buf_inv b1" "len \<le> bm_max b1" "bm_length b1 = bm_length buf" "buf_bytes b1 = buf_bytes buf" using R by simp_all
    show ?thesis
    proof (cases "bm_length b1 < len")
      case grow: True
      let ?z = "replicate (len - bm_length b1) (0 :: byte)"
      have z: "bm_length b1 + length ?z = len" "0 < length ?z" using grow by simp_all
      have "n = len" "buf' = b1\<lparr>bm_data := map_option (buf_store (bm_length b1) ?z) (bm_data b1), bm_length := bm_length b1 + length ?z\<rparr>"
        using g r True grow by (auto simp: BUF_MEM_grow_def)
      then show ?thesis using store_correct [OF b1(1) z(2)] b1 grow length_buf_bytes [OF inv] z(1) by simp
    next
      case False
      then have "n = len" "buf' = b1\<lparr>bm_length := len\<rparr>" using g r True by (auto simp: BUF_MEM_grow_def)
      moreover have "take len (buf_bytes b1) = buf_bytes (b1\<lparr>bm_length := len\<rparr>)"
        using False by (simp add: buf_bytes_def min_def)
      ultimately show ?thesis using b1 False length_buf_bytes [OF inv] by (simp add: buf_inv_def)
    qed
  next
    case False
    then show ?thesis using g r R by (auto simp: BUF_MEM_grow_def)
  qed
qed

text \<open>C35. A buffer is the bytes put into it. \<^verbatim>\<open>BUF_MEM_append\<close> either appends exactly the bytes it is
  given or fails and changes nothing; \<^verbatim>\<open>BUF_MEM_grow\<close> sets the length, truncating or padding with
  zeros, or returns 0 and changes nothing; the bytes never exceed the allocation.\<close>

theorem buf_mem_refines_bytes:
  assumes "malloc_ok m" "buf_inv buf" "length src < 2 ^ 62" "bm_length buf < 2 ^ 62" "0 < len" "len < 2 ^ 63"
  shows "(case BUF_MEM_append m buf src of
      (True, buf') \<Rightarrow> buf_inv buf' \<and> buf_bytes buf' = buf_bytes buf @ src
    | (False, buf') \<Rightarrow> buf' = buf) \<and>
   (case BUF_MEM_grow m buf len of (n, buf') \<Rightarrow>
      n = 0 \<and> buf' = buf \<or>
      n = len \<and> buf_inv buf' \<and> buf_bytes buf' = take len (buf_bytes buf) @ replicate (len - length (buf_bytes buf)) 0)"
  using append_correct [OF assms(1-4), of "fst (BUF_MEM_append m buf src)" "snd (BUF_MEM_append m buf src)"]
    grow_correct [OF assms(1,2,6), of "fst (BUF_MEM_grow m buf len)" "snd (BUF_MEM_grow m buf len)"]
  by (cases "BUF_MEM_append m buf src"; cases "fst (BUF_MEM_append m buf src)"; cases "BUF_MEM_grow m buf len") simp_all

theorem buf_mem_refines_bytes_witness:
  "\<exists>b1 b2 b3. BUF_MEM_new calloc_small = Some b1 \<and> BUF_MEM_append calloc_small b1 [1, 2] = (True, b2) \<and>
     BUF_MEM_grow calloc_small b2 5 = (5, b3) \<and> buf_bytes b2 = [1, 2]"
proof -
  let ?b = "\<lparr>bm_length = 0, bm_data = None, bm_max = 0\<rparr>"
  have new: "BUF_MEM_new calloc_small = Some ?b"
    by (simp add: BUF_MEM_new_def OPENSSL_malloc_def OPENSSL_MALLOC_PREFIX_def calloc_small_def sizeof_BUF_MEM_def)
  obtain b2 where b2: "BUF_MEM_append calloc_small ?b [1, 2] = (True, b2)"
    by (simp add: BUF_MEM_append_def BUF_MEM_reserve_def OPENSSL_realloc_def OPENSSL_malloc_def OPENSSL_MALLOC_PREFIX_def
        calloc_small_def Let_def)
  have inv: "buf_inv ?b" by (simp add: buf_inv_def)
  from buf_mem_refines_bytes [OF calloc_small_ok inv, of "[1, 2]" 1] b2 have "buf_bytes b2 = [1, 2]"
    by (simp add: buf_bytes_def)
  moreover obtain b3 where "BUF_MEM_grow calloc_small b2 5 = (5, b3)"
    using b2 by (auto simp: BUF_MEM_append_def BUF_MEM_reserve_def OPENSSL_realloc_def OPENSSL_malloc_def OPENSSL_MALLOC_PREFIX_def
        calloc_small_def Let_def BUF_MEM_grow_def)
  ultimately show ?thesis using new b2 by blast
qed

end
