(* ===== verification/Oid.thy ===== *)
theory Oid
  imports CbbItems
begin

text \<open>OBJECT IDENTIFIERs as text: \<^verbatim>\<open>CBS_asn1_oid_to_text\<close> of \<^verbatim>\<open>cbs.c\<close>, which prints the contents of an
  OID into a builder of its own, and \<^verbatim>\<open>CBB_add_asn1_oid_from_text\<close> of \<^verbatim>\<open>cbb.c\<close>, which parses dotted
  decimals and appends the contents; and \<^verbatim>\<open>CBB_finish_i2d\<close> of \<^verbatim>\<open>asn1_compat.c\<close>. \<open>decimal_digits\<close> is the
  conversion \<^verbatim>\<open>%PRIu64\<close> of the C library's \<^verbatim>\<open>snprintf\<close>.\<close>

fun decimal_digits :: "nat \<Rightarrow> byte list" where
  "decimal_digits v =
     (if v < 10 then [word_of_nat (48 + v)]
      else decimal_digits (v div 10) @ [word_of_nat (48 + v mod 10)])"

declare decimal_digits.simps [simp del]

definition DECIMAL_SIZE :: "nat \<Rightarrow> nat" where
  "DECIMAL_SIZE sizeof_type = (sizeof_type * 8 + 2) div 3 + 1"

definition add_decimal :: "libc_malloc \<Rightarrow> nat \<Rightarrow> u64 \<Rightarrow> cbb \<Rightarrow> bool \<times> cbb" where
  "add_decimal m d v cbb = CBB_add_bytes m d (take (DECIMAL_SIZE 8) (decimal_digits (unat v))) cbb"

function oid_text_loop :: "libc_malloc \<Rightarrow> cbs \<Rightarrow> cbb \<Rightarrow> bool \<times> cbb" where
  "oid_text_loop m copy cbb =
     (if copy = [] then (True, cbb)
      else (case parse_base128_integer copy of
              (None, copy) \<Rightarrow> (False, cbb)
            | (Some v, copy) \<Rightarrow>
                and_then (CBB_add_u8 m 0 0x2e cbb) (\<lambda>cbb.
                  and_then (add_decimal m 0 v cbb) (oid_text_loop m copy))))"
  by pat_completeness auto

lemma base128_bytes_nonempty [simp]: "base128_bytes v \<noteq> []"
  by (simp add: base128_bytes_def)

lemma parse_base128_shorter: "parse_base128_integer c = (Some v, c') \<Longrightarrow> length c' < length c"
  by (drule base128_canonical) simp

termination oid_text_loop
  by (relation "measure (\<lambda>(m, copy, cbb). length copy)") (auto dest: parse_base128_shorter [OF sym])

declare oid_text_loop.simps [simp del]

definition oid_text_body :: "libc_malloc \<Rightarrow> u64 \<Rightarrow> cbs \<Rightarrow> cbb \<Rightarrow> bool \<times> cbb" where
  "oid_text_body m v copy cbb =
     and_then
       (if v \<ge> 80 then
          and_then (CBB_add_bytes m 0 [0x32, 0x2e] cbb) (add_decimal m 0 (v - 80))
        else
          and_then (add_decimal m 0 (v div 40) cbb) (\<lambda>cbb.
            and_then (CBB_add_u8 m 0 0x2e cbb) (add_decimal m 0 (v mod 40)))) (\<lambda>cbb.
     and_then (oid_text_loop m copy cbb) (CBB_add_u8 m 0 0))"

definition CBS_asn1_oid_to_text :: "libc_malloc \<Rightarrow> cbs \<Rightarrow> byte list option" where
  "CBS_asn1_oid_to_text m cbs =
     (case CBB_init m 32 of
        (False, cbb) \<Rightarrow> None
      | (True, cbb) \<Rightarrow>
         (case parse_base128_integer cbs of
            (None, copy) \<Rightarrow> None
          | (Some v, copy) \<Rightarrow>
             (case oid_text_body m v copy cbb of
                (False, cbb) \<Rightarrow> None
              | (True, cbb) \<Rightarrow>
                 (case CBB_finish m 0 True True cbb of
                    (Some (Some txt, Some txt_len), cbb) \<Rightarrow> Some txt
                  | (_, cbb) \<Rightarrow> None))))"

fun dotted_decimal_loop :: "u64 \<Rightarrow> bool \<Rightarrow> cbs \<Rightarrow> u64 option \<times> cbs" where
  "dotted_decimal_loop out seen_digit [] = (if seen_digit then Some out else None, [])"
| "dotted_decimal_loop out seen_digit (u # cbs) =
     (if u = 0x2e \<and> length cbs > 0 then (if seen_digit then Some out else None, cbs)
      else if u < 0x30 \<or> u > 0x39 \<or> (seen_digit \<and> out = 0) \<or> out > 0xffffffffffffffff div 10 \<or>
        out * 10 > 0xffffffffffffffff - (ucast u - 0x30) then (None, cbs)
      else dotted_decimal_loop (out * 10 + (ucast u - 0x30)) True cbs)"

definition parse_dotted_decimal :: "cbs \<Rightarrow> u64 option \<times> cbs" where
  "parse_dotted_decimal cbs = dotted_decimal_loop 0 False cbs"

lemma dotted_decimal_loop_shorter: "dotted_decimal_loop v s c = (Some w, c') \<Longrightarrow> c \<noteq> [] \<Longrightarrow> length c' < length c"
proof (induction v s c rule: dotted_decimal_loop.induct)
  case (2 v s u c)
  then show ?case by (cases "c = []") (auto split: if_splits)
qed simp

function oid_components_loop :: "libc_malloc \<Rightarrow> nat \<Rightarrow> cbs \<Rightarrow> cbb \<Rightarrow> bool \<times> cbb" where
  "oid_components_loop m d cbs cbb =
     (if cbs = [] then (True, cbb)
      else (case parse_dotted_decimal cbs of
              (None, cbs) \<Rightarrow> (False, cbb)
            | (Some a, cbs) \<Rightarrow>
                and_then (add_base128_integer m d a cbb) (oid_components_loop m d cbs)))"
  by pat_completeness auto
termination
  by (relation "measure (\<lambda>(m, d, cbs, cbb). length cbs)")
     (auto simp: parse_dotted_decimal_def dest!: dotted_decimal_loop_shorter [OF sym])

declare oid_components_loop.simps [simp del]

definition CBB_add_asn1_oid_from_text :: "libc_malloc \<Rightarrow> nat \<Rightarrow> byte list \<Rightarrow> cbb \<Rightarrow> bool \<times> cbb" where
  "CBB_add_asn1_oid_from_text m d text cbb =
     and_then (CBB_flush m d cbb) (\<lambda>cbb.
       case parse_dotted_decimal text of
         (None, cbs) \<Rightarrow> (False, cbb)
       | (Some a, cbs) \<Rightarrow>
          (case parse_dotted_decimal cbs of
             (None, cbs) \<Rightarrow> (False, cbb)
           | (Some b, cbs) \<Rightarrow>
               if a > 2 \<or> (a < 2 \<and> b > 39) \<or> b > 0xffffffffffffffff - 80 then (False, cbb)
               else and_then (add_base128_integer m d (40 * a + b) cbb) (oid_components_loop m d cbs)))"

datatype i2d_out = Out_null | Out_unset | Out_set "byte list" nat

definition CBB_finish_i2d :: "libc_malloc \<Rightarrow> nat \<Rightarrow> cbb \<Rightarrow> i2d_out \<Rightarrow> int \<times> i2d_out \<times> cbb" where
  "CBB_finish_i2d m d cbb outp =
     (case CBB_finish m d True True cbb of
        (Some (Some der, Some der_len), cbb) \<Rightarrow>
          if der_len > 2 ^ 31 - 1 then (-1, outp, cbb)
          else (int der_len,
            (case outp of
               Out_null \<Rightarrow> Out_null
             | Out_unset \<Rightarrow> Out_set der 0
             | Out_set ob p \<Rightarrow> Out_set (memcpy_at p (take der_len der) ob) (p + der_len)), cbb)
      | (_, cbb) \<Rightarrow> (-1, outp, CBB_cleanup d cbb))"

subsection \<open>Decimal components\<close>

definition is_digit :: "byte \<Rightarrow> bool" where
  "is_digit u \<longleftrightarrow> 48 \<le> unat u \<and> unat u \<le> 57"

lemma dotted_decimal_loop_Cons:
  "dotted_decimal_loop out s (u # c) =
     (if u = 0x2e \<and> c \<noteq> [] then (if s then Some out else None, c)
      else if \<not> is_digit u \<or> (s \<and> out = 0) \<or> 2 ^ 64 \<le> unat out * 10 + (unat u - 48) then (None, c)
      else dotted_decimal_loop (word_of_nat (unat out * 10 + (unat u - 48))) True c)"
proof (cases "is_digit u")
  case False
  then have "u < 0x30 \<or> u > 0x39" by (auto simp: is_digit_def word_less_nat_alt)
  with False show ?thesis by (simp only: dotted_decimal_loop.simps(2)) auto
next
  case True
  then have dig: "\<not> u < 0x30" "\<not> u > 0x39" "48 \<le> unat u" "unat u \<le> 57"
    by (auto simp: is_digit_def word_less_nat_alt)
  have dot: "u \<noteq> 0x2e" using dig(3) by auto
  have sub: "unat (ucast u - 0x30 :: u64) = unat u - 48"
    using dig(3) unat_sub [of "0x30 :: u64" "ucast u"] by (simp add: word_le_nat_alt)
  have max: "unat (0xffffffffffffffff div 10 :: u64) = 1844674407370955161"
    by (simp add: unat_div)
  have max2: "unat (0xffffffffffffffff - (ucast u - 0x30) :: u64) = 18446744073709551615 - (unat u - 48)"
  proof -
    have "(ucast u - 0x30 :: u64) \<le> 0xffffffffffffffff" unfolding word_le_nat_alt sub using dig(4) by simp
    then show ?thesis using unat_sub [of "ucast u - 0x30 :: u64" "0xffffffffffffffff"] by (simp add: sub)
  qed
  have ten: "unat (out * 10) = unat out * 10" if "unat out \<le> 1844674407370955161"
    using that by (simp add: unat_word_ariths)
  have ovf: "out > 0xffffffffffffffff div 10 \<or> out * 10 > 0xffffffffffffffff - (ucast u - 0x30) \<longleftrightarrow>
      2 ^ 64 \<le> unat out * 10 + (unat u - 48)"
  proof (cases "unat out \<le> 1844674407370955161")
    case True
    then show ?thesis unfolding word_less_nat_alt max max2 ten [OF True] using dig(4) by auto
  next
    case False
    then show ?thesis unfolding word_less_nat_alt max by simp
  qed
  have sum: "out * 10 + (ucast u - 0x30) = word_of_nat (unat out * 10 + (unat u - 48))"
    by (simp add: sub [symmetric])
  show ?thesis
    unfolding dotted_decimal_loop.simps(2) ovf [symmetric] sum using True dig dot by simp
qed

declare dotted_decimal_loop.simps(2) [simp del]

lemma decimal_digits_small: "v < 10 \<Longrightarrow> decimal_digits v = [word_of_nat (48 + v)]"
  by (simp add: decimal_digits.simps)

lemma decimal_digits_snoc:
  "v \<noteq> 0 \<Longrightarrow> d < 10 \<Longrightarrow> decimal_digits (v * 10 + d) = decimal_digits v @ [word_of_nat (48 + d)]"
  by (subst decimal_digits.simps) simp

lemma decimal_digits_nonempty [simp]: "decimal_digits v \<noteq> []"
  by (subst decimal_digits.simps) simp

lemma decimal_digits_digit: "u \<in> set (decimal_digits v) \<Longrightarrow> is_digit u"
proof (induction v rule: decimal_digits.induct)
  case (1 v)
  have d: "is_digit (word_of_nat (48 + k))" if "k < 10" for k using that by (simp add: is_digit_def del: of_nat_add)
  show ?case
    using 1 d [of v] d [of "v mod 10"] by (cases "v < 10") (auto simp: decimal_digits.simps [of v] simp del: of_nat_add)
qed

lemma length_decimal_digits: "v < 10 ^ Suc k \<Longrightarrow> length (decimal_digits v) \<le> Suc k"
proof (induction k arbitrary: v)
  case (Suc k)
  show ?case
  proof (cases "v < 10")
    case False
    have "v div 10 < 10 ^ Suc k" using Suc.prems by (simp add: less_mult_imp_div_less mult.commute)
    with Suc.IH show ?thesis using False by (subst decimal_digits.simps) simp
  qed (simp add: decimal_digits_small)
qed (simp add: decimal_digits_small)

lemma length_decimal_u64: "length (decimal_digits (unat (v :: u64))) \<le> 20"
proof -
  have "unat v < 10 ^ Suc 19" by (rule less_trans [OF unat_u64_less]) simp
  then have "length (decimal_digits (unat v)) \<le> Suc 19" by (rule length_decimal_digits)
  then show ?thesis by simp
qed

lemma add_decimal_eq: "add_decimal m d v = CBB_add_bytes m d (decimal_digits (unat v))"
  using length_decimal_u64 [of v] by (simp add: add_decimal_def [abs_def] DECIMAL_SIZE_def)

lemma dotted_decimal_digits:
  "v < 2 ^ 64 \<Longrightarrow> dotted_decimal_loop 0 False (decimal_digits v @ t) = dotted_decimal_loop (word_of_nat v) True t"
proof (induction v arbitrary: t rule: decimal_digits.induct)
  case (1 v)
  have digit: "is_digit (word_of_nat (48 + k))" "unat (word_of_nat (48 + k) :: byte) = 48 + k" if "k < 10" for k
    using that by (simp_all add: is_digit_def del: of_nat_add)
  have dot: "word_of_nat (48 + k) \<noteq> (0x2e :: byte)" if "k < 10" for k
  proof
    assume "word_of_nat (48 + k) = (0x2e :: byte)"
    then have "unat (word_of_nat (48 + k) :: byte) = unat (0x2e :: byte)" by (rule arg_cong)
    then show False unfolding digit(2) [OF that] by simp
  qed
  show ?case
  proof (cases "v < 10")
    case True
    then show ?thesis
      using digit [OF True] dot [OF True] by (simp add: decimal_digits_small dotted_decimal_loop_Cons del: of_nat_add)
  next
    case False
    let ?u = "word_of_nat (48 + v mod 10) :: byte"
    have small: "v div 10 < 2 ^ 64" using 1(2) by simp
    have nz: "word_of_nat (v div 10) \<noteq> (0 :: u64)"
    proof
      assume "word_of_nat (v div 10) = (0 :: u64)"
      then have "unat (word_of_nat (v div 10) :: u64) = 0" by simp
      then show False using unat_word64_small [OF small] False by simp
    qed
    have "dotted_decimal_loop 0 False (decimal_digits v @ t) = dotted_decimal_loop (word_of_nat (v div 10)) True (?u # t)"
      using False 1(1) [OF False small] by (subst decimal_digits.simps) simp
    also have "\<dots> = dotted_decimal_loop (word_of_nat v) True t"
      using 1(2) digit [of "v mod 10"] dot [of "v mod 10"] nz
      by (simp add: dotted_decimal_loop_Cons unat_word64_small [OF small] del: of_nat_add)
    finally show ?thesis .
  qed
qed

lemma dotted_decimal_canonical:
  "dotted_decimal_loop out s c = (Some w, c') \<Longrightarrow> (\<not> s \<longrightarrow> out = 0) \<Longrightarrow>
   (if s then decimal_digits (unat out) else []) @ c = decimal_digits (unat w) @ (if c' = [] then [] else 0x2e # c')"
proof (induction c arbitrary: out s)
  case (Cons u c)
  show ?case
  proof (cases "u = 0x2e \<and> c \<noteq> []")
    case True
    then show ?thesis using Cons.prems by (auto simp: dotted_decimal_loop_Cons split: if_splits)
  next
    case False
    let ?n = "unat out * 10 + (unat u - 48)"
    from Cons.prems(1) False have dig: "is_digit u" and nz: "s \<longrightarrow> unat out \<noteq> 0" and lt: "?n < 2 ^ 64"
      and rest: "dotted_decimal_loop (word_of_nat ?n) True c = (Some w, c')"
      by (auto simp: dotted_decimal_loop_Cons unat_0_iff split: if_splits)
    from Cons.IH [OF rest]
    have "decimal_digits ?n @ c = decimal_digits (unat w) @ (if c' = [] then [] else 0x2e # c')"
      by (simp only: unat_word64_small [OF lt]) simp
    moreover have "decimal_digits ?n = (if s then decimal_digits (unat out) else []) @ [u]"
    proof -
      have "48 + (unat u - 48) = unat u" using dig by (simp add: is_digit_def)
      then have "word_of_nat (48 + (unat u - 48)) = u" by (simp only: word_of_nat_unat)
      moreover have "unat u - 48 < 10" using dig unfolding is_digit_def by linarith
      ultimately show ?thesis using nz Cons.prems(2) decimal_digits_snoc [of "unat out" "unat u - 48"]
        by (cases s) (simp_all add: decimal_digits_small del: of_nat_add)
    qed
    ultimately show ?thesis by simp
  qed
qed (auto split: if_splits)

lemma parse_dotted_decimal_iff:
  "parse_dotted_decimal c = (Some w, c') \<longleftrightarrow> c = decimal_digits (unat w) @ (if c' = [] then [] else 0x2e # c')"
proof
  assume "parse_dotted_decimal c = (Some w, c')"
  from dotted_decimal_canonical [OF this [unfolded parse_dotted_decimal_def]]
  show "c = decimal_digits (unat w) @ (if c' = [] then [] else 0x2e # c')" by simp
next
  assume "c = decimal_digits (unat w) @ (if c' = [] then [] else 0x2e # c')"
  then show "parse_dotted_decimal c = (Some w, c')"
    using dotted_decimal_digits [of "unat w" "if c' = [] then [] else 0x2e # c'"] unat_u64_less [of w]
    by (simp add: parse_dotted_decimal_def dotted_decimal_loop_Cons)
qed

subsection \<open>The text and the contents of an OID\<close>

fun oid_ok :: "nat list \<Rightarrow> bool" where
  "oid_ok (a # b # rest) \<longleftrightarrow> a \<le> 2 \<and> (a < 2 \<longrightarrow> b < 40) \<and> 40 * a + b < 2 ^ 64 \<and> (\<forall>v \<in> set rest. v < 2 ^ 64)"
| "oid_ok _ \<longleftrightarrow> False"

definition dotted :: "nat list \<Rightarrow> byte list" where
  "dotted vs = concat (map (\<lambda>v. 0x2e # decimal_digits v) vs)"

fun oid_text :: "nat list \<Rightarrow> byte list" where
  "oid_text (a # rest) = decimal_digits a @ dotted rest"
| "oid_text [] = []"

fun oid_contents :: "nat list \<Rightarrow> byte list" where
  "oid_contents (a # b # rest) = base128_bytes (40 * a + b) @ concat (map base128_bytes rest)"
| "oid_contents _ = []"

abbreviation unats :: "u64 list \<Rightarrow> nat list" where "unats \<equiv> map unat"

lemma dotted_simps [simp]: "dotted [] = []" "dotted (v # vs) = 0x2e # decimal_digits v @ dotted vs"
  by (simp_all add: dotted_def)

lemma u64_list: "(\<forall>v \<in> set vs. v < 2 ^ 64) \<Longrightarrow> \<exists>ws :: u64 list. vs = unats ws"
proof (induction vs)
  case (Cons v vs)
  then obtain ws :: "u64 list" where "vs = unats ws" by auto
  moreover have "v = unat (word_of_nat v :: u64)" using Cons.prems unat_word64_small by simp
  ultimately have "v # vs = unats ((word_of_nat v :: u64) # ws)" by simp
  then show ?case by (rule exI)
qed simp

lemma oid_text_loop_sound:
  "oid_text_loop m c st = (True, st') \<Longrightarrow> \<exists>vs. c = concat (map base128_bytes (unats vs))"
proof (induction m c st rule: oid_text_loop.induct)
  case (1 m c st)
  show ?case
  proof (cases "c = []")
    case False
    then obtain v c' where v: "parse_base128_integer c = (Some v, c')"
      using 1(2) by (cases "parse_base128_integer c"; cases "fst (parse_base128_integer c)") (auto simp: oid_text_loop.simps)
    with False 1(2) obtain st1 st2 where st: "add_decimal m 0 v st1 = (True, st2)" "oid_text_loop m c' st2 = (True, st')"
      by (auto simp: oid_text_loop.simps [of m c] and_then_def split: prod.splits if_splits)
    from 1(1) [OF False v [symmetric] refl st(2)]
    obtain vs where "c' = concat (map base128_bytes (unats vs))" by blast
    then have "c = concat (map base128_bytes (unats (v # vs)))" using base128_canonical [OF v] by simp
    then show ?thesis by blast
  qed (auto intro: exI [of _ "[]"])
qed

lemma appends_add_decimal: "malloc_ok m \<Longrightarrow> appends m d (add_decimal m d v) (decimal_digits (unat v))"
  unfolding add_decimal_eq by (rule appends_add_bytes) (use length_decimal_u64 [of v] in simp_all)

lemma appends_oid_text_loop:
  assumes "malloc_ok m"
  shows "appends m 0 (oid_text_loop m (concat (map base128_bytes (unats vs)))) (dotted (unats vs))"
proof (induction vs)
  case Nil
  then show ?case using appends_skip [of m 0] by (simp add: oid_text_loop.simps)
next
  case (Cons v vs)
  let ?c = "concat (map base128_bytes (unats vs))"
  have "oid_text_loop m (base128_bytes (unat v) @ ?c) =
     (\<lambda>st. and_then (CBB_add_u8 m 0 0x2e st) (\<lambda>st. and_then (add_decimal m 0 v st) (oid_text_loop m ?c)))"
    by (rule ext, subst oid_text_loop.simps) (simp add: base128_roundtrip)
  moreover have "appends m 0 \<dots> ([0x2e] @ decimal_digits (unat v) @ dotted (unats vs))"
    by (intro appends_seq appends_add_u8 appends_add_decimal assms Cons)
  ultimately show ?case by simp
qed

lemma oid_components_loop_sound:
  "oid_components_loop m d c st = (True, st') \<Longrightarrow> c \<noteq> [] \<Longrightarrow> \<exists>v vs. 0x2e # c = dotted (unats (v # vs))"
proof (induction m d c st rule: oid_components_loop.induct)
  case (1 m d c st)
  from 1(2,3) obtain v c' where v: "parse_dotted_decimal c = (Some v, c')"
    by (cases "parse_dotted_decimal c"; cases "fst (parse_dotted_decimal c)") (auto simp: oid_components_loop.simps)
  with 1(2,3) obtain st1 where st: "oid_components_loop m d c' st1 = (True, st')"
    by (auto simp: oid_components_loop.simps [of m d c] and_then_def split: prod.splits if_splits)
  show ?case
  proof (cases "c' = []")
    case True
    then have "0x2e # c = dotted (unats [v])" using v by (simp add: parse_dotted_decimal_iff)
    then show ?thesis by blast
  next
    case False
    from 1(1) [OF 1(3) v [symmetric] refl st False] obtain w ws where "0x2e # c' = dotted (unats (w # ws))" by blast
    then have "0x2e # c = dotted (unats (v # w # ws))" using v False by (simp add: parse_dotted_decimal_iff)
    then show ?thesis by blast
  qed
qed

lemma appends_oid_components_loop:
  assumes "malloc_ok m"
  shows "appends m d (oid_components_loop m d (drop 1 (dotted (unats vs)))) (concat (map base128_bytes (unats vs)))"
proof (induction vs)
  case Nil
  then show ?case using appends_skip [of m d] by (simp add: oid_components_loop.simps)
next
  case (Cons v vs)
  have p: "parse_dotted_decimal (decimal_digits (unat v) @ dotted (unats vs)) = (Some v, drop 1 (dotted (unats vs)))"
    by (cases vs) (simp_all add: parse_dotted_decimal_iff)
  have "oid_components_loop m d (drop 1 (dotted (unats (v # vs)))) =
     (\<lambda>st. and_then (add_base128_integer m d v st) (oid_components_loop m d (drop 1 (dotted (unats vs)))))"
    by (rule ext, subst oid_components_loop.simps) (simp add: p [unfolded One_nat_def])
  moreover have "appends m d \<dots> (base128_bytes (unat v) @ concat (map base128_bytes (unats vs)))"
    by (intro appends_seq appends_base128 assms Cons)
  ultimately show ?case by simp
qed

definition oid_first :: "nat \<Rightarrow> nat list" where
  "oid_first v = (if v \<ge> 80 then [2, v - 80] else [v div 40, v mod 40])"

lemma oid_first_ok: "oid_ok (oid_first (unat (v :: u64)) @ unats ws)"
    "oid_contents (oid_first (unat v) @ unats ws) = base128_bytes (unat v) @ concat (map base128_bytes (unats ws))"
proof -
  have "unat v div 40 * 40 + unat v mod 40 = unat v" by simp
  then have "40 * (unat v div 40) + unat v mod 40 = unat v" by (simp only: mult.commute)
  moreover have "unat v div 40 \<le> 1" if "unat v < 80" using less_mult_imp_div_less [of "unat v" 2 40] that by simp
  ultimately show "oid_ok (oid_first (unat v) @ unats ws)"
    "oid_contents (oid_first (unat v) @ unats ws) = base128_bytes (unat v) @ concat (map base128_bytes (unats ws))"
    by (auto simp: oid_first_def)
qed

lemma oid_ok_first:
  assumes "oid_ok vs"
  obtains v :: u64 and ws where "vs = oid_first (unat v) @ unats ws"
proof -
  from assms obtain a b rest where vs: "vs = a # b # rest" by (cases vs rule: oid_ok.cases) auto
  from assms vs u64_list [of rest] obtain ws :: "u64 list" where ws: "rest = unats ws" by auto
  have "unat (word_of_nat (40 * a + b) :: u64) = 40 * a + b" using assms vs by (intro unat_word64_small) simp
  moreover have "a = 0 \<or> a = 1 \<or> a = 2" using assms vs by auto
  ultimately have "vs = oid_first (unat (word_of_nat (40 * a + b) :: u64)) @ unats ws"
    using assms vs ws by (auto simp: oid_first_def simp del: of_nat_add)
  with that show thesis by blast
qed

lemma oid_text_first: "oid_text (oid_first v @ vs) =
    (if v \<ge> 80 then [0x32, 0x2e] @ decimal_digits (v - 80)
     else decimal_digits (v div 40) @ [0x2e] @ decimal_digits (v mod 40)) @ dotted vs"
  by (simp add: oid_first_def decimal_digits_small)

lemma unat_word64_ops:
  "unat (v div 40) = unat (v :: u64) div 40" "unat (v mod 40) = unat v mod 40"
  "v \<ge> 80 \<longleftrightarrow> unat v \<ge> 80" "v \<ge> 80 \<Longrightarrow> unat (v - 80) = unat v - 80"
  using unat_sub [of 80 v] by (simp_all add: unat_div unat_mod word_le_nat_alt)

lemma appends_oid_text_body:
  assumes "malloc_ok m"
  shows "appends m 0 (oid_text_body m v (concat (map base128_bytes (unats ws))))
    (oid_text (oid_first (unat v) @ unats ws) @ [0])"
proof -
  have "appends m 0 (\<lambda>st. if v \<ge> 80 then and_then (CBB_add_bytes m 0 [0x32, 0x2e] st) (add_decimal m 0 (v - 80))
      else and_then (add_decimal m 0 (v div 40) st) (\<lambda>st. and_then (CBB_add_u8 m 0 0x2e st) (add_decimal m 0 (v mod 40))))
    (if unat v \<ge> 80 then [0x32, 0x2e] @ decimal_digits (unat v - 80)
     else decimal_digits (unat v div 40) @ [0x2e] @ decimal_digits (unat v mod 40))"
  proof (cases "v \<ge> 80")
    case True
    have "appends m 0 (\<lambda>st. and_then (CBB_add_bytes m 0 [0x32, 0x2e] st) (add_decimal m 0 (v - 80)))
        ([0x32, 0x2e] @ decimal_digits (unat (v - 80)))"
      by (intro appends_seq appends_add_bytes appends_add_decimal assms) simp
    then show ?thesis using True unat_word64_ops(3,4) [of v] by simp
  next
    case False
    have "appends m 0 (\<lambda>st. and_then (add_decimal m 0 (v div 40) st) (\<lambda>st. and_then (CBB_add_u8 m 0 0x2e st) (add_decimal m 0 (v mod 40))))
        (decimal_digits (unat (v div 40)) @ [0x2e] @ decimal_digits (unat (v mod 40)))"
      by (intro appends_seq appends_add_u8 appends_add_decimal assms)
    then show ?thesis using False unat_word64_ops(1-3) [of v] by simp
  qed
  then have "appends m 0 (\<lambda>st. and_then (if v \<ge> 80 then and_then (CBB_add_bytes m 0 [0x32, 0x2e] st) (add_decimal m 0 (v - 80))
      else and_then (add_decimal m 0 (v div 40) st) (\<lambda>st. and_then (CBB_add_u8 m 0 0x2e st) (add_decimal m 0 (v mod 40))))
      (\<lambda>st. and_then (oid_text_loop m (concat (map base128_bytes (unats ws))) st) (CBB_add_u8 m 0 0)))
    ((if unat v \<ge> 80 then [0x32, 0x2e] @ decimal_digits (unat v - 80)
     else decimal_digits (unat v div 40) @ [0x2e] @ decimal_digits (unat v mod 40)) @ dotted (unats ws) @ [0])"
    by (intro appends_seq appends_add_u8 appends_oid_text_loop assms)
  then show ?thesis unfolding oid_text_body_def [abs_def] oid_text_first by simp
qed

lemma oid_text_nonzero: "0 \<notin> set (oid_text vs)"
proof -
  have "0 \<notin> set (decimal_digits v)" for v using decimal_digits_digit [of 0 v] by (auto simp: is_digit_def)
  then show ?thesis by (cases vs) (auto simp: dotted_def)
qed

lemma takeWhile_text: "take (length t + 1) d = t @ [0 :: byte] \<Longrightarrow> 0 \<notin> set t \<Longrightarrow> takeWhile (\<lambda>b. b \<noteq> 0) d = t"
proof -
  assume a: "take (length t + 1) d = t @ [0]" "0 \<notin> set t"
  have "d = t @ 0 # drop (length t + 1) d" using append_take_drop_id [of "length t + 1" d] unfolding a(1) by simp
  then show ?thesis using a(2) by (metis (mono_tags, lifting) takeWhile_tail takeWhile_append2 append_Nil2 takeWhile.simps(2))
qed

lemma base128_bytes_pos: "1 \<le> length (base128_bytes v)"
  by (simp add: base128_bytes_def)

lemma length_dotted: "length (dotted (unats ws)) \<le> 21 * length (concat (map base128_bytes (unats ws)))"
proof (induction ws)
  case (Cons w ws)
  have "length (dotted (unats (w # ws))) = 1 + length (decimal_digits (unat w)) + length (dotted (unats ws))"
    "length (concat (map base128_bytes (unats (w # ws)))) =
      length (base128_bytes (unat w)) + length (concat (map base128_bytes (unats ws)))" by simp_all
  then show ?case using Cons.IH length_decimal_u64 [of w] base128_bytes_pos [of "unat w"] by linarith
qed simp

lemma length_oid_text:
  assumes "oid_ok vs"
  shows "length (oid_text vs) \<le> 21 * length (oid_contents vs) + 1"
proof -
  obtain v :: u64 and ws where vs: "vs = oid_first (unat v) @ unats ws" by (rule oid_ok_first [OF assms])
  have n: "length (decimal_digits (unat v div 40)) \<le> 1" if "unat v < 80"
    using less_mult_imp_div_less [of "unat v" 2 40] that by (subst decimal_digits_small) simp_all
  have "length (if unat v \<ge> 80 then [0x32, 0x2e] @ decimal_digits (unat v - 80)
     else decimal_digits (unat v div 40) @ [0x2e] @ decimal_digits (unat v mod 40)) \<le> 22"
    using length_decimal_u64 [of "v - 80"] length_decimal_u64 [of "v mod 40"] unat_word64_ops(2-4) [of v] n by auto
  moreover have "x \<le> 22 \<Longrightarrow> y \<le> 21 * z \<Longrightarrow> 1 \<le> k \<Longrightarrow> x + y \<le> 21 * (k + z) + 1" for x y z k :: nat by (cases k) auto
  ultimately show ?thesis using length_dotted [of ws] base128_bytes_pos [of "unat v"]
    unfolding vs oid_first_ok oid_text_first length_append by blast
qed

lemma oid_to_text_emit:
  assumes m: "malloc_ok m" and r: "CBS_asn1_oid_to_text m c = Some r"
  shows "\<exists>vs. oid_ok vs \<and> c = oid_contents vs \<and> takeWhile (\<lambda>b. b \<noteq> 0) r = oid_text vs"
proof -
  from r obtain st where st: "CBB_init m 32 = (True, st)"
    unfolding CBS_asn1_oid_to_text_def by (auto split: prod.splits bool.splits)
  with r obtain v c' where v: "parse_base128_integer c = (Some v, c')"
    unfolding CBS_asn1_oid_to_text_def by (auto split: prod.splits bool.splits option.splits)
  with r st obtain st1 n st2 where b: "oid_text_body m v c' st = (True, st1)"
    and f: "CBB_finish m 0 True True st1 = (Some (Some r, Some n), st2)"
    unfolding CBS_asn1_oid_to_text_def by (auto split: prod.splits bool.splits option.splits)
  from b obtain st3 st4 where "oid_text_loop m c' st3 = (True, st4)"
    by (auto simp: oid_text_body_def and_then_def split: prod.splits if_splits)
  from oid_text_loop_sound [OF this] obtain ws :: "u64 list" where ws: "c' = concat (map base128_bytes (unats ws))" by blast
  let ?vs = "oid_first (unat v) @ unats ws"
  have "n = length (oid_text ?vs @ [0]) \<and> take n r = oid_text ?vs @ [0]"
    by (rule appends_run(1) [OF m appends_oid_text_body [OF m] represents_init [OF m st] b [unfolded ws] f]) simp
  then have "takeWhile (\<lambda>b. b \<noteq> 0) r = oid_text ?vs" by (intro takeWhile_text oid_text_nonzero) auto
  moreover have "c = oid_contents ?vs" using base128_canonical [OF v] ws oid_first_ok(2) by simp
  ultimately show ?thesis using oid_first_ok(1) by blast
qed

lemma oid_to_text_total:
  assumes m: "malloc_ok m" and c: "length (oid_contents vs) < 2 ^ 50"
    and mem: "\<forall>k \<le> 42 * length (oid_contents vs) + 80. m k \<noteq> None" and vs: "oid_ok vs"
  shows "\<exists>r. CBS_asn1_oid_to_text m (oid_contents vs) = Some r \<and> takeWhile (\<lambda>b. b \<noteq> 0) r = oid_text vs"
proof -
  obtain v :: u64 and ws where v: "vs = oid_first (unat v) @ unats ws" by (rule oid_ok_first [OF vs])
  let ?T = "length (oid_text vs @ [0])"
  have T: "?T \<le> 21 * length (oid_contents vs) + 2" using length_oid_text [OF vs] by simp
  have "\<forall>k \<le> 32 + 40. m k \<noteq> None" using mem by auto
  from CBB_init_success [OF this] obtain st where st: "CBB_init m 32 = (True, st)" by auto
  have "2 * ?T + 8 \<le> 42 * length (oid_contents vs) + 80" using T by linarith
  with mem have mem': "\<forall>k \<le> 2 * ?T + 8. m k \<noteq> None" using le_trans by blast
  have "length (oid_contents vs) < 1125899906842624" using c by simp
  then have "?T < 4611686018427387904" using T by linarith
  then have lt: "?T < 2 ^ 62" by simp
  have rep: "represents st ([], [])" by (rule represents_init [OF m st]) simp
  from appends_run(2) [OF m appends_oid_text_body [OF m] rep, of v ws] avail_init [OF st lt mem'] v
  obtain st1 data st2 where b: "oid_text_body m v (concat (map base128_bytes (unats ws))) st = (True, st1)"
    and f: "CBB_finish m 0 True True st1 = (Some (Some data, Some ?T), st2)"
    "take ?T data = oid_text vs @ [0]" by auto
  have "parse_base128_integer (oid_contents vs) = (Some v, concat (map base128_bytes (unats ws)))"
    unfolding v oid_first_ok(2) by (rule base128_roundtrip)
  with st b f(1) have "CBS_asn1_oid_to_text m (oid_contents vs) = Some data"
    unfolding CBS_asn1_oid_to_text_def by simp
  moreover have "takeWhile (\<lambda>b. b \<noteq> 0) data = oid_text vs"
    by (rule takeWhile_text [OF _ oid_text_nonzero]) (use f(2) in simp)
  ultimately show ?thesis by blast
qed

lemma dotted_Cons_drop: "drop 1 (dotted (v # vs)) = decimal_digits v @ dotted vs" by simp

lemma parse_dotted: "parse_dotted_decimal (decimal_digits (unat (v :: u64)) @ dotted (unats vs)) = (Some v, drop 1 (dotted (unats vs)))"
  by (cases vs) (simp_all add: parse_dotted_decimal_iff)

lemma from_text_appends:
  assumes m: "malloc_ok m" and vs: "oid_ok vs"
  shows "appends m d (CBB_add_asn1_oid_from_text m d (oid_text vs)) (oid_contents vs)"
proof -
  from vs obtain a b rest where v: "vs = a # b # rest" by (cases vs rule: oid_ok.cases) auto
  have r: "\<forall>x \<in> set [a, b]. x < 2 ^ 64" "\<forall>x \<in> set rest. x < 2 ^ 64" using vs v by auto
  obtain ws :: "u64 list" where ws: "rest = unats ws" using u64_list [OF r(2)] by blast
  have "unat (word_of_nat a :: u64) = a" "unat (word_of_nat b :: u64) = b" using r(1) unat_word64_small by simp_all
  then obtain x y :: u64 where ab: "a = unat x" "b = unat y" by metis
  have sum: "unat (40 * x + y) = 40 * unat x + unat y" using vs v ab by (simp add: unat_word_ariths)
  have ok: "\<not> (x > 2 \<or> (x < 2 \<and> y > 39) \<or> y > 0xffffffffffffffff - 80)"
  proof -
    have "unat y \<le> 18446744073709551535" using vs v ab by (cases "unat x = 2") auto
    then show ?thesis using vs v ab by (auto simp: word_less_nat_alt)
  qed
  have p: "parse_dotted_decimal (oid_text vs) = (Some x, drop 1 (dotted (unats (y # ws))))"
    "parse_dotted_decimal (drop 1 (dotted (unats (y # ws)))) = (Some y, drop 1 (dotted (unats ws)))"
    using parse_dotted [of x "y # ws"] parse_dotted [of y ws] unfolding v ab ws by simp_all
  have eq: "CBB_add_asn1_oid_from_text m d (oid_text vs) =
    (\<lambda>st. and_then (CBB_flush m d st) (\<lambda>st. and_then (add_base128_integer m d (40 * x + y) st)
       (oid_components_loop m d (drop 1 (dotted (unats ws))))))"
    unfolding CBB_add_asn1_oid_from_text_def [abs_def] p(1) using ok parse_dotted [of y ws] by auto
  have ap: "appends m d (\<lambda>st. and_then (add_base128_integer m d (40 * x + y) st)
       (oid_components_loop m d (drop 1 (dotted (unats ws))))) (oid_contents vs)"
    using appends_seq [OF appends_base128 [OF m] appends_oid_components_loop [OF m], of d "40 * x + y" ws]
    unfolding v ab ws by (simp add: sum)
  show ?thesis unfolding eq by (rule appends_flushing, rule implements_flush_appends [OF m ap])
qed

lemma from_text_sound:
  assumes "CBB_add_asn1_oid_from_text m d t st = (True, st')"
  shows "\<exists>vs. oid_ok vs \<and> t = oid_text vs"
proof -
  from assms obtain x c where x: "parse_dotted_decimal t = (Some x, c)"
    by (cases "parse_dotted_decimal t"; cases "fst (parse_dotted_decimal t)")
       (auto simp: CBB_add_asn1_oid_from_text_def and_then_def split: prod.splits if_splits)
  with assms obtain y c' where y: "parse_dotted_decimal c = (Some y, c')"
    by (cases "parse_dotted_decimal c"; cases "fst (parse_dotted_decimal c)")
       (auto simp: CBB_add_asn1_oid_from_text_def and_then_def split: prod.splits if_splits)
  from assms x y have ok: "\<not> (x > 2 \<or> (x < 2 \<and> y > 39) \<or> y > 0xffffffffffffffff - 80)"
    and "\<exists>st1. oid_components_loop m d c' st1 = (True, st')"
    by (auto simp: CBB_add_asn1_oid_from_text_def and_then_def split: prod.splits if_splits)
  then obtain st1 where l: "oid_components_loop m d c' st1 = (True, st')" by blast
  have "c \<noteq> []" using y by (auto simp: parse_dotted_decimal_iff)
  then have t: "t = decimal_digits (unat x) @ 0x2e # c" using x by (simp add: parse_dotted_decimal_iff)
  obtain ws :: "u64 list" where "(if c' = [] then [] else 0x2e # c') = dotted (unats ws)"
  proof (cases "c' = []")
    case True
    then show thesis using that [of "[]"] by simp
  next
    case False
    from oid_components_loop_sound [OF l False] obtain w and ws :: "u64 list" where "0x2e # c' = dotted (unats (w # ws))" by blast
    then show thesis using False that [of "w # ws"] by simp
  qed
  with y t have "t = oid_text (unat x # unat y # unats ws)" by (simp add: parse_dotted_decimal_iff)
  moreover have "oid_ok (unat x # unat y # unats ws)"
  proof -
    have "unat x \<le> 2" "unat x < 2 \<longrightarrow> unat y < 40" "unat y \<le> 18446744073709551535"
      using ok by (auto simp: word_less_nat_alt not_less)
    then have "40 * unat x + unat y < 2 ^ 64" by (cases "unat x = 2") auto
    then show ?thesis using \<open>unat x \<le> 2\<close> \<open>unat x < 2 \<longrightarrow> unat y < 40\<close> by auto
  qed
  ultimately show ?thesis by blast
qed

section \<open>Properties\<close>

text \<open>C36. \<^verbatim>\<open>CBS_asn1_oid_to_text\<close> accepts exactly the contents of OIDs whose components fit in 64 bits,
  in minimal base 128 and with a first number that packs two components, and gives their dotted
  decimal text as a C string; with memory to spare it never refuses such contents.\<close>

theorem CBS_asn1_oid_to_text_exact:
  assumes "malloc_ok m" "length c < 2 ^ 50" "\<forall>k \<le> 42 * length c + 80. m k \<noteq> None"
  shows "(\<exists>r. CBS_asn1_oid_to_text m c = Some r \<and> takeWhile (\<lambda>b. b \<noteq> 0) r = t) \<longleftrightarrow>
    (\<exists>vs. oid_ok vs \<and> c = oid_contents vs \<and> t = oid_text vs)"
  using oid_to_text_emit [OF assms(1), of c] oid_to_text_total [OF assms(1)] assms(2,3) by metis

theorem CBS_asn1_oid_to_text_exact_witness:
  "\<exists>r. CBS_asn1_oid_to_text calloc_small [0x2a, 0x86, 0x48, 0x86, 0xf7, 0x0d] = Some r \<and>
    takeWhile (\<lambda>b. b \<noteq> 0) r = oid_text [1, 2, 840, 113549]"
proof -
  let ?c = "[0x2a, 0x86, 0x48, 0x86, 0xf7, 0x0d] :: byte list"
  have "oid_contents [1, 2, 840, 113549] = ?c" by (simp add: base128_bytes_def base128_hi.simps)
  then have ex: "\<exists>vs. oid_ok vs \<and> ?c = oid_contents vs \<and> oid_text [1, 2, 840, 113549] = oid_text vs"
    by (intro exI [of _ "[1, 2, 840, 113549]"]) simp
  have "length ?c < 2 ^ 50" "\<forall>k \<le> 42 * length ?c + 80. calloc_small k \<noteq> None" by (simp_all add: calloc_small_def)
  from iffD2 [OF CBS_asn1_oid_to_text_exact [OF calloc_small_ok this] ex] show ?thesis .
qed

text \<open>C26. An OID survives the trip from text to DER and back. \<^verbatim>\<open>CBB_add_asn1_oid_from_text\<close> accepts only
  the dotted decimal text of an OID, without leading zeros, overflow or empty components; what it
  appends is the OID's contents, and \<^verbatim>\<open>CBS_asn1_oid_to_text\<close> gives the same text back.\<close>

theorem oid_text_roundtrip:
  assumes "malloc_ok m" "CBB_init m k0 = (True, st)" "k0 < 2 ^ 63"
    and "CBB_add_asn1_oid_from_text m 0 t st = (True, st1)"
    and "CBB_finish m 0 True True st1 = (Some (Some der, Some n), st2)" "n < 2 ^ 50" "\<forall>k \<le> 42 * n + 80. m k \<noteq> None"
  shows "\<exists>vs r. oid_ok vs \<and> t = oid_text vs \<and> n = length (oid_contents vs) \<and> take n der = oid_contents vs \<and>
    CBS_asn1_oid_to_text m (take n der) = Some r \<and> takeWhile (\<lambda>b. b \<noteq> 0) r = t"
proof -
  obtain vs where vs: "oid_ok vs" "t = oid_text vs" using from_text_sound [OF assms(4)] by blast
  have "n = length (oid_contents vs) \<and> take n der = oid_contents vs"
    by (rule appends_run(1) [OF assms(1) from_text_appends [OF assms(1) vs(1)] represents_init [OF assms(1-3)]
        assms(4) [unfolded vs(2)] assms(5)])
  then show ?thesis using oid_to_text_total [OF assms(1) _ _ vs(1)] assms(6,7) vs by metis
qed

theorem oid_text_roundtrip_witness:
  "\<exists>st st1 der n st2 r. CBB_init calloc_small 0 = (True, st) \<and>
     CBB_add_asn1_oid_from_text calloc_small 0 (oid_text [2, 999, 3]) st = (True, st1) \<and>
     CBB_finish calloc_small 0 True True st1 = (Some (Some der, Some n), st2) \<and> take n der = [0x88, 0x37, 0x03] \<and>
     CBS_asn1_oid_to_text calloc_small (take n der) = Some r \<and> takeWhile (\<lambda>b. b \<noteq> 0) r = oid_text [2, 999, 3]"
proof -
  let ?vs = "[2, 999, 3] :: nat list"
  have ok: "oid_ok ?vs" by simp
  have c: "oid_contents ?vs = [0x88, 0x37, 0x03]" by (simp add: base128_bytes_def base128_hi.simps)
  obtain st where st: "CBB_init calloc_small 0 = (True, st)" using CBB_init_calloc [of 0] by auto
  have len: "length (oid_contents ?vs) = 3" by (simp only: c) simp
  then have "avail_at calloc_small st (length (oid_contents ?vs))"
    by (intro avail_init [OF st]) (auto simp: calloc_small_def)
  from appends_run(2) [OF calloc_small_ok from_text_appends [OF calloc_small_ok ok] represents_init [OF calloc_small_ok st] this]
  obtain st1 der st2 where r: "CBB_add_asn1_oid_from_text calloc_small 0 (oid_text ?vs) st = (True, st1)"
    "CBB_finish calloc_small 0 True True st1 = (Some (Some der, Some 3), st2)"
    and d: "take 3 der = oid_contents ?vs" unfolding len by auto
  have mem: "\<forall>k \<le> 42 * 3 + 80. calloc_small k \<noteq> None" by (simp add: calloc_small_def)
  have "\<exists>vs r. oid_ok vs \<and> oid_text ?vs = oid_text vs \<and> 3 = length (oid_contents vs) \<and> take 3 der = oid_contents vs \<and>
    CBS_asn1_oid_to_text calloc_small (take 3 der) = Some r \<and> takeWhile (\<lambda>b. b \<noteq> 0) r = oid_text ?vs"
    by (rule oid_text_roundtrip [OF calloc_small_ok st _ r _ mem]) simp_all
  then show ?thesis using st r d c by metis
qed

end
