(* ===== verification/Ber.thy ===== *)
theory Ber
  imports CbbItems
begin

text \<open>Conversion from BER to DER, \<^verbatim>\<open>crypto/bytestring/ber.c\<close>. \<open>cbs_find_ber\<close> is a walk over the input
  that sets the flag \<open>ber_found\<close>, \<open>cbs_convert_ber\<close> the recursive conversion, which reads from
  the input \<open>c\<close> and writes to the builder's child at depth \<open>d\<close>; an iteration of its loop is a tail
  call. Both recurse into the elements they parse, to a depth of \<open>kMaxDepth\<close>; the second one also
  goes on after an indefinite-length element from wherever the recursive call has stopped, so its
  termination rests on that call not giving back more input than it was given.\<close>

definition kMaxDepth :: nat where "kMaxDepth = 2048"

definition CBS_ASN1_UTF8STRING :: u32 where "CBS_ASN1_UTF8STRING = 0xc"
definition CBS_ASN1_NUMERICSTRING :: u32 where "CBS_ASN1_NUMERICSTRING = 0x12"
definition CBS_ASN1_PRINTABLESTRING :: u32 where "CBS_ASN1_PRINTABLESTRING = 0x13"
definition CBS_ASN1_T61STRING :: u32 where "CBS_ASN1_T61STRING = 0x14"
definition CBS_ASN1_VIDEOTEXSTRING :: u32 where "CBS_ASN1_VIDEOTEXSTRING = 0x15"
definition CBS_ASN1_IA5STRING :: u32 where "CBS_ASN1_IA5STRING = 0x16"
definition CBS_ASN1_GRAPHICSTRING :: u32 where "CBS_ASN1_GRAPHICSTRING = 0x19"
definition CBS_ASN1_VISIBLESTRING :: u32 where "CBS_ASN1_VISIBLESTRING = 0x1a"
definition CBS_ASN1_GENERALSTRING :: u32 where "CBS_ASN1_GENERALSTRING = 0x1b"
definition CBS_ASN1_UNIVERSALSTRING :: u32 where "CBS_ASN1_UNIVERSALSTRING = 0x1c"
definition CBS_ASN1_BMPSTRING :: u32 where "CBS_ASN1_BMPSTRING = 0x1e"

definition is_string_type :: "u32 \<Rightarrow> bool" where
  "is_string_type tag =
     (let t = tag AND NOT CBS_ASN1_CONSTRUCTED
      in t = CBS_ASN1_BITSTRING \<or> t = CBS_ASN1_OCTETSTRING \<or> t = CBS_ASN1_UTF8STRING \<or>
         t = CBS_ASN1_NUMERICSTRING \<or> t = CBS_ASN1_PRINTABLESTRING \<or> t = CBS_ASN1_T61STRING \<or>
         t = CBS_ASN1_VIDEOTEXSTRING \<or> t = CBS_ASN1_IA5STRING \<or> t = CBS_ASN1_GRAPHICSTRING \<or>
         t = CBS_ASN1_VISIBLESTRING \<or> t = CBS_ASN1_GENERALSTRING \<or> t = CBS_ASN1_UNIVERSALSTRING \<or>
         t = CBS_ASN1_BMPSTRING)"

definition indefinite_header :: "cbs \<Rightarrow> nat \<Rightarrow> bool" where
  "indefinite_header contents header_len \<longleftrightarrow>
     length contents = header_len \<and> header_len > 0 \<and> contents ! (header_len - 1) = 0x80"

lemma ber_element_shorter:
  assumes "CBS_get_any_ber_asn1_element c = (Some (out, t, hl), c')"
  shows "length c' < length c" "length out - hl < length c" "suffix c' c"
proof -
  have "0 < length (der_tag t)" by (rule length_der_tag)
  then show "length c' < length c" "length out - hl < length c"
    using assms by (auto simp: CBS_get_any_ber_asn1_element_def any_element_iff der_header_def der_element_def)
  show "suffix c' c" using assms unfolding CBS_get_any_ber_asn1_element_def by (rule any_element_suffix)
qed

function find_ber_loop :: "cbs \<Rightarrow> bool \<Rightarrow> nat \<Rightarrow> bool \<times> bool" where
  "find_ber_loop c ber_found depth =
     (if c = [] then (True, ber_found)
      else (case CBS_get_any_ber_asn1_element c of
              (None, c) \<Rightarrow> (False, ber_found)
            | (Some (contents, tag, header_len), c) \<Rightarrow>
                if indefinite_header contents header_len then (True, True)
                else if tag AND CBS_ASN1_CONSTRUCTED \<noteq> 0 then
                  (if is_string_type tag then (True, True)
                   else (case CBS_skip contents header_len of
                           (None, _) \<Rightarrow> (False, ber_found)
                         | (Some _, contents) \<Rightarrow>
                            if depth + 1 > kMaxDepth then (False, ber_found)
                            else (case find_ber_loop contents False (depth + 1) of
                                    (False, ber_found) \<Rightarrow> (False, ber_found)
                                  | (True, ber_found) \<Rightarrow> find_ber_loop c ber_found depth)))
                else find_ber_loop c ber_found depth))"
  by pat_completeness auto
termination
  by (relation "measure (\<lambda>(c, ber_found, depth). length c)")
     (auto simp: CBS_skip_Some dest!: sym [of "(Some _, _)"] dest: ber_element_shorter)

declare find_ber_loop.simps [simp del]

definition cbs_find_ber :: "cbs \<Rightarrow> bool \<Rightarrow> nat \<Rightarrow> bool \<times> bool" where
  "cbs_find_ber orig_in ber_found depth =
     (if depth > kMaxDepth then (False, ber_found) else find_ber_loop orig_in False depth)"

definition is_eoc :: "nat \<Rightarrow> cbs \<Rightarrow> bool" where
  "is_eoc header_len contents \<longleftrightarrow> header_len = 2 \<and> length contents = 2 \<and> contents = [0, 0]"

definition convert_open :: "libc_malloc \<Rightarrow> nat \<Rightarrow> u32 \<Rightarrow> u32 \<Rightarrow> cbb \<Rightarrow> bool \<times> nat \<times> u32 \<times> cbb" where
  "convert_open m d string_tag tag out =
     (if string_tag \<noteq> 0 then
        (if tag AND NOT CBS_ASN1_CONSTRUCTED \<noteq> string_tag then (False, d, string_tag, out)
         else (True, d, string_tag, out))
      else
        (case (if tag AND CBS_ASN1_CONSTRUCTED \<noteq> 0 \<and> is_string_type tag
               then (tag AND NOT CBS_ASN1_CONSTRUCTED, tag AND NOT CBS_ASN1_CONSTRUCTED)
               else (tag, string_tag)) of
           (out_tag, child_string_tag) \<Rightarrow>
             (case CBB_add_asn1 m d out_tag out of
                (ok, out) \<Rightarrow> (ok, d + 1, child_string_tag, out))))"

function cbs_convert_ber ::
  "libc_malloc \<Rightarrow> nat \<Rightarrow> u32 \<Rightarrow> bool \<Rightarrow> nat \<Rightarrow> cbs \<Rightarrow> cbb \<Rightarrow> bool \<times> cbs \<times> cbb" where
  "cbs_convert_ber m d string_tag looking_for_eoc depth c out =
     (if depth > kMaxDepth then (False, c, out)
      else if c = [] then (\<not> looking_for_eoc, c, out)
      else (case CBS_get_any_ber_asn1_element c of
              (None, c) \<Rightarrow> (False, c, out)
            | (Some (contents, tag, header_len), c) \<Rightarrow>
                if is_eoc header_len contents then (looking_for_eoc, c, out)
                else (case convert_open m d string_tag tag out of
                        (False, _, _, out) \<Rightarrow> (False, c, out)
                      | (True, d', child_string_tag, out) \<Rightarrow>
                         (case (if indefinite_header contents header_len then
                                  cbs_convert_ber m d' child_string_tag True (depth + 1) c out
                                else (case CBS_skip contents header_len of
                                        (None, contents) \<Rightarrow> (False, c, out)
                                      | (Some _, contents) \<Rightarrow>
                                         if tag AND CBS_ASN1_CONSTRUCTED \<noteq> 0 then
                                           (case cbs_convert_ber m d' child_string_tag False (depth + 1) contents out of
                                              (ok, _, out) \<Rightarrow> (ok, c, out))
                                         else (case CBB_add_bytes m d' contents out of (ok, out) \<Rightarrow> (ok, c, out)))) of
                            (False, c, out) \<Rightarrow> (False, c, out)
                          | (True, c, out) \<Rightarrow>
                             (case CBB_flush m d out of
                                (False, out) \<Rightarrow> (False, c, out)
                              | (True, out) \<Rightarrow> cbs_convert_ber m d string_tag looking_for_eoc depth c out)))))"
  by pat_completeness auto

lemma ber_element_None: "CBS_get_any_ber_asn1_element c = (None, c') \<Longrightarrow> c' = c"
  unfolding CBS_get_any_ber_asn1_element_def by (rule element_failure_keeps_input)

lemma convert_inner_rest:
  assumes "(if indef then r
     else (case skipped of
             (None, contents) \<Rightarrow> (False, c1, out1)
           | (Some _, contents) \<Rightarrow>
              if constructed then (case rec contents of (ok, _, out) \<Rightarrow> (ok, c1, out))
              else (case add contents of (ok, out) \<Rightarrow> (ok, c1, out)))) = (ok2, c2, out2)"
    and "P c1" "\<And>ok c' out'. indef \<Longrightarrow> r = (ok, c', out') \<Longrightarrow> P c'"
  shows "P c2"
  using assms by (auto split: if_splits prod.splits option.splits)

lemma convert_ber_estimate:
  assumes "cbs_convert_ber_dom (m, d, s, e, depth, c, out)"
  shows "cbs_convert_ber m d s e depth c out = (ok, c', out') \<Longrightarrow>
    suffix c' c \<and> (ok \<longrightarrow> (if e then length c' + 2 \<le> length c else c' = []))"
  using assms
proof (induction arbitrary: ok c' out' rule: cbs_convert_ber.pinduct)
  case (1 m d s e depth c out)
  note eq = 1(5) [unfolded cbs_convert_ber.psimps [OF 1(1)]]
  show ?case
  proof (cases "kMaxDepth < depth \<or> c = []")
    case True
    then show ?thesis using eq by (auto split: if_splits)
  next
    case False
    obtain r c1 where el: "CBS_get_any_ber_asn1_element c = (r, c1)" by fastforce
    show ?thesis
    proof (cases r)
      case None
      then show ?thesis using eq False el by (auto dest: ber_element_None)
    next
      case (Some x)
      obtain contents tag hl where x: "x = (contents, tag, hl)" by (cases x)
      note el = el [unfolded Some x]
      note sc1 = ber_element_shorter(3) [OF el]
      have c: "c = contents @ c1" using el by (auto simp: CBS_get_any_ber_asn1_element_def any_element_iff)
      note eq = eq [unfolded el Some x prod.case option.case]
      obtain ok1 d1 s1 out1 where op: "convert_open m d s tag out = (ok1, d1, s1, out1)" by (metis prod_cases4)
      show ?thesis
      proof (cases "is_eoc hl contents \<or> \<not> ok1")
        case True
        then show ?thesis using eq False sc1 op c by (auto simp: is_eoc_def split: if_splits)
      next
        case go: False
        define inner where "inner = (if indefinite_header contents hl then cbs_convert_ber m d1 s1 True (depth + 1) c1 out1
          else (case CBS_skip contents hl of
                  (None, contents) \<Rightarrow> (False, c1, out1)
                | (Some _, contents) \<Rightarrow>
                   if tag AND CBS_ASN1_CONSTRUCTED \<noteq> 0 then
                     (case cbs_convert_ber m d1 s1 False (depth + 1) contents out1 of (ok, _, out) \<Rightarrow> (ok, c1, out))
                   else (case CBB_add_bytes m d1 contents out1 of (ok, out) \<Rightarrow> (ok, c1, out))))"
        obtain ok2 c2 out2 where I: "inner = (ok2, c2, out2)" by (metis prod_cases3)
        have "suffix c2 c1"
        proof (rule convert_inner_rest [OF I [unfolded inner_def], where P = "\<lambda>c. suffix c c1"])
          show "suffix c' c1" if "indefinite_header contents hl" "cbs_convert_ber m d1 s1 True (depth + 1) c1 out1 = (ok, c', out')"
            for ok c' out'
            using 1(2) [OF _ _ el [symmetric] refl refl refl _ op [symmetric] _ refl refl that] False go by simp
        qed simp
        then have c2: "suffix c2 c" using sc1 by (rule suffix_order.trans)
        have eq: "(case inner of (False, c, out) \<Rightarrow> (False, c, out)
            | (True, c, out) \<Rightarrow>
               (case CBB_flush m d out of (False, out) \<Rightarrow> (False, c, out)
                | (True, out) \<Rightarrow> cbs_convert_ber m d s e depth c out)) = (ok, c', out')"
          using eq False go op by (simp add: inner_def)
        obtain ok3 out3 where fl: "CBB_flush m d out2 = (ok3, out3)" by fastforce
        show ?thesis
        proof (cases "ok2 \<and> ok3")
          case True
          then have "cbs_convert_ber m d s e depth c2 out3 = (ok, c', out')" using eq I fl by simp
          from 1(4) [OF _ _ el [symmetric] refl refl refl _ op [symmetric] _ refl refl I [symmetric, unfolded inner_def] _ refl fl [symmetric] _ this]
          have r: "suffix c' c2" "ok \<Longrightarrow> e \<Longrightarrow> length c' + 2 \<le> length c2" "ok \<Longrightarrow> \<not> e \<Longrightarrow> c' = []"
            using False go True by simp_all
          have "suffix c' c" using r(1) c2 by (rule suffix_order.trans)
          then show ?thesis using r(2,3) suffix_length_le [OF c2] by auto
        next
          case False
          then show ?thesis using eq I fl c2 by (cases ok2; cases ok3) auto
        qed
      qed
    qed
  qed
qed

lemma convert_ber_dom: "All cbs_convert_ber_dom"
proof (relation "measure (\<lambda>(m, d, s, e, depth, c, out). length c)", goal_cases)
  case (4 m d s e depth c out x y x2 xa ya xb yb xc yaa xd yab xe yac xf yad xg yc xh yd)
  have el: "CBS_get_any_ber_asn1_element c = (Some (xa, xb, yb), y)" using 4(3-6) by simp
  have "length xg \<le> length y"
  proof (rule convert_inner_rest [where P = "\<lambda>c. length c \<le> length y", OF _ order_refl])
    show "(if indefinite_header xa yb then cbs_convert_ber m xd xe True (depth + 1) y yac
         else case CBS_skip xa yb of (None, contents) \<Rightarrow> (False, y, yac)
            | (Some _, contents) \<Rightarrow>
               if xb AND CBS_ASN1_CONSTRUCTED \<noteq> 0 then
                 (case cbs_convert_ber m xd xe False (depth + 1) contents yac of (ok, _, out) \<Rightarrow> (ok, y, out))
               else (case CBB_add_bytes m xd contents yac of (ok, out) \<Rightarrow> (ok, y, out))) = (xf, xg, yc)"
      by (simp only: 4(14)) (rule 4(12) [symmetric])
    show "length c' \<le> length y" if "indefinite_header xa yb"
      "cbs_convert_ber m xd xe True (depth + 1) y yac = (ok, c', out')" for ok c' out'
      using convert_ber_estimate [OF 4(18) that(2)] that(1) by (simp add: suffix_length_le)
  qed
  with ber_element_shorter(1) [OF el] show ?case by simp
qed (auto simp: CBS_skip_Some dest!: sym [of "(Some _, _)"] dest: ber_element_shorter)

termination cbs_convert_ber
  by (rule convert_ber_dom)

declare cbs_convert_ber.simps [simp del]

definition CBS_asn1_ber_to_der :: "libc_malloc \<Rightarrow> cbs \<Rightarrow> (cbs \<times> byte list option) option \<times> cbs" where
  "CBS_asn1_ber_to_der m c =
     (case cbs_find_ber c False 0 of
        (False, conversion_needed) \<Rightarrow> (None, c)
      | (True, conversion_needed) \<Rightarrow>
          if \<not> conversion_needed then
            (case CBS_get_any_asn1_element c of
               (None, c) \<Rightarrow> (None, c)
             | (Some (out, _, _), c) \<Rightarrow> (Some (out, None), c))
          else
            (case CBB_init m (CBS_len c) of
               (False, cbb) \<Rightarrow> (None, c)
             | (True, cbb) \<Rightarrow>
                (case cbs_convert_ber m 0 0 False 0 c cbb of
                   (False, c, cbb) \<Rightarrow> (None, c)
                 | (True, c, cbb) \<Rightarrow>
                    (case CBB_finish m 0 True True cbb of
                       (Some (Some out_storage, Some len), cbb) \<Rightarrow> (Some (take len out_storage, Some out_storage), c)
                     | (_, cbb) \<Rightarrow> (None, c)))))"

function implicit_string_loop :: "libc_malloc \<Rightarrow> u32 \<Rightarrow> cbs \<Rightarrow> cbb \<Rightarrow> bool \<times> cbb" where
  "implicit_string_loop m inner_tag child result =
     (if child = [] then (True, result)
      else (case CBS_get_asn1 child inner_tag of
              (None, child) \<Rightarrow> (False, result)
            | (Some chunk, child) \<Rightarrow>
                and_then (CBB_add_bytes m 0 chunk result) (implicit_string_loop m inner_tag child)))"
  by pat_completeness auto
termination
proof (relation "measure (\<lambda>(m, inner_tag, child, result). length child)", goal_cases)
  case (2 m inner_tag child result x y chunk xa)
  then have "child = der_element inner_tag chunk @ y" using CBS_get_asn1_iff [of child inner_tag chunk y] by simp
  moreover have "0 < length (der_tag inner_tag)" by (rule length_der_tag)
  ultimately show ?case by (simp add: der_header_def)
qed simp

declare implicit_string_loop.simps [simp del]

definition CBS_get_asn1_implicit_string ::
  "libc_malloc \<Rightarrow> cbs \<Rightarrow> u32 \<Rightarrow> u32 \<Rightarrow> (cbs \<times> byte list option) option \<times> cbs" where
  "CBS_get_asn1_implicit_string m c outer_tag inner_tag =
     (if CBS_peek_asn1_tag c outer_tag then
        (case CBS_get_asn1 c outer_tag of
           (None, c) \<Rightarrow> (None, c)
         | (Some out, c) \<Rightarrow> (Some (out, None), c))
      else
        (case CBB_init m (CBS_len c) of
           (False, result) \<Rightarrow> (None, c)
         | (True, result) \<Rightarrow>
            (case CBS_get_asn1 c (outer_tag OR CBS_ASN1_CONSTRUCTED) of
               (None, c) \<Rightarrow> (None, c)
             | (Some child, c) \<Rightarrow>
                (case implicit_string_loop m inner_tag child result of
                   (False, result) \<Rightarrow> (None, c)
                 | (True, result) \<Rightarrow>
                    (case CBB_finish m 0 True True result of
                       (Some (Some data, Some len), result) \<Rightarrow> (Some (take len data, Some data), c)
                     | (_, result) \<Rightarrow> (None, c))))))"

subsection \<open>BER values\<close>

datatype ber = Prim u32 "byte list" | Constr u32 bool "ber list"

abbreviation base_tag :: "u32 \<Rightarrow> u32" where "base_tag t \<equiv> t AND NOT CBS_ASN1_CONSTRUCTED"

fun ber_bytes :: "ber \<Rightarrow> byte list" where
  "ber_bytes (Prim t x) = der_element t x"
| "ber_bytes (Constr t indefinite ks) =
     (if indefinite then der_tag t @ [0x80] @ concat (map ber_bytes ks) @ [0, 0]
      else der_element t (concat (map ber_bytes ks)))"

abbreviation bers_bytes :: "ber list \<Rightarrow> byte list" where "bers_bytes ks \<equiv> concat (map ber_bytes ks)"

fun ber_to_der :: "u32 \<Rightarrow> ber \<Rightarrow> byte list" where
  "ber_to_der s (Prim t x) = (if s \<noteq> 0 then x else der_element t x)"
| "ber_to_der s (Constr t indefinite ks) =
     (if s \<noteq> 0 then concat (map (ber_to_der s) ks)
      else if is_string_type t then der_element (base_tag t) (concat (map (ber_to_der (base_tag t)) ks))
      else der_element t (concat (map (ber_to_der 0) ks)))"

definition string_context :: "u32 \<Rightarrow> u32 \<Rightarrow> u32" where
  "string_context s t = (if s \<noteq> 0 then s else if is_string_type t then base_tag t else 0)"

fun ber_wf :: "u32 \<Rightarrow> ber \<Rightarrow> bool" where
  "ber_wf s (Prim t x) \<longleftrightarrow> t AND CBS_ASN1_CONSTRUCTED = 0 \<and> \<not> (t = 0 \<and> x = []) \<and> (s \<noteq> 0 \<longrightarrow> base_tag t = s) \<and>
     length x < 0xffffffff"
| "ber_wf s (Constr t indefinite ks) \<longleftrightarrow> t AND CBS_ASN1_CONSTRUCTED \<noteq> 0 \<and> (s \<noteq> 0 \<longrightarrow> base_tag t = s) \<and>
     (\<forall>k \<in> set ks. ber_wf (string_context s t) k) \<and> (\<not> indefinite \<longrightarrow> length (bers_bytes ks) < 2 ^ 32) \<and>
     length (concat (map (ber_to_der (string_context s t)) ks)) < 0xffffffff"

fun ber_height :: "ber \<Rightarrow> nat" where
  "ber_height (Prim t x) = 0"
| "ber_height (Constr t indefinite ks) = Suc (Max (insert 0 (ber_height ` set ks)))"

lemma ber_height_child: "k \<in> set ks \<Longrightarrow> ber_height k < ber_height (Constr t i ks)"
  by (simp add: less_Suc_eq_le)

definition converts :: "libc_malloc \<Rightarrow> nat \<Rightarrow> (cbb \<Rightarrow> bool \<times> cbs \<times> cbb) \<Rightarrow> byte list \<Rightarrow> cbs \<Rightarrow> bool" where
  "converts m d f z rest \<longleftrightarrow>
     appends m d (\<lambda>st. case f st of (ok, c, st) \<Rightarrow> (ok, st)) z \<and> (\<forall>st c st'. f st = (True, c, st') \<longrightarrow> c = rest)"

lemma convertsD: "converts m d f z rest \<Longrightarrow> f st = (ok, c, st') \<Longrightarrow> ok \<Longrightarrow> c = rest"
  by (auto simp: converts_def)

lemma appends_flush: "malloc_ok m \<Longrightarrow> appends m d (CBB_flush m d) []"
proof (rule appendsI)
  fix E :: doc assume "malloc_ok m" "length (snd E) = d"
  then show "implements m (CBB_flush m d) E (Some (doc_append [] E))" using implements_flush [of m d E] by simp
qed

lemma converts_element:
  assumes m: "malloc_ok m"
    and opn: "\<And>st. opn st = (case f0 st of (ok, st) \<Rightarrow> (ok, d', s', st))"
    and inner: "converts m d' (inner d' s') z c2" and flush: "appends m d (\<lambda>st. and_then (f0 st) (\<lambda>st. and_then (case inner d' s' st of (ok, c, st) \<Rightarrow> (ok, st)) (CBB_flush m d))) y"
    and g: "converts m d (g c2) zr rest"
  shows "converts m d (\<lambda>st. case opn st of
       (False, _, _, st) \<Rightarrow> (False, c1, st)
     | (True, d', s', st) \<Rightarrow>
        (case inner d' s' st of
           (False, c, st) \<Rightarrow> (False, c, st)
         | (True, c, st) \<Rightarrow> (case CBB_flush m d st of (False, st) \<Rightarrow> (False, c, st) | (True, st) \<Rightarrow> g c st))) (y @ zr) rest"
    (is "converts m d ?f _ _")
  unfolding converts_def
proof
  have eq: "(case ?f st of (ok, c, st) \<Rightarrow> (ok, st)) =
      and_then (and_then (f0 st) (\<lambda>st. and_then (case inner d' s' st of (ok, c, st) \<Rightarrow> (ok, st)) (CBB_flush m d)))
        (\<lambda>st. case g c2 st of (ok, c, st) \<Rightarrow> (ok, st))" for st
  proof -
    obtain ok1 st1 where 1: "f0 st = (ok1, st1)" by fastforce
    obtain ok2 c st2 where 2: "inner d' s' st1 = (ok2, c, st2)" by (metis prod_cases3)
    have "ok2 \<Longrightarrow> c = c2" by (rule convertsD [OF inner 2])
    then show ?thesis by (cases ok1; cases ok2) (auto simp: opn 1 2 and_then_def split: prod.splits bool.splits)
  qed
  show "appends m d (\<lambda>st. case ?f st of (ok, c, st) \<Rightarrow> (ok, st)) (y @ zr)"
    unfolding eq by (rule appends_seq [OF flush g [unfolded converts_def, THEN conjunct1]])
  show "\<forall>st c st'. ?f st = (True, c, st') \<longrightarrow> c = rest"
  proof (intro allI impI)
    fix st c st' assume a: "?f st = (True, c, st')"
    obtain ok1 st1 where 1: "f0 st = (ok1, st1)" by fastforce
    obtain ok2 c' st2 where 2: "inner d' s' st1 = (ok2, c', st2)" by (metis prod_cases3)
    obtain ok3 st3 where 3: "CBB_flush m d st2 = (ok3, st3)" by fastforce
    have "ok2 \<Longrightarrow> c' = c2" by (rule convertsD [OF inner 2])
    then have "g c2 st3 = (True, c, st')" using a by (cases ok1; cases ok2; cases ok3) (auto simp: opn 1 2 3)
    then show "c = rest" by (rule convertsD [OF g]) simp
  qed
qed

lemma get_definite:
  "length x < 2 ^ 32 \<Longrightarrow> CBS_get_any_ber_asn1_element (der_element t x @ r) =
     (Some (der_element t x, t, length (der_header t (length x))), r)"
  unfolding CBS_get_any_ber_asn1_element_def any_element_iff by blast

lemma get_indefinite:
  "t AND CBS_ASN1_CONSTRUCTED \<noteq> 0 \<Longrightarrow> CBS_get_any_ber_asn1_element (der_tag t @ 0x80 # r) =
     (Some (der_tag t @ [0x80], t, length (der_tag t) + 1), r)"
  unfolding CBS_get_any_ber_asn1_element_def any_element_iff by simp

lemma definite_not_indefinite: "\<not> indefinite_header (der_element t x) (length (der_header t (length x)))"
  by (auto simp: indefinite_header_def der_element_def der_header_def der_length_def nth_append)

lemma indefinite_is: "indefinite_header (der_tag t @ [0x80]) (length (der_tag t) + 1)"
  by (simp add: indefinite_header_def nth_append)

lemma eoc_element: "der_element 0 [] = [0, 0]"
  by (simp add: der_element_def der_header_def der_tag_def tag_num_def tag_class_def der_length_def)

lemma definite_eoc: "length x < 2 ^ 32 \<Longrightarrow> is_eoc hl (der_element t x) \<Longrightarrow> t = 0 \<and> x = []"
  using CBS_get_any_asn1_iff [of "der_element t x" x t "[]"] CBS_get_any_asn1_iff [of "der_element t x" "[]" 0 "[]"]
  by (simp add: is_eoc_def eoc_element)

lemma indefinite_not_eoc: "\<not> is_eoc hl (der_tag t @ [0x80])"
  by (auto simp: is_eoc_def append_eq_Cons_conv)

lemma get_eoc: "CBS_get_any_ber_asn1_element (0 # 0 # r) = (Some ([0, 0], 0, 2), r)"
  using get_definite [of "[]" 0 r] by (simp add: eoc_element, simp add: der_header_def der_tag_def tag_num_def tag_class_def der_length_def)

lemma base_tag_prim: "t AND CBS_ASN1_CONSTRUCTED = 0 \<Longrightarrow> base_tag t = t"
proof (rule bit_word_eqI)
  fix n assume "t AND CBS_ASN1_CONSTRUCTED = 0" "n < LENGTH(32)"
  then have "bit (t AND CBS_ASN1_CONSTRUCTED) n = bit (0 :: u32) n" by (simp only:)
  then show "bit (base_tag t) n = bit t n" using \<open>n < LENGTH(32)\<close> by (auto simp: bit_simps)
qed

lemma skip_definite: "CBS_skip (der_element t x) (length (der_header t (length x))) = (Some (), x)"
  by (simp add: der_element_def)

lemma appends_into_element:
  assumes m: "malloc_ok m" and z: "appends m (Suc d) f z" "length z < 0xffffffff"
  shows "appends m d (\<lambda>st. and_then (CBB_add_asn1 m d t st) (\<lambda>st. and_then (f st) (CBB_flush m d))) (der_element t z)"
  using appends_asn1_child [OF m z(1)] z(2) by simp

lemma appends_into_string:
  assumes m: "malloc_ok m" and z: "appends m d f z"
  shows "appends m d (\<lambda>st. and_then (True, st) (\<lambda>st. and_then (f st) (CBB_flush m d))) z"
  using appends_seq [OF z appends_flush [OF m]] by (simp add: and_then_def)

definition convert_inner :: "libc_malloc \<Rightarrow> bool \<Rightarrow> bool \<Rightarrow> cbs \<Rightarrow> cbs \<Rightarrow> nat \<Rightarrow> nat \<Rightarrow> u32 \<Rightarrow> cbb \<Rightarrow> bool \<times> cbs \<times> cbb" where
  "convert_inner m indef constructed x c1 depth d' s' st =
     (if indef then cbs_convert_ber m d' s' True (depth + 1) c1 st
      else if constructed then (case cbs_convert_ber m d' s' False (depth + 1) x st of (ok, _, st) \<Rightarrow> (ok, c1, st))
      else (case CBB_add_bytes m d' x st of (ok, st) \<Rightarrow> (ok, c1, st)))"

lemma convert_element_eq:
  assumes el: "CBS_get_any_ber_asn1_element c = (Some (contents, t, hl), c1)" and d: "depth \<le> kMaxDepth" "c \<noteq> []"
    and eoc: "\<not> is_eoc hl contents" and x: "indefinite_header contents hl \<or> CBS_skip contents hl = (Some (), x)"
  shows "cbs_convert_ber m d s e depth c = (\<lambda>st. case convert_open m d s t st of
       (False, _, _, st) \<Rightarrow> (False, c1, st)
     | (True, d', s', st) \<Rightarrow>
        (case convert_inner m (indefinite_header contents hl) (t AND CBS_ASN1_CONSTRUCTED \<noteq> 0) x c1 depth d' s' st of
           (False, c, st) \<Rightarrow> (False, c, st)
         | (True, c, st) \<Rightarrow>
            (case CBB_flush m d st of (False, st) \<Rightarrow> (False, c, st) | (True, st) \<Rightarrow> cbs_convert_ber m d s e depth c st)))"
proof (rule ext)
  fix st
  show "cbs_convert_ber m d s e depth c st = (case convert_open m d s t st of
       (False, _, _, st) \<Rightarrow> (False, c1, st)
     | (True, d', s', st) \<Rightarrow>
        (case convert_inner m (indefinite_header contents hl) (t AND CBS_ASN1_CONSTRUCTED \<noteq> 0) x c1 depth d' s' st of
           (False, c, st) \<Rightarrow> (False, c, st)
         | (True, c, st) \<Rightarrow>
            (case CBB_flush m d st of (False, st) \<Rightarrow> (False, c, st) | (True, st) \<Rightarrow> cbs_convert_ber m d s e depth c st)))"
  proof -
    obtain ok1 d1 s1 st1 where "convert_open m d s t st = (ok1, d1, s1, st1)" by (metis prod_cases4)
    then show ?thesis using d eoc x
      by (cases ok1; cases "indefinite_header contents hl"; subst cbs_convert_ber.simps) (simp_all add: el convert_inner_def)
  qed
qed

definition element_context :: "u32 \<Rightarrow> u32 \<Rightarrow> u32 \<times> u32" where
  "element_context s t =
     (if s \<noteq> 0 then (t, s)
      else if t AND CBS_ASN1_CONSTRUCTED \<noteq> 0 \<and> is_string_type t then (base_tag t, base_tag t) else (t, 0))"

lemma converts_one:
  assumes m: "malloc_ok m"
    and el: "CBS_get_any_ber_asn1_element c = (Some (contents, t, hl), c1)" and d: "depth \<le> kMaxDepth" "c \<noteq> []"
    and eoc: "\<not> is_eoc hl contents" and x: "indefinite_header contents hl \<or> CBS_skip contents hl = (Some (), x)"
    and s: "s \<noteq> 0 \<Longrightarrow> base_tag t = s"
    and inner: "\<And>d'. converts m d' (convert_inner m (indefinite_header contents hl) (t AND CBS_ASN1_CONSTRUCTED \<noteq> 0)
        x c1 depth d' (snd (element_context s t))) z c2"
    and z: "length z < 0xffffffff"
    and rest: "converts m d (cbs_convert_ber m d s e depth c2) zr rest"
  shows "converts m d (cbs_convert_ber m d s e depth c)
    ((if s \<noteq> 0 then z else der_element (fst (element_context s t)) z) @ zr) rest"
proof -
  let ?in = "convert_inner m (indefinite_header contents hl) (t AND CBS_ASN1_CONSTRUCTED \<noteq> 0) x c1 depth"
  note ap = inner [unfolded converts_def, THEN conjunct1]
  let ?s = "snd (element_context s t)"
  show ?thesis
  proof (cases "s = 0")
    case True
    let ?t = "fst (element_context s t)"
    have "convert_open m d s t st = (case CBB_add_asn1 m d ?t st of (ok, st) \<Rightarrow> (ok, Suc d, ?s, st))" for st
      using True by (simp add: convert_open_def element_context_def)
    from converts_element [where inner = "?in" and g = "cbs_convert_ber m d s e depth" and zr = zr and ?c1.0 = c1, OF m this inner
        appends_into_element [OF m ap z] rest]
    show ?thesis unfolding convert_element_eq [OF el d eoc x] using True by simp
  next
    case False
    then have "convert_open m d s t st = (case (True, st) of (ok, st) \<Rightarrow> (ok, d, ?s, st))" for st
      using s by (simp add: convert_open_def element_context_def)
    from converts_element [where inner = "?in" and g = "cbs_convert_ber m d s e depth" and zr = zr and ?c1.0 = c1, OF m this inner
        appends_into_string [OF m ap] rest]
    show ?thesis unfolding convert_element_eq [OF el d eoc x] using False by simp
  qed
qed

lemma converts_definite_inner:
  assumes "converts m d' (cbs_convert_ber m d' s' False (depth + 1) x) z r"
  shows "converts m d' (convert_inner m False True x c1 depth d' s') z c1"
proof -
  have "(\<lambda>st. case convert_inner m False True x c1 depth d' s' st of (ok, c, st) \<Rightarrow> (ok, st)) =
      (\<lambda>st. case cbs_convert_ber m d' s' False (depth + 1) x st of (ok, c, st) \<Rightarrow> (ok, st))"
    by (rule ext) (auto simp: convert_inner_def split: prod.splits)
  then show ?thesis using assms unfolding converts_def by (auto simp: convert_inner_def split: prod.splits)
qed

lemma converts_prim_inner:
  assumes "malloc_ok m" "length x < 2 ^ 63"
  shows "converts m d' (convert_inner m False False x c1 depth d' s') x c1"
proof -
  have "(\<lambda>st. case convert_inner m False False x c1 depth d' s' st of (ok, c, st) \<Rightarrow> (ok, st)) = CBB_add_bytes m d' x"
    by (rule ext) (auto simp: convert_inner_def split: prod.splits)
  then show ?thesis using appends_add_bytes [OF assms, of d'] unfolding converts_def
    by (auto simp: convert_inner_def split: prod.splits)
qed

lemma string_context_element: "t AND CBS_ASN1_CONSTRUCTED \<noteq> 0 \<Longrightarrow> snd (element_context s t) = string_context s t"
  by (simp add: element_context_def string_context_def)

lemma ber_to_der_constr: "t AND CBS_ASN1_CONSTRUCTED \<noteq> 0 \<Longrightarrow> ber_to_der s (Constr t i ks) =
    (if s \<noteq> 0 then concat (map (ber_to_der (string_context s t)) ks)
     else der_element (fst (element_context s t)) (concat (map (ber_to_der (string_context s t)) ks)))"
  by (simp add: element_context_def string_context_def)

definition eoc_tail :: "bool \<Rightarrow> cbs \<Rightarrow> cbs" where
  "eoc_tail e rest = (if e then [0, 0] @ rest else [])"

lemma convert_ber_converts:
  assumes m: "malloc_ok m"
  shows "(\<forall>k \<in> set ks. ber_wf s k) \<Longrightarrow> (\<forall>k \<in> set ks. depth + ber_height k \<le> kMaxDepth) \<Longrightarrow> depth \<le> kMaxDepth \<Longrightarrow>
    converts m d (cbs_convert_ber m d s e depth (bers_bytes ks @ eoc_tail e rest)) (concat (map (ber_to_der s) ks))
      (if e then rest else [])"
proof (induction "size_list size ks" arbitrary: ks d s e depth rest rule: less_induct)
  case less
  show ?case
  proof (cases ks)
    case Nil
    have "cbs_convert_ber m d s e depth (eoc_tail e rest) = (\<lambda>st. (True, if e then rest else [], st))"
      by (rule ext, subst cbs_convert_ber.simps)
         (use less.prems(3) in \<open>auto simp: eoc_tail_def get_eoc is_eoc_def\<close>)
    then show ?thesis using appends_skip [of m d] by (simp add: Nil converts_def)
  next
    case (Cons k ts)
    define tl where "tl = bers_bytes ts @ eoc_tail e rest"
    have IH: "converts m d (cbs_convert_ber m d s e depth tl) (concat (map (ber_to_der s) ts)) (if e then rest else [])"
      unfolding tl_def using less.prems Cons by (intro less.hyps) auto
    show ?thesis
    proof (cases k)
      case (Prim t x)
      then have wf: "t AND CBS_ASN1_CONSTRUCTED = 0" "\<not> (t = 0 \<and> x = [])" "s \<noteq> 0 \<Longrightarrow> base_tag t = s" "length x < 0xffffffff"
        using less.prems(1) Cons by auto
      then have len: "length x < 2 ^ 32" "length x < 2 ^ 63" by simp_all
      have ne: "der_element t x @ tl \<noteq> []" using length_der_tag(1) [of t] by (simp add: der_element_def der_header_def)
      have "converts m d (cbs_convert_ber m d s e depth (der_element t x @ tl))
         ((if s \<noteq> 0 then x else der_element (fst (element_context s t)) x) @ concat (map (ber_to_der s) ts)) (if e then rest else [])"
      proof (rule converts_one [OF m get_definite [OF len(1)] less.prems(3) ne _ disjI2 [OF skip_definite] wf(3) _ wf(4) IH])
        show "\<not> is_eoc (length (der_header t (length x))) (der_element t x)" using definite_eoc [OF len(1)] wf(2) by blast
        fix d'
        show "converts m d' (convert_inner m (indefinite_header (der_element t x) (length (der_header t (length x))))
            (t AND CBS_ASN1_CONSTRUCTED \<noteq> 0) x tl depth d' (snd (element_context s t))) x tl"
          using converts_prim_inner [OF m len(2)] wf(1) by (simp add: definite_not_indefinite)
      qed
      then show ?thesis using wf(1) by (simp add: Cons Prim tl_def element_context_def split: if_splits)
    next
      case (Constr t i kids)
      let ?s = "string_context s t"
      let ?z = "concat (map (ber_to_der ?s) kids)"
      from Constr have wf: "t AND CBS_ASN1_CONSTRUCTED \<noteq> 0" "s \<noteq> 0 \<Longrightarrow> base_tag t = s" "\<forall>k \<in> set kids. ber_wf ?s k"
        "\<not> i \<Longrightarrow> length (bers_bytes kids) < 2 ^ 32" "length ?z < 0xffffffff"
        using less.prems(1) Cons by auto
      have h: "\<forall>k' \<in> set kids. depth + 1 + ber_height k' \<le> kMaxDepth"
        using less.prems(2) ber_height_child [of _ kids t i] Cons Constr by fastforce
      have dp: "depth + 1 \<le> kMaxDepth" using less.prems(2) Cons Constr by auto
      have sz: "size_list size kids < size_list size ks" by (simp add: Cons Constr)
      note sub = less.hyps [OF sz wf(3) h dp]
      note ctx = string_context_element [OF wf(1)]
      have kb: "(t AND CBS_ASN1_CONSTRUCTED \<noteq> 0) = True" using wf(1) by simp
      have "converts m d (cbs_convert_ber m d s e depth (ber_bytes k @ tl))
         ((if s \<noteq> 0 then ?z else der_element (fst (element_context s t)) ?z) @ concat (map (ber_to_der s) ts)) (if e then rest else [])"
      proof (cases i)
        case True
        have b: "ber_bytes k @ tl = der_tag t @ 0x80 # bers_bytes kids @ [0, 0] @ tl" by (simp add: Constr True)
        show ?thesis unfolding b
        proof (rule converts_one [OF m get_indefinite [OF wf(1)] less.prems(3) _ indefinite_not_eoc disjI1 [OF indefinite_is] wf(2) _ wf(5) IH])
          fix d'
          show "converts m d' (convert_inner m (indefinite_header (der_tag t @ [0x80]) (length (der_tag t) + 1))
              (t AND CBS_ASN1_CONSTRUCTED \<noteq> 0) [] (bers_bytes kids @ [0, 0] @ tl) depth d' (snd (element_context s t))) ?z tl"
            using sub [of d' True tl] indefinite_is [of t] by (simp add: ctx convert_inner_def [abs_def] eoc_tail_def)
        qed simp
      next
        case False
        let ?x = "bers_bytes kids"
        note len = wf(4) [OF False]
        have b: "ber_bytes k @ tl = der_element t ?x @ tl" by (simp add: Constr False)
        have ne: "der_element t ?x @ tl \<noteq> []" using length_der_tag(1) [of t] by (simp add: der_element_def der_header_def)
        show ?thesis unfolding b
        proof (rule converts_one [OF m get_definite [OF len] less.prems(3) ne _ disjI2 [OF skip_definite] wf(2) _ wf(5) IH])
          have "t \<noteq> 0" using wf(1) by auto
          then show "\<not> is_eoc (length (der_header t (length ?x))) (der_element t ?x)" using definite_eoc [OF len] by blast
          fix d'
          show "converts m d' (convert_inner m (indefinite_header (der_element t ?x) (length (der_header t (length ?x))))
              (t AND CBS_ASN1_CONSTRUCTED \<noteq> 0) ?x tl depth d' (snd (element_context s t))) ?z tl"
            unfolding ctx kb using converts_definite_inner [OF sub [of d' False]] by (simp add: eoc_tail_def definite_not_indefinite)
        qed
      qed
      then show ?thesis using ber_to_der_constr [OF wf(1), of s i kids] by (simp add: Cons Constr tl_def del: ber_to_der.simps ber_bytes.simps)
    qed
  qed
qed

fun found_ber :: "ber list \<Rightarrow> bool \<Rightarrow> bool" where
  "found_ber [] f = f"
| "found_ber (Prim t x # ks) f = found_ber ks f"
| "found_ber (Constr t indefinite kids # ks) f =
     (if indefinite \<or> is_string_type t then True else found_ber ks (found_ber kids False))"

lemma find_ber_loop_step:
  assumes "CBS_get_any_ber_asn1_element c = (Some (contents, t, hl), c1)" "c \<noteq> []"
  shows "indefinite_header contents hl \<Longrightarrow> find_ber_loop c f depth = (True, True)"
    and "\<not> indefinite_header contents hl \<Longrightarrow> t AND CBS_ASN1_CONSTRUCTED = 0 \<Longrightarrow> find_ber_loop c f depth = find_ber_loop c1 f depth"
    and "\<not> indefinite_header contents hl \<Longrightarrow> t AND CBS_ASN1_CONSTRUCTED \<noteq> 0 \<Longrightarrow> is_string_type t \<Longrightarrow> find_ber_loop c f depth = (True, True)"
    and "\<not> indefinite_header contents hl \<Longrightarrow> t AND CBS_ASN1_CONSTRUCTED \<noteq> 0 \<Longrightarrow> \<not> is_string_type t \<Longrightarrow>
      CBS_skip contents hl = (Some (), x) \<Longrightarrow> depth < kMaxDepth \<Longrightarrow> find_ber_loop x False (depth + 1) = (True, f') \<Longrightarrow>
      find_ber_loop c f depth = find_ber_loop c1 f' depth"
  using assms by (subst find_ber_loop.simps; simp)+

lemma der_element_nonempty: "der_element t x @ r \<noteq> []" "der_tag t @ r \<noteq> []"
  using length_der_tag(1) [of t] by (simp_all add: der_element_def der_header_def)

lemma find_ber_loop_bers:
  "(\<forall>k \<in> set ks. \<exists>s. ber_wf s k) \<Longrightarrow> (\<forall>k \<in> set ks. depth + ber_height k \<le> kMaxDepth) \<Longrightarrow>
   find_ber_loop (bers_bytes ks) f depth = (True, found_ber ks f)"
proof (induction ks f arbitrary: depth rule: found_ber.induct)
  case (1 f)
  then show ?case by (simp add: find_ber_loop.simps)
next
  case (2 t x ks f)
  then have wf: "t AND CBS_ASN1_CONSTRUCTED = 0" "length x < 2 ^ 32" by auto
  from find_ber_loop_step(2) [OF get_definite [OF wf(2)] der_element_nonempty(1) definite_not_indefinite wf(1)] 2
  show ?case by simp
next
  case (3 t i kids ks f)
  then obtain s where wf: "t AND CBS_ASN1_CONSTRUCTED \<noteq> 0" "\<not> i \<Longrightarrow> length (bers_bytes kids) < 2 ^ 32"
    "\<forall>k \<in> set kids. ber_wf (string_context s t) k" by auto
  show ?case
  proof (cases i)
    case True
    have "bers_bytes (Constr t i kids # ks) = der_tag t @ 0x80 # bers_bytes kids @ [0, 0] @ bers_bytes ks" by (simp add: True)
    then show ?thesis
      using find_ber_loop_step(1) [OF get_indefinite [OF wf(1)] der_element_nonempty(2) indefinite_is] True by simp
  next
    case False
    note st = find_ber_loop_step [OF get_definite [OF wf(2) [OF False]] der_element_nonempty(1)]
    have b: "bers_bytes (Constr t i kids # ks) = der_element t (bers_bytes kids) @ bers_bytes ks" by (simp add: False)
    show ?thesis
    proof (cases "is_string_type t")
      case True
      then show ?thesis unfolding b by (subst st(3) [OF definite_not_indefinite wf(1)]) simp_all
    next
      case str: False
      have "\<forall>k \<in> set kids. depth + 1 + ber_height k \<le> kMaxDepth" "depth < kMaxDepth"
        using 3(4) ber_height_child [of _ kids t i] by fastforce+
      then have "find_ber_loop (bers_bytes kids) False (depth + 1) = (True, found_ber kids False)"
        using 3(1) [of "depth + 1"] False str wf(3) by blast
      from st(4) [OF definite_not_indefinite wf(1) str skip_definite \<open>depth < kMaxDepth\<close> this]
      have "find_ber_loop (bers_bytes (Constr t i kids # ks)) f depth = find_ber_loop (bers_bytes ks) (found_ber kids False) depth"
        unfolding b .
      then show ?thesis using 3(2) [of depth] 3(3,4) False str by simp
    qed
  qed
qed

text \<open>Values whose encoding is DER already, as far as lengths and strings go.\<close>

fun is_der :: "ber \<Rightarrow> bool" where
  "is_der (Prim t x) \<longleftrightarrow> True"
| "is_der (Constr t indefinite ks) \<longleftrightarrow> \<not> indefinite \<and> \<not> is_string_type t \<and> (\<forall>k \<in> set ks. is_der k)"

lemma is_der_unchanged: "is_der k \<Longrightarrow> ber_to_der 0 k = ber_bytes k"
proof (induction k)
  case (Constr t i ks)
  then have "map (ber_to_der 0) ks = map ber_bytes ks" by simp
  then have "concat (map (ber_to_der 0) ks) = bers_bytes ks" by (rule arg_cong)
  with Constr.prems show ?case by simp
qed simp

lemma is_der_not_found: "\<forall>k \<in> set ks. is_der k \<Longrightarrow> \<not> found_ber ks False"
  by (induction ks "False" rule: found_ber.induct) auto

lemma ber_bytes_parse:
  assumes "ber_wf s k" "\<not> (\<exists>t ks. k = Constr t True ks)"
  shows "\<exists>t hl. CBS_get_any_asn1_element (ber_bytes k @ r) = (Some (ber_bytes k, t, hl), r)"
proof -
  from assms obtain t x where "ber_bytes k = der_element t x" "length x < 2 ^ 32" by (cases k) auto
  then show ?thesis unfolding CBS_get_any_asn1_element_def any_element_iff by blast
qed

lemma found_hd: "\<not> found_ber (k # ks) False \<Longrightarrow> \<not> (\<exists>t ts. k = Constr t True ts)"
  by auto

lemma ber_to_der_total:
  assumes m: "malloc_ok m" and wf: "\<forall>k \<in> set (k # ks). ber_wf 0 k" "\<forall>k \<in> set (k # ks). ber_height k \<le> kMaxDepth"
    and len: "length (bers_bytes (k # ks)) < 2 ^ 60" "length (concat (map (ber_to_der 0) (k # ks))) < 2 ^ 60"
    and mem: "\<forall>n \<le> length (bers_bytes (k # ks)) + 2 * length (concat (map (ber_to_der 0) (k # ks))) + 40. m n \<noteq> None"
  shows "case CBS_asn1_ber_to_der m (bers_bytes (k # ks)) of
      (None, c) \<Rightarrow> False
    | (Some (out, storage), c) \<Rightarrow>
        if found_ber (k # ks) False then out = concat (map (ber_to_der 0) (k # ks)) \<and> storage \<noteq> None \<and> c = []
        else out = ber_bytes k \<and> storage = None \<and> c = bers_bytes ks"
proof -
  let ?c = "bers_bytes (k # ks)"
  let ?z = "concat (map (ber_to_der 0) (k # ks))"
  have "find_ber_loop ?c False 0 = (True, found_ber (k # ks) False)"
    by (rule find_ber_loop_bers) (use wf in auto)
  then have find: "cbs_find_ber ?c False 0 = (True, found_ber (k # ks) False)" by (simp add: cbs_find_ber_def)
  show ?thesis
  proof (cases "found_ber (k # ks) False")
    case False
    obtain t hl where "CBS_get_any_asn1_element ?c = (Some (ber_bytes k, t, hl), bers_bytes ks)"
      using ber_bytes_parse [of 0 k "bers_bytes ks"] found_hd [OF False] wf(1) by auto
    then show ?thesis using find False by (simp add: CBS_asn1_ber_to_der_def)
  next
    case True
    have b: "length ?c < 1152921504606846976" "length ?z < 1152921504606846976" using len by simp_all
    have "\<forall>n \<le> length ?c + 40. m n \<noteq> None" using mem by auto
    moreover have "length ?c < 2 ^ 62" using b by simp
    ultimately obtain st where st: "CBB_init m (length ?c) = (True, st)" using CBB_init_success by blast
    have cap: "length ?c < 2 ^ 63" using b by simp
    have conv: "converts m 0 (cbs_convert_ber m 0 0 False 0 ?c) ?z []"
      using convert_ber_converts [OF m, of "k # ks" 0 0 0 False] wf by (simp add: eoc_tail_def)
    have lt: "length ?z < 2 ^ 62" "\<forall>n \<le> 2 * length ?z + 8. m n \<noteq> None" using mem b by auto
    from appends_run(2) [OF m conv [unfolded converts_def, THEN conjunct1] represents_init [OF m st cap] avail_init [OF st lt]]
    obtain c' st1 data st2 where r: "cbs_convert_ber m 0 0 False 0 ?c st = (True, c', st1)"
      "CBB_finish m 0 True True st1 = (Some (Some data, Some (length ?z)), st2)" "take (length ?z) data = ?z"
      by (auto split: prod.splits)
    have "c' = []" by (rule convertsD [OF conv r(1)]) simp
    then show ?thesis using find True st r by (simp add: CBS_asn1_ber_to_der_def CBS_len_def del: list.map concat.simps)
  qed
qed

lemma CBS_asn1_ber_to_der_None: "CBB_init m (length c) = (False, st) \<Longrightarrow> cbs_find_ber c False 0 = (True, True) \<Longrightarrow>
    CBS_asn1_ber_to_der m c = (None, c)"
  by (simp add: CBS_asn1_ber_to_der_def CBS_len_def)

subsection \<open>What is left of the input\<close>

lemma convert_ber_consumes:
  "cbs_convert_ber m d s e depth c out = (ok, c', out') \<Longrightarrow>
   suffix c' c \<and> (ok \<longrightarrow> (if e then length c' + 2 \<le> length c else c' = []))"
  by (rule convert_ber_estimate [OF convert_ber_dom [rule_format]])

subsection \<open>Implicitly tagged strings\<close>

lemma implicit_string_loop_sound:
  "implicit_string_loop m i c st = (True, st') \<Longrightarrow>
   \<exists>xs. c = concat (map (der_element i) xs) \<and> (\<forall>x \<in> set xs. length x < 2 ^ 32)"
proof (induction m i c st rule: implicit_string_loop.induct)
  case (1 m i c st)
  show ?case
  proof (cases "c = []")
    case False
    then obtain x c' where x: "CBS_get_asn1 c i = (Some x, c')"
      using 1(2) by (cases "CBS_get_asn1 c i"; cases "fst (CBS_get_asn1 c i)") (auto simp: implicit_string_loop.simps)
    with False 1(2) obtain st1 where st: "implicit_string_loop m i c' st1 = (True, st')"
      by (auto simp: implicit_string_loop.simps [of m i c] and_then_def split: prod.splits if_splits)
    from 1(1) [OF False x [symmetric] refl st] obtain xs where
      "c' = concat (map (der_element i) xs)" "\<forall>x \<in> set xs. length x < 2 ^ 32" by blast
    then have "c = concat (map (der_element i) (x # xs)) \<and> (\<forall>x \<in> set (x # xs). length x < 2 ^ 32)"
      using x by (simp add: CBS_get_asn1_iff)
    then show ?thesis by blast
  qed (auto intro: exI [of _ "[]"])
qed

lemma appends_implicit_string_loop:
  assumes "malloc_ok m"
  shows "\<forall>x \<in> set xs. length x < 2 ^ 32 \<Longrightarrow>
    appends m 0 (implicit_string_loop m i (concat (map (der_element i) xs))) (concat xs)"
proof (induction xs)
  case Nil
  then show ?case using appends_skip [of m 0] by (simp add: implicit_string_loop.simps)
next
  case (Cons x xs)
  let ?c = "concat (map (der_element i) xs)"
  have "CBS_get_asn1 (der_element i x @ ?c) i = (Some x, ?c)" using Cons.prems by (simp add: CBS_get_asn1_iff)
  then have "implicit_string_loop m i (der_element i x @ ?c) =
     (\<lambda>st. and_then (CBB_add_bytes m 0 x st) (implicit_string_loop m i ?c))"
    using der_element_nonempty(1) [of i x "[]"] by (intro ext, subst implicit_string_loop.simps) simp
  moreover have "appends m 0 \<dots> (x @ concat xs)"
    using Cons by (intro appends_seq appends_add_bytes assms) simp_all
  ultimately show ?case by simp
qed

lemma base_tag_differs: "t AND CBS_ASN1_CONSTRUCTED = 0 \<Longrightarrow> t OR CBS_ASN1_CONSTRUCTED \<noteq> t"
proof
  assume a: "t AND CBS_ASN1_CONSTRUCTED = 0" "t OR CBS_ASN1_CONSTRUCTED = t"
  have "(t OR CBS_ASN1_CONSTRUCTED) AND CBS_ASN1_CONSTRUCTED = CBS_ASN1_CONSTRUCTED"
    by (rule bit_word_eqI) (auto simp: bit_simps)
  then have "CBS_ASN1_CONSTRUCTED = 0" using a by simp
  then show False by (simp add: CBS_ASN1_CONSTRUCTED_def CBS_ASN1_TAG_SHIFT_def push_bit_eq_mult)
qed

lemma peek_other_tag:
  assumes "t \<noteq> t'" shows "\<not> CBS_peek_asn1_tag (der_element t x @ r) t'"
proof
  assume "CBS_peek_asn1_tag (der_element t x @ r) t'"
  then obtain r' where r: "der_tag t @ der_length (length x) @ x @ r = der_tag t' @ r'"
    by (auto simp: CBS_peek_asn1_tag_iff der_element_def der_header_def)
  have "(Some t, der_length (length x) @ x @ r) = (Some t', r')"
    using der_tag_roundtrip [of t "der_length (length x) @ x @ r"] der_tag_roundtrip [of t' r'] unfolding r by simp
  with assms show False by simp
qed

lemma implicit_string_sound:
  assumes m: "malloc_ok m" and c: "length c < 2 ^ 63"
    and r: "CBS_get_asn1_implicit_string m c outer inner = (Some (x, storage), c')"
  shows "(storage = None \<and> length x < 2 ^ 32 \<and> c = der_element outer x @ c') \<or>
    (\<exists>xs. storage \<noteq> None \<and> x = concat xs \<and> (\<forall>x \<in> set xs. length x < 2 ^ 32) \<and>
       length (concat (map (der_element inner) xs)) < 2 ^ 32 \<and>
       c = der_element (outer OR CBS_ASN1_CONSTRUCTED) (concat (map (der_element inner) xs)) @ c')"
proof (cases "CBS_peek_asn1_tag c outer")
  case True
  then show ?thesis using r
    by (auto simp: CBS_get_asn1_implicit_string_def CBS_get_asn1_iff split: prod.splits option.splits)
next
  case False
  with r obtain st where st: "CBB_init m (length c) = (True, st)"
    by (auto simp: CBS_get_asn1_implicit_string_def CBS_len_def split: prod.splits bool.splits)
  with r False obtain child c1 where ch: "CBS_get_asn1 c (outer OR CBS_ASN1_CONSTRUCTED) = (Some child, c1)"
    by (auto simp: CBS_get_asn1_implicit_string_def CBS_len_def split: prod.splits bool.splits option.splits)
  with r st False obtain st1 n data st2 where l: "implicit_string_loop m inner child st = (True, st1)"
    and f: "CBB_finish m 0 True True st1 = (Some (Some data, Some n), st2)"
    and x: "x = take n data" "storage = Some data" "c1 = c'"
    by (auto simp: CBS_get_asn1_implicit_string_def CBS_len_def split: prod.splits bool.splits option.splits)
  obtain xs where xs: "child = concat (map (der_element inner) xs)" "\<forall>x \<in> set xs. length x < 2 ^ 32"
    using implicit_string_loop_sound [OF l] by blast
  from appends_run(1) [OF m appends_implicit_string_loop [OF m xs(2)] represents_init [OF m st c] l [unfolded xs(1)] f]
  have "take n data = concat xs" by blast
  then show ?thesis using x ch xs by (auto simp: CBS_get_asn1_iff)
qed

lemma implicit_string_primitive:
  "length x < 2 ^ 32 \<Longrightarrow> CBS_get_asn1_implicit_string m (der_element outer x @ c') outer inner = (Some (x, None), c')"
  using CBS_get_asn1_iff [of "der_element outer x @ c'" outer x c']
  by (simp add: CBS_get_asn1_implicit_string_def peek_der_element)

lemma length_chunks: "length (concat xs) \<le> length (concat (map (der_element i) xs))"
  by (induction xs) auto

lemma implicit_string_constructed:
  fixes outer inner xs c'
  defines "c \<equiv> der_element (outer OR CBS_ASN1_CONSTRUCTED) (concat (map (der_element inner) xs)) @ c'"
  assumes m: "malloc_ok m" and xs: "\<forall>x \<in> set xs. length x < 2 ^ 32" "length (concat (map (der_element inner) xs)) < 2 ^ 32"
    and outer: "outer AND CBS_ASN1_CONSTRUCTED = 0" and c: "length c < 2 ^ 60" and mem: "\<forall>n \<le> 2 * length c + 40. m n \<noteq> None"
  shows "\<exists>data. CBS_get_asn1_implicit_string m c outer inner = (Some (concat xs, Some data), c')"
proof -
  have pk: "\<not> CBS_peek_asn1_tag c outer" unfolding c_def by (rule peek_other_tag [OF base_tag_differs [OF outer]])
  have ch: "CBS_get_asn1 c (outer OR CBS_ASN1_CONSTRUCTED) = (Some (concat (map (der_element inner) xs)), c')"
    using xs by (simp add: c_def CBS_get_asn1_iff)
  have b: "length c < 1152921504606846976" using c by simp
  have "length (concat xs) \<le> length (concat (map (der_element inner) xs))" by (rule length_chunks)
  also have "\<dots> \<le> length c" by (simp add: c_def)
  finally have z: "length (concat xs) \<le> length c" .
  have "\<forall>n \<le> length c + 40. m n \<noteq> None" "length c < 2 ^ 62" using mem b by auto
  from CBB_init_success [OF this] obtain st where st: "CBB_init m (length c) = (True, st)" by blast
  have cap: "length c < 2 ^ 63" using b by simp
  have lt: "length (concat xs) < 2 ^ 62" "\<forall>n \<le> 2 * length (concat xs) + 8. m n \<noteq> None" using mem b z by auto
  from appends_run(2) [OF m appends_implicit_string_loop [OF m xs(1), of inner] represents_init [OF m st cap] avail_init [OF st lt]]
  show ?thesis using pk ch st by (auto simp: CBS_get_asn1_implicit_string_def CBS_len_def)
qed

section \<open>Properties\<close>

text \<open>C7. Conversion to DER. Given the encoding of one or more BER values of bounded nesting and enough
  memory, \<^verbatim>\<open>CBS_asn1_ber_to_der\<close> always succeeds. Where its first pass reports BER it consumes the
  input and gives the DER encoding of the values, every length definite and every constructed
  string joined into a primitive one; otherwise it gives the first value as it stands.\<close>

theorem CBS_asn1_ber_to_der_correct:
  assumes "malloc_ok m" "\<forall>k \<in> set (k # ks). ber_wf 0 k" "\<forall>k \<in> set (k # ks). ber_height k \<le> kMaxDepth"
    and "length (bers_bytes (k # ks)) < 2 ^ 60" "length (concat (map (ber_to_der 0) (k # ks))) < 2 ^ 60"
    and "\<forall>n \<le> length (bers_bytes (k # ks)) + 2 * length (concat (map (ber_to_der 0) (k # ks))) + 40. m n \<noteq> None"
  shows "case CBS_asn1_ber_to_der m (bers_bytes (k # ks)) of
      (None, c) \<Rightarrow> False
    | (Some (out, storage), c) \<Rightarrow>
        if found_ber (k # ks) False then out = concat (map (ber_to_der 0) (k # ks)) \<and> storage \<noteq> None \<and> c = []
        else out = ber_bytes k \<and> storage = None \<and> c = bers_bytes ks"
  by (rule ber_to_der_total [OF assms])

theorem CBS_asn1_ber_to_der_correct_witness:
  "\<exists>out storage. CBS_asn1_ber_to_der calloc_small [0x24, 0x80, 4, 1, 0xaa, 0x24, 3, 4, 1, 0xbb, 0, 0] = (Some (out, storage), []) \<and>
     out = [4, 2, 0xaa, 0xbb]"
proof -
  let ?k = "Constr 0x20000004 True [Prim 4 [0xaa], Constr 0x20000004 False [Prim 4 [0xbb]]]"
  have bits: "(0x20000004 :: u32) AND CBS_ASN1_CONSTRUCTED \<noteq> 0" "base_tag 0x20000004 = 4"
      "(4 :: u32) AND CBS_ASN1_CONSTRUCTED = 0" "base_tag 4 = 4"
    by (simp_all add: CBS_ASN1_CONSTRUCTED_def CBS_ASN1_TAG_SHIFT_def push_bit_eq_mult)
  then have str: "is_string_type 0x20000004" "is_string_type 4" "string_context 0 0x20000004 = 4" "string_context 4 0x20000004 = 4"
    by (simp_all add: is_string_type_def string_context_def CBS_ASN1_OCTETSTRING_def)
  have tags: "der_tag 0x20000004 = [0x24]" "der_tag 4 = [4]" by (simp_all add: der_tag_def tag_num_def tag_class_def)
  have b: "bers_bytes [?k] = [0x24, 0x80, 4, 1, 0xaa, 0x24, 3, 4, 1, 0xbb, 0, 0]"
    by (simp add: der_element_def der_header_def der_length_def tags)
  have z: "concat (map (ber_to_der 0) [?k]) = [4, 2, 0xaa, 0xbb]"
    using bits str by (simp add: der_element_def der_header_def der_length_def tags)
  have wf: "\<forall>k \<in> set [?k]. ber_wf 0 k"
    using bits str by (simp add: der_element_def der_header_def der_length_def tags)
  have h: "\<forall>k \<in> set [?k]. ber_height k \<le> kMaxDepth" by (simp add: kMaxDepth_def)
  have "length (bers_bytes [?k]) < 2 ^ 60" "length (concat (map (ber_to_der 0) [?k])) < 2 ^ 60" unfolding b z by simp_all
  moreover have "\<forall>n \<le> length (bers_bytes [?k]) + 2 * length (concat (map (ber_to_der 0) [?k])) + 40. calloc_small n \<noteq> None"
    unfolding b z by (simp add: calloc_small_def)
  ultimately have "case CBS_asn1_ber_to_der calloc_small (bers_bytes [?k]) of
      (None, c) \<Rightarrow> False
    | (Some (out, storage), c) \<Rightarrow>
        if found_ber [?k] False then out = concat (map (ber_to_der 0) [?k]) \<and> storage \<noteq> None \<and> c = []
        else out = ber_bytes ?k \<and> storage = None \<and> c = bers_bytes []"
    by (rule CBS_asn1_ber_to_der_correct [OF calloc_small_ok wf h])
  then show ?thesis unfolding b z by (auto split: prod.splits option.splits)
qed


text \<open>C38. The conversion terminates and accounts for its input. Whatever it is given,
  \<^verbatim>\<open>cbs_convert_ber\<close> returns with a suffix of its input; on success it has consumed all of it or, when it
  looks for an end-of-contents marker, at least the two bytes of one; beyond the depth limit it
  refuses.\<close>

theorem cbs_convert_ber_consumes:
  "case cbs_convert_ber m d string_tag looking_for_eoc depth c out of (ok, c', out') \<Rightarrow>
     suffix c' c \<and> (if depth > kMaxDepth then \<not> ok \<and> c' = c
       else if \<not> ok then True else if looking_for_eoc then length c' + 2 \<le> length c else c' = [])"
proof -
  obtain ok c' out' where r: "cbs_convert_ber m d string_tag looking_for_eoc depth c out = (ok, c', out')" by (metis prod_cases3)
  have "kMaxDepth < depth \<Longrightarrow> \<not> ok \<and> c' = c" using r by (simp add: cbs_convert_ber.simps)
  then show ?thesis using convert_ber_consumes [OF r] by (simp add: r split: if_splits)
qed

text \<open>C39. Implicitly tagged strings. \<^verbatim>\<open>CBS_get_asn1_implicit_string\<close> reads the primitive form as it stands
  and the constructed form as the concatenation of its chunks, which must all carry the inner tag;
  with memory to spare it accepts exactly those two forms.\<close>

theorem CBS_get_asn1_implicit_string_exact:
  assumes "malloc_ok m" "outer AND CBS_ASN1_CONSTRUCTED = 0" "length c < 2 ^ 60" "\<forall>n \<le> 2 * length c + 40. m n \<noteq> None"
  shows "(\<exists>storage. CBS_get_asn1_implicit_string m c outer inner = (Some (x, storage), c')) \<longleftrightarrow>
    (length x < 2 ^ 32 \<and> c = der_element outer x @ c') \<or>
    (\<exists>xs. x = concat xs \<and> (\<forall>x \<in> set xs. length x < 2 ^ 32) \<and> length (concat (map (der_element inner) xs)) < 2 ^ 32 \<and>
       c = der_element (outer OR CBS_ASN1_CONSTRUCTED) (concat (map (der_element inner) xs)) @ c')"
    (is "?L \<longleftrightarrow> ?P \<or> ?C")
proof
  assume ?L
  have "length c < 1152921504606846976" using assms(3) by simp
  then have "length c < 2 ^ 63" by simp
  with \<open>?L\<close> show "?P \<or> ?C" using implicit_string_sound [OF assms(1)] by blast
next
  assume "?P \<or> ?C"
  then show ?L
  proof
    assume ?P
    then show ?L using implicit_string_primitive by blast
  next
    assume ?C
    then show ?L using implicit_string_constructed [OF assms(1) _ _ assms(2)] assms(3,4) by blast
  qed
qed

theorem CBS_get_asn1_implicit_string_exact_witness:
  "\<exists>storage. CBS_get_asn1_implicit_string calloc_small [0xa0, 6, 4, 1, 7, 4, 1, 8, 9] 0x80000000 4 = (Some ([7, 8], storage), [9])"
proof -
  let ?c = "[0xa0, 6, 4, 1, 7, 4, 1, 8, 9] :: byte list"
  have bits: "(0x80000000 :: u32) AND CBS_ASN1_CONSTRUCTED = 0" "(0x80000000 :: u32) OR CBS_ASN1_CONSTRUCTED = 0xa0000000"
    by (simp_all add: CBS_ASN1_CONSTRUCTED_def CBS_ASN1_TAG_SHIFT_def push_bit_eq_mult)
  have "?c = der_element (0x80000000 OR CBS_ASN1_CONSTRUCTED) (concat (map (der_element 4) [[7], [8]])) @ [9]"
    unfolding bits by (simp add: der_element_def der_header_def der_length_def der_tag_def tag_num_def tag_class_def)
  moreover have "length (concat (map (der_element 4) [[7], [8]])) < 2 ^ 32"
    by (simp add: der_header_def der_length_def der_tag_def tag_num_def tag_class_def)
  ultimately have ex: "\<exists>xs. [7, 8] = concat xs \<and> (\<forall>x \<in> set xs. length x < 2 ^ 32) \<and> length (concat (map (der_element 4) xs)) < 2 ^ 32 \<and>
       ?c = der_element (0x80000000 OR CBS_ASN1_CONSTRUCTED) (concat (map (der_element 4) xs)) @ [9]"
    by (intro exI [of _ "[[7], [8]]"] conjI) simp_all
  have "length ?c < 2 ^ 60" "\<forall>n \<le> 2 * length ?c + 40. calloc_small n \<noteq> None" by (simp_all add: calloc_small_def)
  from iffD2 [OF CBS_get_asn1_implicit_string_exact [OF calloc_small_ok bits(1) this] disjI2 [OF ex]] show ?thesis .
qed

end
