(* ===== verification/X509Host.thy ===== *)
theory X509Host
  imports CbbSetOf
begin

text \<open>Matching of certificates with host names, mail addresses and IP addresses,
  \<^verbatim>\<open>crypto/x509v3/v3_utl.c\<close>. Names are byte lists of their lengths; a pointer into a pattern is its
  index, \<^verbatim>\<open>NULL\<close> is \<open>None\<close>. A certificate is what the code asks of it: the subject alternative names, if
  the extension is there, and the entries of its subject. The conversion of an \<^verbatim>\<open>ASN1_STRING\<close> to UTF-8,
  \<^verbatim>\<open>asn1/a_strex.c\<close>, is a parameter.\<close>

unbundle bit_operations_syntax

definition X509_CHECK_FLAG_NO_WILDCARDS :: u32 where "X509_CHECK_FLAG_NO_WILDCARDS = 0x2"
definition X509_CHECK_FLAG_NO_PARTIAL_WILDCARDS :: u32 where "X509_CHECK_FLAG_NO_PARTIAL_WILDCARDS = 0x4"
definition X509_CHECK_FLAG_MULTI_LABEL_WILDCARDS :: u32 where "X509_CHECK_FLAG_MULTI_LABEL_WILDCARDS = 0x8"
definition X509_CHECK_FLAG_SINGLE_LABEL_SUBDOMAINS :: u32 where "X509_CHECK_FLAG_SINGLE_LABEL_SUBDOMAINS = 0x10"
definition X509_CHECK_FLAG_NEVER_CHECK_SUBJECT :: u32 where "X509_CHECK_FLAG_NEVER_CHECK_SUBJECT = 0x20"
definition X509_CHECK_FLAG_DOT_SUBDOMAINS :: u32 where "X509_CHECK_FLAG_DOT_SUBDOMAINS = 0x8000"

definition has_flag :: "u32 \<Rightarrow> u32 \<Rightarrow> bool" where "has_flag flags f \<longleftrightarrow> flags AND f \<noteq> 0"

subsection \<open>Comparing names\<close>

fun skip_prefix_loop :: "u32 \<Rightarrow> byte list \<Rightarrow> nat \<Rightarrow> byte list" where
  "skip_prefix_loop flags [] subject_len = []"
| "skip_prefix_loop flags (c # pattern) subject_len =
     (if Suc (length pattern) > subject_len \<and> c \<noteq> 0 then
        (if has_flag flags X509_CHECK_FLAG_SINGLE_LABEL_SUBDOMAINS \<and> c = 0x2e then c # pattern
         else skip_prefix_loop flags pattern subject_len)
      else c # pattern)"

definition skip_prefix :: "byte list \<Rightarrow> byte list \<Rightarrow> u32 \<Rightarrow> byte list" where
  "skip_prefix p subject flags =
     (if \<not> has_flag flags X509_CHECK_FLAG_DOT_SUBDOMAINS then p
      else (let pattern = skip_prefix_loop flags p (length subject) in
            if length pattern = length subject then pattern else p))"

definition ascii_lower :: "byte \<Rightarrow> byte" where
  "ascii_lower c = (if 0x41 \<le> c \<and> c \<le> 0x5a then (c - 0x41) + 0x61 else c)"

fun nocase_loop :: "byte list \<Rightarrow> byte list \<Rightarrow> bool" where
  "nocase_loop (l # pattern) (r # subject) =
     (if l = 0 then False
      else if l \<noteq> r \<and> ascii_lower l \<noteq> ascii_lower r then False
      else nocase_loop pattern subject)"
| "nocase_loop _ _ = True"

definition equal_nocase :: "byte list \<Rightarrow> byte list \<Rightarrow> u32 \<Rightarrow> bool" where
  "equal_nocase pattern subject flags =
     (let pattern = skip_prefix pattern subject flags in
      if length pattern \<noteq> length subject then False else nocase_loop pattern subject)"

definition equal_case :: "byte list \<Rightarrow> byte list \<Rightarrow> u32 \<Rightarrow> bool" where
  "equal_case pattern subject flags =
     (let pattern = skip_prefix pattern subject flags in
      if length pattern \<noteq> length subject then False else OPENSSL_memcmp pattern subject (length pattern) = 0)"

fun find_at :: "byte list \<Rightarrow> byte list \<Rightarrow> nat \<Rightarrow> nat option" where
  "find_at a b 0 = None"
| "find_at a b (Suc i) = (if a ! i = 0x40 \<or> b ! i = 0x40 then Some i else find_at a b i)"

definition equal_email :: "byte list \<Rightarrow> byte list \<Rightarrow> u32 \<Rightarrow> bool" where
  "equal_email a b unused_flags =
     (if length a \<noteq> length b then False
      else (case find_at a b (length a) of
              None \<Rightarrow> equal_case a b 0
            | Some i \<Rightarrow>
               if \<not> equal_nocase (drop i a) (drop i b) 0 then False
               else (let i = (if i = 0 then length a else i) in equal_case (take i a) (take i b) 0)))"

subsection \<open>Wildcards\<close>

definition xn_prefix :: "byte list" where "xn_prefix = [0x78, 0x6e, 0x2d, 0x2d]"

definition wildcard_char :: "bool \<Rightarrow> byte \<Rightarrow> bool" where
  "wildcard_char allow_multi c \<longleftrightarrow>
     0x30 \<le> c \<and> c \<le> 0x39 \<or> 0x41 \<le> c \<and> c \<le> 0x5a \<or> 0x61 \<le> c \<and> c \<le> 0x7a \<or> c = 0x2d \<or> (allow_multi \<and> c = 0x2e)"

definition wildcard_match :: "byte list \<Rightarrow> byte list \<Rightarrow> byte list \<Rightarrow> u32 \<Rightarrow> bool" where
  "wildcard_match pre suf subject flags =
     (if length subject < length pre + length suf then False
      else if \<not> equal_nocase pre (take (length pre) subject) flags then False
      else
        (let wildcard = take (length subject - length suf - length pre) (drop (length pre) subject);
             wildcard_end = drop (length subject - length suf) subject in
         if \<not> equal_nocase wildcard_end suf flags then False
         else
           (let full = (pre = [] \<and> (case suf of [] \<Rightarrow> False | c # _ \<Rightarrow> c = 0x2e)) in
            if full \<and> wildcard = [] then False
            else
              (let allow_idna = full;
                   allow_multi = (full \<and> has_flag flags X509_CHECK_FLAG_MULTI_LABEL_WILDCARDS) in
               if \<not> allow_idna \<and> length subject \<ge> 4 \<and> OPENSSL_strncasecmp subject xn_prefix 4 = Some 0 then False
               else if wildcard = [0x2a] then True
               else (\<forall>c \<in> set wildcard. wildcard_char allow_multi c)))))"

record label_state =
  label_start :: bool
  label_hyphen :: bool
  label_idna :: bool

definition LABEL_START :: label_state where
  "LABEL_START = \<lparr>label_start = True, label_hyphen = False, label_idna = False\<rparr>"

definition is_alnum :: "byte \<Rightarrow> bool" where
  "is_alnum c \<longleftrightarrow> 0x61 \<le> c \<and> c \<le> 0x7a \<or> 0x41 \<le> c \<and> c \<le> 0x5a \<or> 0x30 \<le> c \<and> c \<le> 0x39"

fun valid_star_loop :: "u32 \<Rightarrow> byte list \<Rightarrow> nat \<Rightarrow> nat option \<Rightarrow> label_state \<Rightarrow> nat \<Rightarrow> nat option" where
  "valid_star_loop flags [] i star state dots =
     (if label_start state \<or> label_hyphen state \<or> dots < 2 then None else star)"
| "valid_star_loop flags (c # p) i star state dots =
     (if c = 0x2a then
        (let atstart = label_start state; atend = (case p of [] \<Rightarrow> True | d # _ \<Rightarrow> d = 0x2e) in
         if star \<noteq> None \<or> label_idna state \<or> dots \<noteq> 0 then None
         else if has_flag flags X509_CHECK_FLAG_NO_PARTIAL_WILDCARDS \<and> (\<not> atstart \<or> \<not> atend) then None
         else if \<not> atstart \<and> \<not> atend then None
         else valid_star_loop flags p (Suc i) (Some i) (state\<lparr>label_start := False\<rparr>) dots)
      else if is_alnum c then
        (let state = (if label_start state \<and> length (c # p) \<ge> 4 \<and> OPENSSL_strncasecmp (c # p) xn_prefix 4 = Some 0
                      then state\<lparr>label_idna := True\<rparr> else state)
         in valid_star_loop flags p (Suc i) star (state\<lparr>label_hyphen := False, label_start := False\<rparr>) dots)
      else if c = 0x2e then
        (if label_hyphen state \<or> label_start state then None
         else valid_star_loop flags p (Suc i) star LABEL_START (Suc dots))
      else if c = 0x2d then
        (if label_start state then None
         else valid_star_loop flags p (Suc i) star (state\<lparr>label_hyphen := True\<rparr>) dots)
      else None)"

definition valid_star :: "byte list \<Rightarrow> u32 \<Rightarrow> nat option" where
  "valid_star p flags = valid_star_loop flags p 0 None LABEL_START 0"

definition equal_wildcard :: "byte list \<Rightarrow> byte list \<Rightarrow> u32 \<Rightarrow> bool" where
  "equal_wildcard pattern subject flags =
     (let star = (if \<not> (length subject > 1 \<and> subject ! 0 = 0x2e) then valid_star pattern flags else None) in
      case star of
        None \<Rightarrow> equal_nocase pattern subject flags
      | Some i \<Rightarrow> wildcard_match (take i pattern) (drop (Suc i) pattern) subject flags)"

fun dns_name_loop :: "byte list \<Rightarrow> nat \<Rightarrow> nat \<Rightarrow> nat \<Rightarrow> bool" where
  "dns_name_loop [] len i start = True"
| "dns_name_loop (c # rest) len i start =
     (if 0x61 \<le> c \<and> c \<le> 0x7a \<or> 0x30 \<le> c \<and> c \<le> 0x39 \<or> 0x41 \<le> c \<and> c \<le> 0x5a \<or> (c = 0x2d \<and> i > start) \<or>
        c = 0x5f \<or> c = 0x3a then dns_name_loop rest len (Suc i) start
      else if c = 0x2e \<and> i > start \<and> i < len - 1 then dns_name_loop rest len (Suc i) (i + 1)
      else False)"

definition x509v3_looks_like_dns_name :: "byte list \<Rightarrow> bool" where
  "x509v3_looks_like_dns_name inp =
     (let inp = (if length inp > 0 \<and> inp ! (length inp - 1) = 0x2e then take (length inp - 1) inp else inp);
          inp = (if length inp \<ge> 2 \<and> inp ! 0 = 0x2a \<and> inp ! 1 = 0x2e then drop 2 inp else inp) in
      if length inp = 0 then False else dns_name_loop inp (length inp) 0 0)"

subsection \<open>Checking a certificate\<close>

record asn1_string =
  as_type :: int
  as_data :: "byte list option"
  as_flags :: int

definition GEN_EMAIL :: int where "GEN_EMAIL = 1"
definition GEN_DNS :: int where "GEN_DNS = 2"
definition GEN_IPADD :: int where "GEN_IPADD = 7"
definition V_ASN1_OCTET_STRING :: int where "V_ASN1_OCTET_STRING = 4"
definition V_ASN1_IA5STRING :: int where "V_ASN1_IA5STRING = 22"
definition NID_undef :: int where "NID_undef = 0"
definition NID_commonName :: int where "NID_commonName = 13"
definition NID_pkcs9_emailAddress :: int where "NID_pkcs9_emailAddress = 48"

record x509 =
  subject_alt_names :: "(int \<times> asn1_string) list option"
  subject_entries :: "(int \<times> asn1_string) list"

type_synonym equal_fn = "byte list \<Rightarrow> byte list \<Rightarrow> u32 \<Rightarrow> bool"

text \<open>The result and, if it is positive, what is stored in \<^verbatim>\<open>*peername\<close>.\<close>

definition do_check_string ::
    "libc_malloc \<Rightarrow> (asn1_string \<Rightarrow> byte list option) \<Rightarrow> asn1_string \<Rightarrow> int \<Rightarrow> equal_fn \<Rightarrow> u32 \<Rightarrow> int \<Rightarrow> byte list \<Rightarrow>
     int \<times> byte list option" where
  "do_check_string m to_utf8 a cmp_type equal flags check_type b =
     (case as_data a of
        None \<Rightarrow> (0, None)
      | Some data \<Rightarrow>
         if data = [] then (0, None)
         else if cmp_type > 0 then
           (if cmp_type \<noteq> as_type a then (0, None)
            else
              (let rv = (if cmp_type = V_ASN1_IA5STRING then equal data b flags
                         else int (length data) = sint (word_of_nat (length b) :: u32) \<and> OPENSSL_memcmp data b (length b) = 0)
               in if rv then (1, OPENSSL_strndup m (Some data) (length data)) else (0, None)))
         else
           (case to_utf8 a of
              None \<Rightarrow> (- 1, None)
            | Some astr \<Rightarrow>
               (let rv = (if check_type = GEN_DNS \<and> \<not> x509v3_looks_like_dns_name astr then False else equal astr b flags)
                in if rv then (1, OPENSSL_strndup m (Some astr) (length astr)) else (0, None))))"

fun check_names :: "(asn1_string \<Rightarrow> int \<times> byte list option) \<Rightarrow> int \<Rightarrow> (int \<times> asn1_string) list \<Rightarrow> int \<times> byte list option" where
  "check_names check wanted [] = (0, None)"
| "check_names check wanted ((tag, name) # names) =
     (if tag \<noteq> wanted then check_names check wanted names
      else (case check name of (rv, peername) \<Rightarrow> if rv \<noteq> 0 then (rv, peername) else check_names check wanted names))"

definition do_x509_check ::
    "libc_malloc \<Rightarrow> (asn1_string \<Rightarrow> byte list option) \<Rightarrow> x509 \<Rightarrow> byte list \<Rightarrow> u32 \<Rightarrow> int \<Rightarrow> int \<times> byte list option" where
  "do_x509_check m to_utf8 x chk flags check_type =
     (let flags = flags AND NOT X509_CHECK_FLAG_DOT_SUBDOMAINS;
          flags = (if check_type \<noteq> GEN_EMAIL \<and> check_type = GEN_DNS \<and> length chk > 1 \<and> chk ! 0 = 0x2e
                   then flags OR X509_CHECK_FLAG_DOT_SUBDOMAINS else flags);
          cnid = (if check_type = GEN_EMAIL then NID_pkcs9_emailAddress
                  else if check_type = GEN_DNS then NID_commonName else NID_undef);
          alt_type = (if check_type = GEN_EMAIL \<or> check_type = GEN_DNS then V_ASN1_IA5STRING else V_ASN1_OCTET_STRING);
          equal = (if check_type = GEN_EMAIL then equal_email
                   else if check_type = GEN_DNS then
                     (if has_flag flags X509_CHECK_FLAG_NO_WILDCARDS then equal_nocase else equal_wildcard)
                   else equal_case)
      in case subject_alt_names x of
           Some gens \<Rightarrow> check_names (\<lambda>a. do_check_string m to_utf8 a alt_type equal flags check_type chk) check_type gens
         | None \<Rightarrow>
             if cnid = NID_undef \<or> has_flag flags X509_CHECK_FLAG_NEVER_CHECK_SUBJECT then (0, None)
             else check_names (\<lambda>a. do_check_string m to_utf8 a (- 1) equal flags check_type chk) cnid (subject_entries x))"

definition X509_check_host ::
    "libc_malloc \<Rightarrow> (asn1_string \<Rightarrow> byte list option) \<Rightarrow> x509 \<Rightarrow> byte list option \<Rightarrow> u32 \<Rightarrow> int \<times> byte list option" where
  "X509_check_host m to_utf8 x chk flags =
     (case chk of
        None \<Rightarrow> (- 2, None)
      | Some chk \<Rightarrow> if 0 \<in> set chk then (- 2, None) else do_x509_check m to_utf8 x chk flags GEN_DNS)"

definition X509_check_email ::
    "libc_malloc \<Rightarrow> (asn1_string \<Rightarrow> byte list option) \<Rightarrow> x509 \<Rightarrow> byte list option \<Rightarrow> u32 \<Rightarrow> int" where
  "X509_check_email m to_utf8 x chk flags =
     (case chk of
        None \<Rightarrow> - 2
      | Some chk \<Rightarrow> if 0 \<in> set chk then - 2 else fst (do_x509_check m to_utf8 x chk flags GEN_EMAIL))"

definition X509_check_ip ::
    "libc_malloc \<Rightarrow> (asn1_string \<Rightarrow> byte list option) \<Rightarrow> x509 \<Rightarrow> byte list option \<Rightarrow> u32 \<Rightarrow> int" where
  "X509_check_ip m to_utf8 x chk flags =
     (case chk of None \<Rightarrow> - 2 | Some chk \<Rightarrow> fst (do_x509_check m to_utf8 x chk flags GEN_IPADD))"

subsection \<open>Names as labels\<close>

definition same_name :: "byte list \<Rightarrow> byte list \<Rightarrow> bool" where
  "same_name p s \<longleftrightarrow> 0 \<notin> set p \<and> map ascii_lower p = map ascii_lower s"

fun labels :: "byte list \<Rightarrow> byte list list" where
  "labels [] = [[]]"
| "labels (c # p) = (let ls = labels p in if c = 0x2e then [] # ls else (c # hd ls) # tl ls)"

declare labels.simps(2) [simp del]

lemma labels_Cons [simp]:
  "labels (c # p) = (if c = 0x2e then [] # labels p else (c # hd (labels p)) # tl (labels p))"
  by (simp add: labels.simps(2) Let_def)

definition ldh :: "byte \<Rightarrow> bool" where "ldh c \<longleftrightarrow> is_alnum c \<or> c = 0x2d"

definition idna_label :: "byte list \<Rightarrow> bool" where
  "idna_label l \<longleftrightarrow> map ascii_lower (take 4 l) = xn_prefix"

definition valid_label :: "byte list \<Rightarrow> bool" where
  "valid_label l \<longleftrightarrow> l \<noteq> [] \<and> (\<forall>c \<in> set l. ldh c) \<and> hd l \<noteq> 0x2d \<and> last l \<noteq> 0x2d"

definition star_label :: "u32 \<Rightarrow> byte list \<Rightarrow> byte list \<Rightarrow> bool" where
  "star_label flags pre suf \<longleftrightarrow>
     (pre = [] \<and> suf = [] \<or>
      \<not> has_flag flags X509_CHECK_FLAG_NO_PARTIAL_WILDCARDS \<and>
        (pre = [] \<and> suf \<noteq> [] \<and> (\<forall>c \<in> set suf. ldh c) \<and> last suf \<noteq> 0x2d \<or>
         suf = [] \<and> valid_label pre \<and> \<not> idna_label pre))"

lemma labels_nonempty [simp]: "labels p \<noteq> []"
  by (cases p) auto

lemma labels_cases: obtains l ls where "labels p = l # ls"
  by (cases "labels p") auto

lemma labels_no_dot: "0x2e \<notin> set l \<Longrightarrow> labels (l @ p) = (l @ hd (labels p)) # tl (labels p)"
  by (induction l) (auto simp: labels_nonempty)

lemma labels_dot: "labels (a @ 0x2e # b) = labels a @ labels b"
  by (induction a) auto

lemma label_no_dot: "l \<in> set (labels p) \<Longrightarrow> 0x2e \<notin> set l"
proof (induction p arbitrary: l)
  case (Cons c p)
  have "hd (labels p) \<in> set (labels p)" by simp
  moreover have "x \<in> set (labels p)" if "x \<in> set (tl (labels p))" for x using that by (cases "labels p") auto
  ultimately show ?case using Cons by (auto split: if_splits)
qed simp

lemma ascii_lower_unat: "unat (ascii_lower c) = (if 65 \<le> unat c \<and> unat c \<le> 90 then unat c + 32 else unat c)"
proof -
  have "unat (c - 0x41 + 0x61) = unat c + 32" if "65 \<le> unat c" "unat c \<le> 90"
  proof -
    have "c - 0x41 + 0x61 = c + 0x20" by simp
    then show ?thesis using that by (simp add: unat_word_ariths)
  qed
  then show ?thesis by (simp add: ascii_lower_def word_le_nat_alt)
qed

lemma ascii_lower_other: "c \<in> {0, 0x2e, 0x2a, 0x2d} \<Longrightarrow> ascii_lower x = ascii_lower c \<longleftrightarrow> x = c"
  by (auto simp: word_unat_eq_iff ascii_lower_unat split: if_splits)

lemma tolower_sint: "OPENSSL_tolower (sint c) = sint (ascii_lower c)" for c :: byte
proof -
  have s: "sint d = (if k < 128 then int k else int k - 256)" if "unat d = k" for d :: byte and k
  proof -
    have u: "uint d = int k" "k < 256" using that unat_byte_less [of d] by auto
    have "sint d = (int k + 128) mod 256 - 128"
      by (simp add: sint_uint signed_take_bit_eq_take_bit_shift take_bit_eq_mod u(1))
    moreover have "(int k + 128) mod 256 = (if k < 128 then int k + 128 else int k - 128)"
    proof (cases "k < 128")
      case False
      have "(int k + 128) mod 256 = (int k - 128 + 256) mod 256" by (rule arg_cong [where f = "\<lambda>x. x mod 256"]) simp
      also have "\<dots> = int k - 128" unfolding mod_add_self2 using False u(2) by (intro mod_pos_pos_trivial) simp_all
      finally show ?thesis using False by simp
    qed (simp add: mod_pos_pos_trivial)
    ultimately show ?thesis by simp
  qed
  define k where "k = unat c"
  have "k < 256" unfolding k_def by (rule unat_byte_less)
  then show ?thesis using s [of c k] s [OF ascii_lower_unat, of c] unfolding OPENSSL_tolower_def k_def [symmetric] by simp
qed

lemma strncasecmp_xn:
  "4 \<le> length p \<Longrightarrow> OPENSSL_strncasecmp p xn_prefix 4 = Some 0 \<longleftrightarrow> idna_label p"
proof -
  assume "4 \<le> length p"
  then obtain a b c d q where p: "p = a # b # c # d # q"
    by (auto simp: numeral_eq_Suc Suc_le_length_iff)
  have eq: "sint x = sint y \<longleftrightarrow> x = y" for x y :: byte by (rule word_eq_iff_signed [symmetric])
  have low: "ascii_lower 0x78 = 0x78" "ascii_lower 0x6e = 0x6e" "ascii_lower 0x2d = 0x2d"
    by (simp_all add: ascii_lower_def)
  have nz: "sint (0x78 :: byte) \<noteq> 0" "sint (0x6e :: byte) \<noteq> 0" "sint (0x2d :: byte) \<noteq> 0" by simp_all
  have step: "OPENSSL_strncasecmp (x # as) (y # bs) (Suc n) = Some 0 \<longleftrightarrow> ascii_lower x = y \<and> OPENSSL_strncasecmp as bs n = Some 0"
    if "ascii_lower y = y" "sint y \<noteq> 0" for x y as bs n
    using that eq [of "ascii_lower x" y] by (auto simp: tolower_sint Let_def)
  show ?thesis unfolding p idna_label_def xn_prefix_def
    by (simp add: numeral_eq_Suc step low nz del: OPENSSL_strncasecmp.simps(2))
qed

subsection \<open>The search for the wildcard\<close>

definition cont_ok :: "label_state \<Rightarrow> byte list \<Rightarrow> bool" where
  "cont_ok st l \<longleftrightarrow>
     (\<forall>c \<in> set l. ldh c) \<and> (label_start st \<longrightarrow> l \<noteq> [] \<and> hd l \<noteq> 0x2d) \<and>
     (if l = [] then \<not> label_hyphen st else last l \<noteq> 0x2d)"

lemma cont_ok_start [simp]: "cont_ok LABEL_START l \<longleftrightarrow> valid_label l"
  by (auto simp: cont_ok_def LABEL_START_def valid_label_def)

lemma not_ldh [simp]: "\<not> ldh 0x2a" "\<not> ldh 0x2e" "\<not> is_alnum 0x2a" "\<not> is_alnum 0x2e" "\<not> is_alnum 0x2d" "ldh 0x2d"
  by (simp_all add: ldh_def is_alnum_def)

lemma star_loop_done:
  "star \<noteq> None \<or> dots \<noteq> 0 \<Longrightarrow>
   valid_star_loop flags p i star st dots =
     (if cont_ok st (hd (labels p)) \<and> (\<forall>x \<in> set (tl (labels p)). valid_label x) \<and> 2 \<le> dots + length (tl (labels p))
      then star else None)"
proof (induction p arbitrary: i st dots)
  case Nil
  then show ?case by (auto simp: cont_ok_def)
next
  case (Cons c p)
  obtain l ls where ls: "labels p = l # ls" by (rule labels_cases)
  consider "c = 0x2a" | "is_alnum c" "c \<noteq> 0x2a" "c \<noteq> 0x2e" | "c = 0x2e" | "c = 0x2d" | "\<not> ldh c" "c \<noteq> 0x2a" "c \<noteq> 0x2e" by (auto simp: ldh_def)
  then show ?case
  proof cases
    case 1
    then show ?thesis using Cons.prems by (auto simp: cont_ok_def Let_def)
  next
    case 2
    have "cont_ok (s\<lparr>label_hyphen := False, label_start := False\<rparr>) l \<longleftrightarrow> cont_ok st (c # l)" for s
      using 2 by (auto simp: cont_ok_def ldh_def)
    then show ?thesis using Cons.IH Cons.prems 2 ls by (simp add: Let_def)
  next
    case 3
    have "cont_ok st [] \<longleftrightarrow> \<not> label_start st \<and> \<not> label_hyphen st" by (auto simp: cont_ok_def)
    then show ?thesis using Cons.IH [of "Suc dots"] Cons.prems 3 ls by simp
  next
    case 4
    have "cont_ok (st\<lparr>label_hyphen := True\<rparr>) l \<longleftrightarrow> cont_ok st (c # l)" if "\<not> label_start st"
      using 4 that by (auto simp: cont_ok_def)
    moreover have "\<not> cont_ok st (c # l)" if "label_start st" using 4 that by (simp add: cont_ok_def)
    ultimately show ?thesis using Cons.IH Cons.prems 4 ls by simp
  next
    case 5
    then have "\<not> cont_ok st (c # l)" "\<not> is_alnum c" "c \<noteq> 0x2d" by (auto simp: cont_ok_def ldh_def)
    then show ?thesis using 5 ls by simp
  qed
qed

definition first_ok :: "u32 \<Rightarrow> label_state \<Rightarrow> byte list \<Rightarrow> byte list \<Rightarrow> bool" where
  "first_ok flags st w r \<longleftrightarrow>
     (\<forall>c \<in> set w. ldh c) \<and> (label_start st \<and> w \<noteq> [] \<longrightarrow> hd w \<noteq> 0x2d) \<and>
     \<not> (label_idna st \<or> label_start st \<and> idna_label w) \<and>
     (has_flag flags X509_CHECK_FLAG_NO_PARTIAL_WILDCARDS \<longrightarrow> label_start st \<and> w = [] \<and> r = []) \<and>
     (label_start st \<and> w = [] \<or> r = []) \<and>
     (\<forall>c \<in> set r. ldh c) \<and> (if r = [] then \<not> (if w = [] then label_hyphen st else last w = 0x2d) else last r \<noteq> 0x2d)"

abbreviation before_star :: "byte list \<Rightarrow> byte list" where "before_star \<equiv> takeWhile (\<lambda>c. c \<noteq> 0x2a)"
abbreviation after_star :: "byte list \<Rightarrow> byte list" where "after_star l \<equiv> tl (dropWhile (\<lambda>c. c \<noteq> 0x2a) l)"

lemma idna_label_before_star:
  assumes "0x2a \<in> set l" "length (l @ q) \<ge> 4"
  shows "idna_label (l @ q) \<longleftrightarrow> idna_label (before_star l)"
proof -
  define w r where "w = before_star l" and "r = after_star l"
  have "dropWhile (\<lambda>c. c \<noteq> 0x2a) l \<noteq> []" using assms(1) by auto
  then have "dropWhile (\<lambda>c. c \<noteq> 0x2a) l = 0x2a # r"
    using hd_dropWhile [of "\<lambda>c. c \<noteq> 0x2a" l] unfolding r_def by (cases "dropWhile (\<lambda>c. c \<noteq> 0x2a) l") auto
  then have l: "l @ q = w @ 0x2a # r @ q" unfolding w_def by (metis append_Cons append_assoc takeWhile_dropWhile_id)
  show ?thesis
  proof (cases "4 \<le> length w")
    case True
    then show ?thesis unfolding w_def [symmetric] l by (simp add: idna_label_def)
  next
    case False
    then have "0x2a \<in> set (take 4 (l @ q))" unfolding l by (auto simp: take_Cons')
    moreover have "x \<noteq> 0x2a" if "ascii_lower x \<in> set xn_prefix" for x
      using that by (auto simp: xn_prefix_def ascii_lower_def)
    ultimately have "\<not> idna_label (l @ q)"
      unfolding idna_label_def by (metis image_eqI list.set_map)
    moreover have "\<not> idna_label w"
    proof
      assume "idna_label w"
      then have "length (map ascii_lower (take 4 w)) = length xn_prefix" by (simp add: idna_label_def)
      then show False using False by (simp add: xn_prefix_def)
    qed
    ultimately show ?thesis unfolding w_def [symmetric] by blast
  qed
qed

lemma labels_prefix: "\<exists>q. p = hd (labels p) @ q"
proof (induction p)
  case (Cons c p)
  then obtain q where "p = hd (labels p) @ q" by blast
  then show ?case by (cases "c = 0x2e") auto
qed simp

lemma star_loop_first:
  "valid_star_loop flags p i None st 0 =
     (let l = hd (labels p); ls = tl (labels p) in
      if 0x2a \<in> set l \<and> first_ok flags st (before_star l) (after_star l) \<and> (\<forall>x \<in> set ls. valid_label x) \<and> 2 \<le> length ls
      then Some (i + length (before_star l)) else None)"
proof (induction p arbitrary: i st)
  case Nil
  then show ?case by simp
next
  case (Cons c p)
  obtain l ls where ls: "labels p = l # ls" by (rule labels_cases)
  obtain q where q: "p = l @ q" using labels_prefix [of p] ls by auto
  consider "c = 0x2a" | "is_alnum c" "c \<noteq> 0x2a" "c \<noteq> 0x2e" | "c = 0x2e" | "c = 0x2d" | "\<not> ldh c" "c \<noteq> 0x2a" "c \<noteq> 0x2e" by (auto simp: ldh_def)
  then show ?case
  proof cases
    case 1
    have atend: "(case p of [] \<Rightarrow> True | d # _ \<Rightarrow> d = 0x2e) \<longleftrightarrow> l = []"
      using ls by (cases p) (auto split: if_splits)
    have "cont_ok (st\<lparr>label_start := False\<rparr>) l \<longleftrightarrow> (\<forall>c \<in> set l. ldh c) \<and> (if l = [] then \<not> label_hyphen st else last l \<noteq> 0x2d)"
      by (auto simp: cont_ok_def)
    moreover have "\<not> idna_label []" by (simp add: idna_label_def xn_prefix_def)
    ultimately show ?thesis using 1 ls star_loop_done [of "Some i" 0 flags p "Suc i" "st\<lparr>label_start := False\<rparr>"]
      by (auto simp: first_ok_def atend Let_def)
  next
    case 2
    let ?st = "if label_start st \<and> length (c # p) \<ge> 4 \<and> OPENSSL_strncasecmp (c # p) xn_prefix 4 = Some 0
                      then st\<lparr>label_idna := True\<rparr> else st"
    have id: "length (c # p) \<ge> 4 \<and> OPENSSL_strncasecmp (c # p) xn_prefix 4 = Some 0 \<longleftrightarrow> idna_label (c # before_star l)"
      if "0x2a \<in> set l"
    proof (cases "length (c # p) \<ge> 4")
      case True
      then show ?thesis using strncasecmp_xn [OF True] idna_label_before_star [of "c # l" q] 2 that q by simp
    next
      case False
      then have "length (take 4 (c # before_star l)) < 4" using q length_takeWhile_le [of "\<lambda>c. c \<noteq> 0x2a" l] by simp
      then show ?thesis using False by (auto simp: idna_label_def xn_prefix_def dest: arg_cong [where f = length])
    qed
    have f: "first_ok flags (?st\<lparr>label_hyphen := False, label_start := False\<rparr>) (before_star l) (after_star l) \<longleftrightarrow>
        first_ok flags st (c # before_star l) (after_star l)" if "0x2a \<in> set l"
      using 2 id [OF that] by (auto simp: first_ok_def ldh_def)
    show ?thesis using Cons.IH [of "Suc i" "?st\<lparr>label_hyphen := False, label_start := False\<rparr>"] 2 ls f
      by (auto simp: Let_def)
  next
    case 3
    then show ?thesis using star_loop_done [of None "Suc 0" flags p "Suc i" LABEL_START] by simp
  next
    case 4
    have "first_ok flags (st\<lparr>label_hyphen := True\<rparr>) (before_star l) (after_star l) \<longleftrightarrow>
        first_ok flags st (c # before_star l) (after_star l)" if "\<not> label_start st"
      using that 4 by (auto simp: first_ok_def)
    moreover have "\<not> first_ok flags st (c # before_star l) (after_star l)" if "label_start st"
      using that 4 by (simp add: first_ok_def)
    ultimately show ?thesis using Cons.IH 4 ls by (auto simp: Let_def)
  next
    case 5
    then have "\<not> is_alnum c" "c \<noteq> 0x2d" by (auto simp: ldh_def)
    moreover have "\<not> first_ok flags st (c # before_star l) (after_star l)" using 5 by (simp add: first_ok_def)
    ultimately show ?thesis using 5 ls by (simp add: Let_def)
  qed
qed

lemma first_ok_start: "first_ok flags LABEL_START w r \<longleftrightarrow> star_label flags w r"
proof -
  have "idna_label [] = False" by (simp add: idna_label_def xn_prefix_def)
  then show ?thesis unfolding first_ok_def star_label_def LABEL_START_def valid_label_def by auto
qed

text \<open>\<^verbatim>\<open>valid_star\<close> finds a wildcard exactly in patterns of at least three labels, all valid and with the
  wildcard at the start or at the end of the first one.\<close>

definition star_pattern :: "u32 \<Rightarrow> byte list \<Rightarrow> bool" where
  "star_pattern flags p \<longleftrightarrow>
     (let l = hd (labels p); ls = tl (labels p) in
      0x2a \<in> set l \<and> star_label flags (before_star l) (after_star l) \<and> (\<forall>x \<in> set ls. valid_label x) \<and> 2 \<le> length ls)"

lemma valid_star_eq:
  "valid_star p flags = (if star_pattern flags p then Some (length (before_star (hd (labels p)))) else None)"
  unfolding valid_star_def star_loop_first star_pattern_def Let_def first_ok_start by simp

subsection \<open>What is matched\<close>

lemma nocase_loop_iff: "length p = length s \<Longrightarrow> nocase_loop p s \<longleftrightarrow> same_name p s"
  by (induction p s rule: list_induct2) (auto simp: same_name_def)

lemma same_name_length: "same_name p s \<Longrightarrow> length p = length s"
  unfolding same_name_def by (metis length_map)

lemma equal_nocase_iff:
  assumes "\<not> has_flag flags X509_CHECK_FLAG_DOT_SUBDOMAINS"
  shows "equal_nocase p s flags \<longleftrightarrow> same_name p s"
  using assms nocase_loop_iff [of p s] same_name_length [of p s] by (auto simp: equal_nocase_def skip_prefix_def Let_def)

lemma ascii_lower_0 [simp]: "ascii_lower x = 0 \<longleftrightarrow> x = 0"
  using ascii_lower_other [of 0 x] by (simp add: ascii_lower_def)

lemma ascii_lower_dot: "ascii_lower x = ascii_lower y \<Longrightarrow> x = 0x2e \<longleftrightarrow> y = 0x2e"
  using ascii_lower_other [of "0x2e" x] ascii_lower_other [of "0x2e" y] by auto

lemma same_name_sym: "same_name p s \<longleftrightarrow> same_name s p"
proof -
  have "0 \<notin> set s" if "0 \<notin> set p" "map ascii_lower p = map ascii_lower s" for p s
  proof
    assume "0 \<in> set s"
    then have "0 \<in> set (map ascii_lower s)" by force
    then show False using that by (metis (no_types, lifting) ascii_lower_0 image_iff list.set_map)
  qed
  then show ?thesis unfolding same_name_def by metis
qed

lemma same_name_simps [simp]:
  "same_name [] s \<longleftrightarrow> s = []" "same_name p [] \<longleftrightarrow> p = []"
  "same_name (c # p) (d # s) \<longleftrightarrow> c \<noteq> 0 \<and> ascii_lower c = ascii_lower d \<and> same_name p s"
  by (auto simp: same_name_def)

lemma same_name_append:
  "same_name (a @ b) s \<longleftrightarrow> (\<exists>s1 s2. s = s1 @ s2 \<and> same_name a s1 \<and> same_name b s2)"
  unfolding same_name_def by (auto simp: append_eq_map_conv)

lemma same_name_labels: "same_name p s \<longleftrightarrow> list_all2 same_name (labels p) (labels s)"
proof (induction p arbitrary: s)
  case Nil
  then show ?case by (cases s) (auto simp: list_all2_Cons1)
next
  case (Cons c p)
  obtain l ls where l: "labels p = l # ls" by (rule labels_cases)
  show ?case
  proof (cases s)
    case Nil
    then show ?thesis using l by (auto simp: list_all2_Cons2)
  next
    case (Cons d s')
    obtain k ks where k: "labels s' = k # ks" by (rule labels_cases)
    have "list_all2 same_name (labels p) (labels s') \<longleftrightarrow> same_name p s'" using Cons.IH by blast
    then show ?thesis using Cons l k ascii_lower_dot [of c d] by auto
  qed
qed

lemma same_name_no_dot: "same_name p s \<Longrightarrow> 0x2e \<in> set p \<longleftrightarrow> 0x2e \<in> set s"
proof (induction p arbitrary: s)
  case (Cons c p)
  then show ?case by (cases s) (auto dest: ascii_lower_dot)
qed simp

text \<open>The part of a name matched by a wildcard.\<close>

definition wild_part :: "byte list \<Rightarrow> bool" where
  "wild_part w \<longleftrightarrow> w = [0x2a] \<or> (\<forall>c \<in> set w. ldh c)"

lemma wild_part_no_dot: "wild_part w \<Longrightarrow> 0x2e \<notin> set w"
  by (auto simp: wild_part_def)

lemma wildcard_char_ldh: "wildcard_char False c \<longleftrightarrow> ldh c"
  by (auto simp: wildcard_char_def ldh_def is_alnum_def)

lemma idna_name: "length s \<ge> 4 \<and> OPENSSL_strncasecmp s xn_prefix 4 = Some 0 \<longleftrightarrow> idna_label s"
proof (cases "4 \<le> length s")
  case False
  then have "\<not> idna_label s" by (auto simp: idna_label_def xn_prefix_def dest: arg_cong [where f = length])
  then show ?thesis using False by simp
qed (simp add: strncasecmp_xn)

lemma wildcard_match_iff:
  assumes flags: "\<not> has_flag flags X509_CHECK_FLAG_DOT_SUBDOMAINS" "\<not> has_flag flags X509_CHECK_FLAG_MULTI_LABEL_WILDCARDS"
    and suf: "labels sufx = suf # ls" "ls \<noteq> []"
  shows "wildcard_match pre sufx s flags \<longleftrightarrow>
    (\<exists>pre' w sx. s = pre' @ w @ sx \<and> same_name pre pre' \<and> same_name sufx sx \<and> wild_part w \<and>
      (if pre = [] \<and> suf = [] then w \<noteq> [] else \<not> idna_label s))"
proof -
  have dot: "(case sufx of [] \<Rightarrow> False | c # _ \<Rightarrow> c = 0x2e) \<longleftrightarrow> suf = []"
    using suf by (cases sufx) (auto split: if_splits)
  define P where "P pre' w sx \<longleftrightarrow> same_name pre pre' \<and> same_name sufx sx \<and> wild_part w \<and>
      (if pre = [] \<and> suf = [] then w \<noteq> [] else \<not> idna_label s)" for pre' w sx
  define n k where "n = length pre" and "k = length sufx"
  have "wildcard_match pre sufx s flags \<longleftrightarrow>
      n + k \<le> length s \<and> P (take n s) (take (length s - k - n) (drop n s)) (drop (length s - k) s)"
    unfolding wildcard_match_def dot equal_nocase_iff [OF flags(1)] n_def [symmetric] k_def [symmetric] P_def
    using flags(2) same_name_sym [of sufx] idna_name [of s]
    by (auto simp: Let_def wild_part_def wildcard_char_ldh)
  also have "\<dots> \<longleftrightarrow> (\<exists>pre' w sx. s = pre' @ w @ sx \<and> P pre' w sx)"
  proof
    assume *: "n + k \<le> length s \<and> P (take n s) (take (length s - k - n) (drop n s)) (drop (length s - k) s)"
    have "drop n s = take (length s - k - n) (drop n s) @ drop (length s - k) s"
      using * append_take_drop_id [of "length s - k - n" "drop n s"] by simp
    then have "s = take n s @ take (length s - k - n) (drop n s) @ drop (length s - k) s" by (metis append_take_drop_id)
    then show "\<exists>pre' w sx. s = pre' @ w @ sx \<and> P pre' w sx" using * by blast
  next
    assume "\<exists>pre' w sx. s = pre' @ w @ sx \<and> P pre' w sx"
    then obtain pre' w sx where s: "s = pre' @ w @ sx" and P: "P pre' w sx" by blast
    have l: "length pre' = n" "length sx = k" using P same_name_length unfolding P_def n_def k_def by metis+
    then show "n + k \<le> length s \<and> P (take n s) (take (length s - k - n) (drop n s)) (drop (length s - k) s)"
      using P s by simp
  qed
  finally show ?thesis unfolding P_def by blast
qed

lemma star_split:
  assumes "star_pattern flags p"
  obtains pre suf ls where "labels p = (pre @ 0x2a # suf) # ls" "star_label flags pre suf" "\<forall>x \<in> set ls. valid_label x" "2 \<le> length ls"
    "pre = before_star (hd (labels p))" "take (length pre) p = pre" "labels (drop (Suc (length pre)) p) = suf # ls" "0x2e \<notin> set pre"
proof -
  define l where "l = hd (labels p)"
  define pre suf where "pre = before_star l" and "suf = after_star l"
  have s: "0x2a \<in> set l" "star_label flags pre suf" "\<forall>x \<in> set (tl (labels p)). valid_label x" "2 \<le> length (tl (labels p))"
    using assms unfolding star_pattern_def Let_def l_def pre_def suf_def by blast+
  have "dropWhile (\<lambda>c. c \<noteq> 0x2a) l \<noteq> []" using s(1) by auto
  then have "dropWhile (\<lambda>c. c \<noteq> 0x2a) l = 0x2a # suf"
    using hd_dropWhile [of "\<lambda>c. c \<noteq> 0x2a" l] unfolding suf_def by (cases "dropWhile (\<lambda>c. c \<noteq> 0x2a) l") auto
  then have l: "l = pre @ 0x2a # suf" unfolding pre_def by (metis takeWhile_dropWhile_id)
  then have L: "labels p = (pre @ 0x2a # suf) # tl (labels p)" unfolding l_def by (metis labels_nonempty list.collapse)
  have nd: "0x2e \<notin> set (pre @ 0x2a # suf)" using label_no_dot [of "pre @ 0x2a # suf" p] L by (metis list.set_intros(1))
  obtain q where q: "p = pre @ 0x2a # suf @ q" using labels_prefix [of p] l unfolding l_def by auto
  have "labels p = ((pre @ [0x2a]) @ hd (labels (suf @ q))) # tl (labels (suf @ q))"
    using labels_no_dot [of "pre @ [0x2a]" "suf @ q"] nd q by simp
  then have "labels (suf @ q) = suf # tl (labels p)" using L labels_nonempty [of "suf @ q"] by (cases "labels (suf @ q)") auto
  moreover have "take (length pre) p = pre" "drop (Suc (length pre)) p = suf @ q" using q by simp_all
  moreover have "pre = before_star (hd (labels p))" unfolding pre_def l_def ..
  ultimately show thesis using L s(2-4) nd by (intro that [of pre suf "tl (labels p)"]) simp_all
qed

subsection \<open>Host names\<close>

definition wildcard_matches :: "byte list \<Rightarrow> byte list \<Rightarrow> bool" where
  "wildcard_matches p s \<longleftrightarrow>
     (\<exists>pre suf ls pre' w suf' ls'. labels p = (pre @ 0x2a # suf) # ls \<and> labels s = (pre' @ w @ suf') # ls' \<and>
        same_name pre pre' \<and> same_name suf suf' \<and> list_all2 same_name ls ls' \<and> wild_part w \<and>
        (if pre = [] \<and> suf = [] then w \<noteq> [] else \<not> idna_label s))"

lemma star_label_no_star: "star_label flags pre suf \<Longrightarrow> 0x2a \<notin> set pre \<and> 0x2a \<notin> set suf"
  by (auto simp: star_label_def valid_label_def)

lemma wildcard_matches_iff:
  assumes p: "labels p = (pre @ 0x2a # suf) # ls" "0x2a \<notin> set pre" "0x2a \<notin> set suf" "0x2e \<notin> set pre"
    and sx: "labels sufx = suf # ls"
  shows "(\<exists>pre' w sx. s = pre' @ w @ sx \<and> same_name pre pre' \<and> same_name sufx sx \<and> wild_part w \<and>
      (if pre = [] \<and> suf = [] then w \<noteq> [] else \<not> idna_label s)) \<longleftrightarrow> wildcard_matches p s"
    (is "?L \<longleftrightarrow> _")
proof
  assume ?L
  then obtain pre' w sx where s: "s = pre' @ w @ sx" and 1: "same_name pre pre'" "same_name sufx sx" "wild_part w"
      "if pre = [] \<and> suf = [] then w \<noteq> [] else \<not> idna_label s" by blast
  have "list_all2 same_name (suf # ls) (labels sx)" using 1(2) same_name_labels [of sufx sx] sx by simp
  then obtain suf' ls' where l: "labels sx = suf' # ls'" "same_name suf suf'" "list_all2 same_name ls ls'"
    by (auto simp: list_all2_Cons1)
  have "0x2e \<notin> set (pre' @ w)" using same_name_no_dot [OF 1(1)] p(4) wild_part_no_dot [OF 1(3)] by auto
  then have "labels s = (pre' @ w @ suf') # ls'" using labels_no_dot [of "pre' @ w" sx] s l(1) by simp
  then show "wildcard_matches p s" unfolding wildcard_matches_def using p(1) 1 l by blast
next
  assume "wildcard_matches p s"
  then obtain pre2 suf2 ls2 pre' w suf' ls' where 2: "labels p = (pre2 @ 0x2a # suf2) # ls2" "labels s = (pre' @ w @ suf') # ls'"
      "same_name pre2 pre'" "same_name suf2 suf'" "list_all2 same_name ls2 ls'" "wild_part w"
      "if pre2 = [] \<and> suf2 = [] then w \<noteq> [] else \<not> idna_label s"
    unfolding wildcard_matches_def by blast
  have e: "pre2 = pre" "suf2 = suf" "ls2 = ls"
    using 2(1) p append_Cons_eq_iff [of "0x2a" pre suf pre2 suf2] by auto
  obtain q where q: "s = (pre' @ w @ suf') @ q" using labels_prefix [of s] 2(2) by auto
  have nd: "0x2e \<notin> set (pre' @ w @ suf')" using label_no_dot [of "pre' @ w @ suf'" s] 2(2) by simp
  have "labels s = ((pre' @ w) @ hd (labels (suf' @ q))) # tl (labels (suf' @ q))"
    using labels_no_dot [of "pre' @ w" "suf' @ q"] nd q by simp
  then have "labels (suf' @ q) = suf' # ls'" using 2(2) labels_nonempty [of "suf' @ q"] by (cases "labels (suf' @ q)") auto
  then have "same_name sufx (suf' @ q)" using same_name_labels [of sufx "suf' @ q"] sx 2(4,5) e by simp
  then show ?L using 2(3,6,7) q e by (intro exI [of _ pre'] exI [of _ w] exI [of _ "suf' @ q"]) simp
qed

lemma equal_wildcard_iff:
  assumes flags: "\<not> has_flag flags X509_CHECK_FLAG_DOT_SUBDOMAINS" "\<not> has_flag flags X509_CHECK_FLAG_MULTI_LABEL_WILDCARDS"
  shows "equal_wildcard p s flags \<longleftrightarrow>
    (if star_pattern flags p \<and> \<not> (1 < length s \<and> s ! 0 = 0x2e) then wildcard_matches p s else same_name p s)"
proof (cases "star_pattern flags p \<and> \<not> (1 < length s \<and> s ! 0 = 0x2e)")
  case True
  then obtain pre suf ls where p: "labels p = (pre @ 0x2a # suf) # ls" "star_label flags pre suf" "2 \<le> length ls"
      "pre = before_star (hd (labels p))" "take (length pre) p = pre" "labels (drop (Suc (length pre)) p) = suf # ls" "0x2e \<notin> set pre"
    using star_split [of flags p] by metis
  have ls: "ls \<noteq> []" using p(3) by auto
  have "valid_star p flags = Some (length pre)" using True p(4) by (simp add: valid_star_eq)
  then have "equal_wildcard p s flags \<longleftrightarrow> wildcard_match pre (drop (Suc (length pre)) p) s flags"
    using True p(5) by (simp add: equal_wildcard_def Let_def)
  also have "\<dots> \<longleftrightarrow> wildcard_matches p s"
    unfolding wildcard_match_iff [OF flags p(6) ls]
    using star_label_no_star [OF p(2)] by (intro wildcard_matches_iff [OF p(1) _ _ p(7,6)]) blast+
  finally show ?thesis using True by simp
next
  case False
  then have "(if \<not> (length s > 1 \<and> s ! 0 = 0x2e) then valid_star p flags else None) = None"
    by (auto simp: valid_star_eq)
  then show ?thesis
    unfolding equal_wildcard_def Let_def if_not_P [OF False] by (simp only: option.case equal_nocase_iff [OF flags(1)])
qed

text \<open>C10. Host names and wildcards. Without the flags for multi-label wildcards and for sub-domains,
  \<^verbatim>\<open>equal_wildcard\<close> matches a pattern with a host name exactly if they are equal up to the case of ASCII
  letters or the pattern is a legal wildcard pattern, of three labels or more, and stands for the host
  name with some letters, digits and hyphens (or one asterisk) in place of the wildcard: they have the
  same number of labels, and all but the first are equal.\<close>

theorem equal_wildcard_exact:
  assumes "\<not> has_flag flags X509_CHECK_FLAG_DOT_SUBDOMAINS" "\<not> has_flag flags X509_CHECK_FLAG_MULTI_LABEL_WILDCARDS"
    and "\<not> (1 < length s \<and> s ! 0 = 0x2e)"
  shows "equal_wildcard p s flags \<longleftrightarrow>
    (if star_pattern flags p
     then (\<exists>pre suf ls pre' w suf' ls'. labels p = (pre @ 0x2a # suf) # ls \<and> labels s = (pre' @ w @ suf') # ls' \<and>
        same_name pre pre' \<and> same_name suf suf' \<and> list_all2 same_name ls ls' \<and> wild_part w \<and>
        (if pre = [] \<and> suf = [] then w \<noteq> [] else \<not> idna_label s))
     else same_name p s)"
  using equal_wildcard_iff [OF assms(1,2), of p s] assms(3) unfolding wildcard_matches_def by auto

definition ascii :: "string \<Rightarrow> byte list" where "ascii = map (\<lambda>c. word_of_nat (of_char c))"

theorem equal_wildcard_exact_witness:
  "equal_wildcard (ascii ''*.example.com'') (ascii ''www.Example.com'') 0"
proof -
  have f: "\<not> has_flag 0 X509_CHECK_FLAG_DOT_SUBDOMAINS" "\<not> has_flag 0 X509_CHECK_FLAG_MULTI_LABEL_WILDCARDS"
    by (simp_all add: has_flag_def)
  have h: "\<not> (1 < length (ascii ''www.Example.com'') \<and> ascii ''www.Example.com'' ! 0 = 0x2e)" by code_simp
  have p: "star_pattern 0 (ascii ''*.example.com'')" by code_simp
  have "labels (ascii ''*.example.com'') = ([] @ 0x2a # []) # [ascii ''example'', ascii ''com'']" by code_simp
  moreover have "labels (ascii ''www.Example.com'') = ([] @ ascii ''www'' @ []) # [ascii ''Example'', ascii ''com'']" by code_simp
  moreover have "same_name (ascii ''example'') (ascii ''Example'')" "same_name (ascii ''com'') (ascii ''com'')" by code_simp+
  moreover have "\<forall>c \<in> set (ascii ''www''). ldh c" "ascii ''www'' \<noteq> []" by code_simp+
  ultimately have c: "labels (ascii ''*.example.com'') = ([] @ 0x2a # []) # [ascii ''example'', ascii ''com''] \<and>
      labels (ascii ''www.Example.com'') = ([] @ ascii ''www'' @ []) # [ascii ''Example'', ascii ''com''] \<and>
      same_name [] [] \<and> same_name [] [] \<and> list_all2 same_name [ascii ''example'', ascii ''com''] [ascii ''Example'', ascii ''com''] \<and>
      wild_part (ascii ''www'') \<and> (if ([] :: byte list) = [] \<and> ([] :: byte list) = [] then ascii ''www'' \<noteq> [] else \<not> idna_label (ascii ''www.Example.com''))"
    unfolding wild_part_def by simp
  show ?thesis unfolding equal_wildcard_exact [OF f h] if_P [OF p]
    by (rule exI, rule exI, rule exI, rule exI, rule exI, rule exI, rule exI, rule c)
qed

subsection \<open>Certificates\<close>

definition host_matches :: "u32 \<Rightarrow> byte list \<Rightarrow> byte list \<Rightarrow> bool" where
  "host_matches flags p s \<longleftrightarrow>
     (if \<not> has_flag flags X509_CHECK_FLAG_NO_WILDCARDS \<and> star_pattern flags p then wildcard_matches p s else same_name p s)"

lemma has_flag_clear:
  "has_flag (flags AND NOT X509_CHECK_FLAG_DOT_SUBDOMAINS) X509_CHECK_FLAG_NO_WILDCARDS = has_flag flags X509_CHECK_FLAG_NO_WILDCARDS"
  "has_flag (flags AND NOT X509_CHECK_FLAG_DOT_SUBDOMAINS) X509_CHECK_FLAG_NO_PARTIAL_WILDCARDS = has_flag flags X509_CHECK_FLAG_NO_PARTIAL_WILDCARDS"
  "has_flag (flags AND NOT X509_CHECK_FLAG_DOT_SUBDOMAINS) X509_CHECK_FLAG_MULTI_LABEL_WILDCARDS = has_flag flags X509_CHECK_FLAG_MULTI_LABEL_WILDCARDS"
  "\<not> has_flag (flags AND NOT X509_CHECK_FLAG_DOT_SUBDOMAINS) X509_CHECK_FLAG_DOT_SUBDOMAINS"
  by (simp_all add: has_flag_def X509_CHECK_FLAG_DOT_SUBDOMAINS_def X509_CHECK_FLAG_NO_WILDCARDS_def
      X509_CHECK_FLAG_NO_PARTIAL_WILDCARDS_def X509_CHECK_FLAG_MULTI_LABEL_WILDCARDS_def and.assoc)

lemma star_pattern_clear: "star_pattern (flags AND NOT X509_CHECK_FLAG_DOT_SUBDOMAINS) p = star_pattern flags p"
  by (simp add: star_pattern_def star_label_def has_flag_clear)

lemma check_names_all:
  assumes "\<And>a. fst (check a) = (if P a then 1 else 0)"
  shows "fst (check_names check wanted names) = (if \<exists>a. (wanted, a) \<in> set names \<and> P a then 1 else 0)"
proof (induction names)
  case (Cons x names)
  obtain tag a rv peer where x: "x = (tag, a)" "check a = (rv, peer)" by (metis surj_pair)
  then show ?case using Cons assms [of a] by (auto split: if_splits)
qed simp

lemma host_equal:
  assumes "\<not> has_flag flags X509_CHECK_FLAG_MULTI_LABEL_WILDCARDS" "\<not> (1 < length s \<and> s ! 0 = 0x2e)"
  defines "f \<equiv> flags AND NOT X509_CHECK_FLAG_DOT_SUBDOMAINS"
  shows "(if has_flag f X509_CHECK_FLAG_NO_WILDCARDS then equal_nocase else equal_wildcard) p s f \<longleftrightarrow> host_matches flags p s"
proof -
  have f: "\<not> has_flag f X509_CHECK_FLAG_DOT_SUBDOMAINS" "\<not> has_flag f X509_CHECK_FLAG_MULTI_LABEL_WILDCARDS"
    using assms(1) has_flag_clear(3,4) [of flags] unfolding f_def by simp_all
  show ?thesis
    using equal_nocase_iff [OF f(1), of p s] equal_wildcard_iff [OF f, of p s] assms(2) star_pattern_clear [of flags p]
      has_flag_clear(1) [of flags] unfolding host_matches_def f_def by auto
qed

text \<open>C11. Certificates with subject alternative names. \<^verbatim>\<open>X509_check_host\<close> accepts a host name exactly if one
  of the names of type dNSName, an IA5String that is not empty, matches it: the common names in the subject
  do not count, nor do names of other types.\<close>

theorem X509_check_host_alt_names:
  assumes "subject_alt_names x = Some gens" "0 \<notin> set host" "\<not> (1 < length host \<and> host ! 0 = 0x2e)"
    and "\<not> has_flag flags X509_CHECK_FLAG_MULTI_LABEL_WILDCARDS"
  shows "fst (X509_check_host m to_utf8 x (Some host) flags) =
    (if \<exists>a name. (GEN_DNS, a) \<in> set gens \<and> as_type a = V_ASN1_IA5STRING \<and> as_data a = Some name \<and> name \<noteq> [] \<and>
          host_matches flags name host
     then 1 else 0)"
proof -
  define f where "f = flags AND NOT X509_CHECK_FLAG_DOT_SUBDOMAINS"
  define eq where "eq = (if has_flag f X509_CHECK_FLAG_NO_WILDCARDS then equal_nocase else equal_wildcard)"
  have eq: "eq name host f \<longleftrightarrow> host_matches flags name host" for name
    unfolding eq_def f_def by (rule host_equal [OF assms(4,3)])
  have run: "X509_check_host m to_utf8 x (Some host) flags =
      check_names (\<lambda>a. do_check_string m to_utf8 a V_ASN1_IA5STRING eq f GEN_DNS host) GEN_DNS gens"
    using assms(1-3) unfolding X509_check_host_def do_x509_check_def Let_def eq_def f_def
    by (auto simp: GEN_EMAIL_def GEN_DNS_def)
  have one: "fst (do_check_string m to_utf8 a V_ASN1_IA5STRING eq f GEN_DNS host) =
      (if as_type a = V_ASN1_IA5STRING \<and> (\<exists>name. as_data a = Some name \<and> name \<noteq> [] \<and> host_matches flags name host) then 1 else 0)" for a
    by (auto simp: do_check_string_def V_ASN1_IA5STRING_def eq Let_def split: option.splits)
  show ?thesis unfolding run check_names_all [OF one] by auto
qed

definition sample_cert :: x509 where
  "sample_cert =
     \<lparr>subject_alt_names = Some [(GEN_EMAIL, \<lparr>as_type = 22, as_data = Some (ascii ''a@b.org''), as_flags = 0\<rparr>),
        (GEN_DNS, \<lparr>as_type = 22, as_data = Some (ascii ''b.org''), as_flags = 0\<rparr>)],
      subject_entries = [(NID_commonName, \<lparr>as_type = 12, as_data = Some (ascii ''evil.org''), as_flags = 0\<rparr>)]\<rparr>"

theorem X509_check_host_alt_names_witness:
  "fst (X509_check_host calloc_small (\<lambda>_. None) sample_cert (Some (ascii ''evil.org'')) 0) = 0"
proof -
  have h: "0 \<notin> set (ascii ''evil.org'')" "\<not> (1 < length (ascii ''evil.org'') \<and> ascii ''evil.org'' ! 0 = 0x2e)" by code_simp+
  have f: "\<not> has_flag 0 X509_CHECK_FLAG_MULTI_LABEL_WILDCARDS" by (simp add: has_flag_def)
  have s: "subject_alt_names sample_cert = Some [(GEN_EMAIL, \<lparr>as_type = 22, as_data = Some (ascii ''a@b.org''), as_flags = 0\<rparr>),
        (GEN_DNS, \<lparr>as_type = 22, as_data = Some (ascii ''b.org''), as_flags = 0\<rparr>)]" by (simp add: sample_cert_def)
  have n: "\<not> star_pattern 0 (ascii ''b.org'')" "\<not> same_name (ascii ''b.org'') (ascii ''evil.org'')" by code_simp+
  show ?thesis unfolding X509_check_host_alt_names [OF s h f]
    using n by (auto simp: GEN_EMAIL_def GEN_DNS_def host_matches_def)
qed

end
