(* ===== verification/TimeSupport.thy ===== *)
theory TimeSupport
  imports Main "HOL-Library.Signed_Division"
begin

text \<open>Dates and times, \<^verbatim>\<open>crypto/asn1/time_support.c\<close>: adding days and seconds to a broken-down time and
  taking differences, by way of Julian day numbers. Division of C truncates, \<open>sdiv\<close> and \<open>smod\<close>. Where a
  \<^verbatim>\<open>long\<close> is stored in an \<^verbatim>\<open>int\<close> it is reduced to 32 bits, and so are the sums and products of \<^verbatim>\<open>julian_adj\<close>,
  which may overflow; the terms of \<^verbatim>\<open>date_to_julian\<close> do not for years of less than a million.\<close>

record tm =
  tm_sec :: int
  tm_min :: int
  tm_hour :: int
  tm_mday :: int
  tm_mon :: int
  tm_year :: int

definition SECS_PER_DAY :: int where "SECS_PER_DAY = 24 * 60 * 60"

definition to_int :: "int \<Rightarrow> int" where "to_int x = (x + 2147483648) mod 4294967296 - 2147483648"

definition date_to_julian :: "int \<Rightarrow> int \<Rightarrow> int \<Rightarrow> int" where
  "date_to_julian y m d =
     (1461 * (y + 4800 + (m - 14) sdiv 12)) sdiv 4 +
     (367 * (m - 2 - 12 * ((m - 14) sdiv 12))) sdiv 12 -
     (3 * ((y + 4900 + (m - 14) sdiv 12) sdiv 100)) sdiv 4 + d - 32075"

definition julian_to_date :: "int \<Rightarrow> int \<times> int \<times> int" where
  "julian_to_date jd =
     (let L = jd + 68569;
          n = (4 * L) sdiv 146097;
          L = L - (146097 * n + 3) sdiv 4;
          i = (4000 * (L + 1)) sdiv 1461001;
          L = L - (1461 * i) sdiv 4 + 31;
          j = (80 * L) sdiv 2447;
          d = L - (2447 * j) sdiv 80;
          L = j sdiv 11;
          m = j + 2 - (12 * L);
          y = 100 * (n - 49) + i + L
      in (to_int y, to_int m, to_int d))"

definition julian_adj :: "tm \<Rightarrow> int \<Rightarrow> int \<Rightarrow> (int \<times> int) option" where
  "julian_adj tm off_day offset_sec =
     (let offset_day = to_int (offset_sec sdiv SECS_PER_DAY);
          offset_hms = to_int (offset_sec - to_int (offset_day * SECS_PER_DAY));
          offset_day = to_int (offset_day + off_day);
          offset_hms = to_int (offset_hms + (tm_hour tm * 3600 + tm_min tm * 60 + tm_sec tm));
          (offset_day, offset_hms) =
            (if offset_hms \<ge> SECS_PER_DAY then (to_int (offset_day + 1), offset_hms - SECS_PER_DAY)
             else if offset_hms < 0 then (to_int (offset_day - 1), offset_hms + SECS_PER_DAY)
             else (offset_day, offset_hms));
          time_year = tm_year tm + 1900;
          time_month = tm_mon tm + 1;
          time_day = tm_mday tm;
          time_jd = date_to_julian time_year time_month time_day + offset_day
      in if time_jd < 0 then None else Some (time_jd, offset_hms))"

definition OPENSSL_gmtime_adj :: "tm \<Rightarrow> int \<Rightarrow> int \<Rightarrow> tm option" where
  "OPENSSL_gmtime_adj tm off_day offset_sec =
     (case julian_adj tm off_day offset_sec of
        None \<Rightarrow> None
      | Some (time_jd, time_sec) \<Rightarrow>
         (case julian_to_date time_jd of
            (time_year, time_month, time_day) \<Rightarrow>
              if time_year < 1900 \<or> time_year > 9999 then None
              else Some (tm\<lparr>tm_year := time_year - 1900, tm_mon := time_month - 1, tm_mday := time_day,
                            tm_hour := time_sec sdiv 3600, tm_min := (time_sec sdiv 60) smod 60, tm_sec := time_sec smod 60\<rparr>)))"

text \<open>The days and seconds of the difference, for \<^verbatim>\<open>*out_days\<close> and \<^verbatim>\<open>*out_secs\<close>.\<close>

definition OPENSSL_gmtime_diff :: "tm \<Rightarrow> tm \<Rightarrow> (int \<times> int) option" where
  "OPENSSL_gmtime_diff from_tm to_tm =
     (case julian_adj from_tm 0 0 of
        None \<Rightarrow> None
      | Some (from_jd, from_sec) \<Rightarrow>
         (case julian_adj to_tm 0 0 of
            None \<Rightarrow> None
          | Some (to_jd, to_sec) \<Rightarrow>
             (let diff_day = to_jd - from_jd;
                  diff_sec = to_sec - from_sec;
                  (diff_day, diff_sec) =
                    (if diff_day > 0 \<and> diff_sec < 0 then (diff_day - 1, diff_sec + SECS_PER_DAY) else (diff_day, diff_sec));
                  (diff_day, diff_sec) =
                    (if diff_day < 0 \<and> diff_sec > 0 then (diff_day + 1, diff_sec - SECS_PER_DAY) else (diff_day, diff_sec))
              in Some (to_int diff_day, diff_sec))))"

subsection \<open>The calendar\<close>

definition leap_year :: "int \<Rightarrow> bool" where
  "leap_year y \<longleftrightarrow> y mod 4 = 0 \<and> (y mod 100 \<noteq> 0 \<or> y mod 400 = 0)"

definition month_days :: "int \<Rightarrow> int \<Rightarrow> int" where
  "month_days y m =
     (if m = 2 then if leap_year y then 29 else 28
      else if m = 4 \<or> m = 6 \<or> m = 9 \<or> m = 11 then 30 else 31)"

definition valid_date :: "int \<Rightarrow> int \<Rightarrow> int \<Rightarrow> bool" where
  "valid_date y m d \<longleftrightarrow> 1 \<le> m \<and> m \<le> 12 \<and> 1 \<le> d \<and> d \<le> month_days y m"

text \<open>The number of a day, counted from the first of January of the year 1: the days of the years
  before, of the months before and of the month.\<close>

definition days_before_year :: "int \<Rightarrow> int" where
  "days_before_year y = 365 * (y - 1) + (y - 1) div 4 - (y - 1) div 100 + (y - 1) div 400"

definition days_before_month :: "int \<Rightarrow> int \<Rightarrow> int" where
  "days_before_month y m = sum_list (map (month_days y) (filter (\<lambda>k. k < m) [1, 2, 3, 4, 5, 6, 7, 8, 9, 10, 11, 12]))"

definition day_number :: "int \<Rightarrow> int \<Rightarrow> int \<Rightarrow> int" where
  "day_number y m d = days_before_year y + days_before_month y m + d"

lemma sdiv_nonneg: "0 \<le> (a :: int) \<Longrightarrow> 0 \<le> b \<Longrightarrow> a sdiv b = a div b"
  by (cases "b = 0") (simp_all add: signed_divide_int_def sgn_if)

lemma smod_nonneg: "0 \<le> (a :: int) \<Longrightarrow> 0 \<le> b \<Longrightarrow> a smod b = a mod b"
  by (cases "a = 0") (simp_all add: signed_modulo_int_def)

lemma to_int_id: "- 2147483648 \<le> x \<Longrightarrow> x < 2147483648 \<Longrightarrow> to_int x = x"
  by (simp add: to_int_def)

lemma div_bounds: "0 < k \<Longrightarrow> k * (x div k) \<le> x \<and> x < k * (x div k) + k" for x k :: int
  using pos_mod_sign [of k x] pos_mod_bound [of k x] mult_div_mod_eq [of k x] by linarith

lemma quarter:
  obtains a s where "i = 4 * a + s" "s = 0 \<or> s = 1 \<or> s = 2 \<or> s = (3 :: int)"
proof -
  have "i = 4 * (i div 4) + i mod 4" by simp
  moreover have "i mod 4 = 0 \<or> i mod 4 = 1 \<or> i mod 4 = 2 \<or> i mod 4 = 3"
    using pos_mod_sign [of 4 i] pos_mod_bound [of 4 i] by arith
  ultimately show thesis by (rule that)
qed

lemma month_cases:
  assumes "1 \<le> m" "m \<le> 12"
  obtains "m = 1" | "m = 2" | "m = 3" | "m = 4" | "m = 5" | "m = 6" | "m = 7" | "m = 8" | "m = 9" | "m = 10" | "m = 11" | "m = (12 :: int)"
proof -
  have "m = 1 \<or> m = 2 \<or> m = 3 \<or> m = 4 \<or> m = 5 \<or> m = 6 \<or> m = 7 \<or> m = 8 \<or> m = 9 \<or> m = 10 \<or> m = 11 \<or> m = 12"
    using assms by arith
  then show thesis using that by blast
qed

lemma month_shift: "1 \<le> m \<Longrightarrow> m \<le> 12 \<Longrightarrow> (m - 14) sdiv 12 = (if m \<le> 2 then - 1 else 0)" for m :: int
  by (erule (1) month_cases) (simp_all add: signed_divide_int_def)

lemma div_pred: "0 < k \<Longrightarrow> y div k = (y - 1) div k + (if k dvd y then 1 else 0)" for y k :: int
proof -
  assume k: "0 < k"
  show ?thesis
  proof (cases "k dvd y")
    case True
    then obtain c where c: "y = k * c" by blast
    have "(y - 1) div k = c - 1"
      by (rule int_div_pos_eq [where r = "k - 1"]) (use k c in \<open>simp_all add: algebra_simps\<close>)
    then show ?thesis using k c by simp
  next
    case False
    then have "y mod k \<noteq> 0" by (simp add: dvd_eq_mod_eq_0)
    then have "(y - 1) div k = y div k"
      by (intro int_div_pos_eq [where r = "y mod k - 1"])
        (use k pos_mod_sign [OF k, of y] pos_mod_bound [OF k, of y] in \<open>simp_all add: algebra_simps\<close>)
    then show ?thesis using False by simp
  qed
qed

lemma leap_year_dvd: "leap_year y \<longleftrightarrow> 4 dvd y \<and> (\<not> 100 dvd y \<or> 400 dvd y)"
  by (simp add: leap_year_def dvd_eq_mod_eq_0)

lemma leap_400: "y = 400 * k \<Longrightarrow> leap_year y"
  unfolding leap_year_dvd by (simp add: dvd_mult2)

lemma leap_4: "y = 4 * k \<Longrightarrow> y mod 100 \<noteq> 0 \<Longrightarrow> leap_year y"
  unfolding leap_year_dvd by (simp add: dvd_eq_mod_eq_0)

lemma year_length: "days_before_year (y + 1) = days_before_year y + (if leap_year y then 366 else 365)"
proof -
  have d: "100 dvd y \<Longrightarrow> 4 dvd y" "400 dvd y \<Longrightarrow> 100 dvd y"
    by (rule dvd_trans [rotated], assumption, simp)+
  have "y div 4 - y div 100 + y div 400 = (y - 1) div 4 - (y - 1) div 100 + (y - 1) div 400 + (if leap_year y then 1 else 0)"
    unfolding leap_year_dvd div_pred [of 4 y, simplified] div_pred [of 100 y, simplified] div_pred [of 400 y, simplified]
    using d by (cases "4 dvd y"; cases "100 dvd y"; cases "400 dvd y") simp_all
  then show ?thesis unfolding days_before_year_def by (cases "leap_year y") simp_all
qed

lemma before_month:
  assumes "1 \<le> m" "m \<le> 12"
  shows "days_before_month y m =
    (if m \<le> 2 then 31 * (m - 1) else (367 * (m - 2)) div 12 + 29 + (if leap_year y then 1 else 0))"
  using assms by (elim month_cases) (simp_all add: days_before_month_def month_days_def)

lemma div_100_4: "(y div 100) div 4 = y div 400" for y :: int
  using zdiv_zmult2_eq [of 4 y 100] by simp

text \<open>Days counted by years that begin in March, which end with the leap day.\<close>

definition march_days :: "int \<Rightarrow> int" where
  "march_days Y = 365 * Y + Y div 4 - Y div 100 + Y div 400"

definition march_month :: "int \<Rightarrow> int" where
  "march_month m = (if m \<le> 2 then 306 + 31 * (m - 1) else (367 * (m - 2)) div 12 - 30)"

lemma day_number_march:
  assumes "1 \<le> m" "m \<le> 12"
  shows "day_number y m d = march_days (y - (if m \<le> 2 then 1 else 0)) + march_month m + d - 306"
proof (cases "m \<le> 2")
  case True
  then show ?thesis using before_month [OF assms, of y]
    by (simp add: day_number_def days_before_year_def march_days_def march_month_def)
next
  case False
  have "march_days y = days_before_year y + (if leap_year y then 366 else 365)"
    unfolding year_length [symmetric] by (simp add: march_days_def days_before_year_def)
  then show ?thesis using False before_month [OF assms, of y] by (cases "leap_year y") (simp_all add: day_number_def march_month_def)
qed

text \<open>The formula is the count of days, up to the day it starts at.\<close>

lemma date_to_julian_day:
  assumes "1 \<le> m" "m \<le> 12" "- 4799 \<le> y"
  shows "date_to_julian y m d = day_number y m d + 1721425"
proof -
  define a where "a = (if m \<le> 2 then 1 else 0 :: int)"
  define Y where "Y = y - a"
  have a: "(m - 14) sdiv 12 = - a" using month_shift [OF assms(1,2)] by (simp add: a_def)
  have Y: "- 4800 \<le> Y" using assms(3) by (simp add: Y_def a_def)
  have e: "y + 4800 + - a = Y + 4800" "y + 4900 + - a = Y + 4900" by (simp_all add: Y_def)
  have "1461 * (Y + 4800) = Y + (365 * Y + 1753200) * 4" by simp
  then have yr: "(1461 * (Y + 4800)) div 4 = 365 * Y + Y div 4 + 1753200" by (simp only: div_mult_self1)
  have "(3 * (c + 49)) div 4 = c + 36 - c div 4" for c :: int
    by (rule quarter [of c]) auto
  moreover have "(Y + 4900) div 100 = Y div 100 + 49" by simp
  ultimately have cen: "(3 * ((Y + 4900) div 100)) div 4 = Y div 100 + 36 - Y div 400"
    by (simp only: div_100_4)
  have mon: "(367 * (m - 2 - 12 * - a)) div 12 = march_month m + 30"
    using assms(1,2) by (elim month_cases) (simp_all add: a_def march_month_def)
  have pos: "0 \<le> m - 2 - 12 * - a" "0 \<le> Y + 4800" "0 \<le> Y + 4900" "0 \<le> (Y + 4900) div 100"
    using assms(1,2) Y by (simp_all add: a_def)
  have "date_to_julian y m d =
      (1461 * (Y + 4800)) div 4 + (367 * (m - 2 - 12 * - a)) div 12 - (3 * ((Y + 4900) div 100)) div 4 + d - 32075"
    unfolding date_to_julian_def a e using pos by (simp only: sdiv_nonneg zero_le_mult_iff zero_le_numeral simp_thms)
  also have "\<dots> = march_days Y + march_month m + d - 306 + 1721425"
    unfolding yr cen mon march_days_def by simp
  also have "\<dots> = day_number y m d + 1721425"
    unfolding day_number_march [OF assms(1,2)] Y_def a_def by simp
  finally show ?thesis .
qed

subsection \<open>The inverse\<close>

text \<open>The day of a year that begins in March, as \<^verbatim>\<open>julian_to_date\<close> turns it into a month and a day.\<close>

definition march_date :: "int \<Rightarrow> int \<times> int \<times> int" where
  "march_date r = (let L = r + 31; j = (80 * L) div 2447; d = L - (2447 * j) div 80; L = j div 11 in (L, j + 2 - 12 * L, d))"

definition march_ok :: "int \<Rightarrow> bool" where
  "march_ok r \<longleftrightarrow>
     (case march_date r of (L, m, d) \<Rightarrow>
        1 \<le> m \<and> m \<le> 12 \<and> L = (if m \<le> 2 then 1 else 0) \<and> 1 \<le> d \<and>
        d \<le> (if m = 2 then if r = 365 then 29 else 28 else if m = 4 \<or> m = 6 \<or> m = 9 \<or> m = 11 then 30 else 31) \<and>
        r = march_month m + d - 1)"

lemma march_table: "\<forall>r \<in> set (map int [0..<366]). march_ok r"
  by code_simp

lemma march: "0 \<le> r \<Longrightarrow> r \<le> 365 \<Longrightarrow> march_ok r"
proof -
  assume "0 \<le> r" "r \<le> 365"
  then have "r = int (nat r)" "nat r \<in> set [0..<366]" by auto
  then have "r \<in> set (map int [0..<366])" by (metis image_eqI set_map)
  then show ?thesis using march_table by blast
qed

text \<open>Cycles of four centuries, and years that begin in March within a century.\<close>

lemma century:
  fixes L :: int
  assumes "0 \<le> L"
  defines "n \<equiv> (4 * L) div 146097"
  defines "L1 \<equiv> L - (146097 * n + 3) div 4"
  shows "0 \<le> n" "0 \<le> L1" "L1 \<le> 36524" "L1 = 36524 \<Longrightarrow> n mod 4 = 0"
    and "L = L1 + 36524 * n + (n + 3) div 4"
proof -
  have n: "146097 * n \<le> 4 * L" "4 * L < 146097 * n + 146097"
    unfolding n_def using div_bounds [of 146097 "4 * L"] by simp_all
  show "0 \<le> n" unfolding n_def using assms(1) by (simp add: pos_imp_zdiv_nonneg_iff)
  have q: "(146097 * n + 3) div 4 = 36524 * n + (n + 3) div 4"
  proof -
    have "146097 * n + 3 = n + 3 + (36524 * n) * 4" by simp
    then show ?thesis by (simp only: div_mult_self1)
  qed
  show L: "L = L1 + 36524 * n + (n + 3) div 4" unfolding L1_def q by simp
  obtain a r where a: "n = 4 * a + r" "r = 0 \<or> r = 1 \<or> r = 2 \<or> r = 3" by (rule quarter)
  have "(n + 3) div 4 = a + (if r = 0 then 0 else 1)" using a by auto
  then show "0 \<le> L1" "L1 \<le> 36524" "L1 = 36524 \<Longrightarrow> n mod 4 = 0" using a n L by auto
qed

lemma march_year:
  fixes L1 :: int
  assumes "0 \<le> L1" "L1 \<le> 36524"
  defines "i \<equiv> (4000 * (L1 + 1)) div 1461001"
  defines "r \<equiv> L1 - (1461 * i) div 4"
  shows "0 \<le> i" "i \<le> 99" "0 \<le> r" "r \<le> 365" "r = 365 \<Longrightarrow> i mod 4 = 3" "r = 365 \<Longrightarrow> i = 99 \<Longrightarrow> L1 = 36524"
    and "L1 = r + 365 * i + i div 4"
proof -
  have i: "1461001 * i \<le> 4000 * L1 + 4000" "4000 * L1 + 4000 < 1461001 * i + 1461001"
    unfolding i_def using div_bounds [of 1461001 "4000 * (L1 + 1)"] by simp_all
  show i0: "0 \<le> i" unfolding i_def using assms(1) by (simp add: pos_imp_zdiv_nonneg_iff)
  show i99: "i \<le> 99" using i assms(2) by linarith
  have q: "(1461 * i) div 4 = 365 * i + i div 4"
  proof -
    have "1461 * i = i + (365 * i) * 4" by simp
    then show ?thesis by (simp only: div_mult_self1)
  qed
  show L: "L1 = r + 365 * i + i div 4" unfolding r_def q by simp
  obtain a s where a: "i = 4 * a + s" "s = 0 \<or> s = 1 \<or> s = 2 \<or> s = 3" by (rule quarter)
  have d: "i div 4 = a" "i mod 4 = s" using a by auto
  show "0 \<le> r" using i L a d i0 assms(1) by auto
  show "r \<le> 365" using i L a d i99 by auto
  show "r = 365 \<Longrightarrow> i mod 4 = 3" using i L a d i99 by auto
  show "r = 365 \<Longrightarrow> i = 99 \<Longrightarrow> L1 = 36524" using L d(1) by simp
qed

text \<open>The date of every Julian day is valid, and the date of that day.\<close>

lemma julian_to_date_exact:
  assumes "0 \<le> jd" "jd < 8589934592"
  obtains y m d where "julian_to_date jd = (y, m, d)" "valid_date y m d" "day_number y m d + 1721425 = jd" "- 4800 \<le> y"
proof -
  define L where "L = jd + 68569"
  define n where "n = (4 * L) div 146097"
  define L1 where "L1 = L - (146097 * n + 3) div 4"
  define i where "i = (4000 * (L1 + 1)) div 1461001"
  define r where "r = L1 - (1461 * i) div 4"
  have L: "0 \<le> L" using assms by (simp add: L_def)
  note cen = century [OF L, folded n_def, folded L1_def]
  note yr = march_year [OF cen(2,3), folded i_def, folded r_def]
  obtain a m d where md: "march_date r = (a, m, d)" using prod_cases3 by blast
  have ok: "1 \<le> m" "m \<le> 12" "a = (if m \<le> 2 then 1 else 0)" "1 \<le> d" "r = march_month m + d - 1"
    "d \<le> (if m = 2 then if r = 365 then 29 else 28 else if m = 4 \<or> m = 6 \<or> m = 9 \<or> m = 11 then 30 else 31)"
    using march [OF yr(3,4)] unfolding march_ok_def md by simp_all
  define Y where "Y = 100 * (n - 49) + i"
  have Y: "Y div 4 = 25 * (n - 49) + i div 4" "Y div 100 = n - 49" "Y div 400 = (n - 49) div 4"
  proof -
    have "Y = i + (25 * (n - 49)) * 4" "Y = i + (n - 49) * 100" by (simp_all add: Y_def)
    then show "Y div 4 = 25 * (n - 49) + i div 4" "Y div 100 = n - 49"
      using yr(1,2) div_mult_self1 [of 4 i "25 * (n - 49)"] div_mult_self1 [of 100 i "n - 49"]
      by (simp_all add: div_pos_pos_trivial)
    then show "Y div 400 = (n - 49) div 4" using div_100_4 [of Y] by simp
  qed
  have days: "march_days Y + r - 305 + 1721425 = jd"
  proof -
    have "(n + 3) div 4 = (n - 49) div 4 + 13" by (rule quarter [of n]) auto
    then show ?thesis unfolding march_days_def Y using cen(5) yr(7) by (simp add: Y_def L_def)
  qed
  have "146097 * n \<le> 4 * L" "4 * L < 146097 * n + 146097" using div_bounds [of 146097 "4 * L", folded n_def] by simp_all
  then have "1 \<le> n" "n < 900000" using assms by (simp_all add: L_def)
  then have small: "- 4800 \<le> Y" "Y < 100000000" using yr(1,2) by (simp_all add: Y_def)
  have leap: "leap_year (Y + 1)" if "r = 365"
  proof (cases "i = 99")
    case True
    then have "n mod 4 = 0" using yr(6) that cen(4) by simp
    then have "Y + 1 = 400 * (n div 4 - 12)" using mult_div_mod_eq [of 4 n] True by (simp add: Y_def)
    then show ?thesis by (rule leap_400)
  next
    case False
    have "i = 4 * (i div 4) + 3" using yr(5) [OF that] mult_div_mod_eq [of 4 i] by simp
    then have four: "Y + 1 = 4 * (25 * (n - 49) + i div 4 + 1)" by (simp add: Y_def)
    have "Y + 1 = (i + 1) + (n - 49) * 100" by (simp add: Y_def)
    then have "(Y + 1) mod 100 = (i + 1) mod 100" by (simp only: mod_mult_self1)
    then have "(Y + 1) mod 100 \<noteq> 0" using yr(1,2) False by simp
    with four show ?thesis by (rule leap_4)
  qed
  show thesis
  proof
    have j: "0 \<le> (80 * (r + 31)) div 2447" using yr(3) by (simp add: pos_imp_zdiv_nonneg_iff)
    have month: "(80 * (r + 31)) sdiv 2447 sdiv 11 = a" "(80 * (r + 31)) sdiv 2447 + 2 - 12 * a = m"
      "r + 31 - (2447 * ((80 * (r + 31)) sdiv 2447)) sdiv 80 = d"
      using md j yr(3) by (simp_all add: march_date_def Let_def sdiv_nonneg)
    have q: "(146097 * n + 3) sdiv 4 = (146097 * n + 3) div 4" "(1461 * i) sdiv 4 = (1461 * i) div 4"
      using cen(1) yr(1) by (simp_all add: sdiv_nonneg)
    have n: "(4 * L) sdiv 146097 = n" unfolding n_def by (rule sdiv_nonneg) (use L in simp_all)
    have i: "(4000 * (L1 + 1)) sdiv 1461001 = i" unfolding i_def by (rule sdiv_nonneg) (use cen(2) in simp_all)
    have L1: "L - (146097 * n + 3) sdiv 4 = L1" and r: "L1 - (1461 * i) sdiv 4 = r"
      unfolding q L1_def r_def by (rule refl)+
    have "julian_to_date jd = (to_int (Y + a), to_int m, to_int d)"
      unfolding julian_to_date_def L_def [symmetric] Let_def n L1 i r month Y_def ..
    then show "julian_to_date jd = (Y + a, m, d)" using small ok by (simp add: to_int_id split: if_splits)
    show "valid_date (Y + a) m d"
      using ok leap by (auto simp: valid_date_def month_days_def split: if_splits)
    show "day_number (Y + a) m d + 1721425 = jd" 
      unfolding day_number_march [OF ok(1,2)] using days ok(3,5) by simp
    show "- 4800 \<le> Y + a" using small ok(3) by simp
  qed
qed

subsection \<open>Adding and subtracting\<close>

text \<open>The seconds from the first of January 1970, of a date and a time of the day.\<close>

definition tm_stamp :: "tm \<Rightarrow> int" where
  "tm_stamp tm =
     86400 * (day_number (tm_year tm + 1900) (tm_mon tm + 1) (tm_mday tm) - 719163) + 3600 * tm_hour tm + 60 * tm_min tm + tm_sec tm"

definition valid_clock :: "tm \<Rightarrow> bool" where
  "valid_clock tm \<longleftrightarrow> 0 \<le> tm_hour tm \<and> tm_hour tm < 24 \<and> 0 \<le> tm_min tm \<and> tm_min tm < 60 \<and> 0 \<le> tm_sec tm \<and> tm_sec tm < 60"

definition valid_tm :: "tm \<Rightarrow> bool" where
  "valid_tm tm \<longleftrightarrow> valid_clock tm \<and> valid_date (tm_year tm + 1900) (tm_mon tm + 1) (tm_mday tm)"

lemma day_in_year:
  assumes "valid_date y m d"
  shows "days_before_year y < day_number y m d" "day_number y m d \<le> days_before_year (y + 1)"
proof -
  have m: "1 \<le> m" "m \<le> 12" using assms by (simp_all add: valid_date_def)
  then show "days_before_year y < day_number y m d"
    using assms before_month [OF m, of y] by (auto simp: valid_date_def day_number_def split: if_splits)
  show "day_number y m d \<le> days_before_year (y + 1)"
    using m assms unfolding year_length day_number_def before_month [OF m] valid_date_def
    by (elim month_cases) (auto simp: month_days_def split: if_splits)
qed

lemma days_before_year_mono: "y \<le> y' \<Longrightarrow> days_before_year y \<le> days_before_year y'"
  by (induction y' rule: int_ge_induct) (auto simp: year_length)

lemma days_before_month_mono:
  assumes "1 \<le> m" "m < m'" "m' \<le> 12"
  shows "days_before_month y m + month_days y m \<le> days_before_month y m'"
proof -
  have "days_before_month y m + month_days y m = days_before_month y (m + 1)"
    using assms by (elim month_cases) (simp_all add: days_before_month_def)
  also have "\<dots> \<le> days_before_month y m'"
    using assms by (auto simp: before_month intro!: zdiv_mono1)
  finally show ?thesis .
qed

lemma day_number_inj:
  assumes "valid_date y m d" "valid_date y' m' d'" "day_number y m d = day_number y' m' d'"
  shows "y = y' \<and> m = m' \<and> d = d'"
proof -
  have "\<not> y < y'" if "valid_date y m d" "valid_date y' m' d'" "day_number y m d = day_number y' m' d'" for y m d y' m' d'
    using day_in_year(2) [OF that(1)] day_in_year(1) [OF that(2)] that(3) days_before_year_mono [of "y + 1" y'] by auto
  from this [OF assms] this [OF assms(2,1) assms(3) [symmetric]] have y: "y = y'" by simp
  have "\<not> m < m'" if "valid_date y m d" "valid_date y m' d'" "day_number y m d = day_number y m' d'" for m d m' d'
    using days_before_month_mono [of m m' y] that by (auto simp: valid_date_def day_number_def)
  from this [OF assms(1) assms(2) [folded y] assms(3) [folded y]]
    this [OF assms(2) [folded y] assms(1) assms(3) [folded y, symmetric]] have "m = m'" by simp
  then show ?thesis using y assms(3) by (simp add: day_number_def)
qed

definition clock :: "tm \<Rightarrow> int" where "clock tm = 3600 * tm_hour tm + 60 * tm_min tm + tm_sec tm"

lemma clock_bounds: "valid_clock tm \<Longrightarrow> 0 \<le> clock tm \<and> clock tm < 86400"
  by (auto simp: valid_clock_def clock_def)

lemma stamp_div_mod:
  assumes "valid_clock tm"
  shows "tm_stamp tm div 86400 = day_number (tm_year tm + 1900) (tm_mon tm + 1) (tm_mday tm) - 719163"
    and "tm_stamp tm mod 86400 = clock tm"
proof -
  have "tm_stamp tm = clock tm + (day_number (tm_year tm + 1900) (tm_mon tm + 1) (tm_mday tm) - 719163) * 86400"
    by (simp add: tm_stamp_def clock_def)
  then show "tm_stamp tm div 86400 = day_number (tm_year tm + 1900) (tm_mon tm + 1) (tm_mday tm) - 719163"
    "tm_stamp tm mod 86400 = clock tm"
    using clock_bounds [OF assms] by (simp_all only: div_mult_self1 mod_mult_self1) simp_all
qed

lemma clock_inj:
  assumes "valid_clock a" "valid_clock b" "clock a = clock b"
  shows "tm_hour a = tm_hour b \<and> tm_min a = tm_min b \<and> tm_sec a = tm_sec b"
proof -
  have c: "clock a div 3600 = tm_hour a" "clock a mod 3600 div 60 = tm_min a" "clock a mod 60 = tm_sec a" if "valid_clock a" for a
  proof -
    have v: "0 \<le> tm_min a" "tm_min a < 60" "0 \<le> tm_sec a" "tm_sec a < 60" using that by (simp_all add: valid_clock_def)
    show "clock a div 3600 = tm_hour a"
      by (rule int_div_pos_eq [where r = "60 * tm_min a + tm_sec a"]) (use v in \<open>simp_all add: clock_def\<close>)
    have "clock a mod 3600 = 60 * tm_min a + tm_sec a"
      by (rule int_mod_pos_eq [where q = "tm_hour a"]) (use v in \<open>simp_all add: clock_def\<close>)
    then show "clock a mod 3600 div 60 = tm_min a"
      by (intro int_div_pos_eq [where r = "tm_sec a"]) (use v in simp_all)
    show "clock a mod 60 = tm_sec a"
      by (rule int_mod_pos_eq [where q = "60 * tm_hour a + tm_min a"]) (use v in \<open>simp_all add: clock_def\<close>)
  qed
  show ?thesis using c [OF assms(1)] c [OF assms(2)] assms(3) by simp
qed

lemma tm_stamp_inj: "valid_tm a \<Longrightarrow> valid_tm b \<Longrightarrow> tm_stamp a = tm_stamp b \<Longrightarrow> a = b"
proof -
  assume v: "valid_tm a" "valid_tm b" and s: "tm_stamp a = tm_stamp b"
  have c: "valid_clock a" "valid_clock b" using v by (simp_all add: valid_tm_def)
  show "a = b"
    using day_number_inj [of "tm_year a + 1900" "tm_mon a + 1" "tm_mday a" "tm_year b + 1900" "tm_mon b + 1" "tm_mday b"]
      clock_inj [OF c] stamp_div_mod [OF c(1)] stamp_div_mod [OF c(2)] s v unfolding valid_tm_def by simp
qed


lemma sdiv_smod_unique:
  fixes a b q r :: int
  assumes "a = q * b + r" "0 < b" "\<bar>r\<bar> < b" "0 \<le> a \<Longrightarrow> 0 \<le> r" "a < 0 \<Longrightarrow> r \<le> 0"
  shows "a sdiv b = q" "a smod b = r"
proof -
  have "a sdiv b = q \<and> a smod b = r"
  proof (cases "0 \<le> a")
    case True
    then have "a div b = q" "a mod b = r"
      using assms(1-4) by (auto intro!: int_div_pos_eq int_mod_pos_eq)
    then show ?thesis using True assms(2) by (simp add: sdiv_nonneg smod_nonneg)
  next
    case False
    have "- a = (- q) * b + (- r)" using assms(1) by simp
    then have "(- a) div b = - q" "(- a) mod b = - r"
      using assms(2,3,5) False by (auto intro!: int_div_pos_eq [where r = "- r"] int_mod_pos_eq [where q = "- q"])
    then show ?thesis using False assms(2) by (simp add: signed_divide_int_def signed_modulo_int_def)
  qed
  then show "a sdiv b = q" "a smod b = r" by simp_all
qed

lemma smod_bound: "0 < b \<Longrightarrow> \<bar>a smod b\<bar> < b" for a b :: int
  using smod_int_range [of b a] by auto

lemma julian_adj_exact:
  assumes "valid_clock tm" "0 \<le> tm_mon tm" "tm_mon tm < 12" "- 6699 \<le> tm_year tm"
    and "\<bar>off_day\<bar> \<le> 1073741824" "\<bar>offset_sec\<bar> < 2147483648"
  shows "julian_adj tm off_day offset_sec =
    (let total = tm_stamp tm + 86400 * off_day + offset_sec; jd = total div 86400 + 2440588 in
     if jd < 0 then None else Some (jd, total mod 86400))"
proof -
  define q where "q = offset_sec sdiv 86400"
  define h where "h = offset_sec - q * 86400"
  define D where "D = day_number (tm_year tm + 1900) (tm_mon tm + 1) (tm_mday tm)"
  have h: "\<bar>h\<bar> < 86400" "\<bar>q\<bar> < 24856"
  proof -
    show b: "\<bar>h\<bar> < 86400" unfolding h_def q_def minus_sdiv_mult_eq_smod by (rule smod_bound) simp
    show "\<bar>q\<bar> < 24856" 
    proof -
      have "\<bar>q\<bar> \<le> \<bar>offset_sec\<bar> div 86400"
        by (auto simp: q_def signed_divide_int_def abs_mult sgn_if)
      then show ?thesis using assms(6) by linarith
    qed
  qed
  have c: "0 \<le> clock tm" "clock tm < 86400" using clock_bounds [OF assms(1)] by simp_all
  have jd: "date_to_julian (tm_year tm + 1900) (tm_mon tm + 1) (tm_mday tm) = D + 1721425"
    unfolding D_def by (rule date_to_julian_day) (use assms in simp_all)
  have total: "tm_stamp tm + 86400 * off_day + offset_sec = h + clock tm + (D - 719163 + q + off_day) * 86400"
    by (simp add: tm_stamp_def clock_def h_def D_def)
  define k where "k = (if h + clock tm \<ge> 86400 then 1 else if h + clock tm < 0 then - 1 else 0 :: int)"
  have k: "0 \<le> h + clock tm - k * 86400" "h + clock tm - k * 86400 < 86400" "\<bar>k\<bar> \<le> 1" using h(1) c by (auto simp: k_def)
  have dm: "(tm_stamp tm + 86400 * off_day + offset_sec) div 86400 = D - 719163 + q + off_day + k"
    "(tm_stamp tm + 86400 * off_day + offset_sec) mod 86400 = h + clock tm - k * 86400"
    by (rule int_div_pos_eq [where r = "h + clock tm - k * 86400"], use k total in simp_all,
        rule int_mod_pos_eq [where q = "D - 719163 + q + off_day + k"], use k total in simp_all)
  have q': "offset_sec sdiv 86400 = q" by (simp add: q_def)
  have i: "to_int q = q" "to_int (q * 86400) = q * 86400" "to_int (offset_sec - q * 86400) = h"
    "to_int (q + off_day) = q + off_day" "to_int (h + clock tm) = h + clock tm"
    "to_int (q + off_day + 1) = q + off_day + 1" "to_int (q + off_day - 1) = q + off_day - 1"
    using h c assms(5) by (simp_all add: to_int_id h_def)
  have secs: "SECS_PER_DAY = 86400" "tm_hour tm * 3600 + tm_min tm * 60 + tm_sec tm = clock tm"
    by (simp_all add: SECS_PER_DAY_def clock_def)
  show ?thesis unfolding Let_def dm julian_adj_def secs q' i jd
    by (auto simp: i k_def)
qed

lemma split_clock:
  fixes s :: int
  assumes "0 \<le> s" "s < 86400"
  shows "0 \<le> s div 3600" "s div 3600 < 24" "3600 * (s div 3600) + 60 * ((s div 60) mod 60) + s mod 60 = s"
proof -
  have e: "s div 60 div 60 = s div 3600" using zdiv_zmult2_eq [of 60 s 60] by simp
  show "0 \<le> s div 3600" "s div 3600 < 24" using assms div_bounds [of 3600 s] by (simp_all add: pos_imp_zdiv_nonneg_iff)
  show "3600 * (s div 3600) + 60 * ((s div 60) mod 60) + s mod 60 = s"
    using mult_div_mod_eq [of 60 s] mult_div_mod_eq [of 60 "s div 60"] unfolding e by linarith
qed

lemma days_before_year_values: "days_before_year 1900 = 693595" "days_before_year 10000 = 3652059"
  by (simp_all add: days_before_year_def)

lemma date_in_range:
  assumes "valid_date y m d" "y \<le> 9999"
  shows "day_number y m d \<le> 3652059"
  using day_in_year(2) [OF assms(1)] days_before_year_mono [of "y + 1" 10000] assms(2) days_before_year_values by simp

definition possible_tm :: "tm \<Rightarrow> bool" where
  "possible_tm tm \<longleftrightarrow> valid_clock tm \<and> 0 \<le> tm_mon tm \<and> tm_mon tm < 12 \<and> 1 \<le> tm_mday tm \<and> tm_mday tm \<le> 31"

lemma valid_tm_possible: "valid_tm t \<Longrightarrow> possible_tm t"
  by (auto simp: valid_tm_def possible_tm_def valid_date_def month_days_def split: if_splits)

lemma stamp_in_range:
  assumes "possible_tm t" "- 1900 \<le> tm_year t" "tm_year t \<le> 8099"
  shows "- 719530 < tm_stamp t div 86400" "tm_stamp t div 86400 < 2932930"
proof -
  let ?y = "tm_year t + 1900" and ?m = "tm_mon t + 1"
  have c: "valid_clock t" and first: "valid_date ?y ?m 1"
    using assms(1) by (auto simp: possible_tm_def valid_date_def month_days_def)
  have d: "day_number ?y ?m (tm_mday t) = day_number ?y ?m 1 + tm_mday t - 1" by (simp add: day_number_def)
  have "days_before_year 0 = - 366" by (simp add: days_before_year_def)
  then show "- 719530 < tm_stamp t div 86400"
    using day_in_year(1) [OF first] days_before_year_mono [of 0 ?y] assms(1,2) stamp_div_mod(1) [OF c] d by (simp add: possible_tm_def)
  show "tm_stamp t div 86400 < 2932930"
    using date_in_range [OF first] assms(1,3) stamp_div_mod(1) [OF c] d by (simp add: possible_tm_def)
qed

text \<open>The stamp the code computes with, and the time it stands for.\<close>

lemma gmtime_adj_secs:
  assumes "valid_tm tm" "- 6699 \<le> tm_year tm" "tm_year tm \<le> 8099"
    and "\<bar>off_day\<bar> \<le> 1073741824" "\<bar>offset_sec\<bar> < 2147483648"
  defines "secs \<equiv> tm_stamp tm + 86400 * off_day + offset_sec"
  shows "OPENSSL_gmtime_adj tm off_day offset_sec =
    (if secs div 86400 + 2440588 < 0 then None
     else (case julian_to_date (secs div 86400 + 2440588) of
             (y, m, d) \<Rightarrow>
               if y < 1900 \<or> y > 9999 then None
               else Some (tm\<lparr>tm_year := y - 1900, tm_mon := m - 1, tm_mday := d, tm_hour := (secs mod 86400) div 3600,
                             tm_min := ((secs mod 86400) div 60) mod 60, tm_sec := (secs mod 86400) mod 60\<rparr>)))"
proof -
  have v: "valid_clock tm" "0 \<le> tm_mon tm" "tm_mon tm < 12" using assms(1) by (auto simp: valid_tm_def valid_date_def)
  have t: "(secs mod 86400) sdiv 3600 = (secs mod 86400) div 3600" "((secs mod 86400) sdiv 60) smod 60 = ((secs mod 86400) div 60) mod 60"
    "(secs mod 86400) smod 60 = (secs mod 86400) mod 60"
    by (simp_all add: sdiv_nonneg smod_nonneg pos_imp_zdiv_nonneg_iff)
  show ?thesis
    unfolding OPENSSL_gmtime_adj_def julian_adj_exact [OF v assms(2,4,5)] Let_def secs_def [symmetric]
    by (simp add: t split: prod.split)
qed

lemma OPENSSL_gmtime_adj_iff:
  assumes "valid_tm tm" "- 6699 \<le> tm_year tm" "tm_year tm \<le> 8099"
    and "\<bar>off_day\<bar> \<le> 1073741824" "\<bar>offset_sec\<bar> < 2147483648"
  shows "OPENSSL_gmtime_adj tm off_day offset_sec = Some tm' \<longleftrightarrow>
    valid_tm tm' \<and> 0 \<le> tm_year tm' \<and> tm_year tm' \<le> 8099 \<and> tm_stamp tm' = tm_stamp tm + 86400 * off_day + offset_sec"
proof -
  define secs where "secs = tm_stamp tm + 86400 * off_day + offset_sec"
  define jd where "jd = secs div 86400 + 2440588"
  note adj = gmtime_adj_secs [OF assms, folded secs_def, folded jd_def]
  have day: "day_number (tm_year b + 1900) (tm_mon b + 1) (tm_mday b) + 1721425 = jd" if "valid_tm b" "tm_stamp b = secs" for b
    using stamp_div_mod(1) [of b] that by (simp add: valid_tm_def jd_def)
  show ?thesis
  proof (cases "jd < 0")
    case True
    have "tm_year b < 0" if "valid_tm b" "tm_stamp b = secs" for b
      using day [OF that] True day_in_year(1) [of "tm_year b + 1900"] that(1) days_before_year_mono [of 1900 "tm_year b + 1900"] days_before_year_values
      unfolding valid_tm_def by smt
    from this [of tm'] show ?thesis using adj True by (auto simp: secs_def)
  next
    case False
    have "day_number (tm_year tm + 1900) (tm_mon tm + 1) (tm_mday tm) \<le> 3652059" using date_in_range assms(1,3) by (simp add: valid_tm_def)
    then have "tm_stamp tm < 86400 * 3652060" using clock_bounds [of tm] assms(1) by (simp add: tm_stamp_def clock_def valid_tm_def)
    then have "secs < 86400 * 4294967296" using assms(4,5) unfolding secs_def by linarith
    then have "jd < 8589934592" using div_bounds [of 86400 secs] unfolding jd_def by linarith
    with False obtain y m d where jtd: "julian_to_date jd = (y, m, d)" "valid_date y m d" "day_number y m d + 1721425 = jd"
      using julian_to_date_exact [of jd] by (metis not_le)
    define b where "b = tm\<lparr>tm_year := y - 1900, tm_mon := m - 1, tm_mday := d, tm_hour := (secs mod 86400) div 3600,
                             tm_min := ((secs mod 86400) div 60) mod 60, tm_sec := (secs mod 86400) mod 60\<rparr>"
    have s: "0 \<le> secs mod 86400" "secs mod 86400 < 86400" by simp_all
    have b: "valid_tm b" using jtd(2) split_clock [OF s] by (simp add: b_def valid_tm_def valid_clock_def)
    have "tm_stamp b = 86400 * (secs div 86400) + (3600 * ((secs mod 86400) div 3600) + 60 * (((secs mod 86400) div 60) mod 60) + (secs mod 86400) mod 60)"
      using jtd(3) by (simp add: b_def tm_stamp_def jd_def)
    then have bt: "tm_stamp b = secs" unfolding split_clock(3) [OF s] mult_div_mod_eq .
    have run: "OPENSSL_gmtime_adj tm off_day offset_sec = (if tm_year b < 0 \<or> tm_year b > 8099 then None else Some b)"
      unfolding adj jtd using False by (simp add: b_def)
    show ?thesis unfolding run using b bt tm_stamp_inj [of b tm'] by (auto simp: secs_def)
  qed
qed

text \<open>C14. Adding to a time. \<^verbatim>\<open>OPENSSL_gmtime_adj\<close> gives the one valid date and time of day that is as many
  days and seconds later in the Gregorian calendar, if its year is between 1900 and 9999, and fails if there
  is none. The offsets are those for which the arithmetic on \<^verbatim>\<open>int\<close> does not overflow.\<close>

theorem OPENSSL_gmtime_adj_exact:
  assumes "valid_tm tm" "- 6699 \<le> tm_year tm" "tm_year tm \<le> 8099"
    and "\<bar>off_day\<bar> \<le> 1073741824" "\<bar>offset_sec\<bar> < 2147483648"
  shows "OPENSSL_gmtime_adj tm off_day offset_sec = Some tm' \<longleftrightarrow>
    valid_tm tm' \<and> 0 \<le> tm_year tm' \<and> tm_year tm' \<le> 8099 \<and> tm_stamp tm' = tm_stamp tm + 86400 * off_day + offset_sec"
  by (rule OPENSSL_gmtime_adj_iff [OF assms])

theorem OPENSSL_gmtime_adj_exact_witness:
  "OPENSSL_gmtime_adj \<lparr>tm_sec = 59, tm_min = 59, tm_hour = 23, tm_mday = 28, tm_mon = 1, tm_year = 124\<rparr> 0 1 =
     Some \<lparr>tm_sec = 0, tm_min = 0, tm_hour = 0, tm_mday = 29, tm_mon = 1, tm_year = 124\<rparr>"
proof -
  have "valid_tm \<lparr>tm_sec = 59, tm_min = 59, tm_hour = 23, tm_mday = 28, tm_mon = 1, tm_year = 124\<rparr>"
    "valid_tm \<lparr>tm_sec = 0, tm_min = 0, tm_hour = 0, tm_mday = 29, tm_mon = 1, tm_year = 124\<rparr>"
    by (simp_all add: valid_tm_def valid_clock_def valid_date_def month_days_def leap_year_def)
  then show ?thesis
    by (subst OPENSSL_gmtime_adj_exact)
      (simp_all add: tm_stamp_def day_number_def days_before_year_def days_before_month_def)
qed

text \<open>The difference of two times. \<^verbatim>\<open>OPENSSL_gmtime_diff\<close> gives the seconds from one time to another,
  split into days and a rest of the same sign that is less than a day. The day of the month need not exist,
  since the parsers of times take any up to 31; it is counted on from the first.\<close>

lemma OPENSSL_gmtime_diff_parts:
  assumes "possible_tm a" "possible_tm b" "- 1900 \<le> tm_year a" "tm_year a \<le> 8099" "- 1900 \<le> tm_year b" "tm_year b \<le> 8099"
  shows "OPENSSL_gmtime_diff a b = Some ((tm_stamp b - tm_stamp a) sdiv 86400, (tm_stamp b - tm_stamp a) smod 86400)"
proof -
  have j: "julian_adj t 0 0 = Some (tm_stamp t div 86400 + 2440588, tm_stamp t mod 86400)"
    if "possible_tm t" "- 1900 \<le> tm_year t" "tm_year t \<le> 8099" for t
  proof -
    have v: "valid_clock t" "0 \<le> tm_mon t" "tm_mon t < 12" using that(1) by (simp_all add: possible_tm_def)
    have "0 \<le> tm_stamp t div 86400 + 2440588" using stamp_in_range(1) [OF that] by simp
    then show ?thesis using julian_adj_exact [OF v, of 0 0] that(2) by (simp add: Let_def)
  qed
  define dd where "dd = tm_stamp b div 86400 - tm_stamp a div 86400"
  define ds where "ds = tm_stamp b mod 86400 - tm_stamp a mod 86400"
  have ds: "\<bar>ds\<bar> < 86400" using pos_mod_bound [of 86400 "tm_stamp a"] pos_mod_sign [of 86400 "tm_stamp a"]
      pos_mod_bound [of 86400 "tm_stamp b"] pos_mod_sign [of 86400 "tm_stamp b"] by (simp add: ds_def)
  have e: "tm_stamp b - tm_stamp a = dd * 86400 + ds"
  proof -
    have "y - x = (p - q) * 86400 + (r - s)" if "p * 86400 + r = y" "q * 86400 + s = x" for p q r s x y :: int
      using that by simp
    from this [OF div_mult_mod_eq div_mult_mod_eq] show ?thesis unfolding dd_def ds_def .
  qed
  define q where "q = (if dd > 0 \<and> ds < 0 then dd - 1 else if dd < 0 \<and> ds > 0 then dd + 1 else dd)"
  define r where "r = (if dd > 0 \<and> ds < 0 then ds + 86400 else if dd < 0 \<and> ds > 0 then ds - 86400 else ds)"
  have qr: "(tm_stamp b - tm_stamp a) sdiv 86400 = q" "(tm_stamp b - tm_stamp a) smod 86400 = r"
    by (rule sdiv_smod_unique [where q = q and r = r]; use ds in \<open>auto simp: e q_def r_def\<close>)+
  have "\<bar>dd\<bar> < 10000000"
    using stamp_in_range [OF assms(1,3,4)] stamp_in_range [OF assms(2,5,6)] by (simp add: dd_def)
  then have tq: "to_int q = q" by (simp add: to_int_id q_def)
  have u: "tm_stamp b div 86400 + 2440588 - (tm_stamp a div 86400 + 2440588) = dd" by (simp add: dd_def)
  show ?thesis
    unfolding OPENSSL_gmtime_diff_def j [OF assms(1,3,4)] j [OF assms(2,5,6)] qr option.case prod.case Let_def u
      ds_def [symmetric] SECS_PER_DAY_def
    using tq by (auto simp: q_def r_def)
qed

end
