(* ===== verification/Asn1Time.thy ===== *)
theory Asn1Time
  imports X509Host TimeSupport Oid
begin

text \<open>The times of certificates, \<^verbatim>\<open>crypto/asn1/a_utctm.c\<close>, \<^verbatim>\<open>a_gentm.c\<close>, \<^verbatim>\<open>a_time.c\<close>, and their comparison with
  the clock, \<^verbatim>\<open>crypto/x509/x509_vfy.c\<close>. The data of an \<^verbatim>\<open>ASN1_STRING\<close> are followed by a zero byte, as
  \<^verbatim>\<open>ASN1_STRING_set\<close> stores them; the parsers read it to find the end. A parser gives what it stores in
  \<^verbatim>\<open>*tm\<close>, if there is one, or fails; what it has stored before it fails is not used by its callers.\<close>

unbundle bit_operations_syntax

definition V_ASN1_UTCTIME :: int where "V_ASN1_UTCTIME = 23"
definition V_ASN1_GENERALIZEDTIME :: int where "V_ASN1_GENERALIZEDTIME = 24"
definition ASN1_STRING_FLAG_MSTRING :: int where "ASN1_STRING_FLAG_MSTRING = 0x40"

text \<open>A local \<^verbatim>\<open>struct tm\<close>, whose fields are all stored before they are read.\<close>

definition local_tm :: tm where
  "local_tm = \<lparr>tm_sec = 0, tm_min = 0, tm_hour = 0, tm_mday = 0, tm_mon = 0, tm_year = 0\<rparr>"

definition string_data :: "asn1_string \<Rightarrow> byte list" where
  "string_data s = (case as_data s of None \<Rightarrow> [] | Some d \<Rightarrow> d)"

definition char_at :: "byte list \<Rightarrow> nat \<Rightarrow> nat" where
  "char_at a p = (if p < length a then unat (a ! p) else 0)"

definition time_digit :: "nat \<Rightarrow> bool" where "time_digit c \<longleftrightarrow> 48 \<le> c \<and> c \<le> 57"

definition two_digits :: "byte list \<Rightarrow> nat \<Rightarrow> (int \<times> nat) option" where
  "two_digits a p =
     (if \<not> time_digit (char_at a p) then None
      else
        (let n = int (char_at a p) - 48; p = p + 1 in
         if p > length a then None
         else if \<not> time_digit (char_at a p) then None
         else
           (let n = n * 10 + int (char_at a p) - 48; p = p + 1 in
            if p > length a then None else Some (n, p))))"

definition zone_digits :: "byte list \<Rightarrow> nat \<Rightarrow> int \<Rightarrow> (int \<times> nat) option" where
  "zone_digits a p hi =
     (if \<not> time_digit (char_at a p) \<or> \<not> time_digit (char_at a (p + 1)) then None
      else
        (let n = (int (char_at a p) - 48) * 10 + int (char_at a (p + 1)) - 48 in
         if n < 0 \<or> n > hi then None else Some (n, p + 2)))"

text \<open>The offset \<^verbatim>\<open>hhmm\<close> of a time zone, in seconds.\<close>

definition zone_offset :: "byte list \<Rightarrow> nat \<Rightarrow> (int \<times> nat) option" where
  "zone_offset a p =
     (case zone_digits a p 12 of
        None \<Rightarrow> None
      | Some (n, p) \<Rightarrow>
         (case zone_digits a p 59 of
            None \<Rightarrow> None
          | Some (n', p) \<Rightarrow> Some (n * 3600 + n' * 60, p)))"

definition time_zone :: "byte list \<Rightarrow> nat \<Rightarrow> tm option \<Rightarrow> tm option option" where
  "time_zone a p tm =
     (let offsign = (if char_at a p = 0x2d then 1 else - 1); p = p + 1 in
      if p + 4 > length a then None
      else
        (case zone_offset a p of
           None \<Rightarrow> None
         | Some (off, p) \<Rightarrow>
            (case tm of
               None \<Rightarrow> if p = length a then Some None else None
             | Some t \<Rightarrow>
                if off \<noteq> 0 then
                  (case OPENSSL_gmtime_adj t 0 (off * offsign) of
                     None \<Rightarrow> None
                   | Some t \<Rightarrow> if p = length a then Some (Some t) else None)
                else if p = length a then Some tm else None)))"

subsection \<open>UTCTime\<close>

definition utc_min :: "int list" where "utc_min = [0, 1, 1, 0, 0, 0, 0, 0]"
definition utc_max :: "int list" where "utc_max = [99, 12, 31, 23, 59, 59, 12, 59]"

definition utc_store :: "nat \<Rightarrow> int \<Rightarrow> tm \<Rightarrow> tm" where
  "utc_store i n tm =
     (if i = 0 then tm\<lparr>tm_year := if n < 50 then n + 100 else n\<rparr>
      else if i = 1 then tm\<lparr>tm_mon := n - 1\<rparr>
      else if i = 2 then tm\<lparr>tm_mday := n\<rparr>
      else if i = 3 then tm\<lparr>tm_hour := n\<rparr>
      else if i = 4 then tm\<lparr>tm_min := n\<rparr>
      else if i = 5 then tm\<lparr>tm_sec := n\<rparr>
      else tm)"

fun utc_fields :: "byte list \<Rightarrow> nat list \<Rightarrow> nat \<Rightarrow> tm option \<Rightarrow> (nat \<times> tm option) option" where
  "utc_fields a [] p tm = Some (p, tm)"
| "utc_fields a (i # is) p tm =
     (if i = 5 \<and> (char_at a p = 0x5a \<or> char_at a p = 0x2b \<or> char_at a p = 0x2d) then Some (p, map_option (\<lambda>t. t\<lparr>tm_sec := 0\<rparr>) tm)
      else
        (case two_digits a p of
           None \<Rightarrow> None
         | Some (n, p) \<Rightarrow>
            if n < utc_min ! i \<or> n > utc_max ! i then None
            else utc_fields a is p (map_option (utc_store i n) tm)))"

definition asn1_utctime_to_tm :: "tm option \<Rightarrow> asn1_string \<Rightarrow> tm option option" where
  "asn1_utctime_to_tm tm d =
     (if as_type d \<noteq> V_ASN1_UTCTIME then None
      else
        (let a = string_data d in
         if length a < 11 then None
         else
           (case utc_fields a [0..<6] 0 tm of
              None \<Rightarrow> None
            | Some (p, tm) \<Rightarrow>
               if char_at a p = 0x5a then (if p + 1 = length a then Some tm else None)
               else if char_at a p = 0x2b \<or> char_at a p = 0x2d then time_zone a p tm
               else if p = length a then Some tm
               else None)))"

definition ASN1_UTCTIME_check :: "asn1_string \<Rightarrow> bool" where
  "ASN1_UTCTIME_check d \<longleftrightarrow> asn1_utctime_to_tm None d \<noteq> None"

subsection \<open>GeneralizedTime\<close>

definition gen_min :: "int list" where "gen_min = [0, 0, 1, 1, 0, 0, 0, 0, 0]"
definition gen_max :: "int list" where "gen_max = [99, 99, 12, 31, 23, 59, 59, 12, 59]"

definition gen_store :: "nat \<Rightarrow> int \<Rightarrow> tm \<Rightarrow> tm" where
  "gen_store i n tm =
     (if i = 0 then tm\<lparr>tm_year := n * 100 - 1900\<rparr>
      else if i = 1 then tm\<lparr>tm_year := tm_year tm + n\<rparr>
      else if i = 2 then tm\<lparr>tm_mon := n - 1\<rparr>
      else if i = 3 then tm\<lparr>tm_mday := n\<rparr>
      else if i = 4 then tm\<lparr>tm_hour := n\<rparr>
      else if i = 5 then tm\<lparr>tm_min := n\<rparr>
      else if i = 6 then tm\<lparr>tm_sec := n\<rparr>
      else tm)"

fun gen_fields :: "byte list \<Rightarrow> nat list \<Rightarrow> nat \<Rightarrow> tm option \<Rightarrow> (nat \<times> tm option) option" where
  "gen_fields a [] p tm = Some (p, tm)"
| "gen_fields a (i # is) p tm =
     (if i = 6 \<and> (char_at a p = 0x5a \<or> char_at a p = 0x2b \<or> char_at a p = 0x2d) then Some (p, map_option (\<lambda>t. t\<lparr>tm_sec := 0\<rparr>) tm)
      else
        (case two_digits a p of
           None \<Rightarrow> None
         | Some (n, p) \<Rightarrow>
            if n < gen_min ! i \<or> n > gen_max ! i then None
            else gen_fields a is p (map_option (gen_store i n) tm)))"

text \<open>The optional fraction of a second is read over.\<close>

definition gen_fraction :: "byte list \<Rightarrow> nat \<Rightarrow> nat option" where
  "gen_fraction a p =
     (if char_at a p = 0x2e then
        (let p = p + 1 in
         if p > length a then None
         else
           (let k = length (takeWhile (\<lambda>c. time_digit (unat c)) (drop p a)) in
            if k = 0 then None else Some (p + k)))
      else Some p)"

definition asn1_generalizedtime_to_tm :: "tm option \<Rightarrow> asn1_string \<Rightarrow> tm option option" where
  "asn1_generalizedtime_to_tm tm d =
     (if as_type d \<noteq> V_ASN1_GENERALIZEDTIME then None
      else
        (let a = string_data d in
         if length a < 13 then None
         else
           (case gen_fields a [0..<7] 0 tm of
              None \<Rightarrow> None
            | Some (p, tm) \<Rightarrow>
               (case gen_fraction a p of
                  None \<Rightarrow> None
                | Some p \<Rightarrow>
                   if char_at a p = 0x5a then (if p + 1 = length a then Some tm else None)
                   else if char_at a p = 0x2b \<or> char_at a p = 0x2d then time_zone a p tm
                   else if char_at a p \<noteq> 0 then None
                   else if p = length a then Some tm
                   else None))))"

definition ASN1_GENERALIZEDTIME_check :: "asn1_string \<Rightarrow> bool" where
  "ASN1_GENERALIZEDTIME_check d \<longleftrightarrow> asn1_generalizedtime_to_tm None d \<noteq> None"

subsection \<open>The clock\<close>

text \<open>\<^verbatim>\<open>gmtime_r\<close> of the C library: the date is found in a cycle of 400 years and moved to its year. It fails if
  the year does not fit an \<^verbatim>\<open>int\<close>. \<open>gmtime_r_iff\<close> below shows that it does what POSIX says, and nothing else.\<close>

definition gmtime_r :: "int \<Rightarrow> tm option" where
  "gmtime_r t =
     (let jd = t div 86400 + 2440588; s = t mod 86400 in
      case julian_to_date (jd mod 146097) of
        (y, m, d) \<Rightarrow>
          (let year = y + 400 * (jd div 146097) - 1900 in
           if year < - 2147483648 \<or> year \<ge> 2147483648 then None
           else Some \<lparr>tm_sec = s mod 60, tm_min = (s div 60) mod 60, tm_hour = s div 3600, tm_mday = d, tm_mon = m - 1, tm_year = year\<rparr>))"

definition OPENSSL_gmtime :: "int \<Rightarrow> tm option" where
  "OPENSSL_gmtime time = gmtime_r time"

text \<open>The conversion \<^verbatim>\<open>%0wd\<close> of \<^verbatim>\<open>BIO_snprintf\<close>.\<close>

definition print_d :: "nat \<Rightarrow> int \<Rightarrow> byte list" where
  "print_d w n =
     (let sign = (if n < 0 then [0x2d] else []); ds = decimal_digits (nat \<bar>n\<bar>) in
      sign @ replicate (w - length sign - length ds) 0x30 @ ds)"

definition ASN1_STRING_type_new :: "libc_malloc \<Rightarrow> int \<Rightarrow> asn1_string option" where
  "ASN1_STRING_type_new m type =
     (case OPENSSL_malloc m 24 of
        None \<Rightarrow> None
      | Some _ \<Rightarrow> Some \<lparr>as_type = type, as_data = None, as_flags = 0\<rparr>)"

definition gmtime_offset :: "int \<Rightarrow> int \<Rightarrow> int \<Rightarrow> tm option" where
  "gmtime_offset t offset_day offset_sec =
     (case OPENSSL_gmtime t of
        None \<Rightarrow> None
      | Some ts \<Rightarrow> if offset_day \<noteq> 0 \<or> offset_sec \<noteq> 0 then OPENSSL_gmtime_adj ts offset_day offset_sec else Some ts)"

text \<open>The data of \<^verbatim>\<open>s\<close> if they have room for 20 bytes, or a new block of 20 bytes.\<close>

definition time_buffer :: "libc_malloc \<Rightarrow> asn1_string \<Rightarrow> bool" where
  "time_buffer m s \<longleftrightarrow>
     (if as_data s = None \<or> length (string_data s) < 20 then OPENSSL_malloc m 20 \<noteq> None else True)"

definition utc_text :: "tm \<Rightarrow> byte list" where
  "utc_text ts =
     take 19 (print_d 2 (tm_year ts smod 100) @ print_d 2 (tm_mon ts + 1) @ print_d 2 (tm_mday ts) @ print_d 2 (tm_hour ts) @
       print_d 2 (tm_min ts) @ print_d 2 (tm_sec ts) @ [0x5a])"

definition gen_text :: "tm \<Rightarrow> byte list" where
  "gen_text ts =
     take 19 (print_d 4 (tm_year ts + 1900) @ print_d 2 (tm_mon ts + 1) @ print_d 2 (tm_mday ts) @ print_d 2 (tm_hour ts) @
       print_d 2 (tm_min ts) @ print_d 2 (tm_sec ts) @ [0x5a])"

definition ASN1_UTCTIME_adj :: "libc_malloc \<Rightarrow> asn1_string option \<Rightarrow> int \<Rightarrow> int \<Rightarrow> int \<Rightarrow> asn1_string option" where
  "ASN1_UTCTIME_adj m s t offset_day offset_sec =
     (case (case s of None \<Rightarrow> ASN1_STRING_type_new m V_ASN1_UTCTIME | Some s \<Rightarrow> Some s) of
        None \<Rightarrow> None
      | Some s \<Rightarrow>
         (case gmtime_offset t offset_day offset_sec of
            None \<Rightarrow> None
          | Some ts \<Rightarrow>
             if tm_year ts < 50 \<or> tm_year ts \<ge> 150 then None
             else if \<not> time_buffer m s then None
             else Some (s\<lparr>as_data := Some (utc_text ts), as_type := V_ASN1_UTCTIME\<rparr>)))"

definition ASN1_UTCTIME_set :: "libc_malloc \<Rightarrow> asn1_string option \<Rightarrow> int \<Rightarrow> asn1_string option" where
  "ASN1_UTCTIME_set m s t = ASN1_UTCTIME_adj m s t 0 0"

definition ASN1_UTCTIME_cmp_time_t :: "asn1_string \<Rightarrow> int \<Rightarrow> int" where
  "ASN1_UTCTIME_cmp_time_t s t =
     (case asn1_utctime_to_tm (Some local_tm) s of
        Some (Some stm) \<Rightarrow>
          (case OPENSSL_gmtime t of
             None \<Rightarrow> - 2
           | Some ttm \<Rightarrow>
              (case OPENSSL_gmtime_diff ttm stm of
                 None \<Rightarrow> - 2
               | Some (day, sec) \<Rightarrow>
                  if day > 0 then 1 else if day < 0 then - 1
                  else if sec > 0 then 1 else if sec < 0 then - 1 else 0))
      | _ \<Rightarrow> - 2)"

definition ASN1_GENERALIZEDTIME_adj :: "libc_malloc \<Rightarrow> asn1_string option \<Rightarrow> int \<Rightarrow> int \<Rightarrow> int \<Rightarrow> asn1_string option" where
  "ASN1_GENERALIZEDTIME_adj m s t offset_day offset_sec =
     (case (case s of None \<Rightarrow> ASN1_STRING_type_new m V_ASN1_GENERALIZEDTIME | Some s \<Rightarrow> Some s) of
        None \<Rightarrow> None
      | Some tmps \<Rightarrow>
         (case gmtime_offset t offset_day offset_sec of
            None \<Rightarrow> None
          | Some ts \<Rightarrow>
             if \<not> time_buffer m tmps then None
             else Some (tmps\<lparr>as_data := Some (gen_text ts), as_type := V_ASN1_GENERALIZEDTIME\<rparr>)))"

definition ASN1_GENERALIZEDTIME_set :: "libc_malloc \<Rightarrow> asn1_string option \<Rightarrow> int \<Rightarrow> asn1_string option" where
  "ASN1_GENERALIZEDTIME_set m s t = ASN1_GENERALIZEDTIME_adj m s t 0 0"

subsection \<open>Time\<close>

definition ASN1_TIME_adj :: "libc_malloc \<Rightarrow> asn1_string option \<Rightarrow> int \<Rightarrow> int \<Rightarrow> int \<Rightarrow> asn1_string option" where
  "ASN1_TIME_adj m s t offset_day offset_sec =
     (case gmtime_offset t offset_day offset_sec of
        None \<Rightarrow> None
      | Some ts \<Rightarrow>
         if tm_year ts \<ge> 50 \<and> tm_year ts < 150 then ASN1_UTCTIME_adj m s t offset_day offset_sec
         else ASN1_GENERALIZEDTIME_adj m s t offset_day offset_sec)"

definition ASN1_TIME_set :: "libc_malloc \<Rightarrow> asn1_string option \<Rightarrow> int \<Rightarrow> asn1_string option" where
  "ASN1_TIME_set m s t = ASN1_TIME_adj m s t 0 0"

definition ASN1_TIME_check :: "asn1_string \<Rightarrow> bool" where
  "ASN1_TIME_check t =
     (if as_type t = V_ASN1_GENERALIZEDTIME then ASN1_GENERALIZEDTIME_check t
      else if as_type t = V_ASN1_UTCTIME then ASN1_UTCTIME_check t
      else False)"

text \<open>\<^verbatim>\<open>now\<close> is what \<^verbatim>\<open>time\<close> returns.\<close>

definition asn1_time_to_tm :: "int \<Rightarrow> asn1_string option \<Rightarrow> tm option" where
  "asn1_time_to_tm now t =
     (case t of
        None \<Rightarrow> OPENSSL_gmtime now
      | Some t \<Rightarrow>
         if as_type t = V_ASN1_UTCTIME then Option.bind (asn1_utctime_to_tm (Some local_tm) t) id
         else if as_type t = V_ASN1_GENERALIZEDTIME then Option.bind (asn1_generalizedtime_to_tm (Some local_tm) t) id
         else None)"

definition ASN1_TIME_diff :: "int \<Rightarrow> asn1_string option \<Rightarrow> asn1_string option \<Rightarrow> (int \<times> int) option" where
  "ASN1_TIME_diff now from_t to_t =
     (case asn1_time_to_tm now from_t of
        None \<Rightarrow> None
      | Some tm_from \<Rightarrow>
         (case asn1_time_to_tm now to_t of
            None \<Rightarrow> None
          | Some tm_to \<Rightarrow> OPENSSL_gmtime_diff tm_from tm_to))"

subsection \<open>Comparison with the clock\<close>

definition X509_time_adj_ex :: "libc_malloc \<Rightarrow> int \<Rightarrow> asn1_string option \<Rightarrow> int \<Rightarrow> int \<Rightarrow> int option \<Rightarrow> asn1_string option" where
  "X509_time_adj_ex m now s offset_day offset_sec in_tm =
     (let t = (case in_tm of Some t \<Rightarrow> t | None \<Rightarrow> now) in
      case s of
        Some str \<Rightarrow>
          if as_flags str AND ASN1_STRING_FLAG_MSTRING = 0 then
            (if as_type str = V_ASN1_UTCTIME then ASN1_UTCTIME_adj m s t offset_day offset_sec
             else if as_type str = V_ASN1_GENERALIZEDTIME then ASN1_GENERALIZEDTIME_adj m s t offset_day offset_sec
             else ASN1_TIME_adj m s t offset_day offset_sec)
          else ASN1_TIME_adj m s t offset_day offset_sec
      | None \<Rightarrow> ASN1_TIME_adj m s t offset_day offset_sec)"

definition X509_time_adj :: "libc_malloc \<Rightarrow> int \<Rightarrow> asn1_string option \<Rightarrow> int \<Rightarrow> int option \<Rightarrow> asn1_string option" where
  "X509_time_adj m now s offset_sec in_tm = X509_time_adj_ex m now s 0 offset_sec in_tm"

definition X509_gmtime_adj :: "libc_malloc \<Rightarrow> int \<Rightarrow> asn1_string option \<Rightarrow> int \<Rightarrow> asn1_string option" where
  "X509_gmtime_adj m now s adj = X509_time_adj m now s adj None"

definition X509_cmp_time :: "libc_malloc \<Rightarrow> int \<Rightarrow> asn1_string \<Rightarrow> int option \<Rightarrow> int" where
  "X509_cmp_time m now ctm cmp_time =
     (let data = string_data ctm in
      if \<not> (if as_type ctm = V_ASN1_UTCTIME then length data = 13
            else if as_type ctm = V_ASN1_GENERALIZEDTIME then length data = 15
            else False) then 0
      else if \<not> (\<forall>c \<in> set (butlast data). time_digit (unat c)) then 0
      else if last data \<noteq> 0x5a then 0
      else
        (case X509_time_adj m now None 0 cmp_time of
           None \<Rightarrow> 0
         | Some asn1_cmp_time \<Rightarrow>
            (case ASN1_TIME_diff now (Some ctm) (Some asn1_cmp_time) of
               None \<Rightarrow> 0
             | Some (day, sec) \<Rightarrow> if day \<ge> 0 \<and> sec \<ge> 0 then - 1 else 1)))"

definition X509_cmp_current_time :: "libc_malloc \<Rightarrow> int \<Rightarrow> asn1_string \<Rightarrow> int" where
  "X509_cmp_current_time m now ctm = X509_cmp_time m now ctm None"

subsection \<open>The calendar of the C library\<close>

lemma cycle_400: "days_before_year (y + 400 * k) = days_before_year y + 146097 * k" "leap_year (y + 400 * k) = leap_year y"
proof -
  have e: "y + 400 * k - 1 = y - 1 + (100 * k) * 4" "y + 400 * k - 1 = y - 1 + (4 * k) * 100" "y + 400 * k - 1 = y - 1 + k * 400"
    by simp_all
  have "(y + 400 * k - 1) div 4 = 100 * k + (y - 1) div 4" unfolding e(1) by (rule div_mult_self1) simp
  moreover have "(y + 400 * k - 1) div 100 = 4 * k + (y - 1) div 100" unfolding e(2) by (rule div_mult_self1) simp
  moreover have "(y + 400 * k - 1) div 400 = k + (y - 1) div 400" unfolding e(3) by (rule div_mult_self1) simp
  ultimately show "days_before_year (y + 400 * k) = days_before_year y + 146097 * k" by (simp add: days_before_year_def)
  have e: "y + 400 * k = y + (100 * k) * 4" "y + 400 * k = y + (4 * k) * 100" "y + 400 * k = y + k * 400" by simp_all
  have "(y + 400 * k) mod 4 = y mod 4" unfolding e(1) by (rule mod_mult_self1)
  moreover have "(y + 400 * k) mod 100 = y mod 100" unfolding e(2) by (rule mod_mult_self1)
  moreover have "(y + 400 * k) mod 400 = y mod 400" unfolding e(3) by (rule mod_mult_self1)
  ultimately show "leap_year (y + 400 * k) = leap_year y" by (simp only: leap_year_def)
qed

lemma cycle_400_dates:
  assumes "valid_date y m d"
  shows "valid_date (y + 400 * k) m d" "day_number (y + 400 * k) m d = day_number y m d + 146097 * k"
proof -
  have "month_days (y + 400 * k) = month_days y" by (rule ext) (simp add: month_days_def cycle_400(2))
  then show "valid_date (y + 400 * k) m d" "day_number (y + 400 * k) m d = day_number y m d + 146097 * k"
    using assms by (simp_all add: valid_date_def day_number_def days_before_month_def cycle_400(1))
qed

lemma gmtime_r_date:
  obtains b where "gmtime_r t = (if tm_year b < - 2147483648 \<or> tm_year b \<ge> 2147483648 then None else Some b)"
    "valid_tm b" "tm_stamp b = t"
proof -
  define n where "n = t div 86400 + 2440588"
  define s where "s = t mod 86400"
  have s: "0 \<le> s" "s < 86400" by (simp_all add: s_def)
  have j: "0 \<le> n mod 146097" "n mod 146097 < 8589934592"
    using pos_mod_sign [of 146097 n] pos_mod_bound [of 146097 n] by simp_all
  obtain y m d where jd: "julian_to_date (n mod 146097) = (y, m, d)" "valid_date y m d" "day_number y m d + 1721425 = n mod 146097"
    by (rule julian_to_date_exact [OF j])
  define b where "b = \<lparr>tm_sec = s mod 60, tm_min = (s div 60) mod 60, tm_hour = s div 3600, tm_mday = d, tm_mon = m - 1,
      tm_year = y + 400 * (n div 146097) - 1900\<rparr>"
  have run: "gmtime_r t = (if tm_year b < - 2147483648 \<or> tm_year b \<ge> 2147483648 then None else Some b)"
    unfolding gmtime_r_def Let_def n_def [symmetric] s_def [symmetric] jd by (simp add: b_def)
  have v: "valid_tm b"
    using cycle_400_dates(1) [OF jd(2)] split_clock [OF s] by (simp add: b_def valid_tm_def valid_clock_def)
  have "day_number (tm_year b + 1900) (tm_mon b + 1) (tm_mday b) + 1721425 = n mod 146097 + 146097 * (n div 146097)"
    unfolding jd(3) [symmetric] using cycle_400_dates(2) [OF jd(2), of "n div 146097"] by (simp add: b_def)
  then have "day_number (tm_year b + 1900) (tm_mon b + 1) (tm_mday b) = t div 86400 + 719163"
    unfolding mod_mult_div_eq by (simp add: n_def)
  then have "tm_stamp b = 86400 * (t div 86400) + (3600 * (s div 3600) + 60 * ((s div 60) mod 60) + s mod 60)"
    unfolding tm_stamp_def by (simp add: b_def)
  then have t: "tm_stamp b = t" unfolding split_clock(3) [OF s] unfolding s_def mult_div_mod_eq .
  show thesis by (rule that [OF run v t])
qed

lemma gmtime_r_iff:
  "gmtime_r t = Some ts \<longleftrightarrow> valid_tm ts \<and> tm_stamp ts = t \<and> - 2147483648 \<le> tm_year ts \<and> tm_year ts < 2147483648"
proof -
  obtain b where b: "gmtime_r t = (if tm_year b < - 2147483648 \<or> tm_year b \<ge> 2147483648 then None else Some b)"
    "valid_tm b" "tm_stamp b = t" by (rule gmtime_r_date)
  have "ts = b" if "valid_tm ts" "tm_stamp ts = t" using tm_stamp_inj [OF that(1) b(2)] that(2) b(3) by simp
  then show ?thesis unfolding b(1) using b(2,3) by (metis not_le option.inject option.distinct(1))
qed

lemma gmtime_r_total:
  assumes "- 62167219200 \<le> t" "t < 253402300800"
  obtains ts where "gmtime_r t = Some ts" "valid_tm ts" "tm_stamp ts = t" "- 1900 \<le> tm_year ts" "tm_year ts \<le> 8099"
proof -
  obtain b where b: "gmtime_r t = (if tm_year b < - 2147483648 \<or> tm_year b \<ge> 2147483648 then None else Some b)"
    "valid_tm b" "tm_stamp b = t" by (rule gmtime_r_date)
  define D where "D = day_number (tm_year b + 1900) (tm_mon b + 1) (tm_mday b)"
  have c: "valid_clock b" "valid_date (tm_year b + 1900) (tm_mon b + 1) (tm_mday b)" using b(2) by (simp_all add: valid_tm_def)
  have "D = t div 86400 + 719163" using stamp_div_mod(1) [OF c(1)] b(3) by (simp add: D_def)
  then have D: "- 366 < D" "D \<le> 3652059" using assms by linarith+
  have "- 1900 \<le> tm_year b"
  proof (rule ccontr)
    assume "\<not> - 1900 \<le> tm_year b"
    then have "days_before_year (tm_year b + 1900 + 1) \<le> days_before_year 0" by (intro days_before_year_mono) simp
    then show False using day_in_year(2) [OF c(2)] D(1) by (simp add: D_def days_before_year_def)
  qed
  moreover have "tm_year b \<le> 8099"
  proof (rule ccontr)
    assume "\<not> tm_year b \<le> 8099"
    then have "days_before_year 10000 \<le> days_before_year (tm_year b + 1900)" by (intro days_before_year_mono) simp
    then show False using day_in_year(1) [OF c(2)] D(2) days_before_year_values by (simp add: D_def)
  qed
  ultimately show thesis using that [of b] b by simp
qed

subsection \<open>Reading what was written\<close>

definition digit :: "int \<Rightarrow> byte" where "digit k = word_of_nat (48 + nat k)"

lemma unat_digit: "0 \<le> k \<Longrightarrow> k < 10 \<Longrightarrow> unat (digit k) = 48 + nat k"
  by (simp only: digit_def unat_of_nat) auto

lemma decimal_digits_step: "n < 10 \<Longrightarrow> decimal_digits n = [word_of_nat (48 + n)]"
  "10 \<le> n \<Longrightarrow> decimal_digits n = decimal_digits (n div 10) @ [word_of_nat (48 + n mod 10)]"
  by (simp_all add: decimal_digits.simps [of n])

lemma print_d_2: "0 \<le> n \<Longrightarrow> n < 100 \<Longrightarrow> print_d 2 n = [digit (n div 10), digit (n mod 10)]"
  by (cases "n < 10") (simp_all add: print_d_def digit_def decimal_digits_step nat_div_distrib nat_mod_distrib)

lemma digits_4:
  fixes k :: nat
  shows "k div 10 div 10 = k div 100" "k div 100 div 10 = k div 1000" "k mod 100 div 10 = k div 10 mod 10" "k mod 100 mod 10 = k mod 10"
  by (simp_all add: div_mult2_eq [symmetric] mod_mult2_eq [of k 10 10, simplified] mod_mod_cancel)

lemma replicate_2: "replicate 2 x = [x, x]"
  by (simp add: numeral_2_eq_2)

lemma print_d_2_nat: "k < 100 \<Longrightarrow> print_d 2 (int k) = [word_of_nat (48 + k div 10), word_of_nat (48 + k mod 10)]"
  by (cases "k < 10") (simp_all add: print_d_def decimal_digits_step)

lemma print_d_4: "0 \<le> n \<Longrightarrow> n < 10000 \<Longrightarrow> print_d 4 n = print_d 2 (n div 100) @ print_d 2 (n mod 100)"
proof -
  assume "0 \<le> n" "n < 10000"
  then obtain k where k: "n = int k" "k < 10000" using nonneg_int_cases [of n] by (metis of_nat_less_numeral_iff)
  have "n div 100 = int (k div 100)" "n mod 100 = int (k mod 100)" "k div 100 < 100" "k mod 100 < 100" using k by (simp_all add: zdiv_int zmod_int)
  then have r: "print_d 2 (n div 100) @ print_d 2 (n mod 100) =
      [word_of_nat (48 + k div 1000), word_of_nat (48 + k div 100 mod 10), word_of_nat (48 + k div 10 mod 10), word_of_nat (48 + k mod 10)]"
    by (simp only: print_d_2_nat digits_4 append.simps)
  consider "k < 10" | "10 \<le> k" "k < 100" | "100 \<le> k" "k < 1000" | "1000 \<le> k" by linarith
  then show ?thesis unfolding r
    by cases (use k in \<open>simp_all add: print_d_def decimal_digits_step replicate_2 numeral_3_eq_3 digits_4\<close>)
qed

subsection \<open>The profile of RFC 5280\<close>

text \<open>The time that a string of digits and a \<^verbatim>\<open>Z\<close> is, \<^verbatim>\<open>YYMMDDHHMMSSZ\<close> or \<^verbatim>\<open>YYYYMMDDHHMMSSZ\<close>. Years of two
  digits are those from 1950 to 2049. Any day up to 31 is taken for any month.\<close>

definition number :: "byte list \<Rightarrow> nat \<Rightarrow> int" where
  "number d k = 10 * (int (unat (d ! k)) - 48) + (int (unat (d ! (k + 1))) - 48)"

definition rfc_format :: "asn1_string \<Rightarrow> bool" where
  "rfc_format s \<longleftrightarrow>
     (as_type s = V_ASN1_UTCTIME \<and> length (string_data s) = 13 \<or>
      as_type s = V_ASN1_GENERALIZEDTIME \<and> length (string_data s) = 15) \<and>
     (\<forall>c \<in> set (butlast (string_data s)). time_digit (unat c)) \<and> last (string_data s) = 0x5a"

definition rfc_fields :: "byte list \<Rightarrow> int \<Rightarrow> nat \<Rightarrow> tm option" where
  "rfc_fields d year k =
     (if 1 \<le> number d k \<and> number d k \<le> 12 \<and> 1 \<le> number d (k + 2) \<and> number d (k + 2) \<le> 31 \<and>
         number d (k + 4) \<le> 23 \<and> number d (k + 6) \<le> 59 \<and> number d (k + 8) \<le> 59
      then Some \<lparr>tm_sec = number d (k + 8), tm_min = number d (k + 6), tm_hour = number d (k + 4), tm_mday = number d (k + 2),
             tm_mon = number d k - 1, tm_year = year - 1900\<rparr>
      else None)"

definition rfc_time :: "asn1_string \<Rightarrow> tm option" where
  "rfc_time s =
     (let d = string_data s in
      if \<not> rfc_format s then None
      else if as_type s = V_ASN1_UTCTIME then rfc_fields d (number d 0 + (if number d 0 < 50 then 2000 else 1900)) 2
      else rfc_fields d (100 * number d 0 + number d 2) 4)"

lemma two_digits_number:
  assumes "time_digit (char_at d p)" "time_digit (char_at d (p + 1))" "p + 2 \<le> length d"
  shows "two_digits d p = Some (number d p, p + 2)" "0 \<le> number d p" "number d p \<le> 99"
proof -
  have d: "time_digit (unat (d ! p))" "time_digit (unat (d ! (p + 1)))" using assms by (simp_all add: char_at_def)
  have "0 \<le> 10 * (int x - 48) + (int y - 48) \<and> 10 * (int x - 48) + (int y - 48) \<le> 99" if "time_digit x" "time_digit y" for x y
    using that by (simp add: time_digit_def)
  from this [OF d] show "0 \<le> number d p" "number d p \<le> 99" unfolding number_def by simp_all
  show "two_digits d p = Some (number d p, p + 2)"
    using assms by (simp add: two_digits_def number_def char_at_def Let_def)
qed

lemma rfc_digits:
  assumes "rfc_format s"
  shows "\<And>p. p + 1 < length (string_data s) \<Longrightarrow> time_digit (char_at (string_data s) p)"
    and "char_at (string_data s) (length (string_data s) - 1) = 0x5a"
proof -
  let ?d = "string_data s"
  have d: "?d \<noteq> []" using assms by (auto simp: rfc_format_def)
  show "time_digit (char_at ?d p)" if "p + 1 < length ?d" for p
  proof -
    have "?d ! p \<in> set (butlast ?d)" using that by (metis add_lessD1 less_diff_conv nth_butlast nth_mem length_butlast)
    then show ?thesis using assms that by (simp add: rfc_format_def char_at_def)
  qed
  show "char_at ?d (length ?d - 1) = 0x5a" using assms d by (simp add: rfc_format_def char_at_def last_conv_nth)
qed

lemma digit_not_zone: "time_digit c \<Longrightarrow> c \<noteq> 0x5a \<and> c \<noteq> 0x2b \<and> c \<noteq> 0x2d \<and> c \<noteq> 0x2e"
  by (auto simp: time_digit_def)

lemma utctime_rfc:
  assumes "rfc_format s" "as_type s = V_ASN1_UTCTIME"
  shows "asn1_utctime_to_tm (Some t) s = map_option Some (rfc_time s)"
proof -
  let ?d = "string_data s"
  have l: "length ?d = 13" using assms by (auto simp: rfc_format_def V_ASN1_UTCTIME_def V_ASN1_GENERALIZEDTIME_def)
  note dig = rfc_digits(1) [OF assms(1), unfolded l]
  have n: "two_digits ?d p = Some (number ?d p, p + 2) \<and> 0 \<le> number ?d p \<and> number ?d p \<le> 99" if "p < 11" for p
    using two_digits_number [of ?d p] dig [of p] dig [of "p + 1"] l that by simp
  have z: "char_at ?d 12 = 0x5a" using rfc_digits(2) [OF assms(1)] l by simp
  have c: "\<not> (char_at ?d 10 = 0x5a \<or> char_at ?d 10 = 0x2b \<or> char_at ?d 10 = 0x2d)" using digit_not_zone [OF dig [of 10]] by simp
  have n0: "two_digits ?d 0 = Some (number ?d 0, 2)" "0 \<le> number ?d 0" "number ?d 0 \<le> 99"
    using n [of 0] by (simp_all add: numeral_2_eq_2)
  note ns = n0 n [of 2, simplified] n [of 4, simplified] n [of 6, simplified] n [of 8, simplified] n [of 10, simplified]
  have u: "[0..<6] = [0, 1, 2, 3, 4, 5 :: nat]" by (simp add: upt_rec)
  show ?thesis
    using assms l z c ns
    by (auto simp: asn1_utctime_to_tm_def rfc_time_def rfc_fields_def u utc_min_def utc_max_def utc_store_def Let_def)
qed

lemma generalizedtime_rfc:
  assumes "rfc_format s" "as_type s = V_ASN1_GENERALIZEDTIME"
  shows "asn1_generalizedtime_to_tm (Some t) s = map_option Some (rfc_time s)"
proof -
  let ?d = "string_data s"
  have l: "length ?d = 15" using assms by (auto simp: rfc_format_def V_ASN1_UTCTIME_def V_ASN1_GENERALIZEDTIME_def)
  have ty: "as_type s \<noteq> V_ASN1_UTCTIME" using assms(2) by (simp add: V_ASN1_UTCTIME_def V_ASN1_GENERALIZEDTIME_def)
  note dig = rfc_digits(1) [OF assms(1), unfolded l]
  have n: "two_digits ?d p = Some (number ?d p, p + 2) \<and> 0 \<le> number ?d p \<and> number ?d p \<le> 99" if "p < 13" for p
    using two_digits_number [of ?d p] dig [of p] dig [of "p + 1"] l that by simp
  have z: "char_at ?d 14 = 0x5a" using rfc_digits(2) [OF assms(1)] l by simp
  have c: "\<not> (char_at ?d 12 = 0x5a \<or> char_at ?d 12 = 0x2b \<or> char_at ?d 12 = 0x2d)" using digit_not_zone [OF dig [of 12]] by simp
  have n0: "two_digits ?d 0 = Some (number ?d 0, 2)" "0 \<le> number ?d 0" "number ?d 0 \<le> 99"
    using n [of 0] by (simp_all add: numeral_2_eq_2)
  note ns = n0 n [of 2, simplified] n [of 4, simplified] n [of 6, simplified] n [of 8, simplified] n [of 10, simplified] n [of 12, simplified]
  have u: "[0..<7] = [0, 1, 2, 3, 4, 5, 6 :: nat]" by (simp add: upt_rec)
  show ?thesis
    using assms l z c ns ty
    by (auto simp: asn1_generalizedtime_to_tm_def rfc_time_def rfc_fields_def u gen_min_def gen_max_def gen_store_def gen_fraction_def Let_def)
qed

lemma number_digits:
  assumes "xs ! k = digit (n div 10)" "xs ! (k + 1) = digit (n mod 10)" "0 \<le> n" "n < 100"
  shows "number xs k = n"
proof -
  have "0 \<le> n div 10" "n div 10 < 10" using assms(3,4) div_bounds [of 10 n] by simp_all
  then show ?thesis unfolding number_def assms(1,2) by (simp only: unat_digit pos_mod_sign pos_mod_bound zero_less_numeral) simp
qed

definition pair :: "int \<Rightarrow> byte list" where "pair n = [digit (n div 10), digit (n mod 10)]"

abbreviation two_digit :: "int \<Rightarrow> bool" where "two_digit n \<equiv> 0 \<le> n \<and> n < 100"

lemma pairs_digits: "\<forall>n \<in> set ns. two_digit n \<Longrightarrow> c \<in> set (concat (map pair ns)) \<Longrightarrow> time_digit (unat c)"
proof -
  have "time_digit (unat (digit (n div 10))) \<and> time_digit (unat (digit (n mod 10)))" if "two_digit n" for n
    using that div_bounds [of 10 n] by (simp add: unat_digit time_digit_def nat_le_iff)
  then show "\<forall>n \<in> set ns. two_digit n \<Longrightarrow> c \<in> set (concat (map pair ns)) \<Longrightarrow> time_digit (unat c)"
    by (auto simp: pair_def)
qed

lemma length_pairs: "length (concat (map pair ns)) = 2 * length ns"
  by (induction ns) (simp_all add: pair_def)

lemma number_pairs: "\<forall>n \<in> set ns. two_digit n \<Longrightarrow> i < length ns \<Longrightarrow> number (concat (map pair ns) @ xs) (2 * i) = ns ! i"
proof (induction ns arbitrary: i)
  case (Cons n ns)
  show ?case
  proof (cases i)
    case 0
    then show ?thesis using Cons.prems by (simp add: number_digits pair_def)
  next
    case (Suc k)
    have "number (concat (map pair (n # ns)) @ xs) (2 * i) = number (concat (map pair ns) @ xs) (2 * k)"
      by (simp add: Suc pair_def number_def)
    then show ?thesis using Cons Suc by simp
  qed
qed simp

lemma pairs_format:
  assumes "\<forall>n \<in> set ns. two_digit n"
    and "as_type s = V_ASN1_UTCTIME \<and> length ns = 6 \<or> as_type s = V_ASN1_GENERALIZEDTIME \<and> length ns = 7"
    and "as_data s = Some (concat (map pair ns) @ [0x5a])"
  shows "rfc_format s"
proof -
  have "string_data s = concat (map pair ns) @ [0x5a]" using assms(3) by (simp add: string_data_def)
  then show ?thesis unfolding rfc_format_def using assms(2) pairs_digits [OF assms(1)] by (auto simp: length_pairs)
qed

lemma possible_tm_bounds:
  "possible_tm ts \<Longrightarrow> \<forall>n \<in> set [tm_mon ts + 1, tm_mday ts, tm_hour ts, tm_min ts, tm_sec ts]. two_digit n"
  by (auto simp: possible_tm_def valid_clock_def)

lemma utc_year: "50 \<le> y \<Longrightarrow> y < 150 \<Longrightarrow> y smod 100 = (if y < 100 then y else y - 100)" for y :: int
  by (cases "y < 100") (auto simp: smod_nonneg intro: int_mod_pos_eq [where q = 1])

lemma utc_text_time:
  assumes "possible_tm ts" "50 \<le> tm_year ts" "tm_year ts < 150" "as_type s = V_ASN1_UTCTIME" "as_data s = Some (utc_text ts)"
  shows "rfc_format s" "rfc_time s = Some ts"
proof -
  define y where "y = tm_year ts smod 100"
  define ns where "ns = y # [tm_mon ts + 1, tm_mday ts, tm_hour ts, tm_min ts, tm_sec ts]"
  have y: "two_digit y" "y + (if y < 50 then 2000 else 1900) - 1900 = tm_year ts"
    using utc_year [OF assms(2,3)] assms(2,3) by (auto simp: y_def)
  have ns: "\<forall>n \<in> set ns. two_digit n" using y(1) possible_tm_bounds [OF assms(1)] by (simp add: ns_def)
  have t: "utc_text ts = concat (map pair ns) @ [0x5a]"
    using ns unfolding utc_text_def y_def [symmetric] by (simp add: ns_def print_d_2 pair_def)
  show f: "rfc_format s" by (rule pairs_format [OF ns]) (use assms(4,5) t in \<open>simp_all add: ns_def\<close>)
  have n: "number (string_data s) (2 * i) = ns ! i" if "i < 6" for i
    using number_pairs [OF ns, of i] that assms(5) t by (simp add: string_data_def ns_def)
  have "number (string_data s) 0 = y" "number (string_data s) 2 = tm_mon ts + 1" "number (string_data s) 4 = tm_mday ts"
    "number (string_data s) 6 = tm_hour ts" "number (string_data s) 8 = tm_min ts" "number (string_data s) 10 = tm_sec ts"
    using n [of 0] n [of 1] n [of 2] n [of 3] n [of 4] n [of 5] by (simp_all add: ns_def)
  then show "rfc_time s = Some ts"
    using f y(2) assms(1,4) by (simp add: rfc_time_def rfc_fields_def possible_tm_def valid_clock_def)
qed

lemma gen_text_time:
  assumes "possible_tm ts" "- 1900 \<le> tm_year ts" "tm_year ts \<le> 8099" "as_type s = V_ASN1_GENERALIZEDTIME" "as_data s = Some (gen_text ts)"
  shows "rfc_format s" "rfc_time s = Some ts"
proof -
  define y where "y = tm_year ts + 1900"
  define ns where "ns = (y div 100) # (y mod 100) # [tm_mon ts + 1, tm_mday ts, tm_hour ts, tm_min ts, tm_sec ts]"
  have y: "0 \<le> y" "y < 10000" using assms(2,3) by (simp_all add: y_def)
  then have "two_digit (y div 100)" "two_digit (y mod 100)" using div_bounds [of 100 y] by (simp_all add: pos_imp_zdiv_nonneg_iff)
  then have ns: "\<forall>n \<in> set ns. two_digit n" using possible_tm_bounds [OF assms(1)] by (simp add: ns_def)
  have t: "gen_text ts = concat (map pair ns) @ [0x5a]"
    using ns unfolding gen_text_def y_def [symmetric] print_d_4 [OF y] by (simp add: ns_def print_d_2 pair_def)
  show f: "rfc_format s" by (rule pairs_format [OF ns]) (use assms(4,5) t in \<open>simp_all add: ns_def\<close>)
  have n: "number (string_data s) (2 * i) = ns ! i" if "i < 7" for i
    using number_pairs [OF ns, of i] that assms(5) t by (simp add: string_data_def ns_def)
  have "number (string_data s) 0 = y div 100" "number (string_data s) 2 = y mod 100" "number (string_data s) 4 = tm_mon ts + 1"
    "number (string_data s) 6 = tm_mday ts" "number (string_data s) 8 = tm_hour ts" "number (string_data s) 10 = tm_min ts"
    "number (string_data s) 12 = tm_sec ts"
    using n [of 0] n [of 1] n [of 2] n [of 3] n [of 4] n [of 5] n [of 6] by (simp_all add: ns_def)
  then show "rfc_time s = Some ts"
    using f mult_div_mod_eq [of 100 y] assms(1,4)
    by (simp add: rfc_time_def rfc_fields_def possible_tm_def valid_clock_def V_ASN1_UTCTIME_def V_ASN1_GENERALIZEDTIME_def y_def)
qed

subsection \<open>Writing times\<close>

lemma gmtime_offset_iff:
  assumes "- 62167219200 \<le> t" "t < 253402300800" "\<bar>off_day\<bar> \<le> 1073741824" "\<bar>off_sec\<bar> < 2147483648"
  shows "gmtime_offset t off_day off_sec = Some ts \<longleftrightarrow>
    valid_tm ts \<and> tm_stamp ts = t + 86400 * off_day + off_sec \<and> - 1900 \<le> tm_year ts \<and> tm_year ts \<le> 8099 \<and>
    (off_day = 0 \<and> off_sec = 0 \<or> 0 \<le> tm_year ts)"
proof -
  obtain b where b: "gmtime_r t = Some b" "valid_tm b" "tm_stamp b = t" "- 1900 \<le> tm_year b" "tm_year b \<le> 8099"
    by (rule gmtime_r_total [OF assms(1,2)])
  have y: "- 6699 \<le> tm_year b" using b(4) by simp
  note adj = OPENSSL_gmtime_adj_iff [OF b(2) y b(5) assms(3,4)]
  show ?thesis
  proof (cases "off_day \<noteq> 0 \<or> off_sec \<noteq> 0")
    case True
    then have "gmtime_offset t off_day off_sec = OPENSSL_gmtime_adj b off_day off_sec"
      using b(1) by (simp add: gmtime_offset_def OPENSSL_gmtime_def)
    then show ?thesis using True unfolding adj b(3) by (simp only: adj b(3)) linarith
  next
    case False
    then have "gmtime_offset t off_day off_sec = Some b" using b(1) by (simp add: gmtime_offset_def OPENSSL_gmtime_def)
    moreover have "ts = b" if "valid_tm ts" "tm_stamp ts = t" using tm_stamp_inj [OF that(1) b(2)] that(2) b(3) by simp
    ultimately show ?thesis using False b(2-5) by (metis add.right_neutral mult_zero_right option.inject)
  qed
qed

lemma asn1_time_to_tm_rfc: "rfc_format s \<Longrightarrow> asn1_time_to_tm now (Some s) = rfc_time s"
proof -
  assume f: "rfc_format s"
  then consider "as_type s = V_ASN1_UTCTIME" | "as_type s = V_ASN1_GENERALIZEDTIME" by (auto simp: rfc_format_def)
  then show ?thesis
  proof cases
    case 1
    then show ?thesis using utctime_rfc [OF f 1] by (cases "rfc_time s") (simp_all add: asn1_time_to_tm_def)
  next
    case 2
    then have "as_type s \<noteq> V_ASN1_UTCTIME" by (simp add: V_ASN1_UTCTIME_def V_ASN1_GENERALIZEDTIME_def)
    then show ?thesis using 2 generalizedtime_rfc [OF f 2] by (cases "rfc_time s") (simp_all add: asn1_time_to_tm_def)
  qed
qed

lemma ASN1_TIME_adj_writes:
  assumes "gmtime_offset t off_day off_sec = Some ts" "possible_tm ts" "- 1900 \<le> tm_year ts" "tm_year ts \<le> 8099"
    and "OPENSSL_malloc m 24 \<noteq> None" "OPENSSL_malloc m 20 \<noteq> None"
  obtains s where "ASN1_TIME_adj m None t off_day off_sec = Some s" "asn1_time_to_tm now (Some s) = Some ts"
    "as_type s = (if 50 \<le> tm_year ts \<and> tm_year ts < 150 then V_ASN1_UTCTIME else V_ASN1_GENERALIZEDTIME)"
proof (cases "50 \<le> tm_year ts \<and> tm_year ts < 150")
  case True
  define s where "s = \<lparr>as_type = V_ASN1_UTCTIME, as_data = Some (utc_text ts), as_flags = 0\<rparr>"
  have "ASN1_TIME_adj m None t off_day off_sec = Some s"
    using assms(1,5,6) True by (auto simp: ASN1_TIME_adj_def ASN1_UTCTIME_adj_def ASN1_STRING_type_new_def time_buffer_def s_def)
  moreover have "rfc_format s" "rfc_time s = Some ts" by (rule utc_text_time; use assms(2) True in \<open>simp add: s_def\<close>)+
  ultimately show thesis using that [of s] True asn1_time_to_tm_rfc by (simp add: s_def)
next
  case False
  define s where "s = \<lparr>as_type = V_ASN1_GENERALIZEDTIME, as_data = Some (gen_text ts), as_flags = 0\<rparr>"
  have "ASN1_TIME_adj m None t off_day off_sec = Some s"
    using assms(1,5,6) False by (auto simp: ASN1_TIME_adj_def ASN1_GENERALIZEDTIME_adj_def ASN1_STRING_type_new_def time_buffer_def s_def)
  moreover have "rfc_format s" "rfc_time s = Some ts" by (rule gen_text_time; use assms(2-4) in \<open>simp add: s_def\<close>)+
  ultimately show thesis using that [of s] False asn1_time_to_tm_rfc by (simp add: s_def)
qed

text \<open>C13. Times written and read back. For a clock between the years 0 and 9999, \<^verbatim>\<open>ASN1_TIME_adj\<close> writes the
  time that is as many days and seconds later, as the UTCTime or GeneralizedTime that RFC 5280 asks for, and
  \<^verbatim>\<open>asn1_time_to_tm\<close> reads that time from it; it fails only if an offset leads out of the years 1900 to 9999.\<close>

theorem ASN1_TIME_adj_roundtrip:
  assumes "- 62167219200 \<le> t" "t < 253402300800" "\<bar>off_day\<bar> \<le> 1073741824" "\<bar>off_sec\<bar> < 2147483648"
    and "OPENSSL_malloc m 24 \<noteq> None" "OPENSSL_malloc m 20 \<noteq> None"
  shows "(\<exists>s. ASN1_TIME_adj m None t off_day off_sec = Some s \<and> asn1_time_to_tm now (Some s) = Some ts \<and>
      as_type s = (if 50 \<le> tm_year ts \<and> tm_year ts < 150 then V_ASN1_UTCTIME else V_ASN1_GENERALIZEDTIME)) \<longleftrightarrow>
    valid_tm ts \<and> tm_stamp ts = t + 86400 * off_day + off_sec \<and> - 1900 \<le> tm_year ts \<and> tm_year ts \<le> 8099 \<and>
    (off_day = 0 \<and> off_sec = 0 \<or> 0 \<le> tm_year ts)" (is "?L \<longleftrightarrow> ?R")
proof
  assume ?R
  then have g: "gmtime_offset t off_day off_sec = Some ts" using gmtime_offset_iff [OF assms(1-4)] by simp
  show ?L by (rule ASN1_TIME_adj_writes [OF g _ _ _ assms(5,6), of now]) (use \<open>?R\<close> valid_tm_possible in auto)
next
  assume ?L
  then obtain s where s: "ASN1_TIME_adj m None t off_day off_sec = Some s" "asn1_time_to_tm now (Some s) = Some ts" by blast
  then obtain b where b: "gmtime_offset t off_day off_sec = Some b" by (auto simp: ASN1_TIME_adj_def split: option.splits)
  then have v: "valid_tm b \<and> tm_stamp b = t + 86400 * off_day + off_sec \<and> - 1900 \<le> tm_year b \<and> tm_year b \<le> 8099 \<and>
      (off_day = 0 \<and> off_sec = 0 \<or> 0 \<le> tm_year b)" using gmtime_offset_iff [OF assms(1-4)] by simp
  obtain s' where "ASN1_TIME_adj m None t off_day off_sec = Some s'" "asn1_time_to_tm now (Some s') = Some b"
    by (rule ASN1_TIME_adj_writes [OF b _ _ _ assms(5,6), of now]) (use v valid_tm_possible in auto)
  then have "b = ts" using s by simp
  then show ?R using v by simp
qed

subsection \<open>Comparing with the clock\<close>

lemma rfc_time_possible:
  assumes "rfc_time s = Some ts"
  shows "rfc_format s" "possible_tm ts" "- 1900 \<le> tm_year ts" "tm_year ts \<le> 8099"
proof -
  show f: "rfc_format s" using assms by (auto simp: rfc_time_def Let_def split: if_splits)
  let ?d = "string_data s"
  have n: "0 \<le> number ?d p \<and> number ?d p \<le> 99" if "p + 2 < length ?d" for p
    using two_digits_number [of ?d p] rfc_digits(1) [OF f, of p] rfc_digits(1) [OF f, of "p + 1"] that by simp
  consider "as_type s = V_ASN1_UTCTIME" "length ?d = 13" | "as_type s = V_ASN1_GENERALIZEDTIME" "length ?d = 15"
    using f by (auto simp: rfc_format_def)
  then have "possible_tm ts \<and> - 1900 \<le> tm_year ts \<and> tm_year ts \<le> 8099"
  proof cases
    case 1
    then show ?thesis using assms f n [of 0] n [of 2] n [of 4] n [of 6] n [of 8] n [of 10]
      by (auto simp: rfc_time_def rfc_fields_def possible_tm_def valid_clock_def Let_def split: if_splits)
  next
    case 2
    then show ?thesis using assms f n [of 0] n [of 2] n [of 4] n [of 6] n [of 8] n [of 10] n [of 12]
      by (auto simp: rfc_time_def rfc_fields_def possible_tm_def valid_clock_def V_ASN1_UTCTIME_def V_ASN1_GENERALIZEDTIME_def Let_def split: if_splits)
  qed
  then show "possible_tm ts" "- 1900 \<le> tm_year ts" "tm_year ts \<le> 8099" by simp_all
qed

lemma sdiv_smod_sign: "0 \<le> n sdiv 86400 \<and> 0 \<le> n smod 86400 \<longleftrightarrow> 0 \<le> n" for n :: int
proof (cases "0 \<le> n")
  case True
  then show ?thesis by (simp add: sdiv_nonneg smod_nonneg pos_imp_zdiv_nonneg_iff)
next
  case False
  then have n: "n sdiv 86400 = - ((- n) div 86400)" "n smod 86400 = - ((- n) mod 86400)"
    by (simp_all add: signed_divide_int_def signed_modulo_int_def)
  have "0 < (- n) div 86400 \<or> 0 < (- n) mod 86400"
    using False mult_div_mod_eq [of 86400 "- n"] pos_mod_sign [of 86400 "- n"] pos_imp_zdiv_nonneg_iff [of 86400 "- n"] by linarith
  then show ?thesis using False n by auto
qed

text \<open>C12. Validity periods. For a clock between the years 0 and 9999, \<^verbatim>\<open>X509_cmp_time\<close> is -1 if the time of a
  certificate has come, 1 if it has not, and 0 exactly if the string is not a time in the format of
  RFC 5280. The comparison is exact to the second across months, leap years and the two formats.\<close>

theorem X509_cmp_time_exact:
  defines "clock_time \<equiv> \<lambda>now cmp_time. case cmp_time of Some t \<Rightarrow> t | None \<Rightarrow> now"
  assumes "- 62167219200 \<le> clock_time now cmp_time" "clock_time now cmp_time < 253402300800"
    and "OPENSSL_malloc m 24 \<noteq> None" "OPENSSL_malloc m 20 \<noteq> None"
  shows "X509_cmp_time m now ctm cmp_time =
    (case rfc_time ctm of None \<Rightarrow> 0 | Some ts \<Rightarrow> if tm_stamp ts \<le> clock_time now cmp_time then - 1 else 1)"
proof (cases "rfc_format ctm")
  case False
  then show ?thesis
    unfolding X509_cmp_time_def by (auto simp: Let_def rfc_format_def rfc_time_def split: if_splits)
next
  case True
  define t where "t = clock_time now cmp_time"
  obtain b where b: "gmtime_r t = Some b" "valid_tm b" "tm_stamp b = t" "- 1900 \<le> tm_year b" "tm_year b \<le> 8099"
    using gmtime_r_total assms(2,3) unfolding t_def by blast
  have g: "gmtime_offset t 0 0 = Some b" using b(1) by (simp add: gmtime_offset_def OPENSSL_gmtime_def)
  obtain s where s: "ASN1_TIME_adj m None t 0 0 = Some s" "asn1_time_to_tm now (Some s) = Some b"
    by (rule ASN1_TIME_adj_writes [OF g valid_tm_possible [OF b(2)] b(4,5) assms(4,5), of now])
  have adj: "X509_time_adj m now None 0 cmp_time = Some s"
    using s(1) by (simp add: X509_time_adj_def X509_time_adj_ex_def t_def clock_time_def Let_def)
  have run: "X509_cmp_time m now ctm cmp_time =
      (case ASN1_TIME_diff now (Some ctm) (Some s) of None \<Rightarrow> 0 | Some (day, sec) \<Rightarrow> if day \<ge> 0 \<and> sec \<ge> 0 then - 1 else 1)"
    using True unfolding X509_cmp_time_def Let_def adj by (auto simp: rfc_format_def V_ASN1_UTCTIME_def V_ASN1_GENERALIZEDTIME_def)
  show ?thesis
  proof (cases "rfc_time ctm")
    case None
    then show ?thesis unfolding run using asn1_time_to_tm_rfc [OF True] by (simp add: ASN1_TIME_diff_def)
  next
    case (Some ts)
    note p = rfc_time_possible [OF Some]
    have "ASN1_TIME_diff now (Some ctm) (Some s) = Some ((t - tm_stamp ts) sdiv 86400, (t - tm_stamp ts) smod 86400)"
      using OPENSSL_gmtime_diff_parts [OF p(2) valid_tm_possible [OF b(2)] p(3,4) b(4,5)] s(2) asn1_time_to_tm_rfc [OF True] Some b(3)
      by (simp add: ASN1_TIME_diff_def)
    then show ?thesis unfolding run using sdiv_smod_sign [of "t - tm_stamp ts"] Some by (simp add: t_def)
  qed
qed

theorem ASN1_TIME_adj_roundtrip_witness:
  "\<exists>s. ASN1_TIME_adj calloc_small None 1709164799 0 1 = Some s \<and>
     asn1_time_to_tm 0 (Some s) = Some \<lparr>tm_sec = 0, tm_min = 0, tm_hour = 0, tm_mday = 29, tm_mon = 1, tm_year = 124\<rparr> \<and>
     as_type s = V_ASN1_UTCTIME"
proof -
  let ?ts = "\<lparr>tm_sec = 0, tm_min = 0, tm_hour = 0, tm_mday = 29, tm_mon = 1, tm_year = 124\<rparr>"
  have m: "OPENSSL_malloc calloc_small 24 \<noteq> None" "OPENSSL_malloc calloc_small 20 \<noteq> None"
    by (simp_all add: OPENSSL_malloc_def OPENSSL_MALLOC_PREFIX_def calloc_small_def)
  have "valid_tm ?ts" "tm_stamp ?ts = 1709164800"
    by (simp_all add: valid_tm_def valid_clock_def valid_date_def month_days_def leap_year_def tm_stamp_def day_number_def
        days_before_year_def days_before_month_def)
  then show ?thesis using ASN1_TIME_adj_roundtrip [of 1709164799 0 1 calloc_small 0 ?ts, OF _ _ _ _ m] by simp
qed

definition sample_time :: asn1_string where
  "sample_time = \<lparr>as_type = 23, as_data = Some (ascii ''240229000000Z''), as_flags = 0\<rparr>"

theorem X509_cmp_time_exact_witness:
  "X509_cmp_time calloc_small 0 sample_time (Some 1709164799) = 1"
proof -
  have m: "OPENSSL_malloc calloc_small 24 \<noteq> None" "OPENSSL_malloc calloc_small 20 \<noteq> None"
    by (simp_all add: OPENSSL_malloc_def OPENSSL_MALLOC_PREFIX_def calloc_small_def)
  have r: "rfc_time sample_time = Some \<lparr>tm_sec = 0, tm_min = 0, tm_hour = 0, tm_mday = 29, tm_mon = 1, tm_year = 124\<rparr>"
    by code_simp
  show ?thesis
    by (subst X509_cmp_time_exact [OF _ _ m])
      (simp_all add: r tm_stamp_def day_number_def days_before_year_def days_before_month_def month_days_def leap_year_def)
qed

text \<open>No check looks at the length of the month: the 31st of February is read, and compares as the 3rd of March.\<close>

lemma february_31:
  "asn1_utctime_to_tm (Some local_tm) \<lparr>as_type = 23, as_data = Some (ascii ''230231000000Z''), as_flags = 0\<rparr> =
     Some (Some \<lparr>tm_sec = 0, tm_min = 0, tm_hour = 0, tm_mday = 31, tm_mon = 1, tm_year = 123\<rparr>)"
  "tm_stamp \<lparr>tm_sec = 0, tm_min = 0, tm_hour = 0, tm_mday = 31, tm_mon = 1, tm_year = 123\<rparr> =
     tm_stamp \<lparr>tm_sec = 0, tm_min = 0, tm_hour = 0, tm_mday = 3, tm_mon = 2, tm_year = 123\<rparr>"
  by code_simp+

lemma ASN1_UTCTIME_cmp_time_t_sign:
  assumes "rfc_format s" "as_type s = V_ASN1_UTCTIME" "- 62167219200 \<le> t" "t < 253402300800"
  shows "ASN1_UTCTIME_cmp_time_t s t = (case rfc_time s of None \<Rightarrow> - 2 | Some ts \<Rightarrow> sgn (tm_stamp ts - t))"
proof (cases "rfc_time s")
  case None
  then show ?thesis using utctime_rfc [OF assms(1,2)] by (simp add: ASN1_UTCTIME_cmp_time_t_def)
next
  case (Some ts)
  note p = rfc_time_possible [OF Some]
  obtain b where b: "gmtime_r t = Some b" "valid_tm b" "tm_stamp b = t" "- 1900 \<le> tm_year b" "tm_year b \<le> 8099"
    by (rule gmtime_r_total [OF assms(3,4)])
  define n where "n = tm_stamp ts - t"
  have d: "OPENSSL_gmtime_diff b ts = Some (n sdiv 86400, n smod 86400)"
    using OPENSSL_gmtime_diff_parts [OF valid_tm_possible [OF b(2)] p(2) b(4,5) p(3,4)] b(3) by (simp add: n_def)
  have run: "ASN1_UTCTIME_cmp_time_t s t =
      (if n sdiv 86400 > 0 then 1 else if n sdiv 86400 < 0 then - 1 else if n smod 86400 > 0 then 1 else if n smod 86400 < 0 then - 1 else 0)"
    using utctime_rfc [OF assms(1,2), of local_tm] Some b(1) d by (simp add: ASN1_UTCTIME_cmp_time_t_def OPENSSL_gmtime_def)
  have sgn: "(if q > 0 then 1 else if q < 0 then - 1 else if r > 0 then 1 else if r < 0 then - 1 else 0) = sgn (q * 86400 + r)"
    if "0 \<le> q \<and> 0 \<le> r \<or> q \<le> 0 \<and> r \<le> 0" for q r :: int
    using that by (auto simp: sgn_if)
  have "0 \<le> n sdiv 86400 \<and> 0 \<le> n smod 86400 \<or> n sdiv 86400 \<le> 0 \<and> n smod 86400 \<le> 0"
    using sdiv_smod_sign [of n] sdiv_smod_sign [of "- n"] by auto
  from sgn [OF this] show ?thesis unfolding run sdiv_mult_smod_eq using Some by (simp add: n_def)
qed

end
