(* ===== verification/PbStream.thy ===== *)
theory PbStream
  imports Codec Mem
begin

text \<open>Input streams of nanopb, \<^verbatim>\<open>pb_decode.c\<close>. A stream reads either from a buffer, in which case its
  state is the bytes from the read pointer to the end of the buffer's object, or through a callback
  of the application, a parameter: asked for \<open>n\<close> bytes in state \<open>s\<close> it gives the bytes and a new
  state, or it fails and may, to signal the end of a file, set \<open>bytes_left\<close> to zero. A function of
  the C code that returns \<^verbatim>\<open>bool\<close> and a value through a pointer is a function from streams to an
  optional value and a stream.\<close>

datatype 's pb_source = Buffer "byte list" | Callback 's

record 's pb_istream =
  is_source :: "'s pb_source"
  bytes_left :: nat
  is_errmsg :: "string option"

type_synonym 's pb_callback = "'s \<Rightarrow> nat \<Rightarrow> (byte list \<times> 's) + ('s \<times> bool)"
type_synonym ('s, 'a) pb_reader = "'s pb_istream \<Rightarrow> 'a option \<times> 's pb_istream"

definition PB_SET_ERROR :: "string \<Rightarrow> 's pb_istream \<Rightarrow> 's pb_istream" where
  "PB_SET_ERROR msg stream =
     stream\<lparr>is_errmsg := (case is_errmsg stream of None \<Rightarrow> Some msg | Some m \<Rightarrow> Some m)\<rparr>"

definition PB_RETURN_ERROR :: "string \<Rightarrow> ('s, 'a) pb_reader" where
  "PB_RETURN_ERROR msg stream = (None, PB_SET_ERROR msg stream)"

definition pb_bind :: "('s, 'a) pb_reader \<Rightarrow> ('a \<Rightarrow> ('s, 'b) pb_reader) \<Rightarrow> ('s, 'b) pb_reader" where
  "pb_bind f g stream =
     (case f stream of
        (None, stream) \<Rightarrow> (None, stream)
      | (Some x, stream) \<Rightarrow> g x stream)"

definition pb_return :: "'a \<Rightarrow> ('s, 'a) pb_reader" where
  "pb_return x stream = (Some x, stream)"

definition buf_read :: "byte list \<Rightarrow> nat \<Rightarrow> byte list \<times> byte list" where
  "buf_read source count = (take count source, drop count source)"

definition call_callback :: "'s pb_callback \<Rightarrow> nat \<Rightarrow> ('s, byte list) pb_reader" where
  "call_callback cb count stream =
     (case is_source stream of
        Buffer d \<Rightarrow> (case buf_read d count of (b, d) \<Rightarrow> (Some b, stream\<lparr>is_source := Buffer d\<rparr>))
      | Callback s \<Rightarrow>
          (case cb s count of
             Inl (b, s) \<Rightarrow> (Some b, stream\<lparr>is_source := Callback s\<rparr>)
           | Inr (s, eof) \<Rightarrow>
               (None, stream\<lparr>is_source := Callback s, bytes_left := if eof then 0 else bytes_left stream\<rparr>)))"

definition pb_read_buf :: "'s pb_callback \<Rightarrow> nat \<Rightarrow> ('s, byte list) pb_reader" where
  "pb_read_buf cb count stream =
     (if count = 0 then (Some [], stream)
      else if bytes_left stream < count then PB_RETURN_ERROR ''end-of-stream'' stream
      else (case call_callback cb count stream of
              (None, stream) \<Rightarrow> PB_RETURN_ERROR ''io error'' stream
            | (Some b, stream) \<Rightarrow> (Some b, stream\<lparr>bytes_left := bytes_left stream - count\<rparr>)))"

fun pb_skip_loop :: "'s pb_callback \<Rightarrow> nat \<Rightarrow> ('s, unit) pb_reader" where
  "pb_skip_loop cb count stream =
     (if count > 16 then pb_bind (pb_read_buf cb 16) (\<lambda>_. pb_skip_loop cb (count - 16)) stream
      else pb_bind (pb_read_buf cb count) (\<lambda>_. pb_return ()) stream)"

declare pb_skip_loop.simps [simp del]

definition pb_read_null :: "'s pb_callback \<Rightarrow> nat \<Rightarrow> ('s, unit) pb_reader" where
  "pb_read_null cb count stream =
     (case is_source stream of
        Buffer d \<Rightarrow> pb_bind (pb_read_buf cb count) (\<lambda>_. pb_return ()) stream
      | Callback s \<Rightarrow> if count = 0 then (Some (), stream) else pb_skip_loop cb count stream)"

definition pb_readbyte :: "'s pb_callback \<Rightarrow> ('s, byte) pb_reader" where
  "pb_readbyte cb stream =
     (if bytes_left stream = 0 then PB_RETURN_ERROR ''end-of-stream'' stream
      else (case call_callback cb 1 stream of
              (None, stream) \<Rightarrow> PB_RETURN_ERROR ''io error'' stream
            | (Some b, stream) \<Rightarrow> (Some (b ! 0), stream\<lparr>bytes_left := bytes_left stream - 1\<rparr>)))"

definition pb_istream_from_buffer :: "byte list \<Rightarrow> nat \<Rightarrow> 's pb_istream" where
  "pb_istream_from_buffer buf bufsize = \<lparr>is_source = Buffer buf, bytes_left = bufsize, is_errmsg = None\<rparr>"

lemma pb_readbyte_left: "pb_readbyte cb st = (Some b, st') \<Longrightarrow> bytes_left st' < bytes_left st"
  by (auto simp: pb_readbyte_def PB_RETURN_ERROR_def call_callback_def split: if_splits option.splits pb_source.splits prod.splits sum.splits)

lemma pb_read_buf_left:
  "pb_read_buf cb n st = (Some b, st') \<Longrightarrow> n \<le> bytes_left st \<and> bytes_left st' = bytes_left st - n"
  by (auto simp: pb_read_buf_def PB_RETURN_ERROR_def call_callback_def split: if_splits option.splits pb_source.splits prod.splits sum.splits)

subsection \<open>Streams over buffers as readers of byte lists\<close>

text \<open>The window of a buffer stream is what it may still read. \<open>pb_reads f rd\<close> says that \<open>f\<close>, on
  every buffer stream, does on the window what the list reader \<open>rd\<close> does, and otherwise only moves
  the read pointer on and sets the error message.\<close>

definition pb_window :: "'s pb_istream \<Rightarrow> byte list" where
  "pb_window st = (case is_source st of Buffer d \<Rightarrow> take (bytes_left st) d | Callback s \<Rightarrow> [])"

definition buffer_ok :: "'s pb_istream \<Rightarrow> bool" where
  "buffer_ok st \<longleftrightarrow> (\<exists>d. is_source st = Buffer d \<and> bytes_left st \<le> length d)"

definition advance :: "nat \<Rightarrow> string option \<Rightarrow> 's pb_istream \<Rightarrow> 's pb_istream" where
  "advance n e st =
     st\<lparr>is_source := (case is_source st of Buffer d \<Rightarrow> Buffer (drop n d) | Callback s \<Rightarrow> Callback s),
        bytes_left := bytes_left st - n, is_errmsg := e\<rparr>"

lemma length_pb_window: "buffer_ok st \<Longrightarrow> length (pb_window st) = bytes_left st"
  by (auto simp: buffer_ok_def pb_window_def)

lemma pb_window_advance: "pb_window (advance n e st) = drop n (pb_window st)"
  by (auto simp: pb_window_def advance_def drop_take split: pb_source.splits)

lemma buffer_ok_advance: "buffer_ok st \<Longrightarrow> buffer_ok (advance n e st)"
  by (auto simp: buffer_ok_def advance_def)

lemma advance_advance: "advance n e (advance k e' st) = advance (k + n) e st"
  by (auto simp: advance_def add.commute split: pb_source.splits)

lemma advance_0: "buffer_ok st \<Longrightarrow> advance 0 (is_errmsg st) st = st"
  by (auto simp: advance_def buffer_ok_def)

definition pb_reads :: "('s, 'a) pb_reader \<Rightarrow> (byte list \<Rightarrow> 'a option \<times> byte list) \<Rightarrow> bool" where
  "pb_reads f rd \<longleftrightarrow>
     (\<forall>st. buffer_ok st \<longrightarrow>
        (\<exists>n e. n \<le> length (pb_window st) \<and>
           f st = (fst (rd (pb_window st)), advance n e st) \<and> snd (rd (pb_window st)) = drop n (pb_window st)))"

definition rd_bind :: "(byte list \<Rightarrow> 'a option \<times> byte list) \<Rightarrow> ('a \<Rightarrow> byte list \<Rightarrow> 'b option \<times> byte list) \<Rightarrow>
    byte list \<Rightarrow> 'b option \<times> byte list" where
  "rd_bind rd k c = (case rd c of (None, c) \<Rightarrow> (None, c) | (Some x, c) \<Rightarrow> k x c)"

lemma pb_readsI:
  assumes "\<And>st. buffer_ok st \<Longrightarrow> \<exists>n e. n \<le> length (pb_window st) \<and>
    f st = (fst (rd (pb_window st)), advance n e st) \<and> snd (rd (pb_window st)) = drop n (pb_window st)"
  shows "pb_reads f rd"
  using assms by (simp add: pb_reads_def)

lemma pb_readsD:
  assumes "pb_reads f rd" "buffer_ok st"
  obtains n e where "n \<le> length (pb_window st)" "f st = (fst (rd (pb_window st)), advance n e st)"
    "snd (rd (pb_window st)) = drop n (pb_window st)" "buffer_ok (advance n e st)"
    "pb_window (advance n e st) = snd (rd (pb_window st))"
proof -
  from assms obtain n e where "n \<le> length (pb_window st)" "f st = (fst (rd (pb_window st)), advance n e st)"
    "snd (rd (pb_window st)) = drop n (pb_window st)" unfolding pb_reads_def by blast
  with that assms(2) show thesis by (simp add: buffer_ok_advance pb_window_advance)
qed

lemma pb_reads_bind:
  assumes "pb_reads f rd" "\<And>x. pb_reads (g x) (k x)"
  shows "pb_reads (pb_bind f g) (rd_bind rd k)"
proof (rule pb_readsI)
  fix st :: "'a pb_istream" assume ok: "buffer_ok st"
  obtain n e where 1: "n \<le> length (pb_window st)" "f st = (fst (rd (pb_window st)), advance n e st)"
    "snd (rd (pb_window st)) = drop n (pb_window st)" "buffer_ok (advance n e st)"
    "pb_window (advance n e st) = snd (rd (pb_window st))" by (rule pb_readsD [OF assms(1) ok])
  show "\<exists>n e. n \<le> length (pb_window st) \<and> pb_bind f g st = (fst (rd_bind rd k (pb_window st)), advance n e st) \<and>
      snd (rd_bind rd k (pb_window st)) = drop n (pb_window st)"
  proof (cases "fst (rd (pb_window st))")
    case None
    then show ?thesis using 1 by (intro exI [of _ n] exI [of _ e]) (cases "rd (pb_window st)", simp add: pb_bind_def rd_bind_def)
  next
    case (Some x)
    obtain n' e' where 2: "n' \<le> length (pb_window (advance n e st))"
      "g x (advance n e st) = (fst (k x (pb_window (advance n e st))), advance n' e' (advance n e st))"
      "snd (k x (pb_window (advance n e st))) = drop n' (pb_window (advance n e st))"
      by (rule pb_readsD [OF assms(2) 1(4)])
    have rd: "rd (pb_window st) = (Some x, drop n (pb_window st))" using Some 1(3) by (cases "rd (pb_window st)") simp
    show ?thesis
      using 1 2 Some
      by (intro exI [of _ "n + n'"] exI [of _ e'])
         (simp add: pb_bind_def rd_bind_def rd advance_advance pb_window_advance add.commute)
  qed
qed

lemma pb_reads_return: "pb_reads (pb_return x) (\<lambda>c. (Some x, c))"
  by (rule pb_readsI) (metis advance_0 drop_0 fst_conv pb_return_def snd_conv zero_le)

lemma pb_reads_error: "pb_reads (PB_RETURN_ERROR msg) (\<lambda>c. (None, c))"
proof (rule pb_readsI)
  fix st :: "'a pb_istream" assume ok: "buffer_ok st"
  have "PB_SET_ERROR msg st = advance 0 (case is_errmsg st of None \<Rightarrow> Some msg | Some m \<Rightarrow> Some m) st"
    using ok by (auto simp: PB_SET_ERROR_def advance_def buffer_ok_def)
  then show "\<exists>n e. n \<le> length (pb_window st) \<and>
      PB_RETURN_ERROR msg st = (fst (None, pb_window st), advance n e st) \<and> snd (None, pb_window st) = drop n (pb_window st)"
    by (metis PB_RETURN_ERROR_def drop_0 fst_conv snd_conv zero_le)
qed

definition rd_bytes :: "nat \<Rightarrow> byte list \<Rightarrow> byte list option \<times> byte list" where
  "rd_bytes n c = (if n \<le> length c then (Some (take n c), drop n c) else (None, c))"

definition rd_byte :: "byte list \<Rightarrow> byte option \<times> byte list" where
  "rd_byte c = (case c of [] \<Rightarrow> (None, []) | b # c \<Rightarrow> (Some b, c))"

lemma pb_reads_read_buf: "pb_reads (pb_read_buf cb n) (rd_bytes n)"
proof (rule pb_readsI)
  fix st :: "'a pb_istream" assume ok: "buffer_ok st"
  then obtain d where d: "is_source st = Buffer d" "bytes_left st \<le> length d" by (auto simp: buffer_ok_def)
  have w: "pb_window st = take (bytes_left st) d" by (simp add: pb_window_def d)
  show "\<exists>k e. k \<le> length (pb_window st) \<and> pb_read_buf cb n st = (fst (rd_bytes n (pb_window st)), advance k e st) \<and>
      snd (rd_bytes n (pb_window st)) = drop k (pb_window st)"
  proof (cases "n \<le> bytes_left st")
    case True
    then show ?thesis using d
      by (intro exI [of _ n] exI [of _ "is_errmsg st"])
         (auto simp: w pb_read_buf_def call_callback_def buf_read_def rd_bytes_def advance_def)
  next
    case False
    then show ?thesis using d
      by (intro exI [of _ 0] exI [of _ "is_errmsg (PB_SET_ERROR ''end-of-stream'' st)"])
         (auto simp: w pb_read_buf_def rd_bytes_def advance_def PB_RETURN_ERROR_def PB_SET_ERROR_def)
  qed
qed

lemma pb_reads_read_null: "pb_reads (pb_read_null cb n) (rd_bind (rd_bytes n) (\<lambda>_ c. (Some (), c)))"
proof -
  have "pb_reads (pb_bind (pb_read_buf cb n) (\<lambda>_. pb_return ())) (rd_bind (rd_bytes n) (\<lambda>_ c. (Some (), c)))"
    by (intro pb_reads_bind pb_reads_read_buf pb_reads_return)
  moreover have "pb_read_null cb n st = pb_bind (pb_read_buf cb n) (\<lambda>_. pb_return ()) st" if "buffer_ok st" for st
    using that by (auto simp: buffer_ok_def pb_read_null_def)
  ultimately show ?thesis by (simp add: pb_reads_def)
qed

lemma pb_reads_readbyte: "pb_reads (pb_readbyte cb) rd_byte"
proof (rule pb_readsI)
  fix st :: "'a pb_istream" assume ok: "buffer_ok st"
  then obtain d where d: "is_source st = Buffer d" "bytes_left st \<le> length d" by (auto simp: buffer_ok_def)
  have w: "pb_window st = take (bytes_left st) d" by (simp add: pb_window_def d)
  show "\<exists>k e. k \<le> length (pb_window st) \<and> pb_readbyte cb st = (fst (rd_byte (pb_window st)), advance k e st) \<and>
      snd (rd_byte (pb_window st)) = drop k (pb_window st)"
  proof (cases "bytes_left st = 0")
    case True
    then show ?thesis using d
      by (intro exI [of _ 0] exI [of _ "is_errmsg (PB_SET_ERROR ''end-of-stream'' st)"])
         (auto simp: w pb_readbyte_def rd_byte_def advance_def PB_RETURN_ERROR_def PB_SET_ERROR_def)
  next
    case False
    then obtain b r where "d = b # r" using d(2) by (cases d) auto
    then show ?thesis using d False
      by (intro exI [of _ 1] exI [of _ "is_errmsg st"])
         (auto simp: w pb_readbyte_def call_callback_def buf_read_def rd_byte_def advance_def take_Cons' drop_Cons')
  qed
qed

end
