(* ===== verification/PbDecode.thy ===== *)
theory PbDecode
  imports PbStream
begin

text \<open>The wire-format decoders of nanopb, \<^verbatim>\<open>pb_decode.c\<close>: base-128 varints in 64 and in 32 bits, zigzag
  and fixed-width integers, tags, skipping of unknown fields, and substreams for length-delimited
  fields. \<open>uint_fast8_t\<close> is 8 bits wide, so \<open>bitpos\<close> of the 32-bit varint decoder wraps.\<close>

type_synonym pb_wire_type = u32

definition PB_WT_VARINT :: pb_wire_type where "PB_WT_VARINT = 0"
definition PB_WT_64BIT :: pb_wire_type where "PB_WT_64BIT = 1"
definition PB_WT_STRING :: pb_wire_type where "PB_WT_STRING = 2"
definition PB_WT_32BIT :: pb_wire_type where "PB_WT_32BIT = 5"

function varint32_loop :: "'s pb_callback \<Rightarrow> nat \<Rightarrow> u32 \<Rightarrow> ('s, u32) pb_reader" where
  "varint32_loop cb bitpos result stream =
     (case pb_readbyte cb stream of
        (None, stream) \<Rightarrow> (None, stream)
      | (Some byte, stream) \<Rightarrow>
          if bitpos \<ge> 32 \<and> byte AND 0x7F \<noteq> 0 \<and>
             (drop_bit 31 result = 0 \<or> byte \<noteq> (if bitpos < 63 then 0xFF else 0x01))
          then PB_RETURN_ERROR ''varint overflow'' stream
          else
            (let result = (if bitpos \<ge> 32 then result else result OR push_bit bitpos (ucast (byte AND 0x7F)));
                 bitpos = (bitpos + 7) mod 256
             in if byte AND 0x80 \<noteq> 0 then varint32_loop cb bitpos result stream
                else if bitpos = 35 \<and> byte AND 0x70 \<noteq> 0 then PB_RETURN_ERROR ''varint overflow'' stream
                else (Some result, stream)))"
  by pat_completeness auto
termination
  by (relation "measure (\<lambda>(cb, bitpos, result, stream). bytes_left stream)")
     (auto dest: pb_readbyte_left [OF sym])

declare varint32_loop.simps [simp del]

definition pb_decode_varint32_eof :: "'s pb_callback \<Rightarrow> bool \<Rightarrow> 's pb_istream \<Rightarrow> u32 option \<times> bool \<times> 's pb_istream" where
  "pb_decode_varint32_eof cb eof stream =
     (case pb_readbyte cb stream of
        (None, stream) \<Rightarrow> (None, if bytes_left stream = 0 then True else eof, stream)
      | (Some byte, stream) \<Rightarrow>
          (case (if byte AND 0x80 = 0 then (Some (ucast byte), stream)
                 else varint32_loop cb 7 (ucast (byte AND 0x7F)) stream) of
             (dest, stream) \<Rightarrow> (dest, eof, stream)))"

definition pb_decode_varint32 :: "'s pb_callback \<Rightarrow> ('s, u32) pb_reader" where
  "pb_decode_varint32 cb stream =
     (case pb_decode_varint32_eof cb False stream of (dest, _, stream) \<Rightarrow> (dest, stream))"

function varint_loop :: "'s pb_callback \<Rightarrow> nat \<Rightarrow> u64 \<Rightarrow> ('s, u64) pb_reader" where
  "varint_loop cb bitpos result stream =
     (if bitpos \<ge> 64 then PB_RETURN_ERROR ''varint overflow'' stream
      else (case pb_readbyte cb stream of
              (None, stream) \<Rightarrow> (None, stream)
            | (Some byte, stream) \<Rightarrow>
                (let result = result OR push_bit bitpos (ucast (byte AND 0x7F));
                     bitpos = bitpos + 7
                 in if byte AND 0x80 \<noteq> 0 then varint_loop cb bitpos result stream
                    else (Some result, stream))))"
  by pat_completeness auto
termination
  by (relation "measure (\<lambda>(cb, bitpos, result, stream). 64 - bitpos)") auto

declare varint_loop.simps [simp del]

definition pb_decode_varint :: "'s pb_callback \<Rightarrow> ('s, u64) pb_reader" where
  "pb_decode_varint cb stream = varint_loop cb 0 0 stream"

function pb_skip_varint :: "'s pb_callback \<Rightarrow> ('s, unit) pb_reader" where
  "pb_skip_varint cb stream =
     (case pb_read_buf cb 1 stream of
        (None, stream) \<Rightarrow> (None, stream)
      | (Some b, stream) \<Rightarrow> if b ! 0 AND 0x80 \<noteq> 0 then pb_skip_varint cb stream else (Some (), stream))"
  by pat_completeness auto
termination
  by (relation "measure (\<lambda>(cb, stream). bytes_left stream)")
     (auto dest: pb_read_buf_left [OF sym])

declare pb_skip_varint.simps [simp del]

definition pb_skip_string :: "'s pb_callback \<Rightarrow> ('s, unit) pb_reader" where
  "pb_skip_string cb = pb_bind (pb_decode_varint32 cb) (\<lambda>len. pb_read_null cb (unat len))"

definition pb_decode_tag :: "'s pb_callback \<Rightarrow> 's pb_istream \<Rightarrow> (pb_wire_type \<times> u32) option \<times> bool \<times> 's pb_istream" where
  "pb_decode_tag cb stream =
     (case pb_decode_varint32_eof cb False stream of
        (None, eof, stream) \<Rightarrow> (None, eof, stream)
      | (Some temp, eof, stream) \<Rightarrow>
          if temp = 0 then (None, True, stream)
          else (Some (temp AND 7, drop_bit 3 temp), eof, stream))"

definition pb_skip_field :: "'s pb_callback \<Rightarrow> pb_wire_type \<Rightarrow> ('s, unit) pb_reader" where
  "pb_skip_field cb wire_type =
     (if wire_type = PB_WT_VARINT then pb_skip_varint cb
      else if wire_type = PB_WT_64BIT then pb_read_null cb 8
      else if wire_type = PB_WT_STRING then pb_skip_string cb
      else if wire_type = PB_WT_32BIT then pb_read_null cb 4
      else PB_RETURN_ERROR ''invalid wire_type'')"

function raw_varint_loop :: "'s pb_callback \<Rightarrow> nat \<Rightarrow> byte list \<Rightarrow> ('s, byte list) pb_reader" where
  "raw_varint_loop cb max_size buf stream =
     (if length buf + 1 > max_size then (None, stream)
      else (case pb_read_buf cb 1 stream of
              (None, stream) \<Rightarrow> (None, stream)
            | (Some b, stream) \<Rightarrow>
                if b ! 0 AND 0x80 \<noteq> 0 then raw_varint_loop cb max_size (buf @ [b ! 0]) stream
                else (Some (buf @ [b ! 0]), stream)))"
  by pat_completeness auto
termination
  by (relation "measure (\<lambda>(cb, max_size, buf, stream). bytes_left stream)")
     (auto dest: pb_read_buf_left [OF sym])

declare raw_varint_loop.simps [simp del]

definition read_raw_value :: "'s pb_callback \<Rightarrow> pb_wire_type \<Rightarrow> nat \<Rightarrow> ('s, byte list) pb_reader" where
  "read_raw_value cb wire_type max_size =
     (if wire_type = PB_WT_VARINT then raw_varint_loop cb max_size []
      else if wire_type = PB_WT_64BIT then pb_read_buf cb 8
      else if wire_type = PB_WT_32BIT then pb_read_buf cb 4
      else PB_RETURN_ERROR ''invalid wire_type'')"

definition pb_make_string_substream :: "'s pb_callback \<Rightarrow> ('s, 's pb_istream) pb_reader" where
  "pb_make_string_substream cb =
     pb_bind (pb_decode_varint32 cb) (\<lambda>sz stream.
       if bytes_left stream < unat sz then PB_RETURN_ERROR ''parent stream too short'' stream
       else (Some (stream\<lparr>bytes_left := unat sz\<rparr>), stream\<lparr>bytes_left := bytes_left stream - unat sz\<rparr>))"

definition pb_close_string_substream :: "'s pb_callback \<Rightarrow> 's pb_istream \<Rightarrow> ('s, unit) pb_reader" where
  "pb_close_string_substream cb substream stream =
     (case (if bytes_left substream \<noteq> 0 then pb_read_null cb (bytes_left substream) substream else (Some (), substream)) of
        (None, substream) \<Rightarrow> (None, stream)
      | (Some _, substream) \<Rightarrow>
          (Some (), stream\<lparr>is_source := is_source substream, is_errmsg := is_errmsg substream\<rparr>))"

definition pb_decode_bool :: "'s pb_callback \<Rightarrow> ('s, bool) pb_reader" where
  "pb_decode_bool cb = pb_bind (pb_decode_varint32 cb) (\<lambda>v. pb_return (v \<noteq> 0))"

definition pb_decode_svarint :: "'s pb_callback \<Rightarrow> ('s, u64) pb_reader" where
  "pb_decode_svarint cb =
     pb_bind (pb_decode_varint cb) (\<lambda>v.
       pb_return (if v AND 1 \<noteq> 0 then NOT (drop_bit 1 v) else drop_bit 1 v))"

definition pb_decode_fixed32 :: "'s pb_callback \<Rightarrow> ('s, u32) pb_reader" where
  "pb_decode_fixed32 cb =
     pb_bind (pb_read_buf cb 4) (\<lambda>bytes.
       pb_return (ucast (bytes ! 0) OR push_bit 8 (ucast (bytes ! 1)) OR push_bit 16 (ucast (bytes ! 2)) OR
         push_bit 24 (ucast (bytes ! 3))))"

definition pb_decode_fixed64 :: "'s pb_callback \<Rightarrow> ('s, u64) pb_reader" where
  "pb_decode_fixed64 cb =
     pb_bind (pb_read_buf cb 8) (\<lambda>bytes.
       pb_return (ucast (bytes ! 0) OR push_bit 8 (ucast (bytes ! 1)) OR push_bit 16 (ucast (bytes ! 2)) OR
         push_bit 24 (ucast (bytes ! 3)) OR push_bit 32 (ucast (bytes ! 4)) OR push_bit 40 (ucast (bytes ! 5)) OR
         push_bit 48 (ucast (bytes ! 6)) OR push_bit 56 (ucast (bytes ! 7))))"

end
