(* ===== verification/PbVarint.thy ===== *)
theory PbVarint
  imports PbDecode
begin

text \<open>What the varint decoders of \<^verbatim>\<open>pb_decode.c\<close> accept on buffer streams. \<open>leb_ok\<close> and \<open>leb_val\<close>
  are the base-128 encodings of the protobuf wire format and their values, \<open>varint_bytes\<close> the
  canonical encoding; \<open>rd_varint\<close> and \<open>rd_varint32\<close> are the two decoders read as functions of the
  bytes of the window.\<close>

subsection \<open>Varints\<close>

definition high :: "byte \<Rightarrow> bool" where "high b \<longleftrightarrow> 128 \<le> unat b"

lemma high_iff: "b AND 0x80 = 0 \<longleftrightarrow> \<not> high b"
  by (simp add: high_def byte_msb_iff not_le)

fun leb_ok :: "byte list \<Rightarrow> bool" where
  "leb_ok [] \<longleftrightarrow> False"
| "leb_ok (b # bs) \<longleftrightarrow> (if high b then leb_ok bs else bs = [])"

fun leb_val :: "byte list \<Rightarrow> nat" where
  "leb_val [] = 0"
| "leb_val (b # bs) = unat b mod 128 + 128 * leb_val bs"

fun rd_varint_loop :: "nat \<Rightarrow> u64 \<Rightarrow> byte list \<Rightarrow> u64 option \<times> byte list" where
  "rd_varint_loop bitpos result [] = (None, [])"
| "rd_varint_loop bitpos result (b # c) =
     (if bitpos \<ge> 64 then (None, b # c)
      else
        (let result = result OR push_bit bitpos (ucast (b AND 0x7F))
         in if high b then rd_varint_loop (bitpos + 7) result c else (Some result, c)))"

lemma pb_reads_cong: "pb_reads f rd \<Longrightarrow> (\<And>st. buffer_ok st \<Longrightarrow> g st = f st) \<Longrightarrow> (\<And>c. rd' c = rd c) \<Longrightarrow> pb_reads g rd'"
  by (simp add: pb_reads_def)

lemma pb_reads_varint_loop: "pb_reads (varint_loop cb bitpos result) (rd_varint_loop bitpos result)"
proof (induction "64 - bitpos" arbitrary: bitpos result rule: less_induct)
  case less
  show ?case
  proof (cases "bitpos \<ge> 64")
    case True
    show ?thesis
      by (rule pb_reads_cong [OF pb_reads_error [of "''varint overflow''"]])
         (use True in \<open>simp_all add: varint_loop.simps [of cb bitpos]\<close>, case_tac c, simp_all)
  next
    case False
    let ?k = "\<lambda>b. let r = result OR push_bit bitpos (ucast (b AND 0x7F)) in
      if high b then rd_varint_loop (bitpos + 7) r else (\<lambda>c. (Some r, c))"
    let ?g = "\<lambda>b. let r = result OR push_bit bitpos (ucast (b AND 0x7F)) in
      if high b then varint_loop cb (bitpos + 7) r else pb_return r"
    have "pb_reads (pb_bind (pb_readbyte cb) ?g) (rd_bind rd_byte ?k)"
      by (rule pb_reads_bind [OF pb_reads_readbyte]) (use False in \<open>auto simp: Let_def intro: less pb_reads_return\<close>)
    then show ?thesis
      by (rule pb_reads_cong)
         (use False in \<open>auto simp: varint_loop.simps [of cb bitpos] pb_bind_def pb_return_def high_iff Let_def split: prod.splits option.splits\<close>,
          case_tac c, auto simp: rd_bind_def rd_byte_def Let_def)
  qed
qed

definition rd_varint :: "byte list \<Rightarrow> u64 option \<times> byte list" where
  "rd_varint = rd_varint_loop 0 0"

lemma pb_reads_varint: "pb_reads (pb_decode_varint cb) rd_varint"
  unfolding rd_varint_def pb_decode_varint_def [abs_def] by (rule pb_reads_varint_loop)

lemma low7_word: "ucast (b AND 0x7F :: byte) = (word_of_nat (unat b mod 128) :: 'a::len word)"
proof -
  have "ucast (b AND 0x7F :: byte) = (word_of_nat (unat (b AND 0x7F)) :: 'a word)"
    by (simp add: word_unat_eq_iff unat_ucast_mod unat_of_nat)
  then show ?thesis by (simp add: byte_low7)
qed

lemma take_bit_low7: "take_bit 7 (word_of_nat (unat (b :: byte) mod 128)) = (word_of_nat (unat b mod 128) :: 'a::len word)"
proof -
  have "take_bit 7 (unat b mod 128) = unat b mod 128" by (simp add: take_bit_nat_def)
  then show ?thesis by (metis take_bit_of_nat)
qed

lemma or_push_group:
  fixes r :: "'a::len word"
  assumes "take_bit n r = r"
  shows "r OR push_bit n x = r + push_bit n x"
    and "take_bit k x = x \<Longrightarrow> take_bit (n + k) (r OR push_bit n x) = r OR push_bit n x"
proof -
  have r: "\<not> bit r i" if "n \<le> i" for i using that assms by (metis bit_take_bit_iff not_le)
  show "r OR push_bit n x = r + push_bit n x"
    by (rule disjunctive_add_eq_or [symmetric], rule bit_word_eqI) (use r in \<open>auto simp: bit_simps\<close>)
  show "take_bit (n + k) (r OR push_bit n x) = r OR push_bit n x" if "take_bit k x = x"
  proof (rule bit_word_eqI)
    fix i
    have "\<not> bit x j" if "k \<le> j" for j using that \<open>take_bit k x = x\<close> by (metis bit_take_bit_iff not_le)
    then have "\<not> bit x (i - n)" "\<not> bit r i" if "\<not> i < n + k" using that r [of i] by simp_all
    then show "bit (take_bit (n + k) (r OR push_bit n x)) i = bit (r OR push_bit n x) i"
      by (cases "i < n + k") (auto simp: bit_take_bit_iff bit_or_iff bit_push_bit_iff)
  qed
qed

lemma rd_varint_loop_iff:
  assumes "take_bit (7 * i) r = r" "i \<le> 10"
  shows "rd_varint_loop (7 * i) r c = (Some v, c') \<longleftrightarrow>
    (\<exists>bs. leb_ok bs \<and> i + length bs \<le> 10 \<and> c = bs @ c' \<and> v = r + word_of_nat (2 ^ (7 * i) * leb_val bs))"
  using assms
proof (induction c arbitrary: i r)
  case Nil
  then show ?case by auto
next
  case (Cons b c)
  show ?case
  proof (cases "i = 10")
    case True
    then show ?thesis by (auto elim: leb_ok.elims)
  next
    case False
    then have lt: "7 * i < 64" "i < 10" using Cons.prems(2) by simp_all
    let ?x = "push_bit (7 * i) (ucast (b AND 0x7F)) :: u64"
    let ?m = "word_of_nat (2 ^ (7 * i) * (unat b mod 128)) :: u64"
    have x: "?x = ?m" by (simp add: low7_word push_bit_eq_mult mult.commute)
    have sum: "r OR ?x = r + ?m" unfolding x [symmetric] by (rule or_push_group(1) [OF Cons.prems(1)])
    have tb: "take_bit (7 * Suc i) (r OR ?x) = r OR ?x"
      using or_push_group(2) [OF Cons.prems(1) take_bit_low7 [of b]] by (simp add: low7_word add.commute)
    show ?thesis
    proof (cases "high b")
      case True
      have "rd_varint_loop (7 * i) r (b # c) = rd_varint_loop (7 * Suc i) (r + ?m) c"
        using lt True by (simp add: sum Let_def add.commute)
      also have "\<dots> = (Some v, c') \<longleftrightarrow> (\<exists>bs. leb_ok bs \<and> Suc i + length bs \<le> 10 \<and> c = bs @ c' \<and>
          v = r + ?m + word_of_nat (2 ^ (7 * Suc i) * leb_val bs))"
        using Cons.IH [of "Suc i" "r + ?m"] tb lt unfolding sum by simp
      also have "\<dots> \<longleftrightarrow> (\<exists>bs. leb_ok bs \<and> i + length bs \<le> 10 \<and> b # c = bs @ c' \<and> v = r + word_of_nat (2 ^ (7 * i) * leb_val bs))"
      proof (intro iffI; elim exE conjE)
        fix bs assume "leb_ok bs" "Suc i + length bs \<le> 10" "c = bs @ c'" "v = r + ?m + word_of_nat (2 ^ (7 * Suc i) * leb_val bs)"
        then show "\<exists>bs. leb_ok bs \<and> i + length bs \<le> 10 \<and> b # c = bs @ c' \<and> v = r + word_of_nat (2 ^ (7 * i) * leb_val bs)"
          using True by (intro exI [of _ "b # bs"]) (simp add: algebra_simps power_add)
      next
        fix bs assume a: "leb_ok bs" "i + length bs \<le> 10" "b # c = bs @ c'" "v = r + word_of_nat (2 ^ (7 * i) * leb_val bs)"
        then obtain bs' where "bs = b # bs'" by (cases bs) auto
        then show "\<exists>bs. leb_ok bs \<and> Suc i + length bs \<le> 10 \<and> c = bs @ c' \<and> v = r + ?m + word_of_nat (2 ^ (7 * Suc i) * leb_val bs)"
          using a True by (intro exI [of _ bs']) (simp add: algebra_simps power_add)
      qed
      finally show ?thesis .
    next
      case lo: False
      have "rd_varint_loop (7 * i) r (b # c) = (Some (r + ?m), c)" using lt lo by (simp add: sum Let_def)
      moreover have "(\<exists>bs. leb_ok bs \<and> i + length bs \<le> 10 \<and> b # c = bs @ c' \<and> v = r + word_of_nat (2 ^ (7 * i) * leb_val bs)) \<longleftrightarrow>
          c = c' \<and> v = r + ?m"
      proof (intro iffI; elim exE conjE)
        fix bs assume a: "leb_ok bs" "b # c = bs @ c'" "v = r + word_of_nat (2 ^ (7 * i) * leb_val bs)"
        then have "bs = [b]" using lo by (cases bs) auto
        then show "c = c' \<and> v = r + ?m" using a by simp
      next
        assume "c = c'" "v = r + ?m"
        then show "\<exists>bs. leb_ok bs \<and> i + length bs \<le> 10 \<and> b # c = bs @ c' \<and> v = r + word_of_nat (2 ^ (7 * i) * leb_val bs)"
          using lo lt by (intro exI [of _ "[b]"]) simp
      qed
      ultimately show ?thesis by auto
    qed
  qed
qed

lemma rd_varint_iff:
  "rd_varint c = (Some v, c') \<longleftrightarrow> (\<exists>bs. leb_ok bs \<and> length bs \<le> 10 \<and> c = bs @ c' \<and> v = word_of_nat (leb_val bs))"
  using rd_varint_loop_iff [of 0 0 c v c'] by (simp add: rd_varint_def)

fun varint_bytes :: "nat \<Rightarrow> byte list" where
  "varint_bytes n = (if n < 128 then [word_of_nat n] else word_of_nat (128 + n mod 128) # varint_bytes (n div 128))"

declare varint_bytes.simps [simp del]

lemma varint_bytes_small: "n < 128 \<Longrightarrow> varint_bytes n = [word_of_nat n]"
  by (simp add: varint_bytes.simps)

lemma varint_bytes_large: "128 \<le> n \<Longrightarrow> varint_bytes n = word_of_nat (128 + n mod 128) # varint_bytes (n div 128)"
  by (subst varint_bytes.simps) simp

lemma group_byte:
  "n < 128 \<Longrightarrow> \<not> high (word_of_nat n)" "high (word_of_nat (128 + n mod 128))"
  "n < 128 \<Longrightarrow> unat (word_of_nat n :: byte) = n" "unat (word_of_nat (128 + n mod 128) :: byte) = 128 + n mod 128"
  by (simp_all add: high_def del: of_nat_add)

lemma leb_varint_bytes: "leb_ok (varint_bytes n)" "leb_val (varint_bytes n) = n"
proof (induction n rule: varint_bytes.induct)
  case (1 n)
  { case 1 show ?case using \<open>\<not> n < 128 \<Longrightarrow> leb_ok (varint_bytes (n div 128))\<close>
      by (cases "n < 128") (simp_all add: varint_bytes_small varint_bytes_large group_byte not_less del: of_nat_add) }
  { case 2 show ?case using \<open>\<not> n < 128 \<Longrightarrow> leb_val (varint_bytes (n div 128)) = n div 128\<close>
      by (cases "n < 128") (simp_all add: varint_bytes_small varint_bytes_large group_byte not_less del: of_nat_add) }
qed

lemma length_varint_bytes: "n < 128 ^ Suc k \<Longrightarrow> length (varint_bytes n) \<le> Suc k"
proof (induction k arbitrary: n)
  case (Suc k)
  show ?case
  proof (cases "n < 128")
    case False
    have "n div 128 < 128 ^ Suc k" using Suc.prems by (simp add: less_mult_imp_div_less mult.commute)
    with Suc.IH False show ?thesis by (simp add: varint_bytes_large)
  qed (simp add: varint_bytes_small)
qed (simp add: varint_bytes_small)

lemma length_varint_u64: "length (varint_bytes (unat (v :: u64))) \<le> 10"
proof -
  have "unat v < 128 ^ Suc 9" by (rule less_trans [OF unat_u64_less]) simp
  then have "length (varint_bytes (unat v)) \<le> Suc 9" by (rule length_varint_bytes)
  then show ?thesis by simp
qed

lemma rd_varint_bytes: "rd_varint (varint_bytes (unat v) @ c) = (Some v, c)"
  unfolding rd_varint_iff
  by (intro exI [of _ "varint_bytes (unat v)"]) (simp add: leb_varint_bytes length_varint_u64)

subsection \<open>Varints of 32 bits\<close>

function rd_varint32_loop :: "nat \<Rightarrow> u32 \<Rightarrow> byte list \<Rightarrow> u32 option \<times> byte list" where
  "rd_varint32_loop bitpos result [] = (None, [])"
| "rd_varint32_loop bitpos result (b # c) =
     (if bitpos \<ge> 32 \<and> b AND 0x7F \<noteq> 0 \<and> (drop_bit 31 result = 0 \<or> b \<noteq> (if bitpos < 63 then 0xFF else 0x01)) then (None, c)
      else
        (let result = (if bitpos \<ge> 32 then result else result OR push_bit bitpos (ucast (b AND 0x7F)));
             bitpos = (bitpos + 7) mod 256
         in if high b then rd_varint32_loop bitpos result c
            else if bitpos = 35 \<and> b AND 0x70 \<noteq> 0 then (None, c) else (Some result, c)))"
  by pat_completeness auto
termination
  by (relation "measure (\<lambda>(bitpos, result, c). length c)") auto

definition pb_reads_upto :: "nat \<Rightarrow> ('s, 'a) pb_reader \<Rightarrow> (byte list \<Rightarrow> 'a option \<times> byte list) \<Rightarrow> bool" where
  "pb_reads_upto N f rd \<longleftrightarrow>
     (\<forall>st. buffer_ok st \<and> length (pb_window st) < N \<longrightarrow>
        (\<exists>n e. n \<le> length (pb_window st) \<and>
           f st = (fst (rd (pb_window st)), advance n e st) \<and> snd (rd (pb_window st)) = drop n (pb_window st)))"

lemma pb_reads_upto_all: "(\<And>N. pb_reads_upto N f rd) \<Longrightarrow> pb_reads f rd"
  unfolding pb_reads_def pb_reads_upto_def by blast

lemma pb_reads_upto_0: "pb_reads_upto 0 f rd"
  by (simp add: pb_reads_upto_def)

lemma pb_reads_upto: "pb_reads f rd \<Longrightarrow> pb_reads_upto N f rd"
  unfolding pb_reads_def pb_reads_upto_def by blast

lemma pb_reads_upto_cong:
  "pb_reads_upto N f rd \<Longrightarrow> (\<And>st. g st = f st) \<Longrightarrow> (\<And>c. rd' c = rd c) \<Longrightarrow> pb_reads_upto N g rd'"
  by (simp add: pb_reads_upto_def)

lemma pb_reads_upto_bind:
  assumes "pb_reads f rd" "\<And>c x c'. rd c = (Some x, c') \<Longrightarrow> length c' < length c" "\<And>x. pb_reads_upto N (g x) (k x)"
  shows "pb_reads_upto (Suc N) (pb_bind f g) (rd_bind rd k)"
  unfolding pb_reads_upto_def
proof (intro allI impI)
  fix st :: "'a pb_istream" assume st: "buffer_ok st \<and> length (pb_window st) < Suc N"
  obtain n e where 1: "n \<le> length (pb_window st)" "f st = (fst (rd (pb_window st)), advance n e st)"
    "snd (rd (pb_window st)) = drop n (pb_window st)" "buffer_ok (advance n e st)"
    "pb_window (advance n e st) = snd (rd (pb_window st))" using pb_readsD [OF assms(1)] st by metis
  show "\<exists>n e. n \<le> length (pb_window st) \<and> pb_bind f g st = (fst (rd_bind rd k (pb_window st)), advance n e st) \<and>
      snd (rd_bind rd k (pb_window st)) = drop n (pb_window st)"
  proof (cases "fst (rd (pb_window st))")
    case None
    then show ?thesis using 1 by (intro exI [of _ n] exI [of _ e]) (cases "rd (pb_window st)", simp add: pb_bind_def rd_bind_def)
  next
    case (Some x)
    then have rd: "rd (pb_window st) = (Some x, drop n (pb_window st))" using 1(3) by (cases "rd (pb_window st)") simp
    then have "length (pb_window (advance n e st)) < N" using assms(2) [OF rd] st 1(5) by simp
    then obtain n' e' where 2: "n' \<le> length (pb_window (advance n e st))"
      "g x (advance n e st) = (fst (k x (pb_window (advance n e st))), advance n' e' (advance n e st))"
      "snd (k x (pb_window (advance n e st))) = drop n' (pb_window (advance n e st))"
      using assms(3) [of x] 1(4) unfolding pb_reads_upto_def by blast
    show ?thesis
      using 1 2 Some
      by (intro exI [of _ "n + n'"] exI [of _ e'])
         (simp add: pb_bind_def rd_bind_def rd advance_advance pb_window_advance add.commute)
  qed
qed

lemma rd_byte_shorter: "rd_byte c = (Some b, c') \<Longrightarrow> length c' < length c"
  by (auto simp: rd_byte_def split: list.splits)

lemma pb_reads_varint32_loop: "pb_reads (varint32_loop cb bitpos result) (rd_varint32_loop bitpos result)"
proof (rule pb_reads_upto_all)
  fix N show "pb_reads_upto N (varint32_loop cb bitpos result) (rd_varint32_loop bitpos result)"
  proof (induction N arbitrary: bitpos result)
    case (Suc N)
    define bad where "bad b \<longleftrightarrow> bitpos \<ge> 32 \<and> b AND 0x7F \<noteq> 0 \<and> (drop_bit 31 result = 0 \<or> b \<noteq> (if bitpos < 63 then 0xFF else 0x01))" for b :: byte
    define r where "r b = (if bitpos \<ge> 32 then result else result OR push_bit bitpos (ucast (b AND 0x7F)))" for b :: byte
    let ?p = "(bitpos + 7) mod 256"
    let ?g = "\<lambda>b. if bad b then PB_RETURN_ERROR ''varint overflow''
      else if high b then varint32_loop cb ?p (r b)
      else if ?p = 35 \<and> b AND 0x70 \<noteq> 0 then PB_RETURN_ERROR ''varint overflow'' else pb_return (r b)"
    let ?k = "\<lambda>b. if bad b then (\<lambda>c. (None, c))
      else if high b then rd_varint32_loop ?p (r b)
      else if ?p = 35 \<and> b AND 0x70 \<noteq> 0 then (\<lambda>c. (None, c)) else (\<lambda>c. (Some (r b), c))"
    have "pb_reads_upto (Suc N) (pb_bind (pb_readbyte cb) ?g) (rd_bind rd_byte ?k)"
      by (rule pb_reads_upto_bind [OF pb_reads_readbyte rd_byte_shorter])
         (auto intro: Suc pb_reads_upto pb_reads_error pb_reads_return)
    moreover have "varint32_loop cb bitpos result st = pb_bind (pb_readbyte cb) ?g st" for st :: "'a pb_istream"
      unfolding varint32_loop.simps [of cb bitpos] bad_def [symmetric] r_def [symmetric]
      by (auto simp: pb_bind_def pb_return_def high_iff Let_def split: prod.splits option.splits)
    moreover have "rd_varint32_loop bitpos result c = rd_bind rd_byte ?k c" for c
    proof (cases c)
      case (Cons b c')
      show ?thesis unfolding Cons rd_varint32_loop.simps(2) [of bitpos result b c'] bad_def [symmetric] r_def [symmetric]
        by (simp add: rd_bind_def rd_byte_def Let_def)
    qed (simp add: rd_bind_def rd_byte_def)
    ultimately show ?case by (rule pb_reads_upto_cong)
  qed (rule pb_reads_upto_0)
qed

definition rd_varint32 :: "byte list \<Rightarrow> u32 option \<times> byte list" where
  "rd_varint32 = rd_bind rd_byte (\<lambda>b. if high b then rd_varint32_loop 7 (ucast (b AND 0x7F)) else (\<lambda>c. (Some (ucast b), c)))"

lemma pb_reads_varint32: "pb_reads (pb_decode_varint32 cb) rd_varint32"
proof (rule pb_reads_cong)
  let ?g = "\<lambda>b. if high b then varint32_loop cb 7 (ucast (b AND 0x7F)) else pb_return (ucast b)"
  show "pb_reads (pb_bind (pb_readbyte cb) ?g) rd_varint32"
    unfolding rd_varint32_def
    by (rule pb_reads_bind [OF pb_reads_readbyte]) (simp add: pb_reads_return pb_reads_varint32_loop)
  show "pb_decode_varint32 cb st = pb_bind (pb_readbyte cb) ?g st" for st
    by (auto simp: pb_decode_varint32_def pb_decode_varint32_eof_def pb_bind_def pb_return_def high_iff split: prod.splits option.splits)
qed simp

text \<open>The groups that the 32-bit decoder lets through beyond bit 35: a sign extension, or zero.\<close>

definition sign_groups :: "nat \<Rightarrow> bool \<Rightarrow> nat \<Rightarrow> bool" where
  "sign_groups k s n \<longleftrightarrow> s \<and> n div 128 ^ k = 1 \<and> (\<forall>j < k. n div 128 ^ j mod 128 \<in> {0, 127})"

lemma sign_groups_0: "sign_groups 0 s n \<longleftrightarrow> s \<and> n = 1"
  by (simp add: sign_groups_def)

lemma sign_groups_Suc: "sign_groups (Suc k) s n \<longleftrightarrow> (n mod 128 = 0 \<or> n mod 128 = 127) \<and> sign_groups k s (n div 128)"
  by (auto simp: sign_groups_def div_mult2_eq [symmetric] All_less_Suc2)

lemma sign_groups_large: "sign_groups (Suc k) s n \<Longrightarrow> 128 \<le> n"
proof -
  assume "sign_groups (Suc k) s n"
  then have "n div (128 * 128 ^ k) = 1" by (simp add: sign_groups_def)
  moreover have "(1 :: nat) \<le> 128 ^ k" by simp
  ultimately show ?thesis by (metis div_less linorder_not_le mult_le_mono2 nat_mult_1_right one_neq_zero order_less_le_trans)
qed

lemma byte_low7_zero: "b AND 0x7F = 0 \<longleftrightarrow> unat (b :: byte) mod 128 = 0"
  by (simp add: byte_eq_iff byte_low7)

lemma rd_varint32_step:
  assumes "32 \<le> p" "(p + 7) mod 256 \<noteq> 35"
  shows "fst (rd_varint32_loop p r (b # c)) =
    (if unat b mod 128 \<noteq> 0 \<and> (drop_bit 31 r = 0 \<or> unat b \<noteq> (if p < 63 then 255 else 1)) then None
     else if high b then fst (rd_varint32_loop ((p + 7) mod 256) r c) else Some r)"
proof -
  have "b = (if p < 63 then 0xFF else 1) \<longleftrightarrow> unat b = (if p < 63 then 255 else 1)" by (auto simp: word_unat_eq_iff)
  then show ?thesis using assms unfolding rd_varint32_loop.simps(2) byte_low7_zero Let_def by auto
qed

lemma varint32_tail:
  assumes "i + k = 9" "5 \<le> i" "n < 128 ^ Suc k"
  shows "fst (rd_varint32_loop (7 * i) r (varint_bytes n @ c)) =
      (if n = 0 \<or> sign_groups k (drop_bit 31 r \<noteq> 0) n then Some r else None)"
  using assms
proof (induction k arbitrary: i n)
  case 0
  then have i: "i = 9" "n < 128" by simp_all
  have "\<not> high 0" "\<not> high 1" by (simp_all add: high_def)
  then show ?case unfolding varint_bytes_small [OF i(2)] i(1) append.simps
    by (subst rd_varint32_step) (use i(2) in \<open>simp_all add: group_byte(1,3) [OF i(2)] sign_groups_0\<close>)
next
  case (Suc k)
  then have i: "32 \<le> 7 * i" "(7 * i + 7) mod 256 \<noteq> 35" "7 * i < 63" "(7 * i + 7) mod 256 = 7 * Suc i" by simp_all
  show ?case
  proof (cases "n < 128")
    case True
    then show ?thesis
      using i group_byte(1,3) [OF True] sign_groups_large [of k "drop_bit 31 r \<noteq> 0" n]
      unfolding varint_bytes_small [OF True] append.simps rd_varint32_step [OF i(1,2)] by auto
  next
    case False
    let ?b = "word_of_nat (128 + n mod 128) :: byte"
    have "n div 128 < 128 ^ Suc k" using Suc.prems(3) by (simp add: less_mult_imp_div_less mult.commute)
    then have IH: "fst (rd_varint32_loop (7 * Suc i) r (varint_bytes (n div 128) @ c)) =
        (if n div 128 = 0 \<or> sign_groups k (drop_bit 31 r \<noteq> 0) (n div 128) then Some r else None)"
      using Suc.prems(1,2) by (intro Suc.IH) simp_all
    have b: "high ?b" "unat ?b mod 128 = n mod 128" "unat ?b = 255 \<longleftrightarrow> n mod 128 = 127"
      unfolding group_byte(4) using group_byte(2) by simp_all
    have vb: "varint_bytes n = ?b # varint_bytes (n div 128)" using False by (intro varint_bytes_large) simp
    have "n div 128 \<noteq> 0" "n \<noteq> 0" using False by simp_all
    moreover have "sign_groups k s m \<Longrightarrow> s" for s m by (simp add: sign_groups_def)
    ultimately show ?thesis unfolding vb append.simps rd_varint32_step [OF i(1,2)] i(4) IH b(2) sign_groups_Suc
      using i(3) b(1,3) by auto
  qed
qed

lemma byte_and_0x70: "\<not> high b \<Longrightarrow> b AND 0x70 \<noteq> 0 \<longleftrightarrow> 16 \<le> unat b"
proof -
  assume "\<not> high b"
  then have lt: "unat b div 16 < 8" by (simp add: high_def less_mult_imp_div_less)
  have m: "(0x70 :: byte) = push_bit 4 (mask 3)" by (simp add: mask_eq_exp_minus_1 push_bit_eq_mult)
  have "b AND 0x70 = push_bit 4 (take_bit 3 (drop_bit 4 b))"
    unfolding m by (rule bit_word_eqI) (auto simp: bit_simps)
  moreover have u: "unat (take_bit 3 (drop_bit 4 b)) = unat b div 16"
    using lt by (simp add: unsigned_take_bit_eq drop_bit_eq_div unat_div take_bit_nat_def)
  moreover have "unat (push_bit 4 (take_bit 3 (drop_bit 4 b))) = unat b div 16 * 16"
    using lt by (simp add: push_bit_eq_mult unat_word_ariths u)
  ultimately have "unat (b AND 0x70) = unat b div 16 * 16" by simp
  then have "b AND 0x70 = 0 \<longleftrightarrow> unat b div 16 = 0" by (simp add: word_unat_eq_iff)
  then show ?thesis by (simp add: div_eq_0_iff not_less)
qed

lemma rd_varint32_low_step:
  assumes "take_bit (7 * i) r = r" "i < 5"
  shows "fst (rd_varint32_loop (7 * i) r (b # c)) =
    (if high b then fst (rd_varint32_loop (7 * Suc i) (r + word_of_nat (2 ^ (7 * i) * (unat b mod 128))) c)
     else if i = 4 \<and> 16 \<le> unat b then None else Some (r + word_of_nat (2 ^ (7 * i) * (unat b mod 128))))"
    and "take_bit (7 * Suc i) (r + word_of_nat (2 ^ (7 * i) * (unat b mod 128))) = r + word_of_nat (2 ^ (7 * i) * (unat b mod 128))"
proof -
  let ?x = "push_bit (7 * i) (ucast (b AND 0x7F)) :: u32"
  have "r OR ?x = r + ?x" by (rule or_push_group(1) [OF assms(1)])
  then have sum: "r OR ?x = r + word_of_nat (2 ^ (7 * i) * (unat b mod 128))"
    by (simp add: low7_word push_bit_eq_mult mult.commute)
  show "take_bit (7 * Suc i) (r + word_of_nat (2 ^ (7 * i) * (unat b mod 128))) = r + word_of_nat (2 ^ (7 * i) * (unat b mod 128))"
    unfolding sum [symmetric] using or_push_group(2) [OF assms(1) take_bit_low7 [of b]] by (simp add: low7_word add.commute)
  have p: "\<not> 32 \<le> 7 * i" "(7 * i + 7) mod 256 = 7 * Suc i" "7 * Suc i = 35 \<longleftrightarrow> i = 4" using assms(2) by auto
  have "b AND 0x70 \<noteq> 0 \<longleftrightarrow> 16 \<le> unat b" if "\<not> high b" using that by (rule byte_and_0x70)
  then show "fst (rd_varint32_loop (7 * i) r (b # c)) =
    (if high b then fst (rd_varint32_loop (7 * Suc i) (r + word_of_nat (2 ^ (7 * i) * (unat b mod 128))) c)
     else if i = 4 \<and> 16 \<le> unat b then None else Some (r + word_of_nat (2 ^ (7 * i) * (unat b mod 128))))"
    using p unfolding rd_varint32_loop.simps(2) Let_def p(2) sum by auto
qed

definition varint32_accepted :: "u64 \<Rightarrow> bool" where
  "varint32_accepted v \<longleftrightarrow>
     unat v < 2 ^ 32 \<or> 2 ^ 63 \<le> unat v \<and> bit v 31 \<and> (\<forall>j \<in> {5..8}. unat v div 128 ^ j mod 128 \<in> {0, 127})"

lemma varint32_from:
  assumes "take_bit (7 * i) r = r" "i + k = 4" "n < 128 ^ (k + 6)"
  shows "fst (rd_varint32_loop (7 * i) r (varint_bytes n @ c)) =
    (let r' = r + word_of_nat (2 ^ (7 * i) * n)
     in if n div 128 ^ k < 16 \<or> sign_groups 4 (drop_bit 31 r' \<noteq> 0) (n div 128 ^ Suc k) then Some r' else None)"
  using assms
proof (induction k arbitrary: i r n)
  case 0
  then have i: "i = 4" "i < 5" by simp_all
  note st = rd_varint32_low_step [OF 0(1) i(2)]
  have zero: "word_of_nat (128 * 2 ^ 28 * m) = (0 :: u32)" for m
  proof -
    have "word_of_nat (128 * 2 ^ 28 * m) = (word_of_nat (2 ^ 35) :: u32) * word_of_nat m"
      by (simp only: of_nat_mult [symmetric]) simp
    also have "(word_of_nat (2 ^ 35) :: u32) = 0" by (simp only: word_unat_eq_iff unat_of_nat) simp
    finally show ?thesis by simp
  qed
  show ?case
  proof (cases "n < 128")
    case True
    then have "n div 128 ^ Suc 0 = 0" "n mod 128 = n" by simp_all
    moreover have "\<not> sign_groups 4 s 0" for s by (simp add: sign_groups_def)
    ultimately show ?thesis
      unfolding varint_bytes_small [OF True] append.simps st(1) Let_def
      using i(1) group_byte(1,3) [OF True] True by (simp add: not_less)
  next
    case False
    define r' where "r' = r + word_of_nat (2 ^ (7 * i) * (n mod 128))"
    have n: "n = n mod 128 + 128 * (n div 128)" by simp
    have "2 ^ 28 * n = 2 ^ 28 * (n mod 128) + 128 * 2 ^ 28 * (n div 128)" by (simp, use mod_mult_div_eq [of n 128] in linarith)
    then have "(word_of_nat (2 ^ 28 * n) :: u32) = word_of_nat (2 ^ 28 * (n mod 128)) + word_of_nat (128 * 2 ^ 28 * (n div 128))"
      by (simp only: of_nat_add)
    then have r': "r + word_of_nat (2 ^ (7 * i) * n) = r'" unfolding r'_def zero i(1) by simp
    have vb: "varint_bytes n = word_of_nat (128 + n mod 128) # varint_bytes (n div 128)" using False by (intro varint_bytes_large) simp
    have "n div 128 < 128 ^ Suc 4" using 0(3) by (simp add: less_mult_imp_div_less)
    then have "fst (rd_varint32_loop (7 * Suc i) r' (varint_bytes (n div 128) @ c)) =
      (if n div 128 = 0 \<or> sign_groups 4 (drop_bit 31 r' \<noteq> 0) (n div 128) then Some r' else None)"
      using i(1) by (intro varint32_tail) simp_all
    moreover have "n div 128 \<noteq> 0" using False by simp
    ultimately show ?thesis unfolding vb append.simps st(1) group_byte(4) r' using False
      by (simp add: group_byte(2) r'_def Let_def del: of_nat_add)
  qed
next
  case (Suc k)
  then have i: "i < 5" "i \<noteq> 4" by simp_all
  note st = rd_varint32_low_step [OF Suc.prems(1) i(1)]
  show ?case
  proof (cases "n < 128")
    case True
    have "(1 :: nat) \<le> 128 ^ k" by simp
    then have "n < 128 ^ Suc k" using True unfolding power_Suc by linarith
    then have "n div 128 ^ Suc k = 0" "n mod 128 = n" using True by (simp_all only: div_less mod_less)
    then show ?thesis
      unfolding varint_bytes_small [OF True] append.simps st(1) Let_def
      using i group_byte(1,3) [OF True] by simp
  next
    case False
    define r' where "r' = r + word_of_nat (2 ^ (7 * i) * (n mod 128))"
    have n: "n = n mod 128 + 128 * (n div 128)" by simp
    have "2 ^ (7 * i) * n = 2 ^ (7 * i) * (n mod 128 + 128 * (n div 128))" by simp
    also have "\<dots> = 2 ^ (7 * i) * (n mod 128) + 2 ^ (7 * Suc i) * (n div 128)"
      unfolding distrib_left by (simp add: power_add)
    finally have r': "r + word_of_nat (2 ^ (7 * i) * n) = r' + word_of_nat (2 ^ (7 * Suc i) * (n div 128))"
      unfolding r'_def by (simp only: of_nat_add add.assoc)
    have vb: "varint_bytes n = word_of_nat (128 + n mod 128) # varint_bytes (n div 128)" using False by (intro varint_bytes_large) simp
    have tb: "take_bit (7 * Suc i) r' = r'" using st(2) [of "word_of_nat (128 + n mod 128)"]
      unfolding r'_def group_byte(4) by simp
    have lt: "n div 128 < 128 ^ (k + 6)" using Suc.prems(3) by (intro less_mult_imp_div_less) (simp only: add_Suc power_Suc mult.commute)
    have "Suc i + k = 4" using Suc.prems(2) by simp
    note IH = Suc.IH [OF tb this lt]
    have "n div 128 ^ Suc k = n div 128 div 128 ^ k" "n div 128 ^ Suc (Suc k) = n div 128 div 128 ^ Suc k"
      by (simp_all only: div_mult2_eq power_Suc)
    then show ?thesis unfolding vb append.simps st(1) group_byte(4) r' using IH
      by (simp add: group_byte(2) r'_def del: of_nat_add)
  qed
qed

lemma all_less_4: "(\<forall>j < 4. P (j + 5)) \<longleftrightarrow> (\<forall>j \<in> {5..8 :: nat}. P j)"
proof -
  have "{5..8} = {5, 6, 7, 8 :: nat}" by auto
  then show ?thesis by (simp add: eval_nat_numeral All_less_Suc2)
qed

lemma rd_varint32_bytes:
  "fst (rd_varint32 (varint_bytes (unat v) @ c)) = (if varint32_accepted v then Some (ucast v) else None)"
proof (cases "unat v < 128")
  case True
  have "unat v < 2 ^ 32" using True by simp
  then show ?thesis using True group_byte(1) [OF True]
    by (simp add: varint_bytes_small rd_varint32_def rd_bind_def rd_byte_def varint32_accepted_def word_unat_eq_iff unat_ucast_mod)
next
  case False
  let ?n = "unat v"
  let ?r = "word_of_nat (?n mod 128) :: u32"
  have vb: "varint_bytes ?n = word_of_nat (128 + ?n mod 128) # varint_bytes (?n div 128)" using False by (intro varint_bytes_large) simp
  have r: "ucast (word_of_nat (128 + ?n mod 128) AND 0x7F :: byte) = ?r" unfolding low7_word group_byte(4) by simp
  have tb: "take_bit (7 * 1) ?r = ?r" using take_bit_low7 [of "word_of_nat (?n mod 128)", where 'a = 32] by simp
  have "?n < 128 * 128 ^ 9" by (rule less_trans [OF unat_u64_less]) simp
  then have lt: "?n div 128 < 128 ^ (3 + 6)" by (simp add: less_mult_imp_div_less)
  have "?r + word_of_nat (2 ^ (7 * 1) * (?n div 128)) = word_of_nat (?n mod 128 + 2 ^ (7 * 1) * (?n div 128))"
    by (rule of_nat_add [symmetric])
  also have "?n mod 128 + 2 ^ (7 * 1) * (?n div 128) = ?n" using mod_mult_div_eq [of ?n 128] by simp
  also have "(word_of_nat ?n :: u32) = ucast v" by (simp add: word_unat_eq_iff unat_ucast_mod unat_of_nat)
  finally have v: "?r + word_of_nat (2 ^ (7 * 1) * (?n div 128)) = ucast v" .
  have d: "drop_bit 31 (ucast v :: u32) \<noteq> 0 \<longleftrightarrow> bit v 31"
  proof -
    have "drop_bit 31 (ucast v :: u32) = 0 \<longleftrightarrow> \<not> bit v 31"
      by (simp only: bit_eq_iff) (auto simp: bit_simps intro: exI [of _ 0] dest: spec [of _ 0])
    then show ?thesis by simp
  qed
  have n1: "?n div 128 div 128 ^ 3 < 16 \<longleftrightarrow> ?n < 2 ^ 32"
    using div_less_iff_less_mult [of "128 ^ 4" ?n 16] by (simp add: div_mult2_eq [symmetric])
  have n2: "sign_groups 4 s (?n div 128 div 128 ^ Suc 3) \<longleftrightarrow> s \<and> 2 ^ 63 \<le> ?n \<and> (\<forall>j \<in> {5..8}. ?n div 128 ^ j mod 128 \<in> {0, 127})" for s
  proof -
    have "?n div 128 div 128 ^ Suc 3 div 128 ^ j = ?n div 128 ^ (j + 5)" for j
      by (simp add: div_mult2_eq [symmetric] power_add mult.commute)
    moreover note all_less_4 [of "\<lambda>j. ?n div 128 ^ j mod 128 \<in> {0, 127}"]
    moreover have "?n div 128 ^ (4 + 5) = 1 \<longleftrightarrow> 2 ^ 63 \<le> ?n"
    proof -
      have "m div c = 1 \<longleftrightarrow> c \<le> m" if "m < 2 * c" for m c :: nat
        using that div_less [of m c] by (auto intro: div_nat_eqI simp: linorder_not_less [symmetric])
      from this [of ?n "2 ^ 63"] less_le_trans [OF unat_u64_less [of v]] show ?thesis by simp
    qed
    ultimately show ?thesis unfolding sign_groups_def by (simp only:)
  qed
  have "fst (rd_varint32_loop 7 ?r (varint_bytes (?n div 128) @ c)) =
     (if ?n div 128 div 128 ^ 3 < 16 \<or> sign_groups 4 (drop_bit 31 (ucast v :: u32) \<noteq> 0) (?n div 128 div 128 ^ Suc 3) then Some (ucast v) else None)"
    using varint32_from [OF tb _ lt] unfolding v Let_def by simp
  then show ?thesis unfolding n1 n2 d varint32_accepted_def vb rd_varint32_def
    by (simp add: rd_bind_def rd_byte_def group_byte(2) r del: of_nat_add)
qed

text \<open>C24. On a buffer stream \<^verbatim>\<open>pb_decode_varint\<close> accepts exactly the base-128 encodings of at most ten
  bytes, shortest or not: it returns the value modulo 2^64 and leaves the rest of the window.\<close>

theorem pb_decode_varint_leb128:
  assumes "buffer_ok st"
  shows "fst (pb_decode_varint cb st) = Some v \<and> pb_window (snd (pb_decode_varint cb st)) = rest \<longleftrightarrow>
    (\<exists>bs. leb_ok bs \<and> length bs \<le> 10 \<and> pb_window st = bs @ rest \<and> v = word_of_nat (leb_val bs))"
proof -
  obtain n e where r: "pb_decode_varint cb st = (fst (rd_varint (pb_window st)), advance n e st)"
    "pb_window (advance n e st) = snd (rd_varint (pb_window st))"
    by (rule pb_readsD [OF pb_reads_varint [of cb] assms])
  show ?thesis unfolding rd_varint_iff [symmetric] using r by (cases "rd_varint (pb_window st)") simp
qed

theorem pb_decode_varint_leb128_witness:
  "fst (pb_decode_varint (\<lambda>s n. Inr (s, False)) (pb_istream_from_buffer [0xAC, 0x82, 0x00, 0x07] 4 :: unit pb_istream)) = Some 300 \<and>
   pb_window (snd (pb_decode_varint (\<lambda>s n. Inr (s, False)) (pb_istream_from_buffer [0xAC, 0x82, 0x00, 0x07] 4 :: unit pb_istream))) = [0x07]"
  by (subst pb_decode_varint_leb128)
     (auto simp: pb_istream_from_buffer_def buffer_ok_def pb_window_def high_def intro!: exI [of _ "[0xAC, 0x82, 0x00]"])

lemma pb_decode_varint32_window:
  assumes "buffer_ok st"
  shows "fst (pb_decode_varint32 cb st) = fst (rd_varint32 (pb_window st))"
proof -
  obtain n e where "pb_decode_varint32 cb st = (fst (rd_varint32 (pb_window st)), advance n e st)"
    by (rule pb_readsD [OF pb_reads_varint32 [of cb] assms])
  then show ?thesis by simp
qed

text \<open>C40. \<^verbatim>\<open>pb_decode_varint32\<close> on the shortest encoding of a 64-bit value: it accepts the values below
  2^32, and of the others exactly those with bits 31 and 63 set whose groups from bit 35 to bit 62 are
  each all zeros or all ones, whatever bits 32 to 34 are, and then truncates to 32 bits. Not only
  sign-extended 32-bit numbers are accepted: 0x8000000080000000 reads as 0x80000000.\<close>

theorem pb_decode_varint32_accepts:
  assumes "buffer_ok st" "pb_window st = varint_bytes (unat (v :: u64)) @ rest"
  shows "fst (pb_decode_varint32 cb st) =
    (if unat v < 2 ^ 32 \<or> 2 ^ 63 \<le> unat v \<and> bit v 31 \<and> (\<forall>j \<in> {5..8}. unat v div 128 ^ j mod 128 \<in> {0, 127})
     then Some (ucast v) else None)"
  unfolding pb_decode_varint32_window [OF assms(1)] assms(2) rd_varint32_bytes varint32_accepted_def by (rule refl)

theorem pb_decode_varint32_accepts_witness:
  "fst (pb_decode_varint32 (\<lambda>s n. Inr (s, False))
     (pb_istream_from_buffer (varint_bytes 0x8000000080000000) (length (varint_bytes 0x8000000080000000)) :: unit pb_istream)) = Some 0x80000000"
proof -
  let ?v = "0x8000000080000000 :: u64"
  let ?bs = "varint_bytes 0x8000000080000000"
  have "bit ?v 31" by (simp add: bit_iff_odd)
  moreover have "\<forall>j \<in> {5..8}. unat ?v div 128 ^ j mod 128 \<in> {0, 127}"
  proof -
    have "{5..8} = {5, 6, 7, 8 :: nat}" by auto
    then show ?thesis by simp
  qed
  ultimately have "fst (pb_decode_varint32 (\<lambda>s n. Inr (s, False)) (pb_istream_from_buffer ?bs (length ?bs) :: unit pb_istream)) = Some (ucast ?v)"
    by (subst pb_decode_varint32_accepts [where v = ?v and rest = "[]"])
       (simp_all add: buffer_ok_def pb_window_def pb_istream_from_buffer_def)
  then show ?thesis by simp
qed

text \<open>The position counter of the 32-bit decoder is 8 bits wide and wraps: after 37 padding bytes a
  one is taken for the value 8.\<close>

lemma rd_varint32_padding:
  "p < 256 \<Longrightarrow> rd_varint32_loop p 0 (replicate k 0x80 @ c) = rd_varint32_loop ((p + 7 * k) mod 256) 0 c"
proof (induction k arbitrary: p)
  case (Suc k)
  have "high 0x80" by (simp add: high_def)
  then have "rd_varint32_loop p 0 (0x80 # replicate k 0x80 @ c) = rd_varint32_loop ((p + 7) mod 256) 0 (replicate k 0x80 @ c)"
    by (simp add: Let_def)
  also have "\<dots> = rd_varint32_loop (((p + 7) mod 256 + 7 * k) mod 256) 0 c" by (rule Suc.IH) simp
  finally show ?case by (simp add: mod_simps algebra_simps)
qed simp

lemma pb_decode_varint32_wraps:
  "fst (pb_decode_varint32 cb (pb_istream_from_buffer (replicate 37 0x80 @ [0x01]) 38)) = Some 8"
proof -
  let ?st = "pb_istream_from_buffer (replicate 37 0x80 @ [0x01]) 38 :: 'a pb_istream"
  have ok: "buffer_ok ?st" "pb_window ?st = replicate 37 0x80 @ [0x01]"
    by (simp_all add: buffer_ok_def pb_window_def pb_istream_from_buffer_def)
  have b: "high 0x80" "\<not> high 1" by (simp_all add: high_def)
  have "replicate 37 0x80 @ [0x01 :: byte] = 0x80 # replicate 36 0x80 @ [0x01]"
    by (simp only: numeral_eq_Suc replicate_Suc append_Cons pred_numeral_simps BitM.simps)
  then have "fst (rd_varint32 (replicate 37 0x80 @ [0x01])) = fst (rd_varint32_loop 7 0 (replicate 36 0x80 @ [0x01]))"
    using b by (simp add: rd_varint32_def rd_bind_def rd_byte_def)
  also have "\<dots> = Some 8" using b by (simp add: rd_varint32_padding Let_def)
  finally show ?thesis unfolding pb_decode_varint32_window [OF ok(1)] ok(2) .
qed

end
