(* ===== verification/PbEncode.thy ===== *)
theory PbEncode
  imports PbVarint
begin

text \<open>The output streams and wire-format encoders of nanopb, \<^verbatim>\<open>pb_encode.c\<close>. A stream only counts
  (its callback is \<^verbatim>\<open>NULL\<close>), writes to a buffer, given by its object and the write position, or
  passes the bytes to a callback of the application, a parameter. Data are a list of bytes, of
  which the first \<open>count\<close> are written; \<^verbatim>\<open>NULL\<close> is the empty list.\<close>

datatype 's pb_sink = Sizing | Out_buffer "byte list" nat | Out_callback 's

record 's pb_ostream =
  os_sink :: "'s pb_sink"
  max_size :: nat
  bytes_written :: nat
  os_errmsg :: "string option"

type_synonym 's pb_out_callback = "'s \<Rightarrow> byte list \<Rightarrow> bool \<times> 's"
type_synonym 's pb_writer = "'s pb_ostream \<Rightarrow> bool \<times> 's pb_ostream"

definition PB_OUT_ERROR :: "string \<Rightarrow> 's pb_writer" where
  "PB_OUT_ERROR msg stream =
     (False, stream\<lparr>os_errmsg := (case os_errmsg stream of None \<Rightarrow> Some msg | Some m \<Rightarrow> Some m)\<rparr>)"

definition pb_then :: "'s pb_writer \<Rightarrow> 's pb_writer \<Rightarrow> 's pb_writer" where
  "pb_then f g stream = (case f stream of (ok, stream) \<Rightarrow> if ok then g stream else (False, stream))"

definition overwrite_at :: "nat \<Rightarrow> byte list \<Rightarrow> byte list \<Rightarrow> byte list" where
  "overwrite_at p data ob = take p ob @ data @ drop (p + length data) ob"

definition buf_write :: "byte list \<Rightarrow> nat \<Rightarrow> byte list \<Rightarrow> nat \<Rightarrow> byte list \<times> nat" where
  "buf_write ob p buf count = (overwrite_at p (take count buf) ob, p + count)"

definition pb_ostream_from_buffer :: "byte list \<Rightarrow> nat \<Rightarrow> 's pb_ostream" where
  "pb_ostream_from_buffer buf bufsize =
     \<lparr>os_sink = Out_buffer buf 0, max_size = bufsize, bytes_written = 0, os_errmsg = None\<rparr>"

definition PB_OSTREAM_SIZING :: "'s pb_ostream" where
  "PB_OSTREAM_SIZING = \<lparr>os_sink = Sizing, max_size = 0, bytes_written = 0, os_errmsg = None\<rparr>"

definition call_out_callback :: "'s pb_out_callback \<Rightarrow> byte list \<Rightarrow> nat \<Rightarrow> 's pb_writer" where
  "call_out_callback cb buf count stream =
     (case os_sink stream of
        Sizing \<Rightarrow> (True, stream)
      | Out_buffer ob p \<Rightarrow> (case buf_write ob p buf count of (ob, p) \<Rightarrow> (True, stream\<lparr>os_sink := Out_buffer ob p\<rparr>))
      | Out_callback s \<Rightarrow> (case cb s (take count buf) of (ok, s) \<Rightarrow> (ok, stream\<lparr>os_sink := Out_callback s\<rparr>)))"

definition pb_write :: "'s pb_out_callback \<Rightarrow> byte list \<Rightarrow> nat \<Rightarrow> 's pb_writer" where
  "pb_write cb buf count stream =
     (case (if count > 0 \<and> os_sink stream \<noteq> Sizing then
              (if (bytes_written stream + count) mod 2 ^ 64 < bytes_written stream \<or>
                  (bytes_written stream + count) mod 2 ^ 64 > max_size stream
               then PB_OUT_ERROR ''stream full'' stream
               else (case call_out_callback cb buf count stream of
                       (False, stream) \<Rightarrow> PB_OUT_ERROR ''io error'' stream
                     | (True, stream) \<Rightarrow> (True, stream)))
            else (True, stream)) of
        (False, stream) \<Rightarrow> (False, stream)
      | (True, stream) \<Rightarrow> (True, stream\<lparr>bytes_written := (bytes_written stream + count) mod 2 ^ 64\<rparr>))"

function varint_groups :: "u64 \<Rightarrow> byte list" where
  "varint_groups value =
     (if value = 0 then []
      else (ucast (value AND 0x7F) OR 0x80) # varint_groups (drop_bit 7 value))"
  by pat_completeness auto
termination
proof (relation "measure unat", goal_cases)
  case (2 v)
  then have "0 < unat v" by (simp add: unat_gt_0)
  then have "unat v div 128 < unat v" by simp
  then show ?case by (simp add: drop_bit_eq_div unat_div)
qed simp

declare varint_groups.simps [simp del]

definition pb_encode_varint :: "'s pb_out_callback \<Rightarrow> u64 \<Rightarrow> 's pb_writer" where
  "pb_encode_varint cb value =
     (if value \<le> 0x7F then pb_write cb [ucast value] 1
      else
        (let buffer = varint_groups value;
             i = length buffer
         in pb_write cb (buffer[i - 1 := buffer ! (i - 1) AND 0x7F]) i))"

definition pb_encode_svarint :: "'s pb_out_callback \<Rightarrow> u64 \<Rightarrow> 's pb_writer" where
  "pb_encode_svarint cb value =
     pb_encode_varint cb (if sint value < 0 then NOT (push_bit 1 value) else push_bit 1 value)"

definition pb_encode_fixed32 :: "'s pb_out_callback \<Rightarrow> u32 \<Rightarrow> 's pb_writer" where
  "pb_encode_fixed32 cb val =
     pb_write cb [ucast (val AND 0xFF), ucast (drop_bit 8 val AND 0xFF), ucast (drop_bit 16 val AND 0xFF),
       ucast (drop_bit 24 val AND 0xFF)] 4"

definition pb_encode_fixed64 :: "'s pb_out_callback \<Rightarrow> u64 \<Rightarrow> 's pb_writer" where
  "pb_encode_fixed64 cb val =
     pb_write cb [ucast (val AND 0xFF), ucast (drop_bit 8 val AND 0xFF), ucast (drop_bit 16 val AND 0xFF),
       ucast (drop_bit 24 val AND 0xFF), ucast (drop_bit 32 val AND 0xFF), ucast (drop_bit 40 val AND 0xFF),
       ucast (drop_bit 48 val AND 0xFF), ucast (drop_bit 56 val AND 0xFF)] 8"

definition pb_encode_tag :: "'s pb_out_callback \<Rightarrow> pb_wire_type \<Rightarrow> u32 \<Rightarrow> 's pb_writer" where
  "pb_encode_tag cb wiretype field_number =
     pb_encode_varint cb (push_bit 3 (ucast field_number) OR ucast wiretype)"

definition pb_encode_string :: "'s pb_out_callback \<Rightarrow> byte list \<Rightarrow> nat \<Rightarrow> 's pb_writer" where
  "pb_encode_string cb buffer sz =
     pb_then (pb_encode_varint cb (word_of_nat sz)) (pb_write cb buffer sz)"

subsection \<open>What a writer appends\<close>

text \<open>\<open>out_ok\<close> is the invariant of a sizing stream and of a stream over a buffer on which no error has
  occurred: the capacity that is left lies inside the buffer. \<open>pb_room\<close> says that \<open>n\<close> more bytes fit (for a sizing stream, that the
  counter does not wrap) and \<open>pb_emit\<close> is the stream after them. \<open>pb_writes f bs\<close> says that \<open>f\<close> writes
  exactly the bytes \<open>bs\<close> on every such stream that has the room, and fails on the others.\<close>

definition out_ok :: "'s pb_ostream \<Rightarrow> bool" where
  "out_ok st \<longleftrightarrow> os_errmsg st = None \<and>
     (case os_sink st of
        Sizing \<Rightarrow> bytes_written st < 2 ^ 64
      | Out_buffer ob p \<Rightarrow>
          bytes_written st \<le> max_size st \<and> max_size st < 2 ^ 63 \<and> p + (max_size st - bytes_written st) \<le> length ob
      | Out_callback s \<Rightarrow> False)"

definition pb_room :: "nat \<Rightarrow> 's pb_ostream \<Rightarrow> bool" where
  "pb_room n st \<longleftrightarrow> bytes_written st + n < (if os_sink st = Sizing then 2 ^ 64 else Suc (max_size st))"

definition pb_emit :: "byte list \<Rightarrow> 's pb_ostream \<Rightarrow> 's pb_ostream" where
  "pb_emit bs st =
     st\<lparr>os_sink := (case os_sink st of Out_buffer ob p \<Rightarrow> Out_buffer (overwrite_at p bs ob) (p + length bs) | s \<Rightarrow> s),
        bytes_written := bytes_written st + length bs\<rparr>"

definition pb_writes :: "'s pb_writer \<Rightarrow> byte list \<Rightarrow> bool" where
  "pb_writes f bs \<longleftrightarrow>
     (\<forall>st. out_ok st \<longrightarrow>
        (if pb_room (length bs) st then f st = (True, pb_emit bs st)
         else os_sink st \<noteq> Sizing \<longrightarrow> \<not> fst (f st)))"

lemma overwrite_at_Nil: "overwrite_at p [] ob = ob"
  by (simp add: overwrite_at_def)

lemma length_overwrite_at: "p + length bs \<le> length ob \<Longrightarrow> length (overwrite_at p bs ob) = length ob"
  by (simp add: overwrite_at_def)

lemma overwrite_at_append:
  "p + length bs + length cs \<le> length ob \<Longrightarrow>
   overwrite_at (p + length bs) cs (overwrite_at p bs ob) = overwrite_at p (bs @ cs) ob"
  by (simp add: overwrite_at_def add.commute add.left_commute)

lemma out_ok_emit: "out_ok st \<Longrightarrow> pb_room (length bs) st \<Longrightarrow> out_ok (pb_emit bs st)"
  by (auto simp: out_ok_def pb_room_def pb_emit_def length_overwrite_at split: pb_sink.splits)

lemma pb_room_emit: "pb_room n (pb_emit bs st) \<longleftrightarrow> pb_room (length bs + n) st"
  by (auto simp: pb_room_def pb_emit_def add.assoc split: pb_sink.splits)

lemma pb_room_le: "pb_room n st \<Longrightarrow> m \<le> n \<Longrightarrow> pb_room m st"
  by (auto simp: pb_room_def)

lemma pb_emit_Nil: "pb_emit [] st = st"
  by (cases st) (simp add: pb_emit_def overwrite_at_Nil split: pb_sink.splits)

lemma pb_emit_append:
  "out_ok st \<Longrightarrow> pb_room (length bs + length cs) st \<Longrightarrow> pb_emit cs (pb_emit bs st) = pb_emit (bs @ cs) st"
  by (auto simp: out_ok_def pb_room_def pb_emit_def overwrite_at_append add.assoc split: pb_sink.splits)

lemma pb_emit_sizing: "os_sink (pb_emit bs st) = Sizing \<longleftrightarrow> os_sink st = Sizing"
  by (auto simp: pb_emit_def split: pb_sink.splits)

lemma pb_writesI:
  assumes "\<And>st. out_ok st \<Longrightarrow> pb_room (length bs) st \<Longrightarrow> f st = (True, pb_emit bs st)"
    and "\<And>st. out_ok st \<Longrightarrow> \<not> pb_room (length bs) st \<Longrightarrow> os_sink st \<noteq> Sizing \<Longrightarrow> \<not> fst (f st)"
  shows "pb_writes f bs"
  using assms by (auto simp: pb_writes_def)

lemma pb_writesD:
  "pb_writes f bs \<Longrightarrow> out_ok st \<Longrightarrow> pb_room (length bs) st \<Longrightarrow> f st = (True, pb_emit bs st)"
  "pb_writes f bs \<Longrightarrow> out_ok st \<Longrightarrow> \<not> pb_room (length bs) st \<Longrightarrow> os_sink st \<noteq> Sizing \<Longrightarrow> \<not> fst (f st)"
  by (auto simp: pb_writes_def)

lemma pb_writes_then:
  assumes "pb_writes f bs" "pb_writes g cs"
  shows "pb_writes (pb_then f g) (bs @ cs)"
proof (rule pb_writesI)
  fix st :: "'a pb_ostream" assume st: "out_ok st" "pb_room (length (bs @ cs)) st"
  then have r: "pb_room (length bs) st" by (auto intro: pb_room_le)
  have "f st = (True, pb_emit bs st)" using assms(1) st(1) r by (rule pb_writesD)
  moreover have "g (pb_emit bs st) = (True, pb_emit cs (pb_emit bs st))"
    using assms(2) out_ok_emit [OF st(1) r] st(2) by (intro pb_writesD) (simp_all add: pb_room_emit)
  ultimately show "pb_then f g st = (True, pb_emit (bs @ cs) st)"
    using pb_emit_append [of st bs cs] st by (simp add: pb_then_def)
next
  fix st :: "'a pb_ostream" assume st: "out_ok st" "\<not> pb_room (length (bs @ cs)) st" "os_sink st \<noteq> Sizing"
  show "\<not> fst (pb_then f g st)"
  proof (cases "pb_room (length bs) st")
    case True
    have "f st = (True, pb_emit bs st)" using assms(1) st(1) True by (rule pb_writesD)
    moreover have "\<not> fst (g (pb_emit bs st))"
      using assms(2) out_ok_emit [OF st(1) True] by (rule pb_writesD) (use st in \<open>simp_all add: pb_room_emit pb_emit_sizing\<close>)
    ultimately show ?thesis by (simp add: pb_then_def)
  next
    case False
    have "\<not> fst (f st)" using assms(1) st(1) False st(3) by (rule pb_writesD)
    then show ?thesis by (cases "f st") (simp add: pb_then_def)
  qed
qed

lemma pb_writes_write: "length bs < 2 ^ 63 \<Longrightarrow> n = length bs \<Longrightarrow> pb_writes (pb_write cb bs n) bs"
proof (rule pb_writesI)
  fix st :: "'a pb_ostream"
  assume bs: "length bs < 2 ^ 63" and n: "n = length bs" and st: "out_ok st" "pb_room (length bs) st"
  then show "pb_write cb bs n st = (True, pb_emit bs st)"
    by (cases "os_sink st") (auto simp: pb_write_def out_ok_def pb_room_def pb_emit_def call_out_callback_def buf_write_def overwrite_at_Nil)
next
  fix st :: "'a pb_ostream"
  assume bs: "length bs < 2 ^ 63" and n: "n = length bs"
    and st: "out_ok st" "\<not> pb_room (length bs) st" "os_sink st \<noteq> Sizing"
  then obtain ob p where ob: "os_sink st = Out_buffer ob p" by (cases "os_sink st") (auto simp: out_ok_def)
  then have m: "bytes_written st \<le> max_size st" "max_size st < 2 ^ 63" "max_size st < bytes_written st + length bs"
    using st by (auto simp: out_ok_def pb_room_def)
  then have "0 < length bs" by linarith
  moreover have "(2 :: nat) ^ 63 + 2 ^ 63 = 2 ^ 64" by simp
  with m bs have "bytes_written st + length bs < 2 ^ 64" by linarith
  ultimately show "\<not> fst (pb_write cb bs n st)" using m
    by (simp add: pb_write_def ob n PB_OUT_ERROR_def)
qed

subsection \<open>The encoders\<close>

lemma varint_groups_bytes:
  "v \<noteq> 0 \<Longrightarrow> (varint_groups v)[length (varint_groups v) - 1 := varint_groups v ! (length (varint_groups v) - 1) AND 0x7F] =
     varint_bytes (unat v)"
proof (induction v rule: varint_groups.induct)
  case (1 v)
  let ?b = "ucast (v AND 0x7F) OR 0x80 :: byte"
  have low: "unat (v AND 0x7F) = unat v mod 128"
  proof -
    have m: "(0x7F :: u64) = mask 7" by (simp add: mask_eq_exp_minus_1)
    show ?thesis unfolding m by (simp add: take_bit_eq_mask [symmetric] unsigned_take_bit_eq take_bit_nat_def)
  qed
  have u: "unat (ucast (v AND 0x7F) :: byte) = unat v mod 128" by (simp add: unat_ucast_mod low)
  have b: "?b = word_of_nat (128 + unat v mod 128)"
  proof -
    have "take_bit 7 (ucast (v AND 0x7F) :: byte) = ucast (v AND 0x7F)"
      by (simp add: word_unat_eq_iff unsigned_take_bit_eq take_bit_nat_def u)
    then have "ucast (v AND 0x7F) OR push_bit 7 1 = ucast (v AND 0x7F) + push_bit 7 (1 :: byte)" by (rule or_push_group(1))
    moreover have "push_bit 7 (1 :: byte) = 0x80" by simp
    ultimately have "?b = ucast (v AND 0x7F) + 0x80" by simp
    then show ?thesis by (simp add: word_unat_eq_iff unat_word_ariths u unat_of_nat add.commute)
  qed
  have d: "unat (drop_bit 7 v) = unat v div 128" by (simp add: drop_bit_eq_div unat_div)
  have g: "varint_groups v = ?b # varint_groups (drop_bit 7 v)" using 1(2) by (subst varint_groups.simps) simp
  show ?case
  proof (cases "drop_bit 7 v = 0")
    case True
    then have lt: "unat v < 128" using d by (simp add: div_eq_0_iff)
    have "?b AND 0x7F = word_of_nat (unat v)"
      unfolding b byte_eq_iff byte_low7 using lt by (simp add: unat_of_nat del: of_nat_add of_nat_unat)
    moreover have "varint_groups (drop_bit 7 v) = []" unfolding True by (subst varint_groups.simps) simp
    ultimately show ?thesis using lt by (simp add: g varint_bytes_small)
  next
    case False
    then have ge: "128 \<le> unat v" using d by (simp add: word_unat_eq_iff div_eq_0_iff not_less)
    have ne: "varint_groups (drop_bit 7 v) \<noteq> []" using False by (subst varint_groups.simps) simp
    then show ?thesis using 1(1) [OF 1(2) False]
      unfolding g varint_bytes_large [OF ge] b [symmetric] d by (cases "varint_groups (drop_bit 7 v)") simp_all
  qed
qed

lemma pb_encode_varint_eq:
  "pb_encode_varint cb v = pb_write cb (varint_bytes (unat v)) (length (varint_bytes (unat v)))"
proof (cases "v \<le> 0x7F")
  case True
  then have lt: "unat v < 128" by (simp add: word_le_nat_alt)
  with True show ?thesis unfolding pb_encode_varint_def varint_bytes_small [OF lt] by simp
next
  case False
  then have "v \<noteq> 0" by auto
  from varint_groups_bytes [OF this] have
    "(varint_groups v)[length (varint_groups v) - 1 := varint_groups v ! (length (varint_groups v) - 1) AND 0x7F] = varint_bytes (unat v)" .
  then show ?thesis using False by (simp add: pb_encode_varint_def Let_def) (metis length_list_update)
qed

lemma pb_writes_varint: "pb_writes (pb_encode_varint cb v) (varint_bytes (unat v))"
proof -
  have "length (varint_bytes (unat v)) < 2 ^ 63" using length_varint_u64 [of v] by (rule le_less_trans) simp
  then show ?thesis unfolding pb_encode_varint_eq by (intro pb_writes_write) simp_all
qed

subsection \<open>Little-endian words\<close>

fun le_word :: "byte list \<Rightarrow> 'a::len word" where
  "le_word [] = 0"
| "le_word (b # bs) = ucast b OR push_bit 8 (le_word bs)"

definition le_bytes :: "nat \<Rightarrow> 'a::len word \<Rightarrow> byte list" where
  "le_bytes n v = map (\<lambda>i. ucast (drop_bit (8 * i) v)) [0..<n]"

lemma length_le_bytes [simp]: "length (le_bytes n v) = n"
  by (simp add: le_bytes_def)

lemma bit_le_word:
  "bit (le_word bs :: 'a::len word) i \<longleftrightarrow> i < LENGTH('a) \<and> i div 8 < length bs \<and> bit (bs ! (i div 8)) (i mod 8)"
proof (induction bs arbitrary: i)
  case (Cons b bs)
  show ?case
  proof (cases "i < 8")
    case True
    then show ?thesis by (auto simp: bit_simps)
  next
    case False
    then have "i div 8 = Suc ((i - 8) div 8)" "i mod 8 = (i - 8) mod 8" by (simp_all add: le_div_geq le_mod_geq)
    moreover have "\<not> bit b i" using False by (simp add: bit_word.rep_eq)
    ultimately show ?thesis using False Cons.IH [of "i - 8"] by (auto simp: bit_simps)
  qed
qed simp

lemma bit_byte_lt: "bit (b :: byte) j \<Longrightarrow> j < 8"
  by (auto dest: bit_imp_le_length)

lemma le_word_bytes: "le_word (le_bytes n v) = (take_bit (8 * n) (ucast (v :: 'b::len word)) :: 'a::len word)"
proof (rule bit_word_eqI)
  fix i assume "i < LENGTH('a)"
  moreover have "8 * (i div 8) + i mod 8 = i" by simp
  moreover have "i div 8 < n \<longleftrightarrow> i < 8 * n" by (simp add: less_mult_imp_div_less div_less_iff_less_mult mult.commute)
  moreover have "i mod 8 < 8" by simp
  ultimately show "bit (le_word (le_bytes n v) :: 'a word) i = bit (take_bit (8 * n) (ucast v :: 'a word)) i"
    by (auto simp: bit_le_word le_bytes_def bit_simps)
qed

lemma le_bytes_word:
  assumes "8 * length bs \<le> LENGTH('a)"
  shows "le_bytes (length bs) (le_word bs :: 'a::len word) = bs"
proof (rule nth_equalityI)
  fix k assume "k < length (le_bytes (length bs) (le_word bs :: 'a word))"
  then have k: "k < length bs" by simp
  show "le_bytes (length bs) (le_word bs :: 'a word) ! k = bs ! k"
  proof (rule bit_word_eqI)
    fix j assume "j < LENGTH(8)"
    then have j: "j < 8" by simp
    then have "(8 * k + j) div 8 = k" "(8 * k + j) mod 8 = j" by simp_all
    moreover have "8 * k + j < LENGTH('a)" using assms k j by linarith
    ultimately show "bit (le_bytes (length bs) (le_word bs :: 'a word) ! k) j = bit (bs ! k) j"
      using k j by (simp add: le_bytes_def bit_simps bit_le_word)
  qed
qed simp

lemma le_word_4: "le_word [a, b, c, d] = (ucast a OR push_bit 8 (ucast b) OR push_bit 16 (ucast c) OR push_bit 24 (ucast d) :: 'a::len word)"
  by (simp add: push_bit_or or.assoc)

lemma le_word_8:
  "le_word [a, b, c, d, e, f, g, h] = (ucast a OR push_bit 8 (ucast b) OR push_bit 16 (ucast c) OR push_bit 24 (ucast d) OR
     push_bit 32 (ucast e) OR push_bit 40 (ucast f) OR push_bit 48 (ucast g) OR push_bit 56 (ucast h) :: 'a::len word)"
  by (simp add: push_bit_or or.assoc)

lemma list_4: "length xs = 4 \<Longrightarrow> xs = [xs ! 0, xs ! 1, xs ! 2, xs ! 3]"
  by (auto simp: length_Suc_conv eval_nat_numeral)

lemma list_8: "length xs = 8 \<Longrightarrow> xs = [xs ! 0, xs ! 1, xs ! 2, xs ! 3, xs ! 4, xs ! 5, xs ! 6, xs ! 7]"
  by (auto simp: length_Suc_conv eval_nat_numeral)

lemma byte_of_and: "ucast (x AND 0xFF) = (ucast (x :: 'a::len word) :: byte)"
proof -
  have "(0xFF :: 'a word) = mask 8" by (simp add: mask_eq_exp_minus_1)
  show ?thesis unfolding \<open>0xFF = mask 8\<close> by (rule bit_word_eqI) (auto simp: bit_simps dest: bit_imp_le_length)
qed

lemma pb_encode_fixed32_eq: "pb_encode_fixed32 cb v = pb_write cb (le_bytes 4 v) 4"
  by (simp add: pb_encode_fixed32_def le_bytes_def byte_of_and eval_nat_numeral upt_rec)

lemma pb_encode_fixed64_eq: "pb_encode_fixed64 cb v = pb_write cb (le_bytes 8 v) 8"
  by (simp add: pb_encode_fixed64_def le_bytes_def byte_of_and eval_nat_numeral upt_rec)

lemma pb_decode_fixed32_eq: "pb_decode_fixed32 cb = pb_bind (pb_read_buf cb 4) (\<lambda>bs. pb_return (le_word [bs ! 0, bs ! 1, bs ! 2, bs ! 3]))"
  unfolding pb_decode_fixed32_def le_word_4 ..

lemma pb_decode_fixed64_eq:
  "pb_decode_fixed64 cb = pb_bind (pb_read_buf cb 8)
     (\<lambda>bs. pb_return (le_word [bs ! 0, bs ! 1, bs ! 2, bs ! 3, bs ! 4, bs ! 5, bs ! 6, bs ! 7]))"
  unfolding pb_decode_fixed64_def le_word_8 ..

end
