(* ===== verification/PbField.thy ===== *)
theory PbField
  imports PbEncode
begin

text \<open>Field descriptors and the memory of messages, \<^verbatim>\<open>pb.h\<close> and \<^verbatim>\<open>pb_common.c\<close>. Message structs live in a
  flat memory of bytes at 64-bit addresses, read and written in little-endian order; \<open>sizeof(void*)\<close>
  is 8, \<open>pb_size_t\<close> has 32 bits. An array of \<^verbatim>\<open>pb_field_t\<close> is the list of its entries, and past its end
  there is \<^verbatim>\<open>PB_LAST_FIELD\<close>; an iterator keeps its position as an index.\<close>

type_synonym addr = u64
type_synonym mem = "addr \<Rightarrow> byte"

definition load_bytes :: "mem \<Rightarrow> addr \<Rightarrow> nat \<Rightarrow> byte list" where
  "load_bytes m a n = map (\<lambda>i. m (a + word_of_nat i)) [0..<n]"

definition store_bytes :: "mem \<Rightarrow> addr \<Rightarrow> byte list \<Rightarrow> mem" where
  "store_bytes m a bs = (\<lambda>x. if unat (x - a) < length bs then bs ! unat (x - a) else m x)"

definition load_u32 :: "mem \<Rightarrow> addr \<Rightarrow> u32" where "load_u32 m a = le_word (load_bytes m a 4)"
definition load_ptr :: "mem \<Rightarrow> addr \<Rightarrow> addr" where "load_ptr m a = le_word (load_bytes m a 8)"
definition store_u32 :: "mem \<Rightarrow> addr \<Rightarrow> u32 \<Rightarrow> mem" where "store_u32 m a v = store_bytes m a (le_bytes 4 v)"
definition store_ptr :: "mem \<Rightarrow> addr \<Rightarrow> addr \<Rightarrow> mem" where "store_ptr m a v = store_bytes m a (le_bytes 8 v)"

subsection \<open>Descriptors\<close>

record pb_field =
  pf_tag :: u32
  pf_type :: byte
  data_offset :: u32
  size_offset :: u32
  data_size :: u32
  array_size :: u32
  pf_ptr :: addr

definition PB_LAST_FIELD :: pb_field where
  "PB_LAST_FIELD = \<lparr>pf_tag = 0, pf_type = 0, data_offset = 0, size_offset = 0, data_size = 0, array_size = 0, pf_ptr = 0\<rparr>"

definition field_at :: "pb_field list \<Rightarrow> nat \<Rightarrow> pb_field" where
  "field_at fs i = (if i < length fs then fs ! i else PB_LAST_FIELD)"

definition PB_ATYPE :: "byte \<Rightarrow> byte" where "PB_ATYPE x = x AND 0xC0"
definition PB_HTYPE :: "byte \<Rightarrow> byte" where "PB_HTYPE x = x AND 0x30"
definition PB_LTYPE :: "byte \<Rightarrow> byte" where "PB_LTYPE x = x AND 0x0F"

definition PB_LTYPE_BOOL :: byte where "PB_LTYPE_BOOL = 0x00"
definition PB_LTYPE_VARINT :: byte where "PB_LTYPE_VARINT = 0x01"
definition PB_LTYPE_UVARINT :: byte where "PB_LTYPE_UVARINT = 0x02"
definition PB_LTYPE_SVARINT :: byte where "PB_LTYPE_SVARINT = 0x03"
definition PB_LTYPE_FIXED32 :: byte where "PB_LTYPE_FIXED32 = 0x04"
definition PB_LTYPE_FIXED64 :: byte where "PB_LTYPE_FIXED64 = 0x05"
definition PB_LTYPE_LAST_PACKABLE :: byte where "PB_LTYPE_LAST_PACKABLE = 0x05"
definition PB_LTYPE_BYTES :: byte where "PB_LTYPE_BYTES = 0x06"
definition PB_LTYPE_STRING :: byte where "PB_LTYPE_STRING = 0x07"
definition PB_LTYPE_SUBMESSAGE :: byte where "PB_LTYPE_SUBMESSAGE = 0x08"
definition PB_LTYPE_EXTENSION :: byte where "PB_LTYPE_EXTENSION = 0x09"
definition PB_LTYPE_FIXED_LENGTH_BYTES :: byte where "PB_LTYPE_FIXED_LENGTH_BYTES = 0x0A"
definition PB_HTYPE_REQUIRED :: byte where "PB_HTYPE_REQUIRED = 0x00"
definition PB_HTYPE_OPTIONAL :: byte where "PB_HTYPE_OPTIONAL = 0x10"
definition PB_HTYPE_REPEATED :: byte where "PB_HTYPE_REPEATED = 0x20"
definition PB_HTYPE_ONEOF :: byte where "PB_HTYPE_ONEOF = 0x30"
definition PB_ATYPE_STATIC :: byte where "PB_ATYPE_STATIC = 0x00"
definition PB_ATYPE_POINTER :: byte where "PB_ATYPE_POINTER = 0x80"
definition PB_ATYPE_CALLBACK :: byte where "PB_ATYPE_CALLBACK = 0x40"
definition PB_SIZE_MAX :: u32 where "PB_SIZE_MAX = 0xFFFFFFFF"

lemmas pb_types [simp] =
  PB_LTYPE_BOOL_def PB_LTYPE_VARINT_def PB_LTYPE_UVARINT_def PB_LTYPE_SVARINT_def PB_LTYPE_FIXED32_def
  PB_LTYPE_FIXED64_def PB_LTYPE_LAST_PACKABLE_def PB_LTYPE_BYTES_def PB_LTYPE_STRING_def
  PB_LTYPE_SUBMESSAGE_def PB_LTYPE_EXTENSION_def PB_LTYPE_FIXED_LENGTH_BYTES_def
  PB_HTYPE_REQUIRED_def PB_HTYPE_OPTIONAL_def PB_HTYPE_REPEATED_def PB_HTYPE_ONEOF_def
  PB_ATYPE_STATIC_def PB_ATYPE_POINTER_def PB_ATYPE_CALLBACK_def

subsection \<open>The field iterator\<close>

text \<open>The size pointer of an iterator points into the message, or to the counter of fixed-count
  arrays, a local variable of \<^verbatim>\<open>pb_decode_noinit\<close>.\<close>

datatype pb_size_ptr = Size_at addr | Local_count

record pb_field_iter =
  it_fields :: "pb_field list"
  it_pos :: nat
  required_field_index :: nat
  dest_struct :: addr
  pData :: addr
  pSize :: pb_size_ptr

abbreviation it_field :: "pb_field_iter \<Rightarrow> pb_field" where
  "it_field iter \<equiv> field_at (it_fields iter) (it_pos iter)"

definition pb_field_iter_begin :: "pb_field list \<Rightarrow> addr \<Rightarrow> bool \<times> pb_field_iter" where
  "pb_field_iter_begin fs dest =
     (let f = field_at fs 0;
          d = dest + ucast (data_offset f)
      in (pf_tag f \<noteq> 0,
          \<lparr>it_fields = fs, it_pos = 0, required_field_index = 0, dest_struct = dest,
           pData = d, pSize = Size_at (d + scast (size_offset f))\<rparr>))"

definition pb_field_iter_next :: "pb_field_iter \<Rightarrow> bool \<times> pb_field_iter" where
  "pb_field_iter_next iter =
     (let prev_field = it_field iter in
      if pf_tag prev_field = 0 then (False, iter)
      else
        (let iter = iter\<lparr>it_pos := it_pos iter + 1\<rparr>; f = it_field iter in
         if pf_tag f = 0 then (False, snd (pb_field_iter_begin (it_fields iter) (dest_struct iter)))
         else if PB_HTYPE (pf_type prev_field) = PB_HTYPE_ONEOF \<and> PB_HTYPE (pf_type f) = PB_HTYPE_ONEOF \<and>
                 data_offset f = PB_SIZE_MAX
         then (True, iter)
         else
           (let prev_size =
                  (if PB_ATYPE (pf_type prev_field) = PB_ATYPE_STATIC \<and> PB_HTYPE (pf_type prev_field) = PB_HTYPE_REPEATED
                   then ucast (data_size prev_field) * ucast (array_size prev_field)
                   else if PB_ATYPE (pf_type prev_field) = PB_ATYPE_POINTER then 8
                   else ucast (data_size prev_field));
                req = (if PB_HTYPE (pf_type prev_field) = PB_HTYPE_REQUIRED
                       then required_field_index iter + 1 else required_field_index iter);
                d = pData iter + prev_size + ucast (data_offset f)
            in (True, iter\<lparr>required_field_index := req, pData := d, pSize := Size_at (d + scast (size_offset f))\<rparr>))))"

fun iter_find_loop :: "nat \<Rightarrow> (pb_field \<Rightarrow> bool) \<Rightarrow> nat \<Rightarrow> pb_field_iter \<Rightarrow> (bool \<times> pb_field_iter) option" where
  "iter_find_loop 0 P start iter = None"
| "iter_find_loop (Suc n) P start iter =
     (if P (it_field iter) then Some (True, iter)
      else
        (let iter = snd (pb_field_iter_next iter) in
         if it_pos iter = start then Some (False, iter) else iter_find_loop n P start iter))"

definition pb_field_iter_find :: "pb_field_iter \<Rightarrow> u32 \<Rightarrow> (bool \<times> pb_field_iter) option" where
  "pb_field_iter_find iter tag =
     iter_find_loop (Suc (length (it_fields iter)))
       (\<lambda>f. pf_tag f = tag \<and> PB_LTYPE (pf_type f) \<noteq> PB_LTYPE_EXTENSION) (it_pos iter) iter"

definition find_extension_field :: "pb_field_iter \<Rightarrow> (bool \<times> pb_field_iter) option" where
  "find_extension_field iter =
     iter_find_loop (Suc (length (it_fields iter))) (\<lambda>f. PB_LTYPE (pf_type f) = PB_LTYPE_EXTENSION) (it_pos iter) iter"

subsection \<open>Extensions\<close>

text \<open>\<^verbatim>\<open>pb_extension_t\<close> has the fields type, dest, next and found; \<^verbatim>\<open>pb_extension_type_t\<close> has decode, encode
  and arg.\<close>

definition ext_type :: "mem \<Rightarrow> addr \<Rightarrow> addr" where "ext_type m e = load_ptr m e"
definition ext_dest :: "mem \<Rightarrow> addr \<Rightarrow> addr" where "ext_dest m e = load_ptr m (e + 8)"
definition ext_next :: "mem \<Rightarrow> addr \<Rightarrow> addr" where "ext_next m e = load_ptr m (e + 16)"
definition ext_arg :: "mem \<Rightarrow> addr \<Rightarrow> addr" where "ext_arg m e = load_ptr m (ext_type m e + 16)"
definition ext_found :: "addr \<Rightarrow> addr" where "ext_found e = e + 24"

definition iter_from_extension :: "(addr \<Rightarrow> pb_field list) \<Rightarrow> mem \<Rightarrow> addr \<Rightarrow> pb_field_iter" where
  "iter_from_extension desc m e =
     (let iter = snd (pb_field_iter_begin (desc (ext_arg m e)) (ext_dest m e));
          iter = iter\<lparr>pData := ext_dest m e, pSize := Size_at (ext_found e)\<rparr>
      in if PB_ATYPE (pf_type (it_field iter)) = PB_ATYPE_POINTER then iter\<lparr>pData := e + 8\<rparr> else iter)"

subsection \<open>What the iterator visits\<close>

text \<open>\<open>iter_at fs dest k\<close> is the iterator at the \<open>k\<close>-th field: the addresses by the offsets in the
  descriptors, fields of a union sharing one address.\<close>

definition field_count :: "pb_field list \<Rightarrow> nat" where
  "field_count fs = length (takeWhile (\<lambda>f. pf_tag f \<noteq> 0) fs)"

definition in_union :: "pb_field list \<Rightarrow> nat \<Rightarrow> bool" where
  "in_union fs k \<longleftrightarrow>
     PB_HTYPE (pf_type (field_at fs k)) = PB_HTYPE_ONEOF \<and> PB_HTYPE (pf_type (field_at fs (Suc k))) = PB_HTYPE_ONEOF \<and>
     data_offset (field_at fs (Suc k)) = PB_SIZE_MAX"

definition field_extent :: "pb_field \<Rightarrow> addr" where
  "field_extent f =
     (if PB_ATYPE (pf_type f) = PB_ATYPE_STATIC \<and> PB_HTYPE (pf_type f) = PB_HTYPE_REPEATED
      then ucast (data_size f) * ucast (array_size f)
      else if PB_ATYPE (pf_type f) = PB_ATYPE_POINTER then 8
      else ucast (data_size f))"

fun field_addr :: "pb_field list \<Rightarrow> addr \<Rightarrow> nat \<Rightarrow> addr" where
  "field_addr fs dest 0 = dest + ucast (data_offset (field_at fs 0))"
| "field_addr fs dest (Suc k) =
     (if in_union fs k then field_addr fs dest k
      else field_addr fs dest k + field_extent (field_at fs k) + ucast (data_offset (field_at fs (Suc k))))"

fun field_size_ptr :: "pb_field list \<Rightarrow> addr \<Rightarrow> nat \<Rightarrow> addr" where
  "field_size_ptr fs dest 0 = field_addr fs dest 0 + scast (size_offset (field_at fs 0))"
| "field_size_ptr fs dest (Suc k) =
     (if in_union fs k then field_size_ptr fs dest k
      else field_addr fs dest (Suc k) + scast (size_offset (field_at fs (Suc k))))"

fun required_before :: "pb_field list \<Rightarrow> nat \<Rightarrow> nat" where
  "required_before fs 0 = 0"
| "required_before fs (Suc k) =
     (if PB_HTYPE (pf_type (field_at fs k)) = PB_HTYPE_REQUIRED then Suc (required_before fs k) else required_before fs k)"

definition iter_at :: "pb_field list \<Rightarrow> addr \<Rightarrow> nat \<Rightarrow> pb_field_iter" where
  "iter_at fs dest k =
     \<lparr>it_fields = fs, it_pos = k, required_field_index = required_before fs k, dest_struct = dest,
      pData = field_addr fs dest k, pSize = Size_at (field_size_ptr fs dest k)\<rparr>"

lemma iter_at_simps [simp]:
  "it_fields (iter_at fs dest k) = fs" "it_pos (iter_at fs dest k) = k" "dest_struct (iter_at fs dest k) = dest"
  "pData (iter_at fs dest k) = field_addr fs dest k" "pSize (iter_at fs dest k) = Size_at (field_size_ptr fs dest k)"
  "required_field_index (iter_at fs dest k) = required_before fs k"
  by (simp_all add: iter_at_def)

lemma field_count_tag: "k < field_count fs \<Longrightarrow> k < length fs \<and> pf_tag (field_at fs k) \<noteq> 0"
proof -
  assume k: "k < field_count fs"
  then have "k < length fs" unfolding field_count_def by (rule less_le_trans) (rule length_takeWhile_le)
  moreover have "pf_tag (fs ! k) \<noteq> 0"
    using k unfolding field_count_def by (metis (mono_tags, lifting) nth_mem set_takeWhileD takeWhile_nth)
  ultimately show ?thesis by (simp add: field_at_def)
qed

lemma field_count_end: "pf_tag (field_at fs (field_count fs)) = 0"
  using nth_length_takeWhile [of "\<lambda>f. pf_tag f \<noteq> 0" fs]
  by (auto simp: field_at_def field_count_def PB_LAST_FIELD_def)

lemma begin_iter_at: "pb_field_iter_begin fs dest = (0 < field_count fs, iter_at fs dest 0)"
proof -
  have "pf_tag (field_at fs 0) \<noteq> 0 \<longleftrightarrow> 0 < field_count fs"
    using field_count_tag [of 0 fs] field_count_end [of fs] by (cases "field_count fs") auto
  then show ?thesis by (simp add: pb_field_iter_begin_def iter_at_def Let_def)
qed

lemma next_iter_at:
  assumes "k < field_count fs"
  shows "pb_field_iter_next (iter_at fs dest k) =
    (if Suc k < field_count fs then (True, iter_at fs dest (Suc k)) else (False, iter_at fs dest 0))"
proof -
  have t: "pf_tag (field_at fs k) \<noteq> 0" using field_count_tag [OF assms] by simp
  show ?thesis
  proof (cases "Suc k < field_count fs")
    case True
    then have "pf_tag (field_at fs (Suc k)) \<noteq> 0" using field_count_tag by blast
    then show ?thesis using t True
      by (auto simp: pb_field_iter_next_def iter_at_def Let_def in_union_def field_extent_def)
  next
    case False
    then have "Suc k = field_count fs" using assms by simp
    then have "pf_tag (field_at fs (Suc k)) = 0" using field_count_end [of fs] by simp
    then show ?thesis using t False
      by (simp add: pb_field_iter_next_def Let_def begin_iter_at)
  qed
qed

subsection \<open>The search for a field\<close>

definition found_iter :: "pb_field list \<Rightarrow> addr \<Rightarrow> nat \<Rightarrow> nat option \<Rightarrow> bool \<times> pb_field_iter" where
  "found_iter fs dest start r = (case r of None \<Rightarrow> (False, iter_at fs dest start) | Some j \<Rightarrow> (True, iter_at fs dest j))"

lemma iter_find_loop_wrapped:
  assumes "start < field_count fs" "start - k \<le> n" "k \<le> start"
  shows "k < start \<Longrightarrow> iter_find_loop n P start (iter_at fs dest k) =
    Some (found_iter fs dest start (find (\<lambda>j. P (field_at fs j)) [k..<start]))"
  using assms(2,3)
proof (induction n arbitrary: k)
  case (Suc n)
  have nx: "snd (pb_field_iter_next (iter_at fs dest k)) = iter_at fs dest (Suc k)"
    using Suc.prems(1) assms(1) by (simp add: next_iter_at)
  show ?case
  proof (cases "Suc k = start")
    case True
    then show ?thesis using nx by (auto simp: found_iter_def Let_def upt_conv_Cons)
  next
    case False
    then have "iter_find_loop n P start (iter_at fs dest (Suc k)) =
        Some (found_iter fs dest start (find (\<lambda>j. P (field_at fs j)) [Suc k..<start]))"
      using Suc.prems by (intro Suc.IH) simp_all
    then show ?thesis using nx False Suc.prems(1) by (simp add: found_iter_def Let_def upt_conv_Cons)
  qed
qed simp

lemma iter_find_loop_from:
  assumes "start < field_count fs"
  shows "start \<le> k \<Longrightarrow> k < field_count fs \<Longrightarrow> field_count fs - k + start \<le> n \<Longrightarrow>
    iter_find_loop n P start (iter_at fs dest k) =
    Some (found_iter fs dest start (find (\<lambda>j. P (field_at fs j)) ([k..<field_count fs] @ [0..<start])))"
proof (induction n arbitrary: k)
  case (Suc n)
  show ?case
  proof (cases "P (field_at fs k)")
    case True
    then show ?thesis using Suc.prems by (simp add: found_iter_def upt_conv_Cons)
  next
    case no: False
    show ?thesis
    proof (cases "Suc k < field_count fs")
      case True
      then have "snd (pb_field_iter_next (iter_at fs dest k)) = iter_at fs dest (Suc k)" using Suc.prems by (simp add: next_iter_at)
      moreover have "iter_find_loop n P start (iter_at fs dest (Suc k)) =
        Some (found_iter fs dest start (find (\<lambda>j. P (field_at fs j)) ([Suc k..<field_count fs] @ [0..<start])))"
        using Suc.prems True by (intro Suc.IH) simp_all
      ultimately show ?thesis using no Suc.prems True by (simp add: Let_def upt_conv_Cons)
    next
      case False
      then have nx: "snd (pb_field_iter_next (iter_at fs dest k)) = iter_at fs dest 0" using Suc.prems by (simp add: next_iter_at)
      have k: "[k..<field_count fs] = [k]" using Suc.prems False by (simp add: upt_conv_Cons)
      show ?thesis
      proof (cases "start = 0")
        case True
        then show ?thesis using nx no k by (simp add: Let_def found_iter_def)
      next
        case False
        then have "iter_find_loop n P start (iter_at fs dest 0) =
            Some (found_iter fs dest start (find (\<lambda>j. P (field_at fs j)) [0..<start]))"
          using Suc.prems assms by (intro iter_find_loop_wrapped) simp_all
        then show ?thesis using nx no k False by (simp add: Let_def)
      qed
    qed
  qed
qed simp

lemma iter_find_loop_all:
  assumes "k < field_count fs"
  shows "iter_find_loop (Suc (length fs)) P k (iter_at fs dest k) =
    Some (found_iter fs dest k (find (\<lambda>j. P (field_at fs j)) ([k..<field_count fs] @ [0..<k])))"
proof (rule iter_find_loop_from)
  have "field_count fs \<le> length fs" unfolding field_count_def by (rule length_takeWhile_le)
  then show "field_count fs - k + k \<le> Suc (length fs)" using assms by simp
qed (use assms in simp_all)

end
