(* ===== verification/PbEncField.thy ===== *)
theory PbEncField
  imports PbField
begin

text \<open>The encoders of single values in \<^verbatim>\<open>pb_encode.c\<close>, which read them from the memory of the message
  struct. A null source pointer is the address 0.\<close>

definition safe_read_bool :: "mem \<Rightarrow> addr \<Rightarrow> bool" where
  "safe_read_bool m p \<longleftrightarrow> m p \<noteq> 0"

definition load_signed :: "mem \<Rightarrow> addr \<Rightarrow> u32 \<Rightarrow> u64 option" where
  "load_signed m src sz =
     (if sz = 1 then Some (scast (le_word (load_bytes m src 1) :: byte))
      else if sz = 2 then Some (scast (le_word (load_bytes m src 2) :: u16))
      else if sz = 4 then Some (scast (le_word (load_bytes m src 4) :: u32))
      else if sz = 8 then Some (le_word (load_bytes m src 8))
      else None)"

definition load_unsigned :: "mem \<Rightarrow> addr \<Rightarrow> u32 \<Rightarrow> u64 option" where
  "load_unsigned m src sz =
     (if sz = 1 then Some (ucast (le_word (load_bytes m src 1) :: byte))
      else if sz = 2 then Some (ucast (le_word (load_bytes m src 2) :: u16))
      else if sz = 4 then Some (ucast (le_word (load_bytes m src 4) :: u32))
      else if sz = 8 then Some (le_word (load_bytes m src 8))
      else None)"

definition pb_enc_bool :: "'s pb_out_callback \<Rightarrow> mem \<Rightarrow> pb_field \<Rightarrow> addr \<Rightarrow> 's pb_writer" where
  "pb_enc_bool cb m field src = pb_encode_varint cb (if safe_read_bool m src then 1 else 0)"

definition pb_enc_varint :: "'s pb_out_callback \<Rightarrow> mem \<Rightarrow> pb_field \<Rightarrow> addr \<Rightarrow> 's pb_writer" where
  "pb_enc_varint cb m field src =
     (case load_signed m src (data_size field) of
        None \<Rightarrow> PB_OUT_ERROR ''invalid data_size''
      | Some value \<Rightarrow> pb_encode_varint cb value)"

definition pb_enc_uvarint :: "'s pb_out_callback \<Rightarrow> mem \<Rightarrow> pb_field \<Rightarrow> addr \<Rightarrow> 's pb_writer" where
  "pb_enc_uvarint cb m field src =
     (case load_unsigned m src (data_size field) of
        None \<Rightarrow> PB_OUT_ERROR ''invalid data_size''
      | Some value \<Rightarrow> pb_encode_varint cb value)"

definition pb_enc_svarint :: "'s pb_out_callback \<Rightarrow> mem \<Rightarrow> pb_field \<Rightarrow> addr \<Rightarrow> 's pb_writer" where
  "pb_enc_svarint cb m field src =
     (case load_signed m src (data_size field) of
        None \<Rightarrow> PB_OUT_ERROR ''invalid data_size''
      | Some value \<Rightarrow> pb_encode_svarint cb value)"

definition pb_enc_fixed32 :: "'s pb_out_callback \<Rightarrow> mem \<Rightarrow> pb_field \<Rightarrow> addr \<Rightarrow> 's pb_writer" where
  "pb_enc_fixed32 cb m field src = pb_encode_fixed32 cb (load_u32 m src)"

definition pb_enc_fixed64 :: "'s pb_out_callback \<Rightarrow> mem \<Rightarrow> pb_field \<Rightarrow> addr \<Rightarrow> 's pb_writer" where
  "pb_enc_fixed64 cb m field src = pb_encode_fixed64 cb (le_word (load_bytes m src 8))"

definition pb_enc_bytes :: "'s pb_out_callback \<Rightarrow> mem \<Rightarrow> pb_field \<Rightarrow> addr \<Rightarrow> 's pb_writer" where
  "pb_enc_bytes cb m field src =
     (if src = 0 then pb_encode_string cb [] 0
      else
        (let sz = load_u32 m src;
             allocsize = ucast sz + 4 :: u64
         in if allocsize < ucast sz \<or>
               PB_ATYPE (pf_type field) = PB_ATYPE_STATIC \<and> allocsize > ucast (data_size field)
            then PB_OUT_ERROR ''bytes size exceeded''
            else pb_encode_string cb (load_bytes m (src + 4) (unat sz)) (unat sz)))"

function strnlen_loop :: "mem \<Rightarrow> addr \<Rightarrow> nat \<Rightarrow> nat \<Rightarrow> nat" where
  "strnlen_loop m p max_sz sz =
     (if sz < max_sz \<and> m p \<noteq> 0 then strnlen_loop m (p + 1) max_sz (sz + 1) else sz)"
  by pat_completeness auto
termination
  by (relation "measure (\<lambda>(m, p, max_sz, sz). max_sz - sz)") auto

declare strnlen_loop.simps [simp del]

definition pb_enc_string :: "'s pb_out_callback \<Rightarrow> mem \<Rightarrow> pb_field \<Rightarrow> addr \<Rightarrow> 's pb_writer" where
  "pb_enc_string cb m field src =
     (let max_sz = (if PB_ATYPE (pf_type field) = PB_ATYPE_POINTER then 2 ^ 64 - 1 else unat (data_size field));
          sz = (if src = 0 then 0 else strnlen_loop m src max_sz 0)
      in pb_encode_string cb (load_bytes m src sz) sz)"

definition pb_enc_fixed_length_bytes :: "'s pb_out_callback \<Rightarrow> mem \<Rightarrow> pb_field \<Rightarrow> addr \<Rightarrow> 's pb_writer" where
  "pb_enc_fixed_length_bytes cb m field src =
     pb_encode_string cb (load_bytes m src (unat (data_size field))) (unat (data_size field))"

end
