(* ===== verification/PbEncMessage.thy ===== *)
theory PbEncMessage
  imports PbEncField
begin

text \<open>The encoder of whole messages, \<^verbatim>\<open>pb_encode.c\<close>: arrays, presence of fields, callbacks, extensions
  and submessages. Parameters, in the record \<open>pb_enc_env\<close>: the callback of the stream, the memory, the
  descriptor arrays by address, and the application's functions by the value of the pointer to them.
  The result is \<open>None\<close> when the nesting of messages, or the list of extensions, is longer than the fuel,
  and when C has no result because a null function pointer is called.\<close>

record 's pb_enc_env =
  ee_callback :: "'s pb_out_callback"
  ee_mem :: mem
  ee_fields :: "addr \<Rightarrow> pb_field list"
  ee_user :: "addr \<Rightarrow> pb_field \<Rightarrow> addr \<Rightarrow> 's pb_writer"
  ee_extension :: "addr \<Rightarrow> addr \<Rightarrow> 's pb_writer"

type_synonym 's pb_enc = "'s pb_ostream \<Rightarrow> (bool \<times> 's pb_ostream) option"
type_synonym 's pb_encoder = "pb_field \<Rightarrow> addr \<Rightarrow> 's pb_enc"

definition enc_pure :: "'s pb_writer \<Rightarrow> 's pb_enc" where
  "enc_pure f st = Some (f st)"

definition enc_then :: "'s pb_enc \<Rightarrow> 's pb_enc \<Rightarrow> 's pb_enc" where
  "enc_then f g st =
     (case f st of
        None \<Rightarrow> None
      | Some (ok, st) \<Rightarrow> if ok then g st else Some (False, st))"

definition enc_true :: "'s pb_enc" where
  "enc_true = enc_pure (\<lambda>st. (True, st))"

definition pb_encode_tag_for_field :: "'s pb_out_callback \<Rightarrow> pb_field \<Rightarrow> 's pb_writer" where
  "pb_encode_tag_for_field cb field =
     (let ltype = PB_LTYPE (pf_type field) in
      if ltype \<in> {PB_LTYPE_BOOL, PB_LTYPE_VARINT, PB_LTYPE_UVARINT, PB_LTYPE_SVARINT}
      then pb_encode_tag cb PB_WT_VARINT (pf_tag field)
      else if ltype = PB_LTYPE_FIXED32 then pb_encode_tag cb PB_WT_32BIT (pf_tag field)
      else if ltype = PB_LTYPE_FIXED64 then pb_encode_tag cb PB_WT_64BIT (pf_tag field)
      else if ltype \<in> {PB_LTYPE_BYTES, PB_LTYPE_STRING, PB_LTYPE_SUBMESSAGE, PB_LTYPE_FIXED_LENGTH_BYTES}
      then pb_encode_tag cb PB_WT_STRING (pf_tag field)
      else PB_OUT_ERROR ''invalid field type'')"

definition pb_encode_submessage :: "'s pb_enc_env \<Rightarrow> (pb_field list \<Rightarrow> addr \<Rightarrow> 's pb_enc) \<Rightarrow> pb_field list \<Rightarrow> addr \<Rightarrow> 's pb_enc" where
  "pb_encode_submessage env enc fs src stream =
     (case enc fs src PB_OSTREAM_SIZING of
        None \<Rightarrow> None
      | Some (False, substream) \<Rightarrow> Some (False, stream\<lparr>os_errmsg := os_errmsg substream\<rparr>)
      | Some (True, substream) \<Rightarrow>
         (let sz = bytes_written substream in
          enc_then (enc_pure (pb_encode_varint (ee_callback env) (word_of_nat sz))) (\<lambda>stream.
            if os_sink stream = Sizing then Some (pb_write (ee_callback env) [] sz stream)
            else if (bytes_written stream + sz) mod 2 ^ 64 > max_size stream
            then Some (PB_OUT_ERROR ''stream full'' stream)
            else
              (case enc fs src \<lparr>os_sink = os_sink stream, max_size = sz, bytes_written = 0, os_errmsg = None\<rparr> of
                 None \<Rightarrow> None
               | Some (status, substream) \<Rightarrow>
                  (let stream = stream\<lparr>bytes_written := (bytes_written stream + bytes_written substream) mod 2 ^ 64,
                         os_sink := os_sink substream, os_errmsg := os_errmsg substream\<rparr>
                   in if bytes_written substream \<noteq> sz then Some (PB_OUT_ERROR ''submsg size changed'' stream)
                      else Some (status, stream)))) stream))"

definition pb_enc_submessage :: "'s pb_enc_env \<Rightarrow> (pb_field list \<Rightarrow> addr \<Rightarrow> 's pb_enc) \<Rightarrow> 's pb_encoder" where
  "pb_enc_submessage env enc field src =
     (if pf_ptr field = 0 then enc_pure (PB_OUT_ERROR ''invalid field descriptor'')
      else pb_encode_submessage env enc (ee_fields env (pf_ptr field)) src)"

definition PB_ENCODERS :: "'s pb_enc_env \<Rightarrow> (pb_field list \<Rightarrow> addr \<Rightarrow> 's pb_enc) \<Rightarrow> byte \<Rightarrow> 's pb_encoder" where
  "PB_ENCODERS env enc ltype field src =
     (let cb = ee_callback env; m = ee_mem env in
      if ltype = PB_LTYPE_BOOL then enc_pure (pb_enc_bool cb m field src)
      else if ltype = PB_LTYPE_VARINT then enc_pure (pb_enc_varint cb m field src)
      else if ltype = PB_LTYPE_UVARINT then enc_pure (pb_enc_uvarint cb m field src)
      else if ltype = PB_LTYPE_SVARINT then enc_pure (pb_enc_svarint cb m field src)
      else if ltype = PB_LTYPE_FIXED32 then enc_pure (pb_enc_fixed32 cb m field src)
      else if ltype = PB_LTYPE_FIXED64 then enc_pure (pb_enc_fixed64 cb m field src)
      else if ltype = PB_LTYPE_BYTES then enc_pure (pb_enc_bytes cb m field src)
      else if ltype = PB_LTYPE_STRING then enc_pure (pb_enc_string cb m field src)
      else if ltype = PB_LTYPE_SUBMESSAGE then pb_enc_submessage env enc field src
      else if ltype = PB_LTYPE_FIXED_LENGTH_BYTES then enc_pure (pb_enc_fixed_length_bytes cb m field src)
      else (\<lambda>_. None))"

fun enc_items :: "nat \<Rightarrow> addr \<Rightarrow> (addr \<Rightarrow> 's pb_enc) \<Rightarrow> addr \<Rightarrow> 's pb_enc" where
  "enc_items 0 step func p = enc_true"
| "enc_items (Suc count) step func p = enc_then (func p) (enc_items count step func (p + step))"

definition encode_array :: "'s pb_enc_env \<Rightarrow> pb_field \<Rightarrow> addr \<Rightarrow> u32 \<Rightarrow> 's pb_encoder \<Rightarrow> 's pb_enc" where
  "encode_array env field p count func =
     (let cb = ee_callback env; ltype = PB_LTYPE (pf_type field);
          items = enc_items (unat count) (ucast (data_size field)) in
      if count = 0 then enc_true
      else if PB_ATYPE (pf_type field) \<noteq> PB_ATYPE_POINTER \<and> count > array_size field
      then enc_pure (PB_OUT_ERROR ''array max size exceeded'')
      else if ltype \<le> PB_LTYPE_LAST_PACKABLE then
        enc_then (enc_pure (pb_encode_tag cb PB_WT_STRING (pf_tag field))) (\<lambda>stream.
          (case (if ltype = PB_LTYPE_FIXED32 then Some (True, 4 * unat count)
                 else if ltype = PB_LTYPE_FIXED64 then Some (True, 8 * unat count)
                 else map_option (\<lambda>(ok, sizestream). (ok, bytes_written sizestream)) (items (func field) p PB_OSTREAM_SIZING)) of
             None \<Rightarrow> None
           | Some (False, sz) \<Rightarrow> Some (False, stream)
           | Some (True, sz) \<Rightarrow>
               enc_then (enc_pure (pb_encode_varint cb (word_of_nat sz))) (\<lambda>stream.
                 if os_sink stream = Sizing then Some (pb_write cb [] sz stream)
                 else items (func field) p stream) stream))
      else
        items (\<lambda>p. enc_then (enc_pure (pb_encode_tag_for_field cb field))
          (if PB_ATYPE (pf_type field) = PB_ATYPE_POINTER \<and> (ltype = PB_LTYPE_STRING \<or> ltype = PB_LTYPE_BYTES)
           then func field (load_ptr (ee_mem env) p) else func field p)) p)"

subsection \<open>Presence of fields\<close>

fun pb_check_proto3_default_value :: "nat \<Rightarrow> 's pb_enc_env \<Rightarrow> pb_field \<Rightarrow> addr \<Rightarrow> bool option"
  and check_default_loop :: "nat \<Rightarrow> 's pb_enc_env \<Rightarrow> pb_field_iter \<Rightarrow> bool option" where
  "pb_check_proto3_default_value 0 env field p = None"
| "pb_check_proto3_default_value (Suc n) env field p =
     (let m = ee_mem env; htype = PB_HTYPE (pf_type field); atype = PB_ATYPE (pf_type field);
          ltype = PB_LTYPE (pf_type field); ps = p + scast (size_offset field) in
      if htype = PB_HTYPE_REQUIRED then Some False
      else if htype = PB_HTYPE_REPEATED \<and> size_offset field \<noteq> 0 then Some (load_u32 m ps = 0)
      else if htype = PB_HTYPE_REPEATED \<and> atype = PB_ATYPE_STATIC then Some False
      else if htype = PB_HTYPE_ONEOF then Some (load_u32 m ps = 0)
      else if htype = PB_HTYPE_OPTIONAL \<and> size_offset field \<noteq> 0 then Some (\<not> safe_read_bool m ps)
      else if atype = PB_ATYPE_STATIC \<and> ltype = PB_LTYPE_BYTES then Some (load_u32 m p = 0)
      else if atype = PB_ATYPE_STATIC \<and> ltype = PB_LTYPE_STRING then Some (m p = 0)
      else if atype = PB_ATYPE_STATIC \<and> ltype = PB_LTYPE_FIXED_LENGTH_BYTES then Some (data_size field = 0)
      else if atype = PB_ATYPE_STATIC \<and> ltype = PB_LTYPE_SUBMESSAGE then
        (case pb_field_iter_begin (ee_fields env (pf_ptr field)) p of
           (False, iter) \<Rightarrow> Some True
         | (True, iter) \<Rightarrow> check_default_loop n env iter)
      else if atype = PB_ATYPE_POINTER \<and> ltype > PB_LTYPE_LAST_PACKABLE then Some (load_ptr m p = 0)
      else Some (\<forall>b \<in> set (load_bytes m p (unat (data_size field))). b = 0))"
| "check_default_loop 0 env iter = None"
| "check_default_loop (Suc n) env iter =
     (case pb_check_proto3_default_value n env (it_field iter) (pData iter) of
        None \<Rightarrow> None
      | Some False \<Rightarrow> Some False
      | Some True \<Rightarrow>
          (case pb_field_iter_next iter of
             (True, iter) \<Rightarrow> check_default_loop n env iter
           | (False, iter) \<Rightarrow> Some True))"

definition encode_basic_field :: "nat \<Rightarrow> 's pb_enc_env \<Rightarrow> (pb_field list \<Rightarrow> addr \<Rightarrow> 's pb_enc) \<Rightarrow> pb_field \<Rightarrow> addr \<Rightarrow> 's pb_enc" where
  "encode_basic_field n env enc field p =
     (let m = ee_mem env; cb = ee_callback env; htype = PB_HTYPE (pf_type field);
          func = PB_ENCODERS env enc (PB_LTYPE (pf_type field));
          ps = p + scast (size_offset field) in
      case (if size_offset field \<noteq> 0 then Some True
            else if htype = PB_HTYPE_OPTIONAL then map_option Not (pb_check_proto3_default_value n env field p)
            else Some True) of
        None \<Rightarrow> (\<lambda>_. None)
      | Some implicit_has \<Rightarrow>
         (let ptr_field = (PB_ATYPE (pf_type field) = PB_ATYPE_POINTER);
              data = (if ptr_field then load_ptr m p else p);
              implicit_has = (if ptr_field then data \<noteq> 0 else implicit_has);
              put = enc_then (enc_pure (pb_encode_tag_for_field cb field)) (func field data)
          in if htype = PB_HTYPE_REQUIRED then
               (if data = 0 then enc_pure (PB_OUT_ERROR ''missing required field'') else put)
             else if htype = PB_HTYPE_OPTIONAL then
               (if (if size_offset field \<noteq> 0 then safe_read_bool m ps else implicit_has) then put else enc_true)
             else if htype = PB_HTYPE_REPEATED then
               encode_array env field data (if size_offset field \<noteq> 0 then load_u32 m ps else array_size field) func
             else if size_offset field = 0 then (\<lambda>_. None)
             else if load_u32 m ps = pf_tag field then put
             else enc_true))"

definition encode_callback_field :: "'s pb_enc_env \<Rightarrow> pb_field \<Rightarrow> addr \<Rightarrow> 's pb_enc" where
  "encode_callback_field env field p =
     (let encode = load_ptr (ee_mem env) p in
      if encode \<noteq> 0 then
        (\<lambda>stream. case ee_user env encode field (p + 8) stream of
           (False, stream) \<Rightarrow> Some (PB_OUT_ERROR ''callback error'' stream)
         | (True, stream) \<Rightarrow> Some (True, stream))
      else enc_true)"

definition encode_field :: "nat \<Rightarrow> 's pb_enc_env \<Rightarrow> (pb_field list \<Rightarrow> addr \<Rightarrow> 's pb_enc) \<Rightarrow> pb_field \<Rightarrow> addr \<Rightarrow> 's pb_enc" where
  "encode_field n env enc field p =
     (let atype = PB_ATYPE (pf_type field) in
      if atype = PB_ATYPE_STATIC \<or> atype = PB_ATYPE_POINTER then encode_basic_field n env enc field p
      else if atype = PB_ATYPE_CALLBACK then encode_callback_field env field p
      else enc_pure (PB_OUT_ERROR ''invalid field type''))"

subsection \<open>Extensions and messages\<close>

definition default_extension_encoder :: "nat \<Rightarrow> 's pb_enc_env \<Rightarrow> (pb_field list \<Rightarrow> addr \<Rightarrow> 's pb_enc) \<Rightarrow> addr \<Rightarrow> 's pb_enc" where
  "default_extension_encoder n env enc extension =
     (let m = ee_mem env; field = field_at (ee_fields env (ext_arg m extension)) 0 in
      if PB_ATYPE (pf_type field) = PB_ATYPE_POINTER then encode_field n env enc field (extension + 8)
      else encode_field n env enc field (ext_dest m extension))"

fun encode_extension_loop :: "nat \<Rightarrow> 's pb_enc_env \<Rightarrow> (pb_field list \<Rightarrow> addr \<Rightarrow> 's pb_enc) \<Rightarrow> addr \<Rightarrow> 's pb_enc" where
  "encode_extension_loop 0 env enc extension = (if extension = 0 then enc_true else (\<lambda>_. None))"
| "encode_extension_loop (Suc n) env enc extension =
     (if extension = 0 then enc_true
      else
        (let m = ee_mem env; encode = load_ptr m (ext_type m extension + 8) in
         enc_then
           (if encode \<noteq> 0 then enc_pure (ee_extension env encode extension)
            else default_extension_encoder n env enc extension)
           (encode_extension_loop n env enc (ext_next m extension))))"

definition encode_extension_field :: "nat \<Rightarrow> 's pb_enc_env \<Rightarrow> (pb_field list \<Rightarrow> addr \<Rightarrow> 's pb_enc) \<Rightarrow> addr \<Rightarrow> 's pb_enc" where
  "encode_extension_field n env enc p = encode_extension_loop n env enc (load_ptr (ee_mem env) p)"

definition encode_one :: "nat \<Rightarrow> 's pb_enc_env \<Rightarrow> (pb_field list \<Rightarrow> addr \<Rightarrow> 's pb_enc) \<Rightarrow> pb_field_iter \<Rightarrow> 's pb_enc" where
  "encode_one n env enc iter =
     (if PB_LTYPE (pf_type (it_field iter)) = PB_LTYPE_EXTENSION then encode_extension_field n env enc (pData iter)
      else encode_field n env enc (it_field iter) (pData iter))"

fun encode_loop :: "nat \<Rightarrow> 's pb_enc_env \<Rightarrow> pb_field_iter \<Rightarrow> 's pb_enc" where
  "encode_loop 0 env iter = (\<lambda>_. None)"
| "encode_loop (Suc n) env iter =
     enc_then
       (encode_one n env (\<lambda>fs src. case pb_field_iter_begin fs src of
            (False, it) \<Rightarrow> enc_true
          | (True, it) \<Rightarrow> encode_loop n env it) iter)
       (case pb_field_iter_next iter of
          (True, it) \<Rightarrow> encode_loop n env it
        | (False, it) \<Rightarrow> enc_true)"

definition pb_encode :: "nat \<Rightarrow> 's pb_enc_env \<Rightarrow> pb_field list \<Rightarrow> addr \<Rightarrow> 's pb_enc" where
  "pb_encode n env fs src =
     (case pb_field_iter_begin fs src of
        (False, it) \<Rightarrow> enc_true
      | (True, it) \<Rightarrow> encode_loop n env it)"

definition pb_encode_delimited :: "nat \<Rightarrow> 's pb_enc_env \<Rightarrow> pb_field list \<Rightarrow> addr \<Rightarrow> 's pb_enc" where
  "pb_encode_delimited n env fs src = pb_encode_submessage env (pb_encode n env) fs src"

definition pb_encode_nullterminated :: "nat \<Rightarrow> 's pb_enc_env \<Rightarrow> pb_field list \<Rightarrow> addr \<Rightarrow> 's pb_enc" where
  "pb_encode_nullterminated n env fs src =
     enc_then (pb_encode n env fs src) (enc_pure (pb_write (ee_callback env) [0] 1))"

definition pb_get_encoded_size :: "nat \<Rightarrow> 's pb_enc_env \<Rightarrow> pb_field list \<Rightarrow> addr \<Rightarrow> nat option option" where
  "pb_get_encoded_size n env fs src =
     (case pb_encode n env fs src PB_OSTREAM_SIZING of
        None \<Rightarrow> None
      | Some (False, stream) \<Rightarrow> Some None
      | Some (True, stream) \<Rightarrow> Some (Some (bytes_written stream)))"

end
