(* ===== verification/PbWire.thy ===== *)
theory PbWire
  imports PbEncMessage
begin

text \<open>The wire format of messages, and the proof that the encoder of \<^verbatim>\<open>pb_encode.c\<close> produces it.
  \<open>wire_message\<close> gives the encoding of the message at an address as a list of bytes, the length
  prefixes computed from the contents; the C code writes to a stream, in two passes over submessages
  and packed arrays. \<open>enc_spec f w\<close> relates an encoder with such a list (\<open>Some (Some bs)\<close>), with an
  error that does not depend on the stream (\<open>Some None\<close>), or with nothing (\<open>None\<close>: out of fuel, or
  undefined in C). Lists of 2^63 bytes and more are left out.\<close>

subsection \<open>Results of encoders\<close>

type_synonym wire = "byte list option option"

definition wire_then :: "wire \<Rightarrow> wire \<Rightarrow> wire" where
  "wire_then a b =
     (case a of
        None \<Rightarrow> None
      | Some None \<Rightarrow> Some None
      | Some (Some bs) \<Rightarrow> map_option (map_option (\<lambda>cs. bs @ cs)) b)"

definition pb_encs :: "'s pb_enc \<Rightarrow> byte list \<Rightarrow> bool" where
  "pb_encs f bs \<longleftrightarrow>
     (\<forall>st. out_ok st \<longrightarrow>
        (if pb_room (length bs) st then f st = Some (True, pb_emit bs st)
         else os_sink st \<noteq> Sizing \<longrightarrow> (\<exists>st'. f st = Some (False, st'))))"

definition enc_spec :: "'s pb_enc \<Rightarrow> wire \<Rightarrow> bool" where
  "enc_spec f w \<longleftrightarrow>
     (case w of
        None \<Rightarrow> True
      | Some None \<Rightarrow> (\<forall>st. \<exists>st'. f st = Some (False, st'))
      | Some (Some bs) \<Rightarrow> (\<forall>st. f st \<noteq> None) \<and> (length bs < 2 ^ 63 \<longrightarrow> pb_encs f bs))"

lemma pb_encsD:
  "pb_encs f bs \<Longrightarrow> out_ok st \<Longrightarrow> pb_room (length bs) st \<Longrightarrow> f st = Some (True, pb_emit bs st)"
  "pb_encs f bs \<Longrightarrow> out_ok st \<Longrightarrow> \<not> pb_room (length bs) st \<Longrightarrow> os_sink st \<noteq> Sizing \<Longrightarrow> \<exists>st'. f st = Some (False, st')"
  by (auto simp: pb_encs_def)

lemma pb_encsI:
  assumes "\<And>st. out_ok st \<Longrightarrow> pb_room (length bs) st \<Longrightarrow> f st = Some (True, pb_emit bs st)"
    and "\<And>st. out_ok st \<Longrightarrow> \<not> pb_room (length bs) st \<Longrightarrow> os_sink st \<noteq> Sizing \<Longrightarrow> \<exists>st'. f st = Some (False, st')"
  shows "pb_encs f bs"
  using assms by (auto simp: pb_encs_def)

lemma pb_encs_pure: "pb_writes f bs \<Longrightarrow> pb_encs (enc_pure f) bs"
  unfolding pb_encs_def pb_writes_def enc_pure_def by (metis (full_types) prod.collapse)

lemma pb_encs_then:
  assumes "pb_encs f bs" "pb_encs g cs"
  shows "pb_encs (enc_then f g) (bs @ cs)"
proof (rule pb_encsI)
  fix st :: "'a pb_ostream" assume st: "out_ok st" "pb_room (length (bs @ cs)) st"
  then have r: "pb_room (length bs) st" by (auto intro: pb_room_le)
  have "f st = Some (True, pb_emit bs st)" using assms(1) st(1) r by (rule pb_encsD)
  moreover have "g (pb_emit bs st) = Some (True, pb_emit cs (pb_emit bs st))"
    using assms(2) out_ok_emit [OF st(1) r] st(2) by (intro pb_encsD) (simp_all add: pb_room_emit)
  ultimately show "enc_then f g st = Some (True, pb_emit (bs @ cs) st)"
    using pb_emit_append [of st bs cs] st by (simp add: enc_then_def)
next
  fix st :: "'a pb_ostream" assume st: "out_ok st" "\<not> pb_room (length (bs @ cs)) st" "os_sink st \<noteq> Sizing"
  show "\<exists>st'. enc_then f g st = Some (False, st')"
  proof (cases "pb_room (length bs) st")
    case True
    have "f st = Some (True, pb_emit bs st)" using assms(1) st(1) True by (rule pb_encsD)
    moreover have "\<exists>st'. g (pb_emit bs st) = Some (False, st')"
      using assms(2) out_ok_emit [OF st(1) True] by (rule pb_encsD) (use st in \<open>simp_all add: pb_room_emit pb_emit_sizing\<close>)
    ultimately show ?thesis by (auto simp: enc_then_def)
  next
    case False
    have "\<exists>st'. f st = Some (False, st')" using assms(1) st(1) False st(3) by (rule pb_encsD)
    then show ?thesis by (auto simp: enc_then_def)
  qed
qed

lemma enc_spec_None [simp]: "enc_spec f None"
  by (simp add: enc_spec_def)

lemma enc_spec_pure: "(length bs < 2 ^ 63 \<Longrightarrow> pb_writes f bs) \<Longrightarrow> enc_spec (enc_pure f) (Some (Some bs))"
  by (auto simp: enc_spec_def pb_encs_pure) (simp add: enc_pure_def)

lemma enc_spec_error: "enc_spec (enc_pure (PB_OUT_ERROR msg)) (Some None)"
  by (simp add: enc_spec_def enc_pure_def PB_OUT_ERROR_def)

lemma enc_spec_true: "enc_spec enc_true (Some (Some []))"
  unfolding enc_true_def by (rule enc_spec_pure) (auto simp: pb_writes_def pb_emit_Nil pb_room_def out_ok_def split: pb_sink.splits)

lemma enc_spec_defined: "enc_spec f (Some x) \<Longrightarrow> f st \<noteq> None"
  by (cases x) (auto simp: enc_spec_def, metis option.distinct(1))

lemma enc_then_fails: "f st = Some (False, st') \<Longrightarrow> enc_then f g st = Some (False, st')"
  by (simp add: enc_then_def)

lemma enc_spec_then:
  assumes f: "enc_spec f a" and g: "enc_spec g b"
  shows "enc_spec (enc_then f g) (wire_then a b)"
proof (cases a)
  case (Some x)
  show ?thesis
  proof (cases x)
    case None
    then have "\<exists>st'. f st = Some (False, st')" for st using f Some by (simp add: enc_spec_def)
    then have "\<exists>st'. enc_then f g st = Some (False, st')" for st using enc_then_fails by blast
    then show ?thesis using Some None by (simp add: wire_then_def enc_spec_def)
  next
    case (Some bs)
    then have F: "f st \<noteq> None" "length bs < 2 ^ 63 \<Longrightarrow> pb_encs f bs" for st
      using f \<open>a = Some x\<close> by (simp_all add: enc_spec_def)
    show ?thesis
    proof (cases b)
      case (Some y)
      then have G: "g st \<noteq> None" for st using g enc_spec_defined by blast
      then have D: "enc_then f g st \<noteq> None" for st
        using F(1) [of st] by (auto simp: enc_then_def split: option.splits)
      show ?thesis
      proof (cases y)
        case None
        then have "\<exists>st'. g st = Some (False, st')" for st using g Some by (simp add: enc_spec_def)
        then have "\<exists>st'. enc_then f g st = Some (False, st')" for st
          using F(1) [of st] by (auto simp: enc_then_def)
        then show ?thesis using \<open>a = Some x\<close> \<open>x = Some bs\<close> \<open>b = Some y\<close> None by (simp add: wire_then_def enc_spec_def)
      next
        case (Some cs)
        then have "length cs < 2 ^ 63 \<Longrightarrow> pb_encs g cs" using g \<open>b = Some y\<close> by (simp add: enc_spec_def)
        then have "length (bs @ cs) < 2 ^ 63 \<Longrightarrow> pb_encs (enc_then f g) (bs @ cs)" using F(2) by (intro pb_encs_then) simp_all
        then show ?thesis using D \<open>a = Some x\<close> \<open>x = Some bs\<close> \<open>b = Some y\<close> Some by (simp add: wire_then_def enc_spec_def)
      qed
    qed (simp add: wire_then_def \<open>a = Some x\<close> \<open>x = Some bs\<close>)
  qed
qed (simp add: wire_then_def)

subsection \<open>The wire format of a message\<close>

definition wire_len :: "byte list \<Rightarrow> byte list" where
  "wire_len bs = varint_bytes (length bs) @ bs"

definition wire_tag :: "nat \<Rightarrow> u32 \<Rightarrow> byte list" where
  "wire_tag wiretype number = varint_bytes (unat number * 8 + wiretype)"

definition zigzag :: "u64 \<Rightarrow> nat" where
  "zigzag v = (if sint v < 0 then nat (- 2 * sint v - 1) else nat (2 * sint v))"

definition wire_error :: wire where "wire_error = Some None"
definition wire_bytes :: "byte list \<Rightarrow> wire" where "wire_bytes bs = Some (Some bs)"

definition wire_tag_for_field :: "pb_field \<Rightarrow> wire" where
  "wire_tag_for_field field =
     (let ltype = unat (PB_LTYPE (pf_type field)) in
      if ltype \<le> 3 then wire_bytes (wire_tag 0 (pf_tag field))
      else if ltype = 4 then wire_bytes (wire_tag 5 (pf_tag field))
      else if ltype = 5 then wire_bytes (wire_tag 1 (pf_tag field))
      else if ltype \<in> {6, 7, 8, 10} then wire_bytes (wire_tag 2 (pf_tag field))
      else wire_error)"

definition wire_value :: "'s pb_enc_env \<Rightarrow> (pb_field list \<Rightarrow> addr \<Rightarrow> wire) \<Rightarrow> pb_field \<Rightarrow> addr \<Rightarrow> wire" where
  "wire_value env sub field src =
     (let ltype = unat (PB_LTYPE (pf_type field)); m = ee_mem env; sz = unat (data_size field) in
      if ltype = 0 then wire_bytes (varint_bytes (if m src \<noteq> 0 then 1 else 0))
      else if ltype = 1 then
        (case load_signed m src (data_size field) of None \<Rightarrow> wire_error | Some v \<Rightarrow> wire_bytes (varint_bytes (unat v)))
      else if ltype = 2 then
        (case load_unsigned m src (data_size field) of None \<Rightarrow> wire_error | Some v \<Rightarrow> wire_bytes (varint_bytes (unat v)))
      else if ltype = 3 then
        (case load_signed m src (data_size field) of None \<Rightarrow> wire_error | Some v \<Rightarrow> wire_bytes (varint_bytes (zigzag v)))
      else if ltype = 4 then wire_bytes (load_bytes m src 4)
      else if ltype = 5 then wire_bytes (load_bytes m src 8)
      else if ltype = 6 then
        (if src = 0 then wire_bytes (wire_len [])
         else if PB_ATYPE (pf_type field) = PB_ATYPE_STATIC \<and> unat (load_u32 m src) + 4 > sz then wire_error
         else wire_bytes (wire_len (load_bytes m (src + 4) (unat (load_u32 m src)))))
      else if ltype = 7 then
        wire_bytes (wire_len (load_bytes m src
          (if src = 0 then 0
           else strnlen_loop m src (if PB_ATYPE (pf_type field) = PB_ATYPE_POINTER then 2 ^ 64 - 1 else sz) 0)))
      else if ltype = 8 then
        (if pf_ptr field = 0 then wire_error
         else map_option (map_option wire_len) (sub (ee_fields env (pf_ptr field)) src))
      else if ltype = 10 then wire_bytes (wire_len (load_bytes m src sz))
      else None)"

fun wire_items :: "nat \<Rightarrow> addr \<Rightarrow> (addr \<Rightarrow> wire) \<Rightarrow> addr \<Rightarrow> wire" where
  "wire_items 0 step f p = wire_bytes []"
| "wire_items (Suc count) step f p = wire_then (f p) (wire_items count step f (p + step))"

definition wire_array :: "'s pb_enc_env \<Rightarrow> (pb_field list \<Rightarrow> addr \<Rightarrow> wire) \<Rightarrow> pb_field \<Rightarrow> addr \<Rightarrow> u32 \<Rightarrow> wire" where
  "wire_array env sub field p count =
     (let ptr_field = (PB_ATYPE (pf_type field) = PB_ATYPE_POINTER); ltype = unat (PB_LTYPE (pf_type field));
          items = wire_items (unat count) (ucast (data_size field)) in
      if count = 0 then wire_bytes []
      else if \<not> ptr_field \<and> count > array_size field then wire_error
      else if ltype \<le> 5 then
        wire_then (wire_bytes (wire_tag 2 (pf_tag field))) (map_option (map_option wire_len) (items (wire_value env sub field) p))
      else
        items (\<lambda>p. wire_then (wire_tag_for_field field)
          (wire_value env sub field (if ptr_field \<and> ltype \<in> {6, 7} then load_ptr (ee_mem env) p else p))) p)"

definition wire_field :: "nat \<Rightarrow> 's pb_enc_env \<Rightarrow> (addr \<Rightarrow> pb_field \<Rightarrow> addr \<Rightarrow> byte list option) \<Rightarrow>
    (pb_field list \<Rightarrow> addr \<Rightarrow> wire) \<Rightarrow> pb_field \<Rightarrow> addr \<Rightarrow> wire" where
  "wire_field n env user sub field p =
     (let m = ee_mem env; atype = unat (PB_ATYPE (pf_type field)); htype = unat (PB_HTYPE (pf_type field));
          ps = p + scast (size_offset field);
          data = (if atype = 0x80 then load_ptr m p else p);
          single = wire_then (wire_tag_for_field field) (wire_value env sub field data) in
      if atype = 0x40 then
        (if load_ptr m p = 0 then wire_bytes [] else Some (user (load_ptr m p) field (p + 8)))
      else if atype = 0xC0 then wire_error
      else if htype = 0 then (if data = 0 then wire_error else single)
      else if htype = 0x10 then
        (if size_offset field \<noteq> 0 then (if m ps \<noteq> 0 then single else wire_bytes [])
         else
           (case pb_check_proto3_default_value n env field p of
              None \<Rightarrow> None
            | Some is_default \<Rightarrow>
                if (if atype = 0x80 then data \<noteq> 0 else \<not> is_default) then single else wire_bytes []))
      else if htype = 0x20 then
        wire_array env sub field data (if size_offset field \<noteq> 0 then load_u32 m ps else array_size field)
      else if size_offset field = 0 then None
      else if load_u32 m ps = pf_tag field then single
      else wire_bytes [])"

fun wire_extensions :: "nat \<Rightarrow> 's pb_enc_env \<Rightarrow> (addr \<Rightarrow> pb_field \<Rightarrow> addr \<Rightarrow> byte list option) \<Rightarrow>
    (addr \<Rightarrow> addr \<Rightarrow> byte list option) \<Rightarrow> (pb_field list \<Rightarrow> addr \<Rightarrow> wire) \<Rightarrow> addr \<Rightarrow> wire" where
  "wire_extensions 0 env user ext sub e = (if e = 0 then wire_bytes [] else None)"
| "wire_extensions (Suc n) env user ext sub e =
     (if e = 0 then wire_bytes []
      else
        (let m = ee_mem env; f = field_at (ee_fields env (ext_arg m e)) 0;
             encode = load_ptr m (ext_type m e + 8) in
         wire_then
           (if encode \<noteq> 0 then Some (ext encode e)
            else wire_field n env user sub f (if PB_ATYPE (pf_type f) = PB_ATYPE_POINTER then e + 8 else ext_dest m e))
           (wire_extensions n env user ext sub (ext_next m e))))"

fun wire_loop :: "nat \<Rightarrow> 's pb_enc_env \<Rightarrow> (addr \<Rightarrow> pb_field \<Rightarrow> addr \<Rightarrow> byte list option) \<Rightarrow>
    (addr \<Rightarrow> addr \<Rightarrow> byte list option) \<Rightarrow> pb_field_iter \<Rightarrow> wire" where
  "wire_loop 0 env user ext iter = None"
| "wire_loop (Suc n) env user ext iter =
     (let sub = (\<lambda>fs src. case pb_field_iter_begin fs src of
                   (False, it) \<Rightarrow> wire_bytes []
                 | (True, it) \<Rightarrow> wire_loop n env user ext it) in
      wire_then
        (if PB_LTYPE (pf_type (it_field iter)) = PB_LTYPE_EXTENSION
         then wire_extensions n env user ext sub (load_ptr (ee_mem env) (pData iter))
         else wire_field n env user sub (it_field iter) (pData iter))
        (case pb_field_iter_next iter of
           (True, it) \<Rightarrow> wire_loop n env user ext it
         | (False, it) \<Rightarrow> wire_bytes []))"

definition wire_message :: "nat \<Rightarrow> 's pb_enc_env \<Rightarrow> (addr \<Rightarrow> pb_field \<Rightarrow> addr \<Rightarrow> byte list option) \<Rightarrow>
    (addr \<Rightarrow> addr \<Rightarrow> byte list option) \<Rightarrow> pb_field list \<Rightarrow> addr \<Rightarrow> wire" where
  "wire_message n env user ext fs src =
     (case pb_field_iter_begin fs src of
        (False, it) \<Rightarrow> wire_bytes []
      | (True, it) \<Rightarrow> wire_loop n env user ext it)"

subsection \<open>The encoders meet the wire format\<close>

lemma enc_spec_submessage:
  assumes "enc_spec (enc fs src) w"
  shows "enc_spec (pb_encode_submessage env enc fs src) (map_option (map_option wire_len) w)"
proof (cases w)
  case (Some x)
  show ?thesis
  proof (cases x)
    case None
    then have E: "\<exists>st'. enc fs src st = Some (False, st')" for st using assms Some by (simp add: enc_spec_def)
    have "\<exists>st'. pb_encode_submessage env enc fs src st = Some (False, st')" for st
      using E [of PB_OSTREAM_SIZING] by (auto simp: pb_encode_submessage_def)
    then show ?thesis using Some None by (simp add: enc_spec_def)
  next
    case (Some bs)
    let ?cb = "ee_callback env"
    have D: "enc fs src st \<noteq> None" for st using assms \<open>w = Some x\<close> by (simp add: enc_spec_defined)
    have D': "pb_encode_submessage env enc fs src st \<noteq> None" for st
      using D [of PB_OSTREAM_SIZING]
      by (auto simp: pb_encode_submessage_def enc_then_def enc_pure_def Let_def D split: option.splits prod.splits bool.splits)
    have "pb_encs (pb_encode_submessage env enc fs src) (wire_len bs)" if "length (wire_len bs) < 2 ^ 63"
    proof -
      have len: "length bs < 2 ^ 63" using that by (simp add: wire_len_def)
      then have E: "pb_encs (enc fs src) bs" using assms \<open>w = Some x\<close> Some by (simp add: enc_spec_def)
      define rest where "rest = (\<lambda>stream. 
            if os_sink stream = Sizing then Some (pb_write ?cb [] (length bs) stream)
            else if (bytes_written stream + length bs) mod 2 ^ 64 > max_size stream
            then Some (PB_OUT_ERROR ''stream full'' stream)
            else
              (case enc fs src \<lparr>os_sink = os_sink stream, max_size = length bs, bytes_written = 0, os_errmsg = None\<rparr> of
                 None \<Rightarrow> None
               | Some (status, substream) \<Rightarrow>
                  (let stream = stream\<lparr>bytes_written := (bytes_written stream + bytes_written substream) mod 2 ^ 64,
                         os_sink := os_sink substream, os_errmsg := os_errmsg substream\<rparr>
                   in if bytes_written substream \<noteq> length bs then Some (PB_OUT_ERROR ''submsg size changed'' stream)
                      else Some (status, stream))))"
      have "enc fs src PB_OSTREAM_SIZING = Some (True, pb_emit bs PB_OSTREAM_SIZING)"
        using len by (intro pb_encsD(1) [OF E]) (simp_all add: out_ok_def PB_OSTREAM_SIZING_def pb_room_def)
      moreover have "bytes_written (pb_emit bs PB_OSTREAM_SIZING) = length bs" by (simp add: pb_emit_def PB_OSTREAM_SIZING_def)
      ultimately obtain sub where sub: "enc fs src PB_OSTREAM_SIZING = Some (True, sub)" "bytes_written sub = length bs" by blast
      have eq: "pb_encode_submessage env enc fs src st =
          enc_then (enc_pure (pb_encode_varint ?cb (word_of_nat (length bs)))) rest st" for st
        unfolding pb_encode_submessage_def rest_def sub option.case prod.case bool.case Let_def ..
      have "unat (word_of_nat (length bs) :: u64) = length bs" using len by (simp add: unat_of_nat)
      then have V: "pb_encs (enc_pure (pb_encode_varint ?cb (word_of_nat (length bs)))) (varint_bytes (length bs))"
        using pb_encs_pure [OF pb_writes_varint [of ?cb "word_of_nat (length bs)"]] by simp
      have "pb_encs rest bs"
      proof (rule pb_encsI)
        fix st :: "'a pb_ostream" assume st: "out_ok st" "pb_room (length bs) st"
        show "rest st = Some (True, pb_emit bs st)"
        proof (cases "os_sink st")
          case Sizing
          then show ?thesis using st by (simp add: rest_def pb_write_def pb_emit_def pb_room_def)
        next
          case (Out_buffer ob p)
          let ?sub = "\<lparr>os_sink = os_sink st, max_size = length bs, bytes_written = 0, os_errmsg = None\<rparr> :: 'a pb_ostream"
          have "enc fs src ?sub = Some (True, pb_emit bs ?sub)"
            using st len Out_buffer by (intro pb_encsD(1) [OF E]) (auto simp: out_ok_def pb_room_def)
          then show ?thesis using st Out_buffer by (simp add: rest_def pb_emit_def out_ok_def pb_room_def Let_def)
        next
          case (Out_callback s)
          then show ?thesis using st by (simp add: out_ok_def)
        qed
      next
        fix st :: "'a pb_ostream" assume st: "out_ok st" "\<not> pb_room (length bs) st" "os_sink st \<noteq> Sizing"
        then have m: "max_size st < bytes_written st + length bs" "bytes_written st < 2 ^ 63"
          by (auto simp: out_ok_def pb_room_def split: pb_sink.splits)
        moreover have "(2 :: nat) ^ 63 + 2 ^ 63 = 2 ^ 64" by simp
        ultimately have "bytes_written st + length bs < 2 ^ 64" using len by linarith
        then show "\<exists>st'. rest st = Some (False, st')" using st(3) m(1) by (simp add: rest_def PB_OUT_ERROR_def)
      qed
      then have "pb_encs (enc_then (enc_pure (pb_encode_varint ?cb (word_of_nat (length bs)))) rest) (wire_len bs)"
        unfolding wire_len_def using V by (intro pb_encs_then)
      then show ?thesis unfolding pb_encs_def eq .
    qed
    then show ?thesis using D' \<open>w = Some x\<close> Some by (simp add: enc_spec_def)
  qed
qed simp

lemma unat_push_bit_1: "unat (v :: u64) < 2 ^ 63 \<Longrightarrow> unat (push_bit 1 v) = 2 * unat v"
  by (simp add: push_bit_eq_mult unat_word_ariths)

lemma unat_push_bit_1_neg: "2 ^ 63 \<le> unat (v :: u64) \<Longrightarrow> unat (push_bit 1 v) = 2 * unat v - 2 ^ 64"
proof -
  assume v: "2 ^ 63 \<le> unat v"
  have "unat v * 2 mod 2 ^ 64 = (unat v * 2 - 2 ^ 64) mod 2 ^ 64" using v by (intro le_mod_geq) simp
  also have "\<dots> = unat v * 2 - 2 ^ 64"
  proof (rule mod_less)
    have "unat v < 2 ^ 64" by (rule less_le_trans [OF unat_u64_less]) simp
    then show "unat v * 2 - 2 ^ 64 < 2 ^ 64" by linarith
  qed
  finally show ?thesis by (simp add: push_bit_eq_mult unat_word_ariths mult.commute)
qed

lemma unat_NOT: "unat (NOT w) = 2 ^ 64 - 1 - unat (w :: u64)"
proof -
  have "NOT w = - 1 - w" by (simp add: not_eq_complement)
  moreover have "w \<le> - 1" by simp
  ultimately have "unat (NOT w) = unat (- 1 :: u64) - unat w" by (simp only: unat_sub)
  moreover have "unat (- 1 :: u64) = 2 ^ 64 - 1" by (simp add: unsigned_minus_1_eq_mask mask_eq_exp_minus_1)
  ultimately show ?thesis by simp
qed

lemma sint_u64: "sint (v :: u64) = (if unat v < 2 ^ 63 then int (unat v) else int (unat v) - 2 ^ 64)"
proof -
  have lt: "unat v < 2 ^ 64" by (rule less_le_trans [OF unat_u64_less]) simp
  have u: "uint v = int (unat v)" by simp
  have "bit (int (unat v)) 63 \<longleftrightarrow> \<not> unat v < 2 ^ 63"
  proof -
    have "unat v div 2 ^ 63 = (if unat v < 2 ^ 63 then 0 else 1)"
      using lt by (auto intro: div_nat_eqI)
    then have "bit (unat v) 63 \<longleftrightarrow> \<not> unat v < 2 ^ 63" by (simp only: bit_iff_odd) simp
    then show ?thesis by (simp only: bit_of_nat_iff_bit)
  qed
  moreover have "take_bit 64 (uint v) = uint v" by (rule take_bit_int_eq_self) (use uint_bounded [of v] in simp_all)
  ultimately show ?thesis unfolding sint_uint signed_take_bit_eq_take_bit_minus by (simp flip: u)
qed

lemma unat_zigzag: "unat (if sint v < 0 then NOT (push_bit 1 v) else push_bit 1 v) = zigzag v"
proof (cases "unat v < 2 ^ 63")
  case True
  then have "sint v = int (unat v)" unfolding sint_u64 by simp
  then show ?thesis using unat_push_bit_1 [OF True] by (simp add: zigzag_def nat_mult_distrib)
next
  case False
  have lt: "unat v < 2 ^ 64" by (rule less_le_trans [OF unat_u64_less]) simp
  have s: "sint v = int (unat v) - 2 ^ 64" using False unfolding sint_u64 by simp
  have "int (unat v) < 2 ^ 64" using lt by (simp only: of_nat_less_iff [symmetric, where 'a = int] of_nat_power of_nat_numeral)
  then have "sint v < 0" unfolding s by linarith
  moreover have "unat (NOT (push_bit 1 v)) = nat (- 2 * sint v - 1)"
  proof -
    have "c - 1 - (2 * u - c) = nat (- 2 * (int u - int c) - 1)" if cu: "c \<le> 2 * u" "u < c" for u c
    proof -
      obtain k where k: "2 * u = c + k" using le_Suc_ex [OF cu(1)] by blast
      then have "k < c" using cu(2) by linarith
      moreover have "2 * int u = int c + int k" using k by linarith
      ultimately have "- 2 * (int u - int c) - 1 = int (c - 1 - k)" by (simp add: of_nat_diff)
      then show ?thesis using k by simp
    qed
    from this [of "2 ^ 64" "unat v"] have "2 ^ 64 - 1 - (2 * unat v - 2 ^ 64) = nat (- 2 * (int (unat v) - 2 ^ 64) - 1)"
      using False lt by (simp del: of_nat_unat)
    then show ?thesis unfolding unat_NOT s using False unat_push_bit_1_neg [of v] by (simp only: not_less)
  qed
  ultimately show ?thesis by (simp add: zigzag_def)
qed

lemma pb_writes_svarint: "pb_writes (pb_encode_svarint cb v) (varint_bytes (zigzag v))"
  unfolding pb_encode_svarint_def unat_zigzag [symmetric] by (rule pb_writes_varint)

lemma pb_writes_fixed32: "pb_writes (pb_encode_fixed32 cb v) (le_bytes 4 v)"
  unfolding pb_encode_fixed32_eq by (rule pb_writes_write) simp_all

lemma pb_writes_fixed64: "pb_writes (pb_encode_fixed64 cb v) (le_bytes 8 v)"
  unfolding pb_encode_fixed64_eq by (rule pb_writes_write) simp_all

lemma pb_encode_string_then: "pb_encode_string cb bs n = pb_then (pb_encode_varint cb (word_of_nat n)) (pb_write cb bs n)"
  by (simp add: pb_encode_string_def)

lemma pb_writes_string:
  assumes "length (wire_len bs) < 2 ^ 63" "n = length bs"
  shows "pb_writes (pb_encode_string cb bs n) (wire_len bs)"
proof -
  have len: "length bs < 2 ^ 63" using assms(1) by (simp add: wire_len_def)
  then have "unat (word_of_nat n :: u64) = length bs" using assms(2) by (simp add: unat_of_nat)
  then show ?thesis unfolding pb_encode_string_def wire_len_def
    using pb_writes_then [OF pb_writes_varint [of cb "word_of_nat n"] pb_writes_write [OF len assms(2)]] by simp
qed

lemma unat_tag: "unat w < 8 \<Longrightarrow> unat (push_bit 3 (ucast number) OR ucast (w :: u32) :: u64) = unat (number :: u32) * 8 + unat w"
proof -
  assume w: "unat w < 8"
  have uw: "unat (ucast w :: u64) = unat w" "unat (ucast number :: u64) = unat number"
    by (simp_all add: unat_ucast_mod)
  have "take_bit 3 (ucast w) = (ucast w :: u64)" using w uw by (simp add: word_unat_eq_iff unsigned_take_bit_eq take_bit_nat_def)
  then have "ucast w OR push_bit 3 (ucast number) = ucast w + push_bit 3 (ucast number :: u64)" by (rule or_push_group(1))
  moreover have "unat (push_bit 3 (ucast number) :: u64) = unat number * 8"
  proof -
    have "unat number * 8 < 18446744073709551616" using unat_u32_less [of number] by linarith
    then have "unat number * 8 mod 18446744073709551616 = unat number * 8" by (rule mod_less)
    then show ?thesis by (simp add: push_bit_eq_mult unat_word_ariths uw mult.commute)
  qed
  moreover have "unat number * 8 + unat w < 18446744073709551616" using unat_u32_less [of number] w by linarith
  ultimately have "unat (ucast w + push_bit 3 (ucast number) :: u64) = unat number * 8 + unat w"
    unfolding unat_word_ariths(1) uw by (simp only: add.commute [of "unat w"]) (simp add: len_num1)
  then show ?thesis using \<open>ucast w OR push_bit 3 (ucast number) = ucast w + push_bit 3 (ucast number)\<close>
    by (simp only: or.commute [of "push_bit 3 (ucast number)"])
qed

lemma pb_writes_tag: "unat w < 8 \<Longrightarrow> pb_writes (pb_encode_tag cb w number) (wire_tag (unat w) number)"
  unfolding pb_encode_tag_def wire_tag_def unat_tag [symmetric] by (rule pb_writes_varint)

lemma enc_spec_tag: "unat w < 8 \<Longrightarrow> enc_spec (enc_pure (pb_encode_tag cb w number)) (wire_bytes (wire_tag (unat w) number))"
  unfolding wire_bytes_def by (intro enc_spec_pure pb_writes_tag)

lemma enc_spec_tag_for_field: "enc_spec (enc_pure (pb_encode_tag_for_field cb field)) (wire_tag_for_field field)"
proof -
  have wt: "unat PB_WT_VARINT = 0" "unat PB_WT_32BIT = 5" "unat PB_WT_64BIT = 1" "unat PB_WT_STRING = 2"
    by (simp_all add: PB_WT_VARINT_def PB_WT_32BIT_def PB_WT_64BIT_def PB_WT_STRING_def)
  define l where "l = PB_LTYPE (pf_type field)"
  have l: "unat l \<le> 3 \<longleftrightarrow> unat l = 0 \<or> unat l = 1 \<or> unat l = 2 \<or> unat l = 3" by auto
  have "enc_spec (enc_pure (pb_encode_tag cb PB_WT_VARINT t)) (wire_bytes (wire_tag 0 t))"
    "enc_spec (enc_pure (pb_encode_tag cb PB_WT_32BIT t)) (wire_bytes (wire_tag 5 t))"
    "enc_spec (enc_pure (pb_encode_tag cb PB_WT_64BIT t)) (wire_bytes (wire_tag 1 t))"
    "enc_spec (enc_pure (pb_encode_tag cb PB_WT_STRING t)) (wire_bytes (wire_tag 2 t))" for t
    using enc_spec_tag [of PB_WT_VARINT] enc_spec_tag [of PB_WT_32BIT] enc_spec_tag [of PB_WT_64BIT] enc_spec_tag [of PB_WT_STRING]
    by (simp_all add: wt)
  then show ?thesis
    unfolding pb_encode_tag_for_field_def wire_tag_for_field_def l_def [symmetric] Let_def l
    by (simp add: word_unat_eq_iff wire_error_def enc_spec_error)
qed

lemma load_le_bytes: "le_bytes 4 (load_u32 m a) = load_bytes m a 4" "le_bytes 8 (le_word (load_bytes m a 8) :: u64) = load_bytes m a 8"
  using le_bytes_word [of "load_bytes m a 4", where 'a = 32] le_bytes_word [of "load_bytes m a 8", where 'a = 64]
  by (simp_all add: load_u32_def load_bytes_def)

lemma length_load_bytes [simp]: "length (load_bytes m a n) = n"
  by (simp add: load_bytes_def)

lemma enc_spec_string:
  "n = length bs \<Longrightarrow> enc_spec (enc_pure (pb_encode_string cb bs n)) (wire_bytes (wire_len bs))"
  unfolding wire_bytes_def by (intro enc_spec_pure pb_writes_string)

lemma enc_spec_varint: "n = unat v \<Longrightarrow> enc_spec (enc_pure (pb_encode_varint cb v)) (wire_bytes (varint_bytes n))"
  unfolding wire_bytes_def by (simp add: enc_spec_pure pb_writes_varint)

lemma scalar_eqs:
  "l = 0 \<longleftrightarrow> unat (l :: byte) = 0" "l = 1 \<longleftrightarrow> unat l = 1" "l = 2 \<longleftrightarrow> unat l = 2" "l = 3 \<longleftrightarrow> unat l = 3" "l = 4 \<longleftrightarrow> unat l = 4"
  "l = 5 \<longleftrightarrow> unat l = 5" "l = 6 \<longleftrightarrow> unat l = 6" "l = 7 \<longleftrightarrow> unat l = 7" "l = 8 \<longleftrightarrow> unat l = 8" "l = 10 \<longleftrightarrow> unat l = 10"
  "l \<le> 5 \<longleftrightarrow> unat l \<le> 5" "l = 0x10 \<longleftrightarrow> unat l = 0x10" "l = 0x20 \<longleftrightarrow> unat l = 0x20" "l = 0x40 \<longleftrightarrow> unat l = 0x40"
  "l = 0x80 \<longleftrightarrow> unat l = 0x80" "l = 0xC0 \<longleftrightarrow> unat l = 0xC0"
  by (simp_all add: word_unat_eq_iff word_le_nat_alt)

lemma enc_spec_enc_bytes:
  "enc_spec (enc_pure (pb_enc_bytes cb m field src))
     (if src = 0 then wire_bytes (wire_len [])
      else if PB_ATYPE (pf_type field) = PB_ATYPE_STATIC \<and> unat (load_u32 m src) + 4 > unat (data_size field) then wire_error
      else wire_bytes (wire_len (load_bytes m (src + 4) (unat (load_u32 m src)))))"
proof -
  define z where "z = load_u32 m src"
  have lt: "unat z < 4294967296" by (rule unat_u32_less)
  then have "unat z + 4 < 18446744073709551616" by linarith
  then have "(unat z + 4) mod 18446744073709551616 = unat z + 4" by (rule mod_less)
  then have u: "unat (ucast z + 4 :: u64) = unat z + 4" by (simp add: unat_word_ariths unat_ucast_mod)
  have "\<not> (ucast z + 4 :: u64) < ucast z" by (simp add: word_less_nat_alt u unat_ucast_mod)
  moreover have "ucast (data_size field) < (ucast z + 4 :: u64) \<longleftrightarrow> unat (data_size field) < unat z + 4"
    by (simp add: word_less_nat_alt u unat_ucast_mod)
  ultimately show ?thesis
    by (simp add: pb_enc_bytes_def z_def [symmetric] Let_def wire_error_def enc_spec_error enc_spec_string)
qed

lemma enc_spec_value:
  assumes "\<And>fs src. enc_spec (enc fs src) (sub fs src)"
  shows "enc_spec (PB_ENCODERS env enc (PB_LTYPE (pf_type field)) field src) (wire_value env sub field src)"
proof -
  define l where "l = PB_LTYPE (pf_type field)"
  let ?cb = "ee_callback env" and ?m = "ee_mem env"
  have "enc_spec (enc_pure (pb_enc_bool ?cb ?m field src)) (wire_bytes (varint_bytes (if ?m src \<noteq> 0 then 1 else 0)))"
    unfolding pb_enc_bool_def safe_read_bool_def by (rule enc_spec_varint) simp
  moreover have "enc_spec (enc_pure (pb_enc_varint ?cb ?m field src))
      (case load_signed ?m src (data_size field) of None \<Rightarrow> wire_error | Some v \<Rightarrow> wire_bytes (varint_bytes (unat v)))"
    by (simp add: pb_enc_varint_def wire_error_def enc_spec_error enc_spec_varint split: option.splits)
  moreover have "enc_spec (enc_pure (pb_enc_uvarint ?cb ?m field src))
      (case load_unsigned ?m src (data_size field) of None \<Rightarrow> wire_error | Some v \<Rightarrow> wire_bytes (varint_bytes (unat v)))"
    by (simp add: pb_enc_uvarint_def wire_error_def enc_spec_error enc_spec_varint split: option.splits)
  moreover have "enc_spec (enc_pure (pb_enc_svarint ?cb ?m field src))
      (case load_signed ?m src (data_size field) of None \<Rightarrow> wire_error | Some v \<Rightarrow> wire_bytes (varint_bytes (zigzag v)))"
    by (simp add: pb_enc_svarint_def wire_error_def wire_bytes_def enc_spec_error enc_spec_pure pb_writes_svarint split: option.splits)
  moreover have "enc_spec (enc_pure (pb_enc_fixed32 ?cb ?m field src)) (wire_bytes (load_bytes ?m src 4))"
    unfolding pb_enc_fixed32_def wire_bytes_def load_le_bytes(1) [symmetric] by (rule enc_spec_pure) (rule pb_writes_fixed32)
  moreover have "enc_spec (enc_pure (pb_enc_fixed64 ?cb ?m field src)) (wire_bytes (load_bytes ?m src 8))"
  proof -
    have "pb_writes (pb_encode_fixed64 ?cb (le_word (load_bytes ?m src 8))) (load_bytes ?m src 8)"
      using pb_writes_fixed64 [of ?cb "le_word (load_bytes ?m src 8)"] by (simp add: load_le_bytes)
    then show ?thesis unfolding pb_enc_fixed64_def wire_bytes_def by (rule enc_spec_pure)
  qed
  moreover note enc_spec_enc_bytes [of ?cb ?m field src]
  moreover have "enc_spec (enc_pure (pb_enc_string ?cb ?m field src)) (wire_bytes (wire_len (load_bytes ?m src
          (if src = 0 then 0
           else strnlen_loop ?m src (if PB_ATYPE (pf_type field) = PB_ATYPE_POINTER then 2 ^ 64 - 1 else unat (data_size field)) 0))))"
    unfolding pb_enc_string_def Let_def by (rule enc_spec_string) simp
  moreover have "enc_spec (pb_enc_submessage env enc field src)
     (if pf_ptr field = 0 then wire_error else map_option (map_option wire_len) (sub (ee_fields env (pf_ptr field)) src))"
    using enc_spec_submessage [where env = env and enc = enc, OF assms]
    by (simp add: pb_enc_submessage_def wire_error_def enc_spec_error)
  moreover have "enc_spec (enc_pure (pb_enc_fixed_length_bytes ?cb ?m field src))
      (wire_bytes (wire_len (load_bytes ?m src (unat (data_size field)))))"
    unfolding pb_enc_fixed_length_bytes_def by (rule enc_spec_string) simp
  ultimately show ?thesis
    unfolding PB_ENCODERS_def wire_value_def l_def [symmetric] Let_def pb_types scalar_eqs by simp
qed

lemma enc_spec_items:
  "(\<And>p. enc_spec (f p) (w p)) \<Longrightarrow> enc_spec (enc_items n step f p) (wire_items n step w p)"
  by (induction n arbitrary: p) (simp_all add: enc_spec_true wire_bytes_def enc_spec_then del: pb_types)

text \<open>The packed array: its size is computed, or counted on a sizing stream, before the items follow.\<close>

lemma length_wire_items:
  "(\<And>p. \<exists>bs. w p = wire_bytes bs \<and> length bs = k) \<Longrightarrow> \<exists>bs. wire_items n step w p = wire_bytes bs \<and> length bs = k * n"
proof (induction n arbitrary: p)
  case (Suc n)
  obtain bs where "w p = wire_bytes bs" "length bs = k" using Suc.prems by blast
  moreover obtain cs where "wire_items n step w (p + step) = wire_bytes cs" "length cs = k * n" using Suc.IH [OF Suc.prems] by blast
  ultimately show ?case by (simp add: wire_then_def wire_bytes_def)
qed (simp add: wire_bytes_def)

lemma enc_spec_sized:
  assumes items: "enc_spec items w"
    and size: "\<And>bs. w = wire_bytes bs \<Longrightarrow> length bs < 2 ^ 63 \<Longrightarrow> sz = Some (True, length bs)"
    and defined: "w \<noteq> None \<Longrightarrow> sz \<noteq> None" and error: "w = wire_error \<Longrightarrow> \<exists>n. sz = Some (False, n)"
  shows "enc_spec (\<lambda>stream.
     case sz of
       None \<Rightarrow> None
     | Some (False, sz) \<Rightarrow> Some (False, stream)
     | Some (True, sz) \<Rightarrow>
         enc_then (enc_pure (pb_encode_varint cb (word_of_nat sz))) (\<lambda>stream.
           if os_sink stream = Sizing then Some (pb_write cb [] sz stream) else items stream) stream)
     (map_option (map_option wire_len) w)"
proof (cases w)
  case (Some x)
  show ?thesis
  proof (cases x)
    case None
    then obtain n where "sz = Some (False, n)" using error Some by (auto simp: wire_error_def)
    then show ?thesis using Some None by (simp add: enc_spec_def)
  next
    case (Some bs)
    then have w: "w = wire_bytes bs" using \<open>w = Some x\<close> by (simp add: wire_bytes_def)
    have I: "items st \<noteq> None" for st using items w by (simp add: wire_bytes_def enc_spec_defined)
    obtain ok n where sz: "sz = Some (ok, n)" using defined w by (cases sz) (auto simp: wire_bytes_def)
    let ?f = "enc_then (enc_pure (pb_encode_varint cb (word_of_nat n)))
       (\<lambda>stream. if os_sink stream = Sizing then Some (pb_write cb [] n stream) else items stream)"
    have D: "?f st \<noteq> None" for st using I by (auto simp: enc_then_def enc_pure_def split: prod.splits)
    have "pb_encs ?f (wire_len bs)" if "length (wire_len bs) < 2 ^ 63" and ok
    proof -
      have len: "length bs < 2 ^ 63" using that(1) by (simp add: wire_len_def)
      then have n: "n = length bs" using size [OF w] sz by simp
      have E: "pb_encs items bs" using items w len by (simp add: enc_spec_def wire_bytes_def)
      have "unat (word_of_nat n :: u64) = length bs" using len n by (simp add: unat_of_nat)
      then have V: "pb_encs (enc_pure (pb_encode_varint cb (word_of_nat n))) (varint_bytes (length bs))"
        using pb_encs_pure [OF pb_writes_varint [of cb "word_of_nat n"]] by simp
      have "pb_encs (\<lambda>stream. if os_sink stream = Sizing then Some (pb_write cb [] n stream) else items stream) bs"
      proof (rule pb_encsI)
        fix st :: "'a pb_ostream" assume st: "out_ok st" "pb_room (length bs) st"
        have "pb_write cb [] n st = (True, pb_emit bs st)" if "os_sink st = Sizing"
          using that st(2) by (cases st) (simp add: pb_write_def pb_emit_def pb_room_def n)
        then show "(if os_sink st = Sizing then Some (pb_write cb [] n st) else items st) = Some (True, pb_emit bs st)"
          using pb_encsD(1) [OF E st] by simp
      next
        fix st :: "'a pb_ostream" assume "out_ok st" "\<not> pb_room (length bs) st" "os_sink st \<noteq> Sizing"
        then show "\<exists>st'. (if os_sink st = Sizing then Some (pb_write cb [] n st) else items st) = Some (False, st')"
          using pb_encsD(2) [OF E] by simp
      qed
      then show ?thesis unfolding wire_len_def by (rule pb_encs_then [OF V])
    qed
    moreover have "length (wire_len bs) < 2 ^ 63 \<Longrightarrow> ok"
      using size [OF w] sz by (simp add: wire_len_def)
    ultimately show ?thesis using D sz \<open>w = Some x\<close> Some by (cases ok) (auto simp: enc_spec_def)
  qed
qed simp

lemma wire_value_fixed:
  "PB_LTYPE (pf_type field) = PB_LTYPE_FIXED32 \<Longrightarrow> wire_value env sub field src = wire_bytes (load_bytes (ee_mem env) src 4)"
  "PB_LTYPE (pf_type field) = PB_LTYPE_FIXED64 \<Longrightarrow> wire_value env sub field src = wire_bytes (load_bytes (ee_mem env) src 8)"
  by (simp_all add: wire_value_def)

lemma enc_spec_array:
  assumes "\<And>fs src. enc_spec (enc fs src) (sub fs src)"
  shows "enc_spec (encode_array env field p count (PB_ENCODERS env enc (PB_LTYPE (pf_type field)))) (wire_array env sub field p count)"
proof -
  define l where "l = PB_LTYPE (pf_type field)"
  let ?cb = "ee_callback env"
  let ?items = "enc_items (unat count) (ucast (data_size field)) (PB_ENCODERS env enc l field)"
  let ?wire = "wire_items (unat count) (ucast (data_size field)) (wire_value env sub field)"
  have vals: "enc_spec (PB_ENCODERS env enc l field p) (wire_value env sub field p)" for p
    using enc_spec_value [of enc sub, OF assms] unfolding l_def .
  have items: "enc_spec (?items p) (?wire p)" by (rule enc_spec_items) (rule vals)
  define sz where "sz = (if l = PB_LTYPE_FIXED32 then Some (True, 4 * unat count)
                 else if l = PB_LTYPE_FIXED64 then Some (True, 8 * unat count)
                 else map_option (\<lambda>(ok, sizestream). (ok, bytes_written sizestream)) (?items p PB_OSTREAM_SIZING))"
  have fixed: "\<exists>bs. ?wire p = wire_bytes bs \<and> sz = Some (True, length bs)" if "l = PB_LTYPE_FIXED32 \<or> l = PB_LTYPE_FIXED64"
  proof -
    have "\<exists>bs. wire_value env sub field p = wire_bytes bs \<and> length bs = (if l = PB_LTYPE_FIXED32 then 4 else 8)" for p
      using that wire_value_fixed unfolding l_def by fastforce
    from length_wire_items [where w = "wire_value env sub field", OF this] obtain bs where "?wire p = wire_bytes bs"
      "length bs = (if l = PB_LTYPE_FIXED32 then 4 else 8) * unat count" by blast
    then show ?thesis using that by (auto simp: sz_def)
  qed
  have size: "sz = Some (True, length bs)" if "?wire p = wire_bytes bs" "length bs < 2 ^ 63" for bs
  proof (cases "l = PB_LTYPE_FIXED32 \<or> l = PB_LTYPE_FIXED64")
    case True
    then show ?thesis using fixed that(1) by (auto simp: wire_bytes_def)
  next
    case False
    have "pb_encs (?items p) bs" using items that by (simp add: enc_spec_def wire_bytes_def)
    then have "?items p PB_OSTREAM_SIZING = Some (True, pb_emit bs PB_OSTREAM_SIZING)"
      using that(2) by (intro pb_encsD(1)) (simp_all add: out_ok_def PB_OSTREAM_SIZING_def pb_room_def)
    then show ?thesis using False by (simp add: sz_def pb_emit_def PB_OSTREAM_SIZING_def)
  qed
  have defined: "sz \<noteq> None" if nn: "?wire p \<noteq> None"
  proof -
    obtain w where "?wire p = Some w" using nn by blast
    with items have "?items p PB_OSTREAM_SIZING \<noteq> None" by (metis enc_spec_defined)
    then show ?thesis by (auto simp: sz_def)
  qed
  have error: "\<exists>n. sz = Some (False, n)" if "?wire p = wire_error"
  proof (cases "l = PB_LTYPE_FIXED32 \<or> l = PB_LTYPE_FIXED64")
    case True
    then show ?thesis using fixed that by (auto simp: wire_bytes_def wire_error_def)
  next
    case False
    have "\<exists>st. ?items p PB_OSTREAM_SIZING = Some (False, st)" using items that by (simp add: enc_spec_def wire_error_def)
    then show ?thesis using False by (auto simp: sz_def)
  qed
  have packed: "enc_spec (enc_then (enc_pure (pb_encode_tag ?cb PB_WT_STRING (pf_tag field))) (\<lambda>stream.
          (case sz of
             None \<Rightarrow> None
           | Some (False, sz) \<Rightarrow> Some (False, stream)
           | Some (True, sz) \<Rightarrow>
               enc_then (enc_pure (pb_encode_varint ?cb (word_of_nat sz))) (\<lambda>stream.
                 if os_sink stream = Sizing then Some (pb_write ?cb [] sz stream)
                 else ?items p stream) stream)))
     (wire_then (wire_bytes (wire_tag 2 (pf_tag field))) (map_option (map_option wire_len) (?wire p)))"
  proof (rule enc_spec_then)
    show "enc_spec (enc_pure (pb_encode_tag ?cb PB_WT_STRING (pf_tag field))) (wire_bytes (wire_tag 2 (pf_tag field)))"
      using enc_spec_tag [of PB_WT_STRING] by (simp add: PB_WT_STRING_def)
  qed (rule enc_spec_sized [OF items size defined error])
  have unpacked: "enc_spec (enc_items (unat count) (ucast (data_size field))
      (\<lambda>p. enc_then (enc_pure (pb_encode_tag_for_field ?cb field)) (PB_ENCODERS env enc l field (adr p))) p)
     (wire_items (unat count) (ucast (data_size field))
      (\<lambda>p. wire_then (wire_tag_for_field field) (wire_value env sub field (adr p))) p)" for adr
    by (intro enc_spec_items enc_spec_then enc_spec_tag_for_field vals)
  have adr: "(\<lambda>p. enc_then (enc_pure (pb_encode_tag_for_field ?cb field))
          (if PB_ATYPE (pf_type field) = PB_ATYPE_POINTER \<and> (l = PB_LTYPE_STRING \<or> l = PB_LTYPE_BYTES)
           then PB_ENCODERS env enc l field (load_ptr (ee_mem env) p) else PB_ENCODERS env enc l field p)) =
        (\<lambda>p. enc_then (enc_pure (pb_encode_tag_for_field ?cb field)) (PB_ENCODERS env enc l field
          (if PB_ATYPE (pf_type field) = PB_ATYPE_POINTER \<and> unat l \<in> {6, 7} then load_ptr (ee_mem env) p else p)))"
    by (rule ext) (auto simp: scalar_eqs)
  have le: "l \<le> PB_LTYPE_LAST_PACKABLE \<longleftrightarrow> unat l \<le> 5" by (simp add: word_le_nat_alt)
  show ?thesis
    unfolding encode_array_def wire_array_def l_def [symmetric] Let_def le adr sz_def [symmetric]
    using packed unpacked by (simp add: enc_spec_true enc_spec_error wire_error_def wire_bytes_def del: pb_types)
qed

lemma unat_and_field:
  "k + n \<le> 8 \<Longrightarrow> unat ((x :: byte) AND push_bit k (mask n)) = unat x div 2 ^ k mod 2 ^ n * 2 ^ k"
proof -
  assume le: "k + n \<le> 8"
  have "x AND push_bit k (mask n) = push_bit k (take_bit n (drop_bit k x))"
    by (rule bit_word_eqI) (auto simp: bit_simps)
  moreover have u: "unat (take_bit n (drop_bit k x)) = unat x div 2 ^ k mod 2 ^ n"
    by (simp add: unsigned_take_bit_eq unat_drop_bit_eq take_bit_nat_def) (simp add: drop_bit_eq_div)
  moreover have "unat x div 2 ^ k mod 2 ^ n * 2 ^ k < 2 ^ 8"
  proof -
    have "unat x div 2 ^ k mod 2 ^ n < 2 ^ n" by simp
    then have "unat x div 2 ^ k mod 2 ^ n * 2 ^ k < 2 ^ n * 2 ^ k" by simp
    also have "\<dots> \<le> 2 ^ 8" using le by (simp only: power_add [symmetric]) (rule power_increasing, simp_all)
    finally show ?thesis .
  qed
  ultimately show ?thesis by (simp add: unsigned_push_bit_eq push_bit_eq_mult [where 'a = nat] take_bit_nat_def)
qed

lemma pb_type_cases:
  "unat (PB_ATYPE t) = 0 \<or> unat (PB_ATYPE t) = 0x40 \<or> unat (PB_ATYPE t) = 0x80 \<or> unat (PB_ATYPE t) = 0xC0"
  "unat (PB_HTYPE t) = 0 \<or> unat (PB_HTYPE t) = 0x10 \<or> unat (PB_HTYPE t) = 0x20 \<or> unat (PB_HTYPE t) = 0x30"
proof -
  have m: "(0xC0 :: byte) = push_bit 6 (mask 2)" "(0x30 :: byte) = push_bit 4 (mask 2)"
    by (simp_all add: mask_eq_exp_minus_1)
  have c: "k = 0 \<or> k = 1 \<or> k = 2 \<or> k = 3" if "k < 4" for k :: nat using that by auto
  show "unat (PB_ATYPE t) = 0 \<or> unat (PB_ATYPE t) = 0x40 \<or> unat (PB_ATYPE t) = 0x80 \<or> unat (PB_ATYPE t) = 0xC0"
    unfolding PB_ATYPE_def m(1) using c [of "unat t div 64 mod 4"] unat_and_field [of 6 2 t] by auto
  show "unat (PB_HTYPE t) = 0 \<or> unat (PB_HTYPE t) = 0x10 \<or> unat (PB_HTYPE t) = 0x20 \<or> unat (PB_HTYPE t) = 0x30"
    unfolding PB_HTYPE_def m(2) using c [of "unat t div 16 mod 4"] unat_and_field [of 4 2 t] by auto
qed

lemma enc_spec_callback:
  assumes "enc_spec (enc_pure (ee_user env (load_ptr (ee_mem env) p) field (p + 8))) (Some w)"
  shows "enc_spec (encode_callback_field env field p) (if load_ptr (ee_mem env) p = 0 then wire_bytes [] else Some w)"
proof (cases "load_ptr (ee_mem env) p = 0")
  case False
  let ?u = "ee_user env (load_ptr (ee_mem env) p) field (p + 8)"
  let ?f = "\<lambda>stream. case ?u stream of (False, stream) \<Rightarrow> Some (PB_OUT_ERROR ''callback error'' stream) | (True, stream) \<Rightarrow> Some (True, stream)"
  have D: "?f st \<noteq> None" for st by (simp split: prod.splits bool.splits)
  have fail: "\<exists>st'. ?f st = Some (False, st')" if "\<not> fst (?u st)" for st
    using that by (cases "?u st") (simp add: PB_OUT_ERROR_def)
  have win: "?f st = Some (?u st)" if "fst (?u st)" for st using that by (cases "?u st") simp
  have "enc_spec ?f (Some w)"
  proof (cases w)
    case None
    then have "\<exists>st'. ?u st = (False, st')" for st using assms by (simp add: enc_spec_def enc_pure_def)
    then have "\<exists>st'. ?f st = Some (False, st')" for st using fail [of st] by (metis fst_conv)
    then show ?thesis using None by (simp add: enc_spec_def)
  next
    case (Some bs)
    have "pb_encs ?f bs" if "length bs < 2 ^ 63"
    proof -
      have E: "pb_encs (enc_pure ?u) bs" using assms Some that by (simp add: enc_spec_def)
      show ?thesis
      proof (rule pb_encsI)
        fix st :: "'a pb_ostream" assume "out_ok st" "pb_room (length bs) st"
        then have "?u st = (True, pb_emit bs st)" using pb_encsD(1) [OF E] by (simp add: enc_pure_def)
        then show "?f st = Some (True, pb_emit bs st)" by simp
      next
        fix st :: "'a pb_ostream" assume "out_ok st" "\<not> pb_room (length bs) st" "os_sink st \<noteq> Sizing"
        then have "\<exists>st'. ?u st = (False, st')" using pb_encsD(2) [OF E] by (simp add: enc_pure_def)
        then show "\<exists>st'. ?f st = Some (False, st')" using fail [of st] by (metis fst_conv)
      qed
    qed
    then show ?thesis using D Some by (simp add: enc_spec_def)
  qed
  then show ?thesis using False by (simp add: encode_callback_field_def Let_def)
qed (simp add: encode_callback_field_def wire_bytes_def enc_spec_true)

lemma enc_spec_field:
  fixes env :: "'s pb_enc_env"
  assumes sub: "\<And>fs src. enc_spec (enc fs src) (sub fs src)"
    and user: "\<And>f p. PB_ATYPE (pf_type field) = PB_ATYPE_CALLBACK \<Longrightarrow>
      enc_spec (enc_pure (ee_user env f field p)) (Some (user f field p))"
  shows "enc_spec (encode_field n env enc field p) (wire_field n env user sub field p)"
proof -
  define a where "a = PB_ATYPE (pf_type field)"
  define h where "h = PB_HTYPE (pf_type field)"
  define m where "m = ee_mem env"
  define data where "data = (if unat a = 0x80 then load_ptr m p else p)"
  let ?func = "PB_ENCODERS env enc (PB_LTYPE (pf_type field))"
  let ?has = "if size_offset field \<noteq> 0 then Some True
            else if unat h = 0x10 then map_option Not (pb_check_proto3_default_value n env field p)
            else Some True"
  have a: "unat a = 0 \<or> unat a = 0x40 \<or> unat a = 0x80 \<or> unat a = 0xC0"
    and h: "unat h = 0 \<or> unat h = 0x10 \<or> unat h = 0x20 \<or> unat h = 0x30"
    unfolding a_def h_def by (rule pb_type_cases)+
  have put: "enc_spec (enc_then (enc_pure (pb_encode_tag_for_field (ee_callback env) field)) (?func field data))
      (wire_then (wire_tag_for_field field) (wire_value env sub field data))" for data
    by (intro enc_spec_then enc_spec_tag_for_field enc_spec_value sub)
  have arr: "enc_spec (encode_array env field data count ?func) (wire_array env sub field data count)" for data count
    by (rule enc_spec_array) (rule sub)
  have call: "enc_spec (encode_callback_field env field p)
      (if load_ptr m p = 0 then wire_bytes [] else Some (user (load_ptr m p) field (p + 8)))" if "unat a = 0x40"
    unfolding m_def by (rule enc_spec_callback) (rule user, use that in \<open>simp add: a_def word_unat_eq_iff\<close>)
  have err: "enc_spec (enc_pure (PB_OUT_ERROR msg) :: 's pb_enc) wire_error" for msg
    unfolding wire_error_def by (rule enc_spec_error)
  have nil: "enc_spec (enc_true :: 's pb_enc) (wire_bytes [])" unfolding wire_bytes_def by (rule enc_spec_true)
  have eqs: "a = PB_ATYPE_STATIC \<longleftrightarrow> unat a = 0" "a = PB_ATYPE_POINTER \<longleftrightarrow> unat a = 0x80" "a = PB_ATYPE_CALLBACK \<longleftrightarrow> unat a = 0x40"
    "h = PB_HTYPE_REQUIRED \<longleftrightarrow> unat h = 0" "h = PB_HTYPE_OPTIONAL \<longleftrightarrow> unat h = 0x10" "h = PB_HTYPE_REPEATED \<longleftrightarrow> unat h = 0x20"
    by (simp_all add: word_unat_eq_iff)
  show ?thesis
    unfolding encode_field_def encode_basic_field_def wire_field_def a_def [symmetric] h_def [symmetric] m_def [symmetric]
      Let_def eqs safe_read_bool_def
    using a h put arr call err nil
    by (elim disjE) (simp_all split: option.splits del: pb_types)
qed

lemma enc_spec_extensions:
  assumes sub: "\<And>fs src. enc_spec (enc fs src) (sub fs src)"
    and user: "\<And>f field p. enc_spec (enc_pure (ee_user env f field p)) (Some (user f field p))"
    and ext: "\<And>f e. enc_spec (enc_pure (ee_extension env f e)) (Some (ext f e))"
  shows "enc_spec (encode_extension_loop n env enc e) (wire_extensions n env user ext sub e)"
proof (induction n arbitrary: e)
  case 0
  then show ?case by (simp add: wire_bytes_def enc_spec_true)
next
  case (Suc n)
  define f where "f = field_at (ee_fields env (ext_arg (ee_mem env) e)) 0"
  define encode where "encode = load_ptr (ee_mem env) (ext_type (ee_mem env) e + 8)"
  have "default_extension_encoder n env enc e =
      encode_field n env enc f (if PB_ATYPE (pf_type f) = PB_ATYPE_POINTER then e + 8 else ext_dest (ee_mem env) e)"
    by (simp add: default_extension_encoder_def f_def Let_def)
  then have default: "enc_spec (default_extension_encoder n env enc e)
      (wire_field n env user sub f (if PB_ATYPE (pf_type f) = PB_ATYPE_POINTER then e + 8 else ext_dest (ee_mem env) e))"
    using enc_spec_field [where enc = enc and sub = sub and env = env and user = user, OF sub user] by simp
  have "enc_spec (if encode \<noteq> 0 then enc_pure (ee_extension env encode e) else default_extension_encoder n env enc e)
      (if encode \<noteq> 0 then Some (ext encode e)
       else wire_field n env user sub f (if PB_ATYPE (pf_type f) = PB_ATYPE_POINTER then e + 8 else ext_dest (ee_mem env) e))"
    using default ext by (cases "encode = 0") simp_all
  from enc_spec_then [OF this Suc.IH [of "ext_next (ee_mem env) e"]]
  show ?case unfolding encode_extension_loop.simps wire_extensions.simps Let_def f_def [symmetric] encode_def [symmetric]
    by (simp add: enc_spec_true wire_bytes_def del: pb_types)
qed

lemma enc_spec_loop:
  assumes user: "\<And>f field p. enc_spec (enc_pure (ee_user env f field p)) (Some (user f field p))"
    and ext: "\<And>f e. enc_spec (enc_pure (ee_extension env f e)) (Some (ext f e))"
  shows "enc_spec (encode_loop n env iter) (wire_loop n env user ext iter)"
proof (induction n arbitrary: iter)
  case (Suc n)
  define enc where "enc = (\<lambda>fs src. case pb_field_iter_begin fs src of
            (False, it) \<Rightarrow> enc_true
          | (True, it) \<Rightarrow> encode_loop n env it)"
  define sub where "sub = (\<lambda>fs src. case pb_field_iter_begin fs src of
                   (False, it) \<Rightarrow> wire_bytes []
                 | (True, it) \<Rightarrow> wire_loop n env user ext it)"
  have sub: "enc_spec (enc fs src) (sub fs src)" for fs src
    using Suc.IH by (auto simp: enc_def sub_def enc_spec_true wire_bytes_def split: prod.splits bool.splits)
  have "enc_spec (encode_one n env enc iter)
      (if PB_LTYPE (pf_type (it_field iter)) = PB_LTYPE_EXTENSION
       then wire_extensions n env user ext sub (load_ptr (ee_mem env) (pData iter))
       else wire_field n env user sub (it_field iter) (pData iter))"
    using enc_spec_extensions [where enc = enc and sub = sub and env = env and user = user and ext = ext, OF sub user ext]
      enc_spec_field [where enc = enc and sub = sub and env = env and user = user, OF sub user]
    by (simp add: encode_one_def encode_extension_field_def del: pb_types)
  moreover have "enc_spec (case pb_field_iter_next iter of (True, it) \<Rightarrow> encode_loop n env it | (False, it) \<Rightarrow> enc_true)
      (case pb_field_iter_next iter of (True, it) \<Rightarrow> wire_loop n env user ext it | (False, it) \<Rightarrow> wire_bytes [])"
    using Suc.IH by (auto simp: enc_spec_true wire_bytes_def split: prod.splits bool.splits)
  ultimately show ?case
    unfolding encode_loop.simps wire_loop.simps Let_def enc_def [symmetric] sub_def [symmetric] by (rule enc_spec_then)
qed simp

lemma enc_spec_message:
  assumes "\<And>f field p. enc_spec (enc_pure (ee_user env f field p)) (Some (user f field p))"
    and "\<And>f e. enc_spec (enc_pure (ee_extension env f e)) (Some (ext f e))"
  shows "enc_spec (pb_encode n env fs src) (wire_message n env user ext fs src)"
  using enc_spec_loop [where env = env and user = user and ext = ext, OF assms]
  by (auto simp: pb_encode_def wire_message_def enc_spec_true wire_bytes_def split: prod.splits bool.splits)

lemma pb_encode_fails:
  assumes "\<And>f field p. enc_spec (enc_pure (ee_user env f field p)) (Some (user f field p))"
    and "\<And>f e. enc_spec (enc_pure (ee_extension env f e)) (Some (ext f e))"
    and "wire_message n env user ext fs src = Some None"
  shows "\<exists>st'. pb_encode n env fs src st = Some (False, st')"
  using enc_spec_message [OF assms(1,2), of n fs src] assms(3) by (simp add: enc_spec_def)

lemma pb_encode_delimited_writes:
  assumes "\<And>f field p. enc_spec (enc_pure (ee_user env f field p)) (Some (user f field p))"
    and "\<And>f e. enc_spec (enc_pure (ee_extension env f e)) (Some (ext f e))"
    and "wire_message n env user ext fs src = Some (Some bs)" "length (wire_len bs) < 2 ^ 63"
  shows "pb_encs (pb_encode_delimited n env fs src) (wire_len bs)"
proof -
  have "enc_spec (pb_encode_delimited n env fs src) (Some (Some (wire_len bs)))"
    using enc_spec_submessage [where env = env and enc = "pb_encode n env" and fs = fs and src = src,
      OF enc_spec_message [where env = env and user = user and ext = ext, OF assms(1,2)]] assms(3)
    by (simp add: pb_encode_delimited_def)
  then show ?thesis using assms(4) by (simp add: enc_spec_def)
qed


definition sample_env :: "unit pb_enc_env" where
  "sample_env =
     \<lparr>ee_callback = (\<lambda>s bs. (True, s)),
      ee_mem = store_bytes (\<lambda>_. 0) 16 [0x2C, 0x01, 0, 0, 1, 2, 3, 4],
      ee_fields = (\<lambda>a. if a = 96 then [\<lparr>pf_tag = 1, pf_type = 0x04, data_offset = 0, size_offset = 0, data_size = 4, array_size = 0, pf_ptr = 0\<rparr>] else []),
      ee_user = (\<lambda>f field p. PB_OUT_ERROR ''''),
      ee_extension = (\<lambda>f e. PB_OUT_ERROR '''')\<rparr>"

definition sample_fields :: "pb_field list" where
  "sample_fields =
     [\<lparr>pf_tag = 1, pf_type = 0x02, data_offset = 0, size_offset = 0, data_size = 4, array_size = 0, pf_ptr = 0\<rparr>,
      \<lparr>pf_tag = 2, pf_type = 0x08, data_offset = 0, size_offset = 0, data_size = 4, array_size = 0, pf_ptr = 96\<rparr>]"

lemma sample_wire:
  "wire_message (Suc (Suc (Suc 0))) sample_env (\<lambda>f field p. None) (\<lambda>f e. None) sample_fields 16 =
     Some (Some [0x08, 0xAC, 0x02, 0x12, 0x05, 0x0D, 1, 2, 3, 4])"
  by (simp add: wire_message_def pb_field_iter_begin_def sample_fields_def field_at_def PB_LAST_FIELD_def upt_conv_Cons
      sample_env_def wire_field_def PB_LTYPE_def PB_HTYPE_def PB_ATYPE_def wire_tag_for_field_def wire_value_def
      wire_then_def wire_bytes_def pb_field_iter_next_def wire_tag_def load_unsigned_def load_bytes_def store_bytes_def
      varint_bytes_small varint_bytes_large wire_len_def Let_def)


end
