(* ===== verification/PbDecField.thy ===== *)
theory PbDecField
  imports PbField
begin

text \<open>The decoders of single values in \<^verbatim>\<open>pb_decode.c\<close> that store into a message struct, and the
  allocation of fields. The state is the stream, the memory and the state of the allocator. The
  allocator, a parameter, may move bytes in memory; \<open>pb_realloc\<close> gives the new address, 0 on failure.
  The application's stream callback is a parameter too. An action that returns \<^verbatim>\<open>bool\<close> is a function
  from states to a truth value and a state.\<close>

record ('s, 'h) pb_state =
  ps_stream :: "'s pb_istream"
  ps_mem :: mem
  ps_heap :: 'h
  ps_count :: u32

type_synonym ('s, 'h) pb_act = "('s, 'h) pb_state \<Rightarrow> bool \<times> ('s, 'h) pb_state"
type_synonym 'h pb_alloc = "'h \<Rightarrow> mem \<Rightarrow> addr \<Rightarrow> u64 \<Rightarrow> addr \<times> 'h \<times> mem"

definition act_error :: "string \<Rightarrow> ('s, 'h) pb_act" where
  "act_error msg st = (False, st\<lparr>ps_stream := PB_SET_ERROR msg (ps_stream st)\<rparr>)"

definition act_read :: "('s, 'a) pb_reader \<Rightarrow> ('a \<Rightarrow> ('s, 'h) pb_act) \<Rightarrow> ('s, 'h) pb_act" where
  "act_read rd k st =
     (case rd (ps_stream st) of
        (None, stream) \<Rightarrow> (False, st\<lparr>ps_stream := stream\<rparr>)
      | (Some v, stream) \<Rightarrow> k v (st\<lparr>ps_stream := stream\<rparr>))"

definition act_store :: "addr \<Rightarrow> byte list \<Rightarrow> ('s, 'h) pb_act" where
  "act_store a bs st = (True, st\<lparr>ps_mem := store_bytes (ps_mem st) a bs\<rparr>)"

definition act_then :: "('s, 'h) pb_act \<Rightarrow> ('s, 'h) pb_act \<Rightarrow> ('s, 'h) pb_act" where
  "act_then f g st = (case f st of (ok, st) \<Rightarrow> if ok then g st else (False, st))"

subsection \<open>Scalars\<close>

definition pb_dec_bool :: "'s pb_callback \<Rightarrow> pb_field \<Rightarrow> addr \<Rightarrow> ('s, 'h) pb_act" where
  "pb_dec_bool cb field dest =
     act_read (pb_decode_varint32 cb) (\<lambda>v. act_store dest [if v \<noteq> 0 then 1 else 0])"

definition clamp_signed :: "u32 \<Rightarrow> u64 \<Rightarrow> u64 option" where
  "clamp_signed sz svalue =
     (if sz = 8 then Some svalue
      else if sz = 4 then Some (scast (ucast svalue :: u32))
      else if sz = 2 then Some (scast (ucast svalue :: u16))
      else if sz = 1 then Some (scast (ucast svalue :: byte))
      else None)"

definition clamp_unsigned :: "u32 \<Rightarrow> u64 \<Rightarrow> u64 option" where
  "clamp_unsigned sz value =
     (if sz = 8 then Some value
      else if sz = 4 then Some (ucast (ucast value :: u32))
      else if sz = 2 then Some (ucast (ucast value :: u16))
      else if sz = 1 then Some (ucast (ucast value :: byte))
      else None)"

definition act_clamp :: "(u32 \<Rightarrow> u64 \<Rightarrow> u64 option) \<Rightarrow> pb_field \<Rightarrow> addr \<Rightarrow> u64 \<Rightarrow> ('s, 'h) pb_act" where
  "act_clamp clamp field dest value =
     (case clamp (data_size field) value of
        None \<Rightarrow> act_error ''invalid data_size''
      | Some clamped \<Rightarrow>
          act_then (act_store dest (le_bytes (unat (data_size field)) value))
            (if clamped \<noteq> value then act_error ''integer too large'' else (\<lambda>st. (True, st))))"

definition pb_dec_varint :: "'s pb_callback \<Rightarrow> pb_field \<Rightarrow> addr \<Rightarrow> ('s, 'h) pb_act" where
  "pb_dec_varint cb field dest =
     act_read (pb_decode_varint cb) (\<lambda>value.
       act_clamp clamp_signed field dest (if data_size field = 8 then value else scast (ucast value :: u32)))"

definition pb_dec_uvarint :: "'s pb_callback \<Rightarrow> pb_field \<Rightarrow> addr \<Rightarrow> ('s, 'h) pb_act" where
  "pb_dec_uvarint cb field dest = act_read (pb_decode_varint cb) (act_clamp clamp_unsigned field dest)"

definition pb_dec_svarint :: "'s pb_callback \<Rightarrow> pb_field \<Rightarrow> addr \<Rightarrow> ('s, 'h) pb_act" where
  "pb_dec_svarint cb field dest = act_read (pb_decode_svarint cb) (act_clamp clamp_signed field dest)"

definition pb_dec_fixed32 :: "'s pb_callback \<Rightarrow> pb_field \<Rightarrow> addr \<Rightarrow> ('s, 'h) pb_act" where
  "pb_dec_fixed32 cb field dest = act_read (pb_decode_fixed32 cb) (\<lambda>v. act_store dest (le_bytes 4 v))"

definition pb_dec_fixed64 :: "'s pb_callback \<Rightarrow> pb_field \<Rightarrow> addr \<Rightarrow> ('s, 'h) pb_act" where
  "pb_dec_fixed64 cb field dest = act_read (pb_decode_fixed64 cb) (\<lambda>v. act_store dest (le_bytes 8 v))"

subsection \<open>Allocation, bytes and strings\<close>

definition allocate_field :: "'h pb_alloc \<Rightarrow> addr \<Rightarrow> u64 \<Rightarrow> u64 \<Rightarrow> ('s, 'h) pb_act" where
  "allocate_field pb_realloc p dsize asize st =
     (if dsize = 0 \<or> asize = 0 then act_error ''invalid size'' st
      else if (dsize \<ge> 0x100000000 \<or> asize \<ge> 0x100000000) \<and> 0xFFFFFFFFFFFFFFFF div asize < dsize
      then act_error ''size too large'' st
      else (case pb_realloc (ps_heap st) (ps_mem st) (load_ptr (ps_mem st) p) (asize * dsize) of
              (q, heap, m) \<Rightarrow>
                (let st = st\<lparr>ps_heap := heap, ps_mem := m\<rparr> in
                 if q = 0 then act_error ''realloc failed'' st
                 else act_store p (le_bytes 8 q) st)))"

definition pb_dec_bytes :: "'s pb_callback \<Rightarrow> 'h pb_alloc \<Rightarrow> pb_field \<Rightarrow> addr \<Rightarrow> ('s, 'h) pb_act" where
  "pb_dec_bytes cb pb_realloc field dest =
     act_read (pb_decode_varint32 cb) (\<lambda>sz.
       (let alloc_size = ucast sz + 4 :: u64;
            fill = (\<lambda>bdest. act_then (act_store bdest (le_bytes 4 sz))
                      (act_read (pb_read_buf cb (unat sz)) (act_store (bdest + 4))))
        in if sz > PB_SIZE_MAX then act_error ''bytes overflow''
           else if ucast sz > alloc_size then act_error ''size too large''
           else if PB_ATYPE (pf_type field) = PB_ATYPE_POINTER
           then act_then (allocate_field pb_realloc dest alloc_size 1) (\<lambda>st. fill (load_ptr (ps_mem st) dest) st)
           else if alloc_size > ucast (data_size field) then act_error ''bytes overflow''
           else fill dest))"

definition pb_dec_string :: "'s pb_callback \<Rightarrow> 'h pb_alloc \<Rightarrow> pb_field \<Rightarrow> addr \<Rightarrow> ('s, 'h) pb_act" where
  "pb_dec_string cb pb_realloc field dest =
     act_read (pb_decode_varint32 cb) (\<lambda>sz.
       (let alloc_size = ucast (sz + 1 :: u32) :: u64;
            fill = (\<lambda>d st.
              (case act_read (pb_read_buf cb (unat sz)) (act_store d) st of
                 (status, st) \<Rightarrow> (status, st\<lparr>ps_mem := store_bytes (ps_mem st) (d + ucast sz) [0]\<rparr>)))
        in if alloc_size < ucast sz then act_error ''size too large''
           else if PB_ATYPE (pf_type field) = PB_ATYPE_POINTER
           then act_then (allocate_field pb_realloc dest alloc_size 1) (\<lambda>st. fill (load_ptr (ps_mem st) dest) st)
           else if alloc_size > ucast (data_size field) then act_error ''string overflow''
           else fill dest))"

definition pb_dec_fixed_length_bytes :: "'s pb_callback \<Rightarrow> pb_field \<Rightarrow> addr \<Rightarrow> ('s, 'h) pb_act" where
  "pb_dec_fixed_length_bytes cb field dest =
     act_read (pb_decode_varint32 cb) (\<lambda>sz.
       if sz > PB_SIZE_MAX then act_error ''bytes overflow''
       else if sz = 0 then act_store dest (replicate (unat (data_size field)) 0)
       else if sz \<noteq> data_size field then act_error ''incorrect fixed length bytes size''
       else act_read (pb_read_buf cb (unat (data_size field))) (act_store dest))"

end
