(* ===== verification/PbDefaults.thy ===== *)
theory PbDefaults
  imports PbDecField
begin

text \<open>Initialising and releasing messages, \<^verbatim>\<open>pb_decode.c\<close>. The recursion follows the nesting of messages
  in memory and the list of extensions, and so is bounded by fuel; \<open>None\<close> is running out of it. The
  allocator's \<^verbatim>\<open>pb_free\<close> is a parameter.\<close>

record ('s, 'h) pb_dec_env =
  de_callback :: "'s pb_callback"
  de_realloc :: "'h pb_alloc"
  de_free :: "'h \<Rightarrow> mem \<Rightarrow> addr \<Rightarrow> 'h \<times> mem"
  de_fields :: "addr \<Rightarrow> pb_field list"
  de_user :: "addr \<Rightarrow> pb_field \<Rightarrow> addr \<Rightarrow> ('s, 'h) pb_act"
  de_extension :: "addr \<Rightarrow> addr \<Rightarrow> u32 \<Rightarrow> pb_wire_type \<Rightarrow> ('s, 'h) pb_act"

definition store_size_mem :: "pb_size_ptr \<Rightarrow> byte list \<Rightarrow> mem \<Rightarrow> mem" where
  "store_size_mem p bs m = (case p of Size_at a \<Rightarrow> store_bytes m a bs | Local_count \<Rightarrow> m)"

fun pb_field_set_to_default :: "nat \<Rightarrow> (addr \<Rightarrow> pb_field list) \<Rightarrow> pb_field_iter \<Rightarrow> mem \<Rightarrow> mem option"
  and set_extensions_to_default :: "nat \<Rightarrow> (addr \<Rightarrow> pb_field list) \<Rightarrow> addr \<Rightarrow> mem \<Rightarrow> mem option"
  and set_loop_to_default :: "nat \<Rightarrow> (addr \<Rightarrow> pb_field list) \<Rightarrow> pb_field_iter \<Rightarrow> mem \<Rightarrow> mem option" where
  "pb_field_set_to_default 0 desc iter m = None"
| "pb_field_set_to_default (Suc n) desc iter m =
     (let f = it_field iter; ltype = PB_LTYPE (pf_type f); htype = PB_HTYPE (pf_type f); atype = PB_ATYPE (pf_type f) in
      if ltype = PB_LTYPE_EXTENSION then set_extensions_to_default n desc (load_ptr m (pData iter)) m
      else if atype = PB_ATYPE_STATIC then
        (let (m, init_data) =
           (if htype = PB_HTYPE_OPTIONAL \<and> pSize iter \<noteq> Size_at (pData iter) then (store_size_mem (pSize iter) [0] m, True)
            else if htype = PB_HTYPE_REPEATED \<or> htype = PB_HTYPE_ONEOF then (store_size_mem (pSize iter) (le_bytes 4 (0 :: u32)) m, False)
            else (m, True))
         in if init_data then
              (if ltype = PB_LTYPE_SUBMESSAGE then
                 (case pb_field_iter_begin (desc (pf_ptr f)) (pData iter) of
                    (False, it) \<Rightarrow> Some m
                  | (True, it) \<Rightarrow> set_loop_to_default n desc it m)
               else if pf_ptr f \<noteq> 0 then Some (store_bytes m (pData iter) (load_bytes m (pf_ptr f) (unat (data_size f))))
               else Some (store_bytes m (pData iter) (replicate (unat (data_size f)) 0)))
            else Some m)
      else if atype = PB_ATYPE_POINTER then
        (let m = store_ptr m (pData iter) 0 in
         Some (if htype = PB_HTYPE_REPEATED \<or> htype = PB_HTYPE_ONEOF then store_size_mem (pSize iter) (le_bytes 4 (0 :: u32)) m else m))
      else Some m)"
| "set_extensions_to_default 0 desc e m = (if e = 0 then Some m else None)"
| "set_extensions_to_default (Suc n) desc e m =
     (if e = 0 then Some m
      else
        (let m = store_bytes m (ext_found e) [0] in
         case pb_field_set_to_default n desc (iter_from_extension desc m e) m of
           None \<Rightarrow> None
         | Some m \<Rightarrow> set_extensions_to_default n desc (ext_next m e) m))"
| "set_loop_to_default 0 desc iter m = None"
| "set_loop_to_default (Suc n) desc iter m =
     (case pb_field_set_to_default n desc iter m of
        None \<Rightarrow> None
      | Some m \<Rightarrow>
          (case pb_field_iter_next iter of
             (True, iter) \<Rightarrow> set_loop_to_default n desc iter m
           | (False, iter) \<Rightarrow> Some m))"

definition pb_message_set_to_defaults :: "nat \<Rightarrow> (addr \<Rightarrow> pb_field list) \<Rightarrow> pb_field list \<Rightarrow> addr \<Rightarrow> mem \<Rightarrow> mem option" where
  "pb_message_set_to_defaults n desc fs dest m =
     (case pb_field_iter_begin fs dest of
        (False, iter) \<Rightarrow> Some m
      | (True, iter) \<Rightarrow> set_loop_to_default n desc iter m)"

subsection \<open>Releasing\<close>

type_synonym 'h pb_mem = "'h \<times> mem"

definition load_size :: "pb_size_ptr \<Rightarrow> mem \<Rightarrow> u32" where
  "load_size p m = (case p of Size_at a \<Rightarrow> load_u32 m a | Local_count \<Rightarrow> 0)"

fun free_items :: "('h \<Rightarrow> mem \<Rightarrow> addr \<Rightarrow> 'h pb_mem) \<Rightarrow> nat \<Rightarrow> addr \<Rightarrow> 'h pb_mem \<Rightarrow> 'h pb_mem" where
  "free_items pb_free 0 p hm = hm"
| "free_items pb_free (Suc count) p (h, m) =
     (case pb_free h m (load_ptr m p) of (h, m) \<Rightarrow> free_items pb_free count (p + 8) (h, store_ptr m p 0))"

definition release_field :: "(addr \<Rightarrow> 'h pb_mem \<Rightarrow> 'h pb_mem option) \<Rightarrow>
    (pb_field list \<Rightarrow> addr \<Rightarrow> nat \<Rightarrow> addr \<Rightarrow> 'h pb_mem \<Rightarrow> 'h pb_mem option) \<Rightarrow>
    ('s, 'h) pb_dec_env \<Rightarrow> pb_field_iter \<Rightarrow> 'h pb_mem \<Rightarrow> 'h pb_mem option" where
  "release_field exts items env iter hm =
     (let f = it_field iter; ltype = PB_LTYPE (pf_type f); htype = PB_HTYPE (pf_type f); atype = PB_ATYPE (pf_type f);
          m = snd hm in
      if htype = PB_HTYPE_ONEOF \<and> load_size (pSize iter) m \<noteq> pf_tag f then Some hm
      else
        (case (if ltype = PB_LTYPE_EXTENSION then exts (load_ptr m (pData iter)) hm
               else if ltype = PB_LTYPE_SUBMESSAGE \<and> atype \<noteq> PB_ATYPE_CALLBACK then
                 (let item = (if atype = PB_ATYPE_POINTER then load_ptr m (pData iter) else pData iter);
                      count =
                        (if htype = PB_HTYPE_REPEATED then
                           (let c = (if atype = PB_ATYPE_STATIC \<and> pSize iter = Size_at (pData iter) then array_size f
                                     else load_size (pSize iter) m)
                            in if atype = PB_ATYPE_STATIC \<and> c > array_size f then array_size f else c)
                         else 1)
                  in if item \<noteq> 0 then items (de_fields env (pf_ptr f)) (ucast (data_size f)) (unat count) item hm
                     else Some hm)
               else Some hm) of
           None \<Rightarrow> None
         | Some hm \<Rightarrow>
            (if atype = PB_ATYPE_POINTER then
               (let (h, m) =
                  (if htype = PB_HTYPE_REPEATED \<and> (ltype = PB_LTYPE_STRING \<or> ltype = PB_LTYPE_BYTES)
                   then free_items (de_free env) (unat (load_size (pSize iter) (snd hm))) (load_ptr (snd hm) (pData iter)) hm
                   else hm);
                    m = (if htype = PB_HTYPE_REPEATED then store_size_mem (pSize iter) (le_bytes 4 (0 :: u32)) m else m);
                    (h, m) = de_free env h m (load_ptr m (pData iter))
                in Some (h, store_ptr m (pData iter) 0))
             else Some hm)))"

function (sequential) pb_release_single_field :: "nat \<Rightarrow> ('s, 'h) pb_dec_env \<Rightarrow> pb_field_iter \<Rightarrow> 'h pb_mem \<Rightarrow> 'h pb_mem option"
  and release_extensions :: "nat \<Rightarrow> ('s, 'h) pb_dec_env \<Rightarrow> addr \<Rightarrow> 'h pb_mem \<Rightarrow> 'h pb_mem option"
  and release_items :: "nat \<Rightarrow> ('s, 'h) pb_dec_env \<Rightarrow> pb_field list \<Rightarrow> addr \<Rightarrow> nat \<Rightarrow> addr \<Rightarrow> 'h pb_mem \<Rightarrow> 'h pb_mem option"
  and release_loop :: "nat \<Rightarrow> ('s, 'h) pb_dec_env \<Rightarrow> pb_field_iter \<Rightarrow> 'h pb_mem \<Rightarrow> 'h pb_mem option" where
  "pb_release_single_field 0 env iter hm = None"
| "pb_release_single_field (Suc n) env iter hm =
     release_field (\<lambda>e hm. release_extensions n env e hm)
       (\<lambda>fs step count p hm. release_items n env fs step count p hm) env iter hm"
| "release_extensions 0 env e hm = (if e = 0 then Some hm else None)"
| "release_extensions (Suc n) env e hm =
     (if e = 0 then Some hm
      else
        (case pb_release_single_field n env (iter_from_extension (de_fields env) (snd hm) e) hm of
           None \<Rightarrow> None
         | Some hm \<Rightarrow> release_extensions n env (ext_next (snd hm) e) hm))"
| "release_items 0 env fs step count p hm = (if count = 0 then Some hm else None)"
| "release_items (Suc n) env fs step count p hm =
     (if count = 0 then Some hm
      else
        (case (if p = 0 then Some hm
               else (case pb_field_iter_begin fs p of
                       (False, it) \<Rightarrow> Some hm
                     | (True, it) \<Rightarrow> release_loop n env it hm)) of
           None \<Rightarrow> None
         | Some hm \<Rightarrow> release_items n env fs step (count - 1) (p + step) hm))"
| "release_loop 0 env iter hm = None"
| "release_loop (Suc n) env iter hm =
     (case pb_release_single_field n env iter hm of
        None \<Rightarrow> None
      | Some hm \<Rightarrow>
          (case pb_field_iter_next iter of
             (True, iter) \<Rightarrow> release_loop n env iter hm
           | (False, iter) \<Rightarrow> Some hm))"
  by pat_completeness auto
termination
  by (relation "measure (\<lambda>c. case c of
        Inl (Inl (n, env, iter, hm)) \<Rightarrow> n | Inl (Inr (n, env, e, hm)) \<Rightarrow> n
      | Inr (Inl (n, env, fs, step, count, p, hm)) \<Rightarrow> n | Inr (Inr (n, env, iter, hm)) \<Rightarrow> n)") simp_all

definition pb_release :: "nat \<Rightarrow> ('s, 'h) pb_dec_env \<Rightarrow> pb_field list \<Rightarrow> addr \<Rightarrow> 'h pb_mem \<Rightarrow> 'h pb_mem option" where
  "pb_release n env fs dest hm =
     (if dest = 0 then Some hm
      else
        (case pb_field_iter_begin fs dest of
           (False, it) \<Rightarrow> Some hm
         | (True, it) \<Rightarrow> release_loop n env it hm))"

end
