(* ===== verification/PbDecMessage.thy ===== *)
theory PbDecMessage
  imports PbDefaults
begin

text \<open>The decoder of whole messages, \<^verbatim>\<open>pb_decode.c\<close>: static, allocated and callback fields, oneofs,
  extensions, submessages and the loop over the fields of a message. \<open>None\<close> stands for running out of
  fuel and for calls of null function pointers. The counter of fixed-count arrays, a local variable of
  \<^verbatim>\<open>pb_decode_noinit\<close>, is the component \<open>ps_count\<close> of the state; a nested call has its own.\<close>

type_synonym ('s, 'h) pb_dec = "('s, 'h) pb_state \<Rightarrow> (bool \<times> ('s, 'h) pb_state) option"
type_synonym ('s, 'h) pb_sub = "pb_field list \<Rightarrow> addr \<Rightarrow> ('s, 'h) pb_dec"

definition dec_pure :: "('s, 'h) pb_act \<Rightarrow> ('s, 'h) pb_dec" where
  "dec_pure f st = Some (f st)"

definition dec_then :: "('s, 'h) pb_dec \<Rightarrow> ('s, 'h) pb_dec \<Rightarrow> ('s, 'h) pb_dec" where
  "dec_then f g st =
     (case f st of
        None \<Rightarrow> None
      | Some (ok, st) \<Rightarrow> if ok then g st else Some (False, st))"

definition dec_true :: "('s, 'h) pb_dec" where
  "dec_true st = Some (True, st)"

definition dec_mem :: "(mem \<Rightarrow> mem option) \<Rightarrow> ('s, 'h) pb_dec" where
  "dec_mem f st = map_option (\<lambda>m. (True, st\<lparr>ps_mem := m\<rparr>)) (f (ps_mem st))"

definition dec_release :: "('h pb_mem \<Rightarrow> 'h pb_mem option) \<Rightarrow> ('s, 'h) pb_dec" where
  "dec_release f st = map_option (\<lambda>(h, m). (True, st\<lparr>ps_heap := h, ps_mem := m\<rparr>)) (f (ps_heap st, ps_mem st))"

definition size_count :: "pb_size_ptr \<Rightarrow> ('s, 'h) pb_state \<Rightarrow> u32" where
  "size_count p st = (case p of Size_at a \<Rightarrow> load_u32 (ps_mem st) a | Local_count \<Rightarrow> ps_count st)"

definition act_size :: "pb_size_ptr \<Rightarrow> byte list \<Rightarrow> ('s, 'h) pb_act" where
  "act_size p bs st =
     (case p of
        Size_at a \<Rightarrow> act_store a bs st
      | Local_count \<Rightarrow> (True, st\<lparr>ps_count := le_word (bs @ drop (length bs) (le_bytes 4 (ps_count st)))\<rparr>))"

definition act_stream :: "('s, 'h) pb_act \<Rightarrow> 's pb_istream \<Rightarrow> ('s, 'h) pb_act" where
  "act_stream f stream st = f (st\<lparr>ps_stream := stream\<rparr>)"

text \<open>A substream for a length-delimited value: \<open>body\<close> runs with the substream in the place of the
  stream, and \<open>finish\<close>, given the result and the substream, on the stream itself.\<close>

definition dec_substream :: "'s pb_callback \<Rightarrow> ('s, 'h) pb_dec \<Rightarrow>
    (bool \<Rightarrow> 's pb_istream \<Rightarrow> ('s, 'h) pb_act) \<Rightarrow> ('s, 'h) pb_dec" where
  "dec_substream cb body finish st =
     (case pb_make_string_substream cb (ps_stream st) of
        (None, stream) \<Rightarrow> Some (False, st\<lparr>ps_stream := stream\<rparr>)
      | (Some substream, stream) \<Rightarrow>
         (case body (st\<lparr>ps_stream := substream\<rparr>) of
            None \<Rightarrow> None
          | Some (status, st) \<Rightarrow> Some (finish status (ps_stream st) (st\<lparr>ps_stream := stream\<rparr>))))"

definition close_with :: "'s pb_callback \<Rightarrow> bool \<Rightarrow> 's pb_istream \<Rightarrow> ('s, 'h) pb_act" where
  "close_with cb status substream =
     act_read (pb_close_string_substream cb substream) (\<lambda>_ st. (status, st))"

subsection \<open>Submessages\<close>

definition pb_decode_with :: "nat \<Rightarrow> ('s, 'h) pb_dec_env \<Rightarrow> ('s, 'h) pb_sub \<Rightarrow> ('s, 'h) pb_sub" where
  "pb_decode_with n env noinit fs dest st =
     (case dec_then (dec_mem (pb_message_set_to_defaults n (de_fields env) fs dest)) (noinit fs dest) st of
        None \<Rightarrow> None
      | Some (True, st) \<Rightarrow> Some (True, st)
      | Some (False, st) \<Rightarrow> map_option (\<lambda>(ok, st). (False, st)) (dec_release (pb_release n env fs dest) st))"

definition pb_dec_submessage :: "nat \<Rightarrow> ('s, 'h) pb_dec_env \<Rightarrow> ('s, 'h) pb_sub \<Rightarrow> pb_field \<Rightarrow> addr \<Rightarrow> ('s, 'h) pb_dec" where
  "pb_dec_submessage n env noinit field dest =
     (let cb = de_callback env; fs = de_fields env (pf_ptr field) in
      if pf_ptr field = 0 then
        dec_substream cb dec_true (\<lambda>status substream. act_error ''invalid field descriptor'')
      else
        dec_substream cb
          (if PB_HTYPE (pf_type field) = PB_HTYPE_REPEATED then pb_decode_with n env noinit fs dest else noinit fs dest)
          (close_with cb))"

definition PB_DECODERS :: "nat \<Rightarrow> ('s, 'h) pb_dec_env \<Rightarrow> ('s, 'h) pb_sub \<Rightarrow> byte \<Rightarrow> pb_field \<Rightarrow> addr \<Rightarrow> ('s, 'h) pb_dec" where
  "PB_DECODERS n env noinit ltype field dest =
     (let cb = de_callback env in
      if ltype = PB_LTYPE_BOOL then dec_pure (pb_dec_bool cb field dest)
      else if ltype = PB_LTYPE_VARINT then dec_pure (pb_dec_varint cb field dest)
      else if ltype = PB_LTYPE_UVARINT then dec_pure (pb_dec_uvarint cb field dest)
      else if ltype = PB_LTYPE_SVARINT then dec_pure (pb_dec_svarint cb field dest)
      else if ltype = PB_LTYPE_FIXED32 then dec_pure (pb_dec_fixed32 cb field dest)
      else if ltype = PB_LTYPE_FIXED64 then dec_pure (pb_dec_fixed64 cb field dest)
      else if ltype = PB_LTYPE_BYTES then dec_pure (pb_dec_bytes cb (de_realloc env) field dest)
      else if ltype = PB_LTYPE_STRING then dec_pure (pb_dec_string cb (de_realloc env) field dest)
      else if ltype = PB_LTYPE_SUBMESSAGE then pb_dec_submessage n env noinit field dest
      else if ltype = PB_LTYPE_FIXED_LENGTH_BYTES then dec_pure (pb_dec_fixed_length_bytes cb field dest)
      else (\<lambda>_. None))"

subsection \<open>Fields\<close>

fun static_packed_loop :: "nat \<Rightarrow> pb_field_iter \<Rightarrow> (addr \<Rightarrow> ('s, 'h) pb_dec) \<Rightarrow> ('s, 'h) pb_dec" where
  "static_packed_loop 0 iter func st = None"
| "static_packed_loop (Suc k) iter func st =
     (let count = size_count (pSize iter) st in
      if bytes_left (ps_stream st) > 0 \<and> count < array_size (it_field iter) then
        (case func (pData iter + ucast (data_size (it_field iter) * count)) st of
           None \<Rightarrow> None
         | Some (False, st) \<Rightarrow> Some (False, st)
         | Some (True, st) \<Rightarrow>
             static_packed_loop k iter func (snd (act_size (pSize iter) (le_bytes 4 (size_count (pSize iter) st + 1)) st)))
      else Some (True, st))"

definition decode_static_field :: "nat \<Rightarrow> ('s, 'h) pb_dec_env \<Rightarrow> ('s, 'h) pb_sub \<Rightarrow> pb_wire_type \<Rightarrow> pb_field_iter \<Rightarrow> ('s, 'h) pb_dec" where
  "decode_static_field n env noinit wire_type iter st =
     (let f = it_field iter; htype = PB_HTYPE (pf_type f); ltype = PB_LTYPE (pf_type f); cb = de_callback env;
          func = PB_DECODERS n env noinit ltype f in
      if htype = PB_HTYPE_REQUIRED then func (pData iter) st
      else if htype = PB_HTYPE_OPTIONAL then
        dec_then (if pSize iter \<noteq> Size_at (pData iter) then dec_pure (act_size (pSize iter) [1]) else dec_true)
          (func (pData iter)) st
      else if htype = PB_HTYPE_REPEATED then
        (if wire_type = PB_WT_STRING \<and> ltype \<le> PB_LTYPE_LAST_PACKABLE then
           dec_substream cb (\<lambda>st. static_packed_loop (Suc (bytes_left (ps_stream st))) iter func st)
             (\<lambda>status substream.
               if bytes_left substream \<noteq> 0 then act_error ''array overflow''
               else close_with cb status substream) st
         else
           (let count = size_count (pSize iter) st in
            dec_then (dec_pure (act_size (pSize iter) (le_bytes 4 (count + 1))))
              (if count \<ge> array_size f then dec_pure (act_error ''array overflow'')
               else func (pData iter + ucast (data_size f * count))) st))
      else
        dec_then (dec_pure (act_size (pSize iter) (le_bytes 4 (pf_tag f))))
          (dec_then
            (if ltype = PB_LTYPE_SUBMESSAGE then
               dec_then (dec_pure (act_store (pData iter) (replicate (unat (data_size f)) 0)))
                 (dec_mem (pb_message_set_to_defaults n (de_fields env) (de_fields env (pf_ptr f)) (pData iter)))
             else dec_true)
            (func (pData iter))) st)"

definition initialize_pointer_field :: "nat \<Rightarrow> ('s, 'h) pb_dec_env \<Rightarrow> pb_field \<Rightarrow> addr \<Rightarrow> ('s, 'h) pb_dec" where
  "initialize_pointer_field n env f item =
     (let ltype = PB_LTYPE (pf_type f) in
      if ltype = PB_LTYPE_STRING \<or> ltype = PB_LTYPE_BYTES then dec_pure (act_store item (le_bytes 8 (0 :: addr)))
      else if ltype = PB_LTYPE_SUBMESSAGE then
        dec_then (dec_pure (act_store item (replicate (unat (data_size f)) 0)))
          (dec_mem (pb_message_set_to_defaults n (de_fields env) (de_fields env (pf_ptr f)) item))
      else dec_true)"

fun pointer_packed_loop :: "nat \<Rightarrow> nat \<Rightarrow> ('s, 'h) pb_dec_env \<Rightarrow> pb_field_iter \<Rightarrow> (addr \<Rightarrow> ('s, 'h) pb_dec) \<Rightarrow> u64 \<Rightarrow>
    ('s, 'h) pb_state \<Rightarrow> (bool \<times> bool \<times> ('s, 'h) pb_state) option" where
  "pointer_packed_loop 0 n env iter func allocated_size st = None"
| "pointer_packed_loop (Suc k) n env iter func allocated_size st =
     (let f = it_field iter; count = size_count (pSize iter) st; left = bytes_left (ps_stream st) in
      if left = 0 then Some (True, False, st)
      else if count = PB_SIZE_MAX then Some (False, True, st)
      else
        (let grow = ucast count + 1 > allocated_size;
             remain = word_of_nat (left - 1) div ucast (data_size f) + 1;
             allocated_size = (if \<not> grow then allocated_size
               else if remain < ucast PB_SIZE_MAX - allocated_size then allocated_size + remain
               else allocated_size + 1)
         in if grow \<and> data_size f = 0 then None
            else case (if grow then allocate_field (de_realloc env) (pData iter) (ucast (data_size f)) allocated_size st
                  else (True, st)) of
              (False, st) \<Rightarrow> Some (False, False, st)
            | (True, st) \<Rightarrow>
                (let item = load_ptr (ps_mem st) (pData iter) + ucast (data_size f * count) in
                 case dec_then (initialize_pointer_field n env f item) (func item) st of
                   None \<Rightarrow> None
                 | Some (False, st) \<Rightarrow> Some (False, False, st)
                 | Some (True, st) \<Rightarrow>
                     pointer_packed_loop k n env iter func allocated_size
                       (snd (act_size (pSize iter) (le_bytes 4 (size_count (pSize iter) st + 1)) st)))))"

definition decode_pointer_field :: "nat \<Rightarrow> ('s, 'h) pb_dec_env \<Rightarrow> ('s, 'h) pb_sub \<Rightarrow> pb_wire_type \<Rightarrow> pb_field_iter \<Rightarrow> ('s, 'h) pb_dec" where
  "decode_pointer_field n env noinit wire_type iter st =
     (let f = it_field iter; htype = PB_HTYPE (pf_type f); ltype = PB_LTYPE (pf_type f); cb = de_callback env;
          func = PB_DECODERS n env noinit ltype f in
      if htype \<noteq> PB_HTYPE_REPEATED then
        dec_then
          (if ltype = PB_LTYPE_SUBMESSAGE \<and> load_ptr (ps_mem st) (pData iter) \<noteq> 0
           then dec_release (pb_release_single_field n env iter) else dec_true)
          (dec_then (if htype = PB_HTYPE_ONEOF then dec_pure (act_size (pSize iter) (le_bytes 4 (pf_tag f))) else dec_true)
            (if ltype = PB_LTYPE_STRING \<or> ltype = PB_LTYPE_BYTES then func (pData iter)
             else dec_then (dec_pure (allocate_field (de_realloc env) (pData iter) (ucast (data_size f)) 1)) (\<lambda>st.
               (let item = load_ptr (ps_mem st) (pData iter) in
                dec_then (initialize_pointer_field n env f item)
                  (\<lambda>st. func (load_ptr (ps_mem st) (pData iter)) st) st)))) st
      else if wire_type = PB_WT_STRING \<and> ltype \<le> PB_LTYPE_LAST_PACKABLE then
        (let allocated_size = ucast (size_count (pSize iter) st) in
         case pb_make_string_substream cb (ps_stream st) of
           (None, stream) \<Rightarrow> Some (False, st\<lparr>ps_stream := stream\<rparr>)
         | (Some substream, stream) \<Rightarrow>
            (case pointer_packed_loop (Suc (bytes_left substream)) n env iter func allocated_size (st\<lparr>ps_stream := substream\<rparr>) of
               None \<Rightarrow> None
             | Some (status, too_many, st) \<Rightarrow>
                 (let stream = (if too_many then stream\<lparr>is_errmsg := Some ''too many array entries''\<rparr> else stream) in
                  Some (close_with cb status (ps_stream st) (st\<lparr>ps_stream := stream\<rparr>)))))
      else
        (let count = size_count (pSize iter) st in
         if count = PB_SIZE_MAX then Some (act_error ''too many array entries'' st)
         else
           dec_then (dec_pure (allocate_field (de_realloc env) (pData iter) (ucast (data_size f)) (ucast (count + 1)))) (\<lambda>st.
             (let count = size_count (pSize iter) st;
                  item = load_ptr (ps_mem st) (pData iter) + ucast (data_size f * count) in
              dec_then (dec_pure (act_size (pSize iter) (le_bytes 4 (count + 1))))
                (dec_then (initialize_pointer_field n env f item) (func item)) st)) st))"

fun callback_loop :: "nat \<Rightarrow> ('s, 'h) pb_act \<Rightarrow> ('s, 'h) pb_dec" where
  "callback_loop 0 decode st = None"
| "callback_loop (Suc n) decode st =
     (case decode st of
        (False, st) \<Rightarrow> Some (False, st)
      | (True, st) \<Rightarrow> if bytes_left (ps_stream st) \<noteq> 0 then callback_loop n decode st else Some (True, st))"

definition decode_callback_field :: "nat \<Rightarrow> ('s, 'h) pb_dec_env \<Rightarrow> pb_wire_type \<Rightarrow> pb_field_iter \<Rightarrow> ('s, 'h) pb_dec" where
  "decode_callback_field n env wire_type iter st =
     (let cb = de_callback env; decode = load_ptr (ps_mem st) (pData iter);
          user = de_user env decode (it_field iter) (pData iter + 8) in
      if pData iter = 0 \<or> decode = 0 then Some (act_read (pb_skip_field cb wire_type) (\<lambda>_ st. (True, st)) st)
      else if wire_type = PB_WT_STRING then
        dec_substream cb (callback_loop n user)
          (\<lambda>status substream. if status then close_with cb True substream else act_error ''callback failed'') st
      else
        (case read_raw_value cb wire_type 10 (ps_stream st) of
           (None, stream) \<Rightarrow> Some (False, st\<lparr>ps_stream := stream\<rparr>)
         | (Some buffer, stream) \<Rightarrow>
            (case user (st\<lparr>ps_stream := pb_istream_from_buffer buffer (length buffer)\<rparr>) of
               (status, st) \<Rightarrow> Some (status, st\<lparr>ps_stream := stream\<rparr>))))"

definition pb_release_union_field :: "nat \<Rightarrow> ('s, 'h) pb_dec_env \<Rightarrow> pb_field_iter \<Rightarrow> ('s, 'h) pb_state \<Rightarrow>
    (bool \<times> pb_field_iter \<times> ('s, 'h) pb_state) option" where
  "pb_release_union_field n env iter st =
     (let old_tag = size_count (pSize iter) st; new_tag = pf_tag (it_field iter) in
      if old_tag = 0 \<or> old_tag = new_tag then Some (True, iter, st)
      else
        (case pb_field_iter_find iter old_tag of
           None \<Rightarrow> None
         | Some (False, iter) \<Rightarrow> Some (False, iter, snd (act_error ''invalid union tag'' st))
         | Some (True, iter) \<Rightarrow>
            (case dec_release (pb_release_single_field n env iter) st of
               None \<Rightarrow> None
             | Some (_, st) \<Rightarrow>
                (case pb_field_iter_find iter new_tag of
                   None \<Rightarrow> None
                 | Some (False, iter) \<Rightarrow> Some (False, iter, snd (act_error ''iterator error'' st))
                 | Some (True, iter) \<Rightarrow> Some (True, iter, st)))))"

definition decode_field :: "nat \<Rightarrow> ('s, 'h) pb_dec_env \<Rightarrow> ('s, 'h) pb_sub \<Rightarrow> pb_wire_type \<Rightarrow> pb_field_iter \<Rightarrow>
    ('s, 'h) pb_state \<Rightarrow> (bool \<times> pb_field_iter \<times> ('s, 'h) pb_state) option" where
  "decode_field n env noinit wire_type iter st =
     (case (if PB_HTYPE (pf_type (it_field iter)) = PB_HTYPE_ONEOF then pb_release_union_field n env iter st
            else Some (True, iter, st)) of
        None \<Rightarrow> None
      | Some (False, iter, st) \<Rightarrow> Some (False, iter, st)
      | Some (True, iter, st) \<Rightarrow>
         (let atype = PB_ATYPE (pf_type (it_field iter)) in
          map_option (\<lambda>(ok, st). (ok, iter, st))
            (if atype = PB_ATYPE_STATIC then decode_static_field n env noinit wire_type iter st
             else if atype = PB_ATYPE_POINTER then decode_pointer_field n env noinit wire_type iter st
             else if atype = PB_ATYPE_CALLBACK then decode_callback_field n env wire_type iter st
             else Some (act_error ''invalid field type'' st))))"

subsection \<open>Extensions\<close>

definition default_extension_decoder :: "nat \<Rightarrow> ('s, 'h) pb_dec_env \<Rightarrow> ('s, 'h) pb_sub \<Rightarrow> addr \<Rightarrow> u32 \<Rightarrow> pb_wire_type \<Rightarrow> ('s, 'h) pb_dec" where
  "default_extension_decoder n env noinit e tag wire_type st =
     (let iter = iter_from_extension (de_fields env) (ps_mem st) e in
      if pf_tag (it_field iter) \<noteq> tag then Some (True, st)
      else
        (let st = st\<lparr>ps_mem := store_bytes (ps_mem st) (ext_found e) [1]\<rparr> in
         map_option (\<lambda>(ok, iter, st). (ok, st)) (decode_field n env noinit wire_type iter st)))"

fun decode_extension_loop :: "nat \<Rightarrow> ('s, 'h) pb_dec_env \<Rightarrow> ('s, 'h) pb_sub \<Rightarrow> u32 \<Rightarrow> pb_wire_type \<Rightarrow> nat \<Rightarrow> addr \<Rightarrow> ('s, 'h) pb_dec" where
  "decode_extension_loop 0 env noinit tag wire_type pos e st =
     (if e \<noteq> 0 \<and> pos = bytes_left (ps_stream st) then None else Some (True, st))"
| "decode_extension_loop (Suc n) env noinit tag wire_type pos e st =
     (if e \<noteq> 0 \<and> pos = bytes_left (ps_stream st) then
        (let decode = load_ptr (ps_mem st) (ext_type (ps_mem st) e) in
         dec_then
           (if decode \<noteq> 0 then dec_pure (de_extension env decode e tag wire_type)
            else default_extension_decoder n env noinit e tag wire_type)
           (\<lambda>st. decode_extension_loop n env noinit tag wire_type pos (ext_next (ps_mem st) e) st) st)
      else Some (True, st))"

definition decode_extension :: "nat \<Rightarrow> ('s, 'h) pb_dec_env \<Rightarrow> ('s, 'h) pb_sub \<Rightarrow> u32 \<Rightarrow> pb_wire_type \<Rightarrow> pb_field_iter \<Rightarrow> ('s, 'h) pb_dec" where
  "decode_extension n env noinit tag wire_type iter st =
     decode_extension_loop n env noinit tag wire_type (bytes_left (ps_stream st)) (load_ptr (ps_mem st) (pData iter)) st"

end
