(* ===== verification/PbDecLoop.thy ===== *)
theory PbDecLoop
  imports PbDecMessage
begin

text \<open>The loop over the fields of a message, \<^verbatim>\<open>pb_decode_noinit\<close> in \<^verbatim>\<open>pb_decode.c\<close>, and the entry
  points. Each turn and each level of nesting takes one unit of fuel.\<close>

record pb_loop_state =
  ls_iter :: pb_field_iter
  fields_seen :: "u32 list"
  extension_range_start :: u32
  fixed_count_field :: "nat option"

datatype pb_step = Go | Break | Fail

type_synonym ('s, 'h) pb_turn = "pb_loop_state \<Rightarrow> ('s, 'h) pb_state \<Rightarrow> (pb_step \<times> pb_loop_state \<times> ('s, 'h) pb_state) option"

definition PB_MAX_REQUIRED_FIELDS :: nat where "PB_MAX_REQUIRED_FIELDS = 64"

definition go_if :: "bool \<Rightarrow> pb_step" where "go_if ok = (if ok then Go else Fail)"

definition decode_unknown :: "nat \<Rightarrow> ('s, 'h) pb_dec_env \<Rightarrow> ('s, 'h) pb_sub \<Rightarrow> u32 \<Rightarrow> pb_wire_type \<Rightarrow> ('s, 'h) pb_turn" where
  "decode_unknown n env noinit tag wire_type ls st =
     (let skip = (\<lambda>ls st. case act_read (pb_skip_field (de_callback env) wire_type) (\<lambda>_ st. (True, st)) st of
                    (ok, st) \<Rightarrow> Some (go_if ok, ls, st)) in
      if tag \<ge> extension_range_start ls then
        (case find_extension_field (ls_iter ls) of
           None \<Rightarrow> None
         | Some (found, iter) \<Rightarrow>
            (let range = (if found then pf_tag (it_field iter) else 0xFFFFFFFF);
                 ls = ls\<lparr>ls_iter := iter, extension_range_start := range\<rparr> in
             if tag \<ge> range then
               (case decode_extension n env noinit tag wire_type iter st of
                  None \<Rightarrow> None
                | Some (False, st') \<Rightarrow> Some (Fail, ls, st')
                | Some (True, st') \<Rightarrow>
                   if bytes_left (ps_stream st') \<noteq> bytes_left (ps_stream st) then Some (Go, ls, st')
                   else skip ls st')
             else skip ls st))
      else skip ls st)"

definition mark_required :: "pb_field_iter \<Rightarrow> u32 list \<Rightarrow> u32 list" where
  "mark_required iter seen =
     (let i = required_field_index iter in
      if PB_HTYPE (pf_type (it_field iter)) = PB_HTYPE_REQUIRED \<and> i < PB_MAX_REQUIRED_FIELDS
      then seen[i div 32 := seen ! (i div 32) OR push_bit (i mod 32) 1] else seen)"

definition decode_known :: "nat \<Rightarrow> ('s, 'h) pb_dec_env \<Rightarrow> ('s, 'h) pb_sub \<Rightarrow> pb_wire_type \<Rightarrow> ('s, 'h) pb_turn" where
  "decode_known n env noinit wire_type ls st =
     (let iter = ls_iter ls; f = it_field iter;
          fixed = (PB_HTYPE (pf_type f) = PB_HTYPE_REPEATED \<and> pSize iter = Size_at (pData iter));
          fresh = (fixed \<and> fixed_count_field ls \<noteq> Some (it_pos iter)) in
      if fresh \<and> (case fixed_count_field ls of
                     None \<Rightarrow> False
                   | Some i \<Rightarrow> ps_count st \<noteq> array_size (field_at (it_fields iter) i))
      then Some (Fail, ls, snd (act_error ''wrong size for fixed count field'' st))
      else
        (let ls = (if fresh then ls\<lparr>fixed_count_field := Some (it_pos iter)\<rparr> else ls);
             st = (if fresh then st\<lparr>ps_count := 0\<rparr> else st);
             iter = (if fixed then iter\<lparr>pSize := Local_count\<rparr> else iter);
             ls = ls\<lparr>fields_seen := mark_required iter (fields_seen ls)\<rparr>
         in case decode_field n env noinit wire_type iter st of
              None \<Rightarrow> None
            | Some (ok, iter, st) \<Rightarrow> Some (go_if ok, ls\<lparr>ls_iter := iter\<rparr>, st)))"

definition decode_turn :: "nat \<Rightarrow> ('s, 'h) pb_dec_env \<Rightarrow> ('s, 'h) pb_sub \<Rightarrow> ('s, 'h) pb_turn" where
  "decode_turn n env noinit ls st =
     (case pb_decode_tag (de_callback env) (ps_stream st) of
        (None, eof, stream) \<Rightarrow> Some (if eof then Break else Fail, ls, st\<lparr>ps_stream := stream\<rparr>)
      | (Some (wire_type, tag), eof, stream) \<Rightarrow>
         (let st = st\<lparr>ps_stream := stream\<rparr> in
          case pb_field_iter_find (ls_iter ls) tag of
            None \<Rightarrow> None
          | Some (found, iter) \<Rightarrow>
             (let ls = ls\<lparr>ls_iter := iter\<rparr> in
              if found then decode_known n env noinit wire_type ls st
              else decode_unknown n env noinit tag wire_type ls st)))"

subsection \<open>The check of required fields\<close>

fun seek_end :: "nat \<Rightarrow> pb_field_iter \<Rightarrow> (nat \<times> byte \<times> pb_field_iter) option" where
  "seek_end 0 iter = None"
| "seek_end (Suc n) iter =
     (case pb_field_iter_next iter of
        (True, iter) \<Rightarrow> seek_end n iter
      | (False, next_iter) \<Rightarrow> Some (required_field_index iter, pf_type (it_field iter), next_iter))"

definition all_required_seen :: "nat \<Rightarrow> u32 list \<Rightarrow> bool" where
  "all_required_seen count seen \<longleftrightarrow>
     (\<forall>i \<in> {..<count div 32}. seen ! i = 0xFFFFFFFF) \<and>
     (count mod 32 \<noteq> 0 \<longrightarrow> seen ! (count div 32) = drop_bit (32 - count mod 32) 0xFFFFFFFF)"

definition decode_finish :: "pb_loop_state \<Rightarrow> ('s, 'h) pb_dec" where
  "decode_finish ls st =
     (let fs = it_fields (ls_iter ls) in
      if (case fixed_count_field ls of None \<Rightarrow> False | Some i \<Rightarrow> ps_count st \<noteq> array_size (field_at fs i))
      then Some (act_error ''wrong size for fixed count field'' st)
      else
        (case seek_end (Suc (length fs)) (ls_iter ls) of
           None \<Rightarrow> None
         | Some (req_field_count, last_type, iter) \<Rightarrow>
            (let count = (if PB_HTYPE last_type = PB_HTYPE_REQUIRED \<and> pf_tag (it_field iter) \<noteq> 0
                          then req_field_count + 1 else req_field_count);
                 count = (if count > PB_MAX_REQUIRED_FIELDS then PB_MAX_REQUIRED_FIELDS else count)
             in if \<not> all_required_seen count (fields_seen ls)
                then Some (act_error ''missing required field'' st)
                else Some (True, st))))"

subsection \<open>The loop and the entry points\<close>

definition loop_begin :: "pb_field list \<Rightarrow> addr \<Rightarrow> pb_loop_state" where
  "loop_begin fs dest =
     \<lparr>ls_iter = snd (pb_field_iter_begin fs dest), fields_seen = [0, 0], extension_range_start = 0,
      fixed_count_field = None\<rparr>"

definition with_own_count :: "('s, 'h) pb_dec \<Rightarrow> ('s, 'h) pb_dec" where
  "with_own_count f st = map_option (\<lambda>(ok, st'). (ok, st'\<lparr>ps_count := ps_count st\<rparr>)) (f (st\<lparr>ps_count := 0\<rparr>))"

fun decode_loop :: "nat \<Rightarrow> ('s, 'h) pb_dec_env \<Rightarrow> pb_loop_state \<Rightarrow> ('s, 'h) pb_dec" where
  "decode_loop 0 env ls st = None"
| "decode_loop (Suc n) env ls st =
     (if bytes_left (ps_stream st) = 0 then decode_finish ls st
      else
        (case decode_turn n env (\<lambda>fs dest. with_own_count (\<lambda>st. decode_loop n env (loop_begin fs dest) st)) ls st of
           None \<Rightarrow> None
         | Some (Fail, ls, st) \<Rightarrow> Some (False, st)
         | Some (Break, ls, st) \<Rightarrow> decode_finish ls st
         | Some (Go, ls, st) \<Rightarrow> decode_loop n env ls st))"

definition pb_decode_noinit :: "nat \<Rightarrow> ('s, 'h) pb_dec_env \<Rightarrow> ('s, 'h) pb_sub" where
  "pb_decode_noinit n env fs dest = with_own_count (decode_loop n env (loop_begin fs dest))"

definition pb_decode :: "nat \<Rightarrow> ('s, 'h) pb_dec_env \<Rightarrow> ('s, 'h) pb_sub" where
  "pb_decode n env = pb_decode_with n env (pb_decode_noinit n env)"

definition pb_decode_delimited_noinit :: "nat \<Rightarrow> ('s, 'h) pb_dec_env \<Rightarrow> ('s, 'h) pb_sub" where
  "pb_decode_delimited_noinit n env fs dest =
     dec_substream (de_callback env) (pb_decode_noinit n env fs dest) (close_with (de_callback env))"

definition pb_decode_delimited :: "nat \<Rightarrow> ('s, 'h) pb_dec_env \<Rightarrow> ('s, 'h) pb_sub" where
  "pb_decode_delimited n env fs dest =
     dec_substream (de_callback env) (pb_decode n env fs dest) (close_with (de_callback env))"

definition pb_decode_nullterminated :: "nat \<Rightarrow> ('s, 'h) pb_dec_env \<Rightarrow> ('s, 'h) pb_sub" where
  "pb_decode_nullterminated = pb_decode"

end
