(* ===== verification/PbMessage.thy ===== *)
theory PbMessage
  imports PbWire PbDecLoop
begin

text \<open>Encoding and decoding together: what \<^verbatim>\<open>pb_encode.c\<close> writes for scalars, tags and messages of
  required scalar fields, \<^verbatim>\<open>pb_decode.c\<close> reads back. \<open>decoded_to\<close> describes the state after a scalar has
  been decoded, \<open>seen_upto\<close> the bits of the required fields seen so far.\<close>

subsection \<open>Decoding what was encoded: scalars\<close>

definition scalar_size :: "pb_field \<Rightarrow> nat" where
  "scalar_size f =
     (let l = unat (PB_LTYPE (pf_type f)) in
      if l = 0 then 1 else if l = 4 then 4 else if l = 5 then 8 else unat (data_size f))"

definition scalar_ok :: "mem \<Rightarrow> pb_field \<Rightarrow> addr \<Rightarrow> bool" where
  "scalar_ok m f src \<longleftrightarrow>
     (let l = unat (PB_LTYPE (pf_type f)) in
      l \<le> 5 \<and> (l = 0 \<longrightarrow> m src \<in> {0, 1}) \<and> (l \<in> {1, 2, 3} \<longrightarrow> data_size f \<in> {1, 2, 4, 8}))"

lemma scast_clamp:
  "scast (ucast (scast (x :: byte) :: u64) :: u32) = (scast x :: u64)"
  "scast (ucast (scast (y :: u16) :: u64) :: u32) = (scast y :: u64)"
  "scast (ucast (scast (z :: u32) :: u64) :: u32) = (scast z :: u64)"
  "scast (ucast (scast x :: u64) :: byte) = (scast x :: u64)"
  "scast (ucast (scast y :: u64) :: u16) = (scast y :: u64)"
  by (rule bit_word_eqI, auto simp: bit_simps min_def)+

lemma ucast_clamp:
  "ucast (ucast (ucast (x :: byte) :: u64) :: byte) = (ucast x :: u64)"
  "ucast (ucast (ucast (y :: u16) :: u64) :: u16) = (ucast y :: u64)"
  "ucast (ucast (ucast (z :: u32) :: u64) :: u32) = (ucast z :: u64)"
  by (rule bit_word_eqI, auto simp: bit_simps dest: bit_imp_le_length)+

lemma le_bytes_cast:
  "le_bytes 1 (scast (x :: byte) :: u64) = le_bytes 1 x" "le_bytes 1 (ucast x :: u64) = le_bytes 1 x"
  "le_bytes 2 (scast (y :: u16) :: u64) = le_bytes 2 y" "le_bytes 2 (ucast y :: u64) = le_bytes 2 y"
  "le_bytes 4 (scast (z :: u32) :: u64) = le_bytes 4 z" "le_bytes 4 (ucast z :: u64) = le_bytes 4 z"
  by (auto simp: le_bytes_def intro!: bit_word_eqI simp: bit_simps min_absorb2)

lemma load_le_words:
  "le_bytes 1 (le_word (load_bytes m a 1) :: byte) = load_bytes m a 1"
  "le_bytes 2 (le_word (load_bytes m a 2) :: u16) = load_bytes m a 2"
  "le_bytes 4 (le_word (load_bytes m a 4) :: u32) = load_bytes m a 4"
  "le_bytes 8 (le_word (load_bytes m a 8) :: u64) = load_bytes m a 8"
  using le_bytes_word [of "load_bytes m a 1", where 'a = 8] le_bytes_word [of "load_bytes m a 2", where 'a = 16]
    le_bytes_word [of "load_bytes m a 4", where 'a = 32] le_bytes_word [of "load_bytes m a 8", where 'a = 64]
  by simp_all

lemma clamp_load_signed:
  assumes "load_signed m a sz = Some v"
  shows "(if sz = 8 then v else scast (ucast v :: u32)) = v" "clamp_signed sz v = Some v"
    "le_bytes (unat sz) v = load_bytes m a (unat sz)"
  using assms unfolding load_signed_def clamp_signed_def
  by (auto simp: scast_clamp le_bytes_cast load_le_words simp del: One_nat_def split: if_splits)

lemma clamp_load_unsigned:
  assumes "load_unsigned m a sz = Some v"
  shows "clamp_unsigned sz v = Some v" "le_bytes (unat sz) v = load_bytes m a (unat sz)"
  using assms unfolding load_unsigned_def clamp_unsigned_def
  by (auto simp: ucast_clamp le_bytes_cast load_le_words simp del: One_nat_def split: if_splits)

lemma pb_reads_run:
  assumes "pb_reads f rd" "buffer_ok s" "rd (pb_window s) = (Some x, rest)"
  shows "\<exists>s'. f s = (Some x, s') \<and> buffer_ok s' \<and> pb_window s' = rest"
proof -
  obtain n e where "f s = (fst (rd (pb_window s)), advance n e s)" "buffer_ok (advance n e s)"
    "pb_window (advance n e s) = snd (rd (pb_window s))" by (rule pb_readsD [OF assms(1,2)])
  then show ?thesis using assms(3) by simp
qed

definition unzigzag :: "u64 \<Rightarrow> u64" where
  "unzigzag v = (if v AND 1 \<noteq> 0 then NOT (drop_bit 1 v) else drop_bit 1 v)"

lemma unzigzag_zigzag: "unzigzag (if sint v < 0 then NOT (push_bit 1 v) else push_bit 1 v) = v"
proof -
  have odd: "w AND 1 \<noteq> 0 \<longleftrightarrow> bit w 0" for w :: u64
    by (simp add: and_one_eq bit_0 odd_iff_mod_2_eq_one)
  have s: "sint v < 0 \<longleftrightarrow> bit v 63" using bit_last_iff [of v] by simp
  define w where "w = push_bit 1 v"
  have w: "bit w i \<longleftrightarrow> 1 \<le> i \<and> i < 64 \<and> bit v (i - 1)" for i
    unfolding w_def bit_push_bit_iff by auto
  have "bit v i" if "bit v 63" "63 \<le> i" "i < 64" for i
  proof -
    have "i = 63" using that by linarith
    then show ?thesis using that(1) by (simp only:)
  qed
  then have "NOT (drop_bit 1 (NOT w)) = v" if "bit v 63"
    by (intro bit_word_eqI) (use that in \<open>auto simp: bit_simps w not_less\<close>)
  moreover have "i < 63" if "bit v i" "\<not> bit v 63" for i
    using that bit_imp_le_length [of v i] by (cases "i = 63") auto
  then have "drop_bit 1 w = v" if "\<not> bit v 63"
    by (intro bit_word_eqI) (use that in \<open>auto simp: bit_simps w\<close>)
  ultimately show ?thesis unfolding w_def [symmetric] by (auto simp: unzigzag_def odd s bit_simps w)
qed

lemma pb_reads_svarint: "pb_reads (pb_decode_svarint cb) (rd_bind rd_varint (\<lambda>v c. (Some (unzigzag v), c)))"
  unfolding pb_decode_svarint_def unzigzag_def by (intro pb_reads_bind pb_reads_varint pb_reads_return)

lemma pb_reads_fixed32:
  "pb_reads (pb_decode_fixed32 cb) (rd_bind (rd_bytes 4) (\<lambda>bs c. (Some (le_word [bs ! 0, bs ! 1, bs ! 2, bs ! 3]), c)))"
  unfolding pb_decode_fixed32_eq by (intro pb_reads_bind pb_reads_read_buf pb_reads_return)

lemma pb_reads_fixed64:
  "pb_reads (pb_decode_fixed64 cb) (rd_bind (rd_bytes 8)
     (\<lambda>bs c. (Some (le_word [bs ! 0, bs ! 1, bs ! 2, bs ! 3, bs ! 4, bs ! 5, bs ! 6, bs ! 7]), c)))"
  unfolding pb_decode_fixed64_eq by (intro pb_reads_bind pb_reads_read_buf pb_reads_return)

lemma rd_svarint_bytes:
  "rd_bind rd_varint (\<lambda>v c. (Some (unzigzag v), c)) (varint_bytes (zigzag v) @ rest) = (Some v, rest)"
  unfolding unat_zigzag [symmetric] rd_bind_def rd_varint_bytes by (simp only: prod.case option.case unzigzag_zigzag)

lemma rd_fixed32_bytes:
  "rd_bind (rd_bytes 4) (\<lambda>bs c. (Some (le_word [bs ! 0, bs ! 1, bs ! 2, bs ! 3]), c)) (load_bytes m a 4 @ rest) =
     (Some (load_u32 m a), rest)"
  by (simp add: rd_bind_def rd_bytes_def load_u32_def list_4 [symmetric] del: le_word.simps One_nat_def)

lemma rd_fixed64_bytes:
  "rd_bind (rd_bytes 8) (\<lambda>bs c. (Some (le_word [bs ! 0, bs ! 1, bs ! 2, bs ! 3, bs ! 4, bs ! 5, bs ! 6, bs ! 7]), c))
     (load_bytes m a 8 @ rest) = (Some (le_word (load_bytes m a 8)), rest)"
  by (simp add: rd_bind_def rd_bytes_def list_8 [symmetric] del: le_word.simps One_nat_def)

lemma rd_bool_bytes: "rd_varint32 (varint_bytes (if x then 1 else 0) @ rest) = (Some (if x then 1 else 0), rest)"
  by (simp add: varint_bytes_small rd_varint32_def rd_bind_def rd_byte_def high_def)

text \<open>The state after a scalar has been decoded: the stream moved on, the bytes stored.\<close>

lemma act_read_run:
  assumes "pb_reads rd f" "buffer_ok (ps_stream st)" "f (pb_window (ps_stream st)) = (Some x, rest)"
  obtains s' where "act_read rd k st = k x (st\<lparr>ps_stream := s'\<rparr>)" "buffer_ok s'" "pb_window s' = rest"
proof -
  obtain s' where "rd (ps_stream st) = (Some x, s')" "buffer_ok s'" "pb_window s' = rest"
    using pb_reads_run [OF assms] by blast
  then show thesis by (intro that) (simp_all add: act_read_def)
qed

definition decoded_to :: "('s, 'h) pb_state \<Rightarrow> addr \<Rightarrow> byte list \<Rightarrow> byte list \<Rightarrow> (bool \<times> ('s, 'h) pb_state) option \<Rightarrow> bool" where
  "decoded_to st dest bs rest r \<longleftrightarrow>
     (\<exists>s'. r = Some (True, st\<lparr>ps_stream := s', ps_mem := store_bytes (ps_mem st) dest bs\<rparr>) \<and> buffer_ok s' \<and> pb_window s' = rest)"

lemma act_clamp_ok:
  "clamp (data_size f) v = Some v \<Longrightarrow> le_bytes (unat (data_size f)) v = bs \<Longrightarrow>
   act_clamp clamp f dest v st = (True, st\<lparr>ps_mem := store_bytes (ps_mem st) dest bs\<rparr>)"
  by (simp add: act_clamp_def act_then_def act_store_def)

lemma scalar_decoded:
  assumes ok: "scalar_ok m f src" and st: "buffer_ok (ps_stream st)"
    and w: "wire_value env sub f src = wire_bytes vb" "ee_mem env = m" "pb_window (ps_stream st) = vb @ rest"
  shows "decoded_to st dest (load_bytes m src (scalar_size f)) rest (PB_DECODERS n denv noinit (PB_LTYPE (pf_type f)) f dest st)"
proof -
  define l where "l = PB_LTYPE (pf_type f)"
  let ?cb = "de_callback denv"
  have l: "unat l \<le> 5" using ok by (simp add: scalar_ok_def l_def Let_def)
  have D: "decoded_to st dest bs rest (dec_pure (act_read rd k) st)"
    if "pb_reads rd g" "g (vb @ rest) = (Some x, rest)"
      "\<And>s'. k x (st\<lparr>ps_stream := s'\<rparr>) = (True, st\<lparr>ps_stream := s', ps_mem := store_bytes (ps_mem st) dest bs\<rparr>)" for rd k g x bs
    using act_read_run [OF that(1) st, of x rest k] that(2,3) w(3)
    unfolding decoded_to_def dec_pure_def by metis
  have "unat l = 0 \<or> unat l = 1 \<or> unat l = 2 \<or> unat l = 3 \<or> unat l = 4 \<or> unat l = 5" using l by linarith
  then consider "l = 0" | "l = 1" | "l = 2" | "l = 3" | "l = 4" | "l = 5" by (auto simp: scalar_eqs)
  then show ?thesis
  proof cases
    case 1
    have vb: "vb = varint_bytes (if m src \<noteq> 0 then 1 else 0)" using w 1 by (simp add: wire_value_def l_def [symmetric] wire_bytes_def)
    moreover have "load_bytes m src 1 = [if m src \<noteq> 0 then 1 else 0]" using ok 1
      by (auto simp: scalar_ok_def l_def [symmetric] load_bytes_def)
    ultimately show ?thesis unfolding PB_DECODERS_def l_def [symmetric] scalar_size_def 1 pb_dec_bool_def
      using D [OF pb_reads_varint32 rd_bool_bytes [of "m src \<noteq> 0" rest, folded vb]]
      by (simp add: Let_def act_store_def del: One_nat_def)
  next
    case 2
    then obtain v where v: "load_signed m src (data_size f) = Some v" "vb = varint_bytes (unat v)"
      using w by (auto simp: wire_value_def l_def [symmetric] wire_bytes_def wire_error_def split: option.splits)
    show ?thesis unfolding PB_DECODERS_def l_def [symmetric] scalar_size_def 2 pb_dec_varint_def
      using D [OF pb_reads_varint rd_varint_bytes [of v rest, folded v(2)]] clamp_load_signed [OF v(1)]
      by (simp add: Let_def act_clamp_ok)
  next
    case 3
    then obtain v where v: "load_unsigned m src (data_size f) = Some v" "vb = varint_bytes (unat v)"
      using w by (auto simp: wire_value_def l_def [symmetric] wire_bytes_def wire_error_def split: option.splits)
    show ?thesis unfolding PB_DECODERS_def l_def [symmetric] scalar_size_def 3 pb_dec_uvarint_def
      using D [OF pb_reads_varint rd_varint_bytes [of v rest, folded v(2)]] clamp_load_unsigned [OF v(1)]
      by (simp add: Let_def act_clamp_ok)
  next
    case 4
    then obtain v where v: "load_signed m src (data_size f) = Some v" "vb = varint_bytes (zigzag v)"
      using w by (auto simp: wire_value_def l_def [symmetric] wire_bytes_def wire_error_def split: option.splits)
    show ?thesis unfolding PB_DECODERS_def l_def [symmetric] scalar_size_def 4 pb_dec_svarint_def
      using D [OF pb_reads_svarint rd_svarint_bytes [of v rest, folded v(2)]] clamp_load_signed [OF v(1)]
      by (simp add: Let_def act_clamp_ok)
  next
    case 5
    then have "vb = load_bytes m src 4" using w by (simp add: wire_value_def l_def [symmetric] wire_bytes_def)
    then show ?thesis unfolding PB_DECODERS_def l_def [symmetric] scalar_size_def 5 pb_dec_fixed32_def
      using D [OF pb_reads_fixed32 rd_fixed32_bytes [of m src rest, folded \<open>vb = _\<close>]]
      by (simp add: Let_def act_store_def load_le_bytes)
  next
    case 6
    then have "vb = load_bytes m src 8" using w by (simp add: wire_value_def l_def [symmetric] wire_bytes_def)
    then show ?thesis unfolding PB_DECODERS_def l_def [symmetric] scalar_size_def 6 pb_dec_fixed64_def
      using D [OF pb_reads_fixed64 rd_fixed64_bytes [of m src rest, folded \<open>vb = _\<close>]]
      by (simp add: Let_def act_store_def load_le_bytes)
  qed
qed

subsection \<open>Tags\<close>

lemma leb_unique: "leb_ok as \<Longrightarrow> leb_ok bs \<Longrightarrow> as @ r = bs @ s \<Longrightarrow> as = bs \<and> r = s"
proof (induction as arbitrary: bs)
  case (Cons a as)
  then show ?case by (cases bs) (auto split: if_splits)
qed simp

lemma rd_varint32_loop_leb: "rd_varint32_loop p r c = (Some v, c') \<Longrightarrow> \<exists>bs. leb_ok bs \<and> c = bs @ c'"
proof (induction p r c rule: rd_varint32_loop.induct)
  case (2 p r b c)
  show ?case
  proof (cases "high b")
    case True
    then obtain bs where "leb_ok bs" "c = bs @ c'" using 2 by (auto simp: Let_def split: if_splits)
    then show ?thesis using True by (intro exI [of _ "b # bs"]) simp
  next
    case False
    then have "c = c'" using 2(2) by (auto simp: Let_def split: if_splits)
    then show ?thesis using False by (intro exI [of _ "[b]"]) simp
  qed
qed simp

lemma rd_varint32_leb: "rd_varint32 c = (Some v, c') \<Longrightarrow> \<exists>bs. leb_ok bs \<and> c = bs @ c'"
proof -
  assume r: "rd_varint32 c = (Some v, c')"
  then obtain b c1 where c: "c = b # c1" by (cases c) (auto simp: rd_varint32_def rd_bind_def rd_byte_def)
  show ?thesis
  proof (cases "high b")
    case True
    then obtain bs where "leb_ok bs" "c1 = bs @ c'"
      using r c rd_varint32_loop_leb by (fastforce simp: rd_varint32_def rd_bind_def rd_byte_def)
    then show ?thesis using c True by (intro exI [of _ "b # bs"]) simp
  next
    case False
    then show ?thesis using r c by (intro exI [of _ "[b]"]) (auto simp: rd_varint32_def rd_bind_def rd_byte_def)
  qed
qed

lemma rd_varint32_small:
  assumes "n < 2 ^ 32"
  shows "rd_varint32 (varint_bytes n @ rest) = (Some (word_of_nat n), rest)"
proof -
  have u: "unat (word_of_nat n :: u64) = n" using assms by (simp add: unat_of_nat)
  have "varint32_accepted (word_of_nat n)" using assms u by (simp add: varint32_accepted_def)
  then have "fst (rd_varint32 (varint_bytes n @ rest)) = Some (ucast (word_of_nat n :: u64))"
    using rd_varint32_bytes [of "word_of_nat n" rest] u by simp
  moreover have "(ucast (word_of_nat n :: u64) :: u32) = word_of_nat n" using u by (metis of_nat_unat)
  ultimately obtain c' where r: "rd_varint32 (varint_bytes n @ rest) = (Some (word_of_nat n), c')"
    by (metis prod.collapse)
  then obtain bs where "leb_ok bs" "varint_bytes n @ rest = bs @ c'" using rd_varint32_leb by blast
  then have "rest = c'" using leb_unique [OF leb_varint_bytes(1)] by blast
  then show ?thesis using r by simp
qed

lemma tag_parts:
  assumes "unat number < 2 ^ 29" "w < 8"
  shows "(word_of_nat (unat number * 8 + w) :: u32) AND 7 = word_of_nat w"
    "drop_bit 3 (word_of_nat (unat number * 8 + w) :: u32) = (number :: u32)"
    "unat number * 8 + w < 2 ^ 32"
proof -
  have lt: "unat number * 8 + w < 4294967296" using assms by simp
  then show "unat number * 8 + w < 2 ^ 32" by simp
  have u: "unat (word_of_nat (unat number * 8 + w) :: u32) = unat number * 8 + w"
    using lt by (simp add: unat_of_nat del: of_nat_add)
  have m: "(7 :: u32) = mask 3" by (simp add: mask_eq_exp_minus_1)
  have "unat ((word_of_nat (unat number * 8 + w) :: u32) AND mask 3) = w"
    using assms(2) by (simp add: take_bit_eq_mask [symmetric] unsigned_take_bit_eq u take_bit_nat_def del: of_nat_add)
  then show "(word_of_nat (unat number * 8 + w) :: u32) AND 7 = word_of_nat w"
    unfolding m by (metis of_nat_unat ucast_id)
  have "unat (drop_bit 3 (word_of_nat (unat number * 8 + w) :: u32)) = unat number"
    unfolding unat_drop_bit_eq u using assms(2) by (simp add: drop_bit_eq_div)
  then show "drop_bit 3 (word_of_nat (unat number * 8 + w) :: u32) = number" by (simp only: word_unat_eq_iff)
qed

lemma pb_decode_tag_bytes:
  assumes "buffer_ok s" "pb_window s = wire_tag w number @ rest" "unat number < 2 ^ 29" "w < 8" "number \<noteq> 0"
  shows "\<exists>e s'. pb_decode_tag cb s = (Some (word_of_nat w, number), e, s') \<and> buffer_ok s' \<and> pb_window s' = rest"
proof -
  let ?t = "unat number * 8 + w"
  obtain s' where s': "pb_decode_varint32 cb s = (Some (word_of_nat ?t), s')" "buffer_ok s'" "pb_window s' = rest"
    using pb_reads_run [OF pb_reads_varint32 assms(1), of "word_of_nat ?t" rest cb]
      rd_varint32_small [OF tag_parts(3) [OF assms(3,4)], of rest] assms(2) by (auto simp: wire_tag_def simp del: of_nat_add)
  then obtain e where e: "pb_decode_varint32_eof cb False s = (Some (word_of_nat ?t), e, s')"
    by (auto simp: pb_decode_varint32_def split: prod.splits)
  have "(word_of_nat ?t :: u32) \<noteq> 0" using tag_parts(2) [OF assms(3,4)] assms(5) by (metis drop_bit_of_0)
  then show ?thesis using s'(2,3) e tag_parts(1,2) [OF assms(3,4)]
    by (simp add: pb_decode_tag_def del: of_nat_add)
qed

subsection \<open>Seen fields\<close>

definition seen_upto :: "nat \<Rightarrow> u32 list" where
  "seen_upto k = [mask (min k 32), mask (min (k - 32) 32)]"

lemma mask_Suc_or: "mask k OR 2 ^ k = (mask (Suc k) :: 'a::len word)"
  unfolding mask_Suc_exp by (rule or.commute)

lemma mark_seen:
  assumes "PB_HTYPE (pf_type (it_field iter)) = PB_HTYPE_REQUIRED" "required_field_index iter = k"
  shows "mark_required iter (seen_upto k) = seen_upto (Suc k)"
proof -
  consider "k < 32" | "32 \<le> k" "k < 64" | "64 \<le> k" by linarith
  then show ?thesis
  proof cases
    case 1
    then show ?thesis using assms
      by (simp add: mark_required_def PB_MAX_REQUIRED_FIELDS_def seen_upto_def min_def mask_Suc_or)
  next
    case 2
    then have "k div 32 = 1" "k mod 32 = k - 32" "Suc k - 32 = Suc (k - 32)" "k - 32 \<le> 31"
      by (simp_all add: le_div_geq le_mod_geq)
    then show ?thesis using assms 2
      by (simp add: mark_required_def PB_MAX_REQUIRED_FIELDS_def seen_upto_def mask_Suc_or min_def)
  next
    case 3
    then show ?thesis using assms by (simp add: mark_required_def PB_MAX_REQUIRED_FIELDS_def seen_upto_def)
  qed
qed

lemma all_seen: "all_required_seen (min k 64) (seen_upto k)"
proof -
  have m: "(0xFFFFFFFF :: u32) = mask 32" by (simp add: mask_eq_exp_minus_1)
  have d: "drop_bit (32 - j) (mask 32) = (mask j :: u32)" if "j \<le> 32" for j
    by (rule bit_word_eqI) (use that in \<open>auto simp: bit_simps\<close>)
  consider "k < 32" | "32 \<le> k" "k < 64" | "64 \<le> k" by linarith
  then show ?thesis
  proof cases
    case 1
    then show ?thesis unfolding all_required_seen_def seen_upto_def m by (simp add: d)
  next
    case 2
    then have "k div 32 = 1" "k mod 32 = k - 32" by (simp_all add: le_div_geq le_mod_geq)
    moreover have "32 - (k - 32) = 64 - k" using 2 by simp
    then have "drop_bit (64 - k) (mask 32) = (mask (k - 32) :: u32)" using d [of "k - 32"] 2 by simp
    ultimately show ?thesis using 2 unfolding all_required_seen_def seen_upto_def m by simp
  next
    case 3
    have "{..<2 :: nat} = {0, 1}" by auto
    then show ?thesis using 3 unfolding all_required_seen_def seen_upto_def m by simp
  qed
qed

subsection \<open>Messages of required scalar fields\<close>

definition separate :: "addr \<Rightarrow> nat \<Rightarrow> addr \<Rightarrow> nat \<Rightarrow> bool" where
  "separate a n b k \<longleftrightarrow> (\<forall>x < n. k \<le> unat (a + word_of_nat x - b))"

lemma load_store_same: "n = length bs \<Longrightarrow> n < 2 ^ 64 \<Longrightarrow> load_bytes (store_bytes m a bs) a n = bs"
  by (rule nth_equalityI) (auto simp: load_bytes_def store_bytes_def unat_of_nat)

lemma load_store_separate: "separate a n b (length bs) \<Longrightarrow> load_bytes (store_bytes m b bs) a n = load_bytes m a n"
  by (auto simp: load_bytes_def store_bytes_def separate_def not_less [symmetric])

definition scalar_message :: "mem \<Rightarrow> pb_field list \<Rightarrow> addr \<Rightarrow> bool" where
  "scalar_message m fs src \<longleftrightarrow>
     (\<forall>k < field_count fs.
        (let f = field_at fs k in
         PB_ATYPE (pf_type f) = PB_ATYPE_STATIC \<and> PB_HTYPE (pf_type f) = PB_HTYPE_REQUIRED \<and> unat (pf_tag f) < 2 ^ 29 \<and>
         scalar_ok m f (field_addr fs src k) \<and> field_addr fs src k \<noteq> 0 \<and>
         (\<forall>j < field_count fs. pf_tag (field_at fs j) = pf_tag f \<longrightarrow> j = k)))"

lemma scalar_messageD:
  assumes "scalar_message m fs src" "k < field_count fs"
  shows "PB_ATYPE (pf_type (field_at fs k)) = PB_ATYPE_STATIC" "PB_HTYPE (pf_type (field_at fs k)) = PB_HTYPE_REQUIRED"
    "unat (pf_tag (field_at fs k)) < 2 ^ 29" "scalar_ok m (field_at fs k) (field_addr fs src k)" "field_addr fs src k \<noteq> 0"
  using assms unfolding scalar_message_def Let_def by blast+

lemma scalar_message_unique:
  assumes "scalar_message m fs src" "k < field_count fs" "j < field_count fs" "pf_tag (field_at fs j) = pf_tag (field_at fs k)"
  shows "j = k"
  using assms unfolding scalar_message_def Let_def by blast

lemma scalar_ok_ltype:
  "scalar_ok m f src \<Longrightarrow> unat (PB_LTYPE (pf_type f)) \<le> 5" "scalar_ok m f src \<Longrightarrow> PB_LTYPE (pf_type f) \<noteq> PB_LTYPE_EXTENSION"
  by (auto simp: scalar_ok_def Let_def)

definition value_bytes :: "'s pb_enc_env \<Rightarrow> pb_field \<Rightarrow> addr \<Rightarrow> byte list" where
  "value_bytes env f src = (case wire_value env (\<lambda>_ _. None) f src of Some (Some bs) \<Rightarrow> bs | _ \<Rightarrow> [])"

definition wire_type_of :: "pb_field \<Rightarrow> nat" where
  "wire_type_of f = (let l = unat (PB_LTYPE (pf_type f)) in if l \<le> 3 then 0 else if l = 4 then 5 else 1)"

definition field_bytes :: "'s pb_enc_env \<Rightarrow> pb_field list \<Rightarrow> addr \<Rightarrow> nat \<Rightarrow> byte list" where
  "field_bytes env fs src k =
     wire_tag (wire_type_of (field_at fs k)) (pf_tag (field_at fs k)) @ value_bytes env (field_at fs k) (field_addr fs src k)"

lemma scalar_wire_value:
  assumes "scalar_ok (ee_mem env) f src"
  shows "wire_value env sub f src = wire_bytes (value_bytes env f src)"
proof -
  define l where "l = unat (PB_LTYPE (pf_type f))"
  have l: "l \<le> 5" "l \<in> {1, 2, 3} \<Longrightarrow> data_size f \<in> {1, 2, 4, 8}"
    using assms by (auto simp: scalar_ok_def l_def Let_def)
  have s: "\<exists>v. load_signed (ee_mem env) src (data_size f) = Some v" "\<exists>v. load_unsigned (ee_mem env) src (data_size f) = Some v"
    if "l \<in> {1, 2, 3}" using l(2) [OF that] by (auto simp: load_signed_def load_unsigned_def)
  have "l = 0 \<or> l = 1 \<or> l = 2 \<or> l = 3 \<or> l = 4 \<or> l = 5" using l(1) by linarith
  then show ?thesis
    unfolding value_bytes_def wire_value_def l_def [symmetric] Let_def
    using s by (elim disjE) (auto simp: wire_bytes_def split: option.splits)
qed

lemma wire_scalar_field:
  assumes "scalar_message (ee_mem env) fs src" "k < field_count fs"
  shows "wire_field n env user sub (field_at fs k) (field_addr fs src k) = wire_bytes (field_bytes env fs src k)"
proof -
  define f where "f = field_at fs k"
  have f: "unat (PB_ATYPE (pf_type f)) = 0" "unat (PB_HTYPE (pf_type f)) = 0" "scalar_ok (ee_mem env) f (field_addr fs src k)"
    "field_addr fs src k \<noteq> 0"
    using scalar_messageD [OF assms] by (simp_all add: f_def)
  have "unat (PB_LTYPE (pf_type f)) \<le> 5" using f(3) by (rule scalar_ok_ltype)
  then have t: "wire_tag_for_field f = wire_bytes (wire_tag (wire_type_of f) (pf_tag f))"
    by (auto simp: wire_tag_for_field_def wire_type_of_def Let_def)
  show ?thesis unfolding wire_field_def f_def [symmetric] Let_def
    using f t scalar_wire_value [OF f(3)] by (simp add: wire_then_def wire_bytes_def field_bytes_def f_def)
qed

lemma wire_scalar_loop:
  assumes "scalar_message (ee_mem env) fs src"
  shows "k < field_count fs \<Longrightarrow> field_count fs - k \<le> n \<Longrightarrow>
    wire_loop n env user ext (iter_at fs src k) = wire_bytes (concat (map (field_bytes env fs src) [k..<field_count fs]))"
proof (induction n arbitrary: k)
  case (Suc n)
  have "PB_LTYPE (pf_type (field_at fs k)) \<noteq> PB_LTYPE_EXTENSION"
    using scalar_messageD(4) [OF assms Suc.prems(1)] by (rule scalar_ok_ltype)
  moreover have "wire_field n env user sub (field_at fs k) (field_addr fs src k) = wire_bytes (field_bytes env fs src k)" for sub
    by (rule wire_scalar_field [OF assms Suc.prems(1)])
  moreover have "(case pb_field_iter_next (iter_at fs src k) of
        (True, it) \<Rightarrow> wire_loop n env user ext it | (False, it) \<Rightarrow> wire_bytes []) =
      wire_bytes (concat (map (field_bytes env fs src) [Suc k..<field_count fs]))"
  proof (cases "Suc k < field_count fs")
    case True
    then show ?thesis using Suc.IH [of "Suc k"] Suc.prems by (simp add: next_iter_at)
  qed (use Suc.prems in \<open>simp add: next_iter_at\<close>)
  ultimately show ?case using Suc.prems(1)
    by (simp add: wire_then_def wire_bytes_def upt_conv_Cons Let_def)
qed simp

lemma wire_scalar_message:
  assumes "scalar_message (ee_mem env) fs src" "field_count fs \<le> n"
  shows "wire_message n env user ext fs src = wire_bytes (concat (map (field_bytes env fs src) [0..<field_count fs]))"
  using wire_scalar_loop [OF assms(1), of 0 n user ext] assms(2)
  by (cases "0 < field_count fs") (simp_all add: wire_message_def begin_iter_at)

lemma find_unique: "k \<in> set xs \<Longrightarrow> (\<And>i. i \<in> set xs \<Longrightarrow> P i \<longleftrightarrow> i = k) \<Longrightarrow> find P xs = Some k"
  by (induction xs) auto

lemma scalar_find:
  assumes "scalar_message m fs src" "k < field_count fs" "j < field_count fs"
  shows "pb_field_iter_find (iter_at fs dest j) (pf_tag (field_at fs k)) = Some (True, iter_at fs dest k)"
proof -
  let ?P = "\<lambda>f. pf_tag f = pf_tag (field_at fs k) \<and> PB_LTYPE (pf_type f) \<noteq> PB_LTYPE_EXTENSION"
  have P: "?P (field_at fs i) \<longleftrightarrow> i = k" if "i < field_count fs" for i
    using scalar_message_unique [OF assms(1,2) that] scalar_ok_ltype(2) [OF scalar_messageD(4) [OF assms(1,2)]] by blast
  have "find (\<lambda>i. ?P (field_at fs i)) ([j..<field_count fs] @ [0..<j]) = Some k"
  proof (intro find_unique)
    fix i assume "i \<in> set ([j..<field_count fs] @ [0..<j])"
    then have "i < field_count fs" using assms(3) by auto
    then show "?P (field_at fs i) \<longleftrightarrow> i = k" by (rule P)
  qed (use assms(2,3) in auto)
  then show ?thesis
    unfolding pb_field_iter_find_def iter_at_simps using iter_find_loop_all [OF assms(3), of ?P dest] by (simp add: found_iter_def)
qed

definition loop_at :: "pb_field list \<Rightarrow> addr \<Rightarrow> nat \<Rightarrow> nat \<Rightarrow> pb_loop_state" where
  "loop_at fs dest j k =
     \<lparr>ls_iter = iter_at fs dest j, fields_seen = seen_upto k, extension_range_start = 0, fixed_count_field = None\<rparr>"

lemma required_before_all:
  "(\<And>i. i < k \<Longrightarrow> PB_HTYPE (pf_type (field_at fs i)) = PB_HTYPE_REQUIRED) \<Longrightarrow> required_before fs k = k"
  by (induction k) (simp_all del: pb_types)

lemma scalar_turn:
  assumes msg: "scalar_message (ee_mem env) fs src" and k: "k < field_count fs" "j < field_count fs"
    and st: "buffer_ok (ps_stream st)" "pb_window (ps_stream st) = field_bytes env fs src k @ rest"
  shows "\<exists>s'. decode_turn n denv noinit (loop_at fs dest j k) st =
      Some (Go, loop_at fs dest k (Suc k), st\<lparr>ps_stream := s',
        ps_mem := store_bytes (ps_mem st) (field_addr fs dest k)
          (load_bytes (ee_mem env) (field_addr fs src k) (scalar_size (field_at fs k)))\<rparr>) \<and>
      buffer_ok s' \<and> pb_window s' = rest"
proof -
  define f where "f = field_at fs k"
  let ?cb = "de_callback denv"
  have f: "PB_ATYPE (pf_type f) = 0" "PB_HTYPE (pf_type f) = 0" "unat (pf_tag f) < 2 ^ 29"
    "scalar_ok (ee_mem env) f (field_addr fs src k)" "pf_tag f \<noteq> 0"
    using scalar_messageD [OF msg k(1)] field_count_tag [OF k(1)] by (simp_all add: f_def)
  have wt: "wire_type_of f < 8" by (simp add: wire_type_of_def Let_def)
  have w: "pb_window (ps_stream st) = wire_tag (wire_type_of f) (pf_tag f) @ value_bytes env f (field_addr fs src k) @ rest"
    using st(2) by (simp add: field_bytes_def f_def)
  obtain e s1 where s1: "pb_decode_tag ?cb (ps_stream st) = (Some (word_of_nat (wire_type_of f), pf_tag f), e, s1)"
    "buffer_ok s1" "pb_window s1 = value_bytes env f (field_addr fs src k) @ rest"
    using pb_decode_tag_bytes [OF st(1) w f(3) wt f(5), of ?cb] by blast
  have find: "pb_field_iter_find (iter_at fs dest j) (pf_tag f) = Some (True, iter_at fs dest k)"
    unfolding f_def by (rule scalar_find [OF msg k])
  have req: "required_before fs k = k"
    using scalar_messageD(2) [OF msg] k(1) by (intro required_before_all) simp
  have mark: "mark_required (iter_at fs dest k) (seen_upto k) = seen_upto (Suc k)"
    using f(2) req by (intro mark_seen) (simp_all add: f_def)
  have "decoded_to (st\<lparr>ps_stream := s1\<rparr>) (field_addr fs dest k)
      (load_bytes (ee_mem env) (field_addr fs src k) (scalar_size f)) rest
      (PB_DECODERS n denv noinit (PB_LTYPE (pf_type f)) f (field_addr fs dest k) (st\<lparr>ps_stream := s1\<rparr>))"
    using s1 by (intro scalar_decoded [OF f(4) _ scalar_wire_value [OF f(4)]]) simp_all
  then obtain s' where s': "PB_DECODERS n denv noinit (PB_LTYPE (pf_type f)) f (field_addr fs dest k) (st\<lparr>ps_stream := s1\<rparr>) =
      Some (True, st\<lparr>ps_stream := s', ps_mem := store_bytes (ps_mem st) (field_addr fs dest k)
        (load_bytes (ee_mem env) (field_addr fs src k) (scalar_size f))\<rparr>)" "buffer_ok s'" "pb_window s' = rest"
    by (auto simp: decoded_to_def)
  have "decode_turn n denv noinit (loop_at fs dest j k) st =
      Some (Go, loop_at fs dest k (Suc k), st\<lparr>ps_stream := s', ps_mem := store_bytes (ps_mem st) (field_addr fs dest k)
        (load_bytes (ee_mem env) (field_addr fs src k) (scalar_size f))\<rparr>)"
    using f(1,2) s'(1)
    by (simp add: decode_turn_def s1(1) loop_at_def find decode_known_def decode_field_def decode_static_field_def
        mark f_def [symmetric] go_if_def Let_def)
  then show ?thesis using s'(2,3) unfolding f_def by blast
qed

lemma scalar_finish:
  assumes msg: "scalar_message m fs src" and j: "Suc j = field_count fs"
  shows "decode_finish (loop_at fs dest j (field_count fs)) st = Some (True, st)"
proof -
  have "PB_HTYPE (pf_type (field_at fs j)) = 0" "pf_tag (field_at fs 0) \<noteq> 0"
    using scalar_messageD(2) [OF msg, of j] j field_count_tag [of 0 fs] by simp_all
  moreover have "required_before fs j = j"
    using scalar_messageD(2) [OF msg] j by (intro required_before_all) simp
  moreover have "all_required_seen PB_MAX_REQUIRED_FIELDS (seen_upto c)" if "PB_MAX_REQUIRED_FIELDS < c" for c
    using all_seen [of c] that by (simp add: PB_MAX_REQUIRED_FIELDS_def min_def)
  moreover have "all_required_seen c (seen_upto c)" if "\<not> PB_MAX_REQUIRED_FIELDS < c" for c
    using all_seen [of c] that by (simp add: PB_MAX_REQUIRED_FIELDS_def min_def)
  ultimately show ?thesis using j
    by (simp add: decode_finish_def loop_at_def next_iter_at Let_def)
qed

lemma scalar_loop:
  assumes msg: "scalar_message (ee_mem env) fs src"
    and sep: "\<And>i k. i < field_count fs \<Longrightarrow> k < field_count fs \<Longrightarrow> i \<noteq> k \<Longrightarrow>
      separate (field_addr fs dest i) (scalar_size (field_at fs i)) (field_addr fs dest k) (scalar_size (field_at fs k))"
  shows "k \<le> field_count fs \<Longrightarrow> j = k - 1 \<Longrightarrow> 0 < field_count fs \<Longrightarrow> field_count fs - k < n \<Longrightarrow> buffer_ok (ps_stream st) \<Longrightarrow>
    pb_window (ps_stream st) = concat (map (field_bytes env fs src) [k..<field_count fs]) \<Longrightarrow>
    (\<forall>i < k. load_bytes (ps_mem st) (field_addr fs dest i) (scalar_size (field_at fs i)) =
       load_bytes (ee_mem env) (field_addr fs src i) (scalar_size (field_at fs i))) \<Longrightarrow>
    \<exists>st'. decode_loop n denv (loop_at fs dest j k) st = Some (True, st') \<and>
      (\<forall>i < field_count fs. load_bytes (ps_mem st') (field_addr fs dest i) (scalar_size (field_at fs i)) =
         load_bytes (ee_mem env) (field_addr fs src i) (scalar_size (field_at fs i)))"
proof (induction n arbitrary: j k st)
  case (Suc n)
  have left: "length (pb_window (ps_stream st)) = bytes_left (ps_stream st)" by (rule length_pb_window) (rule Suc.prems(5))
  show ?case
  proof (cases "k = field_count fs")
    case True
    then have "bytes_left (ps_stream st) = 0" "Suc j = field_count fs" using Suc.prems left by simp_all
    then show ?thesis using Suc.prems(7) True scalar_finish [OF msg, of j dest st] by simp
  next
    case False
    then have k: "k < field_count fs" "j < field_count fs" using Suc.prems by simp_all
    have w: "pb_window (ps_stream st) = field_bytes env fs src k @ concat (map (field_bytes env fs src) [Suc k..<field_count fs])"
      using Suc.prems(6) k(1) by (simp add: upt_conv_Cons)
    have "field_bytes env fs src k \<noteq> []" by (simp add: field_bytes_def wire_tag_def varint_bytes.simps)
    then have "length (pb_window (ps_stream st)) \<noteq> 0" using w by simp
    then have ne: "bytes_left (ps_stream st) \<noteq> 0" unfolding left .
    define noinit where "noinit = (\<lambda>fs dest. with_own_count (\<lambda>st. decode_loop n denv (loop_begin fs dest) st))"
    define bs where "bs = load_bytes (ee_mem env) (field_addr fs src k) (scalar_size (field_at fs k))"
    obtain s' where s': "decode_turn n denv noinit (loop_at fs dest j k) st =
        Some (Go, loop_at fs dest k (Suc k), st\<lparr>ps_stream := s', ps_mem := store_bytes (ps_mem st) (field_addr fs dest k) bs\<rparr>)"
      "buffer_ok s'" "pb_window s' = concat (map (field_bytes env fs src) [Suc k..<field_count fs])"
      using scalar_turn [OF msg k Suc.prems(5) w] unfolding bs_def by blast
    let ?st = "st\<lparr>ps_stream := s', ps_mem := store_bytes (ps_mem st) (field_addr fs dest k) bs\<rparr>"
    have len: "length bs = scalar_size (field_at fs k)" "scalar_size (field_at fs k) < 2 ^ 64"
      by (simp_all add: bs_def scalar_size_def Let_def less_trans [OF unat_u32_less])
    have "load_bytes (ps_mem ?st) (field_addr fs dest i) (scalar_size (field_at fs i)) =
       load_bytes (ee_mem env) (field_addr fs src i) (scalar_size (field_at fs i))" if "i < Suc k" for i
    proof (cases "i = k")
      case True
      then show ?thesis using len load_store_same [of _ bs] by (simp add: bs_def)
    next
      case False
      then have "i < k" using that by simp
      then have "separate (field_addr fs dest i) (scalar_size (field_at fs i)) (field_addr fs dest k) (length bs)"
        unfolding len(1) using sep k(1) by simp
      then show ?thesis using Suc.prems(7) \<open>i < k\<close> by (simp add: load_store_separate)
    qed
    moreover have "field_count fs - Suc k < n" using Suc.prems(4) k(1) by simp
    ultimately obtain st' where "decode_loop n denv (loop_at fs dest k (Suc k)) ?st = Some (True, st')"
      "\<forall>i < field_count fs. load_bytes (ps_mem st') (field_addr fs dest i) (scalar_size (field_at fs i)) =
         load_bytes (ee_mem env) (field_addr fs src i) (scalar_size (field_at fs i))"
      using Suc.IH [of "Suc k" k ?st] s'(2,3) Suc.prems(3,4) k(1) by auto
    then show ?thesis using s'(1) ne by (simp add: noinit_def)
  qed
qed simp

lemma length_field_bytes:
  assumes "scalar_message (ee_mem env) fs src" "k < field_count fs"
  shows "length (field_bytes env fs src k) \<le> 20"
proof -
  define f where "f = field_at fs k"
  define l where "l = unat (PB_LTYPE (pf_type f))"
  have f: "unat (pf_tag f) < 2 ^ 29" "scalar_ok (ee_mem env) f (field_addr fs src k)"
    using scalar_messageD [OF assms] by (simp_all add: f_def)
  have v: "length (varint_bytes n) \<le> 10" if "n < 2 ^ 64" for n
    using length_varint_u64 [of "word_of_nat n"] that by (simp add: unat_of_nat)
  have "unat (pf_tag f) * 8 + wire_type_of f < 2 ^ 64"
    using f(1) by (simp add: wire_type_of_def Let_def)
  then have "length (wire_tag (wire_type_of f) (pf_tag f)) \<le> 10" unfolding wire_tag_def by (rule v)
  moreover have "length (value_bytes env f (field_addr fs src k)) \<le> 10"
  proof -
    have u: "length (varint_bytes (unat (w :: u64))) \<le> 10" "length (varint_bytes (zigzag w)) \<le> 10" for w
      unfolding unat_zigzag [symmetric] by (rule length_varint_u64)+
    have "l = 0 \<or> l = 1 \<or> l = 2 \<or> l = 3 \<or> l = 4 \<or> l = 5" using scalar_ok_ltype(1) [OF f(2)] unfolding l_def by linarith
    then show ?thesis unfolding value_bytes_def wire_value_def l_def [symmetric] Let_def
      by (elim disjE) (auto simp: wire_bytes_def wire_error_def varint_bytes_small u split: option.splits)
  qed
  ultimately show ?thesis by (simp add: field_bytes_def f_def)
qed

lemma length_scalar_message:
  assumes "scalar_message (ee_mem env) fs src" "length fs < 2 ^ 32"
  shows "length (concat (map (field_bytes env fs src) [0..<field_count fs])) < 2 ^ 63"
proof -
  have "length (concat (map (field_bytes env fs src) [0..<k])) \<le> 20 * k" if "k \<le> field_count fs" for k
    using that
  proof (induction k)
    case (Suc k)
    then show ?case using length_field_bytes [OF assms(1), of k] by simp
  qed simp
  from this [of "field_count fs"]
  have "length (concat (map (field_bytes env fs src) [0..<field_count fs])) \<le> 20 * field_count fs" by simp
  moreover have "field_count fs \<le> length fs" unfolding field_count_def by (rule length_takeWhile_le)
  ultimately show ?thesis using assms(2) by simp
qed

lemma scalar_message_encodes:
  assumes "scalar_message (ee_mem env) fs src"
  shows "k < field_count fs \<Longrightarrow> field_count fs - k \<le> n \<Longrightarrow>
    enc_spec (encode_loop n env (iter_at fs src k)) (wire_bytes (concat (map (field_bytes env fs src) [k..<field_count fs])))"
proof (induction n arbitrary: k)
  case (Suc n)
  let ?f = "field_at fs k"
  note f = scalar_messageD [OF assms Suc.prems(1)]
  have field: "enc_spec (encode_field n env enc ?f (field_addr fs src k)) (wire_bytes (field_bytes env fs src k))" for enc
  proof -
    have "enc_spec (encode_field n env enc ?f (field_addr fs src k))
        (wire_field n env (\<lambda>_ _ _. None) (\<lambda>_ _. None) ?f (field_addr fs src k))"
      by (rule enc_spec_field) (use f(1) in simp_all)
    then show ?thesis unfolding wire_scalar_field [OF assms Suc.prems(1)] .
  qed
  have "encode_one n env enc (iter_at fs src k) = encode_field n env enc ?f (field_addr fs src k)" for enc
    using scalar_ok_ltype(2) [OF f(4)] by (simp add: encode_one_def)
  with field have one: "enc_spec (encode_one n env enc (iter_at fs src k)) (wire_bytes (field_bytes env fs src k))" for enc by simp
  have rest: "enc_spec (case pb_field_iter_next (iter_at fs src k) of (True, it) \<Rightarrow> encode_loop n env it | (False, it) \<Rightarrow> enc_true)
      (wire_bytes (concat (map (field_bytes env fs src) [Suc k..<field_count fs])))"
  proof (cases "Suc k < field_count fs")
    case True
    then show ?thesis using Suc.IH [of "Suc k"] Suc.prems by (simp add: next_iter_at)
  qed (use Suc.prems in \<open>simp add: next_iter_at enc_spec_true wire_bytes_def\<close>)
  show ?case unfolding encode_loop.simps
    using enc_spec_then [OF one rest] Suc.prems(1) by (simp add: wire_then_def wire_bytes_def upt_conv_Cons)
qed simp


definition sample_dec_env :: "(unit, unit) pb_dec_env" where
  "sample_dec_env =
     \<lparr>de_callback = (\<lambda>s n. Inr (s, False)), de_realloc = (\<lambda>h m p n. (0, h, m)), de_free = (\<lambda>h m p. (h, m)),
      de_fields = (\<lambda>a. []), de_user = (\<lambda>f field p st. (False, st)), de_extension = (\<lambda>f e tag w st. (False, st))\<rparr>"

definition sample_scalars :: "pb_field list" where
  "sample_scalars =
     [\<lparr>pf_tag = 1, pf_type = 0x02, data_offset = 0, size_offset = 0, data_size = 4, array_size = 0, pf_ptr = 0\<rparr>,
      \<lparr>pf_tag = 2, pf_type = 0x03, data_offset = 0, size_offset = 0, data_size = 2, array_size = 0, pf_ptr = 0\<rparr>]"

lemma sample_scalars_count: "field_count sample_scalars = 2"
  by (simp add: field_count_def sample_scalars_def)

lemma sample_scalars_length: "length sample_scalars = 2"
  by (simp add: sample_scalars_def)

lemma sample_scalars_at:
  "field_at sample_scalars 0 = sample_scalars ! 0" "field_at sample_scalars 1 = sample_scalars ! 1"
  by (simp_all add: field_at_def sample_scalars_def)

lemma all_less_2: "(\<forall>k < 2. P k) \<longleftrightarrow> P 0 \<and> P (1 :: nat)"
  by (auto simp: less_2_cases_iff)

lemma sample_scalars_addr: "field_addr sample_scalars p 0 = p" "field_addr sample_scalars p 1 = p + 4"
  by (simp_all add: sample_scalars_def field_at_def in_union_def field_extent_def PB_HTYPE_def PB_ATYPE_def)

lemma sample_scalar_message: "scalar_message (ee_mem sample_env) sample_scalars 16"
  unfolding scalar_message_def sample_scalars_count all_less_2 sample_scalars_addr Let_def
  by (simp add: field_at_def sample_scalars_def scalar_ok_def PB_LTYPE_def PB_HTYPE_def PB_ATYPE_def)

lemma sample_scalars_size: "scalar_size (field_at sample_scalars 0) = 4" "scalar_size (field_at sample_scalars 1) = 2"
  unfolding sample_scalars_at by (simp_all add: sample_scalars_def scalar_size_def PB_LTYPE_def)

lemma sample_separate:
  assumes "i < field_count sample_scalars" "k < field_count sample_scalars" "i \<noteq> k"
  shows "separate (field_addr sample_scalars 64 i) (scalar_size (field_at sample_scalars i))
    (field_addr sample_scalars 64 k) (scalar_size (field_at sample_scalars k))"
proof -
  have four: "(\<forall>x < 4. P x) \<longleftrightarrow> P 0 \<and> P 1 \<and> P 2 \<and> P 3" for P :: "nat \<Rightarrow> bool"
  proof -
    have "x = 0 \<or> x = 1 \<or> x = 2 \<or> x = 3" if "x < 4" for x :: nat using that by auto
    then show ?thesis by fastforce
  qed
  have "separate 64 4 68 2" "separate 68 2 64 4"
    unfolding separate_def four all_less_2 by (simp_all add: unsigned_minus_1_eq_mask mask_eq_exp_minus_1)
  moreover have "i = 0 \<and> k = 1 \<or> i = 1 \<and> k = 0" using assms unfolding sample_scalars_count by auto
  ultimately show ?thesis by (elim disjE) (simp_all only: sample_scalars_addr sample_scalars_size, simp_all)
qed


end
