(* ===== verification/PbProgress.thy ===== *)
theory PbProgress
  imports PbDecLoop
begin

text \<open>How much of the stream the decoders of \<^verbatim>\<open>pb_decode.c\<close> leave unread, and which of them always
  return. \<open>stream_mono\<close> and \<open>stream_eats\<close> say that a reader gives no bytes back, and that it takes at
  least one when it succeeds; \<open>dec_ok b\<close> that a decoder returns on every stream of at most \<open>b\<close> bytes
  and gives none back. Initialising and releasing messages of static and allocated fields, nested to a
  bounded depth, return with enough fuel.\<close>

subsection \<open>Readers never give bytes back\<close>

definition stream_mono :: "('s, 'a) pb_reader \<Rightarrow> bool" where
  "stream_mono rd \<longleftrightarrow> (\<forall>s. bytes_left (snd (rd s)) \<le> bytes_left s)"

definition stream_eats :: "('s, 'a) pb_reader \<Rightarrow> bool" where
  "stream_eats rd \<longleftrightarrow> stream_mono rd \<and> (\<forall>s x s'. rd s = (Some x, s') \<longrightarrow> bytes_left s' < bytes_left s)"

named_theorems stream_intros

lemma stream_monoD: "stream_mono rd \<Longrightarrow> rd s = (r, s') \<Longrightarrow> bytes_left s' \<le> bytes_left s"
  unfolding stream_mono_def by (metis snd_conv)

lemma stream_eatsD: "stream_eats rd \<Longrightarrow> rd s = (Some x, s') \<Longrightarrow> bytes_left s' < bytes_left s"
  unfolding stream_eats_def by blast

lemma stream_eats_mono: "stream_eats rd \<Longrightarrow> stream_mono rd"
  by (simp add: stream_eats_def)

lemma set_error_left [simp]: "bytes_left (PB_SET_ERROR msg s) = bytes_left s"
  by (simp add: PB_SET_ERROR_def)

lemma mono_error [stream_intros]: "stream_mono (PB_RETURN_ERROR msg)"
  by (simp add: stream_mono_def PB_RETURN_ERROR_def)

lemma mono_return [stream_intros]: "stream_mono (pb_return x)"
  by (simp add: stream_mono_def pb_return_def)

lemma mono_bind [stream_intros]: "stream_mono f \<Longrightarrow> (\<And>x. stream_mono (g x)) \<Longrightarrow> stream_mono (pb_bind f g)"
  unfolding stream_mono_def pb_bind_def
  by (auto split: prod.splits option.splits) (metis snd_conv, metis le_trans snd_conv)

lemma eats_bind [stream_intros]: "stream_eats f \<Longrightarrow> (\<And>x. stream_mono (g x)) \<Longrightarrow> stream_eats (pb_bind f g)"
  unfolding stream_eats_def
  by (auto intro: mono_bind) (fastforce simp: pb_bind_def dest: stream_monoD split: prod.splits option.splits)

lemma call_callback_left: "call_callback cb n s = (r, s') \<Longrightarrow> bytes_left s' \<le> bytes_left s"
  by (auto simp: call_callback_def split: pb_source.splits prod.splits sum.splits if_splits)

lemma eats_readbyte [stream_intros]: "stream_eats (pb_readbyte cb)"
  unfolding stream_eats_def
  by (auto simp: stream_mono_def pb_readbyte_def PB_RETURN_ERROR_def dest!: call_callback_left split: prod.splits option.splits if_splits)

lemma mono_read_buf [stream_intros]: "stream_mono (pb_read_buf cb n)"
  by (auto simp: stream_mono_def pb_read_buf_def PB_RETURN_ERROR_def dest!: call_callback_left split: prod.splits option.splits if_splits)

lemma eats_read_buf [stream_intros]: "0 < n \<Longrightarrow> stream_eats (pb_read_buf cb n)"
  using pb_read_buf_left [of cb n] unfolding stream_eats_def by (auto intro: mono_read_buf) fastforce

lemma mono_skip_loop [stream_intros]: "stream_mono (pb_skip_loop cb n)"
proof -
  have "bytes_left (snd (pb_skip_loop cb n s)) \<le> bytes_left s" for s
  proof (induction cb n s rule: pb_skip_loop.induct)
    case (1 cb n s)
    have "bytes_left (snd (pb_bind (pb_read_buf cb n) (\<lambda>_. pb_return ()) s)) \<le> bytes_left s"
    proof -
      have "stream_mono (pb_bind (pb_read_buf cb n) (\<lambda>_. pb_return ()))" by (intro stream_intros)
      then show ?thesis by (simp add: stream_mono_def)
    qed
    moreover have "bytes_left (snd (pb_bind (pb_read_buf cb 16) (\<lambda>_. pb_skip_loop cb (n - 16)) s)) \<le> bytes_left s" if "16 < n"
    proof (cases "pb_read_buf cb 16 s")
      case (Pair r s1)
      then have "bytes_left s1 \<le> bytes_left s" using mono_read_buf stream_monoD by blast
      then show ?thesis using 1 [OF that] Pair by (auto simp: pb_bind_def split: option.splits intro: le_trans)
    qed
    ultimately show ?case by (subst pb_skip_loop.simps) simp
  qed
  then show ?thesis by (simp add: stream_mono_def)
qed

lemma mono_read_null [stream_intros]: "stream_mono (pb_read_null cb n)"
proof -
  have "stream_mono (pb_bind (pb_read_buf cb n) (\<lambda>_. pb_return ()))" by (intro stream_intros)
  then show ?thesis using mono_skip_loop [of cb n]
    unfolding stream_mono_def pb_read_null_def by (auto split: pb_source.splits)
qed

lemma mono_varint32_loop [stream_intros]: "stream_mono (varint32_loop cb p r)"
proof -
  have "bytes_left (snd (varint32_loop cb p r s)) \<le> bytes_left s" for s
  proof (induction cb p r s rule: varint32_loop.induct)
    case (1 cb p r s)
    show ?case
    proof (cases "pb_readbyte cb s")
      case (Pair x s1)
      then have left: "bytes_left s1 \<le> bytes_left s" using eats_readbyte stream_eats_mono stream_monoD by blast
      show ?thesis
      proof (cases x)
        case None
        then show ?thesis using Pair left by (subst varint32_loop.simps) simp
      next
        case (Some b)
        note IH = le_trans [OF 1 [OF Pair [symmetric] Some _ refl refl] left]
        show ?thesis unfolding varint32_loop.simps [of cb p r s] Pair Some prod.case option.case Let_def
          using IH left by (simp add: PB_RETURN_ERROR_def)
      qed
    qed
  qed
  then show ?thesis by (simp add: stream_mono_def)
qed

lemma eats_varint32_eof: "pb_decode_varint32_eof cb eof s = (x, e, s') \<Longrightarrow>
    bytes_left s' \<le> bytes_left s \<and> (x \<noteq> None \<longrightarrow> bytes_left s' < bytes_left s)"
proof (cases "pb_readbyte cb s")
  case (Pair y s1)
  assume r: "pb_decode_varint32_eof cb eof s = (x, e, s')"
  have le: "bytes_left s1 \<le> bytes_left s" using Pair eats_readbyte stream_eats_mono stream_monoD by blast
  show ?thesis
  proof (cases y)
    case None
    then show ?thesis using r Pair le by (simp add: pb_decode_varint32_eof_def)
  next
    case (Some b)
    have "bytes_left s1 < bytes_left s" by (rule stream_eatsD [OF eats_readbyte Pair [unfolded Some]])
    moreover have "bytes_left s' \<le> bytes_left s1"
    proof (cases "b AND 0x80 = 0")
      case True
      then show ?thesis using r Pair Some by (simp add: pb_decode_varint32_eof_def)
    next
      case False
      then have "s' = snd (varint32_loop cb 7 (ucast (b AND 0x7F)) s1)"
        using r Pair Some by (auto simp: pb_decode_varint32_eof_def split: prod.splits)
      then show ?thesis using mono_varint32_loop [of cb 7] by (simp add: stream_mono_def)
    qed
    ultimately show ?thesis by simp
  qed
qed

lemma eats_varint32 [stream_intros]: "stream_eats (pb_decode_varint32 cb)"
  unfolding stream_eats_def stream_mono_def
proof (intro conjI allI impI)
  show "bytes_left (snd (pb_decode_varint32 cb s)) \<le> bytes_left s" for s
    by (auto simp: pb_decode_varint32_def dest: eats_varint32_eof split: prod.splits)
  show "bytes_left s' < bytes_left s" if "pb_decode_varint32 cb s = (Some x, s')" for s x s'
    using that by (auto simp: pb_decode_varint32_def dest: eats_varint32_eof split: prod.splits)
qed

lemma eats_varint_loop: "p < 64 \<Longrightarrow> varint_loop cb p r s = (x, s') \<Longrightarrow>
    bytes_left s' \<le> bytes_left s \<and> (x \<noteq> None \<longrightarrow> bytes_left s' < bytes_left s)"
  and mono_varint_loop: "varint_loop cb p r s = (x, s') \<Longrightarrow> bytes_left s' \<le> bytes_left s"
proof -
  have M: "varint_loop cb p r s = (x, s') \<Longrightarrow> bytes_left s' \<le> bytes_left s \<and> (p < 64 \<longrightarrow> x \<noteq> None \<longrightarrow> bytes_left s' < bytes_left s)"
    for cb :: "'a pb_callback" and p r s x s'
  proof (induction cb p r s rule: varint_loop.induct)
    case (1 cb p r s)
    show ?case
    proof (cases "p < 64")
      case False
      then show ?thesis using 1(2) by (subst (asm) varint_loop.simps) (auto simp: PB_RETURN_ERROR_def)
    next
      case True
      show ?thesis
      proof (cases "pb_readbyte cb s")
        case (Pair y s1)
        then have le: "bytes_left s1 \<le> bytes_left s" using eats_readbyte stream_eats_mono stream_monoD by blast
        show ?thesis
        proof (cases y)
          case None
          then show ?thesis using 1(2) Pair le True by (subst (asm) varint_loop.simps) auto
        next
          case (Some b)
          have lt: "bytes_left s1 < bytes_left s" by (rule stream_eatsD [OF eats_readbyte Pair [unfolded Some]])
          have "\<not> 64 \<le> p" using True by simp
          note IH = 1(1) [OF this Pair [symmetric] Some refl refl]
          have r: "varint_loop cb p r s =
              (if b AND 0x80 \<noteq> 0 then varint_loop cb (p + 7) (r OR push_bit p (ucast (b AND 0x7F))) s1
               else (Some (r OR push_bit p (ucast (b AND 0x7F))), s1))"
            unfolding varint_loop.simps [of cb p r s] Pair Some prod.case option.case Let_def using True by simp
          show ?thesis
          proof (cases "b AND 0x80 = 0")
            case True
            then show ?thesis using 1(2) r lt by simp
          next
            case False
            then have "bytes_left s' \<le> bytes_left s1" using 1(2) r IH by simp
            then show ?thesis using lt by simp
          qed
        qed
      qed
    qed
  qed
  show "p < 64 \<Longrightarrow> varint_loop cb p r s = (x, s') \<Longrightarrow>
    bytes_left s' \<le> bytes_left s \<and> (x \<noteq> None \<longrightarrow> bytes_left s' < bytes_left s)" using M by blast
  show "varint_loop cb p r s = (x, s') \<Longrightarrow> bytes_left s' \<le> bytes_left s" using M by blast
qed

lemma eats_varint [stream_intros]: "stream_eats (pb_decode_varint cb)"
  unfolding stream_eats_def stream_mono_def pb_decode_varint_def
  using eats_varint_loop [of 0 cb 0] by (metis (no_types, opaque_lifting) option.distinct(1) prod.collapse zero_less_numeral)

lemma mono_skip_varint [stream_intros]: "stream_mono (pb_skip_varint cb)"
proof -
  have "bytes_left (snd (pb_skip_varint cb s)) \<le> bytes_left s" for s
  proof (induction cb s rule: pb_skip_varint.induct)
    case (1 cb s)
    show ?case
    proof (cases "pb_read_buf cb 1 s")
      case (Pair x s1)
      then have left: "bytes_left s1 \<le> bytes_left s" using mono_read_buf stream_monoD by blast
      show ?thesis
      proof (cases x)
        case None
        then show ?thesis using Pair left by (subst pb_skip_varint.simps) simp
      next
        case (Some b)
        note IH = 1 [OF Pair [symmetric] Some]
        show ?thesis using Pair left Some IH by (subst pb_skip_varint.simps) auto
      qed
    qed
  qed
  then show ?thesis by (simp add: stream_mono_def)
qed

lemma mono_skip_field [stream_intros]: "stream_mono (pb_skip_field cb w)"
  unfolding pb_skip_field_def pb_skip_string_def
  by (simp add: mono_skip_varint mono_read_null mono_error mono_bind stream_eats_mono [OF eats_varint32])

lemma eats_svarint [stream_intros]: "stream_eats (pb_decode_svarint cb)"
  unfolding pb_decode_svarint_def by (intro stream_intros)

lemma eats_fixed32 [stream_intros]: "stream_eats (pb_decode_fixed32 cb)"
  unfolding pb_decode_fixed32_def by (intro stream_intros) simp

lemma eats_fixed64 [stream_intros]: "stream_eats (pb_decode_fixed64 cb)"
  unfolding pb_decode_fixed64_def by (intro stream_intros) simp

lemma substream_left:
  assumes "pb_make_string_substream cb s = (x, s')"
  shows "bytes_left s' \<le> bytes_left s" "x = Some sub \<Longrightarrow> bytes_left sub + bytes_left s' < bytes_left s"
proof -
  have "bytes_left s' \<le> bytes_left s \<and> (x = Some sub \<longrightarrow> bytes_left sub + bytes_left s' < bytes_left s)"
  proof (cases "pb_decode_varint32 cb s")
    case (Pair y s1)
    then have le: "bytes_left s1 \<le> bytes_left s" using eats_varint32 stream_eats_mono stream_monoD by blast
    show ?thesis
    proof (cases y)
      case None
      then show ?thesis using assms Pair le by (simp add: pb_make_string_substream_def pb_bind_def)
    next
      case (Some sz)
      have "bytes_left s1 < bytes_left s" by (rule stream_eatsD [OF eats_varint32 Pair [unfolded Some]])
      then show ?thesis using assms Pair Some
        by (auto simp: pb_make_string_substream_def pb_bind_def PB_RETURN_ERROR_def split: if_splits)
    qed
  qed
  then show "bytes_left s' \<le> bytes_left s" "x = Some sub \<Longrightarrow> bytes_left sub + bytes_left s' < bytes_left s" by simp_all
qed

lemma mono_close [stream_intros]: "stream_mono (pb_close_string_substream cb sub)"
  by (auto simp: stream_mono_def pb_close_string_substream_def split: prod.splits option.splits)

subsection \<open>Messages without extensions nested to a bounded depth\<close>

text \<open>\<open>plain_message desc r fs\<close>: the fields of the message are static or allocated, none is an
  extension, and submessages are nested at most \<open>r\<close> deep.\<close>

definition plain_field :: "pb_field \<Rightarrow> bool" where
  "plain_field f \<longleftrightarrow>
     (PB_ATYPE (pf_type f) = PB_ATYPE_STATIC \<or> PB_ATYPE (pf_type f) = PB_ATYPE_POINTER) \<and>
     PB_LTYPE (pf_type f) \<le> PB_LTYPE_FIXED_LENGTH_BYTES \<and> PB_LTYPE (pf_type f) \<noteq> PB_LTYPE_EXTENSION \<and>
     (PB_ATYPE (pf_type f) = PB_ATYPE_POINTER \<longrightarrow> 0 < data_size f)"

fun plain_message :: "(addr \<Rightarrow> pb_field list) \<Rightarrow> nat \<Rightarrow> pb_field list \<Rightarrow> bool" where
  "plain_message desc 0 fs = False"
| "plain_message desc (Suc r) fs =
     (\<forall>f \<in> set fs. plain_field f \<and>
       (PB_LTYPE (pf_type f) = PB_LTYPE_SUBMESSAGE \<longrightarrow> plain_message desc r (desc (pf_ptr f))))"

lemma finite_fuel:
  assumes "finite A" "\<And>x. x \<in> A \<Longrightarrow> \<exists>N. \<forall>n \<ge> N. P x n"
  shows "\<exists>N. \<forall>n \<ge> (N :: nat). \<forall>x \<in> A. P x n"
  using assms
proof (induction A rule: finite_induct)
  case (insert a A)
  then obtain N M where "\<forall>n \<ge> N. \<forall>x \<in> A. P x n" "\<forall>n \<ge> M. P a n" by blast
  then show ?case by (intro exI [of _ "max N M"]) simp
qed simp

lemma next_fields [simp]: "it_fields (snd (pb_field_iter_next iter)) = it_fields iter"
  by (simp add: pb_field_iter_next_def pb_field_iter_begin_def Let_def)

lemma next_pos:
  assumes "pb_field_iter_next iter = (True, iter')"
  shows "it_pos iter' = Suc (it_pos iter)" "it_pos iter' < length (it_fields iter)" "it_fields iter' = it_fields iter"
proof -
  have *: "pf_tag (field_at (it_fields iter) (Suc (it_pos iter))) \<noteq> 0"
    and p: "it_pos iter' = Suc (it_pos iter)"
    using assms by (auto simp: pb_field_iter_next_def Let_def split: if_splits)
  show "it_pos iter' = Suc (it_pos iter)" by (rule p)
  show "it_pos iter' < length (it_fields iter)" using * p by (auto simp: field_at_def PB_LAST_FIELD_def split: if_splits)
  show "it_fields iter' = it_fields iter" using next_fields [of iter] assms by simp
qed

lemma begin_pos:
  assumes "pb_field_iter_begin fs dest = (ok, iter)"
  shows "it_pos iter = 0" "it_fields iter = fs" "ok \<Longrightarrow> 0 < length fs"
  using assms by (auto simp: pb_field_iter_begin_def Let_def field_at_def PB_LAST_FIELD_def split: if_splits)

subsection \<open>Defaults and release return\<close>

definition defaults_return :: "(addr \<Rightarrow> pb_field list) \<Rightarrow> nat \<Rightarrow> pb_field list \<Rightarrow> bool" where
  "defaults_return desc n fs \<longleftrightarrow> (\<forall>dest m. pb_message_set_to_defaults n desc fs dest m \<noteq> None)"

lemma field_default_returns:
  assumes "plain_field (it_field iter)" "PB_LTYPE (pf_type (it_field iter)) = PB_LTYPE_SUBMESSAGE \<Longrightarrow> defaults_return desc n (desc (pf_ptr (it_field iter)))"
  shows "pb_field_set_to_default (Suc n) desc iter m \<noteq> None"
proof -
  let ?f = "it_field iter"
  obtain ok it where b: "pb_field_iter_begin (desc (pf_ptr ?f)) (pData iter) = (ok, it)" by fastforce
  have "set_loop_to_default n desc it m' \<noteq> None" if "PB_LTYPE (pf_type ?f) = PB_LTYPE_SUBMESSAGE" ok for m'
  proof -
    have "pb_message_set_to_defaults n desc (desc (pf_ptr ?f)) (pData iter) m' \<noteq> None"
      using assms(2) [OF that(1)] unfolding defaults_return_def by blast
    then show ?thesis using that(2) by (simp add: pb_message_set_to_defaults_def b)
  qed
  then show ?thesis using assms(1) unfolding plain_field_def pb_field_set_to_default.simps Let_def b
    by (auto split: bool.splits prod.splits)
qed

lemma defaults_loop_returns:
  assumes "\<And>f. f \<in> set fs \<Longrightarrow> plain_field f"
    and "\<And>f n. f \<in> set fs \<Longrightarrow> PB_LTYPE (pf_type f) = PB_LTYPE_SUBMESSAGE \<Longrightarrow> N \<le> n \<Longrightarrow> defaults_return desc n (desc (pf_ptr f))"
    and "it_fields iter = fs" "it_pos iter < length fs" "N + 1 + (length fs - it_pos iter) \<le> n"
  shows "set_loop_to_default n desc iter m \<noteq> None"
  using assms(3-)
proof (induction n arbitrary: iter m)
  case (Suc n)
  have f: "it_field iter \<in> set fs" using Suc.prems by (simp add: field_at_def)
  obtain k where k: "n = Suc k" using Suc.prems by (cases n) simp_all
  have "pb_field_set_to_default n desc iter m \<noteq> None"
    unfolding k using Suc.prems k f by (intro field_default_returns assms) simp_all
  then obtain m' where m: "pb_field_set_to_default n desc iter m = Some m'" by blast
  show ?case
  proof (cases "pb_field_iter_next iter")
    case (Pair ok iter')
    show ?thesis
    proof (cases ok)
      case True
      then have nx: "pb_field_iter_next iter = (True, iter')" using Pair by simp
      have "set_loop_to_default n desc iter' m' \<noteq> None"
        using Suc.prems next_pos [OF nx] by (intro Suc.IH) simp_all
      then show ?thesis using m nx by simp
    next
      case False
      then show ?thesis using m Pair by simp
    qed
  qed
qed simp

lemma defaults_return_plain: "plain_message desc r fs \<Longrightarrow> \<exists>N. \<forall>n \<ge> N. defaults_return desc n fs"
proof (induction desc r fs rule: plain_message.induct)
  case (2 desc r fs)
  have "\<exists>N. \<forall>n \<ge> N. PB_LTYPE (pf_type f) = PB_LTYPE_SUBMESSAGE \<longrightarrow> defaults_return desc n (desc (pf_ptr f))" if "f \<in> set fs" for f
    using 2 that by fastforce
  then obtain N where N: "\<forall>n \<ge> N. \<forall>f \<in> set fs. PB_LTYPE (pf_type f) = PB_LTYPE_SUBMESSAGE \<longrightarrow> defaults_return desc n (desc (pf_ptr f))"
    using finite_fuel [of "set fs" "\<lambda>f n. PB_LTYPE (pf_type f) = PB_LTYPE_SUBMESSAGE \<longrightarrow> defaults_return desc n (desc (pf_ptr f))"] by blast
  have "defaults_return desc n fs" if "N + 1 + length fs \<le> n" for n
    unfolding defaults_return_def pb_message_set_to_defaults_def
  proof (intro allI)
    fix dest m
    show "(case pb_field_iter_begin fs dest of (False, iter) \<Rightarrow> Some m | (True, iter) \<Rightarrow> set_loop_to_default n desc iter m) \<noteq> None"
    proof (cases "pb_field_iter_begin fs dest")
      case (Pair ok iter)
      have "set_loop_to_default n desc iter m \<noteq> None" if ok
        using 2 N begin_pos [OF Pair] that \<open>N + 1 + length fs \<le> n\<close>
        by (intro defaults_loop_returns [where fs = fs and N = N]) auto
      then show ?thesis using Pair by (cases ok) simp_all
    qed
  qed
  then show ?case by blast
qed simp

definition release_returns :: "('s, 'h) pb_dec_env \<Rightarrow> nat \<Rightarrow> pb_field list \<Rightarrow> bool" where
  "release_returns env n fs \<longleftrightarrow> (\<forall>dest hm. pb_release n env fs dest hm \<noteq> None)"

lemma release_items_return:
  assumes "\<And>n. N \<le> n \<Longrightarrow> release_returns env n fs" "N + count \<le> n"
  shows "release_items n env fs step count p hm \<noteq> None"
  using assms(2)
proof (induction n arbitrary: count p hm)
  case (Suc n)
  show ?case
  proof (cases count)
    case c: (Suc k)
    have "pb_release n env fs p hm \<noteq> None" 
    proof -
      have "release_returns env n fs" using Suc.prems c by (intro assms(1)) simp
      then show ?thesis unfolding release_returns_def by blast
    qed
    then obtain hm' where hm: "pb_release n env fs p hm = Some hm'" by blast
    have "release_items n env fs step k (p + step) hm' \<noteq> None" using Suc.prems c by (intro Suc.IH) simp
    then show ?thesis using hm c by (simp add: pb_release_def)
  qed simp
qed simp

lemma if_not_None: "(c \<Longrightarrow> x \<noteq> None) \<Longrightarrow> (\<not> c \<Longrightarrow> y \<noteq> None) \<Longrightarrow> (if c then x else y) \<noteq> None"
  by simp

lemma case_not_None: "x \<noteq> None \<Longrightarrow> (\<And>y. f y \<noteq> None) \<Longrightarrow> (case x of None \<Rightarrow> None | Some y \<Rightarrow> f y) \<noteq> None"
  by (cases x) simp_all

lemma case_prod_not_None: "(\<And>x y. f x y \<noteq> None) \<Longrightarrow> (case p of (x, y) \<Rightarrow> f x y) \<noteq> None"
  by (cases p) simp

lemmas not_NoneI = if_not_None case_not_None case_prod_not_None option.distinct(2)

lemma field_release_returns:
  assumes "plain_field (it_field iter)"
    and "\<And>n. PB_LTYPE (pf_type (it_field iter)) = PB_LTYPE_SUBMESSAGE \<Longrightarrow> N \<le> n \<Longrightarrow> release_returns env n (de_fields env (pf_ptr (it_field iter)))"
    and n: "N + 4294967296 \<le> n"
  shows "pb_release_single_field (Suc n) env iter hm \<noteq> None"
proof -
  have items: "release_items n env (de_fields env (pf_ptr (it_field iter))) step (unat (c :: u32)) p hm \<noteq> None"
    if "PB_LTYPE (pf_type (it_field iter)) = PB_LTYPE_SUBMESSAGE" for step c p hm
  proof (rule release_items_return [where N = N])
    show "N + unat c \<le> n" by (rule le_trans [OF add_left_mono [OF less_imp_le [OF unat_u32_less]] n])
  qed (rule assms(2) [OF that])
  show ?thesis unfolding pb_release_single_field.simps release_field_def Let_def
  proof (intro not_NoneI, goal_cases)
    case 1
    then show ?case using assms(1) by (simp add: plain_field_def)
  next
    case 2
    then show ?case using items by blast
  qed
qed

lemma release_loop_returns:
  assumes "\<And>f. f \<in> set fs \<Longrightarrow> plain_field f"
    and "\<And>f n. f \<in> set fs \<Longrightarrow> PB_LTYPE (pf_type f) = PB_LTYPE_SUBMESSAGE \<Longrightarrow> N \<le> n \<Longrightarrow> release_returns env n (de_fields env (pf_ptr f))"
    and "it_fields iter = fs" "it_pos iter < length fs" "N + 4294967296 + 1 + (length fs - it_pos iter) \<le> n"
  shows "release_loop n env iter hm \<noteq> None"
  using assms(3-)
proof (induction n arbitrary: iter hm)
  case (Suc n)
  have f: "it_field iter \<in> set fs" using Suc.prems by (simp add: field_at_def)
  obtain k where k: "n = Suc k" using Suc.prems by (cases n) simp_all
  have "pb_release_single_field n env iter hm \<noteq> None"
    unfolding k
  proof (rule field_release_returns [where N = N])
    show "N + 4294967296 \<le> k" using Suc.prems k by linarith
  qed (use assms f in blast)+
  then obtain hm' where m: "pb_release_single_field n env iter hm = Some hm'" by blast
  show ?case
  proof (cases "pb_field_iter_next iter")
    case (Pair ok iter')
    show ?thesis
    proof (cases ok)
      case True
      then have nx: "pb_field_iter_next iter = (True, iter')" using Pair by simp
      have "release_loop n env iter' hm' \<noteq> None"
      proof (rule Suc.IH)
        show "N + 4294967296 + 1 + (length fs - it_pos iter') \<le> n"
          using Suc.prems next_pos [OF nx] by linarith
      qed (use Suc.prems next_pos [OF nx] in simp_all)
      then show ?thesis using m nx by simp
    next
      case False
      then show ?thesis using m Pair by simp
    qed
  qed
qed simp

lemma release_return_plain: "plain_message (de_fields env) r fs \<Longrightarrow> \<exists>N. \<forall>n \<ge> N. release_returns env n fs"
proof (induction r arbitrary: fs)
  case (Suc r)
  have "\<exists>N. \<forall>n \<ge> N. PB_LTYPE (pf_type f) = PB_LTYPE_SUBMESSAGE \<longrightarrow> release_returns env n (de_fields env (pf_ptr f))" if "f \<in> set fs" for f
    using Suc that by fastforce
  then obtain N where N: "\<forall>n \<ge> N. \<forall>f \<in> set fs. PB_LTYPE (pf_type f) = PB_LTYPE_SUBMESSAGE \<longrightarrow> release_returns env n (de_fields env (pf_ptr f))"
    using finite_fuel [of "set fs" "\<lambda>f n. PB_LTYPE (pf_type f) = PB_LTYPE_SUBMESSAGE \<longrightarrow> release_returns env n (de_fields env (pf_ptr f))"] by blast
  have "release_returns env n fs" if n: "N + 4294967296 + 1 + length fs \<le> n" for n
    unfolding release_returns_def
  proof (intro allI)
    fix dest hm
    show "pb_release n env fs dest hm \<noteq> None"
    proof (cases "pb_field_iter_begin fs dest")
      case (Pair ok iter)
      have "release_loop n env iter hm \<noteq> None" if ok
      proof (rule release_loop_returns [where fs = fs and N = N])
        show "N + 4294967296 + 1 + (length fs - it_pos iter) \<le> n" using n by linarith
      qed (use Suc.prems N begin_pos [OF Pair] that in auto)
      then show ?thesis using Pair by (cases ok) (simp_all add: pb_release_def)
    qed
  qed
  then show ?case by blast
qed simp

subsection \<open>Actions on the decoder's state\<close>

abbreviation st_left :: "('s, 'h) pb_state \<Rightarrow> nat" where
  "st_left st \<equiv> bytes_left (ps_stream st)"

definition act_mono :: "('s, 'h) pb_act \<Rightarrow> bool" where
  "act_mono f \<longleftrightarrow> (\<forall>st. st_left (snd (f st)) \<le> st_left st)"

definition act_eats :: "('s, 'h) pb_act \<Rightarrow> bool" where
  "act_eats f \<longleftrightarrow> (\<forall>st st'. f st = (True, st') \<longrightarrow> st_left st' < st_left st)"

definition dec_ok :: "nat \<Rightarrow> ('s, 'h) pb_dec \<Rightarrow> bool" where
  "dec_ok b f \<longleftrightarrow> (\<forall>st. st_left st \<le> b \<longrightarrow> (\<exists>ok st'. f st = Some (ok, st') \<and> st_left st' \<le> st_left st))"

named_theorems act_intros
named_theorems dec_intros

lemma act_monoI: "(\<And>st ok st'. f st = (ok, st') \<Longrightarrow> st_left st' \<le> st_left st) \<Longrightarrow> act_mono f"
  unfolding act_mono_def by (metis prod.collapse)

lemma act_monoD: "act_mono f \<Longrightarrow> f st = (ok, st') \<Longrightarrow> st_left st' \<le> st_left st"
  unfolding act_mono_def by (metis snd_conv)

lemma mono_true [act_intros]: "act_mono (\<lambda>st. (ok, st))"
  by (simp add: act_mono_def)

lemma mono_act_error [act_intros]: "act_mono (act_error msg)"
  by (simp add: act_mono_def act_error_def)

lemma mono_store [act_intros]: "act_mono (act_store p bs)"
  by (simp add: act_mono_def act_store_def)

lemma mono_size [act_intros]: "act_mono (act_size p bs)"
  by (simp add: act_mono_def act_size_def act_store_def split: pb_size_ptr.split)

lemma mono_then [act_intros]: "act_mono f \<Longrightarrow> act_mono g \<Longrightarrow> act_mono (act_then f g)"
  unfolding act_mono_def act_then_def
  by (auto split: prod.splits) (metis le_trans snd_conv, metis snd_conv)

lemma mono_if [act_intros]: "(c \<Longrightarrow> act_mono f) \<Longrightarrow> (\<not> c \<Longrightarrow> act_mono g) \<Longrightarrow> act_mono (if c then f else g)"
  by simp

lemma mono_state: "(\<And>x. act_mono (f x)) \<Longrightarrow> act_mono (\<lambda>st. f (h st) st)"
  by (simp add: act_mono_def)

lemma mono_act_read [act_intros]:
  assumes "stream_mono rd" "\<And>x. act_mono (k x)"
  shows "act_mono (act_read rd k :: ('s, 'h) pb_act)"
proof (rule act_monoI)
  fix st ok and st' :: "('s, 'h) pb_state" assume r: "act_read rd k st = (ok, st')"
  show "st_left st' \<le> st_left st"
  proof (cases "rd (ps_stream st)")
    case (Pair x s)
    then have "bytes_left s \<le> st_left st" using assms(1) stream_monoD by blast
    moreover have "st_left st' \<le> bytes_left s"
    proof (cases x)
      case None
      then show ?thesis using r Pair by (auto simp: act_read_def)
    next
      case (Some y)
      then have "k y (st\<lparr>ps_stream := s\<rparr>) = (ok, st')" using r Pair by (simp add: act_read_def)
      from act_monoD [OF assms(2) this] show ?thesis by simp
    qed
    ultimately show ?thesis by simp
  qed
qed

lemma eats_act_read [act_intros]:
  assumes "stream_eats rd" "\<And>x. act_mono (k x)"
  shows "act_eats (act_read rd k)"
  unfolding act_eats_def
proof (intro allI impI)
  fix st st' assume r: "act_read rd k st = (True, st')"
  then obtain x s where rd: "rd (ps_stream st) = (Some x, s)" and k: "k x (st\<lparr>ps_stream := s\<rparr>) = (True, st')"
    by (auto simp: act_read_def split: prod.splits option.splits)
  show "st_left st' < st_left st"
    using stream_eatsD [OF assms(1) rd] act_monoD [OF assms(2) k] by simp
qed

lemma mono_clamp [act_intros]: "act_mono (act_clamp clamp field dest v)"
  unfolding act_clamp_def by (auto intro!: act_intros split: option.split)

lemma scalar_decoders_eat [act_intros]:
  "act_eats (pb_dec_bool cb field dest)" "act_eats (pb_dec_varint cb field dest)" "act_eats (pb_dec_uvarint cb field dest)"
  "act_eats (pb_dec_svarint cb field dest)" "act_eats (pb_dec_fixed32 cb field dest)" "act_eats (pb_dec_fixed64 cb field dest)"
  unfolding pb_dec_bool_def pb_dec_varint_def pb_dec_uvarint_def pb_dec_svarint_def pb_dec_fixed32_def pb_dec_fixed64_def
  by (intro act_intros stream_intros)+

lemma scalar_decoders_mono [act_intros]:
  "act_mono (pb_dec_bool cb field dest)" "act_mono (pb_dec_varint cb field dest)" "act_mono (pb_dec_uvarint cb field dest)"
  "act_mono (pb_dec_svarint cb field dest)" "act_mono (pb_dec_fixed32 cb field dest)" "act_mono (pb_dec_fixed64 cb field dest)"
  unfolding pb_dec_bool_def pb_dec_varint_def pb_dec_uvarint_def pb_dec_svarint_def pb_dec_fixed32_def pb_dec_fixed64_def
  by (intro act_intros stream_eats_mono stream_intros)+

lemma mono_allocate [act_intros]: "act_mono (allocate_field pb_realloc p d a)"
  unfolding act_mono_def allocate_field_def act_error_def act_store_def
  by (simp add: Let_def split: prod.split)

lemma mono_dec_bytes [act_intros]: "act_mono (pb_dec_bytes cb pb_realloc field dest)"
  unfolding pb_dec_bytes_def Let_def
  by (intro act_intros stream_intros stream_eats_mono [OF eats_varint32] mono_state [where h = "\<lambda>st. load_ptr (ps_mem st) dest"])

lemma mono_dec_string_fill:
  "act_mono (\<lambda>st. case act_read (pb_read_buf cb n) (act_store d) st of
     (status, st) \<Rightarrow> (status, st\<lparr>ps_mem := store_bytes (ps_mem st) e [0]\<rparr>))"
proof -
  have "act_mono (act_read (pb_read_buf cb n) (act_store d) :: ('a, 'b) pb_act)" by (intro act_intros stream_intros)
  then show ?thesis by (simp add: act_mono_def split: prod.split) (metis snd_conv)
qed

lemma mono_dec_string [act_intros]: "act_mono (pb_dec_string cb pb_realloc field dest)"
  unfolding pb_dec_string_def Let_def
  by (intro act_intros stream_eats_mono [OF eats_varint32] mono_dec_string_fill mono_state [where h = "\<lambda>st. load_ptr (ps_mem st) dest"])

lemma mono_dec_fixed_length_bytes [act_intros]: "act_mono (pb_dec_fixed_length_bytes cb field dest)"
  unfolding pb_dec_fixed_length_bytes_def
  by (intro act_intros stream_intros stream_eats_mono [OF eats_varint32])

lemma mono_close_with [act_intros]: "act_mono (close_with cb status sub)"
  unfolding close_with_def by (intro act_intros stream_intros)

subsection \<open>Decoders that return\<close>

lemma dec_okI: "(\<And>st. st_left st \<le> b \<Longrightarrow> \<exists>ok st'. f st = Some (ok, st') \<and> st_left st' \<le> st_left st) \<Longrightarrow> dec_ok b f"
  by (simp add: dec_ok_def)

lemma dec_okD: "dec_ok b f \<Longrightarrow> st_left st \<le> b \<Longrightarrow> \<exists>ok st'. f st = Some (ok, st') \<and> st_left st' \<le> st_left st"
  by (simp add: dec_ok_def)

lemma dec_ok_le: "dec_ok b f \<Longrightarrow> c \<le> b \<Longrightarrow> dec_ok c f"
  by (simp add: dec_ok_def)

lemma ok_pure [dec_intros]: "act_mono f \<Longrightarrow> dec_ok b (dec_pure f)"
  unfolding dec_ok_def dec_pure_def act_mono_def by (metis prod.collapse)

lemma ok_true [dec_intros]: "dec_ok b dec_true"
  unfolding dec_ok_def dec_true_def by blast

lemma ok_then [dec_intros]:
  fixes f :: "('s, 'h) pb_dec"
  assumes "dec_ok b f" "dec_ok b g"
  shows "dec_ok b (dec_then f g)"
proof (rule dec_okI)
  fix st :: "('s, 'h) pb_state" assume "st_left st \<le> b"
  then obtain ok st1 where f: "f st = Some (ok, st1)" "st_left st1 \<le> st_left st" using dec_okD [OF assms(1)] by blast
  then have "st_left st1 \<le> b" using \<open>st_left st \<le> b\<close> by simp
  then obtain ok2 st2 where "g st1 = Some (ok2, st2)" "st_left st2 \<le> st_left st1" using dec_okD [OF assms(2)] by blast
  then show "\<exists>ok st'. dec_then f g st = Some (ok, st') \<and> st_left st' \<le> st_left st"
    using f by (cases ok) (auto simp: dec_then_def)
qed

lemma ok_if [dec_intros]: "(c \<Longrightarrow> dec_ok b f) \<Longrightarrow> (\<not> c \<Longrightarrow> dec_ok b g) \<Longrightarrow> dec_ok b (if c then f else g)"
  by simp

lemma ok_state: "(\<And>x. dec_ok b (f x)) \<Longrightarrow> dec_ok b (\<lambda>st. f (h st) st)"
  by (simp add: dec_ok_def)

lemma ok_mem [dec_intros]: "(\<And>m. f m \<noteq> None) \<Longrightarrow> dec_ok b (dec_mem f)"
  unfolding dec_ok_def dec_mem_def by fastforce

lemma ok_release [dec_intros]:
  fixes f :: "'h pb_mem \<Rightarrow> 'h pb_mem option"
  assumes "\<And>hm. f hm \<noteq> None"
  shows "dec_ok b (dec_release f :: ('s, 'h) pb_dec)"
proof (rule dec_okI)
  fix st :: "('s, 'h) pb_state"
  obtain h m where "f (ps_heap st, ps_mem st) = Some (h, m)" using assms by (metis not_None_eq prod.collapse)
  then show "\<exists>ok st'. dec_release f st = Some (ok, st') \<and> st_left st' \<le> st_left st"
    by (auto simp: dec_release_def)
qed

lemma ok_substream [dec_intros]:
  fixes body :: "('s, 'h) pb_dec"
  assumes "\<And>c. c < b \<Longrightarrow> dec_ok c body" "\<And>status sub. act_mono (finish status sub)"
  shows "dec_ok b (dec_substream cb body finish)"
proof (rule dec_okI)
  fix st :: "('s, 'h) pb_state" assume b: "st_left st \<le> b"
  show "\<exists>ok st'. dec_substream cb body finish st = Some (ok, st') \<and> st_left st' \<le> st_left st"
  proof (cases "pb_make_string_substream cb (ps_stream st)")
    case (Pair x s)
    note left = substream_left [OF Pair]
    show ?thesis
    proof (cases x)
      case None
      then show ?thesis using Pair left by (auto simp: dec_substream_def)
    next
      case (Some sub)
      have "bytes_left sub < b" using left(2) [OF Some] b by linarith
      then have "dec_ok (bytes_left sub) body" by (rule assms(1))
      then obtain ok st1 where body: "body (st\<lparr>ps_stream := sub\<rparr>) = Some (ok, st1)"
        using dec_okD [of "bytes_left sub" body "st\<lparr>ps_stream := sub\<rparr>"] by auto
      obtain ok2 st2 where fin: "finish ok (ps_stream st1) (st1\<lparr>ps_stream := s\<rparr>) = (ok2, st2)" by fastforce
      have "st_left st2 \<le> st_left st" using act_monoD [OF assms(2) fin] left(1) by simp
      then show ?thesis using Pair Some body fin by (simp add: dec_substream_def)
    qed
  qed
qed

end
