(* ===== verification/PbReturns.thy ===== *)
theory PbReturns
  imports PbProgress
begin

text \<open>Decoding always returns. From bottom to top: the decoders of values, packed arrays, fields, unions,
  one turn of the loop, and the loop, each on any stream with any callback and any allocator. What the
  fuel has to cover is the nesting of the descriptors and one unit for every byte of input.\<close>

subsection \<open>Fields return\<close>

text \<open>\<open>message_ready\<close> is what decoding a field relies on for its submessage: defaults and release
  return with the fuel at hand, and decoding returns on shorter streams.\<close>

definition message_ready :: "nat \<Rightarrow> ('s, 'h) pb_dec_env \<Rightarrow> ('s, 'h) pb_sub \<Rightarrow> nat \<Rightarrow> pb_field list \<Rightarrow> bool" where
  "message_ready n env noinit b fs \<longleftrightarrow>
     defaults_return (de_fields env) n fs \<and> release_returns env n fs \<and> (\<forall>c < b. \<forall>dest. dec_ok c (noinit fs dest))"

definition field_ready :: "nat \<Rightarrow> ('s, 'h) pb_dec_env \<Rightarrow> ('s, 'h) pb_sub \<Rightarrow> nat \<Rightarrow> pb_field \<Rightarrow> bool" where
  "field_ready n env noinit b f \<longleftrightarrow> plain_field f \<and>
     (\<forall>iter hm. it_field iter = f \<longrightarrow> pb_release_single_field n env iter hm \<noteq> None) \<and>
     (PB_LTYPE (pf_type f) = PB_LTYPE_SUBMESSAGE \<longrightarrow> message_ready n env noinit b (de_fields env (pf_ptr f)))"

lemma ok_decode_with:
  assumes "defaults_return (de_fields env) n fs" "release_returns env n fs" "dec_ok c (noinit fs dest)"
  shows "dec_ok c (pb_decode_with n env noinit fs dest)"
proof -
  have first: "dec_ok c (dec_then (dec_mem (pb_message_set_to_defaults n (de_fields env) fs dest)) (noinit fs dest))"
    using assms unfolding defaults_return_def by (intro dec_intros) simp_all
  have release: "dec_ok c (dec_release (pb_release n env fs dest) :: ('a, 'b) pb_dec)"
    using assms(2) unfolding release_returns_def by (intro dec_intros) blast
  show ?thesis
  proof (rule dec_okI)
    fix st :: "('a, 'b) pb_state" assume b: "st_left st \<le> c"
    from dec_okD [OF first b] obtain ok st1 where
      r: "dec_then (dec_mem (pb_message_set_to_defaults n (de_fields env) fs dest)) (noinit fs dest) st = Some (ok, st1)"
      and le: "st_left st1 \<le> st_left st" by blast
    show "\<exists>ok st'. pb_decode_with n env noinit fs dest st = Some (ok, st') \<and> st_left st' \<le> st_left st"
    proof (cases ok)
      case True
      then show ?thesis using r le by (auto simp: pb_decode_with_def)
    next
      case False
      have "st_left st1 \<le> c" using le b by simp
      from dec_okD [OF release this] obtain ok2 st2 where
        "dec_release (pb_release n env fs dest) st1 = Some (ok2, st2)" "st_left st2 \<le> st_left st1" by blast
      then show ?thesis using r le False by (auto simp: pb_decode_with_def)
    qed
  qed
qed

lemma ok_submessage:
  assumes "message_ready n env noinit b (de_fields env (pf_ptr field))"
  shows "dec_ok b (pb_dec_submessage n env noinit field dest)"
proof -
  have "dec_ok c (noinit (de_fields env (pf_ptr field)) dest)" "dec_ok c (pb_decode_with n env noinit (de_fields env (pf_ptr field)) dest)" if "c < b" for c
    using assms that by (auto simp: message_ready_def intro: ok_decode_with)
  then show ?thesis unfolding pb_dec_submessage_def Let_def by (intro dec_intros act_intros)
qed

lemma small_byte_cases:
  assumes "x \<le> (10 :: byte)"
  shows "x \<in> {0, 1, 2, 3, 4, 5, 6, 7, 8, 9, 10}"
proof -
  have "unat x \<le> 10" using assms by (simp add: word_le_nat_alt)
  then have "unat x = 0 \<or> unat x = 1 \<or> unat x = 2 \<or> unat x = 3 \<or> unat x = 4 \<or> unat x = 5 \<or> unat x = 6 \<or> unat x = 7 \<or>
      unat x = 8 \<or> unat x = 9 \<or> unat x = 10" by arith
  then show ?thesis by (auto simp: word_unat_eq_iff)
qed

lemma ok_decoders:
  assumes "field_ready n env noinit b f"
  shows "dec_ok b (PB_DECODERS n env noinit (PB_LTYPE (pf_type f)) f dest)"
proof -
  have "PB_LTYPE (pf_type f) \<le> 10" "PB_LTYPE (pf_type f) \<noteq> 9" using assms by (simp_all add: field_ready_def plain_field_def)
  then have "PB_LTYPE (pf_type f) \<in> {0, 1, 2, 3, 4, 5, 6, 7, 8, 10}"
    using small_byte_cases by blast
  moreover have "PB_LTYPE (pf_type f) = PB_LTYPE_SUBMESSAGE \<Longrightarrow> dec_ok b (pb_dec_submessage n env noinit f dest)"
    using assms by (intro ok_submessage) (simp add: field_ready_def)
  ultimately show ?thesis
    unfolding PB_DECODERS_def Let_def by (auto intro!: dec_intros act_intros)
qed

definition dec_eats :: "('s, 'h) pb_dec \<Rightarrow> bool" where
  "dec_eats f \<longleftrightarrow> (\<forall>st st'. f st = Some (True, st') \<longrightarrow> st_left st' < st_left st)"

lemma eats_pure: "act_eats f \<Longrightarrow> dec_eats (dec_pure f)"
  by (simp add: act_eats_def dec_eats_def dec_pure_def)

lemma packable_eats:
  assumes "ltype \<le> PB_LTYPE_LAST_PACKABLE"
  shows "dec_eats (PB_DECODERS n env noinit ltype f dest)"
proof -
  have "ltype \<in> {0, 1, 2, 3, 4, 5}"
    using assms small_byte_cases [of ltype] by (auto simp: word_le_nat_alt)
  then show ?thesis unfolding PB_DECODERS_def Let_def by (auto intro!: eats_pure act_intros)
qed

lemma act_size_left: "st_left (snd (act_size p bs st)) = st_left st"
  by (simp add: act_size_def act_store_def split: pb_size_ptr.split)

lemma static_packed_returns:
  assumes "\<And>p. dec_ok b (func p)" "\<And>p. dec_eats (func p)"
  shows "st_left st < k \<Longrightarrow> st_left st \<le> b \<Longrightarrow> \<exists>ok st'. static_packed_loop k iter func st = Some (ok, st') \<and> st_left st' \<le> st_left st"
proof (induction k arbitrary: st)
  case (Suc k)
  let ?p = "pData iter + ucast (data_size (it_field iter) * size_count (pSize iter) st)"
  show ?case
  proof (cases "st_left st > 0 \<and> size_count (pSize iter) st < array_size (it_field iter)")
    case True
    obtain ok st1 where f: "func ?p st = Some (ok, st1)" "st_left st1 \<le> st_left st"
      using dec_okD [OF assms(1) Suc.prems(2)] by blast
    show ?thesis
    proof (cases ok)
      case ok: True
      let ?st = "snd (act_size (pSize iter) (le_bytes 4 (size_count (pSize iter) st1 + 1)) st1)"
      have "st_left st1 < st_left st" using assms(2) [of ?p] f(1) ok by (simp add: dec_eats_def)
      then have "st_left ?st < k" "st_left ?st \<le> b" using Suc.prems by (simp_all add: act_size_left)
      from Suc.IH [OF this] obtain ok2 st2 where "static_packed_loop k iter func ?st = Some (ok2, st2)" "st_left st2 \<le> st_left ?st" by blast
      then show ?thesis using True f ok by (auto simp: Let_def act_size_left)
    next
      case False
      then show ?thesis using True f by (auto simp: Let_def)
    qed
  next
    case False
    then show ?thesis by (auto simp: Let_def)
  qed
qed simp

lemma ex_if:
  "(c \<Longrightarrow> \<exists>x y. f = Some (x, y) \<and> P y) \<Longrightarrow> (\<not> c \<Longrightarrow> \<exists>x y. g = Some (x, y) \<and> P y) \<Longrightarrow>
   \<exists>x y. (if c then f else g) = Some (x, y) \<and> P y"
  by simp

lemma ok_static:
  assumes "field_ready n env noinit b (it_field iter)"
  shows "dec_ok b (decode_static_field n env noinit wire_type iter)"
proof -
  let ?f = "it_field iter"
  let ?func = "PB_DECODERS n env noinit (PB_LTYPE (pf_type ?f)) ?f"
  have func: "dec_ok c (?func p)" if "c \<le> b" for c p
    using ok_decoders [OF assms] that by (rule dec_ok_le)
  have packed: "dec_ok b (dec_substream (de_callback env) (\<lambda>st. static_packed_loop (Suc (st_left st)) iter ?func st)
      (\<lambda>status substream. if bytes_left substream \<noteq> 0 then act_error ''array overflow'' else close_with (de_callback env) status substream))"
    if p: "PB_LTYPE (pf_type ?f) \<le> PB_LTYPE_LAST_PACKABLE"
  proof (intro dec_intros act_intros)
    show "dec_ok c (\<lambda>st. static_packed_loop (Suc (st_left st)) iter ?func st)" if "c < b" for c
      by (rule dec_okI, rule static_packed_returns [where b = b, OF func packable_eats [OF p]]) (use that in simp_all)
  qed
  have defaults: "PB_LTYPE (pf_type ?f) = PB_LTYPE_SUBMESSAGE \<Longrightarrow> pb_message_set_to_defaults n (de_fields env) (de_fields env (pf_ptr ?f)) dest m \<noteq> None" for dest m
    using assms unfolding field_ready_def message_ready_def defaults_return_def by blast
  show ?thesis
  proof (rule dec_okI)
    fix st :: "('a, 'b) pb_state" assume b: "st_left st \<le> b"
    define count where "count = size_count (pSize iter) st"
    show "\<exists>ok st'. decode_static_field n env noinit wire_type iter st = Some (ok, st') \<and> st_left st' \<le> st_left st"
      unfolding decode_static_field_def Let_def count_def [symmetric]
    proof (intro ex_if dec_okD [OF _ b], goal_cases)
      case 3
      then show ?case using packed by blast
    qed (intro dec_intros act_intros func packed defaults order_refl; simp)+
  qed
qed

lemma ok_initialize_pointer:
  assumes "field_ready n env noinit b f"
  shows "dec_ok c (initialize_pointer_field n env f item)"
proof -
  have "PB_LTYPE (pf_type f) = PB_LTYPE_SUBMESSAGE \<Longrightarrow> pb_message_set_to_defaults n (de_fields env) (de_fields env (pf_ptr f)) dest m \<noteq> None" for dest m
    using assms unfolding field_ready_def message_ready_def defaults_return_def by blast
  then show ?thesis unfolding initialize_pointer_field_def Let_def by (intro dec_intros act_intros)
qed

lemma pointer_packed_returns:
  assumes "\<And>p. dec_ok b (func p)" "\<And>p. dec_eats (func p)" "\<And>p. dec_ok b (initialize_pointer_field n env (it_field iter) p)"
    "0 < data_size (it_field iter)"
  shows "st_left st < k \<Longrightarrow> st_left st \<le> b \<Longrightarrow>
    \<exists>ok too_many st'. pointer_packed_loop k n env iter func a st = Some (ok, too_many, st')"
proof (induction k arbitrary: st a)
  case (Suc k)
  let ?f = "it_field iter"
  let ?count = "size_count (pSize iter) st"
  show ?case
  proof (cases "st_left st = 0 \<or> ?count = PB_SIZE_MAX")
    case True
    then show ?thesis by (auto simp: Let_def)
  next
    case False
    define grow where "grow \<longleftrightarrow> ucast ?count + 1 > a"
    define remain where "remain = word_of_nat (st_left st - 1) div ucast (data_size ?f) + (1 :: u64)"
    define a' where "a' = (if \<not> grow then a else if remain < ucast PB_SIZE_MAX - a then a + remain else a + 1)"
    obtain ok1 st1 where al: "(if grow then allocate_field (de_realloc env) (pData iter) (ucast (data_size ?f)) a' st else (True, st)) = (ok1, st1)"
      by fastforce
    have "act_mono (if grow then allocate_field (de_realloc env) (pData iter) (ucast (data_size ?f)) a' else (\<lambda>st. (True, st)))"
      by (intro act_intros)
    then have left1: "st_left st1 \<le> st_left st" using al by (auto dest: act_monoD split: if_splits)
    define item where "item = load_ptr (ps_mem st1) (pData iter) + ucast (data_size ?f * ?count)"
    have "dec_ok b (dec_then (initialize_pointer_field n env ?f item) (func item))" using assms by (intro dec_intros)
    moreover have "st_left st1 \<le> b" using left1 Suc.prems by simp
    ultimately obtain ok2 st2 where body: "dec_then (initialize_pointer_field n env ?f item) (func item) st1 = Some (ok2, st2)"
      using dec_okD by blast
    have step: "pointer_packed_loop (Suc k) n env iter func a st =
        (if \<not> ok1 then Some (False, False, st1)
         else if \<not> ok2 then Some (False, False, st2)
         else pointer_packed_loop k n env iter func a'
           (snd (act_size (pSize iter) (le_bytes 4 (size_count (pSize iter) st2 + 1)) st2)))"
      using False assms(4) unfolding word_gt_0
      unfolding pointer_packed_loop.simps Let_def grow_def [symmetric] remain_def [symmetric] a'_def [symmetric]
      by (cases ok1; cases ok2) (simp_all add: al item_def [symmetric] body split del: if_split)
    show ?thesis
    proof (cases "ok1 \<and> ok2")
      case True
      have "st_left st2 < st_left st1"
      proof -
        obtain st3 where i: "initialize_pointer_field n env ?f item st1 = Some (True, st3)" "func item st3 = Some (True, st2)"
          using body True by (auto simp: dec_then_def split: option.splits prod.splits if_splits)
        have "st_left st3 \<le> st_left st1" using dec_okD [OF assms(3) \<open>st_left st1 \<le> b\<close>, of item] i by auto
        then show ?thesis using assms(2) i(2) by (fastforce simp: dec_eats_def)
      qed
      then show ?thesis unfolding step using True Suc.prems left1 by (simp add: act_size_left Suc.IH)
    next
      case False
      then show ?thesis unfolding step by auto
    qed
  qed
qed simp

lemma ok_pointer:
  assumes "field_ready n env noinit b (it_field iter)" and ptr: "PB_ATYPE (pf_type (it_field iter)) = PB_ATYPE_POINTER"
  shows "dec_ok b (decode_pointer_field n env noinit wire_type iter)"
proof -
  let ?f = "it_field iter"
  let ?func = "PB_DECODERS n env noinit (PB_LTYPE (pf_type ?f)) ?f"
  have func: "dec_ok b (?func p)" for p by (rule ok_decoders [OF assms(1)])
  have init: "dec_ok b (initialize_pointer_field n env ?f p)" for p by (rule ok_initialize_pointer [OF assms(1)])
  have release: "pb_release_single_field n env iter hm \<noteq> None" for hm
    using assms unfolding field_ready_def by blast
  have d: "0 < data_size ?f" using assms ptr by (simp add: field_ready_def plain_field_def)
  have one: "dec_ok b (\<lambda>st. let item = load_ptr (ps_mem st) (pData iter) in
      dec_then (initialize_pointer_field n env ?f item) (\<lambda>st. ?func (load_ptr (ps_mem st) (pData iter)) st) st)"
  proof -
    have inner: "dec_ok b (\<lambda>st. ?func (load_ptr (ps_mem st) (pData iter)) st)"
      by (rule ok_state [where h = "\<lambda>st. load_ptr (ps_mem st) (pData iter)" and f = ?func]) (rule func)
    show ?thesis unfolding Let_def
      by (rule ok_state [where h = "\<lambda>st. load_ptr (ps_mem st) (pData iter)" and
            f = "\<lambda>p. dec_then (initialize_pointer_field n env ?f p) (\<lambda>st. ?func (load_ptr (ps_mem st) (pData iter)) st)"])
         (rule ok_then [OF init inner])
  qed
  have item: "dec_ok b (\<lambda>st. let count = size_count (pSize iter) st; item = load_ptr (ps_mem st) (pData iter) + ucast (data_size ?f * count) in
      dec_then (dec_pure (act_size (pSize iter) (le_bytes 4 (count + 1)))) (dec_then (initialize_pointer_field n env ?f item) (?func item)) st)"
    unfolding Let_def
    by (rule ok_state [where h = "\<lambda>st. (size_count (pSize iter) st, load_ptr (ps_mem st) (pData iter))" and
        f = "\<lambda>(c, p). dec_then (dec_pure (act_size (pSize iter) (le_bytes 4 (c + 1))))
          (dec_then (initialize_pointer_field n env ?f (p + ucast (data_size ?f * c))) (?func (p + ucast (data_size ?f * c))))", simplified prod.case])
       (auto intro!: dec_intros act_intros init func)
  show ?thesis
  proof (rule dec_okI)
    fix st :: "('a, 'b) pb_state" assume b: "st_left st \<le> b"
    define count where "count = size_count (pSize iter) st"
    define p where "p = load_ptr (ps_mem st) (pData iter)"
    show "\<exists>ok st'. decode_pointer_field n env noinit wire_type iter st = Some (ok, st') \<and> st_left st' \<le> st_left st"
      unfolding decode_pointer_field_def Let_def count_def [symmetric] p_def [symmetric]
    proof (intro ex_if, goal_cases)
      case 1
      show ?case by (intro dec_okD [OF _ b] dec_intros act_intros func release one [unfolded Let_def])
    next
      case 2
      show ?case
      proof (cases "pb_make_string_substream (de_callback env) (ps_stream st)")
        case (Pair x s)
        note left = substream_left [OF Pair]
        show ?thesis
        proof (cases x)
          case None
          then show ?thesis using Pair left by auto
        next
          case (Some sub)
          have "\<exists>ok too_many st1. pointer_packed_loop (Suc (bytes_left sub)) n env iter ?func (ucast count) (st\<lparr>ps_stream := sub\<rparr>) = Some (ok, too_many, st1)"
            using left(2) [OF Some] b 2 by (intro pointer_packed_returns [where b = b] func packable_eats init d) auto
          then obtain ok too_many st1 where r:
            "pointer_packed_loop (Suc (bytes_left sub)) n env iter ?func (ucast count) (st\<lparr>ps_stream := sub\<rparr>) = Some (ok, too_many, st1)" by blast
          define s1 where "s1 = (if too_many then s\<lparr>is_errmsg := Some ''too many array entries''\<rparr> else s)"
          obtain ok2 st2 where c: "close_with (de_callback env) ok (ps_stream st1) (st1\<lparr>ps_stream := s1\<rparr>) = (ok2, st2)" by fastforce
          have "st_left st2 \<le> bytes_left s1" using act_monoD [OF mono_close_with c] by simp
          moreover have "bytes_left s1 = bytes_left s" by (simp add: s1_def)
          ultimately have "st_left st2 \<le> st_left st" using left(1) by simp
          then show ?thesis using Pair Some r c by (simp add: s1_def)
        qed
      qed
    next
      case 3
      then show ?case by (auto simp: act_error_def)
    next
      case 4
      show ?case by (intro dec_okD [OF _ b] dec_intros act_intros item [unfolded Let_def])
    qed
  qed
qed

subsection \<open>The iterator stays in the message\<close>

definition iter_ok :: "pb_field list \<Rightarrow> pb_field_iter \<Rightarrow> bool" where
  "iter_ok fs iter \<longleftrightarrow> it_fields iter = fs \<and> (it_pos iter < field_count fs \<or> field_count fs = 0 \<and> it_pos iter = 0)"

definition same_pos :: "pb_field_iter \<Rightarrow> pb_field_iter \<Rightarrow> bool" where
  "same_pos a b \<longleftrightarrow> it_fields a = it_fields b \<and> it_pos a = it_pos b"

lemma same_pos_next:
  "same_pos a b \<Longrightarrow> fst (pb_field_iter_next a) = fst (pb_field_iter_next b) \<and> same_pos (snd (pb_field_iter_next a)) (snd (pb_field_iter_next b))"
  by (simp add: same_pos_def pb_field_iter_next_def pb_field_iter_begin_def Let_def)

lemma same_pos_find:
  "same_pos a b \<Longrightarrow> rel_option (\<lambda>(x, i) (y, j). x = y \<and> same_pos i j) (iter_find_loop n P start a) (iter_find_loop n P start b)"
proof (induction n arbitrary: a b)
  case (Suc n)
  have nx: "same_pos (snd (pb_field_iter_next a)) (snd (pb_field_iter_next b))" using same_pos_next [OF Suc.prems] by simp
  show ?case using Suc.prems nx Suc.IH [OF nx] by (auto simp: Let_def same_pos_def)
qed simp

lemma iter_ok_field: "iter_ok fs iter \<Longrightarrow> it_field iter \<in> insert PB_LAST_FIELD (set fs)"
  by (auto simp: iter_ok_def field_at_def)

lemma iter_ok_find:
  assumes "iter_ok fs iter"
  shows "\<exists>found iter'. iter_find_loop (Suc (length fs)) P (it_pos iter) iter = Some (found, iter') \<and> iter_ok fs iter' \<and> (found \<longrightarrow> P (it_field iter'))"
proof (cases "field_count fs = 0")
  case True
  then have k: "it_pos iter = 0" "it_fields iter = fs" using assms by (simp_all add: iter_ok_def)
  have "pf_tag (it_field iter) = 0" using field_count_end [of fs] True k by simp
  then have "snd (pb_field_iter_next iter) = iter" by (simp add: pb_field_iter_next_def Let_def)
  then have "iter_find_loop (Suc (length fs)) P (it_pos iter) iter = Some (P (it_field iter), iter)" by (simp add: Let_def)
  then show ?thesis using assms by (intro exI [of _ "P (it_field iter)"] exI [of _ iter]) simp
next
  case False
  let ?k = "it_pos iter"
  let ?r = "find (\<lambda>j. P (field_at fs j)) ([?k..<field_count fs] @ [0..<?k])"
  have k: "?k < field_count fs" "it_fields iter = fs" using assms False by (simp_all add: iter_ok_def)
  have "same_pos iter (iter_at fs 0 ?k)" using k by (simp add: same_pos_def)
  from same_pos_find [OF this, of "Suc (length fs)" P ?k]
  have rel: "rel_option (\<lambda>(x, i) (y, j). x = y \<and> same_pos i j) (iter_find_loop (Suc (length fs)) P ?k iter) (Some (found_iter fs 0 ?k ?r))"
    unfolding iter_find_loop_all [OF k(1)] .
  obtain y j where y: "found_iter fs 0 ?k ?r = (y, j)" by fastforce
  from rel obtain x i where "iter_find_loop (Suc (length fs)) P ?k iter = Some (x, i)" "x = y" "same_pos i j"
    unfolding y by (cases "iter_find_loop (Suc (length fs)) P ?k iter") (auto simp del: iter_find_loop.simps)
  then have r: "iter_find_loop (Suc (length fs)) P ?k iter = Some (x, i)" "x = fst (found_iter fs 0 ?k ?r)" "same_pos i (snd (found_iter fs 0 ?k ?r))"
    unfolding y by simp_all
  show ?thesis
  proof (cases ?r)
    case None
    then show ?thesis using r k by (auto simp: found_iter_def same_pos_def iter_ok_def simp del: iter_find_loop.simps)
  next
    case (Some j)
    then have "P (field_at fs j)" "j \<in> set ([?k..<field_count fs] @ [0..<?k])"
      unfolding find_Some_iff by (auto simp del: set_append set_upt)
    then have "P (field_at fs j)" "j < field_count fs" using k(1) by auto
    then show ?thesis using r Some by (auto simp: found_iter_def same_pos_def iter_ok_def simp del: iter_find_loop.simps)
  qed
qed

lemma iter_ok_next: "iter_ok fs iter \<Longrightarrow> iter_ok fs (snd (pb_field_iter_next iter))"
proof -
  assume ok: "iter_ok fs iter"
  show ?thesis
  proof (cases "field_count fs = 0")
    case True
    then have "pf_tag (it_field iter) = 0" using field_count_end [of fs] ok by (simp add: iter_ok_def)
    then show ?thesis using ok by (simp add: pb_field_iter_next_def Let_def)
  next
    case False
    then have k: "it_pos iter < field_count fs" "same_pos iter (iter_at fs 0 (it_pos iter))" using ok by (simp_all add: iter_ok_def same_pos_def)
    have "same_pos (snd (pb_field_iter_next iter)) (snd (pb_field_iter_next (iter_at fs 0 (it_pos iter))))"
      using same_pos_next [OF k(2)] by simp
    then show ?thesis using k(1) by (auto simp: next_iter_at same_pos_def iter_ok_def split: if_splits)
  qed
qed

lemma seek_end_returns:
  "iter_ok fs iter \<Longrightarrow> length fs - it_pos iter < n \<Longrightarrow> seek_end n iter \<noteq> None"
proof (induction n arbitrary: iter)
  case (Suc n)
  show ?case
  proof (cases "pb_field_iter_next iter")
    case (Pair ok iter')
    show ?thesis
    proof (cases ok)
      case True
      then have nx: "pb_field_iter_next iter = (True, iter')" using Pair by simp
      have "iter_ok fs iter'" using iter_ok_next [OF Suc.prems(1)] nx by simp
      moreover have "it_fields iter = fs" using Suc.prems by (simp add: iter_ok_def)
      ultimately have "seek_end n iter' \<noteq> None" using Suc.prems next_pos [OF nx] by (intro Suc.IH) simp_all
      then show ?thesis using nx by simp
    qed (use Pair in simp)
  qed
qed simp

subsection \<open>Every turn of the loop, and the loop, return\<close>

abbreviation all_ready :: "nat \<Rightarrow> ('s, 'h) pb_dec_env \<Rightarrow> ('s, 'h) pb_sub \<Rightarrow> nat \<Rightarrow> pb_field list \<Rightarrow> bool" where
  "all_ready n env noinit b fs \<equiv> \<forall>f \<in> insert PB_LAST_FIELD (set fs). field_ready n env noinit b f"

lemma find_iter_ok:
  assumes "iter_ok fs iter"
  shows "\<exists>found iter'. pb_field_iter_find iter tag = Some (found, iter') \<and> iter_ok fs iter'"
  using iter_ok_find [OF assms] assms unfolding pb_field_iter_find_def iter_ok_def by blast

lemma union_returns:
  assumes "all_ready n env noinit b fs" "iter_ok fs iter"
  shows "\<exists>ok iter' st'. pb_release_union_field n env iter st = Some (ok, iter', st') \<and> iter_ok fs iter' \<and> st_left st' = st_left st"
proof -
  let ?old = "size_count (pSize iter) st" and ?new = "pf_tag (it_field iter)"
  obtain found iter1 where f1: "pb_field_iter_find iter ?old = Some (found, iter1)" "iter_ok fs iter1"
    using find_iter_ok [OF assms(2)] by blast
  obtain found2 iter2 where f2: "pb_field_iter_find iter1 ?new = Some (found2, iter2)" "iter_ok fs iter2"
    using find_iter_ok [OF f1(2)] by blast
  have "pb_release_single_field n env iter1 hm \<noteq> None" for hm
    using assms(1) iter_ok_field [OF f1(2)] unfolding field_ready_def by blast
  then obtain h m where "pb_release_single_field n env iter1 (ps_heap st, ps_mem st) = Some (h, m)"
    by (metis not_None_eq prod.collapse)
  then have "dec_release (pb_release_single_field n env iter1) st = Some (True, st\<lparr>ps_heap := h, ps_mem := m\<rparr>)"
    by (simp add: dec_release_def)
  then show ?thesis using f1 f2 assms(2)
    unfolding pb_release_union_field_def Let_def by (cases found; cases found2) (auto simp: act_error_def)
qed

lemma field_returns:
  assumes "all_ready n env noinit b fs" "iter_ok fs iter" "st_left st \<le> b"
  shows "\<exists>ok iter' st'. decode_field n env noinit wire_type iter st = Some (ok, iter', st') \<and> iter_ok fs iter' \<and> st_left st' \<le> st_left st"
proof -
  have "\<exists>ok iter' st'. (if PB_HTYPE (pf_type (it_field iter)) = PB_HTYPE_ONEOF then pb_release_union_field n env iter st
      else Some (True, iter, st)) = Some (ok, iter', st') \<and> iter_ok fs iter' \<and> st_left st' = st_left st"
    using union_returns [OF assms(1,2), of st] assms(2) by (cases "PB_HTYPE (pf_type (it_field iter)) = PB_HTYPE_ONEOF") auto
  then obtain ok1 iter1 st1 where u: "(if PB_HTYPE (pf_type (it_field iter)) = PB_HTYPE_ONEOF then pb_release_union_field n env iter st
      else Some (True, iter, st)) = Some (ok1, iter1, st1)" and i: "iter_ok fs iter1" and l: "st_left st1 = st_left st" by blast
  have r: "field_ready n env noinit b (it_field iter1)" using assms(1) iter_ok_field [OF i] by blast
  then have plain: "plain_field (it_field iter1)" by (simp add: field_ready_def)
  have b: "st_left st1 \<le> b" using l assms(3) by simp
  have "\<exists>ok st'. (if PB_ATYPE (pf_type (it_field iter1)) = PB_ATYPE_STATIC then decode_static_field n env noinit wire_type iter1 st1
      else if PB_ATYPE (pf_type (it_field iter1)) = PB_ATYPE_POINTER then decode_pointer_field n env noinit wire_type iter1 st1
      else if PB_ATYPE (pf_type (it_field iter1)) = PB_ATYPE_CALLBACK then decode_callback_field n env wire_type iter1 st1
      else Some (act_error ''invalid field type'' st1)) = Some (ok, st') \<and> st_left st' \<le> st_left st1"
  proof (cases "PB_ATYPE (pf_type (it_field iter1)) = PB_ATYPE_STATIC")
    case True
    then show ?thesis using dec_okD [OF ok_static [OF r] b] by simp
  next
    case False
    then have "PB_ATYPE (pf_type (it_field iter1)) = PB_ATYPE_POINTER" using plain by (simp add: plain_field_def)
    then show ?thesis using False dec_okD [OF ok_pointer [OF r] b] by simp
  qed
  then obtain ok2 st2 where d: "(if PB_ATYPE (pf_type (it_field iter1)) = PB_ATYPE_STATIC then decode_static_field n env noinit wire_type iter1 st1
      else if PB_ATYPE (pf_type (it_field iter1)) = PB_ATYPE_POINTER then decode_pointer_field n env noinit wire_type iter1 st1
      else if PB_ATYPE (pf_type (it_field iter1)) = PB_ATYPE_CALLBACK then decode_callback_field n env wire_type iter1 st1
      else Some (act_error ''invalid field type'' st1)) = Some (ok2, st2)" "st_left st2 \<le> st_left st1" by blast
  have "decode_field n env noinit wire_type iter st = (if ok1 then Some (ok2, iter1, st2) else Some (False, iter1, st1))"
    unfolding decode_field_def u Let_def option.case prod.case d(1) by (cases ok1) (simp_all only: bool.case option.map prod.case d(1) if_True if_False simp_thms)
  then show ?thesis using i l d(2) by (cases ok1) auto
qed

lemma known_returns:
  assumes "all_ready n env noinit b fs" "iter_ok fs (ls_iter ls)" "st_left st \<le> b"
  shows "\<exists>step ls' st'. decode_known n env noinit wire_type ls st = Some (step, ls', st') \<and> iter_ok fs (ls_iter ls') \<and> st_left st' \<le> st_left st"
proof -
  define iter where "iter = ls_iter ls"
  define fixed where "fixed \<longleftrightarrow> PB_HTYPE (pf_type (it_field iter)) = PB_HTYPE_REPEATED \<and> pSize iter = Size_at (pData iter)"
  define fresh where "fresh \<longleftrightarrow> fixed \<and> fixed_count_field ls \<noteq> Some (it_pos iter)"
  define iter' where "iter' = (if fixed then iter\<lparr>pSize := Local_count\<rparr> else iter)"
  define st' where "st' = (if fresh then st\<lparr>ps_count := 0\<rparr> else st)"
  have "iter_ok fs iter'" "st_left st' = st_left st" using assms(2) by (simp_all add: iter'_def iter_def st'_def iter_ok_def)
  then obtain ok iter2 st2 where r: "decode_field n env noinit wire_type iter' st' = Some (ok, iter2, st2)" "iter_ok fs iter2" "st_left st2 \<le> st_left st"
    using field_returns [OF assms(1), of iter' st' wire_type] assms(3) by auto
  show ?thesis unfolding decode_known_def Let_def iter_def [symmetric] fixed_def [symmetric] fresh_def [symmetric] iter'_def [symmetric] st'_def [symmetric] r(1)
    using r(2,3) assms(2) by (simp add: act_error_def)
qed

lemma unknown_returns:
  assumes "all_ready n env noinit b fs" "iter_ok fs (ls_iter ls)" "tag < 0xFFFFFFFF"
  shows "\<exists>step ls' st'. decode_unknown n env noinit tag wire_type ls st = Some (step, ls', st') \<and> iter_ok fs (ls_iter ls') \<and> st_left st' \<le> st_left st"
proof -
  obtain ok st1 where s: "act_read (pb_skip_field (de_callback env) wire_type) (\<lambda>_ st. (True, st)) st = (ok, st1)" by fastforce
  have "act_mono (act_read (pb_skip_field (de_callback env) wire_type) (\<lambda>_ st. (True, st)) :: ('a, 'b) pb_act)"
    by (intro act_intros stream_intros)
  then have left: "st_left st1 \<le> st_left st" using s by (rule act_monoD)
  have "it_fields (ls_iter ls) = fs" using assms(2) by (simp add: iter_ok_def)
  then obtain found iter where f: "find_extension_field (ls_iter ls) = Some (found, iter)" "iter_ok fs iter"
      "found \<Longrightarrow> PB_LTYPE (pf_type (it_field iter)) = PB_LTYPE_EXTENSION"
    using iter_ok_find [OF assms(2), of "\<lambda>f. PB_LTYPE (pf_type f) = PB_LTYPE_EXTENSION"] unfolding find_extension_field_def by blast
  have "PB_LTYPE (pf_type (it_field iter)) \<noteq> PB_LTYPE_EXTENSION"
    using assms(1) iter_ok_field [OF f(2)] unfolding field_ready_def plain_field_def by blast
  then have found: "\<not> found" using f(3) by blast
  have "\<not> tag \<ge> 0xFFFFFFFF" using assms(3) by simp
  then show ?thesis using found f(1,2) s left assms(2) unfolding decode_unknown_def Let_def by simp
qed

lemma turn_returns:
  assumes "all_ready n env noinit b fs" "iter_ok fs (ls_iter ls)" "st_left st \<le> Suc b"
  shows "\<exists>step ls' st'. decode_turn n env noinit ls st = Some (step, ls', st') \<and> iter_ok fs (ls_iter ls') \<and>
    st_left st' \<le> st_left st \<and> (step = Go \<longrightarrow> st_left st' < st_left st)"
proof (cases "pb_decode_varint32_eof (de_callback env) False (ps_stream st)")
  case (fields temp eof s)
  note left = eats_varint32_eof [OF this]
  show ?thesis
  proof (cases "temp = None \<or> temp = Some 0")
    case True
    then show ?thesis using fields left assms(2)
      by (auto simp: decode_turn_def pb_decode_tag_def)
  next
    case False
    then obtain t where t: "temp = Some t" "t \<noteq> 0" by (cases temp) simp_all
    let ?st = "st\<lparr>ps_stream := s\<rparr>" and ?tag = "drop_bit 3 t" and ?wt = "t AND 7"
    have lt: "st_left ?st < st_left st" using left t by simp
    then have b: "st_left ?st \<le> b" using assms(3) by simp
    have "unat ?tag = unat t div 8" unfolding unat_drop_bit_eq by (simp add: drop_bit_eq_div)
    also have "\<dots> < 536870912" using unat_u32_less [of t] by (simp add: less_mult_imp_div_less)
    finally have "unat ?tag < 536870912" .
    then have tag: "?tag < 0xFFFFFFFF" by (simp add: word_less_nat_alt)
    obtain found iter where f: "pb_field_iter_find (ls_iter ls) ?tag = Some (found, iter)" "iter_ok fs iter"
      using find_iter_ok [OF assms(2)] by blast
    let ?ls = "ls\<lparr>ls_iter := iter\<rparr>"
    have i: "iter_ok fs (ls_iter ?ls)" using f(2) by simp
    have turn: "decode_turn n env noinit ls st =
        (if found then decode_known n env noinit ?wt ?ls ?st else decode_unknown n env noinit ?tag ?wt ?ls ?st)"
      using fields t f(1) by (simp add: decode_turn_def pb_decode_tag_def Let_def)
    show ?thesis
    proof (cases found)
      case True
      obtain step ls' st' where "decode_known n env noinit ?wt ?ls ?st = Some (step, ls', st')" "iter_ok fs (ls_iter ls')" "st_left st' \<le> st_left ?st"
        using known_returns [OF assms(1) i b, of ?wt] by blast
      then show ?thesis using turn True lt by (intro exI [of _ step] exI [of _ ls'] exI [of _ st']) simp
    next
      case False
      obtain step ls' st' where "decode_unknown n env noinit ?tag ?wt ?ls ?st = Some (step, ls', st')" "iter_ok fs (ls_iter ls')" "st_left st' \<le> st_left ?st"
        using unknown_returns [OF assms(1) i tag, of ?wt ?st] by blast
      then show ?thesis using turn False lt by (intro exI [of _ step] exI [of _ ls'] exI [of _ st']) simp
    qed
  qed
qed

lemma finish_returns:
  assumes "iter_ok fs (ls_iter ls)"
  shows "\<exists>ok st'. decode_finish ls st = Some (ok, st') \<and> st_left st' = st_left st"
proof -
  have "it_fields (ls_iter ls) = fs" using assms by (simp add: iter_ok_def)
  moreover have "seek_end (Suc (length fs)) (ls_iter ls) \<noteq> None" by (rule seek_end_returns [OF assms]) simp
  ultimately obtain c l i where r: "seek_end (Suc (length (it_fields (ls_iter ls)))) (ls_iter ls) = Some (c, l, i)" by (auto simp del: seek_end.simps)
  show ?thesis unfolding decode_finish_def Let_def r option.case prod.case by (intro ex_if) (auto simp: act_error_def)
qed

text \<open>\<open>family_ready\<close>: a set of descriptor arrays closed under submessages, for all of which
  defaults and release return whenever the fuel is at least \<open>N\<close>.\<close>

definition family_ready :: "('s, 'h) pb_dec_env \<Rightarrow> nat \<Rightarrow> pb_field list set \<Rightarrow> bool" where
  "family_ready env N F \<longleftrightarrow>
     (\<forall>fs \<in> F. \<forall>n \<ge> N. defaults_return (de_fields env) n fs \<and> release_returns env n fs) \<and>
     (\<forall>fs \<in> F. \<forall>f \<in> insert PB_LAST_FIELD (set fs). plain_field f \<and>
        (PB_LTYPE (pf_type f) = PB_LTYPE_SUBMESSAGE \<longrightarrow> de_fields env (pf_ptr f) \<in> F))"

lemma family_field:
  assumes F: "family_ready env N F" "fs \<in> F" "f \<in> insert PB_LAST_FIELD (set fs)" "N + 4294967296 < n"
    and sub: "\<And>fs c dest. fs \<in> F \<Longrightarrow> c < b \<Longrightarrow> dec_ok c (noinit fs dest)"
  shows "field_ready n env noinit b f"
  unfolding field_ready_def
proof (intro conjI allI impI)
  show "plain_field f" using F unfolding family_ready_def by blast
  obtain k where k: "n = Suc k" using F(4) by (cases n) simp_all
  show "pb_release_single_field n env iter hm \<noteq> None" if "it_field iter = f" for iter hm
    unfolding k
  proof (rule field_release_returns [where N = N])
    show "plain_field (it_field iter)" using F that unfolding family_ready_def by blast
    show "N + 4294967296 \<le> k" using F(4) k by linarith
    show "release_returns env m (de_fields env (pf_ptr (it_field iter)))"
      if "PB_LTYPE (pf_type (it_field iter)) = PB_LTYPE_SUBMESSAGE" "N \<le> m" for m
      using F that \<open>it_field iter = f\<close> unfolding family_ready_def by blast
  qed
  show "message_ready n env noinit b (de_fields env (pf_ptr f))" if "PB_LTYPE (pf_type f) = PB_LTYPE_SUBMESSAGE"
  proof -
    have "de_fields env (pf_ptr f) \<in> F" using F that unfolding family_ready_def by blast
    moreover have "N \<le> n" using F(4) by linarith
    ultimately show ?thesis using F(1) sub by (simp add: family_ready_def message_ready_def)
  qed
qed

lemma own_count_ok: "dec_ok b f \<Longrightarrow> dec_ok b (with_own_count f)"
  unfolding with_own_count_def
proof (rule dec_okI)
  fix st :: "('a, 'b) pb_state" assume f: "dec_ok b f" and b: "st_left st \<le> b"
  have "st_left (st\<lparr>ps_count := 0\<rparr>) \<le> b" using b by simp
  from dec_okD [OF f this] obtain ok st' where "f (st\<lparr>ps_count := 0\<rparr>) = Some (ok, st')" "st_left st' \<le> st_left st" by auto
  then show "\<exists>ok st'. map_option (\<lambda>(ok, st'). (ok, st'\<lparr>ps_count := ps_count st\<rparr>)) (f (st\<lparr>ps_count := 0\<rparr>)) = Some (ok, st') \<and> st_left st' \<le> st_left st"
    by auto
qed

lemma loop_returns:
  assumes F: "family_ready env N F"
  shows "fs \<in> F \<Longrightarrow> iter_ok fs (ls_iter ls) \<Longrightarrow> N + 4294967297 + b < n \<Longrightarrow> dec_ok b (decode_loop n env ls)"
proof (induction n arbitrary: fs ls b)
  case (Suc n)
  let ?noinit = "\<lambda>fs dest. with_own_count (\<lambda>st. decode_loop n env (loop_begin fs dest) st)"
  show ?case
  proof (rule dec_okI)
    fix st :: "('a, 'b) pb_state" assume b: "st_left st \<le> b"
    show "\<exists>ok st'. decode_loop (Suc n) env ls st = Some (ok, st') \<and> st_left st' \<le> st_left st"
    proof (cases "st_left st = 0")
      case True
      then show ?thesis using finish_returns [OF Suc.prems(2), of st] by auto
    next
      case False
      then obtain c where c: "b = Suc c" using b by (cases b) simp_all
      have "dec_ok d (?noinit fs' dest)" if "fs' \<in> F" "d < c" for fs' d dest
      proof (rule own_count_ok, rule Suc.IH [OF that(1)])
        show "iter_ok fs' (ls_iter (loop_begin fs' dest))"
          by (auto simp: loop_begin_def iter_ok_def begin_iter_at)
        show "N + 4294967297 + d < n" using Suc.prems(3) c that(2) by linarith
      qed
      then have "all_ready n env ?noinit c fs"
        using Suc.prems c by (intro ballI family_field [OF F Suc.prems(1)]) auto
      from turn_returns [OF this Suc.prems(2), of st] obtain step ls' st' where
        t: "decode_turn n env ?noinit ls st = Some (step, ls', st')" "iter_ok fs (ls_iter ls')" "st_left st' \<le> st_left st"
           "step = Go \<Longrightarrow> st_left st' < st_left st" using b c by auto
      show ?thesis
      proof (cases step)
        case Go
        then have "st_left st' \<le> c" using t(4) b c by simp
        moreover have "dec_ok c (decode_loop n env ls')" using Suc.prems c by (intro Suc.IH [OF Suc.prems(1) t(2)]) linarith
        ultimately obtain ok st2 where "decode_loop n env ls' st' = Some (ok, st2)" "st_left st2 \<le> st_left st'"
          using dec_okD by blast
        then show ?thesis using False Go t by auto
      next
        case Break
        then show ?thesis using False t finish_returns [OF t(2), of st'] by auto
      next
        case Fail
        then show ?thesis using False t by auto
      qed
    qed
  qed
qed simp

subsection \<open>Decoding returns\<close>

fun message_family :: "(addr \<Rightarrow> pb_field list) \<Rightarrow> nat \<Rightarrow> pb_field list \<Rightarrow> pb_field list set" where
  "message_family desc 0 fs = {}"
| "message_family desc (Suc r) fs =
     insert fs (\<Union>f \<in> {f \<in> set fs. PB_LTYPE (pf_type f) = PB_LTYPE_SUBMESSAGE}. message_family desc r (desc (pf_ptr f)))"

lemma finite_family: "finite (message_family desc r fs)"
  by (induction desc r fs rule: message_family.induct) simp_all

lemma family_plain:
  "plain_message desc r fs \<Longrightarrow> x \<in> message_family desc r fs \<Longrightarrow>
   (\<exists>k. plain_message desc k x) \<and> (\<forall>f \<in> set x. PB_LTYPE (pf_type f) = PB_LTYPE_SUBMESSAGE \<longrightarrow> desc (pf_ptr f) \<in> message_family desc r fs)"
proof (induction desc r fs rule: message_family.induct)
  case (2 desc r fs)
  show ?case
  proof (cases "x = fs")
    case True
    have "desc (pf_ptr f) \<in> message_family desc r (desc (pf_ptr f))"
      if "f \<in> set fs" "PB_LTYPE (pf_type f) = PB_LTYPE_SUBMESSAGE" for f
      using 2(2) that by (cases r) auto
    then have "desc (pf_ptr f) \<in> message_family desc (Suc r) fs"
      if "f \<in> set fs" "PB_LTYPE (pf_type f) = PB_LTYPE_SUBMESSAGE" for f using that by auto
    then show ?thesis using True 2(2) by blast
  next
    case False
    then obtain f where f: "f \<in> set fs" "PB_LTYPE (pf_type f) = PB_LTYPE_SUBMESSAGE" "x \<in> message_family desc r (desc (pf_ptr f))"
      using 2(3) by auto
    then have "f \<in> {f \<in> set fs. PB_LTYPE (pf_type f) = PB_LTYPE_SUBMESSAGE}" "plain_message desc r (desc (pf_ptr f))"
      using 2(2) by auto
    from 2(1) [OF this f(3)] f(1,2) show ?thesis by auto
  qed
qed simp

lemma last_field_plain: "plain_field PB_LAST_FIELD" "PB_LTYPE (pf_type PB_LAST_FIELD) \<noteq> PB_LTYPE_SUBMESSAGE"
  by (simp_all add: plain_field_def PB_LAST_FIELD_def PB_ATYPE_def PB_LTYPE_def)

lemma family_exists:
  assumes "plain_message (de_fields env) r fs"
  shows "\<exists>N F. family_ready env N F \<and> fs \<in> F"
proof -
  let ?F = "message_family (de_fields env) r fs"
  note plain = family_plain [OF assms]
  have "\<exists>N. \<forall>n \<ge> N. defaults_return (de_fields env) n x" "\<exists>N. \<forall>n \<ge> N. release_returns env n x" if "x \<in> ?F" for x
    using plain [OF that] defaults_return_plain release_return_plain by blast+
  then obtain N M where N: "\<forall>n \<ge> N. \<forall>x \<in> ?F. defaults_return (de_fields env) n x" and M: "\<forall>n \<ge> M. \<forall>x \<in> ?F. release_returns env n x"
    using finite_fuel [OF finite_family, of "de_fields env" r fs "\<lambda>x n. defaults_return (de_fields env) n x"]
      finite_fuel [OF finite_family, of "de_fields env" r fs "\<lambda>x n. release_returns env n x"] by blast
  have "plain_field f" if x: "x \<in> ?F" and f: "f \<in> set x" for x f
  proof -
    obtain k where "plain_message (de_fields env) k x" using plain [OF x] by blast
    then show ?thesis using f by (cases k) auto
  qed
  then have "family_ready env (max N M) ?F"
    using N M plain last_field_plain by (simp add: family_ready_def)
  moreover have "fs \<in> ?F" using assms by (cases r) simp_all
  ultimately show ?thesis by blast
qed

lemma decode_returns:
  assumes "plain_message (de_fields env) r fs"
  shows "\<exists>N. \<forall>n st dest. N + bytes_left (ps_stream st) \<le> n \<longrightarrow>
    (\<exists>ok st'. pb_decode n env fs dest st = Some (ok, st') \<and> bytes_left (ps_stream st') \<le> bytes_left (ps_stream st))"
proof -
  obtain N F where F: "family_ready env N F" "fs \<in> F" using family_exists [OF assms] by blast
  have "dec_ok b (pb_decode n env fs dest)" if n: "N + 4294967298 + b \<le> n" for b n dest
    unfolding pb_decode_def
  proof (rule ok_decode_with)
    have "N \<le> n" using n by linarith
    then show "defaults_return (de_fields env) n fs" "release_returns env n fs"
      using F unfolding family_ready_def by blast+
    have "iter_ok fs (ls_iter (loop_begin fs dest))" by (auto simp: loop_begin_def iter_ok_def begin_iter_at)
    moreover have "N + 4294967297 + b < n" using n by linarith
    ultimately show "dec_ok b (pb_decode_noinit n env fs dest)"
      unfolding pb_decode_noinit_def by (intro own_count_ok loop_returns [OF F])
  qed
  then show ?thesis by (intro exI [of _ "N + 4294967298"] allI impI) (simp add: dec_ok_def)
qed


definition nested_fields :: "pb_field list" where
  "nested_fields =
     [\<lparr>pf_tag = 1, pf_type = 0x27, data_offset = 0, size_offset = 0, data_size = 16, array_size = 3, pf_ptr = 0\<rparr>,
      \<lparr>pf_tag = 2, pf_type = 0x88, data_offset = 0, size_offset = 0, data_size = 4, array_size = 0, pf_ptr = 96\<rparr>]"

definition nested_env :: "(unit, unit) pb_dec_env" where
  "nested_env =
     \<lparr>de_callback = (\<lambda>s n. Inr (s, False)), de_realloc = (\<lambda>h m p n. (0, h, m)), de_free = (\<lambda>h m p. (h, m)),
      de_fields = (\<lambda>a. if a = 96 then [\<lparr>pf_tag = 1, pf_type = 0x04, data_offset = 0, size_offset = 0, data_size = 4, array_size = 0, pf_ptr = 0\<rparr>] else []),
      de_user = (\<lambda>f field p st. (False, st)), de_extension = (\<lambda>f e tag w st. (False, st))\<rparr>"


end
