(* ===== verification/PbInvariant.thy ===== *)
theory PbInvariant
  imports PbReturns
begin

text \<open>Invariants of the memory under the decoder of \<^verbatim>\<open>pb_decode.c\<close>. The locale
  \<open>store_invariant\<close> has a property of the memory and a set of stores that keep it; inside it, the decoders of
  values are shown to keep the property if the stores of the value are in the set. Then the stores of a
  message of static fields, and where the field iterator may stand.\<close>

subsection \<open>Invariants of the memory\<close>

text \<open>A property of the memory that survives every store of a given kind survives decoders that make no
  other stores. \<open>may p bs\<close> says that \<open>bs\<close> may be stored at \<open>p\<close>.\<close>

locale store_invariant =
  fixes inv :: "mem \<Rightarrow> bool" and may :: "addr \<Rightarrow> byte list \<Rightarrow> bool"
  assumes store: "may p bs \<Longrightarrow> inv m \<Longrightarrow> inv (store_bytes m p bs)"
begin

definition act_keeps :: "('s, 'h) pb_act \<Rightarrow> bool" where
  "act_keeps f \<longleftrightarrow> (\<forall>st. inv (ps_mem st) \<longrightarrow> inv (ps_mem (snd (f st))))"

definition dec_keeps :: "('s, 'h) pb_dec \<Rightarrow> bool" where
  "dec_keeps f \<longleftrightarrow> (\<forall>st ok st'. inv (ps_mem st) \<longrightarrow> f st = Some (ok, st') \<longrightarrow> inv (ps_mem st'))"

lemma act_keepsD: "act_keeps f \<Longrightarrow> inv (ps_mem st) \<Longrightarrow> f st = (ok, st') \<Longrightarrow> inv (ps_mem st')"
  unfolding act_keeps_def by (metis snd_conv)

lemma dec_keepsD: "dec_keeps f \<Longrightarrow> inv (ps_mem st) \<Longrightarrow> f st = Some (ok, st') \<Longrightarrow> inv (ps_mem st')"
  unfolding dec_keeps_def by blast

lemma keeps_error: "act_keeps (act_error msg)"
  by (simp add: act_keeps_def act_error_def)

lemma keeps_const: "act_keeps (\<lambda>st. (ok, st))"
  by (simp add: act_keeps_def)

lemma keeps_store: "may p bs \<Longrightarrow> act_keeps (act_store p bs)"
  by (simp add: act_keeps_def act_store_def store)

lemma keeps_size: "(\<And>a. p = Size_at a \<Longrightarrow> may a bs) \<Longrightarrow> act_keeps (act_size p bs)"
  by (simp add: act_keeps_def act_size_def act_store_def store split: pb_size_ptr.split)

lemma keeps_act_then: "act_keeps f \<Longrightarrow> act_keeps g \<Longrightarrow> act_keeps (act_then f g)"
  unfolding act_keeps_def act_then_def by (simp split: prod.splits) (metis snd_conv)

lemma keeps_act_if: "(c \<Longrightarrow> act_keeps f) \<Longrightarrow> (\<not> c \<Longrightarrow> act_keeps g) \<Longrightarrow> act_keeps (if c then f else g)"
  by simp

lemma keeps_act_read:
  fixes rd :: "('s, 'a) pb_reader"
  assumes "\<And>s x s'. rd s = (Some x, s') \<Longrightarrow> act_keeps (k x :: ('s, 'h) pb_act)"
  shows "act_keeps (act_read rd k)"
  unfolding act_keeps_def
proof (intro allI impI)
  fix st :: "('s, 'h) pb_state" assume i: "inv (ps_mem st)"
  show "inv (ps_mem (snd (act_read rd k st)))"
  proof (cases "rd (ps_stream st)")
    case (Pair x s)
    show ?thesis
    proof (cases x)
      case None
      then show ?thesis using Pair i by (simp add: act_read_def)
    next
      case (Some y)
      have "act_keeps (k y :: ('s, 'h) pb_act)" using assms Pair Some by simp
      then have "inv (ps_mem (snd (k y (st\<lparr>ps_stream := s\<rparr>))))" using i unfolding act_keeps_def by simp
      then show ?thesis using Pair Some by (simp add: act_read_def)
    qed
  qed
qed

lemma keeps_pure: "act_keeps f \<Longrightarrow> dec_keeps (dec_pure f)"
  unfolding dec_keeps_def dec_pure_def act_keeps_def by (metis option.inject snd_conv)

lemma keeps_true: "dec_keeps dec_true"
  by (simp add: dec_keeps_def dec_true_def)

lemma keeps_none: "dec_keeps (\<lambda>_. None)"
  by (simp add: dec_keeps_def)

lemma keeps_then:
  fixes f :: "('s, 'h) pb_dec"
  assumes "dec_keeps f" "dec_keeps g"
  shows "dec_keeps (dec_then f g)"
  unfolding dec_keeps_def
proof (intro allI impI)
  fix st :: "('s, 'h) pb_state" and ok st' assume i: "inv (ps_mem st)" and r: "dec_then f g st = Some (ok, st')"
  then obtain ok1 st1 where f: "f st = Some (ok1, st1)" by (auto simp: dec_then_def split: option.splits)
  from dec_keepsD [OF assms(1) i f] have "inv (ps_mem st1)" .
  then show "inv (ps_mem st')" using f r dec_keepsD [OF assms(2)] by (cases ok1) (auto simp: dec_then_def)
qed

lemma keeps_dec_if: "(c \<Longrightarrow> dec_keeps f) \<Longrightarrow> (\<not> c \<Longrightarrow> dec_keeps g) \<Longrightarrow> dec_keeps (if c then f else g)"
  by simp

lemma keeps_mem: "(\<And>m m'. inv m \<Longrightarrow> f m = Some m' \<Longrightarrow> inv m') \<Longrightarrow> dec_keeps (dec_mem f)"
  unfolding dec_keeps_def dec_mem_def by (auto simp: map_option_case split: option.splits)

lemma keeps_substream:
  fixes body :: "('s, 'h) pb_dec"
  assumes "dec_keeps body" "\<And>status sub. act_keeps (finish status sub :: ('s, 'h) pb_act)"
  shows "dec_keeps (dec_substream cb body finish)"
  unfolding dec_keeps_def
proof (intro allI impI)
  fix st :: "('s, 'h) pb_state" and ok st' assume i: "inv (ps_mem st)" and r: "dec_substream cb body finish st = Some (ok, st')"
  show "inv (ps_mem st')"
  proof (cases "pb_make_string_substream cb (ps_stream st)")
    case (Pair x s)
    show ?thesis
    proof (cases x)
      case None
      then show ?thesis using Pair i r by (auto simp: dec_substream_def)
    next
      case (Some sub)
      then obtain ok1 st1 where b: "body (st\<lparr>ps_stream := sub\<rparr>) = Some (ok1, st1)" "finish ok1 (ps_stream st1) (st1\<lparr>ps_stream := s\<rparr>) = (ok, st')"
        using Pair r by (auto simp: dec_substream_def split: option.splits)
      have "inv (ps_mem st1)" using dec_keepsD [OF assms(1) _ b(1)] i by simp
      then show ?thesis using act_keepsD [OF assms(2) _ b(2)] by simp
    qed
  qed
qed

lemma keeps_close: "act_keeps (close_with cb status sub)"
  unfolding close_with_def by (intro keeps_act_read keeps_const)

lemma keeps_own_count:
  fixes f :: "('s, 'h) pb_dec"
  assumes "dec_keeps f"
  shows "dec_keeps (with_own_count f)"
  unfolding dec_keeps_def
proof (intro allI impI)
  fix st :: "('s, 'h) pb_state" and ok st' assume i: "inv (ps_mem st)" and r: "with_own_count f st = Some (ok, st')"
  then obtain st1 where f: "f (st\<lparr>ps_count := 0\<rparr>) = Some (ok, st1)" "st' = st1\<lparr>ps_count := ps_count st\<rparr>"
    by (auto simp: with_own_count_def)
  have "inv (ps_mem st1)" using dec_keepsD [OF assms _ f(1)] i by simp
  then show "inv (ps_mem st')" using f(2) by simp
qed

end

subsection \<open>The stores of a value\<close>

definition value_stores :: "(addr \<Rightarrow> byte list \<Rightarrow> bool) \<Rightarrow> pb_field \<Rightarrow> addr \<Rightarrow> bool" where
  "value_stores may f q \<longleftrightarrow>
     (let l = PB_LTYPE (pf_type f); sz = unat (data_size f) in
      (l = PB_LTYPE_BOOL \<longrightarrow> may q [0] \<and> may q [1]) \<and>
      (l \<in> {PB_LTYPE_VARINT, PB_LTYPE_UVARINT, PB_LTYPE_SVARINT} \<longrightarrow> data_size f \<in> {1, 2, 4, 8} \<longrightarrow>
         (\<forall>bs. length bs = sz \<longrightarrow> may q bs)) \<and>
      (l = PB_LTYPE_FIXED32 \<longrightarrow> (\<forall>bs. length bs = 4 \<longrightarrow> may q bs)) \<and>
      (l = PB_LTYPE_FIXED64 \<longrightarrow> (\<forall>bs. length bs = 8 \<longrightarrow> may q bs)) \<and>
      (l \<in> {PB_LTYPE_BYTES, PB_LTYPE_STRING, PB_LTYPE_FIXED_LENGTH_BYTES} \<longrightarrow>
         (\<forall>i bs. i + length bs \<le> sz \<longrightarrow> may (q + word_of_nat i) bs)))"

text \<open>The application's callback gives no more bytes than it is asked for.\<close>

definition callback_fits :: "'s pb_callback \<Rightarrow> bool" where
  "callback_fits cb \<longleftrightarrow> (\<forall>s n b s'. cb s n = Inl (b, s') \<longrightarrow> length b \<le> n)"

lemma read_buf_length:
  assumes "callback_fits cb" "pb_read_buf cb n s = (Some b, s')"
  shows "length b \<le> n"
  using assms by (auto simp: callback_fits_def pb_read_buf_def call_callback_def PB_RETURN_ERROR_def buf_read_def
      split: if_splits option.splits pb_source.splits sum.splits prod.splits)

lemma clamp_sizes: "clamp_signed d v = Some w \<Longrightarrow> d \<in> {1, 2, 4, 8}" "clamp_unsigned d v = Some w \<Longrightarrow> d \<in> {1, 2, 4, 8}"
  by (auto simp: clamp_signed_def clamp_unsigned_def split: if_splits)

context store_invariant
begin

lemma keeps_clamp:
  assumes "value_stores may f q" "PB_LTYPE (pf_type f) \<in> {1, 2, 3}" "\<And>v w. clamp (data_size f) v = Some w \<Longrightarrow> data_size f \<in> {1, 2, 4, 8}"
  shows "act_keeps (act_clamp clamp f q v)"
proof (cases "clamp (data_size f) v")
  case None
  then show ?thesis by (simp add: act_clamp_def keeps_error)
next
  case (Some w)
  have "data_size f \<in> {1, 2, 4, 8}" by (rule assms(3) [OF Some])
  then have "\<forall>bs. length bs = unat (data_size f) \<longrightarrow> may q bs"
    using assms(1,2) unfolding value_stores_def Let_def pb_types by blast
  then have "may q (le_bytes (unat (data_size f)) v)" by (simp add: length_le_bytes)
  then show ?thesis unfolding act_clamp_def Some option.case
    by (intro keeps_act_then keeps_store keeps_act_if keeps_error keeps_const)
qed

lemma keeps_dec_bytes:
  assumes cb: "callback_fits cb" and v: "value_stores may f q" "PB_LTYPE (pf_type f) = PB_LTYPE_BYTES" "PB_ATYPE (pf_type f) \<noteq> PB_ATYPE_POINTER"
  shows "act_keeps (pb_dec_bytes cb pb_realloc f q)"
proof -
  have m: "may (q + word_of_nat i) bs" if "i + length bs \<le> unat (data_size f)" for i bs
    using v(1,2) that unfolding value_stores_def Let_def by simp
  have fill: "act_keeps (act_then (act_store q (le_bytes 4 sz)) (act_read (pb_read_buf cb (unat sz)) (act_store (q + 4))))"
    if "unat sz + 4 \<le> unat (data_size f)" for sz :: u32
  proof (intro keeps_act_then keeps_store keeps_act_read)
    show "may q (le_bytes 4 sz)" using m [of 0 "le_bytes 4 sz"] that by (simp add: length_le_bytes)
    show "may (q + 4) b" if r: "pb_read_buf cb (unat sz) s = (Some b, s')" for s b s'
      using m [of 4 b] read_buf_length [OF cb r] \<open>unat sz + 4 \<le> _\<close> by simp
  qed
  show ?thesis unfolding pb_dec_bytes_def Let_def
  proof (intro keeps_act_read keeps_act_if keeps_error)
    fix sz :: u32
    assume c: "\<not> ucast (data_size f) < (ucast sz + 4 :: u64)"
    have lt: "unat sz + 4 < 18446744073709551616" using unat_u32_less [of sz] by linarith
    have "unat (ucast sz + 4 :: u64) = unat sz + 4" using lt by (simp add: unat_word_ariths)
    then have "unat sz + 4 \<le> unat (data_size f)" using c by (simp add: word_less_nat_alt)
    then show "act_keeps (act_then (act_store q (le_bytes 4 sz)) (act_read (pb_read_buf cb (unat sz)) (act_store (q + 4))))" by (rule fill)
  qed (use v(3) in simp_all)
qed

lemma keeps_dec_string:
  assumes cb: "callback_fits cb" and v: "value_stores may f q" "PB_LTYPE (pf_type f) = PB_LTYPE_STRING" "PB_ATYPE (pf_type f) \<noteq> PB_ATYPE_POINTER"
  shows "act_keeps (pb_dec_string cb pb_realloc f q)"
proof -
  have m: "may (q + word_of_nat i) bs" if "i + length bs \<le> unat (data_size f)" for i bs
    using v(1,2) that unfolding value_stores_def Let_def by simp
  have fill: "act_keeps (\<lambda>st. case act_read (pb_read_buf cb (unat sz)) (act_store q) st of
      (status, st) \<Rightarrow> (status, st\<lparr>ps_mem := store_bytes (ps_mem st) (q + ucast sz) [0]\<rparr>))"
    if fits: "unat sz + 1 \<le> unat (data_size f)" for sz :: u32
  proof -
    have "may q b" if r: "pb_read_buf cb (unat sz) s = (Some b, s')" for s b s'
      using m [of 0 b] read_buf_length [OF cb r] fits by simp
    then have "act_keeps (act_read (pb_read_buf cb (unat sz)) (act_store q))"
      by (intro keeps_act_read keeps_store) simp
    moreover have "may (q + ucast sz) [0]"
      using m [of "unat sz" "[0]"] fits by simp
    ultimately show ?thesis unfolding act_keeps_def by (auto simp: case_prod_unfold intro: store)
  qed
  show ?thesis unfolding pb_dec_string_def Let_def
  proof (intro keeps_act_read keeps_act_if keeps_error)
    fix sz :: u32
    assume c: "\<not> ucast (data_size f) < (ucast (sz + 1) :: u64)" "\<not> (ucast (sz + 1) :: u64) < ucast sz"
    then have "unat sz \<le> unat (sz + 1)" "unat (sz + 1) \<le> unat (data_size f)" by (simp_all add: word_less_nat_alt)
    moreover have wrap: "unat (sz + 1) = (unat sz + 1) mod 4294967296" by (simp add: unat_word_ariths)
    have "unat (sz + 1) = unat sz + 1 \<or> unat (sz + 1) = 0"
    proof (cases "unat sz + 1 < 4294967296")
      case True
      then show ?thesis unfolding wrap by (intro disjI1 mod_less)
    next
      case False
      then have "unat sz + 1 = 4294967296" using unat_u32_less [of sz] by linarith
      then show ?thesis unfolding wrap by simp
    qed
    moreover have "unat sz \<noteq> 0" if "unat (sz + 1) = 0" using that by (metis add_0 unat_1 unat_eq_zero zero_neq_one)
    ultimately have "unat sz + 1 \<le> unat (data_size f)" by linarith
    then show "act_keeps (\<lambda>st. case act_read (pb_read_buf cb (unat sz)) (act_store q) st of
        (status, st) \<Rightarrow> (status, st\<lparr>ps_mem := store_bytes (ps_mem st) (q + ucast sz) [0]\<rparr>))" by (rule fill)
  qed (use v(3) in simp_all)
qed

lemma keeps_value:
  assumes cb: "callback_fits (de_callback env)" and v: "value_stores may f q" and atype: "PB_ATYPE (pf_type f) \<noteq> PB_ATYPE_POINTER"
    and sub: "PB_LTYPE (pf_type f) \<noteq> PB_LTYPE_SUBMESSAGE"
  shows "dec_keeps (PB_DECODERS n env noinit (PB_LTYPE (pf_type f)) f q)"
proof -
  define l where "l = PB_LTYPE (pf_type f)"
  define sz where "sz = data_size f"
  have v': "l = 0 \<longrightarrow> may q [0] \<and> may q [1]" "l = 4 \<longrightarrow> (\<forall>bs. length bs = 4 \<longrightarrow> may q bs)" "l = 5 \<longrightarrow> (\<forall>bs. length bs = 8 \<longrightarrow> may q bs)"
    "l = 10 \<longrightarrow> (\<forall>i bs. i + length bs \<le> unat sz \<longrightarrow> may (q + word_of_nat i) bs)"
    using v unfolding value_stores_def l_def [symmetric] sz_def [symmetric] Let_def pb_types by blast+
  have b: "act_keeps (pb_dec_bool (de_callback env) f q)" if "l = 0"
    unfolding pb_dec_bool_def using v'(1) that by (intro keeps_act_read keeps_store) simp
  have i: "act_keeps (pb_dec_varint (de_callback env) f q)" "act_keeps (pb_dec_uvarint (de_callback env) f q)" "act_keeps (pb_dec_svarint (de_callback env) f q)"
    if "l = 1 \<or> l = 2 \<or> l = 3"
    unfolding pb_dec_varint_def pb_dec_uvarint_def pb_dec_svarint_def
    by (intro keeps_act_read keeps_clamp [OF v]; use that in \<open>auto simp: l_def dest: clamp_sizes\<close>)+
  have f4: "act_keeps (pb_dec_fixed32 (de_callback env) f q)" if "l = 4"
    unfolding pb_dec_fixed32_def using v'(2) that by (intro keeps_act_read keeps_store) (simp add: length_le_bytes)
  have f8: "act_keeps (pb_dec_fixed64 (de_callback env) f q)" if "l = 5"
    unfolding pb_dec_fixed64_def using v'(3) that by (intro keeps_act_read keeps_store) (simp add: length_le_bytes)
  have bys: "act_keeps (pb_dec_bytes (de_callback env) (de_realloc env) f q)" if "l = 6"
    using that by (intro keeps_dec_bytes cb v atype) (simp add: l_def)
  have s: "act_keeps (pb_dec_string (de_callback env) (de_realloc env) f q)" if "l = 7"
    using that by (intro keeps_dec_string cb v atype) (simp add: l_def)
  have fl: "act_keeps (pb_dec_fixed_length_bytes (de_callback env) f q)" if l: "l = 10"
  proof -
    have m: "may q bs" if "length bs \<le> unat sz" for bs using v'(4) [rule_format, OF l, of 0 bs] that by simp
    have "may q b" if "pb_read_buf (de_callback env) (unat sz) s = (Some b, s')" for s b s'
      by (rule m) (rule read_buf_length [OF cb that])
    then show ?thesis unfolding pb_dec_fixed_length_bytes_def sz_def [symmetric]
      by (intro keeps_act_read keeps_act_if keeps_error keeps_store) (simp_all add: m)
  qed
  show ?thesis using sub unfolding PB_DECODERS_def Let_def l_def [symmetric]
    by (intro keeps_dec_if keeps_none keeps_pure b i f4 f8 bys s fl) (simp_all add: l_def)
qed

end

subsection \<open>The stores of a message\<close>

text \<open>The stores of the functions that set defaults, and of the decoder, to a message of static fields.
  When an array of descriptors is empty, its first entry, the sentinel, still counts: a tag of zero
  matches it.\<close>

definition entries :: "pb_field list \<Rightarrow> nat set" where
  "entries fs = {..<max 1 (field_count fs)}"

definition static_field :: "pb_field \<Rightarrow> bool" where
  "static_field f \<longleftrightarrow>
     PB_ATYPE (pf_type f) = PB_ATYPE_STATIC \<and> PB_LTYPE (pf_type f) \<le> PB_LTYPE_FIXED_LENGTH_BYTES \<and>
     PB_LTYPE (pf_type f) \<noteq> PB_LTYPE_EXTENSION"

fun static_message :: "(addr \<Rightarrow> pb_field list) \<Rightarrow> nat \<Rightarrow> pb_field list \<Rightarrow> bool" where
  "static_message desc 0 fs = False"
| "static_message desc (Suc r) fs =
     (\<forall>f \<in> set fs. static_field f \<and>
       (PB_LTYPE (pf_type f) = PB_LTYPE_SUBMESSAGE \<longrightarrow> static_message desc r (desc (pf_ptr f))))"

lemma static_entry: "static_message desc r fs \<Longrightarrow> static_field (field_at fs k)"
  by (cases r) (auto simp: field_at_def static_field_def PB_LAST_FIELD_def PB_ATYPE_def PB_LTYPE_def)

lemma static_sub:
  "static_message desc (Suc r) fs \<Longrightarrow> PB_LTYPE (pf_type (field_at fs k)) = PB_LTYPE_SUBMESSAGE \<Longrightarrow>
   static_message desc r (desc (pf_ptr (field_at fs k)))"
  by (auto simp: field_at_def PB_LAST_FIELD_def PB_LTYPE_def split: if_splits)

lemma static_not_pointer: "static_field f \<Longrightarrow> PB_ATYPE (pf_type f) \<noteq> PB_ATYPE_POINTER"
  by (simp add: static_field_def)

lemma static_plain: "static_message desc r fs \<Longrightarrow> plain_message desc r fs"
  by (induction desc r fs rule: static_message.induct) (auto simp: static_field_def plain_field_def)

fun default_stores :: "(addr \<Rightarrow> byte list \<Rightarrow> bool) \<Rightarrow> (addr \<Rightarrow> pb_field list) \<Rightarrow> nat \<Rightarrow> pb_field list \<Rightarrow> addr \<Rightarrow> bool" where
  "default_stores may desc 0 fs dest = False"
| "default_stores may desc (Suc r) fs dest =
     (\<forall>k \<in> entries fs.
       (let f = field_at fs k; p = field_addr fs dest k; sp = field_size_ptr fs dest k; htype = PB_HTYPE (pf_type f) in
        (htype = PB_HTYPE_OPTIONAL \<and> sp \<noteq> p \<longrightarrow> may sp [0]) \<and>
        (if htype = PB_HTYPE_REPEATED \<or> htype = PB_HTYPE_ONEOF then may sp (le_bytes 4 (0 :: u32))
         else if PB_LTYPE (pf_type f) = PB_LTYPE_SUBMESSAGE then default_stores may desc r (desc (pf_ptr f)) p
         else if pf_ptr f = 0 then may p (replicate (unat (data_size f)) 0)
         else (\<forall>bs. length bs = unat (data_size f) \<longrightarrow> may p bs))))"

definition item_addrs :: "pb_field \<Rightarrow> addr \<Rightarrow> addr set" where
  "item_addrs f p =
     (if PB_HTYPE (pf_type f) = PB_HTYPE_REPEATED
      then (\<lambda>c. p + ucast (data_size f * word_of_nat c)) ` {..<unat (array_size f)} else {p})"

lemma item_addrs_index:
  "PB_HTYPE (pf_type f) = PB_HTYPE_REPEATED \<Longrightarrow> c < array_size f \<Longrightarrow> p + ucast (data_size f * c) \<in> item_addrs f p"
  unfolding item_addrs_def by (auto simp: word_less_nat_alt simp del: pb_types intro!: image_eqI [of _ _ "unat c"])

fun message_stores :: "(addr \<Rightarrow> byte list \<Rightarrow> bool) \<Rightarrow> (addr \<Rightarrow> pb_field list) \<Rightarrow> nat \<Rightarrow> pb_field list \<Rightarrow> addr \<Rightarrow> bool" where
  "message_stores may desc 0 fs dest = False"
| "message_stores may desc (Suc r) fs dest =
     (\<forall>k \<in> entries fs.
       (let f = field_at fs k; p = field_addr fs dest k; sp = field_size_ptr fs dest k; htype = PB_HTYPE (pf_type f) in
        (htype = PB_HTYPE_OPTIONAL \<and> sp \<noteq> p \<longrightarrow> may sp [1]) \<and>
        (htype = PB_HTYPE_REPEATED \<or> htype = PB_HTYPE_ONEOF \<longrightarrow> (\<forall>bs. length bs = 4 \<longrightarrow> may sp bs)) \<and>
        (\<forall>q \<in> item_addrs f p.
           if PB_LTYPE (pf_type f) = PB_LTYPE_SUBMESSAGE then
             message_stores may desc r (desc (pf_ptr f)) q \<and>
             (htype = PB_HTYPE_REPEATED \<or> htype = PB_HTYPE_ONEOF \<longrightarrow> default_stores may desc r (desc (pf_ptr f)) q) \<and>
             (htype = PB_HTYPE_ONEOF \<longrightarrow> may q (replicate (unat (data_size f)) 0))
           else value_stores may f q)))"

subsection \<open>Where the iterator points\<close>

text \<open>The iterator stands at an entry of the descriptors, with its data pointer there and its size pointer
  there or, for an array without a counter in the message, at the local counter.\<close>

definition points :: "pb_field list \<Rightarrow> addr \<Rightarrow> pb_field_iter \<Rightarrow> bool" where
  "points fs dest iter \<longleftrightarrow>
     (\<exists>k \<in> entries fs. iter = iter_at fs dest k \<or>
        PB_HTYPE (pf_type (field_at fs k)) = PB_HTYPE_REPEATED \<and> iter = (iter_at fs dest k)\<lparr>pSize := Local_count\<rparr>)"

lemma next_entry:
  assumes "k \<in> entries fs"
  shows "\<exists>j \<in> entries fs. snd (pb_field_iter_next (iter_at fs dest k)) = iter_at fs dest j"
proof (cases "field_count fs = 0")
  case True
  then have "k = 0" "pf_tag (field_at fs 0) = 0" using assms field_count_end [of fs] by (simp_all add: entries_def)
  then show ?thesis using assms by (auto simp: pb_field_iter_next_def Let_def)
next
  case False
  then have "k < field_count fs" using assms by (simp add: entries_def)
  then show ?thesis using False by (auto simp: next_iter_at entries_def)
qed

lemma next_local_count:
  assumes "k \<in> entries fs" "PB_HTYPE (pf_type (field_at fs k)) = PB_HTYPE_REPEATED" "0 < field_count fs"
  shows "pb_field_iter_next ((iter_at fs dest k)\<lparr>pSize := Local_count\<rparr>) = pb_field_iter_next (iter_at fs dest k)"
proof -
  have "pf_tag (field_at fs k) \<noteq> 0" using assms field_count_tag [of k fs] by (simp add: entries_def)
  then show ?thesis using assms(2) by (simp add: pb_field_iter_next_def Let_def iter_at_def)
qed

lemma points_next: "points fs dest iter \<Longrightarrow> points fs dest (snd (pb_field_iter_next iter))"
proof -
  assume "points fs dest iter"
  then obtain k where k: "k \<in> entries fs" and i: "iter = iter_at fs dest k \<or>
      PB_HTYPE (pf_type (field_at fs k)) = PB_HTYPE_REPEATED \<and> iter = (iter_at fs dest k)\<lparr>pSize := Local_count\<rparr>"
    unfolding points_def by blast
  show ?thesis
  proof (cases "0 < field_count fs")
    case True
    then have "pb_field_iter_next iter = pb_field_iter_next (iter_at fs dest k)"
      using i k next_local_count [of k fs dest] by blast
    then show ?thesis using next_entry [OF k, of dest] unfolding points_def by fastforce
  next
    case False
    then have "pf_tag (field_at fs k) = 0" using k field_count_end [of fs] by (simp add: entries_def)
    then have "snd (pb_field_iter_next iter) = iter" using i by (auto simp: pb_field_iter_next_def Let_def)
    then show ?thesis using \<open>points fs dest iter\<close> by simp
  qed
qed

lemma points_find_loop:
  "points fs dest iter \<Longrightarrow> iter_find_loop n P start iter = Some (found, iter') \<Longrightarrow> points fs dest iter' \<and> (found \<longrightarrow> P (it_field iter'))"
proof (induction n arbitrary: iter)
  case (Suc n)
  then show ?case using points_next [OF Suc.prems(1)] by (auto simp: Let_def split: if_splits)
qed simp

lemma points_begin: "points fs dest (iter_at fs dest 0)"
  unfolding points_def by (rule bexI [of _ 0]) (simp_all add: entries_def)

lemma points_field: "points fs dest iter \<Longrightarrow> \<exists>k \<in> entries fs. it_field iter = field_at fs k \<and> pData iter = field_addr fs dest k \<and>
    (pSize iter = Size_at (field_size_ptr fs dest k) \<or> PB_HTYPE (pf_type (field_at fs k)) = PB_HTYPE_REPEATED \<and> pSize iter = Local_count)"
  unfolding points_def by auto

end
