(* ===== verification/PbSafe.thy ===== *)
theory PbSafe
  imports PbInvariant
begin

text \<open>Memory safety of the decoder of \<^verbatim>\<open>pb_decode.c\<close>: the functions that set defaults, the decoders of
  fields and the loop over a message keep every invariant of the memory that the stores of the message keep.
  With the bytes of the message for the set of stores this says that no byte outside them is written.\<close>

unbundle bit_operations_syntax

subsection \<open>Defaults\<close>

lemma set_field_default_static:
  fixes m :: mem
  assumes "PB_ATYPE (pf_type (it_field iter)) = PB_ATYPE_STATIC" "PB_LTYPE (pf_type (it_field iter)) \<noteq> PB_LTYPE_EXTENSION"
  defines "f \<equiv> it_field iter" and "h \<equiv> PB_HTYPE (pf_type (it_field iter))"
  defines "opt \<equiv> h = PB_HTYPE_OPTIONAL \<and> pSize iter \<noteq> Size_at (pData iter)" and "many \<equiv> h = PB_HTYPE_REPEATED \<or> h = PB_HTYPE_ONEOF"
  defines "m3 \<equiv> if opt then store_size_mem (pSize iter) [0] m else if many then store_size_mem (pSize iter) (le_bytes 4 (0 :: u32)) m else m"
  shows "pb_field_set_to_default (Suc i) desc iter m =
    (if many then Some m3
     else if PB_LTYPE (pf_type f) = PB_LTYPE_SUBMESSAGE then pb_message_set_to_defaults i desc (desc (pf_ptr f)) (pData iter) m3
     else if pf_ptr f \<noteq> 0 then Some (store_bytes m3 (pData iter) (load_bytes m3 (pf_ptr f) (unat (data_size f))))
     else Some (store_bytes m3 (pData iter) (replicate (unat (data_size f)) 0)))"
proof -
  note lhs = pb_field_set_to_default.simps(2) [of i desc iter m, unfolded Let_def, folded f_def h_def, folded f_def, folded opt_def many_def]
  consider "opt" "\<not> many" | "many" "\<not> opt" | "\<not> opt" "\<not> many" unfolding opt_def many_def by fastforce
  then show ?thesis
    using assms(1,2) unfolding lhs pb_message_set_to_defaults_def m3_def f_def [symmetric]
    by cases (simp_all del: pb_types)
qed

context store_invariant
begin

lemma defaults_keep:
  "default_stores may desc r fs dest \<Longrightarrow> static_message desc r fs \<Longrightarrow> inv m \<Longrightarrow>
   pb_message_set_to_defaults n desc fs dest m = Some m' \<Longrightarrow> inv m'"
proof (induction r arbitrary: fs dest n m m')
  case (Suc r)
  have field: "inv m2"
    if "k \<in> entries fs" "inv m1" "pb_field_set_to_default j desc (iter_at fs dest k) m1 = Some m2" for k j m1 m2
  proof (cases j)
    case (Suc i)
    define f p sp where "f = field_at fs k" and "p = field_addr fs dest k" and "sp = field_size_ptr fs dest k"
    define h where "h = PB_HTYPE (pf_type f)"
    have sf: "static_field f" unfolding f_def by (rule static_entry [OF Suc.prems(2)])
    have st: "PB_ATYPE (pf_type f) = PB_ATYPE_STATIC" "PB_LTYPE (pf_type f) \<noteq> PB_LTYPE_EXTENSION"
      "PB_LTYPE (pf_type f) = PB_LTYPE_SUBMESSAGE \<Longrightarrow> static_message desc r (desc (pf_ptr f))"
      using sf static_sub [OF Suc.prems(2)] by (simp_all add: f_def static_field_def)
    have ds: "h = PB_HTYPE_OPTIONAL \<and> sp \<noteq> p \<Longrightarrow> may sp [0]"
      "h = PB_HTYPE_REPEATED \<or> h = PB_HTYPE_ONEOF \<Longrightarrow> may sp (le_bytes 4 (0 :: u32))"
      "\<not> (h = PB_HTYPE_REPEATED \<or> h = PB_HTYPE_ONEOF) \<Longrightarrow> PB_LTYPE (pf_type f) = PB_LTYPE_SUBMESSAGE \<Longrightarrow> default_stores may desc r (desc (pf_ptr f)) p"
      "\<not> (h = PB_HTYPE_REPEATED \<or> h = PB_HTYPE_ONEOF) \<Longrightarrow> PB_LTYPE (pf_type f) \<noteq> PB_LTYPE_SUBMESSAGE \<Longrightarrow>
         if pf_ptr f = 0 then may p (replicate (unat (data_size f)) 0) else \<forall>bs. length bs = unat (data_size f) \<longrightarrow> may p bs"
      using bspec [OF Suc.prems(1) [unfolded default_stores.simps] that(1)]
      unfolding Let_def f_def [symmetric] p_def [symmetric] sp_def [symmetric] h_def [symmetric] by (metis)+
    define opt where "opt \<longleftrightarrow> h = PB_HTYPE_OPTIONAL \<and> sp \<noteq> p"
    define many where "many \<longleftrightarrow> h = PB_HTYPE_REPEATED \<or> h = PB_HTYPE_ONEOF"
    define m3 where "m3 = (if opt then store_bytes m1 sp [0] else if many then store_bytes m1 sp (le_bytes 4 (0 :: u32)) else m1)"
    have i3: "inv m3" using that(2) ds(1,2) unfolding m3_def opt_def many_def by (auto intro: store)
    have init: "inv m2" if no: "\<not> many" and r: "(if PB_LTYPE (pf_type f) = PB_LTYPE_SUBMESSAGE then pb_message_set_to_defaults i desc (desc (pf_ptr f)) p m3
        else if pf_ptr f \<noteq> 0 then Some (store_bytes m3 p (load_bytes m3 (pf_ptr f) (unat (data_size f))))
        else Some (store_bytes m3 p (replicate (unat (data_size f)) 0))) = Some m2"
    proof (cases "PB_LTYPE (pf_type f) = PB_LTYPE_SUBMESSAGE")
      case True
      then have "pb_message_set_to_defaults i desc (desc (pf_ptr f)) p m3 = Some m2" using r by simp
      with ds(3) [OF no [unfolded many_def] True] st(3) [OF True] i3 show ?thesis by (rule Suc.IH)
    next
      case False
      then have "m2 = (if pf_ptr f = 0 then store_bytes m3 p (replicate (unat (data_size f)) 0)
          else store_bytes m3 p (load_bytes m3 (pf_ptr f) (unat (data_size f))))"
        using r by (auto split: if_splits)
      then show ?thesis using ds(4) [OF no [unfolded many_def] False] i3
        by (cases "pf_ptr f = 0") (auto simp: load_bytes_def intro: store)
    qed
    have "pb_field_set_to_default (Suc i) desc (iter_at fs dest k) m1 =
        (if many then Some m3
         else if PB_LTYPE (pf_type f) = PB_LTYPE_SUBMESSAGE then pb_message_set_to_defaults i desc (desc (pf_ptr f)) p m3
         else if pf_ptr f \<noteq> 0 then Some (store_bytes m3 p (load_bytes m3 (pf_ptr f) (unat (data_size f))))
         else Some (store_bytes m3 p (replicate (unat (data_size f)) 0)))"
      using set_field_default_static [of "iter_at fs dest k" i desc m1] st(1,2)
      by (simp add: f_def p_def sp_def h_def many_def m3_def opt_def store_size_mem_def del: pb_types)
    then show ?thesis using that(3) i3 init Suc by (auto split: if_splits)
  qed (use that in simp)
  have loop: "inv m2"
    if "k \<in> entries fs" "inv m1" "set_loop_to_default j desc (iter_at fs dest k) m1 = Some m2" for k j m1 m2
    using that
  proof (induction j arbitrary: k m1)
    case (Suc j)
    then obtain m3 where m3: "pb_field_set_to_default j desc (iter_at fs dest k) m1 = Some m3" by (auto split: option.splits)
    then have i: "inv m3" using field Suc.prems by blast
    obtain ok it where nx: "pb_field_iter_next (iter_at fs dest k) = (ok, it)" by fastforce
    obtain k' where k': "k' \<in> entries fs" "it = iter_at fs dest k'" using next_entry [OF Suc.prems(1), of dest] nx by auto
    show ?case
    proof (cases ok)
      case True
      then show ?thesis using Suc.IH [OF k'(1) i] Suc.prems(3) m3 nx k'(2) by simp
    next
      case False
      then show ?thesis using Suc.prems(3) m3 nx i by simp
    qed
  qed simp
  show ?case using Suc.prems(3,4) loop [of 0]
    by (cases "0 < field_count fs") (auto simp: pb_message_set_to_defaults_def begin_iter_at entries_def)
qed simp

end

subsection \<open>Releasing a message of static fields\<close>

lemma static_release_items:
  assumes "\<And>n p hm hm'. pb_release n env fs p hm = Some hm' \<Longrightarrow> hm' = hm"
  shows "release_items n env fs step count p hm = Some hm' \<Longrightarrow> hm' = hm"
proof (induction n arbitrary: count p hm)
  case (Suc n)
  show ?case
  proof (cases "count = 0")
    case False
    obtain hm1 where 1: "pb_release n env fs p hm = Some hm1" "release_items n env fs step (count - 1) (p + step) hm1 = Some hm'"
      using Suc.prems False by (auto simp: pb_release_def split: option.splits)
    then have "hm1 = hm" using assms by blast
    then show ?thesis using Suc.IH 1(2) by blast
  qed (use Suc.prems in simp)
qed (simp split: if_splits)

lemma static_release_field:
  assumes f: "static_field (it_field iter)"
    and sub: "PB_LTYPE (pf_type (it_field iter)) = PB_LTYPE_SUBMESSAGE \<Longrightarrow>
      (\<And>n p hm hm'. pb_release n env (de_fields env (pf_ptr (it_field iter))) p hm = Some hm' \<Longrightarrow> hm' = hm)"
    and r: "pb_release_single_field n env iter hm = Some hm'"
  shows "hm' = hm"
proof (cases n)
  case (Suc j)
  have items: "release_items j env (de_fields env (pf_ptr (it_field iter))) step count p hm = Some hm1 \<Longrightarrow> hm1 = hm"
    if "PB_LTYPE (pf_type (it_field iter)) = PB_LTYPE_SUBMESSAGE" for step count p hm1
    by (rule static_release_items [OF sub [OF that]])
  have t: "PB_ATYPE (pf_type (it_field iter)) \<noteq> PB_ATYPE_POINTER" "PB_LTYPE (pf_type (it_field iter)) \<noteq> PB_LTYPE_EXTENSION"
    using f by (simp_all add: static_field_def)
  show ?thesis using r t items unfolding Suc pb_release_single_field.simps release_field_def Let_def
    by (auto simp del: pb_types split: if_splits option.splits)
qed (use r in simp)

lemma static_release:
  "static_message (de_fields env) r fs \<Longrightarrow> pb_release n env fs dest hm = Some hm' \<Longrightarrow> hm' = hm"
proof (induction r arbitrary: fs n dest hm hm')
  case (Suc r)
  have field: "hm2 = hm1" if "pb_release_single_field j env (iter_at fs dest k) hm1 = Some hm2" for k j hm1 hm2
  proof (rule static_release_field [OF _ _ that])
    show "static_field (it_field (iter_at fs dest k))" using static_entry [OF Suc.prems(1)] by simp
    show "hm' = hm" if "PB_LTYPE (pf_type (it_field (iter_at fs dest k))) = PB_LTYPE_SUBMESSAGE"
      "pb_release n env (de_fields env (pf_ptr (it_field (iter_at fs dest k)))) p hm = Some hm'" for n p hm hm'
      using Suc.IH [OF static_sub [OF Suc.prems(1)]] that by simp
  qed
  have loop: "release_loop j env (iter_at fs dest k) hm1 = Some hm2 \<Longrightarrow> hm2 = hm1" if "k \<in> entries fs" for k j hm1 hm2
    using that
  proof (induction j arbitrary: k hm1)
    case (Suc j)
    obtain hm3 where h3: "pb_release_single_field j env (iter_at fs dest k) hm1 = Some hm3" using Suc.prems(1) by (auto split: option.splits)
    then have "hm3 = hm1" by (rule field)
    obtain ok it where nx: "pb_field_iter_next (iter_at fs dest k) = (ok, it)" by fastforce
    obtain k' where k': "k' \<in> entries fs" "it = iter_at fs dest k'" using next_entry [OF Suc.prems(2), of dest] nx by auto
    show ?case
    proof (cases ok)
      case True
      then show ?thesis using Suc.IH [of k' hm3] k' Suc.prems(1) h3 nx \<open>hm3 = hm1\<close> by simp
    next
      case False
      then show ?thesis using Suc.prems(1) h3 nx \<open>hm3 = hm1\<close> by simp
    qed
  qed simp
  show ?case using Suc.prems(2) loop [of 0]
    by (cases "0 < field_count fs") (auto simp: pb_release_def begin_iter_at entries_def split: if_splits)
qed simp

subsection \<open>The decoders of static fields\<close>

lemma htype_cases: "PB_HTYPE x \<in> {PB_HTYPE_REQUIRED, PB_HTYPE_OPTIONAL, PB_HTYPE_REPEATED, PB_HTYPE_ONEOF}"
proof -
  have eq: "x AND 0x30 = (if bit x 4 then if bit x 5 then 0x30 else 0x10 else if bit x 5 then 0x20 else 0)"
    by (rule bit_eqI) (auto simp: bit_simps bit_numeral_rec less_Suc_eq numeral_eq_Suc)
  show ?thesis unfolding PB_HTYPE_def eq by simp
qed

lemma own_item: "PB_HTYPE (pf_type f) \<noteq> PB_HTYPE_REPEATED \<Longrightarrow> p \<in> item_addrs f p"
  by (simp add: item_addrs_def)

context store_invariant
begin

text \<open>What the proofs need of one field: the stores at its size pointer, and at each item.\<close>

definition item_stores :: "(addr \<Rightarrow> pb_field list) \<Rightarrow> nat \<Rightarrow> pb_field \<Rightarrow> addr \<Rightarrow> bool" where
  "item_stores desc r f q \<longleftrightarrow>
     (let htype = PB_HTYPE (pf_type f) in
      if PB_LTYPE (pf_type f) = PB_LTYPE_SUBMESSAGE then
        message_stores may desc r (desc (pf_ptr f)) q \<and>
        (htype = PB_HTYPE_REPEATED \<or> htype = PB_HTYPE_ONEOF \<longrightarrow> default_stores may desc r (desc (pf_ptr f)) q) \<and>
        (htype = PB_HTYPE_ONEOF \<longrightarrow> may q (replicate (unat (data_size f)) 0))
      else value_stores may f q)"

definition noinit_keeps :: "(addr \<Rightarrow> pb_field list) \<Rightarrow> ('s, 'h) pb_sub \<Rightarrow> bool" where
  "noinit_keeps desc noinit \<longleftrightarrow>
     (\<forall>r fs dest. static_message desc r fs \<longrightarrow> message_stores may desc r fs dest \<longrightarrow> dec_keeps (noinit fs dest))"

lemma keeps_defaults:
  assumes "static_message desc r fs" "default_stores may desc r fs dest"
  shows "dec_keeps (dec_mem (pb_message_set_to_defaults n desc fs dest))"
  by (rule keeps_mem) (rule defaults_keep [OF assms(2,1)])

lemma keeps_release:
  fixes env :: "('s, 'h) pb_dec_env"
  assumes "static_message (de_fields env) r fs"
  shows "dec_keeps (dec_release (pb_release n env fs dest) :: ('s, 'h) pb_dec)"
  unfolding dec_keeps_def dec_release_def
proof (intro allI impI)
  fix st :: "('s, 'h) pb_state" and ok st'
  assume i: "inv (ps_mem st)" and r: "map_option (\<lambda>(h, m). (True, st\<lparr>ps_heap := h, ps_mem := m\<rparr>)) (pb_release n env fs dest (ps_heap st, ps_mem st)) = Some (ok, st')"
  then obtain h m where hm: "pb_release n env fs dest (ps_heap st, ps_mem st) = Some (h, m)" "ps_mem st' = m" by auto
  then have "(h, m) = (ps_heap st, ps_mem st)" using static_release [OF assms] by blast
  then show "inv (ps_mem st')" using i hm(2) by simp
qed

lemma keeps_decode_with:
  fixes noinit :: "('s, 'h) pb_sub"
  assumes "static_message (de_fields env) r fs" "default_stores may (de_fields env) r fs dest" "dec_keeps (noinit fs dest)"
  shows "dec_keeps (pb_decode_with n env noinit fs dest)"
  unfolding dec_keeps_def
proof (intro allI impI)
  fix st :: "('s, 'h) pb_state" and ok st'
  assume i: "inv (ps_mem st)" and r: "pb_decode_with n env noinit fs dest st = Some (ok, st')"
  have "dec_keeps (dec_then (dec_mem (pb_message_set_to_defaults n (de_fields env) fs dest)) (noinit fs dest))"
    by (intro keeps_then keeps_defaults [OF assms(1,2)] assms(3))
  moreover obtain ok1 st1 where 1: "dec_then (dec_mem (pb_message_set_to_defaults n (de_fields env) fs dest)) (noinit fs dest) st = Some (ok1, st1)"
    using r by (auto simp: pb_decode_with_def split: option.splits)
  ultimately have i1: "inv (ps_mem st1)" using i dec_keepsD by blast
  show "inv (ps_mem st')"
  proof (cases ok1)
    case True
    then show ?thesis using r 1 i1 by (simp add: pb_decode_with_def)
  next
    case False
    then obtain ok2 where "dec_release (pb_release n env fs dest) st1 = Some (ok2, st')"
      using r 1 by (auto simp: pb_decode_with_def)
    then show ?thesis using dec_keepsD [OF keeps_release [OF assms(1)] i1] by blast
  qed
qed

lemma keeps_item:
  fixes noinit :: "('s, 'h) pb_sub"
  assumes cb: "callback_fits (de_callback env)" and ni: "noinit_keeps (de_fields env) noinit"
    and f: "static_field f" "PB_LTYPE (pf_type f) = PB_LTYPE_SUBMESSAGE \<Longrightarrow> static_message (de_fields env) r (de_fields env (pf_ptr f))"
    and s: "item_stores (de_fields env) r f q"
  shows "dec_keeps (PB_DECODERS n env noinit (PB_LTYPE (pf_type f)) f q)"
proof (cases "PB_LTYPE (pf_type f) = PB_LTYPE_SUBMESSAGE")
  case True
  have st: "message_stores may (de_fields env) r (de_fields env (pf_ptr f)) q"
      "PB_HTYPE (pf_type f) = PB_HTYPE_REPEATED \<Longrightarrow> default_stores may (de_fields env) r (de_fields env (pf_ptr f)) q"
    using s True unfolding item_stores_def Let_def by (simp_all del: pb_types)
  have no: "dec_keeps (noinit (de_fields env (pf_ptr f)) q)" using ni f(2) [OF True] st(1) unfolding noinit_keeps_def by blast
  have "dec_keeps (pb_dec_submessage n env noinit f q)"
    unfolding pb_dec_submessage_def Let_def
    by (intro keeps_dec_if keeps_substream keeps_true keeps_error keeps_close no keeps_decode_with [OF f(2) [OF True]] st(2)) 
  then show ?thesis unfolding True PB_DECODERS_def Let_def by simp
next
  case False
  then show ?thesis
    using s by (intro keeps_value [OF cb] static_not_pointer [OF f(1)]) (simp_all add: item_stores_def Let_def del: pb_types)
qed

lemma keeps_packed_loop:
  assumes "\<And>c. c < array_size (it_field iter) \<Longrightarrow> dec_keeps (func (pData iter + ucast (data_size (it_field iter) * c)))"
    and "\<And>bs. length bs = 4 \<Longrightarrow> act_keeps (act_size (pSize iter) bs :: ('s, 'h) pb_act)"
  shows "dec_keeps (static_packed_loop n iter func :: ('s, 'h) pb_dec)"
proof (induction n)
  case (Suc n)
  show ?case unfolding dec_keeps_def
  proof (intro allI impI)
    fix st :: "('s, 'h) pb_state" and ok st'
    assume i: "inv (ps_mem st)" and r: "static_packed_loop (Suc n) iter func st = Some (ok, st')"
    let ?c = "size_count (pSize iter) st"
    show "inv (ps_mem st')"
    proof (cases "bytes_left (ps_stream st) > 0 \<and> ?c < array_size (it_field iter)")
      case True
      then obtain ok1 st1 where 1: "func (pData iter + ucast (data_size (it_field iter) * ?c)) st = Some (ok1, st1)"
        using r by (auto simp: Let_def split: option.splits)
      have i1: "inv (ps_mem st1)" using dec_keepsD [OF assms(1) i 1] True by blast
      show ?thesis
      proof (cases ok1)
        case False
        then show ?thesis using r 1 True i1 by (simp add: Let_def)
      next
        case t: True
        define st2 where "st2 = snd (act_size (pSize iter) (le_bytes 4 (size_count (pSize iter) st1 + 1)) st1)"
        have "inv (ps_mem st2)" unfolding st2_def
          using assms(2) [of "le_bytes 4 (size_count (pSize iter) st1 + 1)"] i1 by (simp add: length_le_bytes act_keeps_def)
        moreover have "static_packed_loop n iter func st2 = Some (ok, st')" using r 1 True t by (simp add: Let_def st2_def)
        ultimately show ?thesis using dec_keepsD [OF Suc.IH] by blast
      qed
    next
      case False
      then show ?thesis using r i by (auto simp: Let_def split: if_splits)
    qed
  qed
qed (simp add: dec_keeps_def)

lemma keeps_packed:
  fixes func :: "addr \<Rightarrow> ('s, 'h) pb_dec"
  assumes "\<And>c. c < array_size (it_field iter) \<Longrightarrow> dec_keeps (func (pData iter + ucast (data_size (it_field iter) * c)))"
    and "\<And>bs. length bs = 4 \<Longrightarrow> act_keeps (act_size (pSize iter) bs :: ('s, 'h) pb_act)"
  shows "dec_keeps (dec_substream cb (\<lambda>st. static_packed_loop (Suc (bytes_left (ps_stream st))) iter func st)
    (\<lambda>status substream. if bytes_left substream \<noteq> 0 then act_error ''array overflow'' else close_with cb status substream))"
proof -
  have "dec_keeps (\<lambda>st. static_packed_loop (Suc (bytes_left (ps_stream st))) iter func st)"
    using keeps_packed_loop [of iter func, OF assms] unfolding dec_keeps_def by blast
  then show ?thesis by (intro keeps_substream keeps_act_if keeps_error keeps_close)
qed

lemma keeps_append:
  fixes func :: "addr \<Rightarrow> ('s, 'h) pb_dec"
  assumes "\<And>c. c < asize \<Longrightarrow> dec_keeps (func (p + ucast (dsize * c)))"
    and "\<And>bs. length bs = 4 \<Longrightarrow> act_keeps (act_size sp bs :: ('s, 'h) pb_act)"
  shows "dec_keeps (dec_then (dec_pure (act_size sp (le_bytes 4 (c + 1 :: u32))))
    (if c \<ge> asize then dec_pure (act_error ''array overflow'') else func (p + ucast (dsize * c))))"
  by (intro keeps_then keeps_pure keeps_dec_if keeps_error assms) (simp_all add: length_le_bytes not_le)

lemma keeps_union:
  fixes func :: "addr \<Rightarrow> ('s, 'h) pb_dec"
  assumes "dec_keeps (func p)" "\<And>bs. length bs = 4 \<Longrightarrow> act_keeps (act_size sp bs :: ('s, 'h) pb_act)"
    and "sub \<Longrightarrow> may p (replicate n 0)" "sub \<Longrightarrow> static_message desc r fs" "sub \<Longrightarrow> default_stores may desc r fs p"
  shows "dec_keeps (dec_then (dec_pure (act_size sp (le_bytes 4 (tag :: u32))))
    (dec_then (if sub then dec_then (dec_pure (act_store p (replicate n 0))) (dec_mem (pb_message_set_to_defaults k desc fs p)) else dec_true)
      (func p)))"
  by (intro keeps_then keeps_pure keeps_dec_if keeps_true keeps_store keeps_defaults [where r = r] assms) (simp_all add: length_le_bytes)

lemma keeps_static_field:
  fixes noinit :: "('s, 'h) pb_sub"
  assumes cb: "callback_fits (de_callback env)" and ni: "noinit_keeps (de_fields env) noinit"
    and f: "static_field f" "PB_LTYPE (pf_type f) = PB_LTYPE_SUBMESSAGE \<Longrightarrow> static_message (de_fields env) r (de_fields env (pf_ptr f))"
    and items: "\<And>q. q \<in> item_addrs f p \<Longrightarrow> item_stores (de_fields env) r f q"
    and opt: "PB_HTYPE (pf_type f) = PB_HTYPE_OPTIONAL \<and> sp \<noteq> p \<Longrightarrow> may sp [1]"
    and cnt: "\<And>bs. PB_HTYPE (pf_type f) = PB_HTYPE_REPEATED \<or> PB_HTYPE (pf_type f) = PB_HTYPE_ONEOF \<Longrightarrow> length bs = 4 \<Longrightarrow> may sp bs"
    and it: "it_field iter = f" "pData iter = p" "pSize iter = Size_at sp \<or> PB_HTYPE (pf_type f) = PB_HTYPE_REPEATED \<and> pSize iter = Local_count"
  shows "dec_keeps (decode_static_field n env noinit wt iter)"
proof -
  define h where "h = PB_HTYPE (pf_type f)"
  define l where "l = PB_LTYPE (pf_type f)"
  define func where "func = PB_DECODERS n env noinit l f"
  have fn: "dec_keeps (func q)" if "q \<in> item_addrs f p" for q
    unfolding func_def l_def by (rule keeps_item [OF cb ni f items [OF that]])
  have one: "dec_keeps (func p)" if "h \<noteq> PB_HTYPE_REPEATED" using that own_item unfolding h_def by (intro fn)
  have item: "dec_keeps (func (p + ucast (data_size f * c)))" if "h = PB_HTYPE_REPEATED" "c < array_size f" for c
    using that unfolding h_def by (intro fn item_addrs_index)
  have size: "act_keeps (act_size (pSize iter) bs :: ('s, 'h) pb_act)"
    if "h = PB_HTYPE_REPEATED \<or> h = PB_HTYPE_ONEOF" "length bs = 4" for bs
    using that it(3) cnt unfolding h_def by (intro keeps_size) auto
  have opt_size: "act_keeps (act_size (pSize iter) [1] :: ('s, 'h) pb_act)" if "h = PB_HTYPE_OPTIONAL" "pSize iter \<noteq> Size_at p"
    using that it(3) opt unfolding h_def by (intro keeps_size) auto
  have sub: "may p (replicate (unat (data_size f)) 0)" "static_message (de_fields env) r (de_fields env (pf_ptr f))"
      "default_stores may (de_fields env) r (de_fields env (pf_ptr f)) p" if "h = PB_HTYPE_ONEOF" "l = PB_LTYPE_SUBMESSAGE"
    using items [OF own_item] f(2) that unfolding item_stores_def Let_def h_def l_def by simp_all
  have R: "dec_keeps (func p)" if "h = PB_HTYPE_REQUIRED" using that by (intro one) simp
  have O: "dec_keeps (dec_then (if pSize iter \<noteq> Size_at p then dec_pure (act_size (pSize iter) [1]) else dec_true) (func p))"
    if "h = PB_HTYPE_OPTIONAL"
    using that by (intro keeps_then keeps_pure keeps_dec_if keeps_true opt_size one) simp_all
  note P = keeps_packed [of iter func "de_callback env", unfolded it(1,2), OF item size]
  note S = keeps_append [of "array_size f" func p "data_size f" "pSize iter", OF item size]
  note U = keeps_union [of func p "pSize iter", OF one size sub]
  show ?thesis unfolding dec_keeps_def
  proof (intro allI impI)
    fix st :: "('s, 'h) pb_state" and ok st'
    assume i: "inv (ps_mem st)" and r: "decode_static_field n env noinit wt iter st = Some (ok, st')"
    note r = r [unfolded decode_static_field_def Let_def it, folded h_def l_def, folded func_def]
    consider "h = PB_HTYPE_REQUIRED" | "h = PB_HTYPE_OPTIONAL" | "h = PB_HTYPE_REPEATED" | "h = PB_HTYPE_ONEOF"
      using htype_cases [of "pf_type f"] unfolding h_def by blast
    then show "inv (ps_mem st')"
    proof cases
      case 1
      then show ?thesis using r dec_keepsD [OF R i] by simp
    next
      case 2
      then show ?thesis using r dec_keepsD [OF O i] by simp
    next
      case 3
      then show ?thesis using r dec_keepsD [OF P i] dec_keepsD [OF S i] by (auto split: if_splits)
    next
      case 4
      then show ?thesis using r dec_keepsD [OF U i] by simp
    qed
  qed
qed

end

subsection \<open>The loop\<close>

lemma points_find: "points fs dest iter \<Longrightarrow> pb_field_iter_find iter tag = Some (found, iter') \<Longrightarrow> points fs dest iter'"
  unfolding pb_field_iter_find_def by (blast dest: points_find_loop)

lemma no_extension_field:
  assumes "static_message desc r fs" "points fs dest iter" "find_extension_field iter = Some (found, iter')"
  shows "\<not> found \<and> points fs dest iter'"
proof -
  from points_find_loop [OF assms(2) assms(3) [unfolded find_extension_field_def]]
  have p: "points fs dest iter'" "found \<Longrightarrow> PB_LTYPE (pf_type (it_field iter')) = PB_LTYPE_EXTENSION" by blast+
  obtain k where "it_field iter' = field_at fs k" using points_field [OF p(1)] by blast
  then have "static_field (it_field iter')" using static_entry [OF assms(1)] by simp
  then show ?thesis using p unfolding static_field_def by blast
qed

lemma tag_number_bound: "pb_decode_tag cb s = (Some (wt, tag), eof, s') \<Longrightarrow> tag < 0x20000000"
proof -
  assume "pb_decode_tag cb s = (Some (wt, tag), eof, s')"
  then obtain v :: u32 where v: "tag = drop_bit 3 v" by (auto simp: pb_decode_tag_def split: prod.splits option.splits if_splits)
  have "unat v < 4294967296" by (rule unat_u32_less)
  then have "unat v div 8 < 536870912" by (intro less_mult_imp_div_less) simp
  then have "unat tag < 0x20000000" unfolding v by (simp add: drop_bit_eq_div unat_div)
  then show ?thesis by (simp add: word_less_nat_alt)
qed

context store_invariant
begin

lemma keeps_field_at:
  fixes noinit :: "('s, 'h) pb_sub"
  assumes cb: "callback_fits (de_callback env)" and ni: "noinit_keeps (de_fields env) noinit"
    and m: "static_message (de_fields env) r fs" "message_stores may (de_fields env) r fs dest" and p: "points fs dest iter"
  shows "dec_keeps (decode_static_field n env noinit wt iter)"
proof -
  obtain r' where r: "r = Suc r'" using m(1) by (cases r) auto
  obtain k where k: "k \<in> entries fs" "it_field iter = field_at fs k" "pData iter = field_addr fs dest k"
      "pSize iter = Size_at (field_size_ptr fs dest k) \<or> PB_HTYPE (pf_type (field_at fs k)) = PB_HTYPE_REPEATED \<and> pSize iter = Local_count"
    using points_field [OF p] by blast
  note f = static_entry [OF m(1)] static_sub [OF m(1) [unfolded r]]
  note st = bspec [OF m(2) [unfolded r message_stores.simps] k(1), unfolded Let_def]
  show ?thesis
  proof (rule keeps_static_field [OF cb ni f _ _ _ k(2,3,4)])
    show "item_stores (de_fields env) r' (field_at fs k) q" if "q \<in> item_addrs (field_at fs k) (field_addr fs dest k)" for q
      using st that unfolding item_stores_def Let_def by blast
  qed (use st in blast)+
qed

lemma keeps_decode_field:
  fixes noinit :: "('s, 'h) pb_sub"
  assumes cb: "callback_fits (de_callback env)" and ni: "noinit_keeps (de_fields env) noinit"
    and m: "static_message (de_fields env) r fs" "message_stores may (de_fields env) r fs dest" and p: "points fs dest iter"
    and i: "inv (ps_mem st)" and d: "decode_field n env noinit wt iter st = Some (ok, iter', st')"
  shows "points fs dest iter' \<and> inv (ps_mem st')"
proof -
  have static: "PB_ATYPE (pf_type (it_field it)) = PB_ATYPE_STATIC" if "points fs dest it" for it
    using points_field [OF that] static_entry [OF m(1)] by (metis static_field_def)
  have rel: "points fs dest it \<and> inv (ps_mem st1)" if u: "pb_release_union_field n env iter st = Some (ok1, it, st1)" for ok1 it st1
  proof (cases "size_count (pSize iter) st = 0 \<or> size_count (pSize iter) st = pf_tag (it_field iter)")
    case True
    then show ?thesis using u p i by (auto simp: pb_release_union_field_def Let_def)
  next
    case False
    then obtain found it1 where 1: "pb_field_iter_find iter (size_count (pSize iter) st) = Some (found, it1)"
      using u by (auto simp: pb_release_union_field_def Let_def split: option.splits)
    have p1: "points fs dest it1" by (rule points_find [OF p 1])
    show ?thesis
    proof (cases found)
      case False
      then show ?thesis using u 1 \<open>\<not> (_ \<or> _)\<close> p1 i by (auto simp: pb_release_union_field_def Let_def act_error_def)
    next
      case t: True
      then obtain x st2 where 2: "dec_release (pb_release_single_field n env it1) st = Some (x, st2)"
        using u 1 False by (auto simp: pb_release_union_field_def Let_def split: option.splits)
      obtain k where k: "k \<in> entries fs" "it_field it1 = field_at fs k" using points_field [OF p1] by blast
      have sf: "static_field (it_field it1)" using static_entry [OF m(1)] k(2) by simp
      have sub: "\<exists>r. static_message (de_fields env) r (de_fields env (pf_ptr (it_field it1)))"
        if "PB_LTYPE (pf_type (it_field it1)) = PB_LTYPE_SUBMESSAGE"
      proof -
        obtain r' where "r = Suc r'" using m(1) by (cases r) auto
        then show ?thesis using static_sub m(1) k(2) that by metis
      qed
      have "hm' = (ps_heap st, ps_mem st)" if "pb_release_single_field n env it1 (ps_heap st, ps_mem st) = Some hm'" for hm'
        by (rule static_release_field [OF sf _ that]) (use sub static_release in blast)
      then have i2: "inv (ps_mem st2)" using 2 i by (auto simp: dec_release_def)
      obtain found3 it3 where 3: "pb_field_iter_find it1 (pf_tag (it_field iter)) = Some (found3, it3)"
        using u 1 2 t False by (auto simp: pb_release_union_field_def Let_def split: option.splits)
      have "points fs dest it3" by (rule points_find [OF p1 3])
      then show ?thesis using u 1 2 3 t False i2
        by (cases found3) (auto simp: pb_release_union_field_def Let_def act_error_def)
    qed
  qed
  obtain ok1 it1 st1 where 1: "(if PB_HTYPE (pf_type (it_field iter)) = PB_HTYPE_ONEOF then pb_release_union_field n env iter st
      else Some (True, iter, st)) = Some (ok1, it1, st1)"
    using d by (auto simp: decode_field_def split: option.splits)
  have p1: "points fs dest it1 \<and> inv (ps_mem st1)" using 1 rel p i by (auto simp del: pb_types split: if_splits)
  show ?thesis
  proof (cases ok1)
    case False
    then show ?thesis using d 1 p1 by (simp add: decode_field_def)
  next
    case True
    have "map_option (\<lambda>(ok, st). (ok, it1, st)) (decode_static_field n env noinit wt it1 st1) = Some (ok, iter', st')"
      using d static [of it1] p1 True unfolding decode_field_def 1 Let_def by auto
    then have "decode_static_field n env noinit wt it1 st1 = Some (ok, st')" "iter' = it1" by auto
    then show ?thesis using dec_keepsD [OF keeps_field_at [OF cb ni m]] p1 by blast
  qed
qed

lemma keeps_decode_known:
  fixes noinit :: "('s, 'h) pb_sub"
  assumes cb: "callback_fits (de_callback env)" and ni: "noinit_keeps (de_fields env) noinit"
    and m: "static_message (de_fields env) r fs" "message_stores may (de_fields env) r fs dest" and p: "points fs dest (ls_iter ls)"
    and i: "inv (ps_mem st)" and d: "decode_known n env noinit wt ls st = Some (step, ls', st')"
  shows "points fs dest (ls_iter ls') \<and> inv (ps_mem st')"
proof -
  define iter where "iter = ls_iter ls"
  define fixed where "fixed \<longleftrightarrow> PB_HTYPE (pf_type (it_field iter)) = PB_HTYPE_REPEATED \<and> pSize iter = Size_at (pData iter)"
  define fresh where "fresh \<longleftrightarrow> fixed \<and> fixed_count_field ls \<noteq> Some (it_pos iter)"
  define iter1 where "iter1 = (if fixed then iter\<lparr>pSize := Local_count\<rparr> else iter)"
  define st1 where "st1 = (if fresh then st\<lparr>ps_count := 0\<rparr> else st)"
  have "points fs dest (iter\<lparr>pSize := Local_count\<rparr>)" if "PB_HTYPE (pf_type (it_field iter)) = PB_HTYPE_REPEATED"
  proof -
    obtain k where k: "k \<in> entries fs" "iter = iter_at fs dest k \<or>
        PB_HTYPE (pf_type (field_at fs k)) = PB_HTYPE_REPEATED \<and> iter = (iter_at fs dest k)\<lparr>pSize := Local_count\<rparr>"
      using p unfolding points_def iter_def by blast
    then have "PB_HTYPE (pf_type (field_at fs k)) = PB_HTYPE_REPEATED" "iter\<lparr>pSize := Local_count\<rparr> = (iter_at fs dest k)\<lparr>pSize := Local_count\<rparr>"
      using that by (auto simp del: pb_types)
    then show ?thesis using k(1) unfolding points_def by blast
  qed
  then have p1: "points fs dest iter1" using p unfolding iter1_def fixed_def iter_def by simp
  have i1: "inv (ps_mem st1)" using i by (simp add: st1_def)
  note d = d [unfolded decode_known_def Let_def, folded iter_def, folded fixed_def, folded fresh_def, folded iter1_def st1_def]
  show ?thesis
  proof (cases "fresh \<and> (case fixed_count_field ls of None \<Rightarrow> False | Some j \<Rightarrow> ps_count st \<noteq> array_size (field_at (it_fields iter) j))")
    case True
    then show ?thesis using d p i by (auto simp: act_error_def)
  next
    case False
    then obtain ok it st2 where "decode_field n env noinit wt iter1 st1 = Some (ok, it, st2)" "ls_iter ls' = it" "st' = st2"
      using d by (auto split: option.splits)
    then show ?thesis using keeps_decode_field [OF cb ni m p1 i1] by blast
  qed
qed

lemma keeps_skip: "act_keeps (act_read rd (\<lambda>_ st. (True, st)))"
  by (intro keeps_act_read keeps_const)

lemma keeps_decode_unknown:
  fixes noinit :: "('s, 'h) pb_sub"
  assumes m: "static_message (de_fields env) r fs" and p: "points fs dest (ls_iter ls)" and t: "tag < 0x20000000"
    and i: "inv (ps_mem st)" and d: "decode_unknown n env noinit tag wt ls st = Some (step, ls', st')"
  shows "points fs dest (ls_iter ls') \<and> inv (ps_mem st')"
proof -
  define sk where "sk = act_read (pb_skip_field (de_callback env) wt) (\<lambda>_ st. (True, st)) st"
  have k: "inv (ps_mem (snd sk))" unfolding sk_def using keeps_skip i unfolding act_keeps_def by blast
  have range: "\<not> 0xFFFFFFFF \<le> tag" using t by (simp add: word_le_nat_alt word_less_nat_alt)
  show ?thesis
  proof (cases "extension_range_start ls \<le> tag")
    case False
    then show ?thesis using d p k by (auto simp: decode_unknown_def Let_def sk_def [symmetric] split: prod.splits)
  next
    case True
    then obtain found iter where f: "find_extension_field (ls_iter ls) = Some (found, iter)"
      using d by (auto simp: decode_unknown_def Let_def split: option.splits)
    have "\<not> found \<and> points fs dest iter" by (rule no_extension_field [OF m p f])
    then show ?thesis using d f True range k by (auto simp: decode_unknown_def Let_def sk_def [symmetric] split: prod.splits)
  qed
qed

lemma keeps_decode_turn:
  fixes noinit :: "('s, 'h) pb_sub"
  assumes cb: "callback_fits (de_callback env)" and ni: "noinit_keeps (de_fields env) noinit"
    and m: "static_message (de_fields env) r fs" "message_stores may (de_fields env) r fs dest" and p: "points fs dest (ls_iter ls)"
    and i: "inv (ps_mem st)" and d: "decode_turn n env noinit ls st = Some (step, ls', st')"
  shows "points fs dest (ls_iter ls') \<and> inv (ps_mem st')"
proof (cases "pb_decode_tag (de_callback env) (ps_stream st)")
  case (fields res eof s)
  show ?thesis
  proof (cases res)
    case None
    then show ?thesis using d fields p i by (auto simp: decode_turn_def)
  next
    case (Some wt_tag)
    then obtain wt tag where wt: "res = Some (wt, tag)" by (cases wt_tag) auto
    have t: "tag < 0x20000000" using tag_number_bound fields wt by blast
    define st1 where "st1 = st\<lparr>ps_stream := s\<rparr>"
    obtain found iter where f: "pb_field_iter_find (ls_iter ls) tag = Some (found, iter)"
      using d fields wt by (auto simp: decode_turn_def Let_def split: option.splits)
    have p1: "points fs dest (ls_iter (ls\<lparr>ls_iter := iter\<rparr>))" using points_find [OF p f] by simp
    have i1: "inv (ps_mem st1)" using i by (simp add: st1_def)
    have "(if found then decode_known n env noinit wt (ls\<lparr>ls_iter := iter\<rparr>) st1
        else decode_unknown n env noinit tag wt (ls\<lparr>ls_iter := iter\<rparr>) st1) = Some (step, ls', st')"
      using d unfolding decode_turn_def fields wt Let_def st1_def by (simp add: f)
    then show ?thesis
      using keeps_decode_known [OF cb ni m p1 i1] keeps_decode_unknown [OF m(1) p1 t i1] by (cases found) auto
  qed
qed

lemma keeps_finish: "dec_keeps (decode_finish ls)"
  unfolding dec_keeps_def decode_finish_def
  by (auto simp: Let_def act_error_def split: option.splits if_splits)

lemma loop_begin_points: "points fs dest (ls_iter (loop_begin fs dest))"
  by (simp add: loop_begin_def begin_iter_at points_begin)

lemma keeps_decode_loop:
  fixes env :: "('s, 'h) pb_dec_env"
  assumes cb: "callback_fits (de_callback env)"
  shows "static_message (de_fields env) r fs \<Longrightarrow> message_stores may (de_fields env) r fs dest \<Longrightarrow> points fs dest (ls_iter ls) \<Longrightarrow>
    dec_keeps (decode_loop n env ls)"
proof (induction n arbitrary: r fs dest ls)
  case (Suc n)
  let ?noinit = "\<lambda>fs dest. with_own_count (\<lambda>st. decode_loop n env (loop_begin fs dest) st)"
  have ni: "noinit_keeps (de_fields env) ?noinit"
    unfolding noinit_keeps_def
  proof (intro allI impI keeps_own_count)
    fix r fs dest
    assume "static_message (de_fields env) r fs" "message_stores may (de_fields env) r fs dest"
    then show "dec_keeps (\<lambda>st. decode_loop n env (loop_begin fs dest) st)" by (rule Suc.IH) (rule loop_begin_points)
  qed
  show ?case unfolding dec_keeps_def
  proof (intro allI impI)
    fix st :: "('s, 'h) pb_state" and ok st'
    assume i: "inv (ps_mem st)" and d: "decode_loop (Suc n) env ls st = Some (ok, st')"
    show "inv (ps_mem st')"
    proof (cases "bytes_left (ps_stream st) = 0")
      case True
      then show ?thesis using d dec_keepsD [OF keeps_finish i] by simp
    next
      case False
      then obtain step ls1 st1 where 1: "decode_turn n env ?noinit ls st = Some (step, ls1, st1)"
        using d by (auto split: option.splits)
      have t: "points fs dest (ls_iter ls1)" "inv (ps_mem st1)"
        using keeps_decode_turn [OF cb ni Suc.prems i 1] by blast+
      show ?thesis using d False 1 t(2) dec_keepsD [OF keeps_finish t(2)] dec_keepsD [OF Suc.IH [OF Suc.prems(1,2) t(1)] t(2)]
        by (cases step) auto
    qed
  qed
qed (simp add: dec_keeps_def)

lemma keeps_pb_decode_noinit:
  fixes env :: "('s, 'h) pb_dec_env"
  assumes "callback_fits (de_callback env)" "static_message (de_fields env) r fs" "message_stores may (de_fields env) r fs dest"
  shows "dec_keeps (pb_decode_noinit n env fs dest)"
  unfolding pb_decode_noinit_def by (intro keeps_own_count keeps_decode_loop [OF assms] loop_begin_points)

lemma keeps_pb_decode:
  fixes env :: "('s, 'h) pb_dec_env"
  assumes "callback_fits (de_callback env)" "static_message (de_fields env) r fs"
    and "message_stores may (de_fields env) r fs dest" "default_stores may (de_fields env) r fs dest"
  shows "dec_keeps (pb_decode n env fs dest)"
  unfolding pb_decode_def by (intro keeps_decode_with [OF assms(2,4)] keeps_pb_decode_noinit [OF assms(1,2,3)])

end

subsection \<open>The memory of a message\<close>

text \<open>The bytes of a message: for each field the marker or counter at its size pointer, and the bytes of
  its value, of each item if it is an array. A value takes the size in its descriptor, and never less
  than its decoder writes.\<close>

definition bytes_at :: "addr \<Rightarrow> nat \<Rightarrow> addr set" where
  "bytes_at p n = (\<lambda>i. p + word_of_nat i) ` {..<n}"

definition value_size :: "pb_field \<Rightarrow> nat" where
  "value_size f =
     (let l = PB_LTYPE (pf_type f) in
      max (unat (data_size f))
        (if l = PB_LTYPE_BOOL then 1 else if l = PB_LTYPE_FIXED32 then 4 else if l = PB_LTYPE_FIXED64 then 8 else 0))"

fun message_area :: "(addr \<Rightarrow> pb_field list) \<Rightarrow> nat \<Rightarrow> pb_field list \<Rightarrow> addr \<Rightarrow> addr set" where
  "message_area desc 0 fs dest = {}"
| "message_area desc (Suc r) fs dest =
     (\<Union>k \<in> entries fs.
       (let f = field_at fs k; p = field_addr fs dest k; sp = field_size_ptr fs dest k; htype = PB_HTYPE (pf_type f);
            sub = (PB_LTYPE (pf_type f) = PB_LTYPE_SUBMESSAGE) in
        (if htype = PB_HTYPE_OPTIONAL \<and> sp \<noteq> p then {sp} else {}) \<union>
        (if htype = PB_HTYPE_REPEATED \<or> htype = PB_HTYPE_ONEOF then bytes_at sp 4 else {}) \<union>
        (\<Union>q \<in> item_addrs f p.
          (if sub then message_area desc r (desc (pf_ptr f)) q else {}) \<union>
          (if sub \<and> htype \<noteq> PB_HTYPE_ONEOF then {} else bytes_at q (value_size f)))))"

abbreviation within :: "addr set \<Rightarrow> addr \<Rightarrow> byte list \<Rightarrow> bool" where
  "within D p bs \<equiv> bytes_at p (length bs) \<subseteq> D"

lemma bytes_at_part: "i + n \<le> k \<Longrightarrow> bytes_at (p + word_of_nat i) n \<subseteq> bytes_at p k"
proof
  fix x assume k: "i + n \<le> k" and "x \<in> bytes_at (p + word_of_nat i) n"
  then obtain j where "j < n" "x = p + word_of_nat (i + j)" by (auto simp: bytes_at_def add.assoc)
  then show "x \<in> bytes_at p k" using k unfolding bytes_at_def by (intro image_eqI [of _ _ "i + j"]) auto
qed

lemma bytes_at_prefix: "n \<le> k \<Longrightarrow> bytes_at p n \<subseteq> bytes_at p k"
  by (auto simp: bytes_at_def)

lemma bytes_at_one [simp]: "bytes_at p (Suc 0) = {p}"
  by (simp add: bytes_at_def lessThan_Suc)

lemma bytes_at_iff: "n \<le> 18446744073709551616 \<Longrightarrow> x \<in> bytes_at p n \<longleftrightarrow> unat (x - p) < n"
proof
  assume n: "n \<le> 18446744073709551616"
  {
    assume "x \<in> bytes_at p n"
    then obtain i where i: "i < n" "x = p + word_of_nat i" by (auto simp: bytes_at_def)
    have "unat (word_of_nat i :: addr) = i mod 18446744073709551616" by (simp add: unat_of_nat)
    then show "unat (x - p) < n" using i n by simp
  next
    assume "unat (x - p) < n"
    then show "x \<in> bytes_at p n" unfolding bytes_at_def by (intro image_eqI [of _ _ "unat (x - p)"]) simp_all
  }
qed

interpretation outside: store_invariant "\<lambda>m. \<forall>a. a \<notin> D \<longrightarrow> m a = m0 a" "within D" for D m0
proof
  fix p bs and m :: mem
  assume w: "within D p bs" and m: "\<forall>a. a \<notin> D \<longrightarrow> m a = m0 a"
  have "x \<in> bytes_at p (length bs)" if "unat (x - p) < length bs" for x
    using that unfolding bytes_at_def by (intro image_eqI [of _ _ "unat (x - p)"]) simp_all
  then show "\<forall>a. a \<notin> D \<longrightarrow> store_bytes m p bs a = m0 a" using w m by (auto simp: store_bytes_def)
qed

lemma value_within: "bytes_at q (value_size f) \<subseteq> D \<Longrightarrow> value_stores (within D) f q"
proof -
  assume D: "bytes_at q (value_size f) \<subseteq> D"
  have part: "within D (q + word_of_nat i) bs" if "i + length bs \<le> value_size f" for i bs
    using bytes_at_part [OF that, of q] D by blast
  have fits: "within D q bs" if "length bs \<le> value_size f" for bs
    using bytes_at_prefix [OF that, of q] D by blast
  have "unat (data_size f) \<le> value_size f" by (simp add: value_size_def Let_def)
  then show ?thesis unfolding value_stores_def Let_def
    by (intro conjI impI allI fits part) (auto simp: value_size_def Let_def)
qed

lemma area_field:
  fixes fs dest k desc r D
  defines "f \<equiv> field_at fs k" and "p \<equiv> field_addr fs dest k" and "sp \<equiv> field_size_ptr fs dest k"
    and "h \<equiv> PB_HTYPE (pf_type (field_at fs k))" and "sub \<equiv> PB_LTYPE (pf_type (field_at fs k)) = PB_LTYPE_SUBMESSAGE"
  assumes D: "message_area desc (Suc r) fs dest \<subseteq> D" and k: "k \<in> entries fs"
  shows "h = PB_HTYPE_OPTIONAL \<and> sp \<noteq> p \<Longrightarrow> sp \<in> D"
    and "h = PB_HTYPE_REPEATED \<or> h = PB_HTYPE_ONEOF \<Longrightarrow> bytes_at sp 4 \<subseteq> D"
    and "q \<in> item_addrs f p \<Longrightarrow> sub \<Longrightarrow> message_area desc r (desc (pf_ptr f)) q \<subseteq> D"
    and "q \<in> item_addrs f p \<Longrightarrow> \<not> (sub \<and> h \<noteq> PB_HTYPE_ONEOF) \<Longrightarrow> bytes_at q (value_size f) \<subseteq> D"
proof -
  have "(if h = PB_HTYPE_OPTIONAL \<and> sp \<noteq> p then {sp} else {}) \<union>
      (if h = PB_HTYPE_REPEATED \<or> h = PB_HTYPE_ONEOF then bytes_at sp 4 else {}) \<union>
      (\<Union>q \<in> item_addrs f p. (if sub then message_area desc r (desc (pf_ptr f)) q else {}) \<union>
        (if sub \<and> h \<noteq> PB_HTYPE_ONEOF then {} else bytes_at q (value_size f))) \<subseteq> message_area desc (Suc r) fs dest"
    (is "?opt \<union> ?cnt \<union> (\<Union>q \<in> ?Q. ?sub q \<union> ?val q) \<subseteq> _")
    unfolding message_area.simps Let_def f_def p_def sp_def h_def sub_def by (rule UN_upper [OF k])
  then have a: "?opt \<subseteq> D" "?cnt \<subseteq> D" "\<And>q. q \<in> ?Q \<Longrightarrow> ?sub q \<subseteq> D" "\<And>q. q \<in> ?Q \<Longrightarrow> ?val q \<subseteq> D"
    using D by blast+
  show "sp \<in> D" if "h = PB_HTYPE_OPTIONAL \<and> sp \<noteq> p" using a(1) that by simp
  show "bytes_at sp 4 \<subseteq> D" if "h = PB_HTYPE_REPEATED \<or> h = PB_HTYPE_ONEOF" using a(2) that by (simp only: if_True)
  show "message_area desc r (desc (pf_ptr f)) q \<subseteq> D" if "q \<in> item_addrs f p" "sub" using a(3) [OF that(1)] that(2) by simp
  show "bytes_at q (value_size f) \<subseteq> D" if "q \<in> item_addrs f p" "\<not> (sub \<and> h \<noteq> PB_HTYPE_ONEOF)"
    using a(4) [OF that(1)] that(2) by (simp only: if_False)
qed

lemma whole_within: "bytes_at q (value_size f) \<subseteq> D \<Longrightarrow> length bs = unat (data_size f) \<Longrightarrow> within D q bs"
  using bytes_at_prefix [of "length bs" "value_size f" q] by (auto simp: value_size_def Let_def)

lemma area_stores:
  "message_area desc r fs dest \<subseteq> D \<Longrightarrow> static_message desc r fs \<Longrightarrow>
   message_stores (within D) desc r fs dest \<and> default_stores (within D) desc r fs dest"
proof (induction r arbitrary: fs dest)
  case (Suc r)
  note F = area_field [OF Suc.prems(1)]
  have S: "message_stores (within D) desc r (desc (pf_ptr (field_at fs k))) q" "default_stores (within D) desc r (desc (pf_ptr (field_at fs k))) q"
    if "k \<in> entries fs" "q \<in> item_addrs (field_at fs k) (field_addr fs dest k)" "PB_LTYPE (pf_type (field_at fs k)) = PB_LTYPE_SUBMESSAGE" for k q
    using Suc.IH [OF F(3) [OF that] static_sub [OF Suc.prems(2) that(3)]] by blast+
  have one: "within D q [b]" if "q \<in> D" for q b using that by simp
  have four: "within D q bs" if "bytes_at q 4 \<subseteq> D" "length bs = 4" for q bs using that by simp
  have "message_stores (within D) desc (Suc r) fs dest"
    unfolding message_stores.simps Let_def if_bool_eq_conj
    apply (intro ballI conjI impI allI)
    subgoal by (rule one, rule F(1))
    subgoal by (rule four, rule F(2))
    subgoal by (rule S(1))
    subgoal by (rule S(2))
    subgoal by (rule whole_within, rule F(4)) simp_all
    subgoal by (rule value_within, rule F(4)) simp_all
    done
  moreover have "default_stores (within D) desc (Suc r) fs dest"
    unfolding default_stores.simps Let_def if_bool_eq_conj
    apply (intro ballI conjI impI allI)
    subgoal by (rule one, rule F(1))
    subgoal by (rule four, rule F(2)) (simp_all add: length_le_bytes)
    subgoal by (rule S(2) [OF _ own_item]) simp_all
    subgoal by (rule whole_within, rule F(4) [OF _ own_item]) simp_all
    subgoal by (rule whole_within, rule F(4) [OF _ own_item]) simp_all
    done
  ultimately show ?case ..
qed simp


definition array_fields :: "pb_field list" where
  "array_fields =
     [\<lparr>pf_tag = 1, pf_type = 0x27, data_offset = 4, size_offset = -4, data_size = 16, array_size = 3, pf_ptr = 0\<rparr>,
      \<lparr>pf_tag = 2, pf_type = 0x08, data_offset = 0, size_offset = 0, data_size = 4, array_size = 0, pf_ptr = 96\<rparr>]"

definition hostile_state :: "(unit, unit) pb_state" where
  "hostile_state =
     \<lparr>ps_stream = pb_istream_from_buffer [0x0A, 0xFF, 0xFF, 0xFF, 0xFF, 0x0F] 6, ps_mem = (\<lambda>a. 7), ps_heap = (), ps_count = 0\<rparr>"


subsection \<open>Stores and pointers the code gets wrong\<close>

text \<open>A message without fields still matches field number zero: its sentinel is found, and the value is
  decoded as a required boolean into the first byte of the message.\<close>

lemma empty_message_takes_tag_zero:
  "map_option (\<lambda>(ok, st). (ok, ps_mem st 1000)) (pb_decode_noinit 3 nested_env [] 1000
     \<lparr>ps_stream = pb_istream_from_buffer [0x01, 0x05] 2, ps_mem = (\<lambda>a. 7), ps_heap = (), ps_count = 0\<rparr>) = Some (True, 1)"
  by code_simp
text \<open>Initialising an array of fixed length stores a zero of four bytes through the size pointer, which is
  the array itself: two bytes past this array of two.\<close>

lemma fixed_array_default_overruns:
  "map_option (\<lambda>m. m 1003) (pb_message_set_to_defaults 3 (\<lambda>_. [])
     [\<lparr>pf_tag = 1, pf_type = 0x21, data_offset = 0, size_offset = 0, data_size = 1, array_size = 2, pf_ptr = 0\<rparr>] 1000 (\<lambda>a. 7)) = Some 0"
  by code_simp

text \<open>A union with an integer and an allocated string: when the string arrives after the integer, the
  integer is taken for the old pointer and given to the allocator, which here records it.\<close>

definition union_fields :: "pb_field list" where
  "union_fields =
     [\<lparr>pf_tag = 1, pf_type = 0x35, data_offset = 8, size_offset = -8, data_size = 8, array_size = 0, pf_ptr = 0\<rparr>,
      \<lparr>pf_tag = 2, pf_type = 0xB7, data_offset = 0xFFFFFFFF, size_offset = -8, data_size = 8, array_size = 0, pf_ptr = 0\<rparr>]"

definition recording_env :: "(unit, u64) pb_dec_env" where
  "recording_env =
     \<lparr>de_callback = (\<lambda>s n. Inr (s, False)), de_realloc = (\<lambda>h m p n. (0, p, m)), de_free = (\<lambda>h m p. (h, m)),
      de_fields = (\<lambda>a. []), de_user = (\<lambda>f field p st. (False, st)), de_extension = (\<lambda>f e tag w st. (False, st))\<rparr>"

lemma union_passes_integer_to_realloc:
  "map_option (\<lambda>(ok, it, st). (ok, ps_heap st)) (decode_field 4 recording_env (\<lambda>fs dest st. None) PB_WT_STRING (iter_at union_fields 1000 1)
     \<lparr>ps_stream = pb_istream_from_buffer [1, 0x41] 2, ps_mem = (\<lambda>a. if a = 1000 then 1 else if a = 1008 then 0xEF else 0),
      ps_heap = 0, ps_count = 0\<rparr>) = Some (False, 0xEF)"
  by code_simp

end
