(* ===== verification/PbTyped.thy ===== *)
theory PbTyped
  imports PbSafe
begin

text \<open>The booleans of a decoded message. In C a \<^verbatim>\<open>bool\<close> is read as 0 or 1, and reading any other byte
  from one is undefined, so a decoder fed with hostile bytes must never store one. The locale
  \<open>store_invariant\<close> is interpreted on the invariant that the booleans of a message, the \<^verbatim>\<open>has_\<close> markers of its
  optional fields and those of its submessages hold 0 or 1.\<close>

fun bool_addrs :: "(addr \<Rightarrow> pb_field list) \<Rightarrow> nat \<Rightarrow> pb_field list \<Rightarrow> addr \<Rightarrow> addr set" where
  "bool_addrs desc 0 fs dest = {}"
| "bool_addrs desc (Suc r) fs dest =
     (\<Union>k \<in> {..<field_count fs}.
       (let f = field_at fs k; p = field_addr fs dest k; sp = field_size_ptr fs dest k; ltype = PB_LTYPE (pf_type f) in
        (if PB_HTYPE (pf_type f) = PB_HTYPE_OPTIONAL \<and> sp \<noteq> p then {sp} else {}) \<union>
        (\<Union>q \<in> item_addrs f p.
          (if ltype = PB_LTYPE_SUBMESSAGE then bool_addrs desc r (desc (pf_ptr f)) q
           else if ltype = PB_LTYPE_BOOL then {q} else {}))))"

text \<open>The other bytes of the message. A boolean with a default value in the descriptors counts here: its
  default could be any byte.\<close>

fun data_addrs :: "(addr \<Rightarrow> pb_field list) \<Rightarrow> nat \<Rightarrow> pb_field list \<Rightarrow> addr \<Rightarrow> addr set" where
  "data_addrs desc 0 fs dest = {}"
| "data_addrs desc (Suc r) fs dest =
     (\<Union>k \<in> entries fs.
       (let f = field_at fs k; p = field_addr fs dest k; sp = field_size_ptr fs dest k; htype = PB_HTYPE (pf_type f);
            ltype = PB_LTYPE (pf_type f) in
        (if htype = PB_HTYPE_REPEATED \<or> htype = PB_HTYPE_ONEOF then bytes_at sp 4 else {}) \<union>
        (\<Union>q \<in> item_addrs f p.
          (if ltype = PB_LTYPE_SUBMESSAGE then data_addrs desc r (desc (pf_ptr f)) q
           else if ltype = PB_LTYPE_BOOL \<and> pf_ptr f = 0 then {} else bytes_at q (value_size f)))))"

definition bools_ok :: "addr set \<Rightarrow> mem \<Rightarrow> bool" where
  "bools_ok B m \<longleftrightarrow> (\<forall>a \<in> B. m a \<in> {0, 1})"

definition keeps_bools :: "addr set \<Rightarrow> addr \<Rightarrow> byte list \<Rightarrow> bool" where
  "keeps_bools B p bs \<longleftrightarrow> (\<forall>i < length bs. p + word_of_nat i \<in> B \<longrightarrow> bs ! i \<in> {0, 1})"

interpretation typed: store_invariant "bools_ok B" "keeps_bools B" for B
proof
  fix p bs m
  assume k: "keeps_bools B p bs" and m: "bools_ok B m"
  have "bs ! unat (a - p) \<in> {0, 1}" if "a \<in> B" "unat (a - p) < length bs" for a
    using k that by (auto simp: keeps_bools_def dest!: spec [of _ "unat (a - p)"])
  then show "bools_ok B (store_bytes m p bs)" using m by (auto simp: bools_ok_def store_bytes_def)
qed

lemma bool_bytes_keep: "set bs \<subseteq> {0, 1} \<Longrightarrow> keeps_bools B p bs"
  by (auto simp: keeps_bools_def dest: nth_mem)

lemma other_bytes_keep: "bytes_at p n \<inter> B = {} \<Longrightarrow> length bs \<le> n \<Longrightarrow> keeps_bools B p bs"
proof -
  assume B: "bytes_at p n \<inter> B = {}" and n: "length bs \<le> n"
  have "p + word_of_nat i \<in> bytes_at p n" if "i < length bs" for i using that n by (auto simp: bytes_at_def)
  then show ?thesis using B unfolding keeps_bools_def by blast
qed

lemma part_keeps: "bytes_at q n \<inter> B = {} \<Longrightarrow> i + length bs \<le> n \<Longrightarrow> keeps_bools B (q + word_of_nat i) bs"
  using bytes_at_part [of i "length bs" n q] by (intro other_bytes_keep [of _ "length bs"]) auto

lemma value_keeps:
  assumes "PB_LTYPE (pf_type f) = PB_LTYPE_BOOL \<or> bytes_at q (value_size f) \<inter> B = {}"
  shows "value_stores (keeps_bools B) f q"
proof -
  have s: "keeps_bools B q [0]" "keeps_bools B q [1]" by (simp_all add: bool_bytes_keep)
  have "keeps_bools B q bs" if "bytes_at q (value_size f) \<inter> B = {}" "length bs \<le> value_size f" for bs
    by (rule other_bytes_keep [OF that])
  moreover have "keeps_bools B (q + word_of_nat i) bs" if "bytes_at q (value_size f) \<inter> B = {}" "i + length bs \<le> value_size f" for i bs
    by (rule part_keeps [OF that])
  ultimately show ?thesis using s assms unfolding value_stores_def Let_def
    by (auto simp: value_size_def Let_def)
qed

lemma data_field:
  fixes fs dest k desc r B
  defines "f \<equiv> field_at fs k" and "p \<equiv> field_addr fs dest k" and "sp \<equiv> field_size_ptr fs dest k"
    and "h \<equiv> PB_HTYPE (pf_type (field_at fs k))" and "l \<equiv> PB_LTYPE (pf_type (field_at fs k))"
  assumes B: "data_addrs desc (Suc r) fs dest \<inter> B = {}" and k: "k \<in> entries fs"
  shows "h = PB_HTYPE_REPEATED \<or> h = PB_HTYPE_ONEOF \<Longrightarrow> bytes_at sp 4 \<inter> B = {}"
    and "q \<in> item_addrs f p \<Longrightarrow> l = PB_LTYPE_SUBMESSAGE \<Longrightarrow> data_addrs desc r (desc (pf_ptr f)) q \<inter> B = {}"
    and "q \<in> item_addrs f p \<Longrightarrow> l \<noteq> PB_LTYPE_SUBMESSAGE \<Longrightarrow> \<not> (l = PB_LTYPE_BOOL \<and> pf_ptr f = 0) \<Longrightarrow> bytes_at q (value_size f) \<inter> B = {}"
proof -
  have "(if h = PB_HTYPE_REPEATED \<or> h = PB_HTYPE_ONEOF then bytes_at sp 4 else {}) \<union>
      (\<Union>q \<in> item_addrs f p. if l = PB_LTYPE_SUBMESSAGE then data_addrs desc r (desc (pf_ptr f)) q
        else if l = PB_LTYPE_BOOL \<and> pf_ptr f = 0 then {} else bytes_at q (value_size f)) \<subseteq> data_addrs desc (Suc r) fs dest"
    (is "?cnt \<union> (\<Union>q \<in> ?Q. ?val q) \<subseteq> _")
    unfolding data_addrs.simps Let_def f_def p_def sp_def h_def l_def by (rule UN_upper [OF k])
  then have a: "?cnt \<inter> B = {}" "\<And>q. q \<in> ?Q \<Longrightarrow> ?val q \<inter> B = {}" using B by blast+
  show "bytes_at sp 4 \<inter> B = {}" if "h = PB_HTYPE_REPEATED \<or> h = PB_HTYPE_ONEOF" using a(1) that by (simp only: if_True)
  show "data_addrs desc r (desc (pf_ptr f)) q \<inter> B = {}" if "q \<in> item_addrs f p" "l = PB_LTYPE_SUBMESSAGE"
    using a(2) [OF that(1)] that(2) by simp
  show "bytes_at q (value_size f) \<inter> B = {}" if "q \<in> item_addrs f p" "l \<noteq> PB_LTYPE_SUBMESSAGE" "\<not> (l = PB_LTYPE_BOOL \<and> pf_ptr f = 0)"
    using a(2) [OF that(1)] that(2,3) by (simp only: if_False)
qed

lemma typed_stores:
  "data_addrs desc r fs dest \<inter> B = {} \<Longrightarrow> static_message desc r fs \<Longrightarrow>
   message_stores (keeps_bools B) desc r fs dest \<and> default_stores (keeps_bools B) desc r fs dest"
proof (induction r arbitrary: fs dest)
  case (Suc r)
  note F = data_field [OF Suc.prems(1)]
  have S: "message_stores (keeps_bools B) desc r (desc (pf_ptr (field_at fs k))) q" "default_stores (keeps_bools B) desc r (desc (pf_ptr (field_at fs k))) q"
    if "k \<in> entries fs" "q \<in> item_addrs (field_at fs k) (field_addr fs dest k)" "PB_LTYPE (pf_type (field_at fs k)) = PB_LTYPE_SUBMESSAGE" for k q
    using Suc.IH [OF F(2) [OF that] static_sub [OF Suc.prems(2) that(3)]] by blast+
  have one: "keeps_bools B q [0]" "keeps_bools B q [1]" for q by (simp_all add: bool_bytes_keep)
  have zeros: "keeps_bools B q (replicate n 0)" for q n by (rule bool_bytes_keep) auto
  have four: "keeps_bools B q bs" if "bytes_at q 4 \<inter> B = {}" "length bs = 4" for q bs
    using that by (intro other_bytes_keep [of _ 4]) simp_all
  have whole: "keeps_bools B q bs" if "bytes_at q (value_size f) \<inter> B = {}" "length bs = unat (data_size f)" for q bs f
    by (rule other_bytes_keep [OF that(1)]) (simp add: that(2) value_size_def Let_def)
  have "message_stores (keeps_bools B) desc (Suc r) fs dest"
    unfolding message_stores.simps Let_def if_bool_eq_conj
    apply (intro ballI conjI impI allI)
    subgoal by (rule one)
    subgoal by (rule four, rule F(1))
    subgoal by (rule S(1))
    subgoal by (rule S(2))
    subgoal by (rule zeros)
    subgoal by (rule value_keeps) (use F(3) in blast)
    done
  moreover have "default_stores (keeps_bools B) desc (Suc r) fs dest"
    unfolding default_stores.simps Let_def if_bool_eq_conj
    apply (intro ballI conjI impI allI)
    subgoal by (rule one)
    subgoal by (rule four, rule F(1)) (simp_all add: length_le_bytes)
    subgoal by (rule S(2) [OF _ own_item]) simp_all
    subgoal by (rule zeros)
    subgoal by (rule whole, rule F(3) [OF _ own_item]) simp_all
    done
  ultimately show ?case ..
qed simp

text \<open>C9. The booleans of a message of static fields, and the markers of its optional fields, hold 0 or 1
  after decoding if they did before, whatever the bytes of the stream, and whether decoding succeeds or
  not. The layout keeps the booleans apart from the other bytes of the message, which a union of a boolean
  and an integer does not, and booleans have no default value in the descriptors.\<close>

theorem pb_decode_keeps_bools:
  assumes "static_message (de_fields env) r fs" "callback_fits (de_callback env)"
    and "bool_addrs (de_fields env) r fs dest \<inter> data_addrs (de_fields env) r fs dest = {}"
  shows "\<exists>N. \<forall>n st. N + bytes_left (ps_stream st) \<le> n \<and> (\<forall>a \<in> bool_addrs (de_fields env) r fs dest. ps_mem st a \<in> {0, 1}) \<longrightarrow>
    (\<exists>ok st'. pb_decode n env fs dest st = Some (ok, st') \<and>
       (\<forall>a \<in> bool_addrs (de_fields env) r fs dest. ps_mem st' a \<in> {0, 1}))"
proof -
  define B where "B = bool_addrs (de_fields env) r fs dest"
  obtain N where N: "\<And>n st dest. N + bytes_left (ps_stream st) \<le> n \<Longrightarrow> \<exists>ok st'. pb_decode n env fs dest st = Some (ok, st')"
    using decode_returns [OF static_plain [OF assms(1)]] by blast
  have s: "message_stores (keeps_bools B) (de_fields env) r fs dest \<and> default_stores (keeps_bools B) (de_fields env) r fs dest"
    using assms(3) unfolding B_def by (intro typed_stores [OF _ assms(1)]) blast
  have "bools_ok B (ps_mem st')" if "bools_ok B (ps_mem st)" "pb_decode n env fs dest st = Some (ok, st')" for n st ok st'
    using s by (intro typed.dec_keepsD [OF typed.keeps_pb_decode [OF assms(2,1)] that]) simp_all
  then show ?thesis using N unfolding B_def [symmetric] bools_ok_def by (intro exI [of _ N] allI impI) blast
qed

definition bool_fields :: "pb_field list" where
  "bool_fields =
     [\<lparr>pf_tag = 1, pf_type = 0x10, data_offset = 1, size_offset = -1, data_size = 1, array_size = 0, pf_ptr = 0\<rparr>,
      \<lparr>pf_tag = 2, pf_type = 0x02, data_offset = 2, size_offset = 0, data_size = 4, array_size = 0, pf_ptr = 0\<rparr>]"

definition bool_state :: "(unit, unit) pb_state" where
  "bool_state =
     \<lparr>ps_stream = pb_istream_from_buffer [0x08, 0xFE, 0x01, 0x10, 0xFF] 5, ps_mem = (\<lambda>a. 0), ps_heap = (), ps_count = 0\<rparr>"

theorem pb_decode_keeps_bools_witness:
  "\<exists>n ok st'. pb_decode n nested_env bool_fields 1000 bool_state = Some (ok, st') \<and> ps_mem st' 1001 \<in> {0, 1}"
proof -
  have s: "static_message (de_fields nested_env) (Suc 0) bool_fields" "callback_fits (de_callback nested_env)"
    by (simp_all add: bool_fields_def nested_env_def static_field_def PB_ATYPE_def PB_LTYPE_def callback_fits_def)
  have b: "bool_addrs (de_fields nested_env) (Suc 0) bool_fields 1000 = {1000, 1001}"
    by (simp add: bool_fields_def field_count_def field_at_def in_union_def field_extent_def lessThan_nat_numeral lessThan_Suc
        PB_HTYPE_def PB_LTYPE_def item_addrs_def Let_def insert_commute)
  have d: "a \<notin> data_addrs (de_fields nested_env) (Suc 0) bool_fields 1000" if "a = 1000 \<or> a = 1001" for a
    using that by (auto simp: bool_fields_def entries_def field_count_def field_at_def in_union_def field_extent_def lessThan_nat_numeral
        lessThan_Suc PB_HTYPE_def PB_LTYPE_def item_addrs_def value_size_def bytes_at_iff Let_def)
  have "bool_addrs (de_fields nested_env) (Suc 0) bool_fields 1000 \<inter> data_addrs (de_fields nested_env) (Suc 0) bool_fields 1000 = {}"
    unfolding b using d by blast
  from pb_decode_keeps_bools [OF s this] obtain N where
    "\<And>n. N + bytes_left (ps_stream bool_state) \<le> n \<and> (\<forall>a \<in> {1000, 1001}. ps_mem bool_state a \<in> {0, 1}) \<Longrightarrow>
      \<exists>ok st'. pb_decode n nested_env bool_fields 1000 bool_state = Some (ok, st') \<and> (\<forall>a \<in> {1000, 1001}. ps_mem st' a \<in> {0, 1})"
    unfolding b by blast
  moreover have "\<forall>a \<in> {1000, 1001}. ps_mem bool_state a \<in> {0, 1}" by (simp add: bool_state_def)
  ultimately obtain n ok st' where
    "pb_decode n nested_env bool_fields 1000 bool_state = Some (ok, st')" "\<forall>a \<in> {1000, 1001}. ps_mem st' a \<in> {0, 1}"
    by blast
  then show ?thesis by blast
qed

end
